(* ===== verification/Prelude.thy ===== *)
theory Prelude
  imports Main "HOL-Library.Word"
begin

text \<open>
  Shared vocabulary of the development.

  C++ code can go wrong in ways that are not return values: a failed \<open>ASSERT\<close> panics the kernel,
  an index outside an allocation, a read of an object that was never constructed (or already
  destroyed), a null dereference and a division by zero are undefined. Every such event is a value
  of the type \<open>fault\<close>; a computation that may fault has the type \<open>'a run = fault + 'a\<close>. An error code
  that the code returns on purpose (\<open>Result(ENOMEM)\<close>) is an ordinary value of type \<open>'a ret\<close>,
  so \<open>('a ret) run\<close> is a function that may return a result, return an error code or fault.

  The theory also has the primitives of the C++ object model that the containers of
  \<open>kernel/kstd\<close> use (raw storage from \<open>kcalloc\<close>, placement new, explicit destructor calls) and one
  combinator for counting loops with its invariant rule.
\<close>

section \<open>Collections of simplification rules\<close>

named_theorems run_simps \<open>evaluation of the fault monad\<close>
named_theorems cell_simps \<open>evaluation of storage primitives\<close>

section \<open>Faults and error codes\<close>

datatype fault =
    AssertFailed  \<comment> \<open>\<open>ASSERT(...)\<close> or \<open>PANIC(...)\<close>\<close>
  | OutOfBounds   \<comment> \<open>access outside an allocation\<close>
  | DeadObject    \<comment> \<open>use of an object outside its lifetime\<close>
  | NullDeref     \<comment> \<open>dereference of \<open>nullptr\<close>\<close>
  | DivByZero     \<comment> \<open>\<open>%\<close> or \<open>/\<close> by zero\<close>
  | Undefined     \<comment> \<open>a built-in applied outside its domain\<close>

type_synonym 'a run = "fault + 'a"

text \<open>The error numbers of \<open>kernel/api/errno.h\<close> that the modelled code returns.\<close>

datatype errno =
    EPERM | ENOENT | ESRCH | EINTR | EIO | EBADF | ECHILD | EAGAIN | ENOMEM | EACCES
  | EEXIST | ENOTDIR | EISDIR | EINVAL | ENOTTY | ESPIPE | EPIPE | ERANGE | ENOSYS | EOVERFLOW
  | ENODEV | EFAULT | EXDEV | ENOSPC | EROFS | EDEADLK | ENOTEMPTY | ENAMETOOLONG | ELOOP

fun errno_code :: "errno \<Rightarrow> int" where
  "errno_code EPERM = 1"
| "errno_code ENOENT = 2"
| "errno_code ESRCH = 3"
| "errno_code EINTR = 4"
| "errno_code EIO = 5"
| "errno_code EBADF = 9"
| "errno_code ECHILD = 10"
| "errno_code EAGAIN = 11"
| "errno_code ENOMEM = 12"
| "errno_code EACCES = 13"
| "errno_code EEXIST = 17"
| "errno_code ENOTDIR = 20"
| "errno_code EISDIR = 21"
| "errno_code EINVAL = 22"
| "errno_code ENOTTY = 25"
| "errno_code ESPIPE = 29"
| "errno_code EPIPE = 32"
| "errno_code ERANGE = 34"
| "errno_code ENOSYS = 88"
| "errno_code EOVERFLOW = 139"
| "errno_code ENODEV = 19"
| "errno_code EFAULT = 14"
| "errno_code EXDEV = 18"
| "errno_code ENOSPC = 28"
| "errno_code EROFS = 30"
| "errno_code EDEADLK = 45"
| "errno_code ENOTEMPTY = 90"
| "errno_code ENAMETOOLONG = 91"
| "errno_code ELOOP = 92"

lemma errno_code_pos [simp]: "0 < errno_code e"
  by (cases e) simp_all

lemma inj_errno_code: "errno_code a = errno_code b \<Longrightarrow> a = b"
  by (cases a; cases b) simp_all

type_synonym 'a ret = "errno + 'a"

section \<open>The fault monad\<close>

definition bindR :: "'a run \<Rightarrow> ('a \<Rightarrow> 'b run) \<Rightarrow> 'b run" where
  "bindR m f = (case m of Inl e \<Rightarrow> Inl e | Inr x \<Rightarrow> f x)"

definition assertR :: "bool \<Rightarrow> unit run" where
  "assertR b = (if b then Inr () else Inl AssertFailed)"

lemma bindR_simps [simp, run_simps]:
  "bindR (Inl e) f = Inl e"
  "bindR (Inr x) f = f x"
  by (simp_all add: bindR_def)

lemma bindR_Inr [simp]: "bindR m Inr = m"
  by (cases m) simp_all

lemma bindR_assoc [run_simps]: "bindR (bindR m f) g = bindR m (\<lambda>x. bindR (f x) g)"
  by (cases m) simp_all

lemma bindR_eq_Inr_iff: "bindR m f = Inr y \<longleftrightarrow> (\<exists>x. m = Inr x \<and> f x = Inr y)"
  by (cases m) simp_all

lemma bindR_InrE [elim]:
  assumes "bindR m f = Inr y"
  obtains x where "m = Inr x" "f x = Inr y"
  using assms by (auto simp: bindR_eq_Inr_iff)

lemma bindR_cong:
  "m = m' \<Longrightarrow> (\<And>x. m' = Inr x \<Longrightarrow> f x = g x) \<Longrightarrow> bindR m f = bindR m' g"
  by (cases m') simp_all

lemma assertR_simps [simp, run_simps]:
  "assertR True = Inr ()"
  "assertR False = Inl AssertFailed"
  by (simp_all add: assertR_def)

lemma assertR_eq_Inr_iff [simp]: "assertR b = Inr u \<longleftrightarrow> b"
  by (simp add: assertR_def)

text \<open>An executable test on the result of a computation, for examples.\<close>

definition on_result :: "('b \<Rightarrow> bool) \<Rightarrow> 'a + 'b \<Rightarrow> bool" where
  "on_result P s = (case s of Inl _ \<Rightarrow> False | Inr x \<Rightarrow> P x)"

lemma on_result_iff: "on_result P s \<longleftrightarrow> (\<exists>x. s = Inr x \<and> P x)"
  by (cases s) (simp_all add: on_result_def)

text \<open>Computations that may also not return (\<open>None\<close>): the loops without a termination argument.\<close>

type_synonym 'a prun = "('a run) option"

definition bindP :: "'a prun \<Rightarrow> ('a \<Rightarrow> 'b prun) \<Rightarrow> 'b prun" where
  "bindP m f =
     (case m of None \<Rightarrow> None | Some r \<Rightarrow> (case r of Inl e \<Rightarrow> Some (Inl e) | Inr x \<Rightarrow> f x))"

lemma bindP_simps [simp, run_simps]:
  "bindP None f = None"
  "bindP (Some (Inl e)) f = Some (Inl e)"
  "bindP (Some (Inr x)) f = f x"
  by (simp_all add: bindP_def)

section \<open>Counting loops\<close>

text \<open>\<open>for_run lo hi body s\<close> is \<open>for(size_t i = lo; i < hi; i++) body\<close> over the state \<open>s\<close>.\<close>

function for_run :: "nat \<Rightarrow> nat \<Rightarrow> (nat \<Rightarrow> 's \<Rightarrow> 's run) \<Rightarrow> 's \<Rightarrow> 's run" where
  "for_run lo hi body s =
     (if lo < hi then bindR (body lo s) (\<lambda>s'. for_run (Suc lo) hi body s') else Inr s)"
  by pat_completeness auto
termination
  by (relation "measure (\<lambda>(lo, hi, body, s). hi - lo)") auto

declare for_run.simps [simp del]

lemma for_run_done [simp, run_simps]: "hi \<le> lo \<Longrightarrow> for_run lo hi body s = Inr s"
  by (subst for_run.simps) simp

lemma for_run_step [run_simps]:
  "lo < hi \<Longrightarrow> for_run lo hi body s = bindR (body lo s) (\<lambda>s'. for_run (Suc lo) hi body s')"
  by (subst for_run.simps) simp

text \<open>The invariant rule: a body that never faults and carries \<open>P i\<close> to \<open>P (Suc i)\<close>.\<close>

lemma for_run_rule:
  assumes "P lo s" "lo \<le> hi"
    and "\<And>i t. \<lbrakk>lo \<le> i; i < hi; P i t\<rbrakk> \<Longrightarrow> \<exists>t'. body i t = Inr t' \<and> P (Suc i) t'"
  shows "\<exists>t. for_run lo hi body s = Inr t \<and> P hi t"
  using assms
proof (induction lo hi body s rule: for_run.induct)
  case (1 lo hi body s)
  show ?case
  proof (cases "lo < hi")
    case True
    with "1.prems" obtain t where t: "body lo s = Inr t" "P (Suc lo) t" by blast
    have "\<exists>t'. for_run (Suc lo) hi body t = Inr t' \<and> P hi t'"
      by (rule "1.IH"[OF True t(2)]) (use "1.prems" True in auto)
    with True t show ?thesis by (simp add: for_run_step)
  next
    case False
    with "1.prems" show ?thesis by (simp add: le_antisym not_less)
  qed
qed

section \<open>Raw storage and object lifetimes\<close>

text \<open>
  A block returned by \<open>kcalloc(n, sizeof(T))\<close> is a list of \<open>n\<close> cells. \<open>None\<close> is raw memory, \<open>Some x\<close>
  a live object. \<open>new (&cells[i]) T(x)\<close> starts a lifetime, \<open>cells[i].~T()\<close> ends it. The block is
  always granted: allocation failure is outside the model (the containers never test for it).
\<close>

type_synonym 'a cells = "'a option list"

definition kcalloc :: "nat \<Rightarrow> 'a cells" where
  "kcalloc n = replicate n None"

definition cell_read :: "'a cells \<Rightarrow> nat \<Rightarrow> 'a run" where
  "cell_read cs i =
     (if i < length cs then (case cs ! i of None \<Rightarrow> Inl DeadObject | Some x \<Rightarrow> Inr x)
      else Inl OutOfBounds)"

definition cell_construct :: "'a cells \<Rightarrow> nat \<Rightarrow> 'a \<Rightarrow> 'a cells run" where
  "cell_construct cs i x = (if i < length cs then Inr (cs[i := Some x]) else Inl OutOfBounds)"

definition cell_destroy :: "'a cells \<Rightarrow> nat \<Rightarrow> 'a cells run" where
  "cell_destroy cs i =
     (if i < length cs then (case cs ! i of None \<Rightarrow> Inl DeadObject | Some _ \<Rightarrow> Inr (cs[i := None]))
      else Inl OutOfBounds)"

lemma length_kcalloc [simp]: "length (kcalloc n) = n"
  by (simp add: kcalloc_def)

lemma nth_kcalloc [simp]: "i < n \<Longrightarrow> kcalloc n ! i = None"
  by (simp add: kcalloc_def)

lemma cell_read_eq_Inr [cell_simps]:
  "cell_read cs i = Inr x \<longleftrightarrow> i < length cs \<and> cs ! i = Some x"
  by (auto simp: cell_read_def split: option.splits)

lemma cell_read_ok [simp]: "i < length cs \<Longrightarrow> cs ! i = Some x \<Longrightarrow> cell_read cs i = Inr x"
  by (simp add: cell_read_def)

lemma cell_construct_ok [simp]:
  "i < length cs \<Longrightarrow> cell_construct cs i x = Inr (cs[i := Some x])"
  by (simp add: cell_construct_def)

lemma cell_construct_oob [simp]:
  "length cs \<le> i \<Longrightarrow> cell_construct cs i x = Inl OutOfBounds"
  by (simp add: cell_construct_def)

lemma cell_destroy_ok [simp]:
  "i < length cs \<Longrightarrow> cs ! i = Some x \<Longrightarrow> cell_destroy cs i = Inr (cs[i := None])"
  by (simp add: cell_destroy_def)

section \<open>32-bit wrap-around\<close>

text \<open>\<open>size_t\<close> is 32 bits wide on the i386 target; a decrement of zero wraps.\<close>

definition sub32 :: "nat \<Rightarrow> nat \<Rightarrow> nat" where
  "sub32 a b = (a + 2 ^ 32 - b) mod 2 ^ 32"

lemma sub32_le:
  assumes "b \<le> a" "a < 2 ^ 32"
  shows "sub32 a b = a - b"
proof -
  have "a + 2 ^ 32 - b = (a - b) + 2 ^ 32" using assms(1) by simp
  moreover have "a - b < 2 ^ 32" using assms(2) by simp
  ultimately show ?thesis by (simp only: sub32_def mod_add_self2 mod_less)
qed

lemma sub32_zero_one: "sub32 0 1 = 4294967295"
  by (simp add: sub32_def)

definition add32 :: "nat \<Rightarrow> nat \<Rightarrow> nat" where
  "add32 a b = (a + b) mod 2 ^ 32"

lemma add32_less: "a + b < 2 ^ 32 \<Longrightarrow> add32 a b = a + b"
  by (simp only: add32_def mod_less)

type_synonym u8 = "8 word"
type_synonym u16 = "16 word"
type_synonym u32 = "32 word"

section \<open>Remainders and ring indices\<close>

definition modR :: "nat \<Rightarrow> nat \<Rightarrow> nat run" where
  "modR a n = (if n = 0 then Inl DivByZero else Inr (a mod n))"

lemma modR_pos [simp, run_simps]: "0 < n \<Longrightarrow> modR a n = Inr (a mod n)"
  by (simp add: modR_def)

text \<open>Distinct offsets below the capacity reach distinct cells of a ring.\<close>

lemma ring_index_inj_le:
  assumes "(f + i) mod n = (f + j) mod n" "i \<le> j" "j < (n::nat)"
  shows "i = j"
proof -
  have "n dvd (f + j) - (f + i)"
    using assms(1,2) by (metis add_le_cancel_left mod_eq_dvd_iff_nat)
  then have "n dvd j - i" by simp
  with assms(2,3) show ?thesis by (metis diff_is_0_eq dvd_imp_le le_antisym le_less_trans
        less_imp_diff_less not_less zero_less_iff_neq_zero)
qed

lemma ring_index_inj:
  assumes "(f + i) mod n = (f + j) mod n" "i < n" "j < (n::nat)"
  shows "i = j"
  using assms ring_index_inj_le[of f i n j] ring_index_inj_le[of f j n i] nat_le_linear by metis

lemma ring_index_eq_iff:
  "i < n \<Longrightarrow> j < n \<Longrightarrow> (f + i) mod n = (f + j) mod (n::nat) \<longleftrightarrow> i = j"
  by (metis ring_index_inj)

lemma ring_index_Suc: "(((f + i) mod n) + 1) mod n = (f + Suc i) mod (n::nat)"
  by (simp add: mod_simps)

lemma ring_pred:
  assumes "0 < n" "b = (f + Suc m) mod (n::nat)"
  shows "(if b = 0 then n - 1 else b - 1) = (f + m) mod n"
proof -
  have "b = (if Suc ((f + m) mod n) = n then 0 else Suc ((f + m) mod n))"
    using assms by (simp add: mod_Suc)
  then show ?thesis using assms(1) by (auto split: if_splits)
qed

definition ring_slice :: "'a list \<Rightarrow> nat \<Rightarrow> nat \<Rightarrow> nat \<Rightarrow> 'a list" where
  "ring_slice cs n f k = map (\<lambda>i. cs ! ((f + i) mod n)) [0..<k]"

lemma length_ring_slice [simp]: "length (ring_slice cs n f k) = k"
  by (simp add: ring_slice_def)

lemma nth_ring_slice [simp]: "i < k \<Longrightarrow> ring_slice cs n f k ! i = cs ! ((f + i) mod n)"
  by (simp add: ring_slice_def)

lemma ring_slice_0 [simp]: "ring_slice cs n f 0 = []"
  by (simp add: ring_slice_def)

lemma ring_slice_Suc_snoc: "ring_slice cs n f (Suc k) = ring_slice cs n f k @ [cs ! ((f + k) mod n)]"
  by (simp add: ring_slice_def)

lemma ring_slice_Suc_Cons:
  "ring_slice cs n f (Suc k) = cs ! (f mod n) # ring_slice cs n ((f + 1) mod n) k"
  by (simp add: ring_slice_def map_upt_Suc mod_simps del: upt_Suc)

text \<open>Writing the cell just after the slice does not disturb it.\<close>

lemma ring_slice_update_after:
  "k < n \<Longrightarrow> ring_slice (cs[(f + k) mod n := x]) n f k = ring_slice cs n f k"
  by (rule nth_equalityI) (auto simp: nth_list_update ring_index_eq_iff)

end
