(* ===== verification/FifoSpec.thy ===== *)
theory FifoSpec
  imports Prelude
begin

text \<open>
  The contract between a first-in first-out queue of \<open>kernel/kstd\<close> and its clients. A client (a
  pipe, a terminal, a socket) sees a queue only through its operations; the contract says what each
  does to the list of queued elements. \<open>fifo\<close> is what both queue classes promise, \<open>bounded_fifo\<close>
  adds the refusing \<open>push_back\<close> of \<open>kstd::circular_queue\<close>, \<open>growing_fifo\<close> the reallocating one of
  \<open>kstd::queue\<close>. The loops that clients run over a queue are defined once, over the operation
  they call, and proved once against the contract.
\<close>

section \<open>Client loops\<close>

text \<open>\<open>for(size_t i = 0; i < count; i++) buffer.set(i, queue.pop_front());\<close>\<close>

fun pop_n :: "('q \<Rightarrow> ('a \<times> 'q) run) \<Rightarrow> nat \<Rightarrow> 'q \<Rightarrow> ('a list \<times> 'q) run" where
  "pop_n pop 0 q = Inr ([], q)"
| "pop_n pop (Suc n) q =
     bindR (pop q) (\<lambda>(x, q'). bindR (pop_n pop n q') (\<lambda>(xs, q''). Inr (x # xs, q'')))"

text \<open>
  \<open>while(nwrote < count && flag) { flag = queue.push_back(buffer.get(nwrote)); nwrote++; }\<close>,
  with \<open>flag\<close> true on entry. The list is the part of the buffer not yet written; the result is the
  final \<open>nwrote\<close> and the queue.
\<close>

fun push_while :: "('q \<Rightarrow> 'a \<Rightarrow> (bool \<times> 'q) run) \<Rightarrow> 'a list \<Rightarrow> nat \<Rightarrow> 'q \<Rightarrow> (nat \<times> 'q) run" where
  "push_while push [] nwrote q = Inr (nwrote, q)"
| "push_while push (x # xs) nwrote q =
     bindR (push q x) (\<lambda>(flag, q').
       if flag then push_while push xs (Suc nwrote) q' else Inr (Suc nwrote, q'))"

section \<open>Operation sequences\<close>

text \<open>
  A sequence of queue operations, run on a plain list that refuses pushes beyond \<open>cap\<close> elements.
  Popping an empty list is a misuse of the queue classes and has no result.
\<close>

datatype 'a qop = Push 'a | PopFront | PopBack
datatype 'a qout = Pushed bool | Popped 'a

fun spec_step :: "nat \<Rightarrow> 'a qop \<Rightarrow> 'a list \<Rightarrow> ('a qout \<times> 'a list) option" where
  "spec_step cap (Push x) xs =
     Some (Pushed (length xs < cap), if length xs < cap then xs @ [x] else xs)"
| "spec_step cap PopFront xs = (case xs of [] \<Rightarrow> None | y # ys \<Rightarrow> Some (Popped y, ys))"
| "spec_step cap PopBack xs = (if xs = [] then None else Some (Popped (last xs), butlast xs))"

fun spec_run :: "nat \<Rightarrow> 'a qop list \<Rightarrow> 'a list \<Rightarrow> ('a qout list \<times> 'a list) option" where
  "spec_run cap [] xs = Some ([], xs)"
| "spec_run cap (op # ops) xs =
     (case spec_step cap op xs of None \<Rightarrow> None
      | Some (out, xs') \<Rightarrow>
          (case spec_run cap ops xs' of None \<Rightarrow> None
           | Some (outs, xs'') \<Rightarrow> Some (out # outs, xs'')))"

fun impl_step :: "('q \<Rightarrow> 'a \<Rightarrow> (bool \<times> 'q) run) \<Rightarrow> ('q \<Rightarrow> ('a \<times> 'q) run) \<Rightarrow> ('q \<Rightarrow> ('a \<times> 'q) run) \<Rightarrow>
    'a qop \<Rightarrow> 'q \<Rightarrow> ('a qout \<times> 'q) run" where
  "impl_step push popf popb (Push x) q = bindR (push q x) (\<lambda>(b, q'). Inr (Pushed b, q'))"
| "impl_step push popf popb PopFront q = bindR (popf q) (\<lambda>(x, q'). Inr (Popped x, q'))"
| "impl_step push popf popb PopBack q = bindR (popb q) (\<lambda>(x, q'). Inr (Popped x, q'))"

fun impl_run :: "('q \<Rightarrow> 'a \<Rightarrow> (bool \<times> 'q) run) \<Rightarrow> ('q \<Rightarrow> ('a \<times> 'q) run) \<Rightarrow> ('q \<Rightarrow> ('a \<times> 'q) run) \<Rightarrow>
    'a qop list \<Rightarrow> 'q \<Rightarrow> ('a qout list \<times> 'q) run" where
  "impl_run push popf popb [] q = Inr ([], q)"
| "impl_run push popf popb (op # ops) q =
     bindR (impl_step push popf popb op q) (\<lambda>(out, q').
       bindR (impl_run push popf popb ops q') (\<lambda>(outs, q''). Inr (out # outs, q'')))"

text \<open>
  The same for a queue that grows: a push never fails and returns nothing, so a sequence of
  operations answers with the list of popped elements.
\<close>

fun fifo_run :: "'a qop list \<Rightarrow> 'a list \<Rightarrow> ('a list \<times> 'a list) option" where
  "fifo_run [] xs = Some ([], xs)"
| "fifo_run (Push x # ops) xs = fifo_run ops (xs @ [x])"
| "fifo_run (PopFront # ops) xs =
     (if xs = [] then None else map_option (\<lambda>(ys, zs). (hd xs # ys, zs)) (fifo_run ops (tl xs)))"
| "fifo_run (PopBack # ops) xs =
     (if xs = [] then None else map_option (\<lambda>(ys, zs). (last xs # ys, zs)) (fifo_run ops (butlast xs)))"

fun grow_run :: "('q \<Rightarrow> 'a \<Rightarrow> 'q run) \<Rightarrow> ('q \<Rightarrow> ('a \<times> 'q) run) \<Rightarrow> ('q \<Rightarrow> ('a \<times> 'q) run) \<Rightarrow>
    'a qop list \<Rightarrow> 'q \<Rightarrow> ('a list \<times> 'q) run" where
  "grow_run push popf popb [] q = Inr ([], q)"
| "grow_run push popf popb (Push x # ops) q = bindR (push q x) (grow_run push popf popb ops)"
| "grow_run push popf popb (PopFront # ops) q =
     bindR (popf q) (\<lambda>(x, q'). bindR (grow_run push popf popb ops q') (\<lambda>(ys, q''). Inr (x # ys, q'')))"
| "grow_run push popf popb (PopBack # ops) q =
     bindR (popb q) (\<lambda>(x, q'). bindR (grow_run push popf popb ops q') (\<lambda>(ys, q''). Inr (x # ys, q'')))"

section \<open>What every queue promises\<close>

locale fifo =
  fixes pop_front :: "'q \<Rightarrow> ('a \<times> 'q) run"
    and pop_back :: "'q \<Rightarrow> ('a \<times> 'q) run"
    and peek_front :: "'q \<Rightarrow> 'a run"
    and peek_back :: "'q \<Rightarrow> 'a run"
    and num :: "'q \<Rightarrow> nat"
    and is_empty :: "'q \<Rightarrow> bool"
    and contents :: "'q \<Rightarrow> 'a list"
    and capacity :: "'q \<Rightarrow> nat"
    and wf :: "'q \<Rightarrow> bool"
  assumes num_contents: "wf q \<Longrightarrow> num q = length (contents q)"
    and is_empty_contents: "wf q \<Longrightarrow> is_empty q \<longleftrightarrow> contents q = []"
    and within_capacity: "wf q \<Longrightarrow> length (contents q) \<le> capacity q"
    and pop_front_Cons: "wf q \<Longrightarrow> contents q = x # xs \<Longrightarrow>
      \<exists>q'. pop_front q = Inr (x, q') \<and> wf q' \<and> contents q' = xs \<and> capacity q' = capacity q"
    and pop_back_snoc: "wf q \<Longrightarrow> contents q = xs @ [x] \<Longrightarrow>
      \<exists>q'. pop_back q = Inr (x, q') \<and> wf q' \<and> contents q' = xs \<and> capacity q' = capacity q"
    and peek_front_hd: "wf q \<Longrightarrow> contents q \<noteq> [] \<Longrightarrow> peek_front q = Inr (hd (contents q))"
    and peek_back_last: "wf q \<Longrightarrow> contents q \<noteq> [] \<Longrightarrow> peek_back q = Inr (last (contents q))"
begin

lemma pop_n_take:
  "wf q \<Longrightarrow> n \<le> length (contents q) \<Longrightarrow>
   \<exists>q'. pop_n pop_front n q = Inr (take n (contents q), q') \<and> wf q' \<and>
        contents q' = drop n (contents q) \<and> capacity q' = capacity q"
proof (induction n arbitrary: q)
  case 0
  then show ?case by simp
next
  case (Suc n)
  then obtain x xs where c: "contents q = x # xs" by (cases "contents q") auto
  with pop_front_Cons[OF Suc.prems(1)] obtain q1 where
    q1: "pop_front q = Inr (x, q1)" "wf q1" "contents q1 = xs" "capacity q1 = capacity q" by blast
  with Suc.prems c have "n \<le> length (contents q1)" by simp
  from Suc.IH[OF q1(2) this] q1 c show ?case by auto
qed

end

section \<open>Bounded queues\<close>

locale bounded_fifo = fifo +
  fixes push :: "'q \<Rightarrow> 'a \<Rightarrow> (bool \<times> 'q) run"
  assumes push_room: "wf q \<Longrightarrow> length (contents q) < capacity q \<Longrightarrow>
      \<exists>q'. push q x = Inr (True, q') \<and> wf q' \<and> contents q' = contents q @ [x] \<and>
           capacity q' = capacity q"
    and push_full: "wf q \<Longrightarrow> length (contents q) = capacity q \<Longrightarrow> push q x = Inr (False, q)"
begin

text \<open>
  The write loop stores what fits. Its counter also counts the refused element, so it exceeds the
  number of stored elements by one exactly when the data did not fit.
\<close>

lemma push_while_stores:
  "wf q \<Longrightarrow>
   \<exists>q'. push_while push xs k q =
          Inr (k + min (length xs) (Suc (capacity q - length (contents q))), q') \<and> wf q' \<and>
        contents q' = contents q @ take (capacity q - length (contents q)) xs \<and>
        capacity q' = capacity q"
proof (induction xs arbitrary: k q)
  case Nil
  then show ?case by simp
next
  case (Cons x xs)
  show ?case
  proof (cases "length (contents q) < capacity q")
    case True
    with push_room[OF Cons.prems, of x] obtain q1 where
      q1: "push q x = Inr (True, q1)" "wf q1" "contents q1 = contents q @ [x]"
        "capacity q1 = capacity q" by blast
    from True have "capacity q - length (contents q) = Suc (capacity q - Suc (length (contents q)))"
      by simp
    with Cons.IH[OF q1(2), of "Suc k"] q1 show ?thesis by auto
  next
    case False
    with within_capacity[OF Cons.prems] have full: "length (contents q) = capacity q" by simp
    with push_full[OF Cons.prems full, of x] Cons.prems show ?thesis by simp
  qed
qed

text \<open>The queue simulates the bounded list, operation by operation and for whole sequences.\<close>

lemma impl_step_refines:
  assumes "wf q" "spec_step (capacity q) op (contents q) = Some (out, xs')"
  shows "\<exists>q'. impl_step push pop_front pop_back op q = Inr (out, q') \<and> wf q' \<and>
           contents q' = xs' \<and> capacity q' = capacity q"
proof (cases op)
  case (Push x)
  show ?thesis
  proof (cases "length (contents q) < capacity q")
    case True
    from push_room[OF assms(1) this, of x] True assms(2) Push show ?thesis by auto
  next
    case False
    with within_capacity[OF assms(1)] have "length (contents q) = capacity q" by simp
    from push_full[OF assms(1) this, of x] False assms Push show ?thesis by auto
  qed
next
  case PopFront
  with assms(2) have "contents q = (case out of Popped y \<Rightarrow> y # xs')"
    by (auto split: list.splits)
  with pop_front_Cons[OF assms(1)] PopFront assms(2) show ?thesis
    by (auto split: list.splits)
next
  case PopBack
  with assms(2) have c: "contents q = xs' @ [last (contents q)]" "out = Popped (last (contents q))"
    by (auto split: if_splits)
  from pop_back_snoc[OF assms(1) c(1)] PopBack c(2) show ?thesis by auto
qed

lemma impl_run_refines:
  assumes "wf q" "spec_run (capacity q) ops (contents q) = Some (outs, xs')"
  shows "\<exists>q'. impl_run push pop_front pop_back ops q = Inr (outs, q') \<and> wf q' \<and>
           contents q' = xs' \<and> capacity q' = capacity q"
  using assms
proof (induction ops arbitrary: q outs)
  case Nil
  then show ?case by simp
next
  case (Cons op ops)
  from Cons.prems(2) obtain out xs1 outs' where
    s: "spec_step (capacity q) op (contents q) = Some (out, xs1)"
    and r: "spec_run (capacity q) ops xs1 = Some (outs', xs')" and outs: "outs = out # outs'"
    by (auto split: option.splits)
  from impl_step_refines[OF Cons.prems(1) s] obtain q1 where
    q1: "impl_step push pop_front pop_back op q = Inr (out, q1)" "wf q1" "contents q1 = xs1"
      "capacity q1 = capacity q" by blast
  from Cons.IH[OF q1(2), of outs'] q1 r outs show ?case by auto
qed

end

section \<open>Growing queues\<close>

locale growing_fifo = fifo +
  fixes push :: "'q \<Rightarrow> 'a \<Rightarrow> 'q run"
  assumes push_snoc: "wf q \<Longrightarrow>
      \<exists>q'. push q x = Inr q' \<and> wf q' \<and> contents q' = contents q @ [x]"
begin

text \<open>The queue simulates the list over every sequence of operations the list can run.\<close>

lemma grow_run_refines:
  assumes "wf q" "fifo_run ops (contents q) = Some (ys, zs)"
  shows "\<exists>q'. grow_run push pop_front pop_back ops q = Inr (ys, q') \<and> wf q' \<and> contents q' = zs"
  using assms
proof (induction ops arbitrary: q ys)
  case (Cons op ops)
  show ?case
  proof (cases op)
    case (Push x)
    from push_snoc[OF Cons.prems(1), of x] obtain q1 where
      "push q x = Inr q1" "wf q1" "contents q1 = contents q @ [x]" by blast
    with Cons.IH[of q1 ys] Cons.prems(2) Push show ?thesis by auto
  next
    case PopFront
    with Cons.prems(2) obtain ys' where c: "contents q = hd (contents q) # tl (contents q)"
      "ys = hd (contents q) # ys'" "fifo_run ops (tl (contents q)) = Some (ys', zs)"
      by (auto split: if_splits)
    from pop_front_Cons[OF Cons.prems(1) c(1)] obtain q1 where
      "pop_front q = Inr (hd (contents q), q1)" "wf q1" "contents q1 = tl (contents q)" by blast
    with Cons.IH[of q1 ys'] c(2,3) PopFront show ?thesis by auto
  next
    case PopBack
    with Cons.prems(2) obtain ys' where c: "contents q = butlast (contents q) @ [last (contents q)]"
      "ys = last (contents q) # ys'" "fifo_run ops (butlast (contents q)) = Some (ys', zs)"
      by (auto split: if_splits)
    from pop_back_snoc[OF Cons.prems(1) c(1)] obtain q1 where
      "pop_back q = Inr (last (contents q), q1)" "wf q1" "contents q1 = butlast (contents q)" by blast
    with Cons.IH[of q1 ys'] c(2,3) PopBack show ?thesis by auto
  qed
qed simp

end

end
