(* ===== verification/CircularQueue.thy ===== *)
theory CircularQueue
  imports FifoSpec
begin

text \<open>
  \<open>kstd::circular_queue\<close> (\<open>kernel/kstd/circular_queue.hpp\<close>): a ring buffer of fixed capacity, used by
  pipes, terminals, pseudo-terminals, input devices and sockets. Every instantiation in the kernel
  holds a trivially destructible type (bytes, booleans, pointers, plain event structs), so a
  destructor call leaves the storage as it is and a read of a vacated cell returns its old bytes: the
  storage is a plain list. A null storage pointer is the empty list, whose every access is out of
  bounds. \<open>size_t\<close> decrements wrap (\<open>sub32\<close>); indices stay below the capacity.
\<close>

section \<open>State and operations\<close>

record 'a cq =
  cq_storage :: "'a list"
  cq_capacity :: nat
  cq_size :: nat
  cq_front :: nat
  cq_back :: nat

definition mem_read :: "'a list \<Rightarrow> nat \<Rightarrow> 'a run" where
  "mem_read xs i = (if i < length xs then Inr (xs ! i) else Inl OutOfBounds)"

definition mem_write :: "'a list \<Rightarrow> nat \<Rightarrow> 'a \<Rightarrow> 'a list run" where
  "mem_write xs i v = (if i < length xs then Inr (xs[i := v]) else Inl OutOfBounds)"

text \<open>The constructor; \<open>zero\<close> is the value of a zeroed \<open>T\<close>, since \<open>kcalloc\<close> clears the block.\<close>

definition cq_new :: "'a \<Rightarrow> nat \<Rightarrow> 'a cq" where
  "cq_new zero n =
     \<lparr>cq_storage = replicate n zero, cq_capacity = n, cq_size = 0, cq_front = 0, cq_back = 0\<rparr>"

definition cq_moved_out :: "'a cq" where
  "cq_moved_out =
     \<lparr>cq_storage = [], cq_capacity = 0, cq_size = 0, cq_front = 0, cq_back = 0\<rparr>"

text \<open>The element-wise copy loop of the copy operations: cells \<open>0 .. size - 1\<close>.\<close>

definition cq_copy_cells :: "'a list \<Rightarrow> 'a list \<Rightarrow> nat \<Rightarrow> 'a list run" where
  "cq_copy_cells src dst n =
     for_run 0 n (\<lambda>i d. bindR (mem_read src i) (\<lambda>v. mem_write d i v)) dst"

definition cq_copy :: "'a \<Rightarrow> 'a cq \<Rightarrow> 'a cq run" where
  "cq_copy zero other =
     bindR (cq_copy_cells (cq_storage other) (replicate (cq_size other) zero) (cq_size other))
       (\<lambda>st. Inr (other\<lparr>cq_storage := st\<rparr>))"

definition cq_move :: "'a cq \<Rightarrow> 'a cq \<times> 'a cq" where
  "cq_move other = (other, cq_moved_out)"

definition cq_is_empty :: "'a cq \<Rightarrow> bool" where
  "cq_is_empty q \<longleftrightarrow> cq_size q = 0"

definition cq_push_back :: "'a cq \<Rightarrow> 'a \<Rightarrow> (bool \<times> 'a cq) run" where
  "cq_push_back q elem =
     (if cq_size q = cq_capacity q then Inr (False, q)
      else
        bindR (if cq_size q = 0 then Inr (0, 0)
               else bindR (modR (cq_back q + 1) (cq_capacity q)) (\<lambda>b. Inr (cq_front q, b)))
          (\<lambda>(f, b). bindR (mem_write (cq_storage q) b elem)
            (\<lambda>st. Inr (True, q\<lparr>cq_storage := st, cq_front := f, cq_back := b,
                                cq_size := cq_size q + 1\<rparr>))))"

definition cq_pop_front :: "'a cq \<Rightarrow> ('a \<times> 'a cq) run" where
  "cq_pop_front q =
     bindR (mem_read (cq_storage q) (cq_front q)) (\<lambda>ret.
       let n = sub32 (cq_size q) 1 in
       if n = 0 then Inr (ret, q\<lparr>cq_size := n, cq_front := 0, cq_back := 0\<rparr>)
       else bindR (modR (cq_front q + 1) (cq_capacity q))
              (\<lambda>f. Inr (ret, q\<lparr>cq_size := n, cq_front := f\<rparr>)))"

definition cq_pop_back :: "'a cq \<Rightarrow> ('a \<times> 'a cq) run" where
  "cq_pop_back q =
     bindR (mem_read (cq_storage q) (cq_back q)) (\<lambda>ret.
       let n = sub32 (cq_size q) 1 in
       if n = 0 then Inr (ret, q\<lparr>cq_size := n, cq_front := 0, cq_back := 0\<rparr>)
       else if cq_back q = 0
       then Inr (ret, q\<lparr>cq_size := n, cq_back := sub32 (cq_capacity q) 1\<rparr>)
       else Inr (ret, q\<lparr>cq_size := n, cq_back := cq_back q - 1\<rparr>))"

definition cq_peek_front :: "'a cq \<Rightarrow> 'a run" where
  "cq_peek_front q = mem_read (cq_storage q) (cq_front q)"

definition cq_peek_back :: "'a cq \<Rightarrow> 'a run" where
  "cq_peek_back q = mem_read (cq_storage q) (cq_back q)"

text \<open>Assignment from another queue object; the old storage of the target is released.\<close>

definition cq_assign_copy :: "'a \<Rightarrow> 'a cq \<Rightarrow> 'a cq run" where
  "cq_assign_copy zero other =
     bindR (cq_copy_cells (cq_storage other) (replicate (cq_capacity other) zero) (cq_size other))
       (\<lambda>st. Inr (other\<lparr>cq_storage := st\<rparr>))"

definition cq_assign_move :: "'a cq \<Rightarrow> 'a cq \<times> 'a cq" where
  "cq_assign_move other = (other, cq_moved_out)"

section \<open>Well-formed queues and their contents\<close>

definition cq_wf :: "'a cq \<Rightarrow> bool" where
  "cq_wf q \<longleftrightarrow>
     length (cq_storage q) = cq_capacity q \<and> cq_capacity q < 2 ^ 32 \<and> cq_size q \<le> cq_capacity q \<and>
     (if cq_size q = 0 then cq_front q = 0 \<and> cq_back q = 0
      else cq_front q < cq_capacity q \<and>
           cq_back q = (cq_front q + (cq_size q - 1)) mod cq_capacity q)"

definition cq_contents :: "'a cq \<Rightarrow> 'a list" where
  "cq_contents q = ring_slice (cq_storage q) (cq_capacity q) (cq_front q) (cq_size q)"

lemma mem_read_ok [simp]: "i < length xs \<Longrightarrow> mem_read xs i = Inr (xs ! i)"
  by (simp add: mem_read_def)

lemma mem_write_ok [simp]: "i < length xs \<Longrightarrow> mem_write xs i v = Inr (xs[i := v])"
  by (simp add: mem_write_def)

lemma length_cq_contents [simp]: "length (cq_contents q) = cq_size q"
  by (simp add: cq_contents_def)

lemma cq_new_wf: "n < 2 ^ 32 \<Longrightarrow> cq_wf (cq_new zero n)"
  and cq_new_contents: "cq_contents (cq_new zero n) = []"
  by (simp_all add: cq_wf_def cq_new_def cq_contents_def)

lemma cq_moved_out_wf: "cq_wf cq_moved_out"
  and cq_moved_out_contents: "cq_contents cq_moved_out = []"
  by (simp_all add: cq_wf_def cq_moved_out_def cq_contents_def)

lemma cq_contents_Nil_iff: "cq_contents q = [] \<longleftrightarrow> cq_size q = 0"
  by (metis length_0_conv length_cq_contents)

lemma cq_wf_nonempty:
  assumes "cq_wf q" "0 < cq_size q"
  shows "0 < cq_capacity q" "cq_front q < cq_capacity q" "cq_back q < cq_capacity q"
    "cq_back q = (cq_front q + (cq_size q - 1)) mod cq_capacity q"
    "length (cq_storage q) = cq_capacity q" "cq_size q \<le> cq_capacity q" "cq_size q < 2 ^ 32"
    "cq_capacity q < 2 ^ 32"
  using assms by (auto simp: cq_wf_def)

section \<open>The operations meet the queue contract\<close>

lemma cq_push_back_full:
  "cq_size q = cq_capacity q \<Longrightarrow> cq_push_back q x = Inr (False, q)"
  by (simp add: cq_push_back_def)

lemma cq_push_back_room:
  assumes wf: "cq_wf q" and room: "cq_size q < cq_capacity q"
  shows "\<exists>q'. cq_push_back q x = Inr (True, q') \<and> cq_wf q' \<and>
           cq_contents q' = cq_contents q @ [x] \<and> cq_capacity q' = cq_capacity q"
proof (cases "cq_size q = 0")
  case True
  with wf room show ?thesis
    by (auto simp: cq_push_back_def cq_wf_def cq_contents_def ring_slice_def)
next
  case False
  let ?b = "(cq_front q + cq_size q) mod cq_capacity q"
  have b: "(cq_back q + 1) mod cq_capacity q = ?b"
    using cq_wf_nonempty[OF wf] False by (simp add: mod_simps)
  have lt: "?b < length (cq_storage q)" using wf room by (simp add: cq_wf_def)
  from False room b lt have push: "cq_push_back q x =
      Inr (True, q\<lparr>cq_storage := (cq_storage q)[?b := x], cq_back := ?b,
                   cq_size := cq_size q + 1\<rparr>)"
    by (simp add: cq_push_back_def)
  from wf room False lt show ?thesis
    by (subst push) (auto simp: cq_wf_def cq_contents_def ring_slice_Suc_snoc
        ring_slice_update_after)
qed

lemma cq_pop_front_Cons:
  assumes wf: "cq_wf q" and c: "cq_contents q = x # xs"
  shows "\<exists>q'. cq_pop_front q = Inr (x, q') \<and> cq_wf q' \<and> cq_contents q' = xs \<and>
           cq_capacity q' = cq_capacity q"
proof -
  from c obtain n where n: "cq_size q = Suc n" by (metis length_Cons length_cq_contents)
  note ne = cq_wf_nonempty[OF wf, unfolded n, simplified]
  from c n ne have x: "x = cq_storage q ! cq_front q"
    and xs: "xs = ring_slice (cq_storage q) (cq_capacity q) ((cq_front q + 1) mod cq_capacity q) n"
    by (simp_all add: cq_contents_def ring_slice_Suc_Cons)
  have s: "sub32 (cq_size q) 1 = n" using n ne by (simp add: sub32_le)
  show ?thesis
  proof (cases n)
    case 0
    with wf n ne s x xs show ?thesis
      by (simp add: cq_pop_front_def cq_wf_def cq_contents_def Let_def)
  next
    case (Suc m)
    with wf n ne s x xs show ?thesis
      by (simp add: cq_pop_front_def cq_wf_def cq_contents_def Let_def mod_simps)
  qed
qed

lemma cq_pop_back_snoc:
  assumes wf: "cq_wf q" and c: "cq_contents q = xs @ [x]"
  shows "\<exists>q'. cq_pop_back q = Inr (x, q') \<and> cq_wf q' \<and> cq_contents q' = xs \<and>
           cq_capacity q' = cq_capacity q"
proof -
  from c obtain n where n: "cq_size q = Suc n"
    by (metis length_append_singleton length_cq_contents)
  note ne = cq_wf_nonempty[OF wf, unfolded n, simplified]
  from c n ne have x: "x = cq_storage q ! cq_back q"
    and xs: "xs = ring_slice (cq_storage q) (cq_capacity q) (cq_front q) n"
    by (simp_all add: cq_contents_def ring_slice_Suc_snoc)
  have s: "sub32 (cq_size q) 1 = n" using n ne by (simp add: sub32_le)
  have s': "sub32 (cq_capacity q) 1 = cq_capacity q - 1" using ne by (simp add: sub32_le)
  show ?thesis
  proof (cases n)
    case 0
    with wf n ne s x xs show ?thesis
      by (simp add: cq_pop_back_def cq_wf_def cq_contents_def Let_def)
  next
    case (Suc m)
    with ne have "(if cq_back q = 0 then cq_capacity q - 1 else cq_back q - 1) =
        (cq_front q + m) mod cq_capacity q"
      by (intro ring_pred) simp_all
    with Suc wf n ne s s' x xs show ?thesis
      by (auto simp: cq_pop_back_def cq_wf_def cq_contents_def Let_def split: if_splits)
  qed
qed

lemma cq_peek_front_hd:
  assumes "cq_wf q" "cq_contents q \<noteq> []"
  shows "cq_peek_front q = Inr (hd (cq_contents q))"
proof -
  from assms(2) obtain n where n: "cq_size q = Suc n"
    by (metis cq_contents_Nil_iff not0_implies_Suc)
  with cq_wf_nonempty[OF assms(1)] show ?thesis
    by (simp add: cq_peek_front_def cq_contents_def ring_slice_Suc_Cons)
qed

lemma cq_peek_back_last:
  assumes "cq_wf q" "cq_contents q \<noteq> []"
  shows "cq_peek_back q = Inr (last (cq_contents q))"
proof -
  from assms(2) obtain n where n: "cq_size q = Suc n"
    by (metis cq_contents_Nil_iff not0_implies_Suc)
  with cq_wf_nonempty[OF assms(1)] show ?thesis
    by (simp add: cq_peek_back_def cq_contents_def ring_slice_Suc_snoc)
qed

interpretation cq: bounded_fifo cq_pop_front cq_pop_back cq_peek_front cq_peek_back cq_size
  cq_is_empty cq_contents cq_capacity cq_wf cq_push_back
proof unfold_locales
  fix q :: "'a cq" and x
  assume "cq_wf q" "length (cq_contents q) < cq_capacity q"
  then show "\<exists>q'. cq_push_back q x = Inr (True, q') \<and> cq_wf q' \<and>
      cq_contents q' = cq_contents q @ [x] \<and> cq_capacity q' = cq_capacity q"
    by (simp add: cq_push_back_room)
next
  fix q :: "'a cq"
  assume "cq_wf q"
  then show "length (cq_contents q) \<le> cq_capacity q" by (simp add: cq_wf_def)
qed (simp_all add: cq_push_back_full cq_pop_front_Cons cq_pop_back_snoc cq_peek_front_hd
    cq_peek_back_last cq_is_empty_def cq_contents_Nil_iff)

section \<open>Correctness of the queue\<close>

text \<open>
  C15: on a new queue of capacity \<open>n\<close>, any sequence of pushes and pops that never pops an empty
  queue runs without a fault and without an out-of-bounds access, returns exactly what a list of at
  most \<open>n\<close> elements returns (a push into a full queue answers false and changes nothing), and
  leaves that list as the contents.
\<close>

theorem cq_refines_bounded_list:
  assumes "n < 2 ^ 32" and "spec_run n ops [] = Some (outs, xs)"
  shows "\<exists>q. impl_run cq_push_back cq_pop_front cq_pop_back ops (cq_new zero n) = Inr (outs, q) \<and>
           cq_contents q = xs \<and> cq_size q = length xs \<and> cq_capacity q = n"
proof -
  have "cq_capacity (cq_new zero n) = n" by (simp add: cq_new_def)
  with cq.impl_run_refines[OF cq_new_wf[OF assms(1)], of zero ops outs xs] assms(2)
  show ?thesis by (auto simp: cq_new_contents)
qed

theorem cq_refines_bounded_list_witness:
  "\<exists>q. impl_run cq_push_back cq_pop_front cq_pop_back
         [Push 1, Push 2, Push 3, PopFront, Push (4::int), PopBack] (cq_new 0 2) =
         Inr ([Pushed True, Pushed True, Pushed False, Popped 1, Pushed True, Popped 4], q) \<and>
       cq_contents q = [2] \<and> cq_size q = length [2::int] \<and> cq_capacity q = 2"
  by (rule cq_refines_bounded_list) simp_all

lemma cq_copy_cells_take:
  assumes "n \<le> length src" "n \<le> length dst"
  shows "cq_copy_cells src dst n = Inr (take n src @ drop n dst)"
proof -
  let ?P = "\<lambda>k d. d = take k src @ drop k dst"
  have "\<exists>t. cq_copy_cells src dst n = Inr t \<and> ?P n t"
    unfolding cq_copy_cells_def
  proof (rule for_run_rule[where P = ?P])
    fix i d assume i: "i < n" "?P i d"
    then have lt: "i < length src" "i < length dst" "i < length d" using assms by simp_all
    then have "drop i dst = dst ! i # drop (Suc i) dst" by (simp add: Cons_nth_drop_Suc)
    with i(2) lt have "d[i := src ! i] = take (Suc i) src @ drop (Suc i) dst"
      by (simp add: list_update_append take_Suc_conv_app_nth)
    with lt show "\<exists>t'. bindR (mem_read src i) (mem_write d i) = Inr t' \<and> ?P (Suc i) t'" by simp
  qed simp_all
  then show ?thesis by simp
qed

text \<open>
  C32: copy assignment copies the raw cells \<open>0 .. size - 1\<close> into zeroed storage and keeps the ring
  indices. The copy has the size of the original, and its \<open>i\<close>-th element is the original one
  exactly where the ring cell of element \<open>i\<close> is below \<open>size\<close>; every other element reads as zero.
  Only for a queue whose elements lie in the cells \<open>0 .. size - 1\<close> is it a copy.
\<close>

theorem cq_assign_copy_exact:
  assumes "cq_wf q"
  shows "\<exists>q'. cq_assign_copy zero q = Inr q' \<and> cq_wf q' \<and>
           cq_contents q' = map (\<lambda>i. if (cq_front q + i) mod cq_capacity q < cq_size q
                                     then cq_contents q ! i else zero) [0..<cq_size q]"
proof -
  let ?st = "take (cq_size q) (cq_storage q) @ drop (cq_size q) (replicate (cq_capacity q) zero)"
  let ?q = "q\<lparr>cq_storage := ?st\<rparr>"
  from assms have len: "length (cq_storage q) = cq_capacity q" "cq_size q \<le> cq_capacity q"
    by (simp_all add: cq_wf_def)
  then have "cq_assign_copy zero q = Inr ?q"
    by (simp add: cq_assign_copy_def cq_copy_cells_take)
  moreover have "cq_wf ?q" using assms by (simp add: cq_wf_def)
  moreover have "cq_contents ?q = map (\<lambda>i. if (cq_front q + i) mod cq_capacity q < cq_size q
      then cq_contents q ! i else zero) [0..<cq_size q]"
    unfolding cq_contents_def
  proof (intro nth_equalityI)
    fix i assume "i < length (ring_slice (cq_storage ?q) (cq_capacity ?q) (cq_front ?q) (cq_size ?q))"
    with len have "i < cq_size q" "(cq_front q + i) mod cq_capacity q < cq_capacity q" by simp_all
    with len show "ring_slice (cq_storage ?q) (cq_capacity ?q) (cq_front ?q) (cq_size ?q) ! i =
        map (\<lambda>i. if (cq_front q + i) mod cq_capacity q < cq_size q
          then ring_slice (cq_storage q) (cq_capacity q) (cq_front q) (cq_size q) ! i else zero)
          [0..<cq_size q] ! i"
      by (auto simp: nth_append intro!: nth_replicate diff_less_mono mod_less_divisor)
  qed simp
  ultimately show ?thesis by blast
qed

theorem cq_assign_copy_exact_witness:
  "\<exists>q'. cq_assign_copy 0 \<lparr>cq_storage = [7, 8, 9::int], cq_capacity = 3, cq_size = 2, cq_front = 2, cq_back = 0\<rparr> = Inr q' \<and>
        cq_wf q' \<and> cq_contents q' = [0, 7]"
  using cq_assign_copy_exact[of "\<lparr>cq_storage = [7, 8, 9::int], cq_capacity = 3, cq_size = 2, cq_front = 2, cq_back = 0\<rparr>" 0]
  by (simp add: cq_wf_def cq_contents_def ring_slice_def upt_rec)

end
