(* ===== verification/Blocker.thy ===== *)
theory Blocker
  imports Prelude
begin

text \<open>
  Blockers (\<open>kernel/tasking/Blocker.cpp\<close>, \<open>BooleanBlocker.cpp\<close>): the object a thread waits on, and the
  part of \<open>Thread::block\<close> that decides whether the thread is parked. A \<open>BooleanBlocker\<close> has no
  responsible thread, so the deadlock test of \<open>Thread::block\<close> does not apply to it.
\<close>

record blocker =
  bl_ready :: bool
  bl_interrupted :: bool

definition blocker_new :: blocker where
  "blocker_new = \<lparr>bl_ready = False, bl_interrupted = False\<rparr>"

definition is_ready :: "blocker \<Rightarrow> bool" where
  "is_ready b = bl_ready b"

definition set_ready :: "bool \<Rightarrow> blocker \<Rightarrow> blocker" where
  "set_ready v b = b\<lparr>bl_ready := v\<rparr>"

definition interrupt :: "blocker \<Rightarrow> blocker" where
  "interrupt b = b\<lparr>bl_interrupted := True\<rparr>"

definition reset_interrupted :: "blocker \<Rightarrow> blocker" where
  "reset_interrupted b = b\<lparr>bl_interrupted := False\<rparr>"

definition was_interrupted :: "blocker \<Rightarrow> bool" where
  "was_interrupted b = bl_interrupted b"

text \<open>
  \<open>Thread::block\<close> on a live thread: it returns at once when the blocker is ready or a signal is
  pending (which marks the blocker interrupted), and parks the thread otherwise. A parked thread
  runs again once \<open>should_unblock\<close> holds.
\<close>

datatype block_outcome = Returns | Parks

definition thread_block :: "bool \<Rightarrow> blocker \<Rightarrow> block_outcome \<times> blocker" where
  "thread_block pending_signals b =
     (if is_ready b then (Returns, b)
      else if pending_signals then (Returns, interrupt b)
      else (Parks, b))"

definition should_unblock :: "blocker \<Rightarrow> bool" where
  "should_unblock b \<longleftrightarrow> is_ready b \<or> was_interrupted b"

text \<open>Result of a system call that may leave its thread parked.\<close>

datatype 'a syscall = Done 'a | Parked

lemmas blocker_defs = is_ready_def set_ready_def interrupt_def was_interrupted_def
  reset_interrupted_def should_unblock_def thread_block_def blocker_new_def

lemma thread_block_Returns:
  "thread_block pend b = (Returns, b') \<Longrightarrow> should_unblock b'"
  by (auto simp: blocker_defs split: if_splits)

lemma thread_block_Parks:
  "thread_block pend b = (Parks, b') \<Longrightarrow> b' = b \<and> \<not> is_ready b"
  by (auto simp: blocker_defs split: if_splits)

end
