(* ===== verification/Pipe.thy ===== *)
theory Pipe
  imports CircularQueue Blocker
begin

text \<open>
  Pipes (\<open>kernel/filesystem/Pipe.cpp\<close>): a ring buffer of one page, counts of readers and writers and
  the blocker that readers wait on. A read that has to wait is split at \<open>Thread::block\<close>: \<open>pipe_read\<close>
  either finishes or parks, and \<open>pipe_read_resume\<close> is the rest of the function, run when the thread
  wakes up. In the step relation of this theory each operation, and each half of a read, is one step, as on
  a system where a thread is not overtaken inside a call; \<open>PipeThreads\<close> splits the operations at the
  places where the code holds no lock.
\<close>

section \<open>State and operations\<close>

record pipe =
  pipe_queue :: "u8 cq"
  pipe_readers :: nat
  pipe_writers :: nat
  pipe_blocker :: blocker

definition PIPE_SIZE :: nat where
  "PIPE_SIZE = 4096"

definition pipe_new :: pipe where
  "pipe_new = \<lparr>pipe_queue = cq_new 0 PIPE_SIZE, pipe_readers = 0, pipe_writers = 0,
               pipe_blocker = blocker_new\<rparr>"

definition add_reader :: "pipe \<Rightarrow> pipe" where
  "add_reader p = p\<lparr>pipe_readers := add32 (pipe_readers p) 1\<rparr>"

definition add_writer :: "pipe \<Rightarrow> pipe" where
  "add_writer p = p\<lparr>pipe_writers := add32 (pipe_writers p) 1\<rparr>"

definition remove_reader :: "pipe \<Rightarrow> pipe" where
  "remove_reader p = p\<lparr>pipe_readers := sub32 (pipe_readers p) 1\<rparr>"

definition remove_writer :: "pipe \<Rightarrow> pipe" where
  "remove_writer p =
     (let p' = p\<lparr>pipe_writers := sub32 (pipe_writers p) 1\<rparr> in
      if pipe_writers p' = 0 then p'\<lparr>pipe_blocker := set_ready True (pipe_blocker p')\<rparr> else p')"

text \<open>The part of \<open>Pipe::read\<close> after \<open>Thread::block\<close> has returned: the returned count and the bytes.\<close>

definition pipe_read_resume :: "pipe \<Rightarrow> nat \<Rightarrow> ((int \<times> u8 list) \<times> pipe) run" where
  "pipe_read_resume p count =
     (if was_interrupted (pipe_blocker p) then Inr ((- errno_code EINTR, []), p)
      else
        let n = (if count > cq_size (pipe_queue p) then cq_size (pipe_queue p) else count) in
        bindR (pop_n cq_pop_front n (pipe_queue p)) (\<lambda>(bytes, q).
          let p1 = p\<lparr>pipe_queue := q\<rparr>;
              p2 = (if cq_is_empty q \<and> pipe_writers p1 \<noteq> 0
                    then p1\<lparr>pipe_blocker := set_ready False (pipe_blocker p1)\<rparr> else p1)
          in Inr ((int n, bytes), p2)))"

definition pipe_read :: "bool \<Rightarrow> pipe \<Rightarrow> nat \<Rightarrow> ((int \<times> u8 list) syscall \<times> pipe) run" where
  "pipe_read pending_signals p count =
     (if pipe_writers p = 0 \<and> cq_is_empty (pipe_queue p) then Inr (Done (0, []), p)
      else
        let (outcome, b) = (if \<not> is_ready (pipe_blocker p)
                            then thread_block pending_signals (pipe_blocker p)
                            else (Returns, pipe_blocker p));
            p' = p\<lparr>pipe_blocker := b\<rparr>
        in (case outcome of
              Parks \<Rightarrow> Inr (Parked, p')
            | Returns \<Rightarrow> bindR (pipe_read_resume p' count) (\<lambda>(r, p''). Inr (Done r, p''))))"

text \<open>\<open>Pipe::write\<close>: the returned count, whether \<open>SIGPIPE\<close> is sent to the caller, the new pipe.\<close>

definition pipe_write :: "pipe \<Rightarrow> u8 list \<Rightarrow> ((int \<times> bool) \<times> pipe) run" where
  "pipe_write p buffer =
     (if pipe_readers p = 0 then Inr ((- errno_code EPIPE, True), p)
      else
        bindR (push_while cq_push_back buffer 0 (pipe_queue p)) (\<lambda>(nwrote, q).
          let p1 = p\<lparr>pipe_queue := q\<rparr>;
              p2 = (if nwrote \<noteq> 0 then p1\<lparr>pipe_blocker := set_ready True (pipe_blocker p1)\<rparr> else p1)
          in Inr ((int nwrote, False), p2)))"

definition pipe_can_read :: "pipe \<Rightarrow> bool \<Rightarrow> bool" where
  "pipe_can_read p is_fifo_writer \<longleftrightarrow> \<not> cq_is_empty (pipe_queue p) \<and> \<not> is_fifo_writer"

section \<open>Functional behaviour of one call\<close>

abbreviation pipe_bytes :: "pipe \<Rightarrow> u8 list" where
  "pipe_bytes p \<equiv> cq_contents (pipe_queue p)"

definition pipe_free :: "pipe \<Rightarrow> nat" where
  "pipe_free p = cq_capacity (pipe_queue p) - cq_size (pipe_queue p)"

lemma pipe_write_spec:
  assumes "cq_wf (pipe_queue p)" "pipe_readers p \<noteq> 0"
  shows "\<exists>p'. pipe_write p bs =
           Inr ((int (min (length bs) (Suc (pipe_free p))), False), p') \<and>
         cq_wf (pipe_queue p') \<and> pipe_bytes p' = pipe_bytes p @ take (pipe_free p) bs \<and>
         cq_capacity (pipe_queue p') = cq_capacity (pipe_queue p) \<and>
         pipe_blocker p' = (if bs = [] then pipe_blocker p else set_ready True (pipe_blocker p)) \<and>
         pipe_readers p' = pipe_readers p \<and> pipe_writers p' = pipe_writers p"
proof -
  from cq.push_while_stores[OF assms(1), of bs 0] obtain q where
    q: "push_while cq_push_back bs 0 (pipe_queue p) = Inr (min (length bs) (Suc (pipe_free p)), q)"
      "cq_wf q" "cq_contents q = pipe_bytes p @ take (pipe_free p) bs"
      "cq_capacity q = cq_capacity (pipe_queue p)"
    by (auto simp: pipe_free_def)
  with assms(2) show ?thesis
    by (cases bs) (simp_all add: pipe_write_def Let_def)
qed

lemma pipe_read_resume_spec:
  assumes "cq_wf (pipe_queue p)" "\<not> was_interrupted (pipe_blocker p)"
  shows "\<exists>p'. pipe_read_resume p n =
           Inr ((int (min n (length (pipe_bytes p))), take n (pipe_bytes p)), p') \<and>
         cq_wf (pipe_queue p') \<and> pipe_bytes p' = drop n (pipe_bytes p) \<and>
         cq_capacity (pipe_queue p') = cq_capacity (pipe_queue p) \<and>
         pipe_blocker p' = (if drop n (pipe_bytes p) = [] \<and> pipe_writers p \<noteq> 0
           then set_ready False (pipe_blocker p) else pipe_blocker p) \<and>
         pipe_readers p' = pipe_readers p \<and> pipe_writers p' = pipe_writers p"
proof -
  let ?m = "min n (length (pipe_bytes p))"
  have m: "(if n > cq_size (pipe_queue p) then cq_size (pipe_queue p) else n) = ?m"
    by simp
  have eqs: "take ?m (pipe_bytes p) = take n (pipe_bytes p)"
    "drop ?m (pipe_bytes p) = drop n (pipe_bytes p)"
    by (simp_all add: min_def)
  from cq.pop_n_take[OF assms(1), of ?m, unfolded eqs] obtain q where
    q: "pop_n cq_pop_front ?m (pipe_queue p) = Inr (take n (pipe_bytes p), q)" "cq_wf q"
      "cq_contents q = drop n (pipe_bytes p)" "cq_capacity q = cq_capacity (pipe_queue p)"
    by auto
  from q(3) have "cq_is_empty q \<longleftrightarrow> drop n (pipe_bytes p) = []"
    by (metis cq.is_empty_contents q(2))
  with assms(2) q m show ?thesis
    by (simp add: pipe_read_resume_def Let_def)
qed

section \<open>Interleavings\<close>

text \<open>
  Any number of readers and writers share a pipe. The ghost fields record every byte the pipe
  accepted and every byte it handed out, in order.
\<close>

record pipe_sys =
  sys_pipe :: pipe
  sys_sent :: "u8 list"
  sys_received :: "u8 list"

definition pipe_sys_init :: pipe_sys where
  "pipe_sys_init = \<lparr>sys_pipe = pipe_new, sys_sent = [], sys_received = []\<rparr>"

inductive pipe_step :: "pipe_sys \<Rightarrow> pipe_sys \<Rightarrow> bool" where
  st_add_reader: "pipe_step s (s\<lparr>sys_pipe := add_reader (sys_pipe s)\<rparr>)"
| st_add_writer: "pipe_step s (s\<lparr>sys_pipe := add_writer (sys_pipe s)\<rparr>)"
| st_remove_reader: "pipe_step s (s\<lparr>sys_pipe := remove_reader (sys_pipe s)\<rparr>)"
| st_remove_writer: "pipe_step s (s\<lparr>sys_pipe := remove_writer (sys_pipe s)\<rparr>)"
| st_write: "pipe_write (sys_pipe s) bs = Inr ((r, sig), p') \<Longrightarrow>
    pipe_step s (s\<lparr>sys_pipe := p',
      sys_sent := sys_sent s @ (if sig then [] else take (pipe_free (sys_pipe s)) bs)\<rparr>)"
| st_read: "pipe_read pend (sys_pipe s) n = Inr (Done (r, bs), p') \<Longrightarrow>
    pipe_step s (s\<lparr>sys_pipe := p', sys_received := sys_received s @ bs\<rparr>)"
| st_read_parks: "pipe_read pend (sys_pipe s) n = Inr (Parked, p') \<Longrightarrow>
    pipe_step s (s\<lparr>sys_pipe := p'\<rparr>)"
| st_resume: "should_unblock (pipe_blocker (sys_pipe s)) \<Longrightarrow>
    pipe_read_resume (sys_pipe s) n = Inr ((r, bs), p') \<Longrightarrow>
    pipe_step s (s\<lparr>sys_pipe := p', sys_received := sys_received s @ bs\<rparr>)"
| st_interrupt:
    "pipe_step s (s\<lparr>sys_pipe := (sys_pipe s)\<lparr>pipe_blocker := interrupt (pipe_blocker (sys_pipe s))\<rparr>\<rparr>)"

inductive pipe_reachable :: "pipe_sys \<Rightarrow> bool" where
  init: "pipe_reachable pipe_sys_init"
| step: "pipe_reachable s \<Longrightarrow> pipe_step s t \<Longrightarrow> pipe_reachable t"

text \<open>The invariant: order is kept, and data in the pipe means that readers are awake.\<close>

definition pipe_wf :: "pipe \<Rightarrow> bool" where
  "pipe_wf p \<longleftrightarrow> cq_wf (pipe_queue p) \<and> cq_capacity (pipe_queue p) = PIPE_SIZE \<and>
     (pipe_bytes p \<noteq> [] \<longrightarrow> is_ready (pipe_blocker p))"

definition pipe_inv :: "pipe_sys \<Rightarrow> bool" where
  "pipe_inv s \<longleftrightarrow> pipe_wf (sys_pipe s) \<and>
     sys_sent s = sys_received s @ pipe_bytes (sys_pipe s)"

lemma pipe_wf_queue [simp]: "pipe_wf p \<Longrightarrow> cq_wf (pipe_queue p)"
  by (simp add: pipe_wf_def)

lemma pipe_wf_counts:
  assumes "pipe_wf p"
  shows "pipe_wf (add_reader p)" "pipe_wf (add_writer p)" "pipe_wf (remove_reader p)"
    "pipe_wf (remove_writer p)" "pipe_wf (p\<lparr>pipe_blocker := interrupt (pipe_blocker p)\<rparr>)"
  using assms
  by (auto simp: pipe_wf_def add_reader_def add_writer_def remove_reader_def remove_writer_def
      Let_def blocker_defs)

lemma pipe_bytes_counts [simp]:
  "pipe_bytes (add_reader p) = pipe_bytes p" "pipe_bytes (add_writer p) = pipe_bytes p"
  "pipe_bytes (remove_reader p) = pipe_bytes p" "pipe_bytes (remove_writer p) = pipe_bytes p"
  by (simp_all add: add_reader_def add_writer_def remove_reader_def remove_writer_def Let_def)

lemma pipe_write_inv:
  assumes "pipe_wf p" "pipe_write p bs = Inr ((r, sig), p')"
  shows "pipe_wf p' \<and> pipe_bytes p' = pipe_bytes p @ (if sig then [] else take (pipe_free p) bs)"
proof (cases "pipe_readers p = 0")
  case True
  with assms show ?thesis by (auto simp: pipe_write_def)
next
  case False
  with pipe_write_spec[of p bs] assms show ?thesis
    by (auto simp: pipe_wf_def blocker_defs)
qed

lemma pipe_read_resume_inv:
  assumes "pipe_wf p" "pipe_read_resume p n = Inr ((r, bs), p')"
  shows "pipe_wf p' \<and> pipe_bytes p = bs @ pipe_bytes p'"
proof (cases "was_interrupted (pipe_blocker p)")
  case True
  with assms show ?thesis by (auto simp: pipe_read_resume_def)
next
  case False
  from pipe_read_resume_spec[OF _ this, of n] assms show ?thesis
    by (auto simp: pipe_wf_def blocker_defs cq_contents_Nil_iff split: if_splits)
qed

lemma pipe_wf_block:
  assumes "pipe_wf p" "thread_block pend (pipe_blocker p) = (outc, b)"
  shows "pipe_wf (p\<lparr>pipe_blocker := b\<rparr>)"
  using assms by (auto simp: pipe_wf_def blocker_defs split: if_splits)

text \<open>A read that runs to its end is an end-of-file answer or the resumed part.\<close>

lemma pipe_read_cases:
  assumes "pipe_read pend p n = Inr (res, p')" "pipe_wf p"
  obtains (Eof) "res = Done (0, [])" "p' = p"
  | (Park) "res = Parked" "p' = p" "\<not> is_ready (pipe_blocker p)"
      "pipe_writers p \<noteq> 0 \<or> pipe_bytes p \<noteq> []"
  | (Go) p1 r where "res = Done r" "pipe_read_resume p1 n = Inr (r, p')" "pipe_wf p1"
      "pipe_bytes p1 = pipe_bytes p"
proof (cases "pipe_writers p = 0 \<and> cq_is_empty (pipe_queue p)")
  case True
  with assms Eof show ?thesis by (auto simp: pipe_read_def)
next
  case False
  then have nonempty: "pipe_writers p \<noteq> 0 \<or> pipe_bytes p \<noteq> []"
    by (simp add: cq_is_empty_def cq_contents_Nil_iff)
  show ?thesis
  proof (cases "is_ready (pipe_blocker p)")
    case True
    with False assms(1) obtain r where "res = Done r" "pipe_read_resume p n = Inr (r, p')"
      by (auto simp: pipe_read_def split: if_splits)
    with assms(2) Go show ?thesis by blast
  next
    case not_ready: False
    obtain outc b where tb: "thread_block pend (pipe_blocker p) = (outc, b)" by fastforce
    show ?thesis
    proof (cases outc)
      case Returns
      with False not_ready tb assms(1) obtain r where
        "res = Done r" "pipe_read_resume (p\<lparr>pipe_blocker := b\<rparr>) n = Inr (r, p')"
        by (auto simp: pipe_read_def split: if_splits)
      with pipe_wf_block[OF assms(2) tb] Go show ?thesis by simp
    next
      case Parks
      with thread_block_Parks tb have "b = pipe_blocker p" by blast
      with False not_ready tb assms(1) Parks have "res = Parked" "p' = p"
        by (auto simp: pipe_read_def)
      with not_ready nonempty Park show ?thesis by blast
    qed
  qed
qed

lemma pipe_step_inv: "pipe_step s t \<Longrightarrow> pipe_inv s \<Longrightarrow> pipe_inv t"
proof (induction rule: pipe_step.induct)
  case (st_write s bs r sig p')
  with pipe_write_inv[of "sys_pipe s" bs r sig p'] show ?case by (simp add: pipe_inv_def)
next
  case (st_read pend s n r bs p')
  then have wf: "pipe_wf (sys_pipe s)" by (simp add: pipe_inv_def)
  from st_read.hyps wf show ?case
  proof (cases rule: pipe_read_cases)
    case (Go p1 r')
    with pipe_read_resume_inv[of p1 n r bs p'] st_read.prems show ?thesis
      by (simp add: pipe_inv_def)
  qed (use st_read.prems in \<open>simp_all add: pipe_inv_def\<close>)
next
  case (st_read_parks pend s n p')
  then have wf: "pipe_wf (sys_pipe s)" by (simp add: pipe_inv_def)
  from st_read_parks.hyps wf show ?case
    by (cases rule: pipe_read_cases) (use st_read_parks.prems in \<open>simp_all add: pipe_inv_def\<close>)
next
  case (st_resume s n r bs p')
  with pipe_read_resume_inv[of "sys_pipe s" n r bs p'] show ?case by (simp add: pipe_inv_def)
qed (simp_all add: pipe_inv_def pipe_wf_counts)

lemma pipe_reachable_inv: "pipe_reachable s \<Longrightarrow> pipe_inv s"
proof (induction rule: pipe_reachable.induct)
  case init
  show ?case
    by (simp add: pipe_inv_def pipe_wf_def pipe_sys_init_def pipe_new_def cq_new_wf
        cq_new_contents PIPE_SIZE_def cq_new_def cq_contents_def cq_wf_def)
next
  case (step s t)
  then show ?case by (blast intro: pipe_step_inv)
qed

section \<open>Correctness of the pipe\<close>

text \<open>
  C14: in every interleaving of readers, writers, closings, interrupts and resumed reads, each taken as one step, the bytes
  handed out followed by the bytes in the pipe are exactly the bytes accepted, in order: nothing
  is lost, duplicated or reordered; the pipe never holds more than \<open>PIPE_SIZE\<close> bytes; and whenever
  it holds a byte, a parked reader is due to run.
\<close>

theorem pipe_fifo:
  assumes "pipe_reachable s"
  shows "sys_sent s = sys_received s @ pipe_bytes (sys_pipe s) \<and>
         length (pipe_bytes (sys_pipe s)) \<le> PIPE_SIZE \<and>
         (pipe_bytes (sys_pipe s) \<noteq> [] \<longrightarrow> should_unblock (pipe_blocker (sys_pipe s)))"
proof -
  from pipe_reachable_inv[OF assms] have inv: "pipe_inv s" .
  then have "cq_wf (pipe_queue (sys_pipe s))" by (simp add: pipe_inv_def)
  from cq.within_capacity[OF this] inv show ?thesis
    by (auto simp: pipe_inv_def pipe_wf_def blocker_defs)
qed

theorem pipe_fifo_witness:
  "sys_sent pipe_sys_init = sys_received pipe_sys_init @ pipe_bytes (sys_pipe pipe_sys_init) \<and>
   length (pipe_bytes (sys_pipe pipe_sys_init)) \<le> PIPE_SIZE"
  using pipe_fifo[OF pipe_reachable.init] by blast

text \<open>
  C29: the exact effect of a write with a reader present: the bytes that fit are stored behind the
  ones already there, and the returned count is the number stored when everything fits and
  one more than the number stored when something does not.
\<close>

theorem pipe_write_exact:
  assumes "pipe_wf p" and "pipe_readers p \<noteq> 0"
  shows "\<exists>p'. pipe_write p bs = Inr ((int (min (length bs) (Suc (PIPE_SIZE - length (pipe_bytes p)))), False), p') \<and>
           pipe_wf p' \<and> pipe_bytes p' = pipe_bytes p @ take (PIPE_SIZE - length (pipe_bytes p)) bs"
proof -
  have f: "pipe_free p = PIPE_SIZE - length (pipe_bytes p)"
    using assms(1) by (simp add: pipe_free_def pipe_wf_def)
  from pipe_write_spec[OF pipe_wf_queue[OF assms(1)] assms(2), of bs] obtain p' where
    p': "pipe_write p bs = Inr ((int (min (length bs) (Suc (pipe_free p))), False), p')"
      "pipe_bytes p' = pipe_bytes p @ take (pipe_free p) bs" by blast
  with pipe_write_inv[OF assms(1) p'(1)] show ?thesis unfolding f by blast
qed

theorem pipe_write_exact_witness:
  "\<exists>p'. pipe_write (add_reader pipe_new) [1, 2] = Inr ((2, False), p') \<and> pipe_wf p' \<and> pipe_bytes p' = [1, 2]"
proof -
  have wf: "pipe_wf (add_reader pipe_new)"
    by (simp add: pipe_wf_def add_reader_def pipe_new_def cq_new_wf cq_new_contents PIPE_SIZE_def)
      (simp add: cq_new_def)
  have b: "pipe_bytes (add_reader pipe_new) = []"
    by (simp add: add_reader_def pipe_new_def cq_new_contents)
  have r: "pipe_readers (add_reader pipe_new) \<noteq> 0"
    by (simp add: add_reader_def pipe_new_def add32_def)
  from pipe_write_exact[OF wf r, of "[1, 2]"] show ?thesis
    unfolding b PIPE_SIZE_def by simp
qed

end
