(* ===== verification/PipeThreads.thy ===== *)
theory PipeThreads
  imports Pipe
begin

text \<open>
  Pipes at the grain at which threads can overtake each other. \<open>Pipe::read\<close> tests \<open>_writers\<close> and the
  queue, and waits, before it takes \<open>_lock\<close>; the end of \<open>read\<close> tests \<open>_writers\<close> and then clears the
  blocker; \<open>remove_writer\<close> takes no lock at all. Each of these parts is a definition of its own here, and
  a program counter says where each thread is. The theory shows that the parts run without
  interruption are the operations of \<open>Pipe\<close>, what the lock protects in every interleaving, and the
  wake-up that is lost because \<open>remove_writer\<close> does not take the lock. An update of a counter is one step.
\<close>

section \<open>The parts of the operations\<close>

definition read_check :: "pipe \<Rightarrow> bool" where
  "read_check p \<longleftrightarrow> \<not> (pipe_writers p = 0 \<and> cq_is_empty (pipe_queue p))"

definition read_wait :: "bool \<Rightarrow> pipe \<Rightarrow> block_outcome \<times> pipe" where
  "read_wait pending_signals p =
     (if is_ready (pipe_blocker p) then (Returns, p)
      else (case thread_block pending_signals (pipe_blocker p) of (outcome, b) \<Rightarrow> (outcome, p\<lparr>pipe_blocker := b\<rparr>)))"

text \<open>With the lock held: the bytes are taken, and the condition of the last \<open>if\<close> is evaluated.\<close>

definition read_take :: "pipe \<Rightarrow> nat \<Rightarrow> ((int \<times> u8 list) \<times> bool \<times> pipe) run" where
  "read_take p count =
     (let n = (if count > cq_size (pipe_queue p) then cq_size (pipe_queue p) else count) in
      bindR (pop_n cq_pop_front n (pipe_queue p)) (\<lambda>(bytes, q).
        Inr ((int n, bytes), cq_is_empty q \<and> pipe_writers p \<noteq> 0, p\<lparr>pipe_queue := q\<rparr>)))"

definition wake :: "bool \<Rightarrow> pipe \<Rightarrow> pipe" where
  "wake v p = p\<lparr>pipe_blocker := set_ready v (pipe_blocker p)\<rparr>"

definition write_push :: "pipe \<Rightarrow> u8 list \<Rightarrow> (nat \<times> pipe) run" where
  "write_push p buffer =
     bindR (push_while cq_push_back buffer 0 (pipe_queue p)) (\<lambda>(nwrote, q). Inr (nwrote, p\<lparr>pipe_queue := q\<rparr>))"

definition writer_leave :: "pipe \<Rightarrow> bool \<times> pipe" where
  "writer_leave p = (let n = sub32 (pipe_writers p) 1 in (n = 0, p\<lparr>pipe_writers := n\<rparr>))"

text \<open>A thread that is not overtaken runs the whole operations of \<open>Pipe\<close>.\<close>

lemma parts_of_resume:
  "pipe_read_resume p count =
     (if was_interrupted (pipe_blocker p) then Inr ((- errno_code EINTR, []), p)
      else bindR (read_take p count) (\<lambda>(r, clear, p'). Inr (r, if clear then wake False p' else p')))"
  by (cases "pop_n cq_pop_front (min count (cq_size (pipe_queue p))) (pipe_queue p)")
    (auto simp: pipe_read_resume_def read_take_def wake_def Let_def min_def)

lemma parts_of_read:
  "pipe_read pend p count =
     (if \<not> read_check p then Inr (Done (0, []), p)
      else (case read_wait pend p of
          (Parks, p') \<Rightarrow> Inr (Parked, p')
        | (Returns, p') \<Rightarrow> bindR (pipe_read_resume p' count) (\<lambda>(r, p''). Inr (Done r, p''))))"
  by (cases "thread_block pend (pipe_blocker p)")
    (simp add: pipe_read_def read_check_def read_wait_def split: block_outcome.split)

lemma parts_of_write:
  "pipe_write p bs =
     (if pipe_readers p = 0 then Inr ((- errno_code EPIPE, True), p)
      else bindR (write_push p bs) (\<lambda>(nwrote, p'). Inr ((int nwrote, False), if nwrote \<noteq> 0 then wake True p' else p')))"
  by (auto simp: pipe_write_def write_push_def wake_def Let_def bindR_def split: prod.split sum.split)

lemma parts_of_remove_writer:
  "remove_writer p = (case writer_leave p of (gone, p') \<Rightarrow> if gone then wake True p' else p')"
  by (simp add: remove_writer_def writer_leave_def wake_def Let_def)

section \<open>Threads\<close>

text \<open>Where a thread is: between the calls, or in front of one of the parts.\<close>

datatype pipe_pc =
    Idle
  | ReadChecked nat \<comment> \<open>in \<open>read\<close>, behind the test for the end of file\<close>
  | ReadWaiting nat \<comment> \<open>parked in \<open>Thread::block\<close>\<close>
  | ReadWoken nat \<comment> \<open>behind the wait\<close>
  | ReadLocking nat \<comment> \<open>behind the test for an interrupt\<close>
  | ReadClearing \<comment> \<open>holds the lock, about to clear the blocker\<close>
  | WriteChecked "u8 list" \<comment> \<open>in \<open>write\<close>, behind the test for readers\<close>
  | WriteWaking \<comment> \<open>holds the lock, about to set the blocker\<close>
  | WriterLeaving \<comment> \<open>in \<open>remove_writer\<close>, the count has become zero\<close>

record pipe_threads =
  th_pipe :: pipe
  th_lock :: "nat option"
  th_pc :: "nat \<Rightarrow> pipe_pc"
  th_sent :: "u8 list"
  th_received :: "u8 list"

definition threads_init :: pipe_threads where
  "threads_init = \<lparr>th_pipe = pipe_new, th_lock = None, th_pc = \<lambda>_. Idle, th_sent = [], th_received = []\<rparr>"

definition goes :: "nat \<Rightarrow> pipe_pc \<Rightarrow> pipe \<Rightarrow> pipe_threads \<Rightarrow> pipe_threads" where
  "goes t pc p s = s\<lparr>th_pc := (th_pc s)(t := pc), th_pipe := p\<rparr>"

text \<open>
  A step is one part of one thread. The parts under the lock need the lock to be free and keep it exactly
  if an update of the blocker follows. Calls that return at once (end of file, \<open>EPIPE\<close>) change
  nothing and have no step.
\<close>

inductive thread_step :: "pipe_threads \<Rightarrow> pipe_threads \<Rightarrow> bool" where
  ts_add_reader: "thread_step s (s\<lparr>th_pipe := add_reader (th_pipe s)\<rparr>)"
| ts_add_writer: "thread_step s (s\<lparr>th_pipe := add_writer (th_pipe s)\<rparr>)"
| ts_remove_reader: "thread_step s (s\<lparr>th_pipe := remove_reader (th_pipe s)\<rparr>)"
| ts_interrupt: "thread_step s (s\<lparr>th_pipe := (th_pipe s)\<lparr>pipe_blocker := interrupt (pipe_blocker (th_pipe s))\<rparr>\<rparr>)"
| ts_read: "th_pc s t = Idle \<Longrightarrow> read_check (th_pipe s) \<Longrightarrow> thread_step s (goes t (ReadChecked n) (th_pipe s) s)"
| ts_wait: "th_pc s t = ReadChecked n \<Longrightarrow> read_wait pend (th_pipe s) = (Returns, p) \<Longrightarrow>
    thread_step s (goes t (ReadWoken n) p s)"
| ts_park: "th_pc s t = ReadChecked n \<Longrightarrow> read_wait pend (th_pipe s) = (Parks, p) \<Longrightarrow>
    thread_step s (goes t (ReadWaiting n) p s)"
| ts_unblock: "th_pc s t = ReadWaiting n \<Longrightarrow> should_unblock (pipe_blocker (th_pipe s)) \<Longrightarrow>
    thread_step s (goes t (ReadWoken n) (th_pipe s) s)"
| ts_eintr: "th_pc s t = ReadWoken n \<Longrightarrow> was_interrupted (pipe_blocker (th_pipe s)) \<Longrightarrow>
    thread_step s (goes t Idle (th_pipe s) s)"
| ts_go: "th_pc s t = ReadWoken n \<Longrightarrow> \<not> was_interrupted (pipe_blocker (th_pipe s)) \<Longrightarrow>
    thread_step s (goes t (ReadLocking n) (th_pipe s) s)"
| ts_take: "th_pc s t = ReadLocking n \<Longrightarrow> th_lock s = None \<Longrightarrow> read_take (th_pipe s) n = Inr ((r, bs), clear, p) \<Longrightarrow>
    thread_step s (goes t (if clear then ReadClearing else Idle) p s
      \<lparr>th_lock := (if clear then Some t else None), th_received := th_received s @ bs\<rparr>)"
| ts_clear: "th_pc s t = ReadClearing \<Longrightarrow> thread_step s (goes t Idle (wake False (th_pipe s)) s\<lparr>th_lock := None\<rparr>)"
| ts_write: "th_pc s t = Idle \<Longrightarrow> pipe_readers (th_pipe s) \<noteq> 0 \<Longrightarrow> thread_step s (goes t (WriteChecked bs) (th_pipe s) s)"
| ts_push: "th_pc s t = WriteChecked bs \<Longrightarrow> th_lock s = None \<Longrightarrow> write_push (th_pipe s) bs = Inr (nwrote, p) \<Longrightarrow>
    thread_step s (goes t (if nwrote \<noteq> 0 then WriteWaking else Idle) p s
      \<lparr>th_lock := (if nwrote \<noteq> 0 then Some t else None), th_sent := th_sent s @ take (pipe_free (th_pipe s)) bs\<rparr>)"
| ts_wake: "th_pc s t = WriteWaking \<Longrightarrow> thread_step s (goes t Idle (wake True (th_pipe s)) s\<lparr>th_lock := None\<rparr>)"
| ts_leave: "th_pc s t = Idle \<Longrightarrow> writer_leave (th_pipe s) = (gone, p) \<Longrightarrow>
    thread_step s (goes t (if gone then WriterLeaving else Idle) p s)"
| ts_left: "th_pc s t = WriterLeaving \<Longrightarrow> thread_step s (goes t Idle (wake True (th_pipe s)) s)"

inductive threads_reachable :: "pipe_threads \<Rightarrow> bool" where
  init: "threads_reachable threads_init"
| step: "threads_reachable s \<Longrightarrow> thread_step s s' \<Longrightarrow> threads_reachable s'"

section \<open>What the lock protects\<close>

text \<open>
  The lock holder is a thread about to update the blocker; while nobody holds it, bytes in the pipe
  mean a ready blocker; and a thread about to clear the blocker has left the pipe empty.
\<close>

definition threads_inv :: "pipe_threads \<Rightarrow> bool" where
  "threads_inv s \<longleftrightarrow> cq_wf (pipe_queue (th_pipe s)) \<and> cq_capacity (pipe_queue (th_pipe s)) = PIPE_SIZE \<and>
     th_sent s = th_received s @ pipe_bytes (th_pipe s) \<and>
     (\<forall>t. th_pc s t = ReadClearing \<or> th_pc s t = WriteWaking \<longleftrightarrow> th_lock s = Some t) \<and>
     (th_lock s = None \<longrightarrow> pipe_bytes (th_pipe s) \<noteq> [] \<longrightarrow> is_ready (pipe_blocker (th_pipe s))) \<and>
     (\<forall>t. th_pc s t = ReadClearing \<longrightarrow> pipe_bytes (th_pipe s) = [])"

lemma read_take_spec:
  assumes "cq_wf (pipe_queue p)"
  shows "\<exists>q. read_take p n = Inr ((int (min n (length (pipe_bytes p))), take n (pipe_bytes p)),
             drop n (pipe_bytes p) = [] \<and> pipe_writers p \<noteq> 0, p\<lparr>pipe_queue := q\<rparr>) \<and>
           cq_wf q \<and> cq_contents q = drop n (pipe_bytes p) \<and> cq_capacity q = cq_capacity (pipe_queue p)"
proof -
  let ?m = "min n (length (pipe_bytes p))"
  have m: "(if n > cq_size (pipe_queue p) then cq_size (pipe_queue p) else n) = ?m" by simp
  have eqs: "take ?m (pipe_bytes p) = take n (pipe_bytes p)" "drop ?m (pipe_bytes p) = drop n (pipe_bytes p)"
    by (simp_all add: min_def)
  from cq.pop_n_take[OF assms, of ?m, unfolded eqs] obtain q where
    q: "pop_n cq_pop_front ?m (pipe_queue p) = Inr (take n (pipe_bytes p), q)" "cq_wf q"
      "cq_contents q = drop n (pipe_bytes p)" "cq_capacity q = cq_capacity (pipe_queue p)" by auto
  have "cq_is_empty q \<longleftrightarrow> drop n (pipe_bytes p) = []" using cq.is_empty_contents[OF q(2)] q(3) by simp
  with q m show ?thesis by (intro exI[of _ q]) (simp add: read_take_def Let_def)
qed

lemma write_push_spec:
  assumes "cq_wf (pipe_queue p)"
  shows "\<exists>q. write_push p bs = Inr (min (length bs) (Suc (pipe_free p)), p\<lparr>pipe_queue := q\<rparr>) \<and>
           cq_wf q \<and> cq_contents q = pipe_bytes p @ take (pipe_free p) bs \<and> cq_capacity q = cq_capacity (pipe_queue p)"
  using cq.push_while_stores[OF assms, of bs 0] by (auto simp: write_push_def pipe_free_def)

lemma threads_init_inv: "threads_inv threads_init"
  by (simp add: threads_inv_def threads_init_def pipe_new_def cq_new_wf cq_new_contents PIPE_SIZE_def cq_new_def
      cq_contents_def cq_wf_def)

lemma threads_invD:
  assumes "threads_inv s"
  shows "cq_wf (pipe_queue (th_pipe s))" "cq_capacity (pipe_queue (th_pipe s)) = PIPE_SIZE"
    "th_sent s = th_received s @ pipe_bytes (th_pipe s)"
    "th_pc s t = ReadClearing \<or> th_pc s t = WriteWaking \<longleftrightarrow> th_lock s = Some t"
    "th_lock s = None \<Longrightarrow> pipe_bytes (th_pipe s) \<noteq> [] \<Longrightarrow> is_ready (pipe_blocker (th_pipe s))"
    "th_pc s t = ReadClearing \<Longrightarrow> pipe_bytes (th_pipe s) = []"
  using assms unfolding threads_inv_def by blast+

text \<open>A step that leaves lock and queue alone and does not clear the blocker.\<close>

lemma outside_lock_inv:
  assumes inv: "threads_inv s" and q: "pipe_queue p = pipe_queue (th_pipe s)"
    and r: "is_ready (pipe_blocker (th_pipe s)) \<Longrightarrow> is_ready (pipe_blocker p)"
    and pc: "th_pc s t \<noteq> ReadClearing" "th_pc s t \<noteq> WriteWaking" "pc \<noteq> ReadClearing" "pc \<noteq> WriteWaking"
  shows "threads_inv (goes t pc p s)"
proof -
  note I = threads_invD[OF inv]
  have "th_lock s \<noteq> Some t" using I(4)[of t] pc by simp
  with I q r pc show ?thesis unfolding threads_inv_def by (auto simp: goes_def)
qed

lemma counts_inv:
  assumes "threads_inv s" "pipe_queue p = pipe_queue (th_pipe s)"
    and "is_ready (pipe_blocker (th_pipe s)) \<Longrightarrow> is_ready (pipe_blocker p)"
  shows "threads_inv (s\<lparr>th_pipe := p\<rparr>)"
  using assms(2,3) threads_invD[OF assms(1)] unfolding threads_inv_def by simp

lemma taken_inv:
  assumes inv: "threads_inv s" and t: "th_pc s t = ReadLocking n" "th_lock s = None"
    and r: "read_take (th_pipe s) n = Inr ((r, bs), clear, p)"
  shows "threads_inv (goes t (if clear then ReadClearing else Idle) p s
      \<lparr>th_lock := (if clear then Some t else None), th_received := th_received s @ bs\<rparr>)"
proof -
  note I = threads_invD[OF inv]
  from read_take_spec[OF I(1), of n] r obtain q where
    q: "p = (th_pipe s)\<lparr>pipe_queue := q\<rparr>" "bs = take n (pipe_bytes (th_pipe s))" "cq_wf q"
      "cq_contents q = drop n (pipe_bytes (th_pipe s))" "cq_capacity q = cq_capacity (pipe_queue (th_pipe s))"
      "clear \<Longrightarrow> cq_contents q = []" by auto
  have none: "th_pc s u \<noteq> ReadClearing" "th_pc s u \<noteq> WriteWaking" for u using I(4)[of u] t(2) by auto
  have ready: "is_ready (pipe_blocker (th_pipe s))" if "cq_contents q \<noteq> []" using I(5)[OF t(2)] that q(4) by (metis drop_Nil)
  show ?thesis using I(2,3) q none ready unfolding threads_inv_def by (auto simp: goes_def)
qed

lemma pushed_inv:
  assumes inv: "threads_inv s" and t: "th_pc s t = WriteChecked bs" "th_lock s = None"
    and w: "write_push (th_pipe s) bs = Inr (nwrote, p)"
  shows "threads_inv (goes t (if nwrote \<noteq> 0 then WriteWaking else Idle) p s
      \<lparr>th_lock := (if nwrote \<noteq> 0 then Some t else None), th_sent := th_sent s @ take (pipe_free (th_pipe s)) bs\<rparr>)"
proof -
  note I = threads_invD[OF inv]
  from write_push_spec[OF I(1), of bs] w obtain q where
    q: "p = (th_pipe s)\<lparr>pipe_queue := q\<rparr>" "cq_wf q" "cq_contents q = pipe_bytes (th_pipe s) @ take (pipe_free (th_pipe s)) bs"
      "cq_capacity q = cq_capacity (pipe_queue (th_pipe s))" "nwrote = min (length bs) (Suc (pipe_free (th_pipe s)))" by auto
  have zero: "nwrote = 0 \<longleftrightarrow> bs = []" using q(5) by (auto simp: min_def)
  have none: "th_pc s u \<noteq> ReadClearing" "th_pc s u \<noteq> WriteWaking" for u using I(4)[of u] t(2) by auto
  show ?thesis using I(2,3) I(5)[OF t(2)] q(1-4) zero none unfolding threads_inv_def by (auto simp: goes_def)
qed

lemma unlocked_inv:
  assumes inv: "threads_inv s" and t: "th_lock s = Some t" and p: "p = wake v (th_pipe s)" "v \<or> pipe_bytes (th_pipe s) = []"
  shows "threads_inv (goes t Idle p s\<lparr>th_lock := None\<rparr>)"
proof -
  note I = threads_invD[OF inv]
  have none: "th_pc s u \<noteq> ReadClearing" "th_pc s u \<noteq> WriteWaking" if "u \<noteq> t" for u using I(4)[of u] t that by auto
  show ?thesis using I(1-3) p none unfolding threads_inv_def by (auto simp: goes_def wake_def blocker_defs)
qed

lemma thread_step_inv: "thread_step s s' \<Longrightarrow> threads_inv s \<Longrightarrow> threads_inv s'"
proof (induction rule: thread_step.induct)
  case (ts_take s t n r bs clear p)
  then show ?case by (intro taken_inv) simp_all
next
  case (ts_push s t bs nwrote p)
  then show ?case by (intro pushed_inv) simp_all
next
  case (ts_clear s t)
  then show ?case using threads_invD(4,6)[of s t] by (intro unlocked_inv) auto
next
  case (ts_wake s t)
  then show ?case using threads_invD(4)[of s t] by (intro unlocked_inv) auto
next
  case (ts_wait s t n pend p)
  then show ?case by (intro outside_lock_inv) (auto simp: read_wait_def blocker_defs split: if_splits)
next
  case (ts_park s t n pend p)
  then show ?case by (intro outside_lock_inv) (auto simp: read_wait_def blocker_defs split: if_splits)
next
  case (ts_leave s t gone p)
  then show ?case by (intro outside_lock_inv) (auto simp: writer_leave_def Let_def)
next
  case (ts_left s t)
  then show ?case by (intro outside_lock_inv) (auto simp: wake_def blocker_defs)
qed (auto intro!: outside_lock_inv counts_inv simp: add_reader_def add_writer_def remove_reader_def blocker_defs)

lemma threads_reachable_inv: "threads_reachable s \<Longrightarrow> threads_inv s"
  by (induction rule: threads_reachable.induct) (auto intro: threads_init_inv thread_step_inv)

section \<open>A lost wake-up\<close>

text \<open>
  A reader is parked, no thread is inside a call that would wake it, and there is nothing to wait for:
  the pipe is empty and its last writer is gone. A read that starts now answers end of file at once.
\<close>

definition lost_wakeup :: "nat \<Rightarrow> pipe_threads \<Rightarrow> bool" where
  "lost_wakeup t s \<longleftrightarrow> (\<exists>n. th_pc s t = ReadWaiting n) \<and> (\<forall>u. u \<noteq> t \<longrightarrow> th_pc s u = Idle) \<and> th_lock s = None \<and>
     pipe_writers (th_pipe s) = 0 \<and> pipe_bytes (th_pipe s) = [] \<and> \<not> should_unblock (pipe_blocker (th_pipe s))"

text \<open>It ends only with a new writer, an interrupt or a write.\<close>

lemma lost_wakeup_stays:
  assumes "thread_step s s'" "lost_wakeup t s" "cq_wf (pipe_queue (th_pipe s))"
    and "pipe_writers (th_pipe s') = 0" "\<not> was_interrupted (pipe_blocker (th_pipe s'))" "\<forall>u bs. th_pc s' u \<noteq> WriteChecked bs"
  shows "lost_wakeup t s'"
proof -
  have pcs: "th_pc s u = Idle \<or> (\<exists>n. th_pc s u = ReadWaiting n)" for u using assms(2) by (auto simp: lost_wakeup_def)
  from assms(1) show ?thesis
  proof (cases rule: thread_step.cases)
    case (ts_read u n)
    have "cq_is_empty (pipe_queue (th_pipe s))" using assms(2,3) cq.is_empty_contents by (auto simp: lost_wakeup_def)
    with ts_read assms(2) show ?thesis by (simp add: lost_wakeup_def read_check_def)
  next
    case (ts_unblock u n)
    with assms(2) show ?thesis by (simp add: lost_wakeup_def)
  next
    case (ts_write u bs)
    then have "th_pc s' u = WriteChecked bs" by (simp add: goes_def)
    with assms(6) show ?thesis by blast
  next
    case (ts_leave u gone p)
    with assms(2,4) show ?thesis by (auto simp: lost_wakeup_def writer_leave_def goes_def Let_def sub32_def)
  qed (use pcs assms(2,4,5) in \<open>(metis pipe_pc.distinct |
      simp add: lost_wakeup_def add_reader_def add_writer_def remove_reader_def blocker_defs)+\<close>)
qed

text \<open>
  Two readers and a writer. The writer has stored a byte; reader 0 takes it and finds a writer still there;
  reader 2 passes the test for the end of file; the writer leaves and sets the blocker; reader 0
  clears it; reader 2 parks.
\<close>

lemma step_goes:
  "threads_reachable s \<Longrightarrow> thread_step s s' \<Longrightarrow> s' = u \<Longrightarrow> threads_reachable u"
  using threads_reachable.step by blast

lemma two_readers_checked:
  "\<exists>p. threads_reachable \<lparr>th_pipe = p, th_lock = None, th_pc = (\<lambda>_. Idle)(0 := ReadLocking 1, 2 := ReadChecked 1), th_sent = [7], th_received = []\<rparr> \<and>
     pipe_bytes p = [7] \<and> pipe_writers p = 1 \<and> \<not> was_interrupted (pipe_blocker p) \<and> cq_wf (pipe_queue p)"
proof -
  let ?p0 = "add_writer (add_reader pipe_new)"
  let ?S = "\<lambda>p l pcs sent got. \<lparr>th_pipe = p, th_lock = l, th_pc = pcs, th_sent = sent, th_received = got\<rparr>"
  let ?I = "\<lambda>_ :: nat. Idle"
  have q0: "pipe_queue ?p0 = cq_new 0 PIPE_SIZE" by (simp add: add_writer_def add_reader_def pipe_new_def)
  have p0: "pipe_writers ?p0 = 1" "pipe_readers ?p0 = 1" "pipe_blocker ?p0 = blocker_new"
    by (simp_all add: add_writer_def add_reader_def pipe_new_def add32_def)
  have c0: "pipe_bytes ?p0 = []" "cq_wf (pipe_queue ?p0)" unfolding q0 by (simp_all add: cq_new_contents cq_new_wf PIPE_SIZE_def)
  have f0: "pipe_free ?p0 = 4096" unfolding pipe_free_def q0 by (simp add: cq_new_def PIPE_SIZE_def)
  have r: "threads_reachable (?S ?p0 None ?I [] [])"
    using threads_reachable.step[OF threads_reachable.step[OF threads_reachable.init ts_add_reader] ts_add_writer]
    by (simp add: threads_init_def)
  from write_push_spec[OF c0(2), of "[7]"] c0(1) f0 obtain q1 where
    w: "write_push ?p0 [7] = Inr (1, ?p0\<lparr>pipe_queue := q1\<rparr>)" "cq_wf q1" "cq_contents q1 = [7]" by auto
  let ?p1 = "wake True (?p0\<lparr>pipe_queue := q1\<rparr>)"
  have r: "threads_reachable (?S ?p0 None (?I(1 := WriteChecked [7])) [] [])"
    by (rule step_goes[OF r ts_write[of _ 1]]) (simp_all add: goes_def p0)
  have r: "threads_reachable (?S (?p0\<lparr>pipe_queue := q1\<rparr>) (Some 1) (?I(1 := WriteWaking)) [7] [])"
    by (rule step_goes[OF r ts_push[of _ 1 "[7]" 1]]) (simp_all add: goes_def w p0 f0)
  have r: "threads_reachable (?S ?p1 None ?I [7] [])"
    by (rule step_goes[OF r ts_wake[of _ 1]]) (simp_all add: goes_def fun_eq_iff)
  have p1: "pipe_bytes ?p1 = [7]" "pipe_writers ?p1 = 1" "is_ready (pipe_blocker ?p1)" "\<not> was_interrupted (pipe_blocker ?p1)"
    "cq_wf (pipe_queue ?p1)" using w p0 by (simp_all add: wake_def blocker_defs)
  have rc: "read_check ?p1" using p1(2) by (simp add: read_check_def)
  have r: "threads_reachable (?S ?p1 None (?I(0 := ReadChecked 1)) [7] [])"
    by (rule step_goes[OF r ts_read[of _ 0]]) (simp_all add: goes_def rc)
  have r: "threads_reachable (?S ?p1 None (?I(0 := ReadWoken 1)) [7] [])"
    by (rule step_goes[OF r ts_wait[of _ 0 1 False ?p1]]) (simp_all add: goes_def read_wait_def p1)
  have r: "threads_reachable (?S ?p1 None (?I(0 := ReadLocking 1)) [7] [])"
    by (rule step_goes[OF r ts_go[of _ 0 1]]) (simp_all add: goes_def p1)
  have r: "threads_reachable (?S ?p1 None (?I(0 := ReadLocking 1, 2 := ReadChecked 1)) [7] [])"
    by (rule step_goes[OF r ts_read[of _ 2]]) (simp_all add: goes_def rc)
  with p1 show ?thesis by (intro exI[of _ ?p1]) simp
qed

lemma wakeup_can_be_lost: "\<exists>s. threads_reachable s \<and> lost_wakeup 2 s"
proof -
  let ?S = "\<lambda>p l pcs sent got. \<lparr>th_pipe = p, th_lock = l, th_pc = pcs, th_sent = sent, th_received = got\<rparr>"
  let ?I = "\<lambda>_ :: nat. Idle"
  from two_readers_checked obtain p1 where
    r: "threads_reachable (?S p1 None (?I(0 := ReadLocking 1, 2 := ReadChecked 1)) [7] [])"
    and p1: "pipe_bytes p1 = [7]" "pipe_writers p1 = 1" "\<not> was_interrupted (pipe_blocker p1)" "cq_wf (pipe_queue p1)" by auto
  from read_take_spec[OF p1(4), of 1] p1 obtain q2 where
    t: "read_take p1 1 = Inr ((1, [7]), True, p1\<lparr>pipe_queue := q2\<rparr>)" "cq_contents q2 = []" by auto
  let ?p2 = "p1\<lparr>pipe_queue := q2\<rparr>" and ?p3 = "p1\<lparr>pipe_queue := q2, pipe_writers := 0\<rparr>"
  have r: "threads_reachable (?S ?p2 (Some 0) (?I(0 := ReadClearing, 2 := ReadChecked 1)) [7] [7])"
    by (rule step_goes[OF r ts_take[of _ 0 1 1 "[7]" True ?p2]]) (use t in \<open>simp_all add: goes_def fun_eq_iff\<close>)
  have l: "writer_leave ?p2 = (True, ?p3)" using p1(2) by (simp add: writer_leave_def sub32_def Let_def)
  have r: "threads_reachable (?S ?p3 (Some 0) (?I(0 := ReadClearing, 2 := ReadChecked 1, 1 := WriterLeaving)) [7] [7])"
    by (rule step_goes[OF r ts_leave[of _ 1 True ?p3]]) (use l in \<open>simp_all add: goes_def\<close>)
  have r: "threads_reachable (?S (wake True ?p3) (Some 0) (?I(0 := ReadClearing, 2 := ReadChecked 1)) [7] [7])"
    by (rule step_goes[OF r ts_left[of _ 1]]) (simp_all add: goes_def fun_eq_iff)
  have r: "threads_reachable (?S (wake False (wake True ?p3)) None (?I(2 := ReadChecked 1)) [7] [7])"
    by (rule step_goes[OF r ts_clear[of _ 0]]) (simp_all add: goes_def fun_eq_iff)
  let ?p4 = "wake False (wake True ?p3)"
  have p4: "read_wait False ?p4 = (Parks, ?p4)" by (simp add: read_wait_def wake_def blocker_defs)
  have r: "threads_reachable (?S ?p4 None (?I(2 := ReadWaiting 1)) [7] [7])"
    by (rule step_goes[OF r ts_park[of _ 2 1 False ?p4]]) (use p4 in \<open>simp_all add: goes_def\<close>)
  moreover have "lost_wakeup 2 (?S ?p4 None (?I(2 := ReadWaiting 1)) [7] [7])"
    using t(2) p1(3) by (simp add: lost_wakeup_def wake_def blocker_defs)
  ultimately show ?thesis by blast
qed

text \<open>
  C18: the pipe with threads that can overtake each other between the unlocked tests of \<open>read\<close>, its wait,
  the parts under the lock and the two halves of \<open>remove_writer\<close>. In every reachable state the bytes
  handed out followed by those in the pipe are the bytes accepted, in order, the pipe holds at most
  \<open>PIPE_SIZE\<close> bytes, and while no thread holds the lock, bytes in the pipe mean that a parked reader is due to run.
  For the closing of the pipe there is no such guarantee: a state can be reached in which a reader is
  parked although the pipe is empty, the last writer has gone and every other thread is idle. It has
  lost the wake-up of \<open>remove_writer\<close>, which takes no lock, to the \<open>set_ready(false)\<close> of another reader.
\<close>

theorem pipe_wakeups:
  assumes "threads_reachable s"
  shows "th_sent s = th_received s @ pipe_bytes (th_pipe s) \<and> length (pipe_bytes (th_pipe s)) \<le> PIPE_SIZE \<and>
     (th_lock s = None \<and> pipe_bytes (th_pipe s) \<noteq> [] \<longrightarrow> should_unblock (pipe_blocker (th_pipe s))) \<and>
     (\<exists>s' t. threads_reachable s' \<and> lost_wakeup t s')"
proof -
  note I = threads_invD[OF threads_reachable_inv[OF assms]]
  from cq.within_capacity[OF I(1)] I(2,3,5) wakeup_can_be_lost show ?thesis by (auto simp: should_unblock_def)
qed

theorem pipe_wakeups_witness:
  "th_sent (threads_init\<lparr>th_pipe := add_writer pipe_new\<rparr>) =
     th_received (threads_init\<lparr>th_pipe := add_writer pipe_new\<rparr>) @ pipe_bytes (add_writer pipe_new) \<and>
   (\<exists>s' t. threads_reachable s' \<and> lost_wakeup t s')"
proof -
  have "threads_reachable (threads_init\<lparr>th_pipe := add_writer pipe_new\<rparr>)"
    using threads_reachable.step[OF threads_reachable.init ts_add_writer] by (simp add: threads_init_def)
  from pipe_wakeups[OF this] show ?thesis by simp
qed

end
