(* ===== verification/SequenceSpec.thy ===== *)
theory SequenceSpec
  imports Prelude
begin

text \<open>
  The contract between \<open>kstd::vector\<close> and the code that keeps lists in it, and the search loops of
  that code: \<open>for(i < v.size()) if(v[i] == key) { v.erase(i); ... }\<close> in \<open>LRUCache::erase\<close>,
  \<open>LRUCache::promote\<close> and \<open>DiskDevice\<close>.
\<close>

section \<open>The search-and-erase loop\<close>

function erase_first_from :: "('v \<Rightarrow> nat \<Rightarrow> 'a run) \<Rightarrow> ('v \<Rightarrow> nat \<Rightarrow> 'v run) \<Rightarrow> ('v \<Rightarrow> nat) \<Rightarrow>
    'a \<Rightarrow> nat \<Rightarrow> 'v \<Rightarrow> (bool \<times> 'v) run" where
  "erase_first_from at erase num key i v =
     (if i < num v then
        bindR (at v i) (\<lambda>x.
          if x = key then bindR (erase v i) (\<lambda>v'. Inr (True, v'))
          else erase_first_from at erase num key (Suc i) v)
      else Inr (False, v))"
  by pat_completeness auto
termination
  by (relation "measure (\<lambda>(at, erase, num, key, i, v). num v - i)") auto

declare erase_first_from.simps [simp del]

definition erase_first :: "('v \<Rightarrow> nat \<Rightarrow> 'a run) \<Rightarrow> ('v \<Rightarrow> nat \<Rightarrow> 'v run) \<Rightarrow> ('v \<Rightarrow> nat) \<Rightarrow>
    'a \<Rightarrow> 'v \<Rightarrow> (bool \<times> 'v) run" where
  "erase_first at erase num key v = erase_first_from at erase num key 0 v"

section \<open>The contract\<close>

locale sequence =
  fixes push :: "'v \<Rightarrow> 'a \<Rightarrow> 'v run"
    and erase :: "'v \<Rightarrow> nat \<Rightarrow> 'v run"
    and at :: "'v \<Rightarrow> nat \<Rightarrow> 'a run"
    and assign :: "'v \<Rightarrow> nat \<Rightarrow> 'a \<Rightarrow> 'v run"
    and num :: "'v \<Rightarrow> nat"
    and contents :: "'v \<Rightarrow> 'a list"
    and wf :: "'v \<Rightarrow> bool"
  assumes num_contents: "wf v \<Longrightarrow> num v = length (contents v)"
    and push_snoc: "wf v \<Longrightarrow> \<exists>v'. push v x = Inr v' \<and> wf v' \<and> contents v' = contents v @ [x]"
    and erase_nth: "wf v \<Longrightarrow> i < length (contents v) \<Longrightarrow>
      \<exists>v'. erase v i = Inr v' \<and> wf v' \<and>
           contents v' = take i (contents v) @ drop (Suc i) (contents v)"
    and at_nth: "wf v \<Longrightarrow> i < length (contents v) \<Longrightarrow> at v i = Inr (contents v ! i)"
    and assign_nth: "wf v \<Longrightarrow> i < length (contents v) \<Longrightarrow>
      \<exists>v'. assign v i x = Inr v' \<and> wf v' \<and> contents v' = (contents v)[i := x]"
begin

lemma remove1_split:
  "i < length xs \<Longrightarrow> xs ! i = x \<Longrightarrow> x \<notin> set (take i xs) \<Longrightarrow>
   remove1 x xs = take i xs @ drop (Suc i) xs"
  by (metis id_take_nth_drop remove1.simps(2) remove1_append)

lemma erase_first_from_remove1:
  assumes "wf v" "key \<notin> set (take i (contents v))"
  shows "\<exists>v'. erase_first_from at erase num key i v = Inr (key \<in> set (contents v), v') \<and> wf v' \<and>
           contents v' = remove1 key (contents v)"
  using assms
proof (induction "length (contents v) - i" arbitrary: i)
  case 0
  then have "key \<notin> set (contents v)" by simp
  with 0 show ?case
    by (subst erase_first_from.simps) (simp add: num_contents remove1_idem)
next
  case (Suc n)
  then have lt: "i < length (contents v)" by simp
  show ?case
  proof (cases "contents v ! i = key")
    case True
    from erase_nth[OF Suc.prems(1) lt] obtain v' where
      v': "erase v i = Inr v'" "wf v'" "contents v' = take i (contents v) @ drop (Suc i) (contents v)"
      by blast
    moreover have "remove1 key (contents v) = take i (contents v) @ drop (Suc i) (contents v)"
      using lt True Suc.prems(2) by (rule remove1_split)
    moreover have "key \<in> set (contents v)" using lt True by auto
    ultimately show ?thesis using lt True Suc.prems(1)
      by (subst erase_first_from.simps) (simp add: num_contents at_nth)
  next
    case False
    with Suc.prems(2) lt have "key \<notin> set (take (Suc i) (contents v))"
      by (simp add: take_Suc_conv_app_nth)
    moreover have "n = length (contents v) - Suc i" using Suc.hyps(2) by simp
    ultimately have "\<exists>v'. erase_first_from at erase num key (Suc i) v =
        Inr (key \<in> set (contents v), v') \<and> wf v' \<and> contents v' = remove1 key (contents v)"
      using Suc.hyps(1) Suc.prems(1) by blast
    with False lt Suc.prems(1) show ?thesis
      by (subst erase_first_from.simps) (simp add: num_contents at_nth)
  qed
qed

lemma erase_first_remove1:
  "wf v \<Longrightarrow> \<exists>v'. erase_first at erase num key v = Inr (key \<in> set (contents v), v') \<and> wf v' \<and>
      contents v' = remove1 key (contents v)"
  unfolding erase_first_def by (rule erase_first_from_remove1) simp_all

end

end
