(* ===== verification/Vector.thy ===== *)
theory Vector
  imports SequenceSpec
begin

text \<open>
  \<open>kstd::vector\<close> (\<open>kernel/kstd/vector.hpp\<close>) at the level of object lifetimes: the storage block holds
  raw cells and live objects, and every placement new, copy and explicit destructor call of the source
  is one primitive of \<open>Prelude\<close>. Capacities are unbounded naturals: a block whose element
  count overflows \<open>size_t\<close> would not fit the address space. References to elements are
  modelled by reading and assigning through an index (\<open>vec_at\<close>, \<open>vec_assign\<close>).
\<close>

section \<open>State and operations\<close>

record 'a vec =
  vec_storage :: "'a cells option"  \<comment> \<open>\<open>None\<close> is \<open>nullptr\<close>\<close>
  vec_capacity :: nat
  vec_size :: nat

definition blk :: "'a cells option \<Rightarrow> 'a cells" where
  "blk st = (case st of None \<Rightarrow> [] | Some cs \<Rightarrow> cs)"

definition vec_new :: "'a vec" where
  "vec_new = \<lparr>vec_storage = None, vec_capacity = 0, vec_size = 0\<rparr>"

text \<open>\<open>for(i = lo; i < hi; i++) _storage[i].~T();\<close>\<close>

definition destroy_range :: "'a cells \<Rightarrow> nat \<Rightarrow> nat \<Rightarrow> 'a cells run" where
  "destroy_range cs lo hi = for_run lo hi (\<lambda>i c. cell_destroy c i) cs"

text \<open>\<open>for(i = lo; i < hi; i++) new (&_storage[i]) T(value);\<close>\<close>

definition construct_range :: "'a cells \<Rightarrow> nat \<Rightarrow> nat \<Rightarrow> 'a \<Rightarrow> 'a cells run" where
  "construct_range cs lo hi x = for_run lo hi (\<lambda>i c. cell_construct c i x) cs"

text \<open>\<open>for(i = 0; i < n; i++) new (&dst[i]) T(src[i]);\<close>\<close>

definition copy_range :: "'a cells \<Rightarrow> 'a cells \<Rightarrow> nat \<Rightarrow> 'a cells run" where
  "copy_range src dst n =
     for_run 0 n (\<lambda>i d. bindR (cell_read src i) (\<lambda>x. cell_construct d i x)) dst"

text \<open>\<open>for(i = 0; i < n; i++) { new (&tmp[i]) T(_storage[i]); _storage[i].~T(); }\<close>\<close>

definition transfer_range :: "'a cells \<Rightarrow> 'a cells \<Rightarrow> nat \<Rightarrow> ('a cells \<times> 'a cells) run" where
  "transfer_range src dst n =
     for_run 0 n (\<lambda>i (d, s). bindR (cell_read s i) (\<lambda>x. bindR (cell_construct d i x)
       (\<lambda>d'. bindR (cell_destroy s i) (\<lambda>s'. Inr (d', s'))))) (dst, src)"

definition vec_fill :: "nat \<Rightarrow> 'a \<Rightarrow> 'a vec run" where
  "vec_fill n x =
     bindR (construct_range (kcalloc n) 0 n x)
       (\<lambda>cs. Inr \<lparr>vec_storage = Some cs, vec_capacity = n, vec_size = n\<rparr>)"

definition vec_copy :: "'a vec \<Rightarrow> 'a vec run" where
  "vec_copy other =
     bindR (copy_range (blk (vec_storage other)) (kcalloc (vec_size other)) (vec_size other))
       (\<lambda>cs. Inr \<lparr>vec_storage = Some cs, vec_capacity = vec_capacity other,
                   vec_size = vec_size other\<rparr>)"

definition vec_move :: "'a vec \<Rightarrow> 'a vec \<times> 'a vec" where
  "vec_move other = (other, vec_new)"

definition vec_destruct :: "'a vec \<Rightarrow> 'a cells run" where
  "vec_destruct v =
     (case vec_storage v of None \<Rightarrow> Inr [] | Some cs \<Rightarrow> destroy_range cs 0 (vec_size v))"

definition vec_realloc :: "'a vec \<Rightarrow> nat \<Rightarrow> 'a vec run" where
  "vec_realloc v new_capacity =
     (if new_capacity = vec_capacity v then Inr v
      else case vec_storage v of
        None \<Rightarrow> Inr (v\<lparr>vec_capacity := new_capacity, vec_storage := Some (kcalloc new_capacity)\<rparr>)
      | Some cs \<Rightarrow>
          bindR (if new_capacity < vec_size v
                 then bindR (destroy_range cs new_capacity (vec_size v)) (\<lambda>c. Inr (c, new_capacity))
                 else Inr (cs, vec_size v))
            (\<lambda>(c, n). bindR (transfer_range c (kcalloc new_capacity) n)
              (\<lambda>(tmp, _). Inr \<lparr>vec_storage = Some tmp, vec_capacity = new_capacity,
                                vec_size = n\<rparr>)))"

definition vec_push_back :: "'a vec \<Rightarrow> 'a \<Rightarrow> 'a vec run" where
  "vec_push_back v elem =
     bindR (if vec_size v + 1 > vec_capacity v
            then vec_realloc v (if vec_capacity v = 0 then 1 else vec_capacity v * 2)
            else Inr v)
       (\<lambda>w. bindR (cell_construct (blk (vec_storage w)) (vec_size w) elem)
         (\<lambda>cs. Inr (w\<lparr>vec_storage := Some cs, vec_size := vec_size w + 1\<rparr>)))"

text \<open>\<open>dflt\<close> is the default-constructed \<open>T()\<close>.\<close>

definition vec_resize :: "'a \<Rightarrow> 'a vec \<Rightarrow> nat \<Rightarrow> 'a vec run" where
  "vec_resize dflt v new_size =
     (if vec_size v = new_size then Inr v
      else
        bindR (if new_size > vec_capacity v then vec_realloc v new_size else Inr v)
          (\<lambda>w. bindR (if new_size > vec_size w
                      then construct_range (blk (vec_storage w)) (vec_size w) new_size dflt
                      else destroy_range (blk (vec_storage w)) new_size (vec_size w))
            (\<lambda>cs. Inr (w\<lparr>vec_storage := Some cs, vec_size := new_size\<rparr>))))"

definition vec_erase :: "'a vec \<Rightarrow> nat \<Rightarrow> 'a vec run" where
  "vec_erase v elem =
     bindR (assertR (elem < vec_size v)) (\<lambda>_.
       bindR (cell_destroy (blk (vec_storage v)) elem) (\<lambda>cs.
         bindR (for_run elem (vec_size v - 1)
                 (\<lambda>i c. bindR (cell_read c (i + 1)) (\<lambda>x. bindR (cell_construct c i x)
                          (\<lambda>c'. cell_destroy c' (i + 1)))) cs)
           (\<lambda>cs'. Inr (v\<lparr>vec_storage := Some cs', vec_size := vec_size v - 1\<rparr>))))"

definition vec_reserve :: "'a vec \<Rightarrow> nat \<Rightarrow> 'a vec run" where
  "vec_reserve v new_capacity =
     (if new_capacity > vec_capacity v then vec_realloc v new_capacity else Inr v)"

definition vec_shrink_to_fit :: "'a vec \<Rightarrow> 'a vec run" where
  "vec_shrink_to_fit v = vec_realloc v (vec_size v)"

definition vec_empty :: "'a vec \<Rightarrow> bool" where
  "vec_empty v \<longleftrightarrow> vec_size v = 0"

definition vec_at :: "'a vec \<Rightarrow> nat \<Rightarrow> 'a run" where
  "vec_at v index =
     bindR (assertR (index < vec_size v)) (\<lambda>_. cell_read (blk (vec_storage v)) index)"

text \<open>\<open>v[index] = x\<close>: assignment to the live object that \<open>operator[]\<close> returns.\<close>

definition vec_assign :: "'a vec \<Rightarrow> nat \<Rightarrow> 'a \<Rightarrow> 'a vec run" where
  "vec_assign v index x =
     bindR (vec_at v index)
       (\<lambda>_. Inr (v\<lparr>vec_storage := Some ((blk (vec_storage v))[index := Some x])\<rparr>))"

definition vec_assign_copy :: "'a vec \<Rightarrow> 'a vec \<Rightarrow> 'a vec run" where
  "vec_assign_copy this other =
     bindR (destroy_range (blk (vec_storage this)) 0 (vec_size this)) (\<lambda>_.
       bindR (copy_range (blk (vec_storage other)) (kcalloc (vec_capacity other)) (vec_size other))
         (\<lambda>cs. Inr \<lparr>vec_storage = Some cs, vec_capacity = vec_capacity other,
                     vec_size = vec_size other\<rparr>))"

definition vec_assign_move :: "'a vec \<Rightarrow> 'a vec \<Rightarrow> ('a vec \<times> 'a vec) run" where
  "vec_assign_move this other =
     bindR (destroy_range (blk (vec_storage this)) 0 (vec_size this)) (\<lambda>_. Inr (other, vec_new))"

definition vec_front :: "'a vec \<Rightarrow> 'a run" where
  "vec_front v =
     bindR (assertR (vec_storage v \<noteq> None)) (\<lambda>_. cell_read (blk (vec_storage v)) 0)"

definition vec_back :: "'a vec \<Rightarrow> 'a run" where
  "vec_back v =
     bindR (assertR (vec_storage v \<noteq> None))
       (\<lambda>_. cell_read (blk (vec_storage v)) (sub32 (vec_size v) 1))"

section \<open>Well-formed vectors and their contents\<close>

text \<open>A block of \<open>n\<close> cells whose live objects are exactly \<open>xs\<close>, from the start.\<close>

definition live :: "'a list \<Rightarrow> nat \<Rightarrow> 'a cells" where
  "live xs n = map (\<lambda>j. if j < length xs then Some (xs ! j) else None) [0..<n]"

definition vec_rep :: "'a vec \<Rightarrow> 'a list \<Rightarrow> bool" where
  "vec_rep v xs \<longleftrightarrow>
     vec_size v = length xs \<and> length xs \<le> vec_capacity v \<and>
     (case vec_storage v of
        None \<Rightarrow> vec_capacity v = 0
      | Some cs \<Rightarrow> cs = live xs (vec_capacity v))"

definition vec_contents :: "'a vec \<Rightarrow> 'a list" where
  "vec_contents v = map the (take (vec_size v) (blk (vec_storage v)))"

definition vec_wf :: "'a vec \<Rightarrow> bool" where
  "vec_wf v \<longleftrightarrow> vec_rep v (vec_contents v)"

lemma length_live [simp]: "length (live xs n) = n"
  by (simp add: live_def)

lemma nth_live [simp]:
  "j < n \<Longrightarrow> live xs n ! j = (if j < length xs then Some (xs ! j) else None)"
  by (simp add: live_def)

lemma live_Nil: "live [] n = kcalloc n"
  by (simp add: live_def kcalloc_def map_replicate_const)

lemma vec_rep_contents: "vec_rep v xs \<Longrightarrow> vec_contents v = xs"
  by (rule nth_equalityI)
    (auto simp: vec_rep_def vec_contents_def blk_def split: option.splits)

lemma vec_rep_wf: "vec_rep v xs \<Longrightarrow> vec_wf v"
  by (simp add: vec_wf_def vec_rep_contents)

lemma vec_wfE:
  assumes "vec_wf v"
  obtains "vec_rep v (vec_contents v)"
  using assms by (simp add: vec_wf_def)

lemma vec_rep_blk: "vec_rep v xs \<Longrightarrow> blk (vec_storage v) = live xs (vec_capacity v)"
  by (auto simp: vec_rep_def blk_def live_def split: option.splits)

section \<open>The storage loops\<close>

lemma map_upt_update:
  "k < n \<Longrightarrow> (map g [0..<n])[k := v] = map (g(k := v)) [0..<n]"
  by (rule nth_equalityI) (auto simp: nth_list_update)

lemma live_eqI:
  "length cs = n \<Longrightarrow> (\<And>j. j < n \<Longrightarrow> cs ! j = (if j < length xs then Some (xs ! j) else None)) \<Longrightarrow>
   cs = live xs n"
  by (rule nth_equalityI) auto

lemma destroy_range_live:
  assumes "lo \<le> length xs" "length xs \<le> n"
  shows "destroy_range (live xs n) lo (length xs) = Inr (live (take lo xs) n)"
proof -
  let ?P = "\<lambda>i c. length c = n \<and> (\<forall>j<n. c ! j =
      (if j < lo \<or> i \<le> j \<and> j < length xs then Some (xs ! j) else None))"
  have "\<exists>c. destroy_range (live xs n) lo (length xs) = Inr c \<and> ?P (length xs) c"
    unfolding destroy_range_def
    by (rule for_run_rule[where P = ?P]) (use assms in \<open>auto simp: nth_list_update cell_destroy_def\<close>)
  then obtain c where c: "destroy_range (live xs n) lo (length xs) = Inr c" "?P (length xs) c"
    by blast
  with assms have "c = live (take lo xs) n" by (intro live_eqI) auto
  with c show ?thesis by simp
qed

lemma construct_range_live:
  assumes "length xs \<le> hi" "hi \<le> n"
  shows "construct_range (live xs n) (length xs) hi x =
    Inr (live (xs @ replicate (hi - length xs) x) n)"
proof -
  let ?P = "\<lambda>i c. length c = n \<and> (\<forall>j<n. c ! j =
      (if j < length xs then Some (xs ! j) else if j < i then Some x else None))"
  have "\<exists>c. construct_range (live xs n) (length xs) hi x = Inr c \<and> ?P hi c"
    unfolding construct_range_def
    by (rule for_run_rule[where P = ?P]) (use assms in \<open>auto simp: nth_list_update\<close>)
  then obtain c where c: "construct_range (live xs n) (length xs) hi x = Inr c" "?P hi c" by blast
  with assms have "c = live (xs @ replicate (hi - length xs) x) n"
    by (intro live_eqI) (auto simp: nth_append)
  with c show ?thesis by simp
qed

lemma copy_range_live:
  assumes "length xs \<le> n" "length xs \<le> m"
  shows "copy_range (live xs n) (kcalloc m) (length xs) = Inr (live xs m)"
proof -
  let ?P = "\<lambda>i c. length c = m \<and> (\<forall>j<m. c ! j = (if j < i then Some (xs ! j) else None))"
  have "\<exists>c. copy_range (live xs n) (kcalloc m) (length xs) = Inr c \<and> ?P (length xs) c"
    unfolding copy_range_def
    by (rule for_run_rule[where P = ?P]) (use assms in \<open>auto simp: nth_list_update\<close>)
  then obtain c where c: "copy_range (live xs n) (kcalloc m) (length xs) = Inr c" "?P (length xs) c"
    by blast
  with assms have "c = live xs m" by (intro live_eqI) auto
  with c show ?thesis by simp
qed

lemma transfer_range_live:
  assumes "length xs \<le> n" "length xs \<le> m"
  shows "\<exists>s. transfer_range (live xs n) (kcalloc m) (length xs) = Inr (live xs m, s)"
proof -
  let ?P = "\<lambda>i (d, s). length d = m \<and> length s = n \<and>
      (\<forall>j<m. d ! j = (if j < i then Some (xs ! j) else None)) \<and>
      (\<forall>j<n. s ! j = (if i \<le> j \<and> j < length xs then Some (xs ! j) else None))"
  have "\<exists>ds. transfer_range (live xs n) (kcalloc m) (length xs) = Inr ds \<and> ?P (length xs) ds"
    unfolding transfer_range_def
  proof (rule for_run_rule[where P = ?P])
    fix i and ds :: "'a cells \<times> 'a cells"
    assume i: "i < length xs" and P: "?P i ds"
    obtain d s where ds: "ds = (d, s)" by fastforce
    from i P ds assms have "s ! i = Some (xs ! i)" "i < length s" "i < length d" by auto
    then have body: "(case ds of (d, s) \<Rightarrow> bindR (cell_read s i) (\<lambda>x. bindR (cell_construct d i x)
        (\<lambda>d'. bindR (cell_destroy s i) (\<lambda>s'. Inr (d', s'))))) =
      Inr (d[i := Some (xs ! i)], s[i := None])" by (simp add: ds)
    have "?P (Suc i) (d[i := Some (xs ! i)], s[i := None])"
      using i P ds assms by (auto simp: nth_list_update)
    with body show "\<exists>t'. (case ds of (d, s) \<Rightarrow> bindR (cell_read s i)
        (\<lambda>x. bindR (cell_construct d i x) (\<lambda>d'. bindR (cell_destroy s i) (\<lambda>s'. Inr (d', s'))))) =
      Inr t' \<and> ?P (Suc i) t'" by blast
  qed (use assms in simp_all)
  then obtain ds where c: "transfer_range (live xs n) (kcalloc m) (length xs) = Inr ds"
    "?P (length xs) ds" by blast
  obtain d s where ds: "ds = (d, s)" by fastforce
  with c assms have "d = live xs m" by (intro live_eqI) auto
  with c ds show ?thesis by simp
qed

section \<open>The operations meet the sequence contract\<close>

lemma vec_new_rep: "vec_rep vec_new []"
  by (simp add: vec_rep_def vec_new_def)

lemma vec_realloc_rep:
  assumes rep: "vec_rep v xs"
  shows "\<exists>w. vec_realloc v n = Inr w \<and> vec_rep w (take n xs) \<and> vec_capacity w = n"
proof (cases "n = vec_capacity v")
  case True
  with rep have "take n xs = xs" by (simp add: vec_rep_def)
  with True rep show ?thesis by (simp add: vec_realloc_def)
next
  case ne: False
  show ?thesis
  proof (cases "vec_storage v")
    case None
    with rep ne show ?thesis
      by (auto simp: vec_realloc_def vec_rep_def live_Nil)
  next
    case (Some cs)
    with rep have cs: "cs = live xs (vec_capacity v)" "vec_size v = length xs"
      "length xs \<le> vec_capacity v" by (auto simp: vec_rep_def)
    let ?ys = "take n xs"
    have "(if n < vec_size v then bindR (destroy_range cs n (vec_size v)) (\<lambda>c. Inr (c, n))
           else Inr (cs, vec_size v)) = Inr (live ?ys (vec_capacity v), length ?ys)"
      using cs by (auto simp: destroy_range_live min_def)
    moreover obtain s where
      "transfer_range (live ?ys (vec_capacity v)) (kcalloc n) (length ?ys) = Inr (live ?ys n, s)"
      using transfer_range_live[of ?ys "vec_capacity v" n] cs(3) le_trans[OF _ cs(3)] by fastforce
    ultimately show ?thesis using ne Some
      by (simp add: vec_realloc_def vec_rep_def)
  qed
qed

lemma vec_rep_snoc:
  assumes "vec_rep v xs" "length xs < vec_capacity v"
  shows "vec_rep (v\<lparr>vec_storage := Some ((live xs (vec_capacity v))[length xs := Some x]),
                    vec_size := length xs + 1\<rparr>) (xs @ [x])"
proof -
  have "(live xs (vec_capacity v))[length xs := Some x] = live (xs @ [x]) (vec_capacity v)"
    by (rule live_eqI) (use assms(2) in \<open>auto simp: nth_list_update nth_append\<close>)
  with assms show ?thesis by (simp add: vec_rep_def)
qed

lemma vec_push_back_rep:
  assumes "vec_rep v xs"
  shows "\<exists>w. vec_push_back v x = Inr w \<and> vec_rep w (xs @ [x])"
proof -
  let ?n = "if vec_capacity v = 0 then 1 else vec_capacity v * 2"
  have "\<exists>w. (if vec_size v + 1 > vec_capacity v then vec_realloc v ?n else Inr v) = Inr w \<and>
          vec_rep w xs \<and> length xs < vec_capacity w"
  proof (cases "vec_size v + 1 > vec_capacity v")
    case True
    from assms have "length xs \<le> vec_capacity v" by (simp add: vec_rep_def)
    then have "take ?n xs = xs" "length xs < ?n" by auto
    with vec_realloc_rep[OF assms, of ?n] True show ?thesis by auto
  qed (use assms in \<open>auto simp: vec_rep_def\<close>)
  then obtain w where w: "(if vec_size v + 1 > vec_capacity v then vec_realloc v ?n else Inr v) = Inr w"
    "vec_rep w xs" "length xs < vec_capacity w" by blast
  from w(2) have "vec_size w = length xs" by (simp add: vec_rep_def)
  with w vec_rep_blk[OF w(2)] vec_rep_snoc[OF w(2,3), of x] show ?thesis
    by (simp add: vec_push_back_def)
qed

lemma vec_erase_rep:
  assumes rep: "vec_rep v xs" and lt: "e < length xs"
  shows "\<exists>w. vec_erase v e = Inr w \<and> vec_rep w (take e xs @ drop (Suc e) xs)"
proof -
  let ?n = "vec_capacity v" and ?m = "length xs - 1"
  let ?body = "\<lambda>i c. bindR (cell_read c (i + 1)) (\<lambda>x. bindR (cell_construct c i x)
                          (\<lambda>c'. cell_destroy c' (i + 1)))"
  let ?P = "\<lambda>i c. length c = ?n \<and> (\<forall>j<?n. c ! j =
      (if j < e then Some (xs ! j) else if j < i then Some (xs ! Suc j)
       else if i < j \<and> j < length xs then Some (xs ! j) else None))"
  from rep have sz: "vec_size v = length xs" "length xs \<le> ?n" by (auto simp: vec_rep_def)
  have destroy: "cell_destroy (blk (vec_storage v)) e = Inr ((live xs ?n)[e := None])"
    using lt sz by (simp add: vec_rep_blk[OF rep] cell_destroy_def)
  have "\<exists>c. for_run e ?m ?body ((live xs ?n)[e := None]) = Inr c \<and> ?P ?m c"
  proof (rule for_run_rule[where P = ?P])
    fix i c
    assume i: "e \<le> i" "i < ?m" and P: "?P i c"
    then have lt_n: "Suc i < ?n" using sz by simp
    with i P have "c ! Suc i = Some (xs ! Suc i)" by auto
    with i P lt_n have "?body i c = Inr (c[i := Some (xs ! Suc i), Suc i := None])"
      by (simp add: cell_destroy_def)
    moreover have "?P (Suc i) (c[i := Some (xs ! Suc i), Suc i := None])"
      using i P lt_n by (simp add: nth_list_update)
    ultimately show "\<exists>t'. ?body i c = Inr t' \<and> ?P (Suc i) t'" by blast
  qed (use lt sz in \<open>auto simp: nth_list_update\<close>)
  then obtain c where c: "for_run e ?m ?body ((live xs ?n)[e := None]) = Inr c" "?P ?m c" by blast
  with lt sz have "c = live (take e xs @ drop (Suc e) xs) ?n"
    by (intro live_eqI) (auto simp: nth_append min_def)
  with c destroy lt sz show ?thesis
    by (simp add: vec_erase_def vec_rep_def)
qed

lemma vec_at_rep: "vec_rep v xs \<Longrightarrow> i < length xs \<Longrightarrow> vec_at v i = Inr (xs ! i)"
  by (simp add: vec_at_def vec_rep_blk) (simp add: vec_rep_def)

lemma vec_assign_rep:
  assumes "vec_rep v xs" "i < length xs"
  shows "\<exists>w. vec_assign v i x = Inr w \<and> vec_rep w (xs[i := x])"
proof -
  have "(live xs (vec_capacity v))[i := Some x] = live (xs[i := x]) (vec_capacity v)"
    by (rule live_eqI) (use assms(2) in \<open>auto simp: nth_list_update\<close>)
  with assms vec_at_rep[OF assms] vec_rep_blk[OF assms(1)] show ?thesis
    by (simp add: vec_assign_def vec_rep_def)
qed

lemma vec_rep_size: "vec_rep v xs \<Longrightarrow> vec_size v = length xs"
  by (simp add: vec_rep_def)

interpretation vec: sequence vec_push_back vec_erase vec_at vec_assign vec_size vec_contents vec_wf
proof unfold_locales
  fix v :: "'a vec" and x i
  assume wf: "vec_wf v"
  then have rep: "vec_rep v (vec_contents v)" by (simp add: vec_wf_def)
  show "vec_size v = length (vec_contents v)" by (rule vec_rep_size[OF rep])
  show "\<exists>w. vec_push_back v x = Inr w \<and> vec_wf w \<and> vec_contents w = vec_contents v @ [x]"
    using vec_push_back_rep[OF rep, of x] vec_rep_wf vec_rep_contents by blast
  assume i: "i < length (vec_contents v)"
  show "\<exists>w. vec_erase v i = Inr w \<and> vec_wf w \<and>
      vec_contents w = take i (vec_contents v) @ drop (Suc i) (vec_contents v)"
    using vec_erase_rep[OF rep i] vec_rep_wf vec_rep_contents by blast
  show "vec_at v i = Inr (vec_contents v ! i)" by (rule vec_at_rep[OF rep i])
  show "\<exists>w. vec_assign v i x = Inr w \<and> vec_wf w \<and> vec_contents w = (vec_contents v)[i := x]"
    using vec_assign_rep[OF rep i, of x] vec_rep_wf vec_rep_contents by blast
qed

section \<open>Sequences of operations\<close>

lemma vec_realloc_grow:
  assumes "vec_rep v xs" "n \<ge> vec_capacity v"
  shows "\<exists>w. vec_realloc v n = Inr w \<and> vec_rep w xs \<and> vec_capacity w = n"
proof -
  from assms have "take n xs = xs" by (simp add: vec_rep_def)
  with vec_realloc_rep[OF assms(1), of n] show ?thesis by simp
qed

lemma vec_resize_rep:
  assumes rep: "vec_rep v xs"
  shows "\<exists>w. vec_resize d v n = Inr w \<and> vec_rep w (take n xs @ replicate (n - length xs) d)"
proof (cases "n = length xs")
  case True
  with rep show ?thesis by (simp add: vec_resize_def vec_rep_size)
next
  case ne: False
  obtain w where w: "(if n > vec_capacity v then vec_realloc v n else Inr v) = Inr w"
      "vec_rep w xs" "n \<le> vec_capacity w"
    using vec_realloc_grow[OF rep, of n] rep by (cases "n > vec_capacity v") auto
  note b = vec_rep_blk[OF w(2)] and sz = vec_rep_size[OF w(2)] vec_rep_size[OF rep]
  have le: "length xs \<le> vec_capacity w" using w(2) by (simp add: vec_rep_def)
  show ?thesis
  proof (cases "n > length xs")
    case True
    with construct_range_live[of xs n "vec_capacity w" d] w b sz ne show ?thesis
      by (simp add: vec_resize_def vec_rep_def)
  next
    case False
    with destroy_range_live[of n xs "vec_capacity w"] w b sz ne le show ?thesis
      by (simp add: vec_resize_def vec_rep_def)
  qed
qed

datatype 'a vec_op = VecPush 'a | VecErase nat | VecAssign nat 'a | VecResize nat | VecReserve nat | VecShrink

fun vec_step :: "'a \<Rightarrow> 'a vec_op \<Rightarrow> 'a vec \<Rightarrow> 'a vec run" where
  "vec_step d (VecPush x) v = vec_push_back v x"
| "vec_step d (VecErase i) v = vec_erase v i"
| "vec_step d (VecAssign i x) v = vec_assign v i x"
| "vec_step d (VecResize n) v = vec_resize d v n"
| "vec_step d (VecReserve n) v = vec_reserve v n"
| "vec_step d VecShrink v = vec_shrink_to_fit v"

fun vec_run :: "'a \<Rightarrow> 'a vec_op list \<Rightarrow> 'a vec \<Rightarrow> 'a vec run" where
  "vec_run d [] v = Inr v"
| "vec_run d (op # ops) v = bindR (vec_step d op v) (vec_run d ops)"

text \<open>The same operations on a list; an index outside the list has no result.\<close>

fun list_step :: "'a \<Rightarrow> 'a vec_op \<Rightarrow> 'a list \<Rightarrow> 'a list option" where
  "list_step d (VecPush x) xs = Some (xs @ [x])"
| "list_step d (VecErase i) xs =
     (if i < length xs then Some (take i xs @ drop (Suc i) xs) else None)"
| "list_step d (VecAssign i x) xs = (if i < length xs then Some (xs[i := x]) else None)"
| "list_step d (VecResize n) xs = Some (take n xs @ replicate (n - length xs) d)"
| "list_step d (VecReserve n) xs = Some xs"
| "list_step d VecShrink xs = Some xs"

fun list_run :: "'a \<Rightarrow> 'a vec_op list \<Rightarrow> 'a list \<Rightarrow> 'a list option" where
  "list_run d [] xs = Some xs"
| "list_run d (op # ops) xs =
     (case list_step d op xs of None \<Rightarrow> None | Some ys \<Rightarrow> list_run d ops ys)"

lemma vec_step_rep:
  assumes "vec_rep v xs" "list_step d op xs = Some ys"
  shows "\<exists>w. vec_step d op v = Inr w \<and> vec_rep w ys"
proof (cases op)
  case (VecErase i)
  with assms vec_erase_rep[OF assms(1), of i] show ?thesis by (auto split: if_splits)
next
  case (VecAssign i x)
  with assms vec_assign_rep[OF assms(1), of i x] show ?thesis by (auto split: if_splits)
next
  case (VecReserve n)
  with assms vec_realloc_grow[OF assms(1), of n] show ?thesis
    by (auto simp: vec_reserve_def)
next
  case VecShrink
  with assms vec_realloc_rep[OF assms(1), of "length xs"] show ?thesis
    by (auto simp: vec_shrink_to_fit_def vec_rep_size)
qed (use assms vec_push_back_rep[OF assms(1)] vec_resize_rep[OF assms(1)] in auto)

lemma vec_run_rep:
  "vec_rep v xs \<Longrightarrow> list_run d ops xs = Some ys \<Longrightarrow> \<exists>w. vec_run d ops v = Inr w \<and> vec_rep w ys"
proof (induction ops arbitrary: v xs)
  case (Cons op ops)
  then obtain zs where zs: "list_step d op xs = Some zs" "list_run d ops zs = Some ys"
    by (auto split: option.splits)
  from vec_step_rep[OF Cons.prems(1) zs(1)] obtain u where "vec_step d op v = Inr u" "vec_rep u zs"
    by blast
  with Cons.IH[OF _ zs(2)] show ?case by simp
qed simp

text \<open>
  C16: any sequence of pushes, erasures, assignments, resizings, reservations and shrinkings on a new
  vector, with every index in range, runs without a fault: no cell is read, constructed or destroyed
  outside the storage or in the wrong state. The elements are those of the same sequence on a list,
  and the live cells of the storage are exactly the elements, so none is leaked or lost.
\<close>

theorem vec_refines_list:
  assumes "list_run d ops [] = Some xs"
  shows "\<exists>v. vec_run d ops vec_new = Inr v \<and> vec_contents v = xs \<and> vec_size v = length xs \<and>
           length xs \<le> vec_capacity v \<and>
           (vec_storage v = None \<or> vec_storage v = Some (live xs (vec_capacity v)))"
proof -
  from vec_run_rep[OF vec_new_rep assms] obtain v where v: "vec_run d ops vec_new = Inr v" "vec_rep v xs"
    by blast
  with vec_rep_contents[OF v(2)] show ?thesis
    by (auto simp: vec_rep_def split: option.splits)
qed

theorem vec_refines_list_witness:
  "\<exists>v. vec_run 0 [VecPush 5, VecPush 6, VecResize 4, VecErase 0, VecAssign 2 (9::int), VecShrink] vec_new = Inr v \<and>
       vec_contents v = [6, 0, 9] \<and> vec_size v = length [6, 0, 9::int] \<and>
       length [6, 0, 9::int] \<le> vec_capacity v \<and>
       (vec_storage v = None \<or> vec_storage v = Some (live [6, 0, 9] (vec_capacity v)))"
  by (rule vec_refines_list) (simp add: numeral_eq_Suc)

text \<open>
  C31: a copy-constructed vector has the elements of the original in a storage of \<open>size()\<close> cells, but
  claims the capacity of the original; a \<open>push_back\<close> on the copy of a vector with spare capacity
  therefore constructs its element one cell past the end of the storage.
\<close>

theorem vec_copy_then_push:
  assumes "vec_wf v" and "vec_size v < vec_capacity v"
  shows "\<exists>w. vec_copy v = Inr w \<and> vec_contents w = vec_contents v \<and>
           length (blk (vec_storage w)) = vec_size v \<and> vec_push_back w x = Inl OutOfBounds"
proof -
  from assms(1) obtain xs where rep: "vec_rep v xs" and c: "vec_contents v = xs"
    by (auto elim: vec_wfE dest: vec_rep_contents)
  note sz = vec_rep_size[OF rep]
  from copy_range_live[of xs "vec_capacity v" "length xs"] vec_rep_blk[OF rep] sz assms(2)
  have "vec_copy v = Inr \<lparr>vec_storage = Some (live xs (length xs)), vec_capacity = vec_capacity v,
      vec_size = length xs\<rparr>" by (simp add: vec_copy_def)
  moreover have "map the (live xs (length xs)) = xs" by (rule nth_equalityI) simp_all
  ultimately show ?thesis using assms(2) sz c
    by (simp add: vec_contents_def vec_push_back_def cell_construct_def blk_def)
qed

theorem vec_copy_then_push_witness:
  "\<exists>w. vec_copy \<lparr>vec_storage = Some [Some (1::int), None], vec_capacity = 2, vec_size = 1\<rparr> = Inr w \<and>
       vec_contents w = [1] \<and> length (blk (vec_storage w)) = 1 \<and> vec_push_back w 7 = Inl OutOfBounds"
  using vec_copy_then_push[of "\<lparr>vec_storage = Some [Some (1::int), None], vec_capacity = 2, vec_size = 1\<rparr>" 7]
  by (simp add: vec_wf_def vec_contents_def vec_rep_def live_def upt_rec blk_def)

end
