(* ===== verification/Queue.thy ===== *)
theory Queue
  imports FifoSpec Vector
begin

text \<open>
  \<open>kstd::queue\<close> (\<open>kernel/kstd/queue.hpp\<close>): a ring buffer that doubles its storage when it is full,
  used for socket backlogs, unacknowledged packets, local sockets and the list of dirty cache
  regions. It holds objects with destructors, so the model tracks lifetimes as \<open>Vector\<close> does.
\<close>

section \<open>State and operations\<close>

record 'a queue =
  q_storage :: "'a cells option"
  q_capacity :: nat
  q_size :: nat
  q_front :: nat
  q_back :: nat

definition q_new :: "'a queue" where
  "q_new = \<lparr>q_storage = None, q_capacity = 0, q_size = 0, q_front = 0, q_back = 0\<rparr>"

definition q_copy :: "'a queue \<Rightarrow> 'a queue run" where
  "q_copy other =
     bindR (copy_range (blk (q_storage other)) (kcalloc (q_size other)) (q_size other))
       (\<lambda>cs. Inr (other\<lparr>q_storage := Some cs\<rparr>))"

definition q_move :: "'a queue \<Rightarrow> 'a queue \<times> 'a queue" where
  "q_move other = (other, q_new)"

definition q_destruct :: "'a queue \<Rightarrow> 'a cells run" where
  "q_destruct q =
     for_run 0 (q_size q) (\<lambda>i c. bindR (modR (q_front q + i) (q_capacity q)) (cell_destroy c))
       (blk (q_storage q))"

text \<open>The copy loop of \<open>realloc\<close>: element \<open>i\<close> of the ring moves to cell \<open>i\<close> of the new block.\<close>

definition q_transfer :: "'a queue \<Rightarrow> 'a cells \<Rightarrow> 'a cells \<Rightarrow> nat \<Rightarrow> ('a cells \<times> 'a cells) run" where
  "q_transfer q src dst n =
     for_run 0 n (\<lambda>i (d, s).
       bindR (modR (q_front q + i) (q_capacity q)) (\<lambda>old_index.
       bindR (cell_read s old_index) (\<lambda>x. bindR (cell_construct d i x)
         (\<lambda>d'. bindR (cell_destroy s old_index) (\<lambda>s'. Inr (d', s')))))) (dst, src)"

definition q_realloc :: "'a queue \<Rightarrow> nat \<Rightarrow> 'a queue run" where
  "q_realloc q new_capacity =
     (if new_capacity = q_capacity q then Inr q
      else case q_storage q of
        None \<Rightarrow> Inr (q\<lparr>q_capacity := new_capacity, q_storage := Some (kcalloc new_capacity)\<rparr>)
      | Some cs \<Rightarrow>
          bindR (if new_capacity < q_size q
                 then bindR (destroy_range cs new_capacity (q_size q)) (\<lambda>c. Inr (c, new_capacity))
                 else Inr (cs, q_size q))
            (\<lambda>(c, n). bindR (q_transfer q c (kcalloc new_capacity) n)
              (\<lambda>(tmp, _). Inr \<lparr>q_storage = Some tmp, q_capacity = new_capacity, q_size = n,
                                q_front = 0, q_back = (if n = 0 then 2 ^ 32 - 1 else n - 1)\<rparr>)))"

definition q_push_back :: "'a queue \<Rightarrow> 'a \<Rightarrow> 'a queue run" where
  "q_push_back q elem =
     bindR (if q_size q = q_capacity q
            then q_realloc q (if q_capacity q \<noteq> 0 then q_capacity q * 2 else 1) else Inr q)
       (\<lambda>w. bindR (if q_size w = 0 then Inr (0, 0)
                   else bindR (modR (q_back w + 1) (q_capacity w)) (\<lambda>b. Inr (q_front w, b)))
         (\<lambda>(f, b). bindR (cell_construct (blk (q_storage w)) b elem)
           (\<lambda>cs. Inr (w\<lparr>q_storage := Some cs, q_front := f, q_back := b,
                         q_size := q_size w + 1\<rparr>))))"

definition q_pop_front :: "'a queue \<Rightarrow> ('a \<times> 'a queue) run" where
  "q_pop_front q =
     bindR (assertR (q_size q \<noteq> 0)) (\<lambda>_.
       bindR (cell_read (blk (q_storage q)) (q_front q)) (\<lambda>ret.
       bindR (cell_destroy (blk (q_storage q)) (q_front q)) (\<lambda>cs.
         let n = q_size q - 1; p = q\<lparr>q_storage := Some cs, q_size := n\<rparr> in
         if n = 0 then Inr (ret, p\<lparr>q_front := 0, q_back := 0\<rparr>)
         else bindR (modR (q_front q + 1) (q_capacity q)) (\<lambda>f. Inr (ret, p\<lparr>q_front := f\<rparr>)))))"

definition q_pop_back :: "'a queue \<Rightarrow> ('a \<times> 'a queue) run" where
  "q_pop_back q =
     bindR (assertR (q_size q \<noteq> 0)) (\<lambda>_.
       bindR (cell_read (blk (q_storage q)) (q_back q)) (\<lambda>ret.
       bindR (cell_destroy (blk (q_storage q)) (q_back q)) (\<lambda>cs.
         let n = q_size q - 1; p = q\<lparr>q_storage := Some cs, q_size := n\<rparr> in
         if n = 0 then Inr (ret, p\<lparr>q_front := 0, q_back := 0\<rparr>)
         else if q_back q = 0 then Inr (ret, p\<lparr>q_back := q_capacity q - 1\<rparr>)
         else Inr (ret, p\<lparr>q_back := q_back q - 1\<rparr>))))"

definition q_peek_front :: "'a queue \<Rightarrow> 'a run" where
  "q_peek_front q =
     bindR (assertR (q_size q \<noteq> 0)) (\<lambda>_. cell_read (blk (q_storage q)) (q_front q))"

definition q_peek_back :: "'a queue \<Rightarrow> 'a run" where
  "q_peek_back q =
     bindR (assertR (q_size q \<noteq> 0)) (\<lambda>_. cell_read (blk (q_storage q)) (q_back q))"

definition q_empty :: "'a queue \<Rightarrow> bool" where
  "q_empty q \<longleftrightarrow> q_size q = 0"

text \<open>The do-while loop of \<open>contains\<close>; \<open>None\<close> is a loop that does not end.\<close>

partial_function (option) q_contains_loop ::
    "'a cells \<Rightarrow> nat \<Rightarrow> nat \<Rightarrow> 'a \<Rightarrow> nat \<Rightarrow> (bool run) option" where
  "q_contains_loop cs cap stop val i =
     (case cell_read cs i of
        Inl e \<Rightarrow> Some (Inl e)
      | Inr x \<Rightarrow>
          if x = val then Some (Inr True)
          else (case modR (i + 1) cap of
                  Inl e \<Rightarrow> Some (Inl e)
                | Inr i' \<Rightarrow> if i' \<noteq> stop then q_contains_loop cs cap stop val i'
                            else Some (Inr False)))"

definition q_contains :: "'a queue \<Rightarrow> 'a \<Rightarrow> (bool run) option" where
  "q_contains q val =
     (if q_empty q then Some (Inr False)
      else q_contains_loop (blk (q_storage q)) (q_capacity q)
             ((q_back q + 1) mod q_size q) val (q_front q))"

definition q_assign_copy :: "'a queue \<Rightarrow> 'a queue \<Rightarrow> 'a queue run" where
  "q_assign_copy this other =
     bindR (destroy_range (blk (q_storage this)) 0 (q_size this)) (\<lambda>_.
       bindR (copy_range (blk (q_storage other)) (kcalloc (q_capacity other)) (q_size other))
         (\<lambda>cs. Inr (other\<lparr>q_storage := Some cs\<rparr>)))"

definition q_assign_move :: "'a queue \<Rightarrow> 'a queue \<Rightarrow> ('a queue \<times> 'a queue) run" where
  "q_assign_move this other =
     bindR (destroy_range (blk (q_storage this)) 0 (q_size this)) (\<lambda>_. Inr (other, q_new))"

section \<open>Well-formed queues and their contents\<close>

text \<open>The live objects of a ring of \<open>n\<close> cells are \<open>xs\<close>, from cell \<open>f\<close> on.\<close>

definition ring_live :: "'a cells \<Rightarrow> nat \<Rightarrow> nat \<Rightarrow> 'a list \<Rightarrow> bool" where
  "ring_live cs n f xs \<longleftrightarrow> length cs = n \<and> length xs \<le> n \<and>
     (\<forall>i<n. cs ! ((f + i) mod n) = (if i < length xs then Some (xs ! i) else None))"

definition q_rep :: "'a queue \<Rightarrow> 'a list \<Rightarrow> bool" where
  "q_rep q xs \<longleftrightarrow>
     q_size q = length xs \<and>
     ring_live (blk (q_storage q)) (q_capacity q) (q_front q) xs \<and>
     (xs \<noteq> [] \<longrightarrow> q_front q < q_capacity q \<and>
        q_back q = (q_front q + (length xs - 1)) mod q_capacity q) \<and>
     (q_storage q = None \<longrightarrow> q_capacity q = 0)"

definition q_contents :: "'a queue \<Rightarrow> 'a list" where
  "q_contents q =
     map the (ring_slice (blk (q_storage q)) (q_capacity q) (q_front q) (q_size q))"

definition q_wf :: "'a queue \<Rightarrow> bool" where
  "q_wf q \<longleftrightarrow> q_rep q (q_contents q)"

lemma q_rep_contents: "q_rep q xs \<Longrightarrow> q_contents q = xs"
  by (rule nth_equalityI) (auto simp: q_rep_def q_contents_def ring_live_def)

lemma q_rep_wf: "q_rep q xs \<Longrightarrow> q_wf q"
  by (simp add: q_wf_def q_rep_contents)

lemma ring_live_nth:
  "ring_live cs n f xs \<Longrightarrow> i < length xs \<Longrightarrow>
   (f + i) mod n < length cs \<and> cs ! ((f + i) mod n) = Some (xs ! i)"
  by (auto simp: ring_live_def)

lemma ring_live_snoc:
  assumes "ring_live cs n f xs" "length xs < n"
  shows "ring_live (cs[(f + length xs) mod n := Some x]) n f (xs @ [x])"
  using assms by (auto simp: ring_live_def nth_list_update ring_index_eq_iff nth_append)

lemma ring_live_tl:
  assumes "ring_live cs n f (x # xs)"
  shows "ring_live (cs[f mod n := None]) n ((f + 1) mod n) xs"
proof -
  have "(cs[f mod n := None]) ! (((f + 1) mod n + i) mod n) =
      (if i < length xs then Some (xs ! i) else None)" if "i < n" for i
  proof (cases "Suc i = n")
    case True
    have "((f + 1) mod n + i) mod n = (f + Suc i) mod n" by (simp add: mod_simps)
    then have "((f + 1) mod n + i) mod n = f mod n" by (simp add: True)
    with assms True show ?thesis by (auto simp: ring_live_def)
  next
    case False
    with that have lt: "Suc i < n" by simp
    have eq: "((f + 1) mod n + i) mod n = (f + Suc i) mod n" by (simp add: mod_simps)
    have "(f + Suc i) mod n \<noteq> f mod n"
      using ring_index_eq_iff[of "Suc i" n 0 f] lt by simp
    with eq lt assms show ?thesis by (auto simp: ring_live_def)
  qed
  with assms show ?thesis by (auto simp: ring_live_def)
qed

lemma ring_live_butlast:
  assumes "ring_live cs n f (xs @ [x])"
  shows "ring_live (cs[(f + length xs) mod n := None]) n f xs"
  using assms
  by (auto simp: ring_live_def nth_list_update ring_index_eq_iff nth_append split: if_splits)

lemma ring_live_empty: "ring_live (kcalloc n) n f []"
  by (auto simp: ring_live_def)

lemma ring_live_shift_empty: "ring_live cs n f [] \<Longrightarrow> ring_live cs n g []"
proof -
  assume a: "ring_live cs n f []"
  have "cs ! ((g + i) mod n) = None" if "i < n" for i
  proof -
    have n: "0 < n" using that by simp
    have "\<exists>k<n. (g + i) mod n = (f + k) mod n"
    proof (rule exI[of _ "((g + i) + (n - f mod n)) mod n"], rule conjI)
      have "f mod n + ((g + i) + (n - f mod n)) = n + (g + i)"
        using mod_less_divisor[OF n, of f] by simp
      moreover have "(f + ((g + i) + (n - f mod n)) mod n) mod n =
          (f mod n + ((g + i) + (n - f mod n))) mod n"
        by (metis mod_add_left_eq mod_add_right_eq)
      ultimately show "(g + i) mod n = (f + ((g + i) + (n - f mod n)) mod n) mod n" by simp
    qed (use n in simp)
    with a show ?thesis by (auto simp: ring_live_def)
  qed
  with a show ?thesis by (auto simp: ring_live_def)
qed

section \<open>The operations meet the queue contract\<close>

lemma q_transfer_ring:
  assumes ring: "ring_live cs (q_capacity q) (q_front q) xs" and m: "length xs \<le> m"
  shows "\<exists>s. q_transfer q cs (kcalloc m) (length xs) = Inr (live xs m, s)"
proof -
  let ?k = "\<lambda>i. (q_front q + i) mod q_capacity q"
  let ?body = "\<lambda>i (d, s). bindR (modR (q_front q + i) (q_capacity q)) (\<lambda>old_index.
       bindR (cell_read s old_index) (\<lambda>x. bindR (cell_construct d i x)
         (\<lambda>d'. bindR (cell_destroy s old_index) (\<lambda>s'. Inr (d', s')))))"
  let ?P = "\<lambda>i (d, s). length d = m \<and> length s = q_capacity q \<and>
      (\<forall>j<m. d ! j = (if j < i then Some (xs ! j) else None)) \<and>
      (\<forall>j. i \<le> j \<and> j < length xs \<longrightarrow> s ! ?k j = Some (xs ! j))"
  have "\<exists>ds. for_run 0 (length xs) ?body (kcalloc m, cs) = Inr ds \<and> ?P (length xs) ds"
  proof (rule for_run_rule[where P = ?P])
    fix i and ds :: "'a cells \<times> 'a cells"
    assume i: "i < length xs" and P: "?P i ds"
    obtain d s where ds: "ds = (d, s)" by fastforce
    from ring i have cap: "i < q_capacity q" "length xs \<le> q_capacity q"
      by (auto simp: ring_live_def)
    from i P ds m cap have "s ! ?k i = Some (xs ! i)" "?k i < length s" "i < length d" by auto
    with cap have body: "?body i ds = Inr (d[i := Some (xs ! i)], s[?k i := None])"
      by (simp add: ds)
    have "?P (Suc i) (d[i := Some (xs ! i)], s[?k i := None])"
      using i P ds m cap by (auto simp: nth_list_update ring_index_eq_iff)
    with body show "\<exists>t'. ?body i ds = Inr t' \<and> ?P (Suc i) t'" by blast
  qed (use ring in \<open>simp_all add: ring_live_def\<close>)
  then obtain ds where c: "q_transfer q cs (kcalloc m) (length xs) = Inr ds" "?P (length xs) ds"
    unfolding q_transfer_def by blast
  obtain d s where ds: "ds = (d, s)" by fastforce
  with c m have "d = live xs m" by (intro live_eqI) auto
  with c ds show ?thesis by simp
qed

lemma ring_live_live: "length xs \<le> n \<Longrightarrow> ring_live (live xs n) n 0 xs"
  by (auto simp: ring_live_def)

text \<open>Growing keeps the elements in order and makes the ring start at cell 0.\<close>

lemma q_realloc_rep:
  assumes rep: "q_rep q xs" and n: "length xs \<le> n"
  shows "\<exists>w. q_realloc q n = Inr w \<and> q_rep w xs \<and> q_capacity w = n"
proof (cases "n = q_capacity q")
  case True
  with rep show ?thesis by (simp add: q_realloc_def)
next
  case ne: False
  show ?thesis
  proof (cases "q_storage q")
    case None
    with rep have "xs = []" by (auto simp: q_rep_def ring_live_def)
    with None rep ne show ?thesis
      by (auto simp: q_realloc_def q_rep_def blk_def ring_live_empty)
  next
    case (Some cs)
    with rep have ring: "ring_live cs (q_capacity q) (q_front q) xs" and sz: "q_size q = length xs"
      by (auto simp: q_rep_def blk_def)
    from q_transfer_ring[OF ring n] obtain s where
      "q_transfer q cs (kcalloc n) (length xs) = Inr (live xs n, s)" by blast
    with ne Some sz n show ?thesis
      by (cases xs) (auto simp: q_realloc_def q_rep_def blk_def ring_live_live)
  qed
qed

lemma q_push_back_rep:
  assumes rep: "q_rep q xs"
  shows "\<exists>w. q_push_back q x = Inr w \<and> q_rep w (xs @ [x])"
proof -
  let ?n = "if q_capacity q \<noteq> 0 then q_capacity q * 2 else 1"
  let ?grown = "if q_size q = q_capacity q then q_realloc q ?n else Inr q"
  have le: "length xs \<le> q_capacity q" using rep by (simp add: q_rep_def ring_live_def)
  have "\<exists>w. ?grown = Inr w \<and> q_rep w xs \<and> length xs < q_capacity w"
  proof (cases "q_size q = q_capacity q")
    case True
    with le have "length xs \<le> ?n" "length xs < ?n" by (auto simp: q_rep_def)
    with q_realloc_rep[OF rep, of ?n] True show ?thesis by auto
  next
    case False
    with rep le show ?thesis by (auto simp: q_rep_def)
  qed
  then obtain w where w: "?grown = Inr w" "q_rep w xs" "length xs < q_capacity w" by blast
  from w(2) have sz: "q_size w = length xs"
    and ring: "ring_live (blk (q_storage w)) (q_capacity w) (q_front w) xs"
    and len: "length (blk (q_storage w)) = q_capacity w"
    by (auto simp: q_rep_def ring_live_def)
  show ?thesis
  proof (cases "xs = []")
    case True
    with ring have "ring_live (blk (q_storage w)) (q_capacity w) 0 []"
      by (simp add: ring_live_shift_empty)
    from ring_live_snoc[OF this, of x] w sz len True show ?thesis
      by (auto simp: q_push_back_def q_rep_def blk_def)
  next
    case False
    from w(2) False have b: "(q_back w + 1) mod q_capacity w = (q_front w + length xs) mod q_capacity w"
      by (cases xs) (auto simp: q_rep_def mod_simps)
    have lt: "(q_front w + length xs) mod q_capacity w < q_capacity w" using w(3) by simp
    from ring_live_snoc[OF ring w(3), of x] w sz len False b lt show ?thesis
      by (auto simp: q_push_back_def q_rep_def blk_def)
  qed
qed

lemma q_rep_nonempty:
  assumes "q_rep q xs" "xs \<noteq> []"
  shows "q_front q < q_capacity q" "0 < q_capacity q" "q_size q = length xs"
    "q_back q = (q_front q + (length xs - 1)) mod q_capacity q"
    "ring_live (blk (q_storage q)) (q_capacity q) (q_front q) xs"
    "length (blk (q_storage q)) = q_capacity q" "length xs \<le> q_capacity q"
  using assms by (auto simp: q_rep_def ring_live_def)

lemma q_pop_front_rep:
  assumes rep: "q_rep q (x # xs)"
  shows "\<exists>w. q_pop_front q = Inr (x, w) \<and> q_rep w xs \<and> q_capacity w = q_capacity q"
proof -
  note ne = q_rep_nonempty[OF rep, simplified]
  have hd: "blk (q_storage q) ! q_front q = Some x"
    using ring_live_nth[OF ne(5), of 0] ne(1) by simp
  have ring: "ring_live ((blk (q_storage q))[q_front q := None]) (q_capacity q)
      ((q_front q + 1) mod q_capacity q) xs"
    using ring_live_tl[OF ne(5)] ne(1) by simp
  show ?thesis
  proof (cases xs)
    case Nil
    with ring have "ring_live ((blk (q_storage q))[q_front q := None]) (q_capacity q) 0 []"
      using ring_live_shift_empty by blast
    with Nil ne hd show ?thesis by (simp add: q_pop_front_def q_rep_def blk_def)
  next
    case (Cons y ys)
    with ring ne hd show ?thesis
      by (simp add: q_pop_front_def q_rep_def blk_def mod_simps)
  qed
qed

lemma q_pop_back_rep:
  assumes rep: "q_rep q (xs @ [x])"
  shows "\<exists>w. q_pop_back q = Inr (x, w) \<and> q_rep w xs \<and> q_capacity w = q_capacity q"
proof -
  note ne = q_rep_nonempty[OF rep, simplified]
  have last: "blk (q_storage q) ! q_back q = Some x" and lt: "q_back q < q_capacity q"
    using ring_live_nth[OF ne(5), of "length xs"] ne(2,4) by simp_all
  have ring: "ring_live ((blk (q_storage q))[q_back q := None]) (q_capacity q) (q_front q) xs"
    using ring_live_butlast[OF ne(5)] ne(4) by simp
  show ?thesis
  proof (cases xs rule: rev_cases)
    case Nil
    with ring have "ring_live ((blk (q_storage q))[q_back q := None]) (q_capacity q) 0 []"
      using ring_live_shift_empty by blast
    with Nil ne last lt show ?thesis by (simp add: q_pop_back_def q_rep_def blk_def)
  next
    case (snoc ys y)
    with ne have "(if q_back q = 0 then q_capacity q - 1 else q_back q - 1) =
        (q_front q + length ys) mod q_capacity q"
      by (intro ring_pred) simp_all
    with snoc ring ne last lt show ?thesis
      by (auto simp: q_pop_back_def q_rep_def blk_def split: if_splits)
  qed
qed

interpretation qu: growing_fifo q_pop_front q_pop_back q_peek_front q_peek_back q_size q_empty
  q_contents q_capacity q_wf q_push_back
proof unfold_locales
  fix q :: "'a queue" and x xs
  assume "q_wf q"
  then have rep: "q_rep q (q_contents q)" by (simp add: q_wf_def)
  then have sz: "q_size q = length (q_contents q)" by (simp add: q_rep_def)
  then show "q_size q = length (q_contents q)" .
  from sz show "q_empty q \<longleftrightarrow> q_contents q = []" by (simp add: q_empty_def)
  from rep show "length (q_contents q) \<le> q_capacity q" by (simp add: q_rep_def ring_live_def)
  show "\<exists>w. q_push_back q x = Inr w \<and> q_wf w \<and> q_contents w = q_contents q @ [x]"
    using q_push_back_rep[OF rep, of x] q_rep_wf q_rep_contents by blast
  show "\<exists>w. q_pop_front q = Inr (x, w) \<and> q_wf w \<and> q_contents w = xs \<and> q_capacity w = q_capacity q"
    if "q_contents q = x # xs"
    using q_pop_front_rep[of q x xs] rep that q_rep_wf q_rep_contents by metis
  show "\<exists>w. q_pop_back q = Inr (x, w) \<and> q_wf w \<and> q_contents w = xs \<and> q_capacity w = q_capacity q"
    if "q_contents q = xs @ [x]"
    using q_pop_back_rep[of q xs x] rep that q_rep_wf q_rep_contents by metis
  assume ne: "q_contents q \<noteq> []"
  note n = q_rep_nonempty[OF rep ne]
  from n ne show "q_peek_front q = Inr (hd (q_contents q))"
    using ring_live_nth[OF n(5), of 0] by (simp add: q_peek_front_def hd_conv_nth)
  from n ne show "q_peek_back q = Inr (last (q_contents q))"
    using ring_live_nth[OF n(5), of "length (q_contents q) - 1"]
    by (simp add: q_peek_back_def last_conv_nth)
qed

section \<open>Membership\<close>

text \<open>
  The loop of \<open>contains\<close> stops at \<open>(_back + 1) % _size\<close>, where \<open>(_back + 1) % _capacity\<close> is the cell
  after the last element. The stop index is never that of an element after the first, so no element
  is missed; it is the right index only when the two remainders agree.
\<close>

lemma contains_stop_not_inside:
  fixes F S N :: nat
  assumes "F < N" "S \<le> N" "0 < j" "j < S"
  shows "(F + j) mod N \<noteq> ((F + (S - 1)) mod N + 1) mod S"
proof (cases "F + (S - 1) < N")
  case True
  then have "((F + (S - 1)) mod N + 1) mod S = F mod S" using assms by simp
  moreover have "(F + j) mod N = F + j" using True assms by simp
  moreover have "F mod S \<le> F" by simp
  ultimately show ?thesis using assms(3) by linarith
next
  case False
  then have bk: "(F + (S - 1)) mod N = F + (S - 1) - N" using assms by (simp add: mod_if)
  then have "((F + (S - 1)) mod N + 1) mod S = F + S - N"
    using False assms by simp
  moreover have "F + S - N = (F + S) mod N" using False assms by (simp add: mod_if)
  moreover have "(F + j) mod N \<noteq> (F + S) mod N"
  proof (cases "S = N")
    case True
    then have "(F + S) mod N = (F + 0) mod N" by simp
    then show ?thesis using ring_index_eq_iff[of j N 0 F] assms True by simp
  next
    case False
    then show ?thesis using ring_index_eq_iff[of j N S F] assms by simp
  qed
  ultimately show ?thesis by simp
qed

lemma q_contains_loop_scan:
  assumes ring: "ring_live cs n f xs" and f: "f < n" and i: "i < length xs"
    and v: "val \<notin> set (take i xs)"
    and stop: "\<And>j. 0 < j \<Longrightarrow> j < length xs \<Longrightarrow> (f + j) mod n \<noteq> stop"
  shows "q_contains_loop cs n stop val ((f + i) mod n) =
    (if val \<in> set xs then Some (Inr True)
     else if (f + length xs) mod n = stop then Some (Inr False)
     else q_contains_loop cs n stop val ((f + length xs) mod n))"
  using i v
proof (induction "length xs - Suc i" arbitrary: i)
  case 0
  then have last: "Suc i = length xs" by simp
  have "(((f + i) mod n) + 1) mod n = (f + length xs) mod n"
    using ring_index_Suc[of f i n] last by simp
  moreover have "val \<in> set xs \<longleftrightarrow> xs ! i = val"
    using 0 last by (metis in_set_conv_nth in_set_takeD less_SucE nth_mem nth_take take_all_iff
        length_take min.absorb2 less_imp_le)
  ultimately show ?case using ring_live_nth[OF ring, of i] f 0
    by (subst q_contains_loop.simps) auto
next
  case (Suc m)
  then have lt: "Suc i < length xs" by simp
  have next_i: "(((f + i) mod n) + 1) mod n = (f + Suc i) mod n" by (rule ring_index_Suc)
  show ?case
  proof (cases "xs ! i = val")
    case True
    with Suc.prems have "val \<in> set xs" by auto
    with True ring_live_nth[OF ring Suc.prems(1)] show ?thesis
      by (subst q_contains_loop.simps) auto
  next
    case False
    with Suc.prems have "val \<notin> set (take (Suc i) xs)"
      by (simp add: take_Suc_conv_app_nth)
    with Suc.hyps(1)[of "Suc i"] Suc.hyps(2) lt
    have IH: "q_contains_loop cs n stop val ((f + Suc i) mod n) =
      (if val \<in> set xs then Some (Inr True)
       else if (f + length xs) mod n = stop then Some (Inr False)
       else q_contains_loop cs n stop val ((f + length xs) mod n))" by simp
    from False ring_live_nth[OF ring Suc.prems(1)] f next_i stop[of "Suc i"] lt
    have "q_contains_loop cs n stop val ((f + i) mod n) =
      q_contains_loop cs n stop val ((f + Suc i) mod n)"
      by (subst q_contains_loop.simps) auto
    with IH show ?thesis by simp
  qed
qed

text \<open>A member is always found.\<close>

lemma q_contains_found:
  assumes "q_wf q" "val \<in> set (q_contents q)"
  shows "q_contains q val = Some (Inr True)"
proof -
  have ne: "\<not> q_empty q" and xs: "q_contents q \<noteq> []" using assms qu.is_empty_contents[OF assms(1)] by auto
  have rep: "q_rep q (q_contents q)" using assms(1) by (simp add: q_wf_def)
  note n = q_rep_nonempty[OF rep xs]
  show ?thesis
    using q_contains_loop_scan[OF n(5) n(1), of 0 val "(q_back q + 1) mod q_size q"] xs n ne assms(2)
      contains_stop_not_inside[of "q_front q" "q_capacity q" "length (q_contents q)"]
    by (simp add: q_contains_def)
qed

text \<open>
  C30: the exact result of \<open>contains\<close>. It ends on every well-formed queue and finds every member. For a
  value that is not in the queue it answers false only when the queue is empty or when the end mark
  \<open>(_back + 1) % _size\<close> is the cell after the last element; otherwise the scan runs on into a cell
  that holds no object.
\<close>

theorem q_contains_exact:
  assumes "q_wf q"
  shows "q_contains q val = Some (
    if val \<in> set (q_contents q) then Inr True
    else if q_empty q \<or> (q_back q + 1) mod q_size q = (q_back q + 1) mod q_capacity q
    then Inr False else Inl DeadObject)"
proof (cases "q_empty q")
  case True
  with qu.is_empty_contents[OF assms] show ?thesis by (simp add: q_contains_def)
next
  case False
  let ?xs = "q_contents q" and ?n = "q_capacity q" and ?f = "q_front q"
  let ?stop = "(q_back q + 1) mod q_size q" and ?cs = "blk (q_storage q)"
  from assms False have rep: "q_rep q ?xs" and ne: "?xs \<noteq> []"
    using qu.is_empty_contents[OF assms] by (simp_all add: q_wf_def)
  note n = q_rep_nonempty[OF rep ne]
  have fs: "(q_back q + 1) mod ?n = (?f + length ?xs) mod ?n"
    using n ne by (cases ?xs) (simp_all add: mod_simps)
  have scan: "q_contains_loop ?cs ?n ?stop val ?f =
    (if val \<in> set ?xs then Some (Inr True)
     else if (?f + length ?xs) mod ?n = ?stop then Some (Inr False)
     else q_contains_loop ?cs ?n ?stop val ((?f + length ?xs) mod ?n))"
    using q_contains_loop_scan[OF n(5) n(1), of 0 val ?stop] ne n
      contains_stop_not_inside[of ?f ?n "length ?xs"] by simp
  show ?thesis
  proof (cases "(?f + length ?xs) mod ?n = ?stop")
    case True
    with scan False fs show ?thesis by (simp add: q_contains_def)
  next
    case False2: False
    have lt: "length ?xs < ?n"
    proof (rule ccontr)
      assume "\<not> length ?xs < ?n"
      with n have "q_size q = ?n" by simp
      with False2 fs show False by simp
    qed
    with n(5) have "?cs ! ((?f + length ?xs) mod ?n) = None" by (simp add: ring_live_def)
    with n have "q_contains_loop ?cs ?n ?stop val ((?f + length ?xs) mod ?n) = Some (Inl DeadObject)"
      by (subst q_contains_loop.simps) (simp add: cell_read_def)
    with scan False False2 fs show ?thesis by (simp add: q_contains_def)
  qed
qed

theorem q_contains_exact_witness:
  "q_contains \<lparr>q_storage = Some [None, Some (4::int), Some 5, None], q_capacity = 4, q_size = 2, q_front = 1, q_back = 2\<rparr> 9 =
     Some (Inl DeadObject)"
proof -
  let ?q = "\<lparr>q_storage = Some [None, Some (4::int), Some 5, None], q_capacity = 4, q_size = 2, q_front = 1, q_back = 2\<rparr>"
  have "q_wf ?q" by code_simp
  from q_contains_exact[OF this, of 9] show ?thesis
    by (simp add: q_contents_def q_empty_def ring_slice_def blk_def upt_rec)
qed

text \<open>
  C19: a well-formed queue, wherever its ring starts and however full it is, behaves as the list of
  its elements under every sequence of pushes, pops from the front and pops from the back that never
  pops an empty queue: no fault, the same popped elements in the same order, the same elements left
  and again a well-formed queue, through every wrap-around and every reallocation of a wrapped ring.
\<close>

theorem q_refines_list:
  assumes "q_wf q" and "fifo_run ops (q_contents q) = Some (ys, zs)"
  shows "\<exists>q'. grow_run q_push_back q_pop_front q_pop_back ops q = Inr (ys, q') \<and> q_wf q' \<and> q_contents q' = zs"
  by (rule qu.grow_run_refines[OF assms])

text \<open>A ring of two cells that starts at cell 1 and is full: the second push reallocates it wrapped.\<close>

theorem q_refines_list_witness:
  "\<exists>q'. grow_run q_push_back q_pop_front q_pop_back
       [Push (7::int), PopFront, Push 8, Push 9, PopBack, PopFront]
       \<lparr>q_storage = Some [None, Some 5], q_capacity = 2, q_size = 1, q_front = 1, q_back = 1\<rparr> =
       Inr ([5, 9, 7], q') \<and> q_wf q' \<and> q_contents q' = [8]"
proof (rule q_refines_list)
  let ?q = "\<lparr>q_storage = Some [None, Some (5::int)], q_capacity = 2, q_size = 1, q_front = 1, q_back = 1\<rparr>"
  show "q_wf ?q" by code_simp
  show "fifo_run [Push 7, PopFront, Push 8, Push 9, PopBack, PopFront] (q_contents ?q) = Some ([5, 9, 7], [8])"
    by code_simp
qed

end
