(* ===== verification/MapSpec.thy ===== *)
theory MapSpec
  imports Prelude
begin

text \<open>
  The contract between \<open>kstd::map\<close> and its clients: what a lookup returns after each operation,
  and that every operation ends, does not fault and keeps the map well formed.
\<close>

section \<open>Operation sequences\<close>

text \<open>
  A sequence of map calls. \<open>MapPut\<close> is the assignment \<open>m[key] = val\<close> of the source: a look-up that
  inserts a default when the key is missing, then a write through the returned reference.
\<close>

datatype ('k, 'v) map_op = MapInsert 'k 'v | MapErase 'k | MapPut 'k 'v

fun impl_map_step ::
    "('m \<Rightarrow> 'k \<Rightarrow> 'v \<Rightarrow> (bool \<times> 'm) prun) \<Rightarrow> ('m \<Rightarrow> 'k \<Rightarrow> 'm prun) \<Rightarrow> ('m \<Rightarrow> 'k \<Rightarrow> 'v \<Rightarrow> 'm) \<Rightarrow>
     'v \<Rightarrow> ('k, 'v) map_op \<Rightarrow> 'm \<Rightarrow> 'm prun" where
  "impl_map_step ins er put dflt (MapInsert k v) m = bindP (ins m k v) (\<lambda>(_, m'). Some (Inr m'))"
| "impl_map_step ins er put dflt (MapErase k) m = er m k"
| "impl_map_step ins er put dflt (MapPut k v) m =
     bindP (ins m k dflt) (\<lambda>(_, m'). Some (Inr (put m' k v)))"

fun impl_map_run ::
    "('m \<Rightarrow> 'k \<Rightarrow> 'v \<Rightarrow> (bool \<times> 'm) prun) \<Rightarrow> ('m \<Rightarrow> 'k \<Rightarrow> 'm prun) \<Rightarrow> ('m \<Rightarrow> 'k \<Rightarrow> 'v \<Rightarrow> 'm) \<Rightarrow>
     'v \<Rightarrow> ('k, 'v) map_op list \<Rightarrow> 'm \<Rightarrow> 'm prun" where
  "impl_map_run ins er put dflt [] m = Some (Inr m)"
| "impl_map_run ins er put dflt (op # ops) m =
     bindP (impl_map_step ins er put dflt op m) (impl_map_run ins er put dflt ops)"

fun spec_map_step :: "('k, 'v) map_op \<Rightarrow> ('k \<rightharpoonup> 'v) \<Rightarrow> ('k \<rightharpoonup> 'v)" where
  "spec_map_step (MapInsert k v) f = (if f k = None then f(k \<mapsto> v) else f)"
| "spec_map_step (MapErase k) f = f(k := None)"
| "spec_map_step (MapPut k v) f = f(k \<mapsto> v)"

section \<open>The contract\<close>

locale finite_map =
  fixes lookup :: "'m \<Rightarrow> 'k \<Rightarrow> 'v option"
    and insert :: "'m \<Rightarrow> 'k \<Rightarrow> 'v \<Rightarrow> (bool \<times> 'm) prun"
    and erase :: "'m \<Rightarrow> 'k \<Rightarrow> 'm prun"
    and put :: "'m \<Rightarrow> 'k \<Rightarrow> 'v \<Rightarrow> 'm"
    and num :: "'m \<Rightarrow> nat"
    and wf :: "'m \<Rightarrow> bool"
  assumes insert_new: "wf m \<Longrightarrow> lookup m k = None \<Longrightarrow>
      \<exists>m'. insert m k v = Some (Inr (True, m')) \<and> wf m' \<and> lookup m' = (lookup m)(k \<mapsto> v)"
    and insert_present: "wf m \<Longrightarrow> lookup m k \<noteq> None \<Longrightarrow> insert m k v = Some (Inr (False, m))"
    and erase_removes: "wf m \<Longrightarrow>
      \<exists>m'. erase m k = Some (Inr m') \<and> wf m' \<and> lookup m' = (lookup m)(k := None)"
    and put_present: "wf m \<Longrightarrow> lookup m k \<noteq> None \<Longrightarrow>
      wf (put m k v) \<and> lookup (put m k v) = (lookup m)(k \<mapsto> v)"
    and num_card: "wf m \<Longrightarrow> num m = card (dom (lookup m))"
    and finite_dom: "wf m \<Longrightarrow> finite (dom (lookup m))"
begin

text \<open>
  \<open>m[key] = val\<close> of the source is a lookup that inserts when the key is missing, followed by
  a write: the key maps to the value afterwards, in either case.
\<close>

lemma insert_then_put:
  assumes "wf m"
  shows "\<exists>b m'. insert m k d = Some (Inr (b, m')) \<and> wf (put m' k v) \<and>
           lookup (put m' k v) = (lookup m)(k \<mapsto> v)"
proof (cases "lookup m k")
  case None
  from insert_new[OF assms None, of d] obtain m' where
    m': "insert m k d = Some (Inr (True, m'))" "wf m'" "lookup m' = (lookup m)(k \<mapsto> d)" by blast
  with put_present[OF m'(2), of k v] show ?thesis by auto
next
  case (Some y)
  with insert_present[OF assms, of k d] put_present[OF assms, of k v] show ?thesis by auto
qed

lemma insert_num:
  assumes "wf m" "lookup m k = None" "insert m k v = Some (Inr (True, m'))"
  shows "num m' = Suc (num m)"
proof -
  from insert_new[OF assms(1,2), of v] assms(3) have "wf m'" "lookup m' = (lookup m)(k \<mapsto> v)" by auto
  moreover have "card (Set.insert k (dom (lookup m))) = Suc (card (dom (lookup m)))"
    using assms(2) finite_dom[OF assms(1)] by (intro card_insert_disjoint) auto
  ultimately show ?thesis using num_card[OF assms(1)] by (simp add: num_card)
qed

lemma map_step_refines:
  assumes "wf m"
  shows "\<exists>m'. impl_map_step insert erase put dflt op m = Some (Inr m') \<and> wf m' \<and>
           lookup m' = spec_map_step op (lookup m)"
proof (cases op)
  case (MapInsert k v)
  then show ?thesis
    using insert_new[OF assms, of k v] insert_present[OF assms, of k v] assms
    by (cases "lookup m k") auto
next
  case (MapErase k)
  then show ?thesis using erase_removes[OF assms, of k] by simp
next
  case (MapPut k v)
  then show ?thesis using insert_then_put[OF assms, of k dflt v] by auto
qed

lemma map_run_refines:
  "wf m \<Longrightarrow> \<exists>m'. impl_map_run insert erase put dflt ops m = Some (Inr m') \<and> wf m' \<and>
     lookup m' = fold spec_map_step ops (lookup m)"
proof (induction ops arbitrary: m)
  case Nil
  then show ?case by simp
next
  case (Cons op ops)
  from map_step_refines[OF Cons.prems, of dflt op] obtain m1 where
    m1: "impl_map_step insert erase put dflt op m = Some (Inr m1)" "wf m1"
      "lookup m1 = spec_map_step op (lookup m)" by blast
  from Cons.IH[OF m1(2)] m1 show ?case by simp
qed

end

end
