(* ===== verification/AvlMap.thy ===== *)
theory AvlMap
  imports MapSpec
begin

text \<open>
  \<open>kstd::map\<close> (\<open>kernel/kstd/map.hpp\<close>), the AVL tree behind the kernel's maps and the LRU caches. A node
  with its two subtrees is a value of \<open>avl\<close> (\<open>Leaf\<close> is \<open>nullptr\<close>), with the height the node stores. The
  parent pointers of the source are a zipper: a position is the subtree at a node and the list
  of its ancestors, nearest first, each with its other subtree. Following \<open>parent\<close> is taking one
  \<open>crumb\<close> off the list.
\<close>

section \<open>Nodes and positions\<close>

datatype ('k, 'v) avl = Leaf | Node "('k, 'v) avl" 'k 'v int "('k, 'v) avl"

datatype ('k, 'v) crumb =
    LeftOf 'k 'v int "('k, 'v) avl"   \<comment> \<open>the position is the left child; key, value, height, right child of the parent\<close>
  | RightOf "('k, 'v) avl" 'k 'v int

type_synonym ('k, 'v) path = "('k, 'v) crumb list"

fun plug :: "('k, 'v) crumb \<Rightarrow> ('k, 'v) avl \<Rightarrow> ('k, 'v) avl" where
  "plug (LeftOf k v h r) t = Node t k v h r"
| "plug (RightOf l k v h) t = Node l k v h t"

fun zip_up :: "('k, 'v) path \<Rightarrow> ('k, 'v) avl \<Rightarrow> ('k, 'v) avl" where
  "zip_up [] t = t"
| "zip_up (c # cs) t = zip_up cs (plug c t)"

record ('k, 'v) amap =
  m_root :: "('k, 'v) avl"
  m_size :: nat

definition map_new :: "('k, 'v) amap" where
  "map_new = \<lparr>m_root = Leaf, m_size = 0\<rparr>"

section \<open>Balancing\<close>

fun ht :: "('k, 'v) avl \<Rightarrow> int" where
  "ht Leaf = 0"
| "ht (Node l k v h r) = h"

fun balance_factor :: "('k, 'v) avl \<Rightarrow> int" where
  "balance_factor Leaf = 0"
| "balance_factor (Node l k v h r) = ht r - ht l"

fun update_own_height :: "('k, 'v) avl \<Rightarrow> ('k, 'v) avl" where
  "update_own_height Leaf = Leaf"
| "update_own_height (Node l k v h r) = Node l k v (max (ht r) (ht l) + 1) r"

fun rotate_left :: "('k, 'v) avl \<Rightarrow> ('k, 'v) avl run" where
  "rotate_left (Node l k v h (Node rl rk rv rh rr)) =
     Inr (update_own_height (Node (update_own_height (Node l k v h rl)) rk rv rh rr))"
| "rotate_left _ = Inl NullDeref"

fun rotate_right :: "('k, 'v) avl \<Rightarrow> ('k, 'v) avl run" where
  "rotate_right (Node (Node ll lk lv lh lr) k v h r) =
     Inr (update_own_height (Node ll lk lv lh (update_own_height (Node lr k v h r))))"
| "rotate_right _ = Inl NullDeref"

fun balance :: "('k, 'v) avl \<Rightarrow> ('k, 'v) avl run" where
  "balance Leaf = Inl NullDeref"
| "balance (Node l k v h r) =
     (let bfc = balance_factor (Node l k v h r) in
      if bfc > -2 \<and> bfc < 2 then Inr (Node l k v h r)
      else if bfc < -1 then
        bindR (assertR (l \<noteq> Leaf)) (\<lambda>_.
          bindR (if balance_factor l > 0 then rotate_left l else Inr l)
            (\<lambda>l'. rotate_right (Node l' k v h r)))
      else
        bindR (assertR (r \<noteq> Leaf)) (\<lambda>_.
          bindR (if balance_factor r < 0 then rotate_right r else Inr r)
            (\<lambda>r'. rotate_left (Node l k v h r'))))"

text \<open>
  The loop of \<open>update_height_and_balance\<close>, from a node upwards; the result is the whole tree. When
  \<open>balance\<close> rotates, the current node ends up below the new top of its subtree, so its parent,
  the next node the loop visits, is that top. \<open>None\<close> is a loop that does not end.
\<close>

partial_function (option) update_height_and_balance ::
    "('k, 'v) avl \<Rightarrow> ('k, 'v) path \<Rightarrow> ('k, 'v) avl prun" where
  "update_height_and_balance t p =
     (let t1 = update_own_height t in
      if balance_factor t1 > -2 \<and> balance_factor t1 < 2 then
        (case p of [] \<Rightarrow> Some (Inr t1) | c # cs \<Rightarrow> update_height_and_balance (plug c t1) cs)
      else
        (case balance t1 of Inl e \<Rightarrow> Some (Inl e) | Inr t2 \<Rightarrow> update_height_and_balance t2 p))"

section \<open>Lookup\<close>

fun find_node :: "('k::linorder, 'v) avl \<Rightarrow> 'k \<Rightarrow> 'v option" where
  "find_node Leaf key = None"
| "find_node (Node l k v h r) key =
     (if k = key then Some v else if key < k then find_node l key else find_node r key)"

definition map_contains :: "('k::linorder, 'v) amap \<Rightarrow> 'k \<Rightarrow> bool" where
  "map_contains m key \<longleftrightarrow> find_node (m_root m) key \<noteq> None"

definition map_get :: "('k::linorder, 'v) amap \<Rightarrow> 'k \<Rightarrow> 'v option" where
  "map_get m key = find_node (m_root m) key"

text \<open>\<open>*m.get(key) = val\<close>: the write through the returned pointer.\<close>

fun set_node :: "('k::linorder, 'v) avl \<Rightarrow> 'k \<Rightarrow> 'v \<Rightarrow> ('k, 'v) avl" where
  "set_node Leaf key x = Leaf"
| "set_node (Node l k v h r) key x =
     (if k = key then Node l k x h r
      else if key < k then Node (set_node l key x) k v h r
      else Node l k v h (set_node r key x))"

definition map_put :: "('k::linorder, 'v) amap \<Rightarrow> 'k \<Rightarrow> 'v \<Rightarrow> ('k, 'v) amap" where
  "map_put m key x = m\<lparr>m_root := set_node (m_root m) key x\<rparr>"

section \<open>Insertion\<close>

text \<open>
  The insertion loop at a non-null node. \<open>Some (Inr None)\<close> is the source's \<open>nullptr\<close>: the key exists.
  \<open>insert_at\<close> rebalances only below a node of height 1: any other node already had a child as
  deep as the new one.
\<close>

definition insert_at :: "('k, 'v) avl \<Rightarrow> int \<Rightarrow> ('k, 'v) path \<Rightarrow> ('k, 'v) avl prun" where
  "insert_at node h p =
     (if h = 1 then update_height_and_balance node p else Some (Inr (zip_up p node)))"

fun insert_loop :: "('k::linorder, 'v) avl \<Rightarrow> ('k, 'v) path \<Rightarrow> 'k \<Rightarrow> 'v \<Rightarrow>
    (('k, 'v) avl option) prun" where
  "insert_loop Leaf p key x = Some (Inl NullDeref)"
| "insert_loop (Node l k v h r) p key x =
     (if k = key then Some (Inr None)
      else if key < k then
        (if l \<noteq> Leaf then insert_loop l (LeftOf k v h r # p) key x
         else map_option (map_sum id Some) (insert_at (Node (Node Leaf key x 1 Leaf) k v h r) h p))
      else
        (if r \<noteq> Leaf then insert_loop r (RightOf l k v h # p) key x
         else map_option (map_sum id Some) (insert_at (Node l k v h (Node Leaf key x 1 Leaf)) h p)))"

definition map_insert :: "('k::linorder, 'v) amap \<Rightarrow> 'k \<Rightarrow> 'v \<Rightarrow>
    (bool \<times> ('k, 'v) amap) prun" where
  "map_insert m key x =
     (if m_root m = Leaf then
        Some (Inr (True, \<lparr>m_root = Node Leaf key x 1 Leaf, m_size = m_size m + 1\<rparr>))
      else
        bindP (insert_loop (m_root m) [] key x) (\<lambda>res.
          (case res of
             None \<Rightarrow> Some (Inr (False, m))
           | Some t \<Rightarrow> Some (Inr (True, \<lparr>m_root = t, m_size = m_size m + 1\<rparr>)))))"

text \<open>\<open>operator[]\<close>: a missing key is inserted with a default value; the result is the value.\<close>

definition map_index :: "'v \<Rightarrow> ('k::linorder, 'v) amap \<Rightarrow> 'k \<Rightarrow>
    ('v \<times> ('k, 'v) amap) prun" where
  "map_index dflt m key =
     (case find_node (m_root m) key of
        Some v \<Rightarrow> Some (Inr (v, m))
      | None \<Rightarrow>
          bindP (map_insert m key dflt) (\<lambda>(inserted, m').
            if inserted then Some (Inr (dflt, m')) else Some (Inl NullDeref)))"

section \<open>Removal\<close>

text \<open>
  \<open>subtree_successor\<close> of a node walks left in its right subtree; the result is the node it stops at,
  with the ancestors it passed on top of \<open>p\<close>. \<open>subtree_predecessor\<close> is the mirror image.
\<close>

fun leftmost :: "('k, 'v) avl \<Rightarrow> ('k, 'v) path \<Rightarrow> ('k, 'v) avl \<times> ('k, 'v) path" where
  "leftmost Leaf p = (Leaf, p)"
| "leftmost (Node l k v h r) p =
     (if l \<noteq> Leaf then leftmost l (LeftOf k v h r # p) else (Node l k v h r, p))"

fun rightmost :: "('k, 'v) avl \<Rightarrow> ('k, 'v) path \<Rightarrow> ('k, 'v) avl \<times> ('k, 'v) path" where
  "rightmost Leaf p = (Leaf, p)"
| "rightmost (Node l k v h r) p =
     (if r \<noteq> Leaf then rightmost r (RightOf l k v h # p) else (Node l k v h r, p))"

text \<open>
  Replacing the data of a node by its successor's: \<open>cur_node->data = successor->data\<close>, then
  the successor's right child takes its place below the successor's parent, and the heights are
  repaired from there. When the successor is the right child itself, its parent is the node.
\<close>

definition replace_by_successor :: "('k, 'v) avl \<Rightarrow> int \<Rightarrow> ('k, 'v) avl \<Rightarrow> ('k, 'v) path \<Rightarrow>
    ('k, 'v) avl prun" where
  "replace_by_successor l h r p =
     (case leftmost r [] of
        (Node _ sk sv _ sr, between) \<Rightarrow>
          (case between @ RightOf l sk sv h # p of
             c # cs \<Rightarrow> update_height_and_balance (plug c sr) cs
           | [] \<Rightarrow> Some (Inl NullDeref))
      | (Leaf, _) \<Rightarrow> Some (Inl NullDeref))"

definition replace_by_predecessor :: "('k, 'v) avl \<Rightarrow> int \<Rightarrow> ('k, 'v) avl \<Rightarrow> ('k, 'v) path \<Rightarrow>
    ('k, 'v) avl prun" where
  "replace_by_predecessor l h r p =
     (case rightmost l [] of
        (Node pl pk pv _ _, between) \<Rightarrow>
          (case between @ LeftOf pk pv h r # p of
             c # cs \<Rightarrow> update_height_and_balance (plug c pl) cs
           | [] \<Rightarrow> Some (Inl NullDeref))
      | (Leaf, _) \<Rightarrow> Some (Inl NullDeref))"

text \<open>Removing the node at the current position; \<open>p\<close> is the path to it.\<close>

fun is_right_or_root :: "('k, 'v) path \<Rightarrow> bool" where
  "is_right_or_root [] = True"
| "is_right_or_root (RightOf _ _ _ _ # _) = True"
| "is_right_or_root (LeftOf _ _ _ _ # _) = False"

definition erase_here :: "('k, 'v) avl \<Rightarrow> int \<Rightarrow> ('k, 'v) avl \<Rightarrow> ('k, 'v) path \<Rightarrow>
    ('k, 'v) avl prun" where
  "erase_here l h r p =
     (if l = Leaf \<and> r = Leaf then
        (case p of [] \<Rightarrow> Some (Inr Leaf) | c # cs \<Rightarrow> update_height_and_balance (plug c Leaf) cs)
      else if is_right_or_root p then
        (if r \<noteq> Leaf then replace_by_successor l h r p
         else (case l of
                 Node ll lk lv _ lr \<Rightarrow> update_height_and_balance (Node ll lk lv h lr) p
               | Leaf \<Rightarrow> Some (Inl NullDeref)))
      else
        (if l \<noteq> Leaf then replace_by_predecessor l h r p
         else (case r of
                 Node rl rk rv _ rr \<Rightarrow> update_height_and_balance (Node rl rk rv h rr) p
               | Leaf \<Rightarrow> Some (Inl NullDeref))))"

text \<open>The search loop of \<open>erase\<close>; \<open>Inr None\<close> is a key that is not in the map.\<close>

fun erase_loop :: "('k::linorder, 'v) avl \<Rightarrow> ('k, 'v) path \<Rightarrow> 'k \<Rightarrow>
    (('k, 'v) avl option) prun" where
  "erase_loop Leaf p key = Some (Inr None)"
| "erase_loop (Node l k v h r) p key =
     (if k = key then map_option (map_sum id Some) (erase_here l h r p)
      else if key < k then erase_loop l (LeftOf k v h r # p) key
      else erase_loop r (RightOf l k v h # p) key)"

definition map_erase :: "('k::linorder, 'v) amap \<Rightarrow> 'k \<Rightarrow> ('k, 'v) amap prun" where
  "map_erase m key =
     bindP (erase_loop (m_root m) [] key) (\<lambda>res.
       (case res of
          None \<Rightarrow> Some (Inr m)
        | Some t \<Rightarrow> Some (Inr \<lparr>m_root = t, m_size = m_size m - 1\<rparr>)))"

section \<open>Iteration\<close>

text \<open>An iterator is a position in the tree, or \<open>None\<close> for \<open>end()\<close>.\<close>

type_synonym ('k, 'v) iter = "(('k, 'v) avl \<times> ('k, 'v) path) option"

definition iter_begin :: "('k, 'v) avl \<Rightarrow> ('k, 'v) iter" where
  "iter_begin root = (if root = Leaf then None else Some (leftmost root []))"

text \<open>Climbing while the position is a right child, then to the parent.\<close>

fun climb_right :: "('k, 'v) avl \<Rightarrow> ('k, 'v) path \<Rightarrow> ('k, 'v) iter" where
  "climb_right t [] = None"
| "climb_right t (RightOf l k v h # cs) = climb_right (Node l k v h t) cs"
| "climb_right t (LeftOf k v h r # cs) = Some (Node t k v h r, cs)"

fun climb_left :: "('k, 'v) avl \<Rightarrow> ('k, 'v) path \<Rightarrow> ('k, 'v) iter" where
  "climb_left t [] = None"
| "climb_left t (LeftOf k v h r # cs) = climb_left (Node t k v h r) cs"
| "climb_left t (RightOf l k v h # cs) = Some (Node l k v h t, cs)"

fun inorder_successor :: "('k, 'v) avl \<times> ('k, 'v) path \<Rightarrow> ('k, 'v) iter" where
  "inorder_successor (Leaf, p) = None"
| "inorder_successor (Node l k v h r, p) =
     (if r \<noteq> Leaf then Some (leftmost r (RightOf l k v h # p))
      else climb_right (Node l k v h r) p)"

fun inorder_predecessor :: "('k, 'v) avl \<times> ('k, 'v) path \<Rightarrow> ('k, 'v) iter" where
  "inorder_predecessor (Leaf, p) = None"
| "inorder_predecessor (Node l k v h r, p) =
     (if l \<noteq> Leaf then Some (rightmost l (LeftOf k v h r # p))
      else climb_left (Node l k v h r) p)"

definition iter_next :: "('k, 'v) iter \<Rightarrow> ('k, 'v) iter" where
  "iter_next it = (case it of None \<Rightarrow> None | Some pos \<Rightarrow> inorder_successor pos)"

definition iter_prev :: "('k, 'v) avl \<Rightarrow> ('k, 'v) iter \<Rightarrow> ('k, 'v) iter" where
  "iter_prev root it =
     (case it of
        None \<Rightarrow> if root = Leaf then None else Some (rightmost root [])
      | Some pos \<Rightarrow> inorder_predecessor pos)"

fun iter_deref :: "('k, 'v) iter \<Rightarrow> ('k \<times> 'v) option" where
  "iter_deref (Some (Node l k v h r, p)) = Some (k, v)"
| "iter_deref _ = None"

text \<open>\<open>for(auto& elem : map)\<close>, at most \<open>n\<close> elements.\<close>

fun iter_collect :: "nat \<Rightarrow> ('k, 'v) iter \<Rightarrow> ('k \<times> 'v) list" where
  "iter_collect 0 it = []"
| "iter_collect (Suc n) it =
     (case iter_deref it of None \<Rightarrow> [] | Some kv \<Rightarrow> kv # iter_collect n (iter_next it))"

text \<open>The ordering operators of \<open>MapIterator\<close>, which take \<open>other\<close> and never use it.\<close>

fun iter_less :: "('k::linorder, 'v) iter \<Rightarrow> ('k, 'v) iter \<Rightarrow> bool run" where
  "iter_less (Some (Node l k v h r, p)) other = Inr (k < k)"
| "iter_less _ other = Inl NullDeref"

fun iter_less_eq :: "('k::linorder, 'v) iter \<Rightarrow> ('k, 'v) iter \<Rightarrow> bool run" where
  "iter_less_eq (Some (Node l k v h r, p)) other = Inr (k \<le> k)"
| "iter_less_eq _ other = Inl NullDeref"

section \<open>Invariants\<close>

fun avl_ok :: "('k, 'v) avl \<Rightarrow> bool" where
  "avl_ok Leaf = True"
| "avl_ok (Node l k v h r) \<longleftrightarrow> avl_ok l \<and> avl_ok r \<and> h = max (ht r) (ht l) + 1 \<and>
     -1 \<le> ht r - ht l \<and> ht r - ht l \<le> 1"

fun inorder :: "('k, 'v) avl \<Rightarrow> ('k \<times> 'v) list" where
  "inorder Leaf = []"
| "inorder (Node l k v h r) = inorder l @ (k, v) # inorder r"

fun before :: "('k, 'v) path \<Rightarrow> ('k \<times> 'v) list" where
  "before [] = []"
| "before (LeftOf k v h r # cs) = before cs"
| "before (RightOf l k v h # cs) = before cs @ inorder l @ [(k, v)]"

fun after :: "('k, 'v) path \<Rightarrow> ('k \<times> 'v) list" where
  "after [] = []"
| "after (LeftOf k v h r # cs) = (k, v) # inorder r @ after cs"
| "after (RightOf l k v h # cs) = after cs"

text \<open>Plugging any balanced tree of height \<open>H\<close> into the path gives a balanced tree.\<close>

fun avl_path :: "('k, 'v) path \<Rightarrow> int \<Rightarrow> bool" where
  "avl_path [] H = True"
| "avl_path (LeftOf k v h r # cs) H \<longleftrightarrow> avl_ok r \<and> h = max (ht r) H + 1 \<and>
     -1 \<le> ht r - H \<and> ht r - H \<le> 1 \<and> avl_path cs h"
| "avl_path (RightOf l k v h # cs) H \<longleftrightarrow> avl_ok l \<and> h = max H (ht l) + 1 \<and>
     -1 \<le> H - ht l \<and> H - ht l \<le> 1 \<and> avl_path cs h"

lemma ht_nonneg: "avl_ok t \<Longrightarrow> 0 \<le> ht t"
  by (induction t) auto

lemma ht_pos: "avl_ok t \<Longrightarrow> t \<noteq> Leaf \<Longrightarrow> 1 \<le> ht t"
  using ht_nonneg by (cases t) (auto simp: max_def)

lemma ht_0_iff: "avl_ok t \<Longrightarrow> ht t = 0 \<longleftrightarrow> t = Leaf"
  using ht_pos by (cases "t = Leaf") force+

lemma inorder_zip_up: "inorder (zip_up p t) = before p @ inorder t @ after p"
proof (induction p arbitrary: t)
  case (Cons c cs)
  then show ?case by (cases c) simp_all
qed simp

lemma avl_zip_up: "avl_path p (ht t) \<Longrightarrow> avl_ok t \<Longrightarrow> avl_ok (zip_up p t)"
proof (induction p arbitrary: t)
  case (Cons c cs)
  then show ?case by (cases c) simp_all
qed simp

section \<open>One level of rebalancing\<close>

lemma balance_left_heavy:
  assumes "avl_ok l" "avl_ok r" "ht r - ht l = -2"
  shows "\<exists>t. balance (Node l k v h r) = Inr t \<and> avl_ok t \<and> t \<noteq> Leaf \<and>
           inorder t = inorder l @ (k, v) # inorder r \<and> ht l \<le> ht t \<and> ht t \<le> ht l + 1"
proof -
  from assms have "l \<noteq> Leaf" using ht_nonneg[of r] by auto
  then obtain ll lk lv lh lr where l: "l = Node ll lk lv lh lr" by (cases l) auto
  show ?thesis
  proof (cases "balance_factor l > 0")
    case False
    with assms l show ?thesis by (auto simp: max_def)
  next
    case True
    with assms(1) l have "lr \<noteq> Leaf" using ht_nonneg[of ll] by auto
    then obtain a ak av ah b where "lr = Node a ak av ah b" by (cases lr) auto
    with True assms l show ?thesis by (auto simp: max_def split: if_splits)
  qed
qed

lemma balance_right_heavy:
  assumes "avl_ok l" "avl_ok r" "ht r - ht l = 2"
  shows "\<exists>t. balance (Node l k v h r) = Inr t \<and> avl_ok t \<and> t \<noteq> Leaf \<and>
           inorder t = inorder l @ (k, v) # inorder r \<and> ht r \<le> ht t \<and> ht t \<le> ht r + 1"
proof -
  from assms have "r \<noteq> Leaf" using ht_nonneg[of l] by auto
  then obtain rl rk rv rh rr where r: "r = Node rl rk rv rh rr" by (cases r) auto
  show ?thesis
  proof (cases "balance_factor r < 0")
    case False
    with assms r show ?thesis by (auto simp: max_def)
  next
    case True
    with assms(2) r have "rl \<noteq> Leaf" using ht_nonneg[of rr] by auto
    then obtain a ak av ah b where "rl = Node a ak av ah b" by (cases rl) auto
    with True assms r show ?thesis by (auto simp: max_def split: if_splits)
  qed
qed

lemma update_own_height_avl: "avl_ok t \<Longrightarrow> update_own_height t = t"
  by (cases t) auto

lemma balance_factor_avl: "avl_ok t \<Longrightarrow> -2 < balance_factor t \<and> balance_factor t < 2"
  by (cases t) auto

text \<open>On a balanced subtree the loop moves straight to the parent.\<close>

lemma uhb_avl_up:
  "avl_ok t \<Longrightarrow> update_height_and_balance t p =
     (case p of [] \<Rightarrow> Some (Inr t) | c # cs \<Rightarrow> update_height_and_balance (plug c t) cs)"
  by (subst update_height_and_balance.simps)
    (simp add: update_own_height_avl balance_factor_avl Let_def)

lemma uhb_level:
  assumes "avl_ok l" "avl_ok r" "-2 \<le> ht r - ht l" "ht r - ht l \<le> 2"
  shows "\<exists>t. avl_ok t \<and> t \<noteq> Leaf \<and> inorder t = inorder l @ (k, v) # inorder r \<and>
           max (ht r) (ht l) \<le> ht t \<and> ht t \<le> max (ht r) (ht l) + 1 \<and>
           (-1 \<le> ht r - ht l \<and> ht r - ht l \<le> 1 \<longrightarrow> ht t = max (ht r) (ht l) + 1) \<and>
           update_height_and_balance (Node l k v h r) p = update_height_and_balance t p"
proof -
  let ?t1 = "Node l k v (max (ht r) (ht l) + 1) r"
  consider "-1 \<le> ht r - ht l \<and> ht r - ht l \<le> 1" | "ht r - ht l = -2" | "ht r - ht l = 2"
    using assms by linarith
  then show ?thesis
  proof cases
    case 1
    with assms have "avl_ok ?t1" by simp
    moreover have "update_height_and_balance (Node l k v h r) p = update_height_and_balance ?t1 p"
      by (subst (1 2) update_height_and_balance.simps) simp
    ultimately show ?thesis using 1 by (intro exI[of _ ?t1]) simp
  next
    case 2
    from balance_left_heavy[OF assms(1,2) 2, of k v "max (ht r) (ht l) + 1"] obtain t where
      t: "balance ?t1 = Inr t" "avl_ok t" "t \<noteq> Leaf" "inorder t = inorder l @ (k, v) # inorder r"
        "ht l \<le> ht t" "ht t \<le> ht l + 1" by blast
    have "update_height_and_balance (Node l k v h r) p = update_height_and_balance t p"
      using 2 t(1) by (subst update_height_and_balance.simps) (simp add: Let_def)
    with t 2 show ?thesis by (intro exI[of _ t]) simp
  next
    case 3
    from balance_right_heavy[OF assms(1,2) 3, of k v "max (ht r) (ht l) + 1"] obtain t where
      t: "balance ?t1 = Inr t" "avl_ok t" "t \<noteq> Leaf" "inorder t = inorder l @ (k, v) # inorder r"
        "ht r \<le> ht t" "ht t \<le> ht r + 1" by blast
    have "update_height_and_balance (Node l k v h r) p = update_height_and_balance t p"
      using 3 t(1) by (subst update_height_and_balance.simps) (simp add: Let_def)
    with t 3 show ?thesis by (intro exI[of _ t]) simp
  qed
qed

text \<open>
  The whole loop: it ends, and the tree it leaves is balanced and holds the same sequence. The
  position may have changed its height by one.
\<close>

lemma uhb_up:
  assumes "avl_ok t" "avl_path p H" "H - 1 \<le> ht t" "ht t \<le> H + 1"
  shows "\<exists>t'. update_height_and_balance t p = Some (Inr t') \<and> avl_ok t' \<and>
           inorder t' = before p @ inorder t @ after p"
  using assms
proof (induction p arbitrary: t H)
  case Nil
  then show ?case by (simp add: uhb_avl_up)
next
  case (Cons c cs)
  show ?case
  proof (cases c)
    case (LeftOf k v h r)
    with Cons.prems have r: "avl_ok r" "h = max (ht r) H + 1" "-1 \<le> ht r - H" "ht r - H \<le> 1"
      "avl_path cs h" by auto
    from Cons.prems r have diff: "-2 \<le> ht r - ht t" "ht r - ht t \<le> 2" by linarith+
    from uhb_level[OF Cons.prems(1) r(1) diff, of k v h cs] obtain t1 where
      t1: "avl_ok t1" "inorder t1 = inorder t @ (k, v) # inorder r"
        "max (ht r) (ht t) \<le> ht t1" "ht t1 \<le> max (ht r) (ht t) + 1"
        "-1 \<le> ht r - ht t \<and> ht r - ht t \<le> 1 \<longrightarrow> ht t1 = max (ht r) (ht t) + 1"
        "update_height_and_balance (Node t k v h r) cs = update_height_and_balance t1 cs" by blast
    from t1 r Cons.prems have "h - 1 \<le> ht t1" "ht t1 \<le> h + 1"
      by (auto simp: max_def split: if_splits)
    from Cons.IH[OF t1(1) r(5) this] t1 LeftOf Cons.prems(1) show ?thesis
      by (auto simp: uhb_avl_up)
  next
    case (RightOf l k v h)
    with Cons.prems have l: "avl_ok l" "h = max H (ht l) + 1" "-1 \<le> H - ht l" "H - ht l \<le> 1"
      "avl_path cs h" by auto
    from Cons.prems l have diff: "-2 \<le> ht t - ht l" "ht t - ht l \<le> 2" by linarith+
    from uhb_level[OF l(1) Cons.prems(1) diff, of k v h cs] obtain t1 where
      t1: "avl_ok t1" "inorder t1 = inorder l @ (k, v) # inorder t"
        "max (ht t) (ht l) \<le> ht t1" "ht t1 \<le> max (ht t) (ht l) + 1"
        "-1 \<le> ht t - ht l \<and> ht t - ht l \<le> 1 \<longrightarrow> ht t1 = max (ht t) (ht l) + 1"
        "update_height_and_balance (Node l k v h t) cs = update_height_and_balance t1 cs" by blast
    from t1 l Cons.prems have "h - 1 \<le> ht t1" "ht t1 \<le> h + 1"
      by (auto simp: max_def split: if_splits)
    from Cons.IH[OF t1(1) l(5) this] t1 RightOf Cons.prems(1) show ?thesis
      by (auto simp: uhb_avl_up)
  qed
qed

lemma uhb_node:
  assumes "avl_ok l" "avl_ok r" "-2 \<le> ht r - ht l" "ht r - ht l \<le> 2" "avl_path p H"
    and "max (ht r) (ht l) \<le> H"
    and "if -1 \<le> ht r - ht l \<and> ht r - ht l \<le> 1 then H - 2 \<le> max (ht r) (ht l)
         else H - 1 \<le> max (ht r) (ht l)"
  shows "\<exists>t. update_height_and_balance (Node l k v h r) p = Some (Inr t) \<and> avl_ok t \<and>
           inorder t = before p @ inorder l @ (k, v) # inorder r @ after p"
proof -
  from uhb_level[OF assms(1-4), of k v h p] obtain t1 where
    t1: "avl_ok t1" "inorder t1 = inorder l @ (k, v) # inorder r"
      "max (ht r) (ht l) \<le> ht t1" "ht t1 \<le> max (ht r) (ht l) + 1"
      "-1 \<le> ht r - ht l \<and> ht r - ht l \<le> 1 \<longrightarrow> ht t1 = max (ht r) (ht l) + 1"
      "update_height_and_balance (Node l k v h r) p = update_height_and_balance t1 p" by blast
  with assms(6,7) have "H - 1 \<le> ht t1" "ht t1 \<le> H + 1" by (auto split: if_splits)
  from uhb_up[OF t1(1) assms(5) this] t1 show ?thesis by auto
qed

section \<open>Insertion is correct\<close>

abbreviation keys :: "('k \<times> 'v) list \<Rightarrow> 'k set" where
  "keys xs \<equiv> fst ` set xs"

definition strict_keys :: "('k::linorder \<times> 'v) list \<Rightarrow> bool" where
  "strict_keys xs \<longleftrightarrow> sorted_wrt (<) (map fst xs)"

lemma strict_keys_simps [simp]:
  "strict_keys []"
  "strict_keys (x # xs) \<longleftrightarrow> (\<forall>y\<in>set xs. fst x < fst y) \<and> strict_keys xs"
  "strict_keys (xs @ ys) \<longleftrightarrow>
     strict_keys xs \<and> strict_keys ys \<and> (\<forall>x\<in>set xs. \<forall>y\<in>set ys. fst x < fst y)"
  by (auto simp: strict_keys_def sorted_wrt_append)

text \<open>\<open>key\<close> belongs between the elements before and after a position.\<close>

definition fits :: "('k::linorder) \<Rightarrow> ('k, 'v) path \<Rightarrow> bool" where
  "fits key p \<longleftrightarrow> (\<forall>a\<in>set (before p). fst a < key) \<and> (\<forall>b\<in>set (after p). key < fst b)"

definition inserted :: "('k::linorder) \<Rightarrow> 'v \<Rightarrow> ('k \<times> 'v) list \<Rightarrow> ('k \<times> 'v) list \<Rightarrow> bool" where
  "inserted key x old new \<longleftrightarrow> (\<exists>A B. old = A @ B \<and> new = A @ (key, x) # B \<and>
     (\<forall>a\<in>set A. fst a < key) \<and> (\<forall>b\<in>set B. key < fst b))"

lemma insert_at_left:
  assumes "avl_ok (Node Leaf k v h r)" "avl_path p h"
  shows "\<exists>t. insert_at (Node (Node Leaf key x 1 Leaf) k v h r) h p = Some (Inr t) \<and> avl_ok t \<and>
           inorder t = before p @ (key, x) # (k, v) # inorder r @ after p"
proof (cases "h = 1")
  case True
  with assms(1) have "r = Leaf" using ht_0_iff[of r] ht_nonneg[of r] by (auto simp: max_def)
  with uhb_node[of "Node Leaf key x 1 Leaf" r p h k v h] assms True show ?thesis
    by (simp add: insert_at_def)
next
  case False
  with assms(1) have h: "ht r = 1" "h = 2"
    using ht_nonneg[of r] by (auto simp: max_def split: if_splits)
  with avl_zip_up[of p "Node (Node Leaf key x 1 Leaf) k v h r"] assms False show ?thesis
    by (simp add: insert_at_def inorder_zip_up)
qed

lemma insert_at_right:
  assumes "avl_ok (Node l k v h Leaf)" "avl_path p h"
  shows "\<exists>t. insert_at (Node l k v h (Node Leaf key x 1 Leaf)) h p = Some (Inr t) \<and> avl_ok t \<and>
           inorder t = before p @ inorder l @ (k, v) # (key, x) # after p"
proof (cases "h = 1")
  case True
  with assms(1) have "l = Leaf" using ht_0_iff[of l] ht_nonneg[of l] by (auto simp: max_def)
  with uhb_node[of l "Node Leaf key x 1 Leaf" p h k v h] assms True show ?thesis
    by (simp add: insert_at_def)
next
  case False
  with assms(1) have h: "ht l = 1" "h = 2"
    using ht_nonneg[of l] by (auto simp: max_def split: if_splits)
  with avl_zip_up[of p "Node l k v h (Node Leaf key x 1 Leaf)"] assms False show ?thesis
    by (simp add: insert_at_def inorder_zip_up)
qed

lemma avl_path_LeftOf: "avl_ok (Node l k v h r) \<Longrightarrow> avl_path p h \<Longrightarrow> avl_path (LeftOf k' v' h r # p) (ht l)"
  by simp

lemma avl_path_RightOf: "avl_ok (Node l k v h r) \<Longrightarrow> avl_path p h \<Longrightarrow> avl_path (RightOf l k' v' h # p) (ht r)"
  by simp

lemma insert_loop_spec:
  assumes "avl_ok t" "t \<noteq> Leaf" "avl_path p (ht t)" "fits key p" "strict_keys (inorder t)"
  shows "if key \<in> keys (inorder t) then insert_loop t p key x = Some (Inr None)
    else \<exists>t'. insert_loop t p key x = Some (Inr (Some t')) \<and> avl_ok t' \<and>
           inserted key x (before p @ inorder t @ after p) (inorder t')"
  using assms
proof (induction t arbitrary: p)
  case Leaf
  then show ?case by simp
next
  case (Node l k v h r)
  note avl = Node.prems(1) and path = Node.prems(3)[simplified]
  consider "k = key" | "key < k" | "k < key" by (metis less_linear)
  then show ?case
  proof cases
    case 1
    then show ?thesis by simp
  next
    case 2
    with Node.prems have nin: "key \<notin> keys ((k, v) # inorder r)" by auto
    show ?thesis
    proof (cases "l = Leaf")
      case True
      from insert_at_left[of k v h r p key x] avl path True obtain t where
        t: "insert_at (Node (Node Leaf key x 1 Leaf) k v h r) h p = Some (Inr t)" "avl_ok t"
          "inorder t = before p @ (key, x) # (k, v) # inorder r @ after p" by auto
      have "inserted key x (before p @ (k, v) # inorder r @ after p) (inorder t)"
        unfolding inserted_def
        by (rule exI[of _ "before p"], rule exI[of _ "(k, v) # inorder r @ after p"])
          (use Node.prems 2 t in \<open>auto simp: fits_def\<close>)
      with True 2 t nin show ?thesis by (auto simp: image_iff)
    next
      case False
      have "fits key (LeftOf k v h r # p)"
        using Node.prems 2 by (auto simp: fits_def)
      from Node.IH(1)[OF _ False avl_path_LeftOf[OF avl path] this] Node.prems 2 False nin
      show ?thesis by (auto split: if_splits)
    qed
  next
    case 3
    with Node.prems have nin: "key \<notin> keys (inorder l @ [(k, v)])" by auto
    show ?thesis
    proof (cases "r = Leaf")
      case True
      from insert_at_right[of l k v h p key x] avl path True obtain t where
        t: "insert_at (Node l k v h (Node Leaf key x 1 Leaf)) h p = Some (Inr t)" "avl_ok t"
          "inorder t = before p @ inorder l @ (k, v) # (key, x) # after p" by auto
      have "inserted key x (before p @ inorder l @ (k, v) # after p) (inorder t)"
        unfolding inserted_def
        by (rule exI[of _ "before p @ inorder l @ [(k, v)]"], rule exI[of _ "after p"])
          (use Node.prems 3 t in \<open>auto simp: fits_def\<close>)
      with True 3 t nin show ?thesis by (auto simp: image_iff)
    next
      case False
      have "fits key (RightOf l k v h # p)"
        using Node.prems 3 by (auto simp: fits_def)
      from Node.IH(2)[OF _ False avl_path_RightOf[OF avl path] this] Node.prems 3 False nin
      show ?thesis by (auto split: if_splits)
    qed
  qed
qed

section \<open>Removal is correct\<close>

lemma leftmost_append: "leftmost t (p @ q) = (fst (leftmost t p), snd (leftmost t p) @ q)"
proof (induction t arbitrary: p)
  case (Node l k v h r)
  from Node.IH(1)[of "LeftOf k v h r # p"] show ?case by simp
qed simp

lemma rightmost_append: "rightmost t (p @ q) = (fst (rightmost t p), snd (rightmost t p) @ q)"
proof (induction t arbitrary: p)
  case (Node l k v h r)
  from Node.IH(2)[of "RightOf l k v h # p"] show ?case by simp
qed simp

lemma leftmost_spec:
  assumes "t \<noteq> Leaf"
  obtains sk sv sh sr q where "leftmost t p = (Node Leaf sk sv sh sr, q @ p)"
    "before (q @ p) = before p" "inorder t @ after p = (sk, sv) # inorder sr @ after (q @ p)"
    "avl_ok t \<Longrightarrow> avl_path p (ht t) \<Longrightarrow> avl_ok (Node Leaf sk sv sh sr) \<and> avl_path (q @ p) sh"
  using assms
proof (induction t arbitrary: p thesis)
  case (Node l k v h r)
  show ?case
  proof (cases "l = Leaf")
    case True
    then show ?thesis by (intro Node.prems(1)[of k v h r "[]"]) auto
  next
    case False
    show ?thesis
    proof (rule Node.IH(1)[OF _ False, of "LeftOf k v h r # p"])
      fix sk sv sh sr q
      assume a: "leftmost l (LeftOf k v h r # p) = (Node Leaf sk sv sh sr, q @ LeftOf k v h r # p)"
        "before (q @ LeftOf k v h r # p) = before (LeftOf k v h r # p)"
        "inorder l @ after (LeftOf k v h r # p) = (sk, sv) # inorder sr @ after (q @ LeftOf k v h r # p)"
        "avl_ok l \<Longrightarrow> avl_path (LeftOf k v h r # p) (ht l) \<Longrightarrow>
           avl_ok (Node Leaf sk sv sh sr) \<and> avl_path (q @ LeftOf k v h r # p) sh"
      show ?thesis
        by (rule Node.prems(1)[of sk sv sh sr "q @ [LeftOf k v h r]"])
          (use a False in auto)
    qed
  qed
qed simp

lemma rightmost_spec:
  assumes "t \<noteq> Leaf"
  obtains sl sk sv sh q where "rightmost t p = (Node sl sk sv sh Leaf, q @ p)"
    "after (q @ p) = after p" "before p @ inorder t = before (q @ p) @ inorder sl @ [(sk, sv)]"
    "avl_ok t \<Longrightarrow> avl_path p (ht t) \<Longrightarrow> avl_ok (Node sl sk sv sh Leaf) \<and> avl_path (q @ p) sh"
  using assms
proof (induction t arbitrary: p thesis)
  case (Node l k v h r)
  show ?case
  proof (cases "r = Leaf")
    case True
    then show ?thesis by (intro Node.prems(1)[of l k v h "[]"]) auto
  next
    case False
    show ?thesis
    proof (rule Node.IH(2)[OF _ False, of "RightOf l k v h # p"])
      fix sl sk sv sh q
      assume a: "rightmost r (RightOf l k v h # p) = (Node sl sk sv sh Leaf, q @ RightOf l k v h # p)"
        "after (q @ RightOf l k v h # p) = after (RightOf l k v h # p)"
        "before (RightOf l k v h # p) @ inorder r = before (q @ RightOf l k v h # p) @ inorder sl @ [(sk, sv)]"
        "avl_ok r \<Longrightarrow> avl_path (RightOf l k v h # p) (ht r) \<Longrightarrow>
           avl_ok (Node sl sk sv sh Leaf) \<and> avl_path (q @ RightOf l k v h # p) sh"
      show ?thesis
        by (rule Node.prems(1)[of sl sk sv sh "q @ [RightOf l k v h]"])
          (use a False in auto)
    qed
  qed
qed simp

text \<open>Data stored in the crumbs below a replaced node does not matter for balance.\<close>

lemma replace_by_successor_spec:
  assumes avl: "avl_ok (Node l k v h r)" and path: "avl_path p h" and r: "r \<noteq> Leaf"
  shows "\<exists>t. replace_by_successor l h r p = Some (Inr t) \<and> avl_ok t \<and>
           inorder t = before p @ inorder l @ inorder r @ after p"
proof -
  obtain sk sv sh sr q where lm: "leftmost r [] = (Node Leaf sk sv sh sr, q)"
    using leftmost_spec[OF r, of "[]"] by (metis append_Nil2)
  let ?p = "RightOf l sk sv h # p"
  have lmp: "leftmost r ?p = (Node Leaf sk sv sh sr, q @ ?p)"
    using leftmost_append[of r "[]" ?p] lm by simp
  have rp: "avl_path ?p (ht r)" using avl path by simp
  from leftmost_spec[OF r, of ?p] lmp avl rp have
    io: "inorder r @ after p = (sk, sv) # inorder sr @ after (q @ ?p)"
    and bef: "before (q @ ?p) = before ?p"
    and ok: "avl_ok (Node Leaf sk sv sh sr)" "avl_path (q @ ?p) sh" by auto
  from ok(1) have sr: "avl_ok sr" "ht sr = sh - 1" using ht_nonneg[of sr] by (auto simp: max_def)
  obtain c cs where c: "q @ ?p = c # cs" by (cases "q @ ?p") auto
  have "replace_by_successor l h r p = update_height_and_balance sr (q @ ?p)"
    using sr(1) c by (simp add: replace_by_successor_def lm uhb_avl_up)
  moreover from uhb_up[OF sr(1) ok(2)] sr(2) obtain t where
    "update_height_and_balance sr (q @ ?p) = Some (Inr t)" "avl_ok t"
    "inorder t = before (q @ ?p) @ inorder sr @ after (q @ ?p)" by auto
  ultimately show ?thesis using io bef by auto
qed

lemma replace_by_predecessor_spec:
  assumes avl: "avl_ok (Node l k v h r)" and path: "avl_path p h" and l: "l \<noteq> Leaf"
  shows "\<exists>t. replace_by_predecessor l h r p = Some (Inr t) \<and> avl_ok t \<and>
           inorder t = before p @ inorder l @ inorder r @ after p"
proof -
  obtain sl sk sv sh q where lm: "rightmost l [] = (Node sl sk sv sh Leaf, q)"
    using rightmost_spec[OF l, of "[]"] by (metis append_Nil2)
  let ?p = "LeftOf sk sv h r # p"
  have lmp: "rightmost l ?p = (Node sl sk sv sh Leaf, q @ ?p)"
    using rightmost_append[of l "[]" ?p] lm by simp
  have rp: "avl_path ?p (ht l)" using avl path by simp
  from rightmost_spec[OF l, of ?p] lmp avl rp have
    io: "before p @ inorder l = before (q @ ?p) @ inorder sl @ [(sk, sv)]"
    and aft: "after (q @ ?p) = after ?p"
    and ok: "avl_ok (Node sl sk sv sh Leaf)" "avl_path (q @ ?p) sh" by auto
  from ok(1) have sl: "avl_ok sl" "ht sl = sh - 1" using ht_nonneg[of sl] by (auto simp: max_def)
  obtain c cs where c: "q @ ?p = c # cs" by (cases "q @ ?p") auto
  have "replace_by_predecessor l h r p = update_height_and_balance sl (q @ ?p)"
    using sl(1) c by (simp add: replace_by_predecessor_def lm uhb_avl_up)
  moreover from uhb_up[OF sl(1) ok(2)] sl(2) obtain t where
    "update_height_and_balance sl (q @ ?p) = Some (Inr t)" "avl_ok t"
    "inorder t = before (q @ ?p) @ inorder sl @ after (q @ ?p)" by auto
  ultimately show ?thesis using io aft by (metis append.assoc append_Cons append_Nil after.simps(2))
qed

lemma only_child_is_leaf:
  assumes "avl_ok (Node l k v h Leaf)" "l = Node ll lk lv lh lr"
  shows "ll = Leaf" "lr = Leaf" "h = 2"
  using assms ht_nonneg[of ll] ht_nonneg[of lr] ht_0_iff[of ll] ht_0_iff[of lr]
  by (auto simp: max_def split: if_splits)

lemma only_right_child_is_leaf:
  assumes "avl_ok (Node Leaf k v h r)" "r = Node rl rk rv rh rr"
  shows "rl = Leaf" "rr = Leaf" "h = 2"
  using assms ht_nonneg[of rl] ht_nonneg[of rr] ht_0_iff[of rl] ht_0_iff[of rr]
  by (auto simp: max_def split: if_splits)

lemma erase_here_spec:
  assumes avl: "avl_ok (Node l k v h r)" and path: "avl_path p h"
  shows "\<exists>t. erase_here l h r p = Some (Inr t) \<and> avl_ok t \<and>
           inorder t = before p @ inorder l @ inorder r @ after p"
proof -
  consider (leaf) "l = Leaf" "r = Leaf" | (succ) "is_right_or_root p" "r \<noteq> Leaf"
    | (no_succ) "is_right_or_root p" "r = Leaf" "l \<noteq> Leaf"
    | (pred) "\<not> is_right_or_root p" "l \<noteq> Leaf"
    | (no_pred) "\<not> is_right_or_root p" "l = Leaf" "r \<noteq> Leaf" by blast
  then show ?thesis
  proof cases
    case leaf
    with avl have "h = 1" by simp
    with uhb_up[of Leaf p h] path leaf uhb_avl_up[of Leaf p] show ?thesis
      by (cases p) (simp_all add: erase_here_def)
  next
    case succ
    with replace_by_successor_spec[OF avl path succ(2)] show ?thesis by (simp add: erase_here_def)
  next
    case no_succ
    then obtain ll lk lv lh lr where l: "l = Node ll lk lv lh lr" by (cases l) auto
    have "avl_ok (Node l k v h Leaf)" using avl no_succ(2) by simp
    note c = only_child_is_leaf[OF this l]
    from uhb_node[of Leaf Leaf p h lk lv h] path c(3) obtain t where
      "update_height_and_balance (Node Leaf lk lv h Leaf) p = Some (Inr t)" "avl_ok t"
      "inorder t = before p @ (lk, lv) # after p" by auto
    with no_succ l c show ?thesis by (simp add: erase_here_def)
  next
    case pred
    with replace_by_predecessor_spec[OF avl path pred(2)] show ?thesis by (simp add: erase_here_def)
  next
    case no_pred
    then obtain rl rk rv rh rr where r: "r = Node rl rk rv rh rr" by (cases r) auto
    have "avl_ok (Node Leaf k v h r)" using avl no_pred(2) by simp
    note c = only_right_child_is_leaf[OF this r]
    from uhb_node[of Leaf Leaf p h rk rv h] path c(3) obtain t where
      "update_height_and_balance (Node Leaf rk rv h Leaf) p = Some (Inr t)" "avl_ok t"
      "inorder t = before p @ (rk, rv) # after p" by auto
    with no_pred r c show ?thesis by (simp add: erase_here_def)
  qed
qed

definition removed :: "('k::linorder) \<Rightarrow> ('k \<times> 'v) list \<Rightarrow> ('k \<times> 'v) list \<Rightarrow> bool" where
  "removed key old new \<longleftrightarrow> (\<exists>A v B. old = A @ (key, v) # B \<and> new = A @ B)"

lemma erase_loop_spec:
  assumes "avl_ok t" "avl_path p (ht t)" "strict_keys (inorder t)"
  shows "if key \<in> keys (inorder t)
    then \<exists>t'. erase_loop t p key = Some (Inr (Some t')) \<and> avl_ok t' \<and>
           removed key (before p @ inorder t @ after p) (inorder t')
    else erase_loop t p key = Some (Inr None)"
  using assms
proof (induction t arbitrary: p)
  case Leaf
  then show ?case by simp
next
  case (Node l k v h r)
  note avl = Node.prems(1) and path = Node.prems(2)[simplified]
  have sub: "avl_ok l" "avl_ok r" "strict_keys (inorder l)" "strict_keys (inorder r)"
    using Node.prems by simp_all
  consider "k = key" | "key < k" | "k < key" by (metis less_linear)
  then show ?case
  proof cases
    case 1
    from erase_here_spec[OF avl path] obtain t where
      t: "erase_here l h r p = Some (Inr t)" "avl_ok t"
        "inorder t = before p @ inorder l @ inorder r @ after p" by blast
    then have "removed key (before p @ inorder (Node l k v h r) @ after p) (inorder t)"
      unfolding removed_def using 1
      by (intro exI[of _ "before p @ inorder l"] exI[of _ v] exI[of _ "inorder r @ after p"]) simp
    with 1 t show ?thesis by simp
  next
    case 2
    with Node.prems have "key \<in> keys (inorder (Node l k v h r)) \<longleftrightarrow> key \<in> keys (inorder l)" by auto
    moreover have "erase_loop (Node l k v h r) p key = erase_loop l (LeftOf k v h r # p) key"
      using 2 by auto
    moreover have "before p @ inorder (Node l k v h r) @ after p =
        before (LeftOf k v h r # p) @ inorder l @ after (LeftOf k v h r # p)" by simp
    ultimately show ?thesis
      using Node.IH(1)[OF sub(1) avl_path_LeftOf[OF avl path, of k v] sub(3)] by (simp only:)
  next
    case 3
    with Node.prems have "key \<in> keys (inorder (Node l k v h r)) \<longleftrightarrow> key \<in> keys (inorder r)" by auto
    moreover have "erase_loop (Node l k v h r) p key = erase_loop r (RightOf l k v h # p) key"
      using 3 by auto
    moreover have "before p @ inorder (Node l k v h r) @ after p =
        before (RightOf l k v h # p) @ inorder r @ after (RightOf l k v h # p)" by simp
    ultimately show ?thesis
      using Node.IH(2)[OF sub(2) avl_path_RightOf[OF avl path, of k v] sub(4)] by (simp only:)
  qed
qed

section \<open>The map as a whole\<close>

definition map_wf :: "('k::linorder, 'v) amap \<Rightarrow> bool" where
  "map_wf m \<longleftrightarrow> avl_ok (m_root m) \<and> strict_keys (inorder (m_root m)) \<and>
     m_size m = length (inorder (m_root m))"

lemma map_new_wf: "map_wf map_new"
  by (simp add: map_wf_def map_new_def)

lemma map_of_None_keys: "map_of xs key = None \<longleftrightarrow> key \<notin> keys xs"
  by (simp add: map_of_eq_None_iff)

lemma find_node_map_of: "strict_keys (inorder t) \<Longrightarrow> find_node t key = map_of (inorder t) key"
proof (induction t)
  case (Node l k v h r)
  have l: "map_of (inorder l) key = None" if "k \<le> key"
    using Node.prems that by (fastforce simp: map_of_None_keys)
  have r: "map_of (inorder r) key = None" if "key \<le> k"
    using Node.prems that by (fastforce simp: map_of_None_keys)
  show ?case using Node l r by (auto simp: map_add_def split: option.splits)
qed simp

lemma map_get_map_of: "map_wf m \<Longrightarrow> map_get m key = map_of (inorder (m_root m)) key"
  by (simp add: map_get_def map_wf_def find_node_map_of)

lemma strict_keys_inserted: "inserted key x old new \<Longrightarrow> strict_keys old \<Longrightarrow> strict_keys new"
  by (auto simp: inserted_def)

lemma map_of_inserted: "inserted key x old new \<Longrightarrow> map_of new = (map_of old)(key \<mapsto> x)"
proof -
  assume "inserted key x old new"
  then obtain A B where ab: "old = A @ B" "new = A @ (key, x) # B" "\<forall>a\<in>set A. fst a < key"
    by (auto simp: inserted_def)
  from ab(3) have "map_of A key = None" by (auto simp: map_of_None_keys)
  with ab show ?thesis by (auto simp: fun_eq_iff map_add_def split: option.splits)
qed

lemma strict_keys_removed: "removed key old new \<Longrightarrow> strict_keys old \<Longrightarrow> strict_keys new"
  by (auto simp: removed_def)

lemma map_of_removed:
  "removed key old new \<Longrightarrow> strict_keys old \<Longrightarrow> map_of new = (map_of old)(key := None)"
proof -
  assume "removed key old new" "strict_keys old"
  then obtain A v B where ab: "old = A @ (key, v) # B" "new = A @ B"
    "\<forall>a\<in>set A. fst a < key" "\<forall>b\<in>set B. key < fst b"
    by (auto simp: removed_def)
  from ab have "map_of A key = None" "map_of B key = None" by (auto simp: map_of_None_keys)
  with ab show ?thesis by (auto simp: fun_eq_iff map_add_def split: option.splits)
qed

lemma map_insert_new:
  assumes wf: "map_wf m" and none: "map_get m key = None"
  shows "\<exists>m'. map_insert m key x = Some (Inr (True, m')) \<and> map_wf m' \<and>
           inserted key x (inorder (m_root m)) (inorder (m_root m'))"
proof (cases "m_root m = Leaf")
  case True
  with wf show ?thesis by (simp add: map_insert_def map_wf_def inserted_def)
next
  case False
  from wf none have nin: "key \<notin> keys (inorder (m_root m))"
    by (simp add: map_get_map_of map_of_None_keys)
  have fits: "fits key []" by (simp add: fits_def)
  from insert_loop_spec[OF _ False _ fits, of x] wf nin obtain t where
    t: "insert_loop (m_root m) [] key x = Some (Inr (Some t))" "avl_ok t"
      "inserted key x (inorder (m_root m)) (inorder t)"
    by (auto simp: map_wf_def)
  from t(3) have "length (inorder t) = Suc (length (inorder (m_root m)))"
    by (auto simp: inserted_def)
  with t False wf strict_keys_inserted[OF t(3)] show ?thesis
    by (simp add: map_insert_def map_wf_def)
qed

lemma map_insert_present:
  assumes "map_wf m" "map_get m key \<noteq> None"
  shows "map_insert m key x = Some (Inr (False, m))"
proof -
  from assms have inn: "key \<in> keys (inorder (m_root m))"
    by (metis map_get_map_of map_of_None_keys)
  then have ne: "m_root m \<noteq> Leaf" by auto
  have fits: "fits key []" by (simp add: fits_def)
  from insert_loop_spec[OF _ ne _ fits, of x] inn assms(1)
  have "insert_loop (m_root m) [] key x = Some (Inr None)" by (simp add: map_wf_def)
  with ne show ?thesis by (simp add: map_insert_def)
qed

lemma map_erase_spec:
  assumes wf: "map_wf m"
  shows "\<exists>m'. map_erase m key = Some (Inr m') \<and> map_wf m' \<and>
           map_get m' = (map_get m)(key := None)"
proof (cases "key \<in> keys (inorder (m_root m))")
  case True
  with erase_loop_spec[of "m_root m" "[]" key] wf obtain t where
    t: "erase_loop (m_root m) [] key = Some (Inr (Some t))" "avl_ok t"
      "removed key (inorder (m_root m)) (inorder t)"
    by (auto simp: map_wf_def)
  let ?m' = "\<lparr>m_root = t, m_size = m_size m - 1\<rparr>"
  from t(3) have "length (inorder (m_root m)) = Suc (length (inorder t))" by (auto simp: removed_def)
  with t wf strict_keys_removed[OF t(3)] have wf': "map_wf ?m'" by (simp add: map_wf_def)
  have "map_get ?m' = (map_get m)(key := None)"
    using wf wf' map_of_removed[OF t(3)] by (auto simp: fun_eq_iff map_get_map_of map_wf_def)
  with t wf' show ?thesis by (simp add: map_erase_def)
next
  case False
  with erase_loop_spec[of "m_root m" "[]" key] wf
  have "erase_loop (m_root m) [] key = Some (Inr None)" by (simp add: map_wf_def)
  moreover have "map_get m key = None" using False wf by (simp add: map_get_map_of map_of_None_keys)
  ultimately show ?thesis using wf by (simp add: map_erase_def fun_upd_idem)
qed

lemma ht_set_node [simp]: "ht (set_node t key x) = ht t"
  by (cases t) auto

lemma avl_ok_set_node: "avl_ok t \<Longrightarrow> avl_ok (set_node t key x)"
  by (induction t) auto

lemma map_fst_set_node: "map fst (inorder (set_node t key x)) = map fst (inorder t)"
  by (induction t) auto

lemma find_node_set_node:
  "find_node t key \<noteq> None \<Longrightarrow> find_node (set_node t key x) k = (if k = key then Some x else find_node t k)"
  by (induction t) auto

lemma map_put_wf: "map_wf m \<Longrightarrow> map_wf (map_put m key x)"
  by (metis (mono_tags, lifting) amap.select_convs(1) amap.select_convs(2) amap.surjective
      amap.update_convs(1) avl_ok_set_node length_map map_fst_set_node map_put_def map_wf_def
      strict_keys_def)

lemma dom_map_of_length: "strict_keys xs \<Longrightarrow> card (dom (map_of xs)) = length xs"
  by (metis (full_types) card_image distinct_card dom_map_of_conv_image_fst length_map set_map
      strict_keys_def strict_sorted_iff)

interpretation kmap: finite_map map_get map_insert map_erase map_put m_size map_wf
proof unfold_locales
  fix m :: "('k::linorder, 'v) amap" and key x
  assume wf: "map_wf m"
  show "\<exists>m'. map_insert m key x = Some (Inr (True, m')) \<and> map_wf m' \<and>
      map_get m' = (map_get m)(key \<mapsto> x)" if "map_get m key = None"
  proof -
    from map_insert_new[OF wf that, of x] obtain m' where
      m': "map_insert m key x = Some (Inr (True, m'))" "map_wf m'"
        "inserted key x (inorder (m_root m)) (inorder (m_root m'))" by blast
    with map_of_inserted[OF m'(3)] wf show ?thesis by (auto simp: fun_eq_iff map_get_map_of)
  qed
  show "map_insert m key x = Some (Inr (False, m))" if "map_get m key \<noteq> None"
    by (rule map_insert_present[OF wf that])
  show "\<exists>m'. map_erase m key = Some (Inr m') \<and> map_wf m' \<and> map_get m' = (map_get m)(key := None)"
    by (rule map_erase_spec[OF wf])
  show "map_wf (map_put m key x) \<and> map_get (map_put m key x) = (map_get m)(key \<mapsto> x)"
    if "map_get m key \<noteq> None"
    using map_put_wf[OF wf] find_node_set_node[of "m_root m" key x] that
    by (auto simp: map_get_def map_put_def fun_eq_iff)
  have get: "map_get m = map_of (inorder (m_root m))" using wf by (auto simp: map_get_map_of)
  from wf show "m_size m = card (dom (map_get m))"
    by (simp add: get map_wf_def dom_map_of_length)
  show "finite (dom (map_get m))" by (simp add: get finite_dom_map_of)
qed

section \<open>Iteration visits the elements in key order\<close>

fun remaining :: "('k, 'v) iter \<Rightarrow> ('k \<times> 'v) list" where
  "remaining (Some (Node l k v h r, p)) = (k, v) # inorder r @ after p"
| "remaining _ = []"

lemma remaining_leftmost: "t \<noteq> Leaf \<Longrightarrow> remaining (Some (leftmost t p)) = inorder t @ after p"
proof (induction t arbitrary: p)
  case (Node l k v h r)
  then show ?case by (cases "l = Leaf") simp_all
qed simp

lemma remaining_climb_right: "remaining (climb_right t p) = after p"
  by (induction t p rule: climb_right.induct) auto

lemma remaining_iter_next: "remaining (iter_next it) = tl (remaining it)"
proof (cases it)
  case (Some pos)
  then show ?thesis
    by (cases pos rule: inorder_successor.cases)
      (auto simp: iter_next_def remaining_leftmost remaining_climb_right)
qed (simp add: iter_next_def)

lemma iter_deref_remaining:
  "iter_deref it = (case remaining it of [] \<Rightarrow> None | kv # _ \<Rightarrow> Some kv)"
  by (cases it rule: remaining.cases) auto

lemma iter_collect_remaining: "iter_collect n it = take n (remaining it)"
proof (induction n arbitrary: it)
  case (Suc n)
  then show ?case
    by (cases "remaining it") (simp_all add: iter_deref_remaining remaining_iter_next)
qed simp

section \<open>Height\<close>

lemma avl_height_size:
  "avl_ok t \<Longrightarrow> 2 ^ (nat (ht t) div 2) \<le> Suc (length (inorder t))"
proof (induction t)
  case (Node l k v h r)
  then have l: "2 ^ (nat (ht l) div 2) \<le> Suc (length (inorder l))"
    and r: "2 ^ (nat (ht r) div 2) \<le> Suc (length (inorder r))" by simp_all
  let ?m = "nat h div 2 - 1"
  have nn: "0 \<le> ht l" "0 \<le> ht r" using Node.prems ht_nonneg by auto
  show ?case
  proof (cases "nat h div 2 = 0")
    case False
    have "?m \<le> nat (ht l) div 2" "?m \<le> nat (ht r) div 2"
      using Node.prems nn by (auto simp: max_def split: if_splits)
    then have "(2::nat) ^ ?m \<le> Suc (length (inorder l))" "(2::nat) ^ ?m \<le> Suc (length (inorder r))"
      using l r by (meson le_trans one_le_numeral power_increasing)+
    moreover have "(2::nat) ^ (nat h div 2) = 2 ^ ?m + 2 ^ ?m"
      using False by (metis Suc_diff_1 gr0I mult_2 power_Suc)
    ultimately show ?thesis by simp
  qed simp
qed simp

section \<open>Correctness of the map\<close>

lemma map_get_new: "map_get map_new = Map.empty"
  by (auto simp: map_get_def map_new_def)

text \<open>
  C13: every sequence of insertions, erasures and assignments on a new map ends without a fault;
  afterwards the look-ups are those of the mathematical finite map that the same sequence builds,
  the size is the number of its keys, the tree is a height-balanced search tree whose stored
  heights are the real ones, and its height is at most twice the logarithm of the size.
\<close>

theorem map_run_correct:
  "\<exists>m. impl_map_run map_insert map_erase map_put dflt ops map_new = Some (Inr m) \<and>
       map_get m = fold spec_map_step ops Map.empty \<and>
       m_size m = card (dom (map_get m)) \<and>
       avl_ok (m_root m) \<and> strict_keys (inorder (m_root m)) \<and>
       2 ^ (nat (ht (m_root m)) div 2) \<le> Suc (m_size m)"
proof -
  from kmap.map_run_refines[OF map_new_wf, of dflt ops, unfolded map_get_new] obtain m where
    m: "impl_map_run map_insert map_erase map_put dflt ops map_new = Some (Inr m)" "map_wf m"
      "map_get m = fold spec_map_step ops Map.empty" by auto
  with kmap.num_card[OF m(2)] avl_height_size[of "m_root m"] show ?thesis
    by (auto simp: map_wf_def)
qed

text \<open>
  C28: walking a well-formed map with \<open>begin\<close> and \<open>operator++\<close> yields each key once, with the value
  a look-up returns, in increasing order of the keys, and reaches \<open>end\<close> after \<open>size()\<close> steps.
\<close>

theorem map_iteration:
  assumes "map_wf m"
  shows "\<exists>xs. (\<forall>n. iter_collect n (iter_begin (m_root m)) = take n xs) \<and> length xs = m_size m \<and>
           sorted_wrt (<) (map fst xs) \<and> map_of xs = map_get m"
proof (intro exI conjI)
  let ?xs = "inorder (m_root m)"
  have "remaining (iter_begin (m_root m)) = ?xs"
    using remaining_leftmost[of "m_root m" "[]"] by (simp add: iter_begin_def)
  then show "\<forall>n. iter_collect n (iter_begin (m_root m)) = take n ?xs"
    by (simp add: iter_collect_remaining)
  show "length ?xs = m_size m" "sorted_wrt (<) (map fst ?xs)" "map_of ?xs = map_get m"
    using assms by (auto simp: map_wf_def strict_keys_def map_get_map_of fun_eq_iff)
qed

theorem map_iteration_witness:
  "\<exists>xs. (\<forall>n. iter_collect n (iter_begin (Node (Node Leaf 1 ''a'' 1 Leaf) (2::nat) ''b'' 2 Leaf)) = take n xs) \<and>
        length xs = 2 \<and> sorted_wrt (<) (map fst xs) \<and>
        map_of xs = map_get \<lparr>m_root = Node (Node Leaf 1 ''a'' 1 Leaf) (2::nat) ''b'' 2 Leaf, m_size = 2\<rparr>"
  using map_iteration[of "\<lparr>m_root = Node (Node Leaf 1 ''a'' 1 Leaf) (2::nat) ''b'' 2 Leaf, m_size = 2\<rparr>"]
  by (simp add: map_wf_def strict_keys_def)

end
