(* ===== verification/LRUCache.thy ===== *)
theory LRUCache
  imports Vector AvlMap
begin

text \<open>
  \<open>kstd::LRUCache\<close> (\<open>kernel/kstd/LRUCache.h\<close>): an AVL map for the values and a vector of the keys in
  order of use, least recent first. The component uses the two containers only through their
  contracts; the abstract cache is the list of key-value pairs in order of use.
\<close>

section \<open>State and operations\<close>

record ('k, 'v) lru =
  lru_map :: "('k, 'v) amap"
  lru_list :: "'k vec"

definition lru_new :: "('k, 'v) lru" where
  "lru_new = \<lparr>lru_map = map_new, lru_list = vec_new\<rparr>"

text \<open>The loop of \<open>promote\<close> finds the key, erases it and then appends it.\<close>

definition lru_promote :: "('k::linorder, 'v) lru \<Rightarrow> 'k \<Rightarrow> ('k, 'v) lru prun" where
  "lru_promote c key =
     bindP (Some (erase_first vec_at vec_erase vec_size key (lru_list c))) (\<lambda>(found, l).
       if found then bindP (Some (vec_push_back l key)) (\<lambda>l'. Some (Inr (c\<lparr>lru_list := l'\<rparr>)))
       else Some (Inr (c\<lparr>lru_list := l\<rparr>)))"

definition lru_insert :: "('k::linorder, 'v) lru \<Rightarrow> 'k \<Rightarrow> 'v \<Rightarrow> ('k, 'v) lru prun" where
  "lru_insert c key x =
     (case map_get (lru_map c) key of
        Some _ \<Rightarrow> lru_promote (c\<lparr>lru_map := map_put (lru_map c) key x\<rparr>) key
      | None \<Rightarrow>
          bindP (map_insert (lru_map c) key x) (\<lambda>(_, m).
            bindP (Some (vec_push_back (lru_list c) key)) (\<lambda>l.
              Some (Inr \<lparr>lru_map = m, lru_list = l\<rparr>))))"

definition lru_erase :: "('k::linorder, 'v) lru \<Rightarrow> 'k \<Rightarrow> ('k, 'v) lru prun" where
  "lru_erase c key =
     bindP (map_erase (lru_map c) key) (\<lambda>m.
       bindP (Some (erase_first vec_at vec_erase vec_size key (lru_list c))) (\<lambda>(_, l).
         Some (Inr \<lparr>lru_map = m, lru_list = l\<rparr>)))"

definition lru_get :: "('k::linorder, 'v) lru \<Rightarrow> 'k \<Rightarrow> ('v option \<times> ('k, 'v) lru) prun" where
  "lru_get c key =
     (case map_get (lru_map c) key of
        Some item \<Rightarrow> bindP (lru_promote c key) (\<lambda>c'. Some (Inr (Some item, c')))
      | None \<Rightarrow> Some (Inr (None, c)))"

text \<open>\<open>while(!m_lru_list.empty() && num--)\<close>: the count runs down, the list gets shorter.\<close>

fun lru_prune :: "('k::linorder, 'v) lru \<Rightarrow> nat \<Rightarrow> ('k, 'v) lru prun" where
  "lru_prune c 0 = Some (Inr c)"
| "lru_prune c (Suc num) =
     (if vec_empty (lru_list c) then Some (Inr c)
      else
        bindP (Some (vec_at (lru_list c) 0)) (\<lambda>key.
          bindP (map_erase (lru_map c) key) (\<lambda>m.
            bindP (Some (vec_erase (lru_list c) 0)) (\<lambda>l.
              lru_prune \<lparr>lru_map = m, lru_list = l\<rparr> num))))"

definition lru_empty :: "('k, 'v) lru \<Rightarrow> bool" where
  "lru_empty c \<longleftrightarrow> vec_empty (lru_list c)"

definition lru_size :: "('k, 'v) lru \<Rightarrow> nat" where
  "lru_size c = vec_size (lru_list c)"

text \<open>
  The least recently used pair; \<open>m_map[...]\<close> inserts a default value for a missing key, so the
  result also has the cache. \<open>lru_unsafe\<close> asserts where \<open>lru\<close> returns nothing.
\<close>

definition lru_unsafe :: "'v \<Rightarrow> ('k::linorder, 'v) lru \<Rightarrow> (('k \<times> 'v) \<times> ('k, 'v) lru) prun" where
  "lru_unsafe dflt c =
     bindP (Some (assertR (\<not> lru_empty c))) (\<lambda>_.
       bindP (Some (vec_at (lru_list c) 0)) (\<lambda>key.
         bindP (map_index dflt (lru_map c) key) (\<lambda>(x, m).
           Some (Inr ((key, x), c\<lparr>lru_map := m\<rparr>)))))"

definition lru_lru :: "'v \<Rightarrow> ('k::linorder, 'v) lru \<Rightarrow> (('k \<times> 'v) option \<times> ('k, 'v) lru) prun" where
  "lru_lru dflt c =
     (if lru_empty c then Some (Inr (None, c))
      else
        bindP (Some (vec_at (lru_list c) 0)) (\<lambda>key.
          bindP (map_index dflt (lru_map c) key) (\<lambda>(x, m).
            Some (Inr (Some (key, x), c\<lparr>lru_map := m\<rparr>)))))"

section \<open>The abstract cache\<close>

definition spec_erase :: "'k \<Rightarrow> ('k \<times> 'v) list \<Rightarrow> ('k \<times> 'v) list" where
  "spec_erase key xs = filter (\<lambda>(k, _). k \<noteq> key) xs"

definition spec_insert :: "'k \<Rightarrow> 'v \<Rightarrow> ('k \<times> 'v) list \<Rightarrow> ('k \<times> 'v) list" where
  "spec_insert key x xs = spec_erase key xs @ [(key, x)]"

definition spec_get :: "'k \<Rightarrow> ('k \<times> 'v) list \<Rightarrow> 'v option \<times> ('k \<times> 'v) list" where
  "spec_get key xs =
     (case map_of xs key of None \<Rightarrow> (None, xs) | Some x \<Rightarrow> (Some x, spec_insert key x xs))"

definition lru_order :: "('k, 'v) lru \<Rightarrow> 'k list" where
  "lru_order c = vec_contents (lru_list c)"

definition lru_abs :: "('k::linorder, 'v) lru \<Rightarrow> ('k \<times> 'v) list" where
  "lru_abs c = map (\<lambda>k. (k, the (map_get (lru_map c) k))) (lru_order c)"

definition lru_wf :: "('k::linorder, 'v) lru \<Rightarrow> bool" where
  "lru_wf c \<longleftrightarrow> map_wf (lru_map c) \<and> vec_wf (lru_list c) \<and> distinct (lru_order c) \<and>
     set (lru_order c) = dom (map_get (lru_map c))"

lemma lru_wfD:
  assumes "lru_wf c"
  shows "map_wf (lru_map c)" "vec_wf (lru_list c)" "distinct (lru_order c)"
    "set (lru_order c) = dom (map_get (lru_map c))"
  using assms by (simp_all add: lru_wf_def)

lemma vec_new_contents: "vec_contents vec_new = []" "vec_wf vec_new"
  using vec_new_rep vec_rep_contents vec_rep_wf by blast+

lemma lru_new_wf: "lru_wf lru_new"
  by (auto simp: lru_wf_def lru_new_def lru_order_def map_new_wf vec_new_contents)
    (auto simp: map_get_def map_new_def)

lemma lru_new_abs: "lru_abs lru_new = []"
  by (simp add: lru_abs_def lru_new_def lru_order_def vec_new_contents)

lemma map_of_lru_abs: "lru_wf c \<Longrightarrow> map_of (lru_abs c) = map_get (lru_map c)"
proof
  fix k
  assume wf: "lru_wf c"
  have "map_of (map (\<lambda>k. (k, the (map_get (lru_map c) k))) xs) k =
      (if k \<in> set xs then Some (the (map_get (lru_map c) k)) else None)" for xs
    by (induction xs) auto
  with lru_wfD(4)[OF wf] show "map_of (lru_abs c) k = map_get (lru_map c) k"
    by (auto simp: lru_abs_def)
qed

lemma distinct_fst_lru_abs: "lru_wf c \<Longrightarrow> distinct (map fst (lru_abs c))"
  by (simp add: lru_abs_def lru_wf_def o_def)

lemma lru_list_simps [simp]: "lru_order (c\<lparr>lru_map := m\<rparr>) = lru_order c"
  by (simp add: lru_order_def)

lemma lru_absI:
  assumes "lru_order c = ks" "\<And>k. k \<in> set ks \<Longrightarrow> map_get (lru_map c) k = Some (f k)"
  shows "lru_abs c = map (\<lambda>k. (k, f k)) ks"
  using assms by (simp add: lru_abs_def)

lemma spec_erase_map:
  "distinct ks \<Longrightarrow>
   spec_erase key (map (\<lambda>k. (k, f k)) ks) = map (\<lambda>k. (k, f k)) (remove1 key ks)"
  by (simp add: spec_erase_def filter_map o_def distinct_remove1_removeAll removeAll_filter_not_eq
      eq_commute)

section \<open>The cache refines the abstract one\<close>

lemma lru_promote_refines:
  assumes wf: "lru_wf c" and key: "map_get (lru_map c) key = Some x"
  shows "\<exists>c'. lru_promote c key = Some (Inr c') \<and> lru_wf c' \<and> lru_map c' = lru_map c \<and>
           lru_abs c' = spec_insert key x (lru_abs c)"
proof -
  note w = lru_wfD[OF wf]
  have inn: "key \<in> set (lru_order c)" using key w(4) by auto
  from vec.erase_first_remove1[OF w(2), of key] obtain l where
    l: "erase_first vec_at vec_erase vec_size key (lru_list c) = Inr (True, l)" "vec_wf l"
      "vec_contents l = remove1 key (lru_order c)"
    using inn by (auto simp: lru_order_def)
  from vec.push_snoc[OF l(2), of key] obtain l' where
    l': "vec_push_back l key = Inr l'" "vec_wf l'" "vec_contents l' = remove1 key (lru_order c) @ [key]"
    using l(3) by auto
  let ?c = "c\<lparr>lru_list := l'\<rparr>"
  have ord: "lru_order ?c = remove1 key (lru_order c) @ [key]" using l'(3) by (simp add: lru_order_def)
  have wf': "lru_wf ?c"
    unfolding lru_wf_def ord using w l'(2) inn by (auto simp: set_remove1_eq)
  have "lru_abs ?c = spec_insert key x (lru_abs c)"
    using key w(3) by (simp add: lru_abs_def ord spec_insert_def spec_erase_map)
  with wf' l l' show ?thesis by (simp add: lru_promote_def)
qed

lemma lru_insert_refines:
  assumes wf: "lru_wf c"
  shows "\<exists>c'. lru_insert c key x = Some (Inr c') \<and> lru_wf c' \<and>
           lru_abs c' = spec_insert key x (lru_abs c)"
proof (cases "map_get (lru_map c) key")
  case None
  note w = lru_wfD[OF wf]
  from kmap.insert_new[OF w(1) None, of x] obtain m where
    m: "map_insert (lru_map c) key x = Some (Inr (True, m))" "map_wf m"
      "map_get m = (map_get (lru_map c))(key \<mapsto> x)" by blast
  from vec.push_snoc[OF w(2), of key] obtain l where
    l: "vec_push_back (lru_list c) key = Inr l" "vec_wf l" "vec_contents l = lru_order c @ [key]"
    by (auto simp: lru_order_def)
  let ?c = "\<lparr>lru_map = m, lru_list = l\<rparr>"
  have ord: "lru_order ?c = lru_order c @ [key]" using l(3) by (simp add: lru_order_def)
  have nin: "key \<notin> set (lru_order c)" using None w(4) by auto
  have "lru_wf ?c" unfolding lru_wf_def ord using w m l(2) nin by auto
  moreover have "lru_abs ?c = spec_insert key x (lru_abs c)"
    using m(3) nin w(3)
    by (simp add: lru_abs_def ord spec_insert_def spec_erase_map remove1_idem)
  ultimately show ?thesis using None m l by (simp add: lru_insert_def)
next
  case (Some y)
  let ?c = "c\<lparr>lru_map := map_put (lru_map c) key x\<rparr>"
  note w = lru_wfD[OF wf]
  from kmap.put_present[OF w(1), of key x] Some have
    m: "map_wf (map_put (lru_map c) key x)"
      "map_get (map_put (lru_map c) key x) = (map_get (lru_map c))(key \<mapsto> x)" by auto
  have wf1: "lru_wf ?c" unfolding lru_wf_def using w m Some by auto
  have "spec_erase key (lru_abs ?c) = spec_erase key (lru_abs c)"
    using w(3) m(2) by (simp add: lru_abs_def spec_erase_map)
  with lru_promote_refines[OF wf1, of key x] m(2) Some show ?thesis
    by (auto simp: lru_insert_def spec_insert_def)
qed

lemma lru_erase_refines:
  assumes wf: "lru_wf c"
  shows "\<exists>c'. lru_erase c key = Some (Inr c') \<and> lru_wf c' \<and> lru_abs c' = spec_erase key (lru_abs c)"
proof -
  note w = lru_wfD[OF wf]
  from kmap.erase_removes[OF w(1), of key] obtain m where
    m: "map_erase (lru_map c) key = Some (Inr m)" "map_wf m"
      "map_get m = (map_get (lru_map c))(key := None)" by blast
  from vec.erase_first_remove1[OF w(2), of key] obtain b l where
    l: "erase_first vec_at vec_erase vec_size key (lru_list c) = Inr (b, l)" "vec_wf l"
      "vec_contents l = remove1 key (lru_order c)" by (auto simp: lru_order_def)
  let ?c = "\<lparr>lru_map = m, lru_list = l\<rparr>"
  have ord: "lru_order ?c = remove1 key (lru_order c)" using l(3) by (simp add: lru_order_def)
  have "lru_wf ?c" unfolding lru_wf_def ord using w m l(2) by (auto simp: set_remove1_eq)
  moreover have "lru_abs ?c = spec_erase key (lru_abs c)"
    using w(3) m(3) by (simp add: lru_abs_def ord spec_erase_map)
  ultimately show ?thesis using m l by (simp add: lru_erase_def)
qed

lemma lru_get_refines:
  assumes wf: "lru_wf c"
  shows "\<exists>c'. lru_get c key = Some (Inr (fst (spec_get key (lru_abs c)), c')) \<and> lru_wf c' \<and>
           lru_abs c' = snd (spec_get key (lru_abs c))"
proof (cases "map_get (lru_map c) key")
  case None
  with wf show ?thesis by (simp add: lru_get_def spec_get_def map_of_lru_abs)
next
  case (Some x)
  with lru_promote_refines[OF wf Some] wf show ?thesis
    by (auto simp: lru_get_def spec_get_def map_of_lru_abs)
qed

lemma lru_prune_refines:
  "lru_wf c \<Longrightarrow> \<exists>c'. lru_prune c n = Some (Inr c') \<and> lru_wf c' \<and> lru_abs c' = drop n (lru_abs c)"
proof (induction n arbitrary: c)
  case 0
  then show ?case by simp
next
  case (Suc n)
  note w = lru_wfD[OF Suc.prems]
  show ?case
  proof (cases "lru_order c")
    case Nil
    then have "vec_size (lru_list c) = 0" using vec.num_contents[OF w(2)] by (simp add: lru_order_def)
    with Nil Suc.prems show ?thesis by (simp add: vec_empty_def lru_abs_def)
  next
    case (Cons key ks)
    then have ne: "\<not> vec_empty (lru_list c)" and at: "vec_at (lru_list c) 0 = Inr key"
      using vec.num_contents[OF w(2)] vec.at_nth[OF w(2), of 0]
      by (simp_all add: lru_order_def vec_empty_def)
    from kmap.erase_removes[OF w(1), of key] obtain m where
      m: "map_erase (lru_map c) key = Some (Inr m)" "map_wf m"
        "map_get m = (map_get (lru_map c))(key := None)" by blast
    from vec.erase_nth[OF w(2), of 0] Cons obtain l where
      l: "vec_erase (lru_list c) 0 = Inr l" "vec_wf l" "vec_contents l = ks"
      by (auto simp: lru_order_def)
    let ?c = "\<lparr>lru_map = m, lru_list = l\<rparr>"
    have ord: "lru_order ?c = ks" using l(3) by (simp add: lru_order_def)
    have wf': "lru_wf ?c" unfolding lru_wf_def ord using w m l(2) Cons by auto
    have "lru_abs ?c = tl (lru_abs c)"
      using m(3) Cons w(3) by (simp add: lru_abs_def ord)
    with Suc.IH[OF wf'] ne at m l show ?thesis by (simp add: drop_Suc)
  qed
qed

lemma lru_lru_refines:
  assumes wf: "lru_wf c"
  shows "lru_lru d c = Some (Inr (if lru_abs c = [] then None else Some (hd (lru_abs c)), c))"
proof -
  note w = lru_wfD[OF wf]
  show ?thesis
  proof (cases "lru_order c")
    case Nil
    then have "vec_size (lru_list c) = 0" using vec.num_contents[OF w(2)] by (simp add: lru_order_def)
    with Nil show ?thesis by (simp add: lru_lru_def lru_empty_def vec_empty_def lru_abs_def)
  next
    case (Cons key ks)
    then have ne: "\<not> vec_empty (lru_list c)" and at: "vec_at (lru_list c) 0 = Inr key"
      using vec.num_contents[OF w(2)] vec.at_nth[OF w(2), of 0]
      by (simp_all add: lru_order_def vec_empty_def)
    from Cons w(4) obtain x where x: "map_get (lru_map c) key = Some x" by force
    with ne at Cons show ?thesis
      by (simp add: lru_lru_def lru_empty_def map_index_def map_get_def lru_abs_def)
  qed
qed

section \<open>Sequences of operations\<close>

datatype ('k, 'v) cache_op = CacheInsert 'k 'v | CacheGet 'k | CacheErase 'k | CachePrune nat

fun cache_step :: "('k::linorder, 'v) lru \<Rightarrow> ('k, 'v) cache_op \<Rightarrow> ('v option \<times> ('k, 'v) lru) prun" where
  "cache_step c (CacheInsert k x) = bindP (lru_insert c k x) (\<lambda>c'. Some (Inr (None, c')))"
| "cache_step c (CacheGet k) = lru_get c k"
| "cache_step c (CacheErase k) = bindP (lru_erase c k) (\<lambda>c'. Some (Inr (None, c')))"
| "cache_step c (CachePrune n) = bindP (lru_prune c n) (\<lambda>c'. Some (Inr (None, c')))"

fun cache_run :: "('k::linorder, 'v) lru \<Rightarrow> ('k, 'v) cache_op list \<Rightarrow> ('v option list \<times> ('k, 'v) lru) prun" where
  "cache_run c [] = Some (Inr ([], c))"
| "cache_run c (op # ops) =
     bindP (cache_step c op) (\<lambda>(out, c').
       bindP (cache_run c' ops) (\<lambda>(outs, c''). Some (Inr (out # outs, c''))))"

fun spec_cache_step :: "('k \<times> 'v) list \<Rightarrow> ('k, 'v) cache_op \<Rightarrow> 'v option \<times> ('k \<times> 'v) list" where
  "spec_cache_step xs (CacheInsert k x) = (None, spec_insert k x xs)"
| "spec_cache_step xs (CacheGet k) = spec_get k xs"
| "spec_cache_step xs (CacheErase k) = (None, spec_erase k xs)"
| "spec_cache_step xs (CachePrune n) = (None, drop n xs)"

fun spec_cache_run :: "('k \<times> 'v) list \<Rightarrow> ('k, 'v) cache_op list \<Rightarrow> 'v option list \<times> ('k \<times> 'v) list" where
  "spec_cache_run xs [] = ([], xs)"
| "spec_cache_run xs (op # ops) =
     (case spec_cache_step xs op of (out, ys) \<Rightarrow>
        case spec_cache_run ys ops of (outs, zs) \<Rightarrow> (out # outs, zs))"

lemma cache_step_refines:
  assumes "lru_wf c"
  shows "\<exists>c'. cache_step c op = Some (Inr (fst (spec_cache_step (lru_abs c) op), c')) \<and> lru_wf c' \<and>
           lru_abs c' = snd (spec_cache_step (lru_abs c) op)"
proof (cases op)
  case (CacheInsert k x)
  then show ?thesis using lru_insert_refines[OF assms, of k x] by auto
next
  case (CacheGet k)
  then show ?thesis using lru_get_refines[OF assms, of k] by simp
next
  case (CacheErase k)
  then show ?thesis using lru_erase_refines[OF assms, of k] by auto
next
  case (CachePrune n)
  then show ?thesis using lru_prune_refines[OF assms, of n] by auto
qed

lemma cache_run_refines:
  "lru_wf c \<Longrightarrow> spec_cache_run (lru_abs c) ops = (outs, zs) \<Longrightarrow>
   \<exists>c'. cache_run c ops = Some (Inr (outs, c')) \<and> lru_wf c' \<and> lru_abs c' = zs"
proof (induction ops arbitrary: c outs)
  case Nil
  then show ?case by simp
next
  case (Cons op ops)
  from cache_step_refines[OF Cons.prems(1), of op] obtain c1 where
    c1: "cache_step c op = Some (Inr (fst (spec_cache_step (lru_abs c) op), c1))" "lru_wf c1"
      "lru_abs c1 = snd (spec_cache_step (lru_abs c) op)" by blast
  obtain outs' where o: "spec_cache_run (lru_abs c1) ops = (outs', zs)"
      "outs = fst (spec_cache_step (lru_abs c) op) # outs'"
    using Cons.prems(2) c1(3) by (auto split: prod.splits)
  from Cons.IH[OF c1(2) o(1)] c1(1) o(2) show ?case by auto
qed

text \<open>
  C17: for every sequence of insertions, look-ups, erasures and prunings on a new cache, the calls
  return the outputs of the abstract cache (the list of pairs in order of use, a hit and an
  insertion moving the key to the end, a pruning dropping from the front), no call faults, the
  map and the key list agree on the keys, and the order of the key list is the order of use.
\<close>

theorem lru_refines_spec:
  "\<exists>c. cache_run lru_new ops = Some (Inr (fst (spec_cache_run [] ops), c)) \<and>
       lru_abs c = snd (spec_cache_run [] ops) \<and> distinct (lru_order c) \<and>
       set (lru_order c) = dom (map_get (lru_map c)) \<and> map_wf (lru_map c)"
proof -
  obtain outs zs where "spec_cache_run [] ops = (outs, zs)" by fastforce
  with cache_run_refines[OF lru_new_wf, of ops outs zs] show ?thesis
    by (auto simp: lru_new_abs lru_wf_def)
qed

end
