(* ===== verification/Bitmap.thy ===== *)
theory Bitmap
  imports Prelude
begin

text \<open>
  \<open>kstd::Bitmap\<close> (\<open>kernel/kstd/Bitmap.h\<close>): an array of bytes, eight bits each, and the contract its
  client, the buddy allocator, relies on.
\<close>

unbundle bit_operations_syntax

section \<open>State and operations\<close>

record bitmap =
  bm_bits :: "u8 list option"
  bm_num_bits :: nat

definition bm_null :: bitmap where
  "bm_null = \<lparr>bm_bits = None, bm_num_bits = 0\<rparr>"

definition bm_set_all :: "bitmap \<Rightarrow> bool \<Rightarrow> bitmap run" where
  "bm_set_all m value =
     (let n = (bm_num_bits m + 7) div 8 in
      case bm_bits m of
        None \<Rightarrow> if n = 0 then Inr m else Inl NullDeref
      | Some bytes \<Rightarrow>
          if n \<le> length bytes
          then Inr (m\<lparr>bm_bits := Some (replicate n (if value then - 1 else 0) @ drop n bytes)\<rparr>)
          else Inl OutOfBounds)"

text \<open>The storage is fresh; \<open>junk\<close> is the byte it happens to hold before \<open>set_all\<close>.\<close>

definition bm_new :: "u8 \<Rightarrow> nat \<Rightarrow> bool \<Rightarrow> bitmap run" where
  "bm_new junk num_bits default_value =
     bm_set_all \<lparr>bm_bits = Some (replicate ((num_bits + 7) div 8) junk), bm_num_bits = num_bits\<rparr>
       default_value"

definition bm_move :: "bitmap \<Rightarrow> bitmap \<times> bitmap" where
  "bm_move other = (other, bm_null)"

text \<open>The copy constructor has an empty body: no storage, and a bit count that is not set.\<close>

definition bm_copy :: "nat \<Rightarrow> bitmap \<Rightarrow> bitmap" where
  "bm_copy junk other = \<lparr>bm_bits = None, bm_num_bits = junk\<rparr>"

text \<open>Move assignment takes the storage of \<open>other\<close> and leaves both bit counts as they were.\<close>

definition bm_assign_move :: "bitmap \<Rightarrow> bitmap \<Rightarrow> bitmap \<times> bitmap" where
  "bm_assign_move this other = (this\<lparr>bm_bits := bm_bits other\<rparr>, other\<lparr>bm_bits := None\<rparr>)"

definition bm_get :: "bitmap \<Rightarrow> nat \<Rightarrow> bool run" where
  "bm_get m index =
     (case bm_bits m of
        None \<Rightarrow> Inl AssertFailed
      | Some bytes \<Rightarrow>
          if index div 8 < length bytes
          then Inr (bytes ! (index div 8) AND push_bit (index mod 8) 1 \<noteq> 0)
          else Inl OutOfBounds)"

definition bm_set :: "bitmap \<Rightarrow> nat \<Rightarrow> bool \<Rightarrow> bitmap run" where
  "bm_set m index value =
     (case bm_bits m of
        None \<Rightarrow> Inl AssertFailed
      | Some bytes \<Rightarrow>
          if index div 8 < length bytes
          then let old = bytes ! (index div 8);
                   new = (if value then old OR push_bit (index mod 8) 1
                          else old AND NOT (push_bit (index mod 8) 1))
               in Inr (m\<lparr>bm_bits := Some (bytes[index div 8 := new])\<rparr>)
          else Inl OutOfBounds)"

section \<open>The contract of a bit array\<close>

text \<open>A client sees \<open>cap\<close> bits; reading gives the bit, writing changes one and no other.\<close>

locale bit_array =
  fixes get :: "'m \<Rightarrow> nat \<Rightarrow> bool run"
    and set :: "'m \<Rightarrow> nat \<Rightarrow> bool \<Rightarrow> 'm run"
    and cap :: "'m \<Rightarrow> nat"
    and val_at :: "'m \<Rightarrow> nat \<Rightarrow> bool"
  assumes get_val: "i < cap m \<Longrightarrow> get m i = Inr (val_at m i)"
    and set_val: "i < cap m \<Longrightarrow>
      \<exists>m'. set m i b = Inr m' \<and> cap m' = cap m \<and> (\<forall>j < cap m. val_at m' j = (if j = i then b else val_at m j))"
begin

lemma get_after_set:
  assumes "i < cap m" "j < cap m" "set m i b = Inr m'"
  shows "get m' j = Inr (if j = i then b else val_at m j)"
  using set_val[OF assms(1), of b] assms get_val[of j m'] by auto

lemma set_twice:
  assumes "i < cap m" "set m i b = Inr m1"
  shows "\<exists>m2. set m1 i c = Inr m2 \<and> (\<forall>j < cap m. val_at m2 j = (if j = i then c else val_at m j))"
proof -
  from set_val[OF assms(1), of b] assms(2) have
    1: "cap m1 = cap m" "\<forall>j < cap m. val_at m1 j = (if j = i then b else val_at m j)" by auto
  with set_val[of i m1 c] assms(1) show ?thesis by auto
qed

end

definition bm_cap :: "bitmap \<Rightarrow> nat" where
  "bm_cap m = (case bm_bits m of None \<Rightarrow> 0 | Some bytes \<Rightarrow> 8 * length bytes)"

definition bm_val :: "bitmap \<Rightarrow> nat \<Rightarrow> bool" where
  "bm_val m i = (case bm_bits m of None \<Rightarrow> False | Some bytes \<Rightarrow> bit (bytes ! (i div 8)) (i mod 8))"

lemma bit_set_byte:
  fixes w :: u8
  assumes "n < 8" "k < 8"
  shows "bit (w OR 2 ^ k) n = (n = k \<or> bit w n)"
    and "bit (w AND NOT (2 ^ k)) n = (n \<noteq> k \<and> bit w n)"
  using assms by (auto simp: bit_simps)

lemma div_mod_8: "(i div 8 = j div 8 \<and> i mod 8 = j mod 8) \<longleftrightarrow> i = (j::nat)"
  by (metis div_mult_mod_eq)

interpretation bm: bit_array bm_get bm_set bm_cap bm_val
proof unfold_locales
  fix i m b
  assume i: "i < bm_cap m"
  then obtain bytes where bytes: "bm_bits m = Some bytes" "i div 8 < length bytes"
    by (auto simp: bm_cap_def split: option.splits)
  then show "bm_get m i = Inr (bm_val m i)"
    by (simp add: bm_get_def bm_val_def and_exp_eq_0_iff_not_bit)
  let ?new = "if b then bytes ! (i div 8) OR push_bit (i mod 8) 1
              else bytes ! (i div 8) AND NOT (push_bit (i mod 8) 1)"
  let ?m = "m\<lparr>bm_bits := Some (bytes[i div 8 := ?new])\<rparr>"
  have "bm_val ?m j = (if j = i then b else bm_val m j)" for j
  proof (cases "j div 8 = i div 8")
    case True
    with bytes div_mod_8[of j i] show ?thesis by (auto simp: bm_val_def bit_set_byte)
  next
    case False
    with bytes show ?thesis by (auto simp: bm_val_def)
  qed
  with bytes show "\<exists>m'. bm_set m i b = Inr m' \<and> bm_cap m' = bm_cap m \<and>
      (\<forall>j < bm_cap m. bm_val m' j = (if j = i then b else bm_val m j))"
    by (intro exI[of _ ?m]) (simp add: bm_set_def bm_cap_def Let_def)
qed

lemma bm_new_val:
  "\<exists>m. bm_new junk n v = Inr m \<and> n \<le> bm_cap m \<and> bm_num_bits m = n \<and> (\<forall>i < bm_cap m. bm_val m i = v)"
  by (auto simp: bm_new_def bm_set_all_def bm_cap_def bm_val_def Let_def)

end
