(* ===== verification/PhysicalPage.thy ===== *)
theory PhysicalPage
  imports Prelude
begin

text \<open>
  The union \<open>PhysicalPage\<close> (\<open>kernel/memory/PhysicalPage.h\<close>) and the array of them that the memory
  manager keeps. The union has four bytes: \<open>allocated.ref_count\<close> and \<open>free.next\<close> are the low half,
  \<open>free.prev\<close> is the high half and \<open>allocated.reserved\<close> is the first byte of the high half. Both
  views are functions of the same two halves, so a write through one is seen through the other.
\<close>

unbundle bit_operations_syntax

section \<open>The union\<close>

record phys_page =
  pp_lo :: u16
  pp_hi :: u16

definition ref_count :: "phys_page \<Rightarrow> u16" where
  "ref_count p = pp_lo p"

definition set_ref_count :: "u16 \<Rightarrow> phys_page \<Rightarrow> phys_page" where
  "set_ref_count v p = p\<lparr>pp_lo := v\<rparr>"

definition reserved :: "phys_page \<Rightarrow> bool" where
  "reserved p \<longleftrightarrow> pp_hi p AND 0xFF \<noteq> 0"

definition set_reserved :: "bool \<Rightarrow> phys_page \<Rightarrow> phys_page" where
  "set_reserved b p = p\<lparr>pp_hi := (pp_hi p AND 0xFF00) OR (if b then 1 else 0)\<rparr>"

definition free_next :: "phys_page \<Rightarrow> int" where
  "free_next p = sint (pp_lo p)"

definition free_prev :: "phys_page \<Rightarrow> int" where
  "free_prev p = sint (pp_hi p)"

definition set_free_next :: "int \<Rightarrow> phys_page \<Rightarrow> phys_page" where
  "set_free_next v p = p\<lparr>pp_lo := word_of_int v\<rparr>"

definition set_free_prev :: "int \<Rightarrow> phys_page \<Rightarrow> phys_page" where
  "set_free_prev v p = p\<lparr>pp_hi := word_of_int v\<rparr>"

section \<open>The page array\<close>

text \<open>\<open>get_physical_page(i)\<close> is \<open>m_physical_pages[i]\<close>, without a check.\<close>

definition get_physical_page :: "phys_page list \<Rightarrow> nat \<Rightarrow> phys_page run" where
  "get_physical_page pages i = (if i < length pages then Inr (pages ! i) else Inl OutOfBounds)"

definition upd_physical_page ::
    "phys_page list \<Rightarrow> nat \<Rightarrow> (phys_page \<Rightarrow> phys_page) \<Rightarrow> phys_page list run" where
  "upd_physical_page pages i f =
     (if i < length pages then Inr (pages[i := f (pages ! i)]) else Inl OutOfBounds)"

lemma get_physical_page_ok [simp]: "i < length pages \<Longrightarrow> get_physical_page pages i = Inr (pages ! i)"
  by (simp add: get_physical_page_def)

lemma upd_physical_page_ok [simp]:
  "i < length pages \<Longrightarrow> upd_physical_page pages i f = Inr (pages[i := f (pages ! i)])"
  by (simp add: upd_physical_page_def)

lemma sint_word16: "- (2 ^ 15) \<le> v \<Longrightarrow> v < 2 ^ 15 \<Longrightarrow> sint (word_of_int v :: u16) = v"
  by (simp add: sint_sbintrunc' signed_take_bit_int_eq_self)

lemma free_next_simps [simp]:
  "free_next (set_free_prev v p) = free_next p"
  "- (2 ^ 15) \<le> v \<Longrightarrow> v < 2 ^ 15 \<Longrightarrow> free_next (set_free_next v p) = v"
  by (simp_all add: free_next_def set_free_prev_def set_free_next_def sint_word16)

lemma free_prev_simps [simp]:
  "free_prev (set_free_next v p) = free_prev p"
  "- (2 ^ 15) \<le> v \<Longrightarrow> v < 2 ^ 15 \<Longrightarrow> free_prev (set_free_prev v p) = v"
  by (simp_all add: free_prev_def set_free_prev_def set_free_next_def sint_word16)

text \<open>The two views overlap: writing \<open>-1\<close> to \<open>free.prev\<close> makes the page read as reserved.\<close>

lemma reserved_set_free_prev: "reserved (set_free_prev (- 1) p)"
  by (simp add: reserved_def set_free_prev_def)

lemma reserved_set_reserved [simp]: "reserved (set_reserved b p) = b"
proof -
  have "(pp_hi p AND 0xFF00 OR w) AND 0xFF = w AND 0xFF" for w :: u16
    by (simp add: bit.conj_disj_distrib2 and.assoc)
  then show ?thesis by (simp add: reserved_def set_reserved_def)
qed

end
