(* ===== verification/BuddyBlocks.thy ===== *)
theory BuddyBlocks
  imports Main
begin

text \<open>
  The abstract state of a buddy zone: for each order the list of its free blocks. A block of order
  \<open>k\<close> is the page range \<open>block_pages k b\<close>; blocks are aligned, disjoint, and never free together with
  their buddy. The operations of the allocator are the removal and the addition of one block.
\<close>

type_synonym freelists = "nat \<Rightarrow> nat list"

definition block_pages :: "nat \<Rightarrow> nat \<Rightarrow> nat set" where
  "block_pages k b = {b ..< b + 2 ^ k}"

definition aligned :: "nat \<Rightarrow> nat \<Rightarrow> bool" where
  "aligned k b \<longleftrightarrow> 2 ^ k dvd b"

definition buddy :: "nat \<Rightarrow> nat \<Rightarrow> nat" where
  "buddy k b = (if even (b div 2 ^ k) then b + 2 ^ k else b - 2 ^ k)"

definition pair_index :: "nat \<Rightarrow> nat \<Rightarrow> nat" where
  "pair_index k b = b div 2 ^ k div 2"

definition first_buddy :: "nat \<Rightarrow> nat \<Rightarrow> nat" where
  "first_buddy k b = pair_index k b * 2 * 2 ^ k"

definition free_pages :: "freelists \<Rightarrow> nat set" where
  "free_pages F = (\<Union>k. \<Union>b \<in> set (F k). block_pages k b)"

definition blocks_ok :: "nat \<Rightarrow> freelists \<Rightarrow> bool" where
  "blocks_ok H F \<longleftrightarrow>
     (\<forall>k. distinct (F k)) \<and>
     (\<forall>k b. b \<in> set (F k) \<longrightarrow> k \<le> H \<and> aligned k b \<and> b + 2 ^ k \<le> 2 ^ H \<and> buddy k b \<notin> set (F k)) \<and>
     (\<forall>k k' b b'. b \<in> set (F k) \<longrightarrow> b' \<in> set (F k') \<longrightarrow> (k, b) \<noteq> (k', b') \<longrightarrow>
        block_pages k b \<inter> block_pages k' b' = {})"

section \<open>Arithmetic of buddies\<close>

lemma alignedE:
  assumes "aligned k b"
  obtains q where "b = q * 2 ^ k"
  using assms by (auto simp: aligned_def elim: dvdE)

lemma buddy_mult: "buddy k (q * 2 ^ k) = (if even q then q + 1 else q - 1) * 2 ^ k"
  by (simp add: buddy_def algebra_simps)

lemma pair_index_mult: "pair_index k (q * 2 ^ k) = q div 2"
  by (simp add: pair_index_def)

lemma aligned_mult [simp]: "aligned k (q * 2 ^ k)"
  by (simp add: aligned_def)

lemma aligned_buddy: "aligned k b \<Longrightarrow> aligned k (buddy k b)"
  by (elim alignedE) (simp add: buddy_mult del: aligned_mult, simp add: aligned_def)

lemma buddy_neq: "aligned k b \<Longrightarrow> buddy k b \<noteq> b"
  by (elim alignedE) (auto simp: buddy_mult elim: oddE)

lemma buddy_buddy: "aligned k b \<Longrightarrow> buddy k (buddy k b) = b"
  by (elim alignedE) (auto simp: buddy_mult elim: oddE)

lemma pair_index_buddy: "aligned k b \<Longrightarrow> pair_index k (buddy k b) = pair_index k b"
  by (elim alignedE) (auto simp: buddy_mult pair_index_mult elim!: oddE evenE)

lemma same_pair:
  assumes "aligned k b" "aligned k c" "pair_index k b = pair_index k c"
  shows "c = b \<or> c = buddy k b"
proof -
  from assms obtain q r where q: "b = q * 2 ^ k" and r: "c = r * 2 ^ k" by (elim alignedE) blast
  from assms(3) have "q div 2 = r div 2" by (simp add: q r pair_index_mult)
  then have "r = q \<or> r = (if even q then q + 1 else q - 1)"
    by (cases "even q"; cases "even r") (auto elim!: oddE evenE)
  then show ?thesis by (auto simp: q r buddy_mult)
qed

lemma first_buddy_cases:
  assumes "aligned k b"
  shows "b = first_buddy k b \<and> buddy k b = first_buddy k b + 2 ^ k \<or>
         b = first_buddy k b + 2 ^ k \<and> buddy k b = first_buddy k b"
  using assms
  by (elim alignedE) (auto simp: first_buddy_def pair_index_mult buddy_mult algebra_simps elim!: oddE evenE)

lemma aligned_first_buddy: "aligned (Suc k) (first_buddy k b)"
  by (simp add: aligned_def first_buddy_def)

lemma block_first_buddy:
  assumes "aligned k b"
  shows "block_pages (Suc k) (first_buddy k b) = block_pages k b \<union> block_pages k (buddy k b)"
  using first_buddy_cases[OF assms] by (auto simp: block_pages_def)

lemma buddy_within:
  assumes "aligned k b" "b + 2 ^ k \<le> 2 ^ H" "k < H"
  shows "first_buddy k b + 2 ^ Suc k \<le> 2 ^ H" "buddy k b + 2 ^ k \<le> 2 ^ H"
proof -
  let ?f = "first_buddy k b"
  have "2 ^ Suc k dvd (2 ^ H :: nat)" using assms(3) by (simp add: le_imp_power_dvd del: power_Suc)
  then obtain m where m: "(2::nat) ^ H = 2 ^ Suc k * m" by (elim dvdE)
  obtain n where n: "?f = 2 ^ Suc k * n" using aligned_first_buddy[of k b] by (auto simp: aligned_def elim: dvdE)
  have "(0::nat) < 2 ^ k" by simp
  then have "?f < 2 ^ H" using first_buddy_cases[OF assms(1)] assms(2) by linarith
  then have "n < m" using m n by simp
  then have "2 ^ Suc k * Suc n \<le> (2 ^ Suc k * m :: nat)" by (intro mult_le_mono2) simp
  with m n show "?f + 2 ^ Suc k \<le> 2 ^ H" by simp
  with first_buddy_cases[OF assms(1)] show "buddy k b + 2 ^ k \<le> 2 ^ H" by auto
qed

lemma block_nonempty: "b \<in> block_pages k b"
  by (simp add: block_pages_def)

lemma aligned_down: "aligned (Suc k) b \<Longrightarrow> aligned k b"
  by (auto simp: aligned_def elim: dvd_trans[rotated])

lemma split_block:
  assumes "aligned (Suc k) b"
  shows "buddy k b = b + 2 ^ k" "first_buddy k b = b" "block_pages (Suc k) b = block_pages k b \<union> block_pages k (b + 2 ^ k)"
proof -
  from assms obtain q where q: "b = q * 2 ^ Suc k" by (elim alignedE)
  then have b: "b = (2 * q) * 2 ^ k" by simp
  show "buddy k b = b + 2 ^ k" unfolding b by (subst buddy_mult) (simp add: algebra_simps)
  show "first_buddy k b = b" unfolding b by (simp add: first_buddy_def pair_index_mult)
  show "block_pages (Suc k) b = block_pages k b \<union> block_pages k (b + 2 ^ k)" by (auto simp: block_pages_def)
qed

section \<open>Removal and addition of a block\<close>

lemma free_pages_split: "free_pages F =
    (\<Union>b \<in> set (F k). block_pages k b) \<union> (\<Union>j \<in> - {k}. \<Union>b \<in> set (F j). block_pages j b)"
  by (auto simp: free_pages_def)

lemma block_in_free: "b \<in> set (F k) \<Longrightarrow> block_pages k b \<subseteq> free_pages F"
  by (auto simp: free_pages_def)

lemma blocks_okD:
  assumes "blocks_ok H F" "b \<in> set (F k)"
  shows "k \<le> H" "aligned k b" "b + 2 ^ k \<le> 2 ^ H" "buddy k b \<notin> set (F k)"
  using assms by (auto simp: blocks_ok_def)

lemma blocks_ok_disjoint:
  "blocks_ok H F \<Longrightarrow> b \<in> set (F k) \<Longrightarrow> b' \<in> set (F k') \<Longrightarrow> (k, b) \<noteq> (k', b') \<Longrightarrow>
   block_pages k b \<inter> block_pages k' b' = {}"
  by (simp add: blocks_ok_def)

lemma blocks_okI:
  assumes "\<And>k. distinct (F k)"
    and "\<And>k b. b \<in> set (F k) \<Longrightarrow> k \<le> H \<and> aligned k b \<and> b + 2 ^ k \<le> 2 ^ H \<and> buddy k b \<notin> set (F k)"
    and "\<And>k k' b b'. b \<in> set (F k) \<Longrightarrow> b' \<in> set (F k') \<Longrightarrow> (k, b) \<noteq> (k', b') \<Longrightarrow>
      block_pages k b \<inter> block_pages k' b' = {}"
  shows "blocks_ok H F"
  using assms by (simp add: blocks_ok_def)

lemma block_less:
  assumes "b + 2 ^ k \<le> (2::nat) ^ H"
  shows "b < 2 ^ H"
proof -
  have "(0::nat) < 2 ^ k" by simp
  with assms show ?thesis by linarith
qed

lemma free_block_less: "blocks_ok H F \<Longrightarrow> b \<in> set (F k) \<Longrightarrow> b < 2 ^ H"
  using blocks_okD(3) block_less by blast

lemma blocks_ok_distinct: "blocks_ok H F \<Longrightarrow> distinct (F k)"
  by (simp add: blocks_ok_def)

lemma other_order_block:
  assumes "blocks_ok H F" "b \<in> set (F k)" "c \<in> set (F j)" "j \<noteq> k"
  shows "c \<noteq> b"
  using blocks_ok_disjoint[OF assms(1,2,3)] assms(4) block_nonempty[of b k] block_nonempty[of c j]
  by auto

lemma remove_block_ok:
  assumes ok: "blocks_ok H F" and b: "b \<in> set (F k)"
  shows "blocks_ok H (F(k := remove1 b (F k)))"
    and "free_pages (F(k := remove1 b (F k))) = free_pages F - block_pages k b"
proof -
  let ?G = "F(k := remove1 b (F k))"
  have sub: "set (?G j) \<subseteq> set (F j)" for j by (simp add: set_remove1_subset)
  have "distinct (?G j)" for j using ok by (auto simp: blocks_ok_def)
  then show "blocks_ok H ?G"
    by (rule blocks_okI) (use sub blocks_okD[OF ok] blocks_ok_disjoint[OF ok] in blast)+
  have set: "set (?G k) = set (F k) - {b}" using ok by (simp add: blocks_ok_def)
  have disj: "block_pages k b \<inter> block_pages j c = {}" if "c \<in> set (?G j)" for j c
  proof -
    have "(k, b) \<noteq> (j, c)" using that set by (cases "j = k") auto
    moreover have "c \<in> set (F j)" using that sub by blast
    ultimately show ?thesis using blocks_ok_disjoint[OF ok b] by blast
  qed
  have "free_pages F = block_pages k b \<union> free_pages ?G"
    using b set unfolding free_pages_split[of F k] free_pages_split[of ?G k] by auto
  moreover have "block_pages k b \<inter> free_pages ?G = {}" using disj unfolding free_pages_def by blast
  ultimately show "free_pages ?G = free_pages F - block_pages k b" by blast
qed

lemma add_block_ok:
  assumes ok: "blocks_ok H F" and k: "k \<le> H" "aligned k b" "b + 2 ^ k \<le> 2 ^ H"
    and disj: "block_pages k b \<inter> free_pages F = {}" and bud: "buddy k b \<notin> set (F k)"
  shows "blocks_ok H (F(k := b # F k))"
    and "free_pages (F(k := b # F k)) = free_pages F \<union> block_pages k b"
proof -
  let ?G = "F(k := b # F k)"
  have nin: "b \<notin> set (F k)" using disj block_in_free[of b F k] block_nonempty[of b k] by blast
  have mem: "c \<in> set (?G j) \<longleftrightarrow> c \<in> set (F j) \<or> (j, c) = (k, b)" for j c by auto
  have d: "block_pages k b \<inter> block_pages j c = {}" if "c \<in> set (F j)" for j c
    using disj block_in_free[of c F j] that by blast
  have "buddy k c \<noteq> b" if "c \<in> set (F k)" for c
    using that bud buddy_buddy[OF blocks_okD(2)[OF ok that]] by auto
  then have "j \<le> H \<and> aligned j c \<and> c + 2 ^ j \<le> 2 ^ H \<and> buddy j c \<notin> set (?G j)"
    if "c \<in> set (?G j)" for j c
    using that blocks_okD[OF ok, of c j] k bud buddy_neq[OF k(2)] by (auto split: if_splits)
  moreover have "distinct (?G j)" for j using ok nin by (simp add: blocks_ok_def)
  moreover have "block_pages j c \<inter> block_pages j' c' = {}"
    if "c \<in> set (?G j)" "c' \<in> set (?G j')" "(j, c) \<noteq> (j', c')" for j c j' c'
  proof (cases "(j, c) = (k, b) \<or> (j', c') = (k, b)")
    case True
    with that d mem show ?thesis by (metis Int_commute prod.inject)
  next
    case False
    with that(1,2) mem have "c \<in> set (F j)" "c' \<in> set (F j')" by blast+
    with that(3) show ?thesis using blocks_ok_disjoint[OF ok] by blast
  qed
  ultimately show "blocks_ok H ?G" by (intro blocks_okI) blast+
  show "free_pages ?G = free_pages F \<union> block_pages k b"
    unfolding free_pages_split[of ?G k] free_pages_split[of F k] by auto
qed

lemma not_free_not_member:
  "block_pages k b \<inter> free_pages F = {} \<Longrightarrow> b \<notin> set (F k)"
  using block_in_free[of b F k] block_nonempty[of b k] by blast

section \<open>Complete coalescing\<close>

lemma block_disjoint_or_inside:
  assumes "aligned k b" "aligned j c" "k \<le> j" "b \<in> block_pages j c"
  shows "block_pages k b \<subseteq> block_pages j c"
proof -
  from assms(1) obtain q where q: "b = q * 2 ^ k" by (elim alignedE)
  from assms(2) obtain r where r: "c = r * 2 ^ j" by (elim alignedE)
  have j: "(2::nat) ^ j = 2 ^ (j - k) * 2 ^ k" using assms(3) by (simp flip: power_add)
  from assms(4) have "q * 2 ^ k < (r * 2 ^ (j - k) + 2 ^ (j - k)) * 2 ^ k"
    by (simp add: block_pages_def q r j algebra_simps)
  then have "Suc q \<le> r * 2 ^ (j - k) + 2 ^ (j - k)" by simp
  then have "Suc q * 2 ^ k \<le> (r * 2 ^ (j - k) + 2 ^ (j - k)) * 2 ^ k" by (rule mult_le_mono1)
  with assms(4) show ?thesis by (auto simp: block_pages_def q r j algebra_simps)
qed

text \<open>A free block of the smallest order in use below the top leaves its buddy's pages in use.\<close>

lemma smallest_has_used_buddy:
  assumes ok: "blocks_ok H F" and b: "b \<in> set (F k)" and k: "k < H" "\<And>j. j < k \<Longrightarrow> F j = []"
  shows "buddy k b \<notin> free_pages F"
proof
  assume "buddy k b \<in> free_pages F"
  then obtain j c where c: "c \<in> set (F j)" "buddy k b \<in> block_pages j c" by (auto simp: free_pages_def)
  have kj: "k \<le> j" using k(2)[of j] c(1) by (cases "j < k") auto
  note al = blocks_okD(2)[OF ok b] and alc = blocks_okD(2)[OF ok c(1)]
  show False
  proof (cases "j = k")
    case True
    have "block_pages k (buddy k b) \<subseteq> block_pages k c"
      using block_disjoint_or_inside[OF aligned_buddy[OF al] alc[unfolded True] le_refl] c(2) True by simp
    then have "c = buddy k b" using c(2) True by (auto simp: block_pages_def)
    with c(1) True blocks_okD(4)[OF ok b] show False by simp
  next
    case False
    with kj have "Suc k \<le> j" by simp
    have "first_buddy k b \<in> block_pages j c \<or> buddy k b = first_buddy k b + 2 ^ k"
      using first_buddy_cases[OF al] c(2) by auto
    then have "first_buddy k b \<in> block_pages j c"
    proof
      assume bd: "buddy k b = first_buddy k b + 2 ^ k"
      from alc \<open>Suc k \<le> j\<close> have "2 ^ Suc k dvd c"
        unfolding aligned_def by (meson dvd_trans le_imp_power_dvd)
      then obtain r where r: "c = r * 2 ^ Suc k" by (auto elim: dvdE simp: mult.commute)
      have "r * 2 ^ Suc k \<le> pair_index k b * 2 ^ Suc k + 2 ^ k"
        using c(2) bd r by (simp add: block_pages_def first_buddy_def)
      moreover have "(2::nat) ^ k < 2 ^ Suc k" by simp
      ultimately have "r * 2 ^ Suc k < Suc (pair_index k b) * 2 ^ Suc k" unfolding mult_Suc by linarith
      then have "r < Suc (pair_index k b)" by (simp only: mult_less_cancel2)
      then have "r * 2 ^ Suc k \<le> pair_index k b * 2 ^ Suc k" by (intro mult_le_mono1) simp
      then show "first_buddy k b \<in> block_pages j c"
        using c(2) bd r by (simp add: block_pages_def first_buddy_def)
    qed
    with block_disjoint_or_inside[OF aligned_first_buddy alc \<open>Suc k \<le> j\<close>]
    have "block_pages k b \<subseteq> block_pages j c" using block_first_buddy[OF al] by blast
    moreover have "block_pages k b \<inter> block_pages j c = {}"
      using blocks_ok_disjoint[OF ok b c(1)] False by simp
    ultimately show False using block_nonempty[of b k] by blast
  qed
qed

lemma all_free_coalesced:
  assumes ok: "blocks_ok H F" and all: "free_pages F = {..< 2 ^ H}"
  shows "F H = [0] \<and> (\<forall>k. k \<noteq> H \<longrightarrow> F k = [])"
proof -
  have low: "F k = []" if "k < H" for k
    using that
  proof (induction k rule: less_induct)
    case (less k)
    show ?case
    proof (rule ccontr)
      assume "F k \<noteq> []"
      then obtain b where b: "b \<in> set (F k)" by (cases "F k") auto
      have "buddy k b + 2 ^ k \<le> 2 ^ H" by (rule buddy_within(2)[OF blocks_okD(2,3)[OF ok b] less.prems])
      then have "buddy k b \<in> free_pages F" using all block_less by auto
      with smallest_has_used_buddy[OF ok b less.prems] less.IH less.prems show False by auto
    qed
  qed
  have high: "F k = []" if "H < k" for k
    using blocks_okD(1)[OF ok, of "hd (F k)" k] that by (cases "F k") auto
  have top: "b = 0" if "b \<in> set (F H)" for b using blocks_okD(3)[OF ok that] by simp
  have "F H \<noteq> []"
  proof
    assume "F H = []"
    with low high have "F k = []" for k by (cases k H rule: linorder_cases) auto
    then have "free_pages F = {}" by (simp add: free_pages_def)
    moreover have "(0::nat) \<in> {..< 2 ^ H}" by simp
    ultimately show False using all by blast
  qed
  with top blocks_ok_distinct[OF ok, of H] have "F H = [0]"
    by (cases "F H" rule: remdups_adj.cases) auto
  with low high show ?thesis by (metis linorder_neqE_nat)
qed

end
