(* ===== verification/PageSource.thy ===== *)
theory PageSource
  imports Prelude
begin

text \<open>
  The contract of an allocator of single pages, which a buddy zone provides to its region and a
  region to the memory manager: a page that is handed out was available and no longer is, a request
  is refused only when nothing is available, and a page in use can be returned. What a client may
  conclude for every sequence of calls is proved once.
\<close>

section \<open>Sequences of calls\<close>

text \<open>A client asks for a page, or returns the \<open>i\<close>-th of the pages it holds.\<close>

datatype page_op = GetPage | PutPage nat

fun page_run ::
    "('s \<Rightarrow> (nat ret \<times> 's) run) \<Rightarrow> ('s \<Rightarrow> nat \<Rightarrow> 's run) \<Rightarrow> page_op list \<Rightarrow> nat list \<Rightarrow> 's \<Rightarrow>
     (nat list \<times> 's) run" where
  "page_run alloc free [] held s = Inr (held, s)"
| "page_run alloc free (GetPage # ops) held s =
     bindR (alloc s) (\<lambda>(res, s1).
       page_run alloc free ops (case res of Inl _ \<Rightarrow> held | Inr page \<Rightarrow> page # held) s1)"
| "page_run alloc free (PutPage i # ops) held s =
     (if i < length held
      then bindR (free s (held ! i)) (\<lambda>s1.
             page_run alloc free ops (take i held @ drop (Suc i) held) s1)
      else page_run alloc free ops held s)"

section \<open>The contract\<close>

locale page_source =
  fixes alloc :: "'s \<Rightarrow> (nat ret \<times> 's) run"
    and free :: "'s \<Rightarrow> nat \<Rightarrow> 's run"
    and avail :: "nat set \<Rightarrow> 's \<Rightarrow> nat set \<Rightarrow> bool"
  assumes avail_within: "avail A s V \<Longrightarrow> V \<subseteq> A"
    and alloc_refused: "avail A s {} \<Longrightarrow> alloc s = Inr (Inl ENOMEM, s)"
    and alloc_given: "avail A s V \<Longrightarrow> V \<noteq> {} \<Longrightarrow>
      \<exists>p s'. alloc s = Inr (Inr p, s') \<and> p \<in> V \<and> avail A s' (V - {p})"
    and free_taken: "avail A s V \<Longrightarrow> p \<in> A \<Longrightarrow> p \<notin> V \<Longrightarrow>
      \<exists>s'. free s p = Inr s' \<and> avail A s' (V \<union> {p})"
begin

lemma distinct_drop_nth:
  assumes "distinct xs" "i < length xs"
  shows "distinct (take i xs @ drop (Suc i) xs)"
    "set (take i xs @ drop (Suc i) xs) = set xs - {xs ! i}"
proof -
  from assms(2) have xs: "xs = take i xs @ xs ! i # drop (Suc i) xs" by (rule id_take_nth_drop)
  from assms(1) have "distinct (take i xs @ xs ! i # drop (Suc i) xs)" by (simp only: xs[symmetric])
  then show "distinct (take i xs @ drop (Suc i) xs)" by auto
  have "set xs = set (take i xs) \<union> {xs ! i} \<union> set (drop (Suc i) xs)" by (subst xs) auto
  with \<open>distinct (take i xs @ xs ! i # drop (Suc i) xs)\<close>
  show "set (take i xs @ drop (Suc i) xs) = set xs - {xs ! i}" by auto
qed

lemma page_run_safe:
  assumes "avail A s (A - set held)" "distinct held" "set held \<subseteq> A"
  shows "\<exists>held' s'. page_run alloc free ops held s = Inr (held', s') \<and> distinct held' \<and>
           set held' \<subseteq> A \<and> avail A s' (A - set held')"
  using assms
proof (induction ops arbitrary: held s)
  case (Cons op ops)
  show ?case
  proof (cases op)
    case GetPage
    show ?thesis
    proof (cases "A - set held = {}")
      case True
      with alloc_refused[of A s] Cons.prems Cons.IH[of s held] GetPage show ?thesis by simp
    next
      case False
      from alloc_given[OF Cons.prems(1) False] obtain p s' where
        p: "alloc s = Inr (Inr p, s')" "p \<in> A - set held" "avail A s' (A - set held - {p})" by blast
      have "A - set held - {p} = A - set (p # held)" by auto
      with Cons.IH[of s' "p # held"] p Cons.prems GetPage show ?thesis by simp
    qed
  next
    case (PutPage i)
    show ?thesis
    proof (cases "i < length held")
      case True
      note d = distinct_drop_nth[OF Cons.prems(2) True]
      have mem: "held ! i \<in> A" "held ! i \<notin> A - set held" using True Cons.prems(3) by auto
      from free_taken[OF Cons.prems(1) mem] obtain s' where
        s': "free s (held ! i) = Inr s'" "avail A s' (A - set held \<union> {held ! i})" by blast
      have "A - set held \<union> {held ! i} = A - set (take i held @ drop (Suc i) held)"
        using d(2) mem(1) True by auto
      moreover have "set (take i held @ drop (Suc i) held) \<subseteq> A" using d(2) Cons.prems(3) by blast
      ultimately show ?thesis
        using Cons.IH[of s' "take i held @ drop (Suc i) held"] s' d(1) True PutPage
        by (simp only: page_run.simps if_True bindR_simps)
    next
      case False
      with Cons PutPage show ?thesis by simp
    qed
  qed
qed auto

end

end
