(* ===== verification/BuddyZone.thy ===== *)
theory BuddyZone
  imports Bitmap PhysicalPage BuddyBlocks PageSource
begin

text \<open>
  The buddy allocator of physical pages (\<open>kernel/memory/BuddyZone.{h,cpp}\<close>). A zone of \<open>2 ^ H\<close>
  pages keeps, for each order \<open>k \<le> H\<close>, a doubly linked list of the free blocks of \<open>2 ^ k\<close> pages,
  threaded through the page array, and a bitmap with one bit per pair of buddies. Blocks are
  numbered by their first page relative to the zone, as in the code, with \<open>-1\<close> for none.
\<close>

section \<open>Orders\<close>

text \<open>
  \<open>order_for\<close>: the index of the highest bit, plus one when the number is not a power of two.
  \<open>__builtin_clz(0)\<close> is undefined.
\<close>

fun highest_bit :: "nat \<Rightarrow> nat" where
  "highest_bit n = (if n \<le> 1 then 0 else Suc (highest_bit (n div 2)))"

declare highest_bit.simps [simp del]

definition order_for :: "nat \<Rightarrow> nat run" where
  "order_for num_pages =
     (if num_pages = 0 then Inl Undefined
      else Inr (let hb = highest_bit num_pages in if num_pages - 2 ^ hb \<noteq> 0 then hb + 1 else hb))"

definition size_of_order :: "nat \<Rightarrow> nat" where
  "size_of_order order = 2 ^ order"

definition MAX_ORDER :: nat where
  "MAX_ORDER = 10"

section \<open>State\<close>

record buddy_order =
  bo_order :: nat
  bo_map :: bitmap
  bo_freelist :: int

text \<open>\<open>(size_t) (block_index >> order) / 2\<close>; a negative index becomes a large one.\<close>

definition bit_index :: "buddy_order \<Rightarrow> int \<Rightarrow> nat" where
  "bit_index b block_index = nat (drop_bit (bo_order b) block_index mod 2 ^ 32) div 2"

text \<open>\<open>MIXED\<close> is true, \<open>BOTH\<close> is false.\<close>

definition get_bit :: "buddy_order \<Rightarrow> int \<Rightarrow> bool run" where
  "get_bit b block_index = bm_get (bo_map b) (bit_index b block_index)"

definition set_buddy_bit :: "buddy_order \<Rightarrow> int \<Rightarrow> bool \<Rightarrow> buddy_order run" where
  "set_buddy_bit b block_index val =
     bindR (bm_set (bo_map b) (bit_index b block_index) val) (\<lambda>m. Inr (b\<lparr>bo_map := m\<rparr>))"

record buddy_zone =
  z_orders :: "buddy_order list"
  z_first_page :: nat
  z_highest_order :: nat
  z_num_pages :: nat
  z_free_pages :: nat

definition page_of_block :: "buddy_zone \<Rightarrow> int \<Rightarrow> nat" where
  "page_of_block z index = nat ((int (z_first_page z) + index) mod 2 ^ 32)"

definition contains_page :: "buddy_zone \<Rightarrow> nat \<Rightarrow> bool" where
  "contains_page z page \<longleftrightarrow> page \<ge> z_first_page z \<and> page < z_first_page z + z_num_pages z"

definition put_order :: "buddy_zone \<Rightarrow> nat \<Rightarrow> buddy_order \<Rightarrow> buddy_zone" where
  "put_order z k b = z\<lparr>z_orders := (z_orders z)[k := b]\<rparr>"

section \<open>Construction\<close>

definition order_default :: buddy_order where
  "order_default = \<lparr>bo_order = 0, bo_map = bm_null, bo_freelist = - 1\<rparr>"

text \<open>The body of the constructor's loop for order \<open>i\<close>.\<close>

definition init_order :: "u8 \<Rightarrow> nat \<Rightarrow> nat \<Rightarrow> buddy_order list \<Rightarrow> buddy_order list run" where
  "init_order junk num_pages i orders =
     (let bucket = (orders ! i)\<lparr>bo_order := i\<rparr>;
          num_blocks = num_pages div size_of_order i;
          order_bitmap_size = (num_blocks + 1) div 2
      in if order_bitmap_size \<noteq> 0
         then bindR (bm_new junk order_bitmap_size False) (\<lambda>m.
                Inr (orders[i := bucket\<lparr>bo_map := fst (bm_assign_move (bo_map bucket) m)\<rparr>]))
         else Inr (orders[i := bucket]))"

definition zone_new :: "u8 \<Rightarrow> nat \<Rightarrow> nat \<Rightarrow> buddy_zone run" where
  "zone_new junk first_page num_pages =
     bindR (order_for num_pages) (\<lambda>highest.
       bindR (assertR (size_of_order highest = num_pages)) (\<lambda>_.
         bindR (assertR (highest \<le> MAX_ORDER)) (\<lambda>_.
           bindR (for_run 0 (highest + 1) (init_order junk num_pages)
                    (replicate (MAX_ORDER + 1) order_default)) (\<lambda>orders.
             bindR (set_buddy_bit ((orders ! highest)\<lparr>bo_freelist := 0\<rparr>) 0 True) (\<lambda>top.
               Inr \<lparr>z_orders = orders[highest := top], z_first_page = first_page,
                    z_highest_order = highest, z_num_pages = num_pages,
                    z_free_pages = num_pages\<rparr>)))))"

section \<open>Allocation\<close>

text \<open>
  \<open>alloc_block_internal\<close>. It has no path that returns an error code: it returns a block or
  fails the assertion on the order.
\<close>

function alloc_block_internal ::
    "buddy_zone \<Rightarrow> phys_page list \<Rightarrow> nat \<Rightarrow> (int \<times> buddy_zone \<times> phys_page list) run" where
  "alloc_block_internal z pages order =
     (if \<not> order \<le> z_highest_order z then Inl AssertFailed
      else if bo_freelist (z_orders z ! order) = - 1 then
        bindR (alloc_block_internal z pages (order + 1)) (\<lambda>(higher_order_block, z1, pages1).
          bindR (set_buddy_bit (z_orders z1 ! order) higher_order_block True) (\<lambda>bucket.
            let freelist = higher_order_block + int (size_of_order order) in
            bindR (upd_physical_page pages1 (page_of_block z1 freelist) (set_free_next (- 1))) (\<lambda>pages2.
              bindR (upd_physical_page pages2 (page_of_block z1 freelist) (set_free_prev (- 1))) (\<lambda>pages3.
                Inr (higher_order_block, put_order z1 order (bucket\<lparr>bo_freelist := freelist\<rparr>), pages3)))))
      else
        let bucket = z_orders z ! order; block = bo_freelist bucket in
        bindR (get_bit bucket block) (\<lambda>state.
          bindR (assertR state) (\<lambda>_.
            bindR (set_buddy_bit bucket block False) (\<lambda>bucket1.
              bindR (get_physical_page pages (page_of_block z block)) (\<lambda>page.
                let freelist = free_next page in
                bindR (upd_physical_page pages (page_of_block z freelist) (set_free_prev (- 1))) (\<lambda>pages1.
                  Inr (block, put_order z order (bucket1\<lparr>bo_freelist := freelist\<rparr>), pages1)))))))"
  by pat_completeness auto

termination alloc_block_internal
  by (relation "measure (\<lambda>(z, pages, order). Suc (z_highest_order z) - order)") auto

declare alloc_block_internal.simps [simp del]

definition alloc_block ::
    "buddy_zone \<Rightarrow> phys_page list \<Rightarrow> nat \<Rightarrow> (nat ret \<times> buddy_zone \<times> phys_page list) run" where
  "alloc_block z pages num_pages =
     (if z_free_pages z < num_pages then Inr (Inl ENOMEM, z, pages)
      else
        bindR (order_for num_pages) (\<lambda>order.
          bindR (alloc_block_internal z pages order) (\<lambda>(block_index, z1, pages1).
            Inr (Inr (page_of_block z block_index),
                 z1\<lparr>z_free_pages := z_free_pages z1 - num_pages\<rparr>, pages1))))"

section \<open>Release\<close>

definition remove_from_freelist ::
    "buddy_zone \<Rightarrow> phys_page list \<Rightarrow> int \<Rightarrow> nat \<Rightarrow> (buddy_zone \<times> phys_page list) run" where
  "remove_from_freelist z pages block order =
     bindR (get_physical_page pages (page_of_block z block)) (\<lambda>page.
       bindR (if free_next page \<noteq> - 1
              then upd_physical_page pages (page_of_block z (free_next page)) (set_free_prev (free_prev page))
              else Inr pages) (\<lambda>pages1.
         bindR (get_physical_page pages1 (page_of_block z block)) (\<lambda>page1.
           bindR (if free_prev page1 \<noteq> - 1
                  then upd_physical_page pages1 (page_of_block z (free_prev page1)) (set_free_next (free_next page1))
                  else Inr pages1) (\<lambda>pages2.
             bindR (get_physical_page pages2 (page_of_block z block)) (\<lambda>page2.
               if bo_freelist (z_orders z ! order) = block then
                 bindR (assertR (free_prev page2 = - 1)) (\<lambda>_.
                   Inr (put_order z order ((z_orders z ! order)\<lparr>bo_freelist := free_next page2\<rparr>), pages2))
               else Inr (z, pages2))))))"

lemma remove_from_freelist_highest:
  "remove_from_freelist z pages block order = Inr (z', pages') \<Longrightarrow>
   z_highest_order z' = z_highest_order z"
  unfolding remove_from_freelist_def
  by (elim bindR_InrE, cases "bo_freelist (z_orders z ! order) = block")
    (auto simp: put_order_def)

declare bindR_cong [fundef_cong]

function free_block_internal ::
    "buddy_zone \<Rightarrow> phys_page list \<Rightarrow> int \<Rightarrow> nat \<Rightarrow> (buddy_zone \<times> phys_page list) run" where
  "free_block_internal z pages block order =
     (if \<not> order \<le> z_highest_order z then Inl AssertFailed
      else
        let bucket = z_orders z ! order in
        bindR (get_bit bucket block) (\<lambda>state.
          if state then
            bindR (set_buddy_bit bucket block False) (\<lambda>bucket1.
              let z1 = put_order z order bucket1;
                  first_buddy_index = int (bit_index bucket1 block * 2 * size_of_order order);
                  other = (if block = first_buddy_index
                           then first_buddy_index + int (size_of_order order)
                           else first_buddy_index)
              in bindR (remove_from_freelist z1 pages other order) (\<lambda>(z2, pages1).
                   free_block_internal z2 pages1 first_buddy_index (order + 1)))
          else
            bindR (set_buddy_bit bucket block True) (\<lambda>bucket1.
              bindR (if bo_freelist bucket1 \<noteq> - 1
                     then upd_physical_page pages (page_of_block z (bo_freelist bucket1)) (set_free_prev block)
                     else Inr pages) (\<lambda>pages1.
                bindR (upd_physical_page pages1 (page_of_block z block) (set_free_next (bo_freelist bucket1))) (\<lambda>pages2.
                  bindR (upd_physical_page pages2 (page_of_block z block) (set_free_prev (- 1))) (\<lambda>pages3.
                    Inr (put_order z order (bucket1\<lparr>bo_freelist := block\<rparr>), pages3)))))))"
  by pat_completeness auto

termination free_block_internal
proof (relation "measure (\<lambda>(z, pages, block, order). Suc (z_highest_order z) - order)", goal_cases)
  case (2 z pages block order)
  then show ?case
    by (auto simp: put_order_def dest!: remove_from_freelist_highest)
qed simp

declare free_block_internal.simps [simp del]

definition free_block ::
    "buddy_zone \<Rightarrow> phys_page list \<Rightarrow> nat \<Rightarrow> nat \<Rightarrow> (buddy_zone \<times> phys_page list) run" where
  "free_block z pages start_page num_pages =
     bindR (assertR (start_page \<ge> z_first_page z)) (\<lambda>_.
       bindR (assertR (start_page + num_pages \<le> z_first_page z + z_num_pages z)) (\<lambda>_.
         bindR (order_for num_pages) (\<lambda>order.
           bindR (assertR (size_of_order order = num_pages)) (\<lambda>_.
             bindR (free_block_internal z pages (int start_page - int (z_first_page z)) order) (\<lambda>(z1, pages1).
               Inr (z1\<lparr>z_free_pages := z_free_pages z1 + num_pages\<rparr>, pages1))))))"

section \<open>Linked lists in the page array\<close>

definition link :: "nat list \<Rightarrow> int \<Rightarrow> int" where
  "link xs e = (case xs of [] \<Rightarrow> e | x # _ \<Rightarrow> int x)"

lemma link_simps [simp]: "link [] e = e" "link (x # xs) e = int x"
  by (simp_all add: link_def)

text \<open>\<open>dll nx pv p xs e\<close>: the blocks \<open>xs\<close> are linked in order, between \<open>p\<close> and \<open>e\<close>.\<close>

fun dll :: "(nat \<Rightarrow> int) \<Rightarrow> (nat \<Rightarrow> int) \<Rightarrow> int \<Rightarrow> nat list \<Rightarrow> int \<Rightarrow> bool" where
  "dll nx pv p [] e = True"
| "dll nx pv p (x # xs) e \<longleftrightarrow> pv x = p \<and> nx x = link xs e \<and> dll nx pv (int x) xs e"

lemma dll_cong:
  "(\<And>x. x \<in> set xs \<Longrightarrow> nx x = nx' x \<and> pv x = pv' x) \<Longrightarrow> dll nx pv p xs e = dll nx' pv' p xs e"
  by (induction xs arbitrary: p) auto

lemma dll_append:
  "dll nx pv p (as @ bs) e \<longleftrightarrow>
   dll nx pv p as (link bs e) \<and> dll nx pv (if as = [] then p else int (last as)) bs e"
proof (induction as arbitrary: p)
  case (Cons a as)
  have "link (as @ bs) e = link as (link bs e)" by (cases as) simp_all
  with Cons show ?case by auto
qed simp

lemma dll_head_prev:
  assumes "dll nx pv p xs e" "distinct xs" "\<And>x. x \<in> set xs \<Longrightarrow> nx' x = nx x"
    and "\<And>x. x \<in> set xs \<Longrightarrow> pv' x = (if x = hd xs then q else pv x)"
  shows "dll nx' pv' q xs e"
proof (cases xs)
  case (Cons y ys)
  with assms have "dll nx pv (int y) ys e" by simp
  moreover have "dll nx' pv' (int y) ys e = dll nx pv (int y) ys e"
    by (rule dll_cong) (use assms Cons in auto)
  ultimately show ?thesis using assms Cons by simp
qed simp

lemma dll_last_next:
  assumes "dll nx pv p xs e" "distinct xs" "\<And>x. x \<in> set xs \<Longrightarrow> pv' x = pv x"
    and "\<And>x. x \<in> set xs \<Longrightarrow> nx' x = (if x = last xs then f else nx x)"
  shows "dll nx' pv' p xs f"
  using assms
proof (induction xs arbitrary: p)
  case (Cons y ys)
  show ?case
  proof (cases "ys = []")
    case False
    then have ny: "last ys \<noteq> y" using Cons.prems(2) by auto
    have "dll nx' pv' (int y) ys f"
      by (rule Cons.IH) (use Cons.prems False in auto)
    moreover have "link ys e = link ys f" using False by (cases ys) simp_all
    ultimately show ?thesis using Cons.prems False ny by (auto split: if_splits)
  qed (use Cons.prems in simp)
qed simp

text \<open>Unlinking an element in the middle, at the head or at the end.\<close>

lemma dll_remove:
  assumes "dll nx pv (- 1) (as @ b # bs) (- 1)" "distinct (as @ b # bs)"
    and nx': "nx' = (if as = [] then nx else nx(last as := link bs (- 1)))"
    and pv': "pv' = (if bs = [] then pv else pv(hd bs := (if as = [] then - 1 else int (last as))))"
  shows "dll nx' pv' (- 1) (as @ bs) (- 1)"
proof -
  let ?q = "if as = [] then - 1 else int (last as)"
  from assms(1) have a: "dll nx pv (- 1) as (int b)" and bs: "dll nx pv (int b) bs (- 1)"
    by (simp_all add: dll_append)
  have la: "as \<noteq> [] \<Longrightarrow> last as \<notin> set bs" and hb: "bs \<noteq> [] \<Longrightarrow> hd bs \<notin> set as"
    using assms(2) last_in_set[of as] hd_in_set[of bs] by (auto simp: disjoint_iff)
  have "dll nx' pv' (- 1) as (link bs (- 1))"
    by (rule dll_last_next[OF a]) (use assms(2) hb in \<open>auto simp: nx' pv'\<close>)
  moreover have "dll nx' pv' ?q bs (- 1)"
    by (rule dll_head_prev[OF bs]) (use assms(2) la in \<open>auto simp: nx' pv'\<close>)
  ultimately show ?thesis by (simp add: dll_append)
qed

section \<open>Zones and free lists\<close>

definition nx :: "buddy_zone \<Rightarrow> phys_page list \<Rightarrow> nat \<Rightarrow> int" where
  "nx z pages b = free_next (pages ! (z_first_page z + b))"

definition pv :: "buddy_zone \<Rightarrow> phys_page list \<Rightarrow> nat \<Rightarrow> int" where
  "pv z pages b = free_prev (pages ! (z_first_page z + b))"

definition bits_rep :: "nat \<Rightarrow> nat \<Rightarrow> bitmap \<Rightarrow> nat list \<Rightarrow> bool" where
  "bits_rep H k m xs \<longleftrightarrow> (2 ^ (H - k) + 1) div 2 \<le> bm_cap m \<and>
     (\<forall>b. aligned k b \<longrightarrow> b < 2 ^ H \<longrightarrow>
        bm_val m (pair_index k b) = ((b \<in> set xs) \<noteq> (buddy k b \<in> set xs)))"

definition order_rep ::
    "nat \<Rightarrow> (nat \<Rightarrow> int) \<Rightarrow> (nat \<Rightarrow> int) \<Rightarrow> nat \<Rightarrow> buddy_order \<Rightarrow> nat list \<Rightarrow> bool" where
  "order_rep H n p k bo xs \<longleftrightarrow> bo_order bo = k \<and> bo_freelist bo = link xs (- 1) \<and>
     dll n p (- 1) xs (- 1) \<and> bits_rep H k (bo_map bo) xs"

text \<open>
  The zone's pages are in the page array, which also has the page before the zone: emptying a free
  list writes there.
\<close>

definition zone_frame :: "buddy_zone \<Rightarrow> phys_page list \<Rightarrow> bool" where
  "zone_frame z pages \<longleftrightarrow> length (z_orders z) = MAX_ORDER + 1 \<and> z_highest_order z \<le> MAX_ORDER \<and>
     z_num_pages z = 2 ^ z_highest_order z \<and> 0 < z_first_page z \<and>
     z_first_page z + 2 ^ z_highest_order z \<le> length pages \<and> length pages < 2 ^ 32"

definition zone_rep :: "buddy_zone \<Rightarrow> phys_page list \<Rightarrow> freelists \<Rightarrow> bool" where
  "zone_rep z pages F \<longleftrightarrow> zone_frame z pages \<and> blocks_ok (z_highest_order z) F \<and>
     (\<forall>k \<le> z_highest_order z. order_rep (z_highest_order z) (nx z pages) (pv z pages) k (z_orders z ! k) (F k))"

text \<open>What an operation keeps of the page array: the pages outside the zone, but for the high half
  of the page before it.\<close>

definition outside :: "buddy_zone \<Rightarrow> phys_page list \<Rightarrow> phys_page list \<Rightarrow> bool" where
  "outside z pages pages' \<longleftrightarrow> length pages' = length pages \<and>
     (\<forall>i. i < z_first_page z \<or> z_first_page z + 2 ^ z_highest_order z \<le> i \<longrightarrow>
        pp_lo (pages' ! i) = pp_lo (pages ! i) \<and> (i + 1 \<noteq> z_first_page z \<longrightarrow> pages' ! i = pages ! i))"

definition zone_same :: "buddy_zone \<Rightarrow> buddy_zone \<Rightarrow> bool" where
  "zone_same z z' \<longleftrightarrow> z_first_page z' = z_first_page z \<and> z_highest_order z' = z_highest_order z \<and>
     z_num_pages z' = z_num_pages z \<and> z_free_pages z' = z_free_pages z"

lemma zone_same_refl [simp]: "zone_same z z"
  by (simp add: zone_same_def)

lemma zone_same_trans: "zone_same x y \<Longrightarrow> zone_same y z \<Longrightarrow> zone_same x z"
  by (simp add: zone_same_def)

lemma zone_same_put_order [simp]: "zone_same z (put_order z' k b) = zone_same z z'"
  by (simp add: zone_same_def put_order_def)

text \<open>Releasing a block touches no page outside the zone.\<close>

definition untouched :: "buddy_zone \<Rightarrow> phys_page list \<Rightarrow> phys_page list \<Rightarrow> bool" where
  "untouched z pages pages' \<longleftrightarrow> length pages' = length pages \<and>
     (\<forall>i. i < z_first_page z \<or> z_first_page z + 2 ^ z_highest_order z \<le> i \<longrightarrow> pages' ! i = pages ! i)"

lemma untouched_refl [simp]: "untouched z pages pages"
  by (simp add: untouched_def)

lemma untouched_trans: "untouched z a b \<Longrightarrow> untouched z b c \<Longrightarrow> untouched z a c"
  by (simp add: untouched_def)

lemma untouched_same: "zone_same z z' \<Longrightarrow> untouched z' a b = untouched z a b"
  by (simp add: untouched_def zone_same_def)

lemma untouched_outside: "untouched z a b \<Longrightarrow> outside z a b"
  by (simp add: untouched_def outside_def)

lemma outside_refl [simp]: "outside z pages pages"
  by (simp add: outside_def)

lemma outside_trans: "outside z a b \<Longrightarrow> outside z b c \<Longrightarrow> outside z a c"
  by (simp add: outside_def)

lemma outside_same: "zone_same z z' \<Longrightarrow> outside z' a b = outside z a b"
  by (simp add: outside_def zone_same_def)

lemma put_order_simps [simp]:
  "z_first_page (put_order z k b) = z_first_page z"
  "z_highest_order (put_order z k b) = z_highest_order z"
  "nx (put_order z k b) = nx z" "pv (put_order z k b) = pv z"
  "page_of_block (put_order z k b) = page_of_block z"
  "zone_frame (put_order z k b) pages = zone_frame z pages"
  by (simp_all add: put_order_def nx_def pv_def fun_eq_iff page_of_block_def zone_frame_def)

section \<open>The primitives on a represented zone\<close>

lemma zone_frameD:
  assumes "zone_frame z pages" "b < 2 ^ z_highest_order z"
  shows "page_of_block z (int b) = z_first_page z + b" "z_first_page z + b < length pages"
    "b < 2 ^ 10"
proof -
  have "(2::nat) ^ z_highest_order z \<le> 2 ^ 10"
    using assms(1) by (intro power_increasing) (simp_all add: zone_frame_def MAX_ORDER_def)
  with assms(2) show "b < 2 ^ 10" by simp
  show "z_first_page z + b < length pages" using assms by (simp add: zone_frame_def)
  moreover from this assms(1) have "z_first_page z + b < 2 ^ 32" by (simp add: zone_frame_def)
  ultimately show "page_of_block z (int b) = z_first_page z + b"
    by (simp add: page_of_block_def nat_int_add flip: of_nat_add)
qed

lemma page_before_zone:
  assumes "zone_frame z pages"
  shows "page_of_block z (- 1) = z_first_page z - 1" "z_first_page z - 1 < length pages"
proof -
  from assms have "0 < z_first_page z" "z_first_page z - 1 < 2 ^ 32" "z_first_page z \<le> length pages"
    by (auto simp: zone_frame_def)
  then show "page_of_block z (- 1) = z_first_page z - 1" "z_first_page z - 1 < length pages"
    by (auto simp: page_of_block_def of_nat_diff)
qed

lemma nx_upd:
  assumes "zone_frame z pages" "b < 2 ^ z_highest_order z" "- 1 \<le> v" "v < 2 ^ 10"
  shows "nx z (pages[z_first_page z + b := set_free_next v p]) = (nx z pages)(b := v)"
    and "nx z (pages[z_first_page z + b := set_free_prev v (pages ! (z_first_page z + b))]) = nx z pages"
    and "pv z (pages[z_first_page z + b := set_free_prev v p]) = (pv z pages)(b := v)"
    and "pv z (pages[z_first_page z + b := set_free_next v (pages ! (z_first_page z + b))]) = pv z pages"
proof -
  have v: "- (2 ^ 15) \<le> v" "v < 2 ^ 15" using assms(3,4) by simp_all
  have lt: "z_first_page z + b < length pages" using zone_frameD[OF assms(1,2)] by simp
  then have nth: "pages[z_first_page z + b := q] ! (z_first_page z + c) =
      (if c = b then q else pages ! (z_first_page z + c))" for q c
    by (cases "c = b") simp_all
  show "nx z (pages[z_first_page z + b := set_free_next v p]) = (nx z pages)(b := v)"
    "nx z (pages[z_first_page z + b := set_free_prev v (pages ! (z_first_page z + b))]) = nx z pages"
    "pv z (pages[z_first_page z + b := set_free_prev v p]) = (pv z pages)(b := v)"
    "pv z (pages[z_first_page z + b := set_free_next v (pages ! (z_first_page z + b))]) = pv z pages"
    using v by (auto simp: nx_def pv_def fun_eq_iff nth)
qed

lemma zone_frame_length: "zone_frame z pages \<Longrightarrow> length pages' = length pages \<Longrightarrow> zone_frame z pages'"
  by (simp add: zone_frame_def)

text \<open>Writing a link of a block of the zone.\<close>

lemma write_next:
  assumes "zone_frame z pages" "b < 2 ^ z_highest_order z" "- 1 \<le> v" "v < 2 ^ 10"
  shows "\<exists>pages'. upd_physical_page pages (page_of_block z (int b)) (set_free_next v) = Inr pages' \<and>
     zone_frame z pages' \<and> untouched z pages pages' \<and>
     nx z pages' = (nx z pages)(b := v) \<and> pv z pages' = pv z pages"
  using zone_frameD[OF assms(1,2)] nx_upd[OF assms] assms(1,2)
  by (simp add: untouched_def zone_frame_def)

lemma write_prev:
  assumes "zone_frame z pages" "b < 2 ^ z_highest_order z" "- 1 \<le> v" "v < 2 ^ 10"
  shows "\<exists>pages'. upd_physical_page pages (page_of_block z (int b)) (set_free_prev v) = Inr pages' \<and>
     zone_frame z pages' \<and> untouched z pages pages' \<and>
     nx z pages' = nx z pages \<and> pv z pages' = (pv z pages)(b := v)"
  using zone_frameD[OF assms(1,2)] nx_upd[OF assms] assms(1,2)
  by (simp add: untouched_def zone_frame_def)

text \<open>Writing \<open>free.prev\<close> of block \<open>-1\<close> changes the page before the zone and no block.\<close>

lemma write_prev_none:
  assumes "zone_frame z pages"
  shows "\<exists>pages'. upd_physical_page pages (page_of_block z (- 1)) (set_free_prev (- 1)) = Inr pages' \<and>
     zone_frame z pages' \<and> outside z pages pages' \<and> nx z pages' = nx z pages \<and> pv z pages' = pv z pages"
proof -
  let ?i = "z_first_page z - 1"
  let ?p = "pages[?i := set_free_prev (- 1) (pages ! ?i)]"
  note pb = page_before_zone[OF assms]
  have pos: "0 < z_first_page z" using assms by (simp add: zone_frame_def)
  have "outside z pages ?p"
    using pb pos by (auto simp: outside_def nth_list_update set_free_prev_def)
  moreover have "nx z ?p = nx z pages" "pv z ?p = pv z pages"
    using pos by (auto simp: nx_def pv_def fun_eq_iff)
  ultimately show ?thesis using pb assms by (simp add: zone_frame_def)
qed

lemma bit_index_pair:
  assumes "bo_order bo = k" "b < 2 ^ 10"
  shows "bit_index bo (int b) = pair_index k b"
proof -
  define x where "x = b div 2 ^ k"
  have "x \<le> b" by (simp add: x_def)
  then have "int x mod 2 ^ 32 = int x" using assms(2) by simp
  moreover have "drop_bit k (int b) = int x" by (simp add: x_def drop_bit_eq_div zdiv_int)
  ultimately show ?thesis using assms(1) by (simp add: bit_index_def pair_index_def x_def[symmetric])
qed

lemma pair_index_cap:
  assumes "k \<le> H" "b < 2 ^ H" "(2 ^ (H - k) + 1) div 2 \<le> c"
  shows "pair_index k b < c"
proof -
  have "b div 2 ^ k < 2 ^ (H - k)"
    using assms(1,2) by (simp add: less_mult_imp_div_less flip: power_add)
  then have "pair_index k b < (2 ^ (H - k) + 1) div 2" by (simp add: pair_index_def)
  with assms(3) show ?thesis by simp
qed

lemma get_bit_rep:
  assumes "bits_rep H k (bo_map bo) xs" "bo_order bo = k" "k \<le> H" "H \<le> 10" "aligned k b" "b < 2 ^ H"
  shows "get_bit bo (int b) = Inr ((b \<in> set xs) \<noteq> (buddy k b \<in> set xs))"
proof -
  have b: "b < 2 ^ 10" using assms(4,6) power_increasing[of H 10 "2::nat"] by simp
  have "pair_index k b < bm_cap (bo_map bo)"
    using assms by (intro pair_index_cap[of k H]) (simp_all add: bits_rep_def)
  with assms b show ?thesis
    by (simp add: get_bit_def bit_index_pair bm.get_val bits_rep_def)
qed

lemma set_bit_rep:
  assumes "bits_rep H k (bo_map bo) xs" "bo_order bo = k" "k \<le> H" "H \<le> 10" "aligned k b" "b < 2 ^ H"
    and same: "\<And>c. c \<noteq> b \<Longrightarrow> c \<noteq> buddy k b \<Longrightarrow> c \<in> set ys \<longleftrightarrow> c \<in> set xs"
    and v: "v = ((b \<in> set ys) \<noteq> (buddy k b \<in> set ys))"
  shows "\<exists>m. set_buddy_bit bo (int b) v = Inr (bo\<lparr>bo_map := m\<rparr>) \<and> bits_rep H k m ys"
proof -
  have b: "b < 2 ^ 10" using assms(4,6) power_increasing[of H 10 "2::nat"] by simp
  have cap: "pair_index k c < bm_cap (bo_map bo)" if "c < 2 ^ H" for c
    using assms that by (intro pair_index_cap[of k H]) (simp_all add: bits_rep_def)
  from bm.set_val[OF cap[OF assms(6)], of v] obtain m where
    m: "bm_set (bo_map bo) (pair_index k b) v = Inr m" "bm_cap m = bm_cap (bo_map bo)"
      "\<And>j. j < bm_cap (bo_map bo) \<Longrightarrow> bm_val m j = (if j = pair_index k b then v else bm_val (bo_map bo) j)"
    by blast
  have "bm_val m (pair_index k c) = ((c \<in> set ys) \<noteq> (buddy k c \<in> set ys))"
    if c: "aligned k c" "c < 2 ^ H" for c
  proof (cases "pair_index k c = pair_index k b")
    case True
    with same_pair[OF assms(5) c(1)] have "c = b \<or> c = buddy k b" by simp
    with m(3)[OF cap[OF c(2)]] True v buddy_buddy[OF assms(5)] show ?thesis by auto
  next
    case False
    then have "c \<noteq> b" "c \<noteq> buddy k b" "buddy k c \<noteq> b" "buddy k c \<noteq> buddy k b"
      using pair_index_buddy[OF assms(5)] pair_index_buddy[OF c(1)] by metis+
    with same m(3)[OF cap[OF c(2)]] False c assms(1) show ?thesis by (simp add: bits_rep_def)
  qed
  with m(1,2) assms(1,2) b show ?thesis
    by (intro exI[of _ m]) (simp add: set_buddy_bit_def bit_index_pair bits_rep_def)
qed

text \<open>
  Changing the list of one order: the new bucket represents the new list, the links of the blocks
  of the other orders are as before.
\<close>

lemma zone_rep_order:
  assumes "zone_rep z pages F" "k \<le> z_highest_order z"
  shows "order_rep (z_highest_order z) (nx z pages) (pv z pages) k (z_orders z ! k) (F k)"
  using assms by (simp add: zone_rep_def)

lemma zone_rep_put:
  assumes rep: "zone_rep z pages F" and k: "k \<le> z_highest_order z"
    and frame: "zone_frame z pages'" and ok: "blocks_ok (z_highest_order z) (F(k := ys))"
    and new: "order_rep (z_highest_order z) (nx z pages') (pv z pages') k bo ys"
    and same: "\<And>j c. j \<noteq> k \<Longrightarrow> c \<in> set (F j) \<Longrightarrow> nx z pages' c = nx z pages c \<and> pv z pages' c = pv z pages c"
  shows "zone_rep (put_order z k bo) pages' (F(k := ys))"
proof -
  have len: "k < length (z_orders z)" using k frame by (simp add: zone_frame_def)
  have "order_rep (z_highest_order z) (nx z pages') (pv z pages') j (z_orders z ! j) (F j)"
    if "j \<le> z_highest_order z" "j \<noteq> k" for j
  proof -
    have "dll (nx z pages') (pv z pages') (- 1) (F j) (- 1) = dll (nx z pages) (pv z pages) (- 1) (F j) (- 1)"
      by (rule dll_cong) (rule same[OF that(2)])
    with zone_rep_order[OF rep that(1)] show ?thesis by (simp add: order_rep_def)
  qed
  then have "order_rep (z_highest_order z) (nx z pages') (pv z pages') j
      (z_orders (put_order z k bo) ! j) ((F(k := ys)) j)" if "j \<le> z_highest_order z" for j
    using that new len by (cases "j = k") (simp_all add: put_order_def)
  with frame ok show ?thesis by (simp add: zone_rep_def)
qed

section \<open>Allocation is correct\<close>

text \<open>The head of a list, or the page before the zone for an empty list, gets \<open>prev = -1\<close>.\<close>

lemma write_prev_link:
  assumes "zone_frame z pages" "\<And>y. y \<in> set xs \<Longrightarrow> y < 2 ^ z_highest_order z"
  shows "\<exists>pages'. upd_physical_page pages (page_of_block z (link xs (- 1))) (set_free_prev (- 1)) = Inr pages' \<and>
      zone_frame z pages' \<and> outside z pages pages' \<and> nx z pages' = nx z pages \<and>
      pv z pages' = (if xs = [] then pv z pages else (pv z pages)(hd xs := - 1))"
proof (cases xs)
  case Nil
  then show ?thesis using write_prev_none[OF assms(1)] by simp
next
  case (Cons y ys)
  with assms write_prev[OF assms(1), of y "- 1"] show ?thesis by (auto intro: untouched_outside)
qed

lemma zone_repD:
  assumes "zone_rep z pages F"
  shows "zone_frame z pages" "blocks_ok (z_highest_order z) F" "z_highest_order z \<le> 10"
  using assms by (simp_all add: zone_rep_def zone_frame_def MAX_ORDER_def)

lemma alloc_head:
  assumes rep: "zone_rep z pages F" and k: "k \<le> z_highest_order z" and F: "F k = b # xs"
  shows "\<exists>z' pages'. alloc_block_internal z pages k = Inr (int b, z', pages') \<and>
     zone_rep z' pages' (F(k := xs)) \<and> zone_same z z' \<and> outside z pages pages'"
proof -
  let ?H = "z_highest_order z" and ?bo = "z_orders z ! k"
  note frame = zone_repD(1)[OF rep] and ok = zone_repD(2)[OF rep] and H = zone_repD(3)[OF rep]
  from zone_rep_order[OF rep k] F have bo: "bo_order ?bo = k" "bo_freelist ?bo = int b"
    "dll (nx z pages) (pv z pages) (- 1) (b # xs) (- 1)" "bits_rep ?H k (bo_map ?bo) (b # xs)"
    by (simp_all add: order_rep_def)
  have mem: "b \<in> set (F k)" "\<And>y. y \<in> set xs \<Longrightarrow> y \<in> set (F k)" using F by simp_all
  note b = blocks_okD[where k = k and b = b, OF ok mem(1)]
  note blt = block_less[OF b(3)]
  have dist: "distinct (b # xs)" using blocks_ok_distinct[OF ok, of k] F by simp
  have get: "get_bit ?bo (int b) = Inr True"
    using get_bit_rep[OF bo(4,1) k H b(2) blt] b(4) F by simp
  have nb: "buddy k b \<notin> set xs" using b(4) F by simp
  from set_bit_rep[OF bo(4,1) k H b(2) blt, of xs False] dist nb obtain m where
    m: "set_buddy_bit ?bo (int b) False = Inr (?bo\<lparr>bo_map := m\<rparr>)" "bits_rep ?H k m xs" by auto
  have nxt: "free_next (pages ! (z_first_page z + b)) = link xs (- 1)" using bo(3) by (simp add: nx_def)
  from write_prev_link[OF frame, of xs] free_block_less[where k = k, OF ok mem(2)] obtain pages' where
    p': "upd_physical_page pages (page_of_block z (link xs (- 1))) (set_free_prev (- 1)) = Inr pages'"
      "zone_frame z pages'" "outside z pages pages'" "nx z pages' = nx z pages"
      "pv z pages' = (if xs = [] then pv z pages else (pv z pages)(hd xs := - 1))" by blast
  let ?z = "put_order z k (?bo\<lparr>bo_map := m, bo_freelist := link xs (- 1)\<rparr>)"
  have "alloc_block_internal z pages k = Inr (int b, ?z, pages')"
    using k bo(2) get m(1) zone_frameD[OF frame blt] nxt p'(1)
    by (subst alloc_block_internal.simps) (simp add: Let_def)
  moreover have "zone_rep ?z pages' (F(k := xs))"
  proof (rule zone_rep_put[OF rep k p'(2)])
    show "blocks_ok ?H (F(k := xs))" using remove_block_ok(1)[where k = k and b = b, OF ok mem(1)] F by simp
    have "dll (nx z pages') (pv z pages') (- 1) xs (- 1)"
      by (rule dll_head_prev) (use bo(3) dist p'(4,5) in auto)
    then show "order_rep ?H (nx z pages') (pv z pages') k (?bo\<lparr>bo_map := m, bo_freelist := link xs (- 1)\<rparr>) xs"
      using bo(1) m(2) by (simp add: order_rep_def)
    fix j c assume j: "j \<noteq> k" "c \<in> set (F j)"
    have "c \<noteq> hd xs" if "xs \<noteq> []"
      using that other_order_block[where k = k and j = j, OF ok mem(2) j(2,1)] by simp
    with p'(4,5) show "nx z pages' c = nx z pages c \<and> pv z pages' c = pv z pages c" by auto
  qed
  ultimately show ?thesis using p'(3) by (intro exI conjI) auto
qed

text \<open>Taking the only block of a free list writes to the page before the zone.\<close>

lemma alloc_last_block:
  assumes rep: "zone_rep z pages F" and k: "k \<le> z_highest_order z" and F: "F k = [b]"
  shows "\<exists>z'. alloc_block_internal z pages k =
     Inr (int b, z', pages[z_first_page z - 1 := set_free_prev (- 1) (pages ! (z_first_page z - 1))])"
proof -
  let ?bo = "z_orders z ! k"
  note frame = zone_repD(1)[OF rep] and ok = zone_repD(2)[OF rep] and H = zone_repD(3)[OF rep]
  from zone_rep_order[OF rep k] F have bo: "bo_order ?bo = k" "bo_freelist ?bo = int b"
    "nx z pages b = - 1" "bits_rep (z_highest_order z) k (bo_map ?bo) [b]" by (simp_all add: order_rep_def)
  have mem: "b \<in> set (F k)" using F by simp
  note b = blocks_okD[where k = k and b = b, OF ok mem]
  note blt = block_less[OF b(3)]
  have get: "get_bit ?bo (int b) = Inr True"
    using get_bit_rep[OF bo(4,1) k H b(2) blt] b(4) F by simp
  from set_bit_rep[OF bo(4,1) k H b(2) blt, of "[]" False] obtain m where
    m: "set_buddy_bit ?bo (int b) False = Inr (?bo\<lparr>bo_map := m\<rparr>)" by auto
  show ?thesis
    using k bo(2,3) get m zone_frameD[OF frame blt] page_before_zone[OF frame]
    by (subst alloc_block_internal.simps) (simp add: Let_def nx_def)
qed

text \<open>Splitting a block \<open>b\<close> of the next order: its second half becomes the free list of the order.\<close>

lemma alloc_split:
  assumes k: "k \<le> z_highest_order z" and none: "bo_freelist (z_orders z ! k) = - 1"
    and up: "alloc_block_internal z pages (Suc k) = Inr (int b, z1, pages1)"
    and rep: "zone_rep z1 pages1 F" and z1: "zone_same z z1" and F: "F k = []"
    and b: "aligned (Suc k) b" "b + 2 ^ Suc k \<le> 2 ^ z_highest_order z"
      "block_pages (Suc k) b \<inter> free_pages F = {}"
  shows "\<exists>z' pages'. alloc_block_internal z pages k = Inr (int b, z', pages') \<and>
     zone_rep z' pages' (F(k := [b + 2 ^ k])) \<and> zone_same z z' \<and> outside z pages1 pages' \<and>
     free_pages (F(k := [b + 2 ^ k])) = free_pages F \<union> block_pages k (b + 2 ^ k)"
proof -
  let ?H = "z_highest_order z1" and ?bo = "z_orders z1 ! k" and ?c = "b + 2 ^ k"
  have Heq: "z_highest_order z = ?H" using z1 by (simp add: zone_same_def)
  note k = k[unfolded Heq] and b = b[unfolded Heq]
  note frame = zone_repD(1)[OF rep] and ok = zone_repD(2)[OF rep] and H = zone_repD(3)[OF rep]
  from zone_rep_order[OF rep k] F have bo: "bo_order ?bo = k" "bits_rep ?H k (bo_map ?bo) []"
    by (simp_all add: order_rep_def)
  note al = aligned_down[OF b(1)] and sp = split_block[OF b(1)]
  have alc: "aligned k ?c" using aligned_buddy[OF al] sp(1) by simp
  have lt: "b < 2 ^ ?H" "?c < 2 ^ ?H" "?c + 2 ^ k \<le> 2 ^ ?H"
    using b(2) block_less[of ?c k ?H] by auto
  have "b \<noteq> ?c" "buddy k b = ?c" using sp(1) by auto
  then obtain m where
    m: "set_buddy_bit ?bo (int b) True = Inr (?bo\<lparr>bo_map := m\<rparr>)" "bits_rep ?H k m [?c]"
    using set_bit_rep[OF bo(2,1) k H al lt(1), of "[?c]" True] by auto
  from write_next[OF frame lt(2), of "- 1"] obtain p2 where
    p2: "upd_physical_page pages1 (page_of_block z1 (int ?c)) (set_free_next (- 1)) = Inr p2"
      "zone_frame z1 p2" "untouched z1 pages1 p2" "nx z1 p2 = (nx z1 pages1)(?c := - 1)" "pv z1 p2 = pv z1 pages1"
    by auto
  from write_prev[OF p2(2) lt(2), of "- 1"] obtain p3 where
    p3: "upd_physical_page p2 (page_of_block z1 (int ?c)) (set_free_prev (- 1)) = Inr p3"
      "zone_frame z1 p3" "untouched z1 p2 p3" "nx z1 p3 = nx z1 p2" "pv z1 p3 = (pv z1 p2)(?c := - 1)"
    by auto
  let ?z = "put_order z1 k (?bo\<lparr>bo_map := m, bo_freelist := int ?c\<rparr>)"
  have disj: "block_pages k ?c \<inter> free_pages F = {}" using b(3) sp(3) by blast
  have bud: "buddy k ?c \<notin> set (F k)" using F by simp
  note add = add_block_ok[where k = k, OF ok k alc lt(3) disj bud, unfolded F]
  have "alloc_block_internal z pages k = Inr (int b, ?z, p3)"
    using k none up m(1) p2(1) p3(1) Heq
    by (subst alloc_block_internal.simps) (simp add: Let_def size_of_order_def)
  moreover have "zone_rep ?z p3 (F(k := [?c]))"
  proof (rule zone_rep_put[OF rep k p3(2) add(1)])
    show "order_rep ?H (nx z1 p3) (pv z1 p3) k (?bo\<lparr>bo_map := m, bo_freelist := int ?c\<rparr>) [?c]"
      using bo(1) m(2) p2(4) p3(4,5) by (simp add: order_rep_def)
    fix j x assume "j \<noteq> k" "x \<in> set (F j)"
    then have "x \<noteq> ?c" using block_in_free[of x F j] block_nonempty[of x j] disj block_nonempty[of ?c k] by blast
    then show "nx z1 p3 x = nx z1 pages1 x \<and> pv z1 p3 x = pv z1 pages1 x"
      using p2(4,5) p3(4,5) by simp
  qed
  moreover have "outside z pages1 p3"
    using untouched_outside[OF untouched_trans[OF p2(3) p3(3)]] outside_same[OF z1] by simp
  moreover have "zone_same z ?z" using z1 by simp
  ultimately show ?thesis using add(2) by blast
qed

lemma alloc_nonempty:
  assumes rep: "zone_rep z pages F" and ne: "F k \<noteq> []"
  shows "\<exists>b z' pages' F'. alloc_block_internal z pages k = Inr (int b, z', pages') \<and>
     zone_rep z' pages' F' \<and> zone_same z z' \<and> outside z pages pages' \<and>
     (\<forall>i < k. F' i = F i) \<and> aligned k b \<and> b + 2 ^ k \<le> 2 ^ z_highest_order z \<and>
     block_pages k b \<subseteq> free_pages F \<and> free_pages F' = free_pages F - block_pages k b"
proof -
  obtain b xs where F: "F k = b # xs" using ne by (cases "F k") simp_all
  then have mem: "b \<in> set (F k)" and rem: "remove1 b (F k) = xs" by simp_all
  note ok = zone_repD(2)[OF rep]
  note b = blocks_okD[where k = k and b = b, OF ok mem]
  from alloc_head[OF rep b(1) F] obtain z' pages' where
    *: "alloc_block_internal z pages k = Inr (int b, z', pages')" "zone_rep z' pages' (F(k := xs))"
      "zone_same z z'" "outside z pages pages'" by blast
  have "\<forall>i < k. (F(k := xs)) i = F i" by simp
  with * b remove_block_ok(2)[where k = k and b = b, OF ok mem, unfolded rem]
    block_in_free[of b F k, OF mem] show ?thesis by blast
qed

lemma alloc_internal_spec:
  assumes "zone_rep z pages F" "k \<le> j" "F j \<noteq> []"
  shows "\<exists>b z' pages' F'. alloc_block_internal z pages k = Inr (int b, z', pages') \<and>
     zone_rep z' pages' F' \<and> zone_same z z' \<and> outside z pages pages' \<and>
     (\<forall>i < k. F' i = F i) \<and> aligned k b \<and> b + 2 ^ k \<le> 2 ^ z_highest_order z \<and>
     block_pages k b \<subseteq> free_pages F \<and> free_pages F' = free_pages F - block_pages k b"
  using assms
proof (induction "j - k" arbitrary: k)
  case 0
  then show ?case using alloc_nonempty[of z pages F k] by simp
next
  case rec: (Suc d k)
  note ok = zone_repD(2)[OF rec.prems(1)]
  have jH: "j \<le> z_highest_order z" using rec.prems(3) blocks_okD(1)[where k = j and b = "hd (F j)", OF ok] by simp
  have kH: "k \<le> z_highest_order z" using jH rec.prems(2) by simp
  show ?case
  proof (cases "F k = []")
    case False
    then show ?thesis by (rule alloc_nonempty[OF rec.prems(1)])
  next
    case Nil: True
    have "d = j - Suc k" "Suc k \<le> j" using rec.hyps(2) rec.prems(2) by simp_all
    from rec.hyps(1)[OF this(1) rec.prems(1) this(2) rec.prems(3)] obtain b z1 p1 F1 where
      1: "alloc_block_internal z pages (Suc k) = Inr (int b, z1, p1)" "zone_rep z1 p1 F1" "zone_same z z1"
        "outside z pages p1" "\<And>i. i < Suc k \<Longrightarrow> F1 i = F i" "aligned (Suc k) b"
        "b + 2 ^ Suc k \<le> 2 ^ z_highest_order z" "block_pages (Suc k) b \<subseteq> free_pages F"
        "free_pages F1 = free_pages F - block_pages (Suc k) b" by blast
    have none: "bo_freelist (z_orders z ! k) = - 1"
      using zone_rep_order[OF rec.prems(1) kH] Nil by (simp add: order_rep_def)
    have F1: "F1 k = []" using 1(5)[of k] Nil by simp
    have disj: "block_pages (Suc k) b \<inter> free_pages F1 = {}" using 1(9) by blast
    from alloc_split[OF kH none 1(1-3) F1 1(6,7) disj] obtain z' pages' where
      2: "alloc_block_internal z pages k = Inr (int b, z', pages')"
        "zone_rep z' pages' (F1(k := [b + 2 ^ k]))" "zone_same z z'" "outside z p1 pages'"
        "free_pages (F1(k := [b + 2 ^ k])) = free_pages F1 \<union> block_pages k (b + 2 ^ k)" by blast
    have "free_pages (F1(k := [b + 2 ^ k])) = free_pages F - block_pages k b"
      using 1(8,9) 2(5) split_block(3)[OF 1(6)] by (auto simp: block_pages_def)
    moreover have "\<forall>i < k. (F1(k := [b + 2 ^ k])) i = F i" using 1(5) by simp
    moreover have "block_pages k b \<subseteq> free_pages F" using 1(8) split_block(3)[OF 1(6)] by blast
    ultimately show ?thesis
      using 2(1-3) outside_trans[OF 1(4) 2(4)] aligned_down[OF 1(6)] 1(7) by (intro exI[of _ b]) auto
  qed
qed

text \<open>Without a free block that is large enough, the search for one runs past the highest order.\<close>

lemma alloc_internal_none:
  assumes "zone_rep z pages F" "\<And>j. k \<le> j \<Longrightarrow> F j = []"
  shows "alloc_block_internal z pages k = Inl AssertFailed"
  using assms
proof (induction "Suc (z_highest_order z) - k" arbitrary: k)
  case 0
  then show ?case by (subst alloc_block_internal.simps) simp
next
  case (Suc d)
  then have kH: "k \<le> z_highest_order z" by simp
  have "bo_freelist (z_orders z ! k) = - 1"
    using zone_rep_order[OF Suc.prems(1) kH] Suc.prems(2)[of k] by (simp add: order_rep_def)
  moreover have "alloc_block_internal z pages (Suc k) = Inl AssertFailed"
    using Suc by simp
  ultimately show ?case using kH by (subst alloc_block_internal.simps) simp
qed

text \<open>The first half-word of a page, its reference count while it is in use, is written for free pages only.\<close>

lemma upd_physical_page_prev:
  "upd_physical_page pages x (set_free_prev v) = Inr pages' \<Longrightarrow> pp_lo (pages' ! i) = pp_lo (pages ! i)"
  by (auto simp: upd_physical_page_def set_free_prev_def nth_list_update split: if_splits)

lemma upd_physical_page_other:
  "upd_physical_page pages x f = Inr pages' \<Longrightarrow> i \<noteq> x \<Longrightarrow> pages' ! i = pages ! i"
  by (auto simp: upd_physical_page_def split: if_splits)

lemma alloc_internal_counts:
  assumes "zone_rep z pages F" "alloc_block_internal z pages k = Inr (c, z', pages')"
    and "i \<notin> (\<lambda>b. z_first_page z + b) ` free_pages F"
  shows "pp_lo (pages' ! i) = pp_lo (pages ! i)"
  using assms
proof (induction "Suc (z_highest_order z) - k" arbitrary: k c z' pages')
  case 0
  then show ?case by (subst (asm) alloc_block_internal.simps) simp
next
  case (Suc d)
  then have kH: "k \<le> z_highest_order z" by simp
  show ?case
  proof (cases "bo_freelist (z_orders z ! k) = - 1")
    case False
    with Suc.prems(2) kH show ?thesis
      by (subst (asm) alloc_block_internal.simps)
        (auto simp: Let_def dest!: upd_physical_page_prev[where i = i] elim!: bindR_InrE)
  next
    case True
    obtain j where j: "Suc k \<le> j" "F j \<noteq> []"
      using alloc_internal_none[OF Suc.prems(1), of "Suc k"] Suc.prems(2) True kH
      by (subst (asm) alloc_block_internal.simps) fastforce
    from alloc_internal_spec[where j = j, OF Suc.prems(1) j] obtain b z1 p1 where
      1: "alloc_block_internal z pages (Suc k) = Inr (int b, z1, p1)" "zone_same z z1"
        "aligned (Suc k) b" "b + 2 ^ Suc k \<le> 2 ^ z_highest_order z" "block_pages (Suc k) b \<subseteq> free_pages F" by blast
    have IH: "pp_lo (p1 ! i) = pp_lo (pages ! i)" using Suc.hyps(1)[OF _ Suc.prems(1) 1(1) Suc.prems(3)] Suc.hyps(2) by simp
    let ?c = "b + 2 ^ k"
    have c: "?c < 2 ^ z_highest_order z" using 1(4) block_less[of ?c k "z_highest_order z"] by simp
    have x: "page_of_block z1 (int b + int (size_of_order k)) = z_first_page z + ?c"
      using zone_frameD(1)[OF zone_repD(1)[OF Suc.prems(1)] c] 1(2)
      by (simp add: page_of_block_def zone_same_def size_of_order_def)
    have "?c \<in> block_pages k ?c" by (simp add: block_pages_def)
    then have "?c \<in> free_pages F" using split_block(3)[OF 1(3)] 1(5) by blast
    with Suc.prems(3) have "i \<noteq> z_first_page z + ?c" by blast
    with Suc.prems(2) True kH 1(1) IH x show ?thesis
      by (subst (asm) alloc_block_internal.simps)
        (auto simp: Let_def dest!: upd_physical_page_other[where i = i] elim!: bindR_InrE)
  qed
qed

lemma alloc_block_counts:
  assumes "zone_rep z pages F" "alloc_block z pages n = Inr (res, z', pages')"
    and "i \<notin> (\<lambda>b. z_first_page z + b) ` free_pages F"
  shows "pp_lo (pages' ! i) = pp_lo (pages ! i)"
  using assms(2) alloc_internal_counts[OF assms(1) _ assms(3)]
  by (auto simp: alloc_block_def split: if_splits elim!: bindR_InrE)

section \<open>Release is correct\<close>

lemma link_remove1_head:
  "xs \<noteq> [] \<Longrightarrow> hd xs \<noteq> b \<Longrightarrow> link (remove1 b xs) e = link xs e"
  by (cases xs) simp_all

lemma write_prev_at:
  assumes "zone_frame z pages" "\<And>y. y \<in> set bs \<Longrightarrow> y < 2 ^ z_highest_order z" "- 1 \<le> v" "v < 2 ^ 10"
  shows "\<exists>p1. (if link bs (- 1) \<noteq> - 1
              then upd_physical_page pages (page_of_block z (link bs (- 1))) (set_free_prev v) else Inr pages) = Inr p1 \<and>
     zone_frame z p1 \<and> untouched z pages p1 \<and> nx z p1 = nx z pages \<and>
     pv z p1 = (if bs = [] then pv z pages else (pv z pages)(hd bs := v))"
  using write_prev[OF assms(1) assms(2)[of "hd bs"] assms(3,4)] assms(1) by (cases bs) auto

lemma write_next_at:
  assumes "zone_frame z pages" "\<And>y. y \<in> set as \<Longrightarrow> y < 2 ^ z_highest_order z" "- 1 \<le> v" "v < 2 ^ 10"
    and p: "p = (if as = [] then - 1 else int (last as))"
  shows "\<exists>p2. (if p \<noteq> - 1 then upd_physical_page pages (page_of_block z p) (set_free_next v) else Inr pages) = Inr p2 \<and>
     zone_frame z p2 \<and> untouched z pages p2 \<and> pv z p2 = pv z pages \<and>
     nx z p2 = (if as = [] then nx z pages else (nx z pages)(last as := v))"
  using write_next[OF assms(1) assms(2)[of "last as"] assms(3,4)] assms(1) p by (cases "as = []") auto

lemma read_block:
  assumes "zone_frame z q" "b < 2 ^ z_highest_order z"
  shows "get_physical_page q (page_of_block z (int b)) = Inr (q ! (z_first_page z + b))"
    "free_next (q ! (z_first_page z + b)) = nx z q b" "free_prev (q ! (z_first_page z + b)) = pv z q b"
  using zone_frameD[OF assms] by (simp_all add: nx_def pv_def)

text \<open>The three reads and two writes of \<open>remove_from_freelist\<close>, for \<open>b\<close> between \<open>as\<close> and \<open>bs\<close>.\<close>

lemma unlink_block:
  assumes frame: "zone_frame z pages" and dll: "dll (nx z pages) (pv z pages) (- 1) (as @ b # bs) (- 1)"
    and dist: "distinct (as @ b # bs)" and lt: "\<And>y. y \<in> set (as @ b # bs) \<Longrightarrow> y < 2 ^ z_highest_order z"
  obtains p1 p2 where
    "(if nx z pages b \<noteq> - 1 then upd_physical_page pages (page_of_block z (nx z pages b)) (set_free_prev (pv z pages b))
      else Inr pages) = Inr p1" "zone_frame z p1"
    "(if pv z p1 b \<noteq> - 1 then upd_physical_page p1 (page_of_block z (pv z p1 b)) (set_free_next (nx z p1 b))
      else Inr p1) = Inr p2" "zone_frame z p2" "untouched z pages p2"
    "dll (nx z p2) (pv z p2) (- 1) (as @ bs) (- 1)"
    "pv z p2 b = (if as = [] then - 1 else int (last as))" "nx z p2 b = link bs (- 1)"
    "\<And>c. c \<notin> set (as @ b # bs) \<Longrightarrow> nx z p2 c = nx z pages c \<and> pv z p2 c = pv z pages c"
proof -
  let ?p = "if as = [] then - 1 else int (last as)"
  from dll have b: "pv z pages b = ?p" "nx z pages b = link bs (- 1)" by (simp_all add: dll_append)
  have small: "y < 2 ^ 10" if "y \<in> set (as @ b # bs)" for y using zone_frameD(3)[OF frame lt[OF that]] .
  have pr: "- 1 \<le> ?p" "?p < 2 ^ 10" using small[of "last as"] by auto
  have nr: "- 1 \<le> link bs (- 1)" "link bs (- 1) < 2 ^ 10" using small[of "hd bs"] by (cases bs; auto)+
  from write_prev_at[OF frame _ pr, of bs] lt obtain p1 where
    p1: "(if link bs (- 1) \<noteq> - 1 then upd_physical_page pages (page_of_block z (link bs (- 1))) (set_free_prev ?p)
      else Inr pages) = Inr p1" "zone_frame z p1" "untouched z pages p1" "nx z p1 = nx z pages"
      "pv z p1 = (if bs = [] then pv z pages else (pv z pages)(hd bs := ?p))" by auto
  have b1: "pv z p1 b = ?p" "nx z p1 b = link bs (- 1)" using p1(4,5) b dist by auto
  from write_next_at[OF p1(2) _ nr refl, of as] lt obtain p2 where
    p2: "(if ?p \<noteq> - 1 then upd_physical_page p1 (page_of_block z ?p) (set_free_next (link bs (- 1)))
      else Inr p1) = Inr p2" "zone_frame z p2" "untouched z p1 p2" "pv z p2 = pv z p1"
      "nx z p2 = (if as = [] then nx z p1 else (nx z p1)(last as := link bs (- 1)))" by auto
  have b2: "pv z p2 b = ?p" "nx z p2 b = link bs (- 1)" using p2(4,5) b1 dist last_in_set[of as] by auto
  have d2: "dll (nx z p2) (pv z p2) (- 1) (as @ bs) (- 1)"
    by (rule dll_remove[OF dll dist]) (use p1(4,5) p2(4,5) in auto)
  have "nx z p2 c = nx z pages c \<and> pv z p2 c = pv z pages c" if c: "c \<notin> set (as @ b # bs)" for c
  proof -
    have "bs \<noteq> [] \<Longrightarrow> c \<noteq> hd bs" "as \<noteq> [] \<Longrightarrow> c \<noteq> last as" using c by auto
    with p1(4,5) p2(4,5) show ?thesis by simp
  qed
  from that[OF _ p1(2) _ p2(2) untouched_trans[OF p1(3) p2(3)] d2 b2 this] p1(1) p2(1) show ?thesis
    unfolding b b1 by blast
qed

lemma remove_from_freelist_rep:
  assumes frame: "zone_frame z pages" and dll: "dll (nx z pages) (pv z pages) (- 1) xs (- 1)"
    and dist: "distinct xs" and mem: "b \<in> set xs" and lt: "\<And>y. y \<in> set xs \<Longrightarrow> y < 2 ^ z_highest_order z"
    and head: "bo_freelist (z_orders z ! k) = link xs (- 1)"
  shows "\<exists>pages'. remove_from_freelist z pages (int b) k =
       Inr (put_order z k ((z_orders z ! k)\<lparr>bo_freelist := link (remove1 b xs) (- 1)\<rparr>), pages') \<and>
     zone_frame z pages' \<and> untouched z pages pages' \<and>
     dll (nx z pages') (pv z pages') (- 1) (remove1 b xs) (- 1) \<and>
     (\<forall>c. c \<notin> set xs \<longrightarrow> nx z pages' c = nx z pages c \<and> pv z pages' c = pv z pages c)"
proof -
  from split_list_first[OF mem] obtain as bs where xs: "xs = as @ b # bs" "b \<notin> set as" by blast
  then have rem: "remove1 b xs = as @ bs" by (simp add: remove1_append)
  from unlink_block[OF frame dll[unfolded xs(1)] dist[unfolded xs(1)] lt[unfolded xs(1)]] obtain p1 p2 where
    1: "(if nx z pages b \<noteq> - 1 then upd_physical_page pages (page_of_block z (nx z pages b)) (set_free_prev (pv z pages b))
      else Inr pages) = Inr p1" "zone_frame z p1"
    "(if pv z p1 b \<noteq> - 1 then upd_physical_page p1 (page_of_block z (pv z p1 b)) (set_free_next (nx z p1 b))
      else Inr p1) = Inr p2" "zone_frame z p2"
    and 2: "untouched z pages p2" "dll (nx z p2) (pv z p2) (- 1) (as @ bs) (- 1)"
    and 3: "pv z p2 b = (if as = [] then - 1 else int (last as))" "nx z p2 b = link bs (- 1)"
    and 4: "\<And>c. c \<notin> set (as @ b # bs) \<Longrightarrow> nx z p2 c = nx z pages c \<and> pv z p2 c = pv z pages c"
    by blast
  have "remove_from_freelist z pages (int b) k =
      (if bo_freelist (z_orders z ! k) = int b
       then bindR (assertR (pv z p2 b = - 1)) (\<lambda>_.
              Inr (put_order z k ((z_orders z ! k)\<lparr>bo_freelist := nx z p2 b\<rparr>), p2))
       else Inr (z, p2))"
    unfolding remove_from_freelist_def
    by (simp only: read_block[OF frame lt[OF mem]] read_block[OF 1(2) lt[OF mem]]
        read_block[OF 1(4) lt[OF mem]] 1(1,3) bindR_simps)
  moreover have "put_order z k ((z_orders z ! k)\<lparr>bo_freelist := link xs (- 1)\<rparr>) = z"
    by (simp add: put_order_def flip: head)
  moreover have "link xs (- 1) = int b \<longleftrightarrow> as = []" using xs by (cases as) auto
  moreover have "as \<noteq> [] \<Longrightarrow> link (as @ bs) (- 1) = link xs (- 1)" by (cases as) (simp_all add: xs(1))
  ultimately have "remove_from_freelist z pages (int b) k =
      Inr (put_order z k ((z_orders z ! k)\<lparr>bo_freelist := link (remove1 b xs) (- 1)\<rparr>), p2)"
    using 3 head by (cases "as = []") (simp_all add: rem)
  with 1(4) 2 4 rem show ?thesis by (auto simp: xs(1))
qed

text \<open>The buddy is in use: the block becomes the head of the free list of its order.\<close>

lemma free_push:
  assumes rep: "zone_rep z pages F" and k: "k \<le> z_highest_order z"
    and b: "aligned k b" "b + 2 ^ k \<le> 2 ^ z_highest_order z" "block_pages k b \<inter> free_pages F = {}"
    and bud: "buddy k b \<notin> set (F k)"
  shows "\<exists>z' pages'. free_block_internal z pages (int b) k = Inr (z', pages') \<and>
     zone_rep z' pages' (F(k := b # F k)) \<and> zone_same z z' \<and> untouched z pages pages'"
proof -
  let ?H = "z_highest_order z" and ?bo = "z_orders z ! k" and ?xs = "F k"
  note frame = zone_repD(1)[OF rep] and ok = zone_repD(2)[OF rep] and H = zone_repD(3)[OF rep]
  from zone_rep_order[OF rep k] have bo: "bo_order ?bo = k" "bo_freelist ?bo = link ?xs (- 1)"
    "dll (nx z pages) (pv z pages) (- 1) ?xs (- 1)" "bits_rep ?H k (bo_map ?bo) ?xs"
    by (simp_all add: order_rep_def)
  note blt = block_less[OF b(2)] and nin = not_free_not_member[OF b(3)]
  note small = zone_frameD(3)[OF frame blt]
  have lt: "\<And>y. y \<in> set ?xs \<Longrightarrow> y < 2 ^ ?H" using free_block_less[where k = k, OF ok] by blast
  have get: "get_bit ?bo (int b) = Inr False"
    using get_bit_rep[OF bo(4,1) k H b(1) blt] nin bud by simp
  obtain m where m: "set_buddy_bit ?bo (int b) True = Inr (?bo\<lparr>bo_map := m\<rparr>)" "bits_rep ?H k m (b # ?xs)"
    using set_bit_rep[OF bo(4,1) k H b(1) blt, of "b # ?xs" True] bud buddy_neq[OF b(1)] by auto
  have lr: "- 1 \<le> link ?xs (- 1)" "link ?xs (- 1) < 2 ^ 10"
    using zone_frameD(3)[OF frame lt] by (cases ?xs; auto)+
  from write_prev_at[where bs = ?xs and v = "int b", OF frame lt] small obtain p1 where
    p1: "(if link ?xs (- 1) \<noteq> - 1 then upd_physical_page pages (page_of_block z (link ?xs (- 1))) (set_free_prev (int b))
      else Inr pages) = Inr p1" "zone_frame z p1" "untouched z pages p1" "nx z p1 = nx z pages"
      "pv z p1 = (if ?xs = [] then pv z pages else (pv z pages)(hd ?xs := int b))" by auto
  from write_next[OF p1(2) blt lr] obtain p2 where
    p2: "upd_physical_page p1 (page_of_block z (int b)) (set_free_next (link ?xs (- 1))) = Inr p2"
      "zone_frame z p2" "untouched z p1 p2" "nx z p2 = (nx z p1)(b := link ?xs (- 1))" "pv z p2 = pv z p1" by auto
  from write_prev[OF p2(2) blt, of "- 1"] obtain p3 where
    p3: "upd_physical_page p2 (page_of_block z (int b)) (set_free_prev (- 1)) = Inr p3"
      "zone_frame z p3" "untouched z p2 p3" "nx z p3 = nx z p2" "pv z p3 = (pv z p2)(b := - 1)" by auto
  let ?z = "put_order z k (?bo\<lparr>bo_map := m, bo_freelist := int b\<rparr>)"
  have fl: "bo_freelist (?bo\<lparr>bo_map := m\<rparr>) = link ?xs (- 1)" using bo(2) by simp
  have "free_block_internal z pages (int b) k = Inr (?z, p3)"
    using k by (subst free_block_internal.simps)
      (simp only: Let_def get m(1) bindR_simps if_False fl p1(1) p2(1) p3(1) not_True_eq_False)
  moreover have "zone_rep ?z p3 (F(k := b # ?xs))"
  proof (rule zone_rep_put[OF rep k p3(2)])
    show "blocks_ok ?H (F(k := b # F k))" by (rule add_block_ok(1)[OF ok k b bud])
    have "dll (nx z p3) (pv z p3) (int b) ?xs (- 1)"
      by (rule dll_head_prev[OF bo(3)])
        (use blocks_ok_distinct[OF ok] nin p1(4,5) p2(4,5) p3(4,5) in auto)
    then show "order_rep ?H (nx z p3) (pv z p3) k (?bo\<lparr>bo_map := m, bo_freelist := int b\<rparr>) (b # ?xs)"
      using bo(1) m(2) p2(4,5) p3(4,5) by (simp add: order_rep_def)
    fix j c assume j: "j \<noteq> k" "c \<in> set (F j)"
    have "c \<noteq> b" using block_in_free[of c F j] block_nonempty[of c j] b(3) block_nonempty[of b k] j by blast
    moreover have "c \<noteq> hd ?xs" if "?xs \<noteq> []"
      using that other_order_block[where k = k and j = j, OF ok _ j(2,1)] by simp
    ultimately show "nx z p3 c = nx z pages c \<and> pv z p3 c = pv z pages c"
      using p1(4,5) p2(4,5) p3(4,5) by auto
  qed
  moreover have "untouched z pages p3" using p1(3) p2(3) p3(3) untouched_trans by blast
  moreover have "zone_same z ?z" by simp
  ultimately show ?thesis by blast
qed

text \<open>The buddy is free: it leaves its list, and the pair is released at the next order.\<close>

lemma first_buddy_index:
  assumes "bo_order bo = k" "b < 2 ^ 10"
  shows "int (bit_index bo (int b) * 2 * size_of_order k) = int (first_buddy k b)"
  using bit_index_pair[OF assms] by (simp add: first_buddy_def size_of_order_def)

lemma free_merge:
  assumes rep: "zone_rep z pages F" and k: "k \<le> z_highest_order z"
    and b: "aligned k b" "b + 2 ^ k \<le> 2 ^ z_highest_order z" "block_pages k b \<inter> free_pages F = {}"
    and bud: "buddy k b \<in> set (F k)"
  shows "\<exists>z1 p1. free_block_internal z pages (int b) k =
       free_block_internal z1 p1 (int (first_buddy k b)) (Suc k) \<and>
     zone_rep z1 p1 (F(k := remove1 (buddy k b) (F k))) \<and> zone_same z z1 \<and> untouched z pages p1"
proof -
  let ?H = "z_highest_order z" and ?bo = "z_orders z ! k" and ?xs = "F k" and ?c = "buddy k b"
  let ?ys = "remove1 ?c ?xs"
  note frame = zone_repD(1)[OF rep] and ok = zone_repD(2)[OF rep] and H = zone_repD(3)[OF rep]
  from zone_rep_order[OF rep k] have bo: "bo_order ?bo = k" "bo_freelist ?bo = link ?xs (- 1)"
    "dll (nx z pages) (pv z pages) (- 1) ?xs (- 1)" "bits_rep ?H k (bo_map ?bo) ?xs"
    by (simp_all add: order_rep_def)
  note blt = block_less[OF b(2)] and nin = not_free_not_member[OF b(3)]
    and dist = blocks_ok_distinct[OF ok, of k]
  have lt: "\<And>y. y \<in> set ?xs \<Longrightarrow> y < 2 ^ ?H" using free_block_less[where k = k, OF ok] by blast
  have get: "get_bit ?bo (int b) = Inr True" using get_bit_rep[OF bo(4,1) k H b(1) blt] nin bud by simp
  have ys: "b \<notin> set ?ys" "?c \<notin> set ?ys" using nin dist by (auto dest: in_set_remove1[THEN iffD1, rotated])
  obtain m where m: "set_buddy_bit ?bo (int b) False = Inr (?bo\<lparr>bo_map := m\<rparr>)" "bits_rep ?H k m ?ys"
    using set_bit_rep[OF bo(4,1) k H b(1) blt, of ?ys False] ys dist by auto
  let ?bo1 = "?bo\<lparr>bo_map := m\<rparr>" and ?z1 = "put_order z k (?bo\<lparr>bo_map := m\<rparr>)"
  have len: "k < length (z_orders z)" using k frame by (simp add: zone_frame_def)
  have z1: "z_orders ?z1 ! k = ?bo1" using len by (simp add: put_order_def)
  from remove_from_freelist_rep[of ?z1 pages ?xs ?c k] frame bo(2,3) dist bud lt z1 obtain p1 where
    p1: "remove_from_freelist ?z1 pages (int ?c) k =
        Inr (put_order ?z1 k (?bo1\<lparr>bo_freelist := link ?ys (- 1)\<rparr>), p1)"
      "zone_frame z p1" "untouched ?z1 pages p1" "dll (nx z p1) (pv z p1) (- 1) ?ys (- 1)"
      "\<And>x. x \<notin> set ?xs \<Longrightarrow> nx z p1 x = nx z pages x \<and> pv z p1 x = pv z pages x" by auto
  have put2: "put_order ?z1 k o2 = put_order z k o2" for o2 by (simp add: put_order_def)
  have fb: "int (bit_index ?bo1 (int b) * 2 * size_of_order k) = int (first_buddy k b)"
    using bo(1) zone_frameD(3)[OF frame blt] by (intro first_buddy_index) simp_all
  have other: "(if int b = int (first_buddy k b) then int (first_buddy k b) + int (size_of_order k)
      else int (first_buddy k b)) = int ?c"
    using first_buddy_cases[OF b(1)] by (auto simp: size_of_order_def)
  have "free_block_internal z pages (int b) k =
      free_block_internal (put_order z k (?bo1\<lparr>bo_freelist := link ?ys (- 1)\<rparr>)) p1 (int (first_buddy k b)) (k + 1)"
    using k by (subst free_block_internal.simps)
      (simp only: Let_def get m(1) bindR_simps if_True not_True_eq_False if_False fb other p1(1) put2 prod.case)
  moreover have "zone_rep (put_order z k (?bo1\<lparr>bo_freelist := link ?ys (- 1)\<rparr>)) p1 (F(k := ?ys))"
  proof (rule zone_rep_put[OF rep k p1(2)])
    show "blocks_ok ?H (F(k := ?ys))" by (rule remove_block_ok(1)[OF ok bud])
    show "order_rep ?H (nx z p1) (pv z p1) k (?bo1\<lparr>bo_freelist := link ?ys (- 1)\<rparr>) ?ys"
      using bo(1) m(2) p1(4) by (simp add: order_rep_def)
    fix j x assume j: "j \<noteq> k" "x \<in> set (F j)"
    then have "x \<notin> set ?xs" using other_order_block[where k = k and j = j, OF ok _ j(2,1)] by blast
    then show "nx z p1 x = nx z pages x \<and> pv z p1 x = pv z pages x" by (rule p1(5))
  qed
  moreover have "untouched z pages p1" using p1(3) by (simp add: untouched_def)
  ultimately show ?thesis by (metis Suc_eq_plus1 zone_same_put_order zone_same_refl)
qed

lemma free_internal_spec:
  assumes "zone_rep z pages F" "k \<le> z_highest_order z" "aligned k b" "b + 2 ^ k \<le> 2 ^ z_highest_order z"
    "block_pages k b \<inter> free_pages F = {}"
  shows "\<exists>z' pages' F'. free_block_internal z pages (int b) k = Inr (z', pages') \<and>
     zone_rep z' pages' F' \<and> zone_same z z' \<and> untouched z pages pages' \<and>
     free_pages F' = free_pages F \<union> block_pages k b"
  using assms
proof (induction "z_highest_order z - k" arbitrary: z pages F k b rule: less_induct)
  case less
  note ok = zone_repD(2)[OF less.prems(1)]
  show ?case
  proof (cases "buddy k b \<in> set (F k)")
    case False
    from free_push[OF less.prems False] add_block_ok(2)[OF ok less.prems(2-5) False] show ?thesis by blast
  next
    case True
    from free_merge[OF less.prems True] obtain z1 p1 where
      1: "free_block_internal z pages (int b) k = free_block_internal z1 p1 (int (first_buddy k b)) (Suc k)"
        "zone_rep z1 p1 (F(k := remove1 (buddy k b) (F k)))" "zone_same z z1" "untouched z pages p1" by blast
    have "k \<noteq> z_highest_order z"
    proof
      assume kH: "k = z_highest_order z"
      then have "b = 0" using less.prems(4) by simp
      then have "buddy k b = 2 ^ z_highest_order z" by (simp add: buddy_def kH)
      with free_block_less[where k = k, OF ok True] show False by simp
    qed
    then have kH: "k < z_highest_order z" using less.prems(2) by simp
    have H: "z_highest_order z1 = z_highest_order z" using 1(3) by (simp add: zone_same_def)
    note fp = remove_block_ok(2)[OF ok True] and bl = block_first_buddy[OF less.prems(3)]
    have disj: "block_pages (Suc k) (first_buddy k b) \<inter> free_pages (F(k := remove1 (buddy k b) (F k))) = {}"
      using less.prems(5) unfolding fp bl by blast
    have d: "z_highest_order z1 - Suc k < z_highest_order z - k" and kH1: "Suc k \<le> z_highest_order z1"
      using kH H by simp_all
    from less.hyps[OF d 1(2) kH1 aligned_first_buddy _ disj] buddy_within(1)[OF less.prems(3,4) kH] H obtain z' p' F' where
      2: "free_block_internal z1 p1 (int (first_buddy k b)) (Suc k) = Inr (z', p')" "zone_rep z' p' F'"
        "zone_same z1 z'" "untouched z1 p1 p'"
        "free_pages F' = free_pages (F(k := remove1 (buddy k b) (F k))) \<union> block_pages (Suc k) (first_buddy k b)"
      by auto
    have "free_pages F' = free_pages F \<union> block_pages k b"
      using 2(5) block_in_free[of "buddy k b" F k, OF True] unfolding fp bl by blast
    moreover have "untouched z pages p'" using untouched_trans[OF 1(4)] 2(4) untouched_same[OF 1(3)] by simp
    ultimately show ?thesis using 1(1) 2(1,2) zone_same_trans[OF 1(3) 2(3)] by (intro exI conjI) auto
  qed
qed

section \<open>Orders of sizes\<close>

lemma highest_bit_bounds: "0 < n \<Longrightarrow> 2 ^ highest_bit n \<le> n \<and> n < 2 * 2 ^ highest_bit n"
proof (induction n rule: highest_bit.induct)
  case (1 n)
  show ?case
  proof (cases "n \<le> 1")
    case True
    with "1.prems" have "n = 1" by simp
    then show ?thesis by (simp add: highest_bit.simps)
  next
    case False
    with "1.IH" have "2 ^ highest_bit (n div 2) \<le> n div 2" "n div 2 < 2 * 2 ^ highest_bit (n div 2)" by auto
    with False show ?thesis by (subst (1 2) highest_bit.simps) auto
  qed
qed

text \<open>\<open>order_for\<close> is the least order whose blocks hold the number of pages.\<close>

lemma order_for_least:
  assumes "0 < n"
  shows "\<exists>k. order_for n = Inr k \<and> n \<le> 2 ^ k \<and> (\<forall>j. n \<le> 2 ^ j \<longrightarrow> k \<le> j)"
proof -
  let ?h = "highest_bit n"
  note hb = highest_bit_bounds[OF assms]
  have least: "?h \<le> j" if "n \<le> 2 ^ j" for j
    using hb that by (metis le_trans nat_power_less_imp_less not_le_imp_less order_less_le_trans
        power_increasing_iff one_less_numeral_iff semiring_norm(76))
  show ?thesis
  proof (cases "n = 2 ^ ?h")
    case True
    have "n \<le> 2 ^ ?h" "\<forall>j. n \<le> 2 ^ j \<longrightarrow> ?h \<le> j" using True least by auto
    moreover have "order_for n = Inr ?h" using assms True by (simp add: order_for_def Let_def)
    ultimately show ?thesis by blast
  next
    case False
    have "Suc ?h \<le> j" if "n \<le> 2 ^ j" for j
    proof -
      have "j \<noteq> ?h" using False that hb by auto
      with least[OF that] show ?thesis by simp
    qed
    moreover have "order_for n = Inr (Suc ?h)" using assms False hb by (simp add: order_for_def Let_def)
    moreover have "n \<le> 2 ^ Suc ?h" using hb by simp
    ultimately show ?thesis by blast
  qed
qed

lemma order_for_power [simp]: "order_for (2 ^ k) = Inr k"
proof -
  have "(0::nat) < 2 ^ k" by simp
  from order_for_least[OF this] obtain j where
    j: "order_for (2 ^ k) = Inr j" "(2::nat) ^ k \<le> 2 ^ j" "\<And>i. (2::nat) ^ k \<le> 2 ^ i \<Longrightarrow> j \<le> i" by blast
  from j(2) j(3)[of k] have "j = k" by simp
  with j(1) show ?thesis by simp
qed

section \<open>A new zone\<close>

lemma init_orders:
  assumes "H \<le> MAX_ORDER"
  shows "\<exists>orders. for_run 0 (H + 1) (init_order junk (2 ^ H)) (replicate (MAX_ORDER + 1) order_default) = Inr orders \<and>
     length orders = MAX_ORDER + 1 \<and>
     (\<forall>k \<le> H. bo_order (orders ! k) = k \<and> bo_freelist (orders ! k) = - 1 \<and> bits_rep H k (bo_map (orders ! k)) [])"
proof -
  let ?P = "\<lambda>i orders. length orders = MAX_ORDER + 1 \<and>
     (\<forall>k < i. bo_order (orders ! k) = k \<and> bo_freelist (orders ! k) = - 1 \<and> bits_rep H k (bo_map (orders ! k)) []) \<and>
     (\<forall>k. i \<le> k \<longrightarrow> k \<le> MAX_ORDER \<longrightarrow> orders ! k = order_default)"
  have "\<exists>t. for_run 0 (H + 1) (init_order junk (2 ^ H)) (replicate (MAX_ORDER + 1) order_default) = Inr t \<and> ?P (H + 1) t"
  proof (rule for_run_rule[where P = ?P])
    fix i orders assume i: "i < H + 1" "?P i orders"
    have n: "(2 ^ H div size_of_order i + 1) div 2 = (2 ^ (H - i) + 1) div (2::nat)"
      using i by (simp add: size_of_order_def power_diff)
    have nz: "(2 ^ (H - i) + 1) div 2 \<noteq> (0::nat)" by (cases "H - i") simp_all
    obtain m where m: "bm_new junk ((2 ^ (H - i) + 1) div 2) False = Inr m"
      "(2 ^ (H - i) + 1) div 2 \<le> bm_cap m" "\<And>j. j < bm_cap m \<Longrightarrow> bm_val m j = False"
      using bm_new_val[of junk "(2 ^ (H - i) + 1) div 2" False] by blast
    let ?b = "\<lparr>bo_order = i, bo_map = fst (bm_assign_move bm_null m), bo_freelist = - 1\<rparr>"
    have def: "orders ! i = order_default" "i < length orders" using i assms by auto
    have body: "init_order junk (2 ^ H) i orders = Inr (orders[i := ?b])"
      unfolding init_order_def Let_def n using nz m(1) def by (simp add: order_default_def)
    have "bm_cap (fst (bm_assign_move bm_null m)) = bm_cap m" "bm_val (fst (bm_assign_move bm_null m)) = bm_val m"
      by (simp_all add: bm_assign_move_def bm_cap_def bm_val_def fun_eq_iff)
    then have "bits_rep H i (bo_map ?b) []"
      using m(2,3) pair_index_cap[of i H] i(1) by (auto simp: bits_rep_def)
    then have "?P (Suc i) (orders[i := ?b])"
      using i def by (auto simp: nth_list_update less_Suc_eq)
    with body show "\<exists>t'. init_order junk (2 ^ H) i orders = Inr t' \<and> ?P (Suc i) t'" by blast
  qed (simp_all add: nth_Cons')
  then show ?thesis by (metis (no_types, lifting) less_Suc_eq_le Suc_eq_plus1)
qed

text \<open>One free block of the highest order; the links of its page are set by \<open>PhysicalRegion::init\<close>.\<close>

definition whole :: "nat \<Rightarrow> freelists" where
  "whole H k = (if k = H then [0] else [])"

lemma whole_ok: "blocks_ok H (whole H)" "free_pages (whole H) = {..< 2 ^ H}"
proof -
  show "blocks_ok H (whole H)"
    by (rule blocks_okI) (auto simp: whole_def aligned_def buddy_def split: if_splits)
  show "free_pages (whole H) = {..< 2 ^ H}"
    by (auto simp: free_pages_def whole_def block_pages_def split: if_splits)
qed

lemma zone_new_rep:
  assumes H: "H \<le> MAX_ORDER" and first: "0 < first" "first + 2 ^ H \<le> length pages" "length pages < 2 ^ 32"
    and links: "free_next (pages ! first) = - 1" "free_prev (pages ! first) = - 1"
  shows "\<exists>z. zone_new junk first (2 ^ H) = Inr z \<and> zone_rep z pages (whole H) \<and>
     z_first_page z = first \<and> z_highest_order z = H \<and> z_free_pages z = 2 ^ H"
proof -
  from init_orders[OF H, of junk] obtain orders where
    o: "for_run 0 (H + 1) (init_order junk (2 ^ H)) (replicate (MAX_ORDER + 1) order_default) = Inr orders"
      "length orders = MAX_ORDER + 1"
      "\<And>k. k \<le> H \<Longrightarrow> bo_order (orders ! k) = k \<and> bo_freelist (orders ! k) = - 1 \<and> bits_rep H k (bo_map (orders ! k)) []"
    by blast
  let ?t = "(orders ! H)\<lparr>bo_freelist := 0\<rparr>"
  have "buddy H 0 \<noteq> 0" by (simp add: buddy_def)
  with set_bit_rep[of H H ?t "[]" 0 "[0]" True] o(3)[of H] H obtain m where
    m: "set_buddy_bit ?t 0 True = Inr (?t\<lparr>bo_map := m\<rparr>)" "bits_rep H H m [0]"
    by (auto simp: aligned_def MAX_ORDER_def)
  let ?z = "\<lparr>z_orders = orders[H := ?t\<lparr>bo_map := m\<rparr>], z_first_page = first, z_highest_order = H,
             z_num_pages = 2 ^ H, z_free_pages = 2 ^ H\<rparr>"
  have new: "zone_new junk first (2 ^ H) = Inr ?z"
    unfolding zone_new_def using o(1) m(1) H by (simp add: size_of_order_def)
  have "order_rep H (nx ?z pages) (pv ?z pages) k (z_orders ?z ! k) (whole H k)" if "k \<le> H" for k
    using that o(2) o(3)[of k] m(2) H links
    by (cases "k = H") (auto simp: order_rep_def whole_def nx_def pv_def)
  then have "zone_rep ?z pages (whole H)"
    using o(2) H first whole_ok(1) by (simp add: zone_rep_def zone_frame_def)
  with new show ?thesis by (intro exI[of _ ?z]) simp
qed

section \<open>Blocks handed out and taken back\<close>

lemma zone_rep_free_pages [simp]: "zone_rep (z\<lparr>z_free_pages := n\<rparr>) pages F = zone_rep z pages F"
proof -
  have "nx (z\<lparr>z_free_pages := n\<rparr>) = nx z" "pv (z\<lparr>z_free_pages := n\<rparr>) = pv z"
    by (simp_all add: nx_def pv_def fun_eq_iff)
  then show ?thesis by (simp add: zone_rep_def zone_frame_def)
qed

lemma alloc_block_spec:
  assumes rep: "zone_rep z pages F" and n: "0 < n" "n \<le> z_free_pages z" and k: "order_for n = Inr k"
    and j: "k \<le> j" "F j \<noteq> []"
  shows "\<exists>b z' pages' F'. alloc_block z pages n = Inr (Inr (z_first_page z + b), z', pages') \<and>
     zone_rep z' pages' F' \<and> z_first_page z' = z_first_page z \<and> z_highest_order z' = z_highest_order z \<and>
     z_free_pages z' = z_free_pages z - n \<and> outside z pages pages' \<and>
     aligned k b \<and> b + 2 ^ k \<le> 2 ^ z_highest_order z \<and>
     block_pages k b \<subseteq> free_pages F \<and> free_pages F' = free_pages F - block_pages k b"
proof -
  from alloc_internal_spec[where j = j, OF rep j] obtain b z' pages' F' where
    *: "alloc_block_internal z pages k = Inr (int b, z', pages')" "zone_rep z' pages' F'" "zone_same z z'"
      "outside z pages pages'" "aligned k b" "b + 2 ^ k \<le> 2 ^ z_highest_order z"
      "block_pages k b \<subseteq> free_pages F" "free_pages F' = free_pages F - block_pages k b" by blast
  have "page_of_block z (int b) = z_first_page z + b"
    using zone_frameD(1)[OF zone_repD(1)[OF rep] block_less[OF *(6)]] .
  then have "alloc_block z pages n = Inr (Inr (z_first_page z + b), z'\<lparr>z_free_pages := z_free_pages z' - n\<rparr>, pages')"
    using n k *(1) by (simp add: alloc_block_def)
  with * show ?thesis by (intro exI[of _ b]) (auto simp: zone_same_def)
qed

lemma free_block_spec:
  assumes rep: "zone_rep z pages F" and k: "k \<le> z_highest_order z"
    and b: "aligned k b" "b + 2 ^ k \<le> 2 ^ z_highest_order z" "block_pages k b \<inter> free_pages F = {}"
  shows "\<exists>z' pages' F'. free_block z pages (z_first_page z + b) (2 ^ k) = Inr (z', pages') \<and>
     zone_rep z' pages' F' \<and> z_first_page z' = z_first_page z \<and> z_highest_order z' = z_highest_order z \<and>
     z_free_pages z' = z_free_pages z + 2 ^ k \<and> untouched z pages pages' \<and>
     free_pages F' = free_pages F \<union> block_pages k b"
proof -
  from free_internal_spec[OF rep k b] obtain z' pages' F' where
    *: "free_block_internal z pages (int b) k = Inr (z', pages')" "zone_rep z' pages' F'" "zone_same z z'"
      "untouched z pages pages'" "free_pages F' = free_pages F \<union> block_pages k b" by blast
  have "z_num_pages z = 2 ^ z_highest_order z" using zone_repD(1)[OF rep] by (simp add: zone_frame_def)
  then have "free_block z pages (z_first_page z + b) (2 ^ k) =
      Inr (z'\<lparr>z_free_pages := z_free_pages z' + 2 ^ k\<rparr>, pages')"
    using b(2) *(1) by (simp add: free_block_def size_of_order_def)
  with * show ?thesis by (intro exI) (auto simp: zone_same_def)
qed

text \<open>
  The clients of a zone: a state is the zone, the page array and the blocks handed out, as pairs
  of order and first page. A client allocates a power of two of pages and returns what it got.
\<close>

inductive buddy_step ::
    "buddy_zone \<times> phys_page list \<times> (nat \<times> nat) list \<Rightarrow> buddy_zone \<times> phys_page list \<times> (nat \<times> nat) list \<Rightarrow> bool"
where
  alloc: "alloc_block z pages (2 ^ k) = Inr (Inr page, z', pages') \<Longrightarrow>
    buddy_step (z, pages, live) (z', pages', (k, page) # live)"
| release: "(k, page) \<in> set live \<Longrightarrow> free_block z pages page (2 ^ k) = Inr (z', pages') \<Longrightarrow>
    buddy_step (z, pages, live) (z', pages', remove1 (k, page) live)"

definition range_of :: "nat \<times> nat \<Rightarrow> nat set" where
  "range_of kp = {snd kp ..< snd kp + 2 ^ fst kp}"

definition shift :: "nat \<Rightarrow> nat set \<Rightarrow> nat set" where
  "shift n A = (\<lambda>i. n + i) ` A"

lemma range_of_shift: "range_of (k, first + b) = shift first (block_pages k b)"
  using image_add_atLeastLessThan[of first b "b + 2 ^ k"]
  by (simp add: range_of_def shift_def block_pages_def ac_simps)

lemma shift_ops:
  "shift n (A \<union> B) = shift n A \<union> shift n B" "shift n (A - B) = shift n A - shift n B"
  "shift n A \<inter> shift n B = shift n (A \<inter> B)" "shift n A \<subseteq> shift n B \<longleftrightarrow> A \<subseteq> B" "shift n A = {} \<longleftrightarrow> A = {}"
  by (auto simp: shift_def image_iff)

definition buddy_inv :: "nat \<Rightarrow> nat \<Rightarrow> buddy_zone \<times> phys_page list \<times> (nat \<times> nat) list \<Rightarrow> bool" where
  "buddy_inv first H s \<longleftrightarrow> (case s of (z, pages, live) \<Rightarrow>
     \<exists>F. zone_rep z pages F \<and> z_first_page z = first \<and> z_highest_order z = H \<and>
       (\<forall>(k, p) \<in> set live. k \<le> H \<and> (\<exists>b. p = first + b \<and> aligned k b \<and> b + 2 ^ k \<le> 2 ^ H)) \<and>
       distinct live \<and>
       (\<forall>x \<in> set live. \<forall>y \<in> set live. x \<noteq> y \<longrightarrow> range_of x \<inter> range_of y = {}) \<and>
       (\<Union>x \<in> set live. range_of x) \<inter> shift first (free_pages F) = {} \<and>
       (\<Union>x \<in> set live. range_of x) \<union> shift first (free_pages F) = shift first {..< 2 ^ H} \<and>
       z_free_pages z = card (free_pages F))"

lemma finite_free_pages: "zone_rep z pages F \<Longrightarrow> finite (free_pages F)"
proof -
  assume "zone_rep z pages F"
  from zone_repD(2)[OF this] have "free_pages F \<subseteq> {..< 2 ^ z_highest_order z}"
    using blocks_okD(3) by (fastforce simp: free_pages_def block_pages_def)
  then show ?thesis by (rule finite_subset) simp
qed

lemma card_block_pages [simp]: "card (block_pages k b) = 2 ^ k" "finite (block_pages k b)"
  by (simp_all add: block_pages_def)

text \<open>A successful allocation comes from a free block that is large enough.\<close>

lemma alloc_block_success:
  assumes rep: "zone_rep z pages F" and ok: "alloc_block z pages (2 ^ k) = Inr (Inr page, z', pages')"
  obtains b F' where "page = z_first_page z + b" "zone_rep z' pages' F'" "z_first_page z' = z_first_page z"
    "z_highest_order z' = z_highest_order z" "z_free_pages z' = z_free_pages z - 2 ^ k"
    "k \<le> z_highest_order z" "aligned k b" "b + 2 ^ k \<le> 2 ^ z_highest_order z"
    "block_pages k b \<subseteq> free_pages F" "free_pages F' = free_pages F - block_pages k b"
proof -
  have n: "(0::nat) < 2 ^ k" "2 ^ k \<le> z_free_pages z"
    using ok by (auto simp: alloc_block_def split: if_splits)
  have "\<exists>j. k \<le> j \<and> F j \<noteq> []"
  proof (rule ccontr)
    assume "\<not> ?thesis"
    with alloc_internal_none[OF rep, of k] n ok show False by (auto simp: alloc_block_def)
  qed
  then obtain j where j: "k \<le> j" "F j \<noteq> []" by blast
  then have "j \<le> z_highest_order z"
    using blocks_okD(1)[OF zone_repD(2)[OF rep], of "hd (F j)" j] by simp
  with j(1) have "k \<le> z_highest_order z" by simp
  with alloc_block_spec[where j = j, OF rep n order_for_power j] ok that show ?thesis by auto
qed

lemma buddy_invE:
  assumes "buddy_inv first H (z, pages, live)"
  obtains F where "zone_rep z pages F" "z_first_page z = first" "z_highest_order z = H"
    "\<forall>(k, p) \<in> set live. k \<le> H \<and> (\<exists>b. p = first + b \<and> aligned k b \<and> b + 2 ^ k \<le> 2 ^ H)"
    "distinct live" "\<forall>x \<in> set live. \<forall>y \<in> set live. x \<noteq> y \<longrightarrow> range_of x \<inter> range_of y = {}"
    "(\<Union>x \<in> set live. range_of x) \<inter> shift first (free_pages F) = {}"
    "(\<Union>x \<in> set live. range_of x) \<union> shift first (free_pages F) = shift first {..< 2 ^ H}"
    "z_free_pages z = card (free_pages F)"
  using assms by (auto simp: buddy_inv_def)

lemma buddy_inv_alloc:
  assumes inv: "buddy_inv first H (z, pages, live)"
    and step: "alloc_block z pages (2 ^ k) = Inr (Inr page, z', pages')"
  shows "buddy_inv first H (z', pages', (k, page) # live)"
proof -
  from inv obtain F where F: "zone_rep z pages F" "z_first_page z = first" "z_highest_order z = H"
    "\<forall>(k, p) \<in> set live. k \<le> H \<and> (\<exists>b. p = first + b \<and> aligned k b \<and> b + 2 ^ k \<le> 2 ^ H)"
    "distinct live" "\<forall>x \<in> set live. \<forall>y \<in> set live. x \<noteq> y \<longrightarrow> range_of x \<inter> range_of y = {}"
    "(\<Union>x \<in> set live. range_of x) \<inter> shift first (free_pages F) = {}"
    "(\<Union>x \<in> set live. range_of x) \<union> shift first (free_pages F) = shift first {..< 2 ^ H}"
    "z_free_pages z = card (free_pages F)" by (rule buddy_invE)
  from alloc_block_success[OF F(1) step] obtain b F' where
    b: "page = first + b" "zone_rep z' pages' F'" "z_first_page z' = first" "z_highest_order z' = H"
      "z_free_pages z' = z_free_pages z - 2 ^ k" "k \<le> H" "aligned k b" "b + 2 ^ k \<le> 2 ^ H"
      "block_pages k b \<subseteq> free_pages F" "free_pages F' = free_pages F - block_pages k b"
    using F(2,3) by metis
  note r = range_of_shift[of k first b]
  have sub: "range_of (k, page) \<subseteq> shift first (free_pages F)" using b(1,9) r by (simp add: shift_ops)
  have fp: "shift first (free_pages F') = shift first (free_pages F) - range_of (k, page)"
    using b(1,10) r by (simp add: shift_ops)
  have disj: "range_of (k, page) \<inter> range_of x = {}" if "x \<in> set live" for x
    using sub F(7) that by blast
  have new: "(k, page) \<notin> set live" using disj[of "(k, page)"] by (auto simp: range_of_def)
  have card: "z_free_pages z' = card (free_pages F')"
    using b(5,9,10) F(9) finite_free_pages[OF F(1)] by (simp add: card_Diff_subset)
  show ?thesis unfolding buddy_inv_def prod.case
    by (intro exI[of _ F'] conjI b(2-4) card)
      (use F(4-8) b(1,6-8) new disj sub fp in auto)
qed

lemma buddy_inv_release:
  assumes inv: "buddy_inv first H (z, pages, live)" and mem: "(k, page) \<in> set live"
    and step: "free_block z pages page (2 ^ k) = Inr (z', pages')"
  shows "buddy_inv first H (z', pages', remove1 (k, page) live)"
proof -
  from inv obtain F where F: "zone_rep z pages F" "z_first_page z = first" "z_highest_order z = H"
    "\<forall>(k, p) \<in> set live. k \<le> H \<and> (\<exists>b. p = first + b \<and> aligned k b \<and> b + 2 ^ k \<le> 2 ^ H)"
    "distinct live" "\<forall>x \<in> set live. \<forall>y \<in> set live. x \<noteq> y \<longrightarrow> range_of x \<inter> range_of y = {}"
    "(\<Union>x \<in> set live. range_of x) \<inter> shift first (free_pages F) = {}"
    "(\<Union>x \<in> set live. range_of x) \<union> shift first (free_pages F) = shift first {..< 2 ^ H}"
    "z_free_pages z = card (free_pages F)" by (rule buddy_invE)
  from F(4) mem obtain b where b: "k \<le> H" "page = first + b" "aligned k b" "b + 2 ^ k \<le> 2 ^ H" by auto
  note r = range_of_shift[of k first b]
  have "range_of (k, page) \<inter> shift first (free_pages F) = {}" using F(7) mem by blast
  then have disj: "block_pages k b \<inter> free_pages F = {}" using r b(2) by (simp add: shift_ops)
  from free_block_spec[OF F(1) _ b(3) _ disj] b F(2,3) step obtain F' where
    f: "zone_rep z' pages' F'" "z_first_page z' = first" "z_highest_order z' = H"
      "z_free_pages z' = z_free_pages z + 2 ^ k" "free_pages F' = free_pages F \<union> block_pages k b" by auto
  have set: "set (remove1 (k, page) live) = set live - {(k, page)}" using F(5) by simp
  have fp: "shift first (free_pages F') = shift first (free_pages F) \<union> range_of (k, page)"
    using f(5) r b(2) by (simp add: shift_ops)
  have card: "z_free_pages z' = card (free_pages F')"
    using f(4,5) F(9) finite_free_pages[OF F(1)] disj by (simp add: card_Un_disjoint Int_commute)
  have un: "(\<Union>x \<in> set live. range_of x) = range_of (k, page) \<union> (\<Union>x \<in> set live - {(k, page)}. range_of x)"
    using mem by blast
  have own: "range_of (k, page) \<inter> (\<Union>x \<in> set live - {(k, page)}. range_of x) = {}"
    using F(6) mem by blast
  show ?thesis unfolding buddy_inv_def prod.case
  proof (intro exI[of _ F'] conjI f(1-3) card)
    show "(\<Union>x \<in> set (remove1 (k, page) live). range_of x) \<inter> shift first (free_pages F') = {}"
      unfolding set fp using own F(7) un by blast
    show "(\<Union>x \<in> set (remove1 (k, page) live). range_of x) \<union> shift first (free_pages F') = shift first {..< 2 ^ H}"
      unfolding set fp using F(8) un by blast
  qed (use F(4-6) set in auto)
qed

lemma buddy_inv_new:
  assumes "H \<le> MAX_ORDER" "0 < first" "first + 2 ^ H \<le> length pages" "length pages < 2 ^ 32"
    "free_next (pages ! first) = - 1" "free_prev (pages ! first) = - 1" "zone_new junk first (2 ^ H) = Inr z"
  shows "buddy_inv first H (z, pages, [])"
  using zone_new_rep[OF assms(1-6), of junk] assms(7) whole_ok(2)[of H] by (auto simp: buddy_inv_def)

lemma buddy_reachable_inv:
  assumes "buddy_step\<^sup>*\<^sup>* s t" "buddy_inv first H s"
  shows "buddy_inv first H t"
  using assms
proof (induction rule: rtranclp_induct)
  case (step t u)
  then have inv: "buddy_inv first H t" by simp
  from step.hyps(2) inv show ?case
    by (cases rule: buddy_step.cases) (auto intro: buddy_inv_alloc buddy_inv_release)
qed simp

text \<open>A small zone used as an example: two pages behind one page that is not the zone's.\<close>

definition demo_pages :: "phys_page list" where
  "demo_pages = replicate 3 \<lparr>pp_lo = - 1, pp_hi = - 1\<rparr>"

lemma demo_alloc_free:
  "on_result (\<lambda>z.
     on_result (\<lambda>(r, z1, pages1). r = Inr 1 \<and> z_free_pages z1 = 1 \<and>
       on_result (\<lambda>_. True) (free_block z1 pages1 1 (2 ^ 0)))
     (alloc_block z demo_pages (2 ^ 0)))
   (zone_new 0 1 (2 ^ 1))"
  by code_simp

lemma demo_run:
  obtains z z1 pages1 z2 pages2 where "zone_new 0 1 (2 ^ 1) = Inr z"
    "buddy_step\<^sup>*\<^sup>* (z, demo_pages, []) (z1, pages1, [(0, 1)])" "z_free_pages z1 = 1"
    "buddy_step\<^sup>*\<^sup>* (z, demo_pages, []) (z2, pages2, [])"
proof -
  from demo_alloc_free obtain z z1 pages1 z2 pages2 where
    d: "zone_new 0 1 (2 ^ 1) = Inr z" "alloc_block z demo_pages (2 ^ 0) = Inr (Inr 1, z1, pages1)"
      "z_free_pages z1 = 1" "free_block z1 pages1 1 (2 ^ 0) = Inr (z2, pages2)"
    unfolding on_result_iff by auto
  note one = buddy_step.alloc[OF d(2), of "[]"]
  have "buddy_step (z1, pages1, [(0, 1)]) (z2, pages2, remove1 (0, 1) [(0, 1)])"
    by (rule buddy_step.release[OF _ d(4)]) simp
  then have two: "buddy_step (z1, pages1, [(0, 1)]) (z2, pages2, [])" by simp
  from that[OF d(1) _ d(3)] one two show ?thesis by (meson converse_rtranclp_into_rtranclp rtranclp.rtrancl_refl)
qed

lemma demo_pages_simps:
  "length demo_pages = 3" "free_next (demo_pages ! 1) = - 1" "free_prev (demo_pages ! 1) = - 1"
  by (simp_all add: demo_pages_def free_next_def free_prev_def)

lemma demo_prems:
  "1 \<le> MAX_ORDER" "0 < (1::nat)" "1 + 2 ^ 1 \<le> length demo_pages" "length demo_pages < 2 ^ 32"
  by (simp_all add: MAX_ORDER_def demo_pages_simps)

section \<open>Correctness of the buddy allocator\<close>

text \<open>
  C6: from a new zone, after any sequence of allocations of powers of two of pages and releases of
  blocks that were handed out, the blocks handed out are pairwise disjoint and inside the zone, and
  the pages that are not handed out are exactly the ones the zone counts as free.
\<close>

theorem buddy_blocks_disjoint:
  assumes "H \<le> MAX_ORDER" "0 < first" "first + 2 ^ H \<le> length pages" "length pages < 2 ^ 32"
    "free_next (pages ! first) = - 1" "free_prev (pages ! first) = - 1" "zone_new junk first (2 ^ H) = Inr z"
    and "buddy_step\<^sup>*\<^sup>* (z, pages, []) (z', pages', live)"
  shows "distinct live \<and>
         (\<forall>x \<in> set live. range_of x \<subseteq> {first ..< first + 2 ^ H}) \<and>
         (\<forall>x \<in> set live. \<forall>y \<in> set live. x \<noteq> y \<longrightarrow> range_of x \<inter> range_of y = {}) \<and>
         z_free_pages z' = 2 ^ H - card (\<Union>x \<in> set live. range_of x)"
proof -
  from buddy_reachable_inv[OF assms(8) buddy_inv_new[OF assms(1-7)]] obtain F where
    F: "distinct live" "\<forall>x \<in> set live. \<forall>y \<in> set live. x \<noteq> y \<longrightarrow> range_of x \<inter> range_of y = {}"
      "(\<Union>x \<in> set live. range_of x) \<inter> shift first (free_pages F) = {}"
      "(\<Union>x \<in> set live. range_of x) \<union> shift first (free_pages F) = shift first {..< 2 ^ H}"
      "z_free_pages z' = card (free_pages F)" by (rule buddy_invE)
  let ?L = "\<Union>x \<in> set live. range_of x"
  have all: "shift first {..< 2 ^ H} = {first ..< first + 2 ^ H}"
    using range_of_shift[of H first 0] by (simp add: range_of_def block_pages_def lessThan_atLeast0)
  have card: "card (shift first A) = card A" for A by (simp add: shift_def card_image inj_on_def)
  have "finite (?L \<union> shift first (free_pages F))" unfolding F(4) all by simp
  then have "finite ?L" "finite (shift first (free_pages F))" by (simp_all only: finite_Un)
  then have "card ?L + card (free_pages F) = 2 ^ H"
    using card_Un_disjoint[of ?L "shift first (free_pages F)"] F(3,4) card all by simp
  with F all show ?thesis by auto
qed

theorem buddy_blocks_disjoint_witness:
  "\<exists>z' :: buddy_zone. (\<forall>x \<in> set [(0, 1)]. range_of x \<subseteq> {1 ..< 1 + 2 ^ 1}) \<and>
        z_free_pages z' = 2 ^ 1 - card (\<Union>x \<in> set [(0, 1)]. range_of x)"
proof -
  obtain z z1 pages1 where z: "zone_new 0 1 (2 ^ 1) = Inr z"
    "buddy_step\<^sup>*\<^sup>* (z, demo_pages, []) (z1, pages1, [(0, 1)])" by (rule demo_run)
  from buddy_blocks_disjoint[OF demo_prems demo_pages_simps(2,3) z] show ?thesis by blast
qed

text \<open>
  C7: when every block has been returned, the zone has coalesced completely: the free list of the
  highest order starts with block \<open>0\<close> and every other free list is empty, as in a new zone.
\<close>

theorem buddy_coalesces:
  assumes "H \<le> MAX_ORDER" "0 < first" "first + 2 ^ H \<le> length pages" "length pages < 2 ^ 32"
    "free_next (pages ! first) = - 1" "free_prev (pages ! first) = - 1" "zone_new junk first (2 ^ H) = Inr z"
    and "buddy_step\<^sup>*\<^sup>* (z, pages, []) (z', pages', [])"
  shows "z_free_pages z' = 2 ^ H \<and>
         (\<forall>k \<le> H. bo_freelist (z_orders z' ! k) = (if k = H then 0 else - 1))"
proof -
  from buddy_reachable_inv[OF assms(8) buddy_inv_new[OF assms(1-7)]] obtain F where
    F: "zone_rep z' pages' F" "z_highest_order z' = H" "shift first (free_pages F) = shift first {..< 2 ^ H}"
      "z_free_pages z' = card (free_pages F)" by (auto elim: buddy_invE)
  have all: "free_pages F = {..< 2 ^ H}" using F(3) by (simp add: shift_ops set_eq_subset)
  from all_free_coalesced[of H F] zone_repD(2)[OF F(1)] F(2) all
  have "F H = [0]" "\<And>k. k \<noteq> H \<Longrightarrow> F k = []" by auto
  with zone_rep_order[OF F(1)] F(2,4) all show ?thesis by (auto simp: order_rep_def)
qed

theorem buddy_coalesces_witness:
  "\<exists>z' :: buddy_zone. z_free_pages z' = 2 ^ 1 \<and> (\<forall>k \<le> 1. bo_freelist (z_orders z' ! k) = (if k = 1 then 0 else - 1))"
proof -
  obtain z z2 pages2 where z: "zone_new 0 1 (2 ^ 1) = Inr z"
    "buddy_step\<^sup>*\<^sup>* (z, demo_pages, []) (z2, pages2, [])" by (rule demo_run)
  from buddy_coalesces[OF demo_prems demo_pages_simps(2,3) z] show ?thesis by blast
qed

text \<open>
  C10: a request for a single page never panics the kernel: it is refused with \<open>ENOMEM\<close> exactly when
  all pages of the zone are handed out, and gives a page that was not handed out otherwise.
\<close>

theorem buddy_single_page:
  assumes "H \<le> MAX_ORDER" "0 < first" "first + 2 ^ H \<le> length pages" "length pages < 2 ^ 32"
    "free_next (pages ! first) = - 1" "free_prev (pages ! first) = - 1" "zone_new junk first (2 ^ H) = Inr z"
    and "buddy_step\<^sup>*\<^sup>* (z, pages, []) (z', pages', live)"
  shows "if z_free_pages z' = 0 then alloc_block z' pages' 1 = Inr (Inl ENOMEM, z', pages')
         else \<exists>page z'' pages''. alloc_block z' pages' 1 = Inr (Inr page, z'', pages'') \<and>
                page \<in> {first ..< first + 2 ^ H} \<and> page \<notin> (\<Union>x \<in> set live. range_of x)"
proof -
  from buddy_reachable_inv[OF assms(8) buddy_inv_new[OF assms(1-7)]] obtain F where
    F: "zone_rep z' pages' F" "z_first_page z' = first" "z_highest_order z' = H"
      "(\<Union>x \<in> set live. range_of x) \<inter> shift first (free_pages F) = {}"
      "z_free_pages z' = card (free_pages F)" by (rule buddy_invE)
  show ?thesis
  proof (cases "z_free_pages z' = 0")
    case False
    then have "free_pages F \<noteq> {}" using F(5) by auto
    then obtain j b where "b \<in> set (F j)" unfolding free_pages_def by blast
    then have j: "F j \<noteq> []" by auto
    have one: "order_for 1 = Inr 0" using order_for_power[of 0] by simp
    from alloc_block_spec[where j = j, OF F(1) _ _ one _ j] False obtain b z'' pages'' where
      b: "alloc_block z' pages' 1 = Inr (Inr (first + b), z'', pages'')" "b + 1 \<le> 2 ^ H"
        "block_pages 0 b \<subseteq> free_pages F" using F(2,3) by auto
    have "first + b \<in> shift first (free_pages F)" using b(3) by (auto simp: block_pages_def shift_def)
    then have "first + b \<notin> (\<Union>x \<in> set live. range_of x)" using F(4) by blast
    with b False show ?thesis by auto
  qed (simp add: alloc_block_def)
qed

theorem buddy_single_page_witness:
  "\<exists>z' pages' page z'' pages''. alloc_block z' pages' 1 = Inr (Inr page, z'', pages'') \<and>
     page \<in> {1 ..< 1 + 2 ^ 1} \<and> page \<notin> (\<Union>x \<in> set [(0, 1)]. range_of x)"
proof -
  obtain z z1 pages1 where z: "zone_new 0 1 (2 ^ 1) = Inr z"
    "buddy_step\<^sup>*\<^sup>* (z, demo_pages, []) (z1, pages1, [(0, 1)])" and f: "z_free_pages z1 = 1" by (rule demo_run)
  from buddy_single_page[OF demo_prems demo_pages_simps(2,3) z, unfolded f] show ?thesis
    by (simp del: One_nat_def) blast
qed

text \<open>
  C11: a request that passes the check on the number of free pages succeeds exactly when
  some free list of its order or above has a block. Otherwise the search for a larger block fails
  the assertion on the order and panics the kernel, where the caller expects \<open>ENOMEM\<close>.
\<close>

theorem buddy_alloc_exact:
  assumes "zone_rep z pages F" and "0 < n" and "n \<le> z_free_pages z"
  shows "\<exists>k. order_for n = Inr k \<and> n \<le> 2 ^ k \<and>
    (if \<exists>j \<ge> k. F j \<noteq> []
     then \<exists>b z' pages' F'. alloc_block z pages n = Inr (Inr (z_first_page z + b), z', pages') \<and>
            zone_rep z' pages' F' \<and> block_pages k b \<subseteq> free_pages F \<and>
            free_pages F' = free_pages F - block_pages k b
     else alloc_block z pages n = Inl AssertFailed)"
proof -
  from order_for_least[OF assms(2)] obtain k where k: "order_for n = Inr k" "n \<le> 2 ^ k" by blast
  show ?thesis
  proof (cases "\<exists>j \<ge> k. F j \<noteq> []")
    case True
    then obtain j where j: "k \<le> j" "F j \<noteq> []" by blast
    from alloc_block_spec[where j = j, OF assms k(1) j] True k show ?thesis by auto
  next
    case False
    with alloc_internal_none[OF assms(1), of k] k assms(3) show ?thesis by (auto simp: alloc_block_def)
  qed
qed

theorem buddy_alloc_exact_witness:
  "\<exists>z k. order_for 2 = Inr k \<and> 2 \<le> (2::nat) ^ k \<and>
     (if \<exists>j \<ge> k. whole 1 j \<noteq> []
      then \<exists>b z' pages' F'. alloc_block z demo_pages 2 = Inr (Inr (z_first_page z + b), z', pages') \<and>
             zone_rep z' pages' F' \<and> block_pages k b \<subseteq> free_pages (whole 1) \<and>
             free_pages F' = free_pages (whole 1) - block_pages k b
      else alloc_block z demo_pages 2 = Inl AssertFailed)"
proof -
  from zone_new_rep[OF demo_prems demo_pages_simps(2,3), of 0] obtain z where
    z: "zone_rep z demo_pages (whole 1)" "z_free_pages z = 2 ^ 1" by blast
  have "0 < (2::nat)" "2 \<le> z_free_pages z" using z(2) by simp_all
  from buddy_alloc_exact[OF z(1) this] show ?thesis by blast
qed

section \<open>A zone as a source of single pages\<close>

definition zone_good :: "phys_page list \<Rightarrow> buddy_zone \<Rightarrow> freelists \<Rightarrow> bool" where
  "zone_good pages z F \<longleftrightarrow> zone_rep z pages F \<and> z_free_pages z = card (free_pages F)"

lemma zone_free_bounds:
  assumes "zone_rep z pages F"
  shows "shift (z_first_page z) (free_pages F) \<subseteq> {z_first_page z ..< z_first_page z + 2 ^ z_highest_order z}"
  using zone_repD(2)[OF assms] blocks_okD(3)
  by (fastforce simp: shift_def free_pages_def block_pages_def)

lemma alloc_one:
  assumes good: "zone_good pages z F" and ne: "z_free_pages z \<noteq> 0"
  shows "\<exists>p z' pages' F'. alloc_block z pages 1 = Inr (Inr p, z', pages') \<and> zone_good pages' z' F' \<and>
     z_first_page z' = z_first_page z \<and> z_highest_order z' = z_highest_order z \<and>
     z_free_pages z' = z_free_pages z - 1 \<and> outside z pages pages' \<and>
     p \<in> shift (z_first_page z) (free_pages F) \<and>
     shift (z_first_page z) (free_pages F') = shift (z_first_page z) (free_pages F) - {p}"
proof -
  have rep: "zone_rep z pages F" and fc: "z_free_pages z = card (free_pages F)"
    using good by (simp_all add: zone_good_def)
  then have "free_pages F \<noteq> {}" using ne by auto
  then obtain j b0 where "b0 \<in> set (F j)" unfolding free_pages_def by blast
  then have j: "F j \<noteq> []" by auto
  have one: "order_for 1 = Inr 0" using order_for_power[of 0] by simp
  from alloc_block_spec[where j = j, OF rep _ _ one _ j] ne obtain b z' pages' F' where
    b: "alloc_block z pages 1 = Inr (Inr (z_first_page z + b), z', pages')" "zone_rep z' pages' F'"
      "z_first_page z' = z_first_page z" "z_highest_order z' = z_highest_order z"
      "z_free_pages z' = z_free_pages z - 1" "outside z pages pages'" "block_pages 0 b \<subseteq> free_pages F"
      "free_pages F' = free_pages F - block_pages 0 b" by auto
  have bp: "block_pages 0 b = {b}" by (auto simp: block_pages_def)
  have "z_free_pages z' = card (free_pages F')" using b(5,7,8) fc finite_free_pages[OF rep] by (simp add: bp)
  moreover have "shift (z_first_page z) (free_pages F') = shift (z_first_page z) (free_pages F) - {z_first_page z + b}"
    unfolding b(8) shift_ops(2) by (simp add: bp shift_def)
  ultimately show ?thesis using b bp by (intro exI[of _ "z_first_page z + b"]) (auto simp: zone_good_def shift_def)
qed

lemma free_one:
  assumes good: "zone_good pages z F" and p: "contains_page z p" "p \<notin> shift (z_first_page z) (free_pages F)"
  shows "\<exists>z' pages' F'. free_block z pages p 1 = Inr (z', pages') \<and> zone_good pages' z' F' \<and>
     z_first_page z' = z_first_page z \<and> z_highest_order z' = z_highest_order z \<and>
     z_free_pages z' = Suc (z_free_pages z) \<and> untouched z pages pages' \<and>
     shift (z_first_page z) (free_pages F') = shift (z_first_page z) (free_pages F) \<union> {p}"
proof -
  have rep: "zone_rep z pages F" and fc: "z_free_pages z = card (free_pages F)"
    using good by (simp_all add: zone_good_def)
  have "z_num_pages z = 2 ^ z_highest_order z" using zone_repD(1)[OF rep] by (simp add: zone_frame_def)
  with p(1) obtain b where b: "p = z_first_page z + b" "b + 1 \<le> 2 ^ z_highest_order z"
    by (metis Suc_eq_plus1 Suc_leI contains_page_def le_Suc_ex nat_add_left_cancel_less)
  have bp: "block_pages 0 b = {b}" by (auto simp: block_pages_def)
  have nin: "b \<notin> free_pages F" using p(2) b(1) by (auto simp: shift_def)
  from free_block_spec[OF rep, of 0 b] b nin obtain z' pages' F' where
    *: "free_block z pages p 1 = Inr (z', pages')" "zone_rep z' pages' F'"
      "z_first_page z' = z_first_page z" "z_highest_order z' = z_highest_order z"
      "z_free_pages z' = Suc (z_free_pages z)" "untouched z pages pages'"
      "free_pages F' = free_pages F \<union> {b}" by (auto simp: bp aligned_def)
  have "z_free_pages z' = card (free_pages F')" using *(5,7) fc finite_free_pages[OF rep] nin by simp
  moreover have "shift (z_first_page z) (free_pages F') = shift (z_first_page z) (free_pages F) \<union> {p}"
    unfolding *(7) by (simp add: shift_def b(1))
  ultimately show ?thesis using * by (auto simp: zone_good_def)
qed

definition zone_avail :: "nat set \<Rightarrow> buddy_zone \<times> phys_page list \<Rightarrow> nat set \<Rightarrow> bool" where
  "zone_avail A s V \<longleftrightarrow> (case s of (z, pages) \<Rightarrow>
     A = {z_first_page z ..< z_first_page z + 2 ^ z_highest_order z} \<and>
     (\<exists>F. zone_good pages z F \<and> V = shift (z_first_page z) (free_pages F)))"

interpretation zone_src: page_source "\<lambda>(z, pages). alloc_block z pages 1"
    "\<lambda>(z, pages) p. free_block z pages p 1" zone_avail
proof (unfold_locales, goal_cases)
  case (1 A s V)
  then show ?case using zone_free_bounds by (auto simp: zone_avail_def zone_good_def)
next
  case (2 A s)
  obtain z pages where s: "s = (z, pages)" by fastforce
  with 2 obtain F where "zone_good pages z F" "free_pages F = {}" by (auto simp: zone_avail_def shift_def)
  then have "z_free_pages z = 0" by (simp add: zone_good_def)
  then show ?case by (simp add: s alloc_block_def)
next
  case (3 A s V)
  obtain z pages where s: "s = (z, pages)" by fastforce
  with 3 obtain F where F: "zone_good pages z F" "V = shift (z_first_page z) (free_pages F)"
      "A = {z_first_page z ..< z_first_page z + 2 ^ z_highest_order z}" by (auto simp: zone_avail_def)
  have "free_pages F \<noteq> {}" using 3(2) F(2) by (auto simp: shift_def)
  then have "z_free_pages z \<noteq> 0" using F(1) finite_free_pages by (auto simp: zone_good_def)
  from alloc_one[OF F(1) this] obtain p z' pages' F' where
    "alloc_block z pages 1 = Inr (Inr p, z', pages')" "zone_good pages' z' F'"
    "z_first_page z' = z_first_page z" "z_highest_order z' = z_highest_order z"
    "p \<in> V" "shift (z_first_page z) (free_pages F') = V - {p}" using F(2) by blast
  then show ?case using F(3) s by (auto simp: zone_avail_def)
next
  case (4 A s V p)
  obtain z pages where s: "s = (z, pages)" by fastforce
  with 4 obtain F where F: "zone_good pages z F" "V = shift (z_first_page z) (free_pages F)"
      "A = {z_first_page z ..< z_first_page z + 2 ^ z_highest_order z}" by (auto simp: zone_avail_def)
  have "z_num_pages z = 2 ^ z_highest_order z"
    using zone_repD(1)[of z pages F] F(1) by (simp add: zone_good_def zone_frame_def)
  then have "contains_page z p" using 4(2) F(3) by (auto simp: contains_page_def)
  from free_one[OF F(1) this] 4(3) F(2) obtain z' pages' F' where
    "free_block z pages p 1 = Inr (z', pages')" "zone_good pages' z' F'"
    "z_first_page z' = z_first_page z" "z_highest_order z' = z_highest_order z"
    "shift (z_first_page z) (free_pages F') = V \<union> {p}" by blast
  then show ?case using F(3) s by (auto simp: zone_avail_def)
qed

end
