(* ===== verification/PhysicalRegion.thy ===== *)
theory PhysicalRegion
  imports BuddyZone
begin

text \<open>
  Physical regions (\<open>kernel/memory/PhysicalRegion.cpp\<close>), the page interface of the memory manager
  (\<open>kernel/memory/MemoryManager.cpp\<close>) and the reference counts of physical pages
  (\<open>kernel/memory/PhysicalPage.{h,cpp}\<close>). Every operation runs under the lock of its region, so it is
  one step.
\<close>

section \<open>Regions\<close>

record phys_region =
  pr_zones :: "buddy_zone list"
  pr_start_page :: nat
  pr_num_pages :: nat
  pr_free_pages :: nat
  pr_reserved :: bool

definition is_value :: "'a ret \<Rightarrow> bool" where
  "is_value r = (case r of Inl _ \<Rightarrow> False | Inr _ \<Rightarrow> True)"

text \<open>The loop of the constructor that fills the region with zones.\<close>

function fill_zones ::
    "u8 \<Rightarrow> bool \<Rightarrow> nat \<Rightarrow> nat \<Rightarrow> buddy_zone list \<Rightarrow> phys_page list \<Rightarrow>
     (buddy_zone list \<times> phys_page list) run" where
  "fill_zones junk used start_page num_pages zones pages =
     (if num_pages = 0 then Inr (zones, pages)
      else
        let zone_order = (if highest_bit num_pages > MAX_ORDER then MAX_ORDER else highest_bit num_pages);
            zone_num_pages = 2 ^ zone_order
        in bindR (zone_new junk start_page zone_num_pages) (\<lambda>zone.
             bindR (if used
                    then bindR (alloc_block zone pages zone_num_pages) (\<lambda>(res, zone1, pages1).
                           bindR (assertR (is_value res)) (\<lambda>_. Inr (zone1, pages1)))
                    else Inr (zone, pages)) (\<lambda>(zone2, pages2).
               fill_zones junk used (start_page + zone_num_pages) (num_pages - zone_num_pages)
                 (zones @ [zone2]) pages2)))"
  by pat_completeness auto

termination fill_zones
  by (relation "measure (\<lambda>(junk, used, start_page, num_pages, zones, pages). num_pages)") auto

declare fill_zones.simps [simp del]

definition region_new ::
    "u8 \<Rightarrow> nat \<Rightarrow> nat \<Rightarrow> bool \<Rightarrow> bool \<Rightarrow> phys_page list \<Rightarrow> (phys_region \<times> phys_page list) run" where
  "region_new junk start_page num_pages reserv used pages =
     (let r = \<lparr>pr_zones = [], pr_start_page = start_page, pr_num_pages = num_pages,
               pr_free_pages = (if used then 0 else num_pages), pr_reserved = reserv\<rparr>
      in if reserv then Inr (r, pages)
         else bindR (fill_zones junk used start_page num_pages [] pages) (\<lambda>(zones, pages1).
                Inr (r\<lparr>pr_zones := zones\<rparr>, pages1)))"

text \<open>The loop over the zones of \<open>alloc_page\<close> and \<open>alloc_pages\<close>: the first zone that has a block.\<close>

fun zones_alloc ::
    "nat \<Rightarrow> buddy_zone list \<Rightarrow> phys_page list \<Rightarrow> (nat option \<times> buddy_zone list \<times> phys_page list) run" where
  "zones_alloc num_pages [] pages = Inr (None, [], pages)"
| "zones_alloc num_pages (z # zs) pages =
     bindR (alloc_block z pages num_pages) (\<lambda>(res, z1, pages1).
       case res of
         Inr page \<Rightarrow> Inr (Some page, z1 # zs, pages1)
       | Inl _ \<Rightarrow> bindR (zones_alloc num_pages zs pages1) (\<lambda>(res1, zs1, pages2).
                  Inr (res1, z1 # zs1, pages2)))"

definition alloc_page :: "phys_region \<Rightarrow> phys_page list \<Rightarrow> (nat ret \<times> phys_region \<times> phys_page list) run" where
  "alloc_page r pages =
     (if pr_reserved r then Inr (Inl ENOMEM, r, pages)
      else if pr_free_pages r = 0 then Inr (Inl ENOMEM, r, pages)
      else
        bindR (zones_alloc 1 (pr_zones r) pages) (\<lambda>(res, zones, pages1).
          case res of
            Some page \<Rightarrow> Inr (Inr page, r\<lparr>pr_zones := zones, pr_free_pages := pr_free_pages r - 1\<rparr>, pages1)
          | None \<Rightarrow> Inr (Inl ENOMEM, r\<lparr>pr_zones := zones\<rparr>, pages1)))"

definition alloc_pages ::
    "phys_region \<Rightarrow> phys_page list \<Rightarrow> nat \<Rightarrow> (nat ret \<times> phys_region \<times> phys_page list) run" where
  "alloc_pages r pages num_pages =
     (if pr_reserved r then Inr (Inl ENOMEM, r, pages)
      else if pr_free_pages r < num_pages then Inr (Inl ENOMEM, r, pages)
      else
        bindR (order_for num_pages) (\<lambda>order.
          if order > MAX_ORDER then Inr (Inl EINVAL, r, pages)
          else
            bindR (zones_alloc num_pages (pr_zones r) pages) (\<lambda>(res, zones, pages1).
              case res of
                Some page \<Rightarrow> Inr (Inr page, r\<lparr>pr_zones := zones, pr_free_pages := pr_free_pages r - num_pages\<rparr>, pages1)
              | None \<Rightarrow> Inr (Inl ENOMEM, r\<lparr>pr_zones := zones\<rparr>, pages1))))"

fun zones_free ::
    "nat \<Rightarrow> buddy_zone list \<Rightarrow> phys_page list \<Rightarrow> (buddy_zone list \<times> phys_page list) run" where
  "zones_free page [] pages = Inl AssertFailed"
| "zones_free page (z # zs) pages =
     (if contains_page z page
      then bindR (free_block z pages page 1) (\<lambda>(z1, pages1). Inr (z1 # zs, pages1))
      else bindR (zones_free page zs pages) (\<lambda>(zs1, pages1). Inr (z # zs1, pages1)))"

definition region_contains_page :: "phys_region \<Rightarrow> nat \<Rightarrow> bool" where
  "region_contains_page r page \<longleftrightarrow> page \<ge> pr_start_page r \<and> page < pr_start_page r + pr_num_pages r"

definition free_page :: "phys_region \<Rightarrow> phys_page list \<Rightarrow> nat \<Rightarrow> (phys_region \<times> phys_page list) run" where
  "free_page r pages page =
     bindR (assertR (\<not> pr_reserved r)) (\<lambda>_.
       bindR (assertR (region_contains_page r page)) (\<lambda>_.
         bindR (zones_free page (pr_zones r) pages) (\<lambda>(zones, pages1).
           Inr (r\<lparr>pr_zones := zones, pr_free_pages := pr_free_pages r + 1\<rparr>, pages1))))"

text \<open>\<open>init\<close> writes the free list links of the first page of each zone.\<close>

fun init_zones :: "buddy_zone list \<Rightarrow> phys_page list \<Rightarrow> phys_page list run" where
  "init_zones [] pages = Inr pages"
| "init_zones (z # zs) pages =
     bindR (upd_physical_page pages (z_first_page z) (set_free_prev (- 1))) (\<lambda>pages1.
       bindR (upd_physical_page pages1 (z_first_page z) (set_free_next (- 1))) (\<lambda>pages2.
         init_zones zs pages2))"

definition region_init :: "phys_region \<Rightarrow> phys_page list \<Rightarrow> phys_page list run" where
  "region_init r pages = (if pr_reserved r then Inr pages else init_zones (pr_zones r) pages)"

section \<open>The page interface of the memory manager\<close>

record memory_manager =
  mm_pages :: "phys_page list"
  mm_regions :: "phys_region list"

fun regions_alloc ::
    "(phys_region \<Rightarrow> phys_page list \<Rightarrow> (nat ret \<times> phys_region \<times> phys_page list) run) \<Rightarrow>
     phys_region list \<Rightarrow> phys_page list \<Rightarrow> (nat option \<times> phys_region list \<times> phys_page list) run" where
  "regions_alloc alloc [] pages = Inr (None, [], pages)"
| "regions_alloc alloc (r # rs) pages =
     bindR (alloc r pages) (\<lambda>(res, r1, pages1).
       case res of
         Inr page \<Rightarrow> Inr (Some page, r1 # rs, pages1)
       | Inl _ \<Rightarrow> bindR (regions_alloc alloc rs pages1) (\<lambda>(res1, rs1, pages2).
                  Inr (res1, r1 # rs1, pages2)))"

definition fresh_page :: "phys_page \<Rightarrow> phys_page" where
  "fresh_page p = set_reserved False (set_ref_count 1 p)"

text \<open>
  \<open>alloc_physical_page\<close>. When no region has a page, \<open>DiskDevice::free_pages(4)\<close> drops pages of the
  disk cache; \<open>reclaim\<close> is its effect, the number of pages it freed and the new state.
\<close>

partial_function (option) alloc_physical_page ::
    "(memory_manager \<Rightarrow> nat \<times> memory_manager) \<Rightarrow> memory_manager \<Rightarrow> (nat \<times> memory_manager) prun" where
  "alloc_physical_page reclaim mm =
     (case regions_alloc alloc_page (mm_regions mm) (mm_pages mm) of
        Inl e \<Rightarrow> Some (Inl e)
      | Inr (Some ret, rs, pages) \<Rightarrow>
          Some (bindR (upd_physical_page pages ret fresh_page) (\<lambda>pages1.
            Inr (ret, \<lparr>mm_pages = pages1, mm_regions = rs\<rparr>)))
      | Inr (None, rs, pages) \<Rightarrow>
          (case reclaim \<lparr>mm_pages = pages, mm_regions = rs\<rparr> of (freed, mm1) \<Rightarrow>
             if freed \<ge> 1 then alloc_physical_page reclaim mm1 else Some (Inl AssertFailed)))"

text \<open>\<open>alloc_physical_pages\<close>: the loop \<open>while(num_pages--)\<close> that collects single pages.\<close>

fun collect_pages ::
    "(memory_manager \<Rightarrow> nat \<times> memory_manager) \<Rightarrow> nat \<Rightarrow> memory_manager \<Rightarrow> (nat list \<times> memory_manager) prun" where
  "collect_pages reclaim 0 mm = Some (Inr ([], mm))"
| "collect_pages reclaim (Suc n) mm =
     bindP (alloc_physical_page reclaim mm) (\<lambda>(page, mm1).
       bindP (collect_pages reclaim n mm1) (\<lambda>(ps, mm2). Some (Inr (page # ps, mm2))))"

fun mark_allocated :: "nat \<Rightarrow> nat \<Rightarrow> phys_page list \<Rightarrow> phys_page list run" where
  "mark_allocated first 0 pages = Inr pages"
| "mark_allocated first (Suc n) pages =
     bindR (upd_physical_page pages first fresh_page) (\<lambda>pages1. mark_allocated (Suc first) n pages1)"

definition alloc_contiguous_physical_pages ::
    "memory_manager \<Rightarrow> nat \<Rightarrow> (nat list ret \<times> memory_manager) run" where
  "alloc_contiguous_physical_pages mm num_pages =
     bindR (regions_alloc (\<lambda>r pages. alloc_pages r pages num_pages) (mm_regions mm) (mm_pages mm))
       (\<lambda>(res, rs, pages). case res of
          Some first \<Rightarrow> bindR (mark_allocated first num_pages pages) (\<lambda>pages1.
            Inr (Inr [first ..< first + num_pages], \<lparr>mm_pages = pages1, mm_regions = rs\<rparr>))
        | None \<Rightarrow> Inr (Inl ENOMEM, \<lparr>mm_pages = pages, mm_regions = rs\<rparr>))"

fun regions_free :: "nat \<Rightarrow> phys_region list \<Rightarrow> phys_page list \<Rightarrow> (phys_region list \<times> phys_page list) run" where
  "regions_free page [] pages = Inl AssertFailed"
| "regions_free page (r # rs) pages =
     (if region_contains_page r page
      then bindR (free_page r pages page) (\<lambda>(r1, pages1). Inr (r1 # rs, pages1))
      else bindR (regions_free page rs pages) (\<lambda>(rs1, pages1). Inr (r # rs1, pages1)))"

definition free_physical_page :: "memory_manager \<Rightarrow> nat \<Rightarrow> memory_manager run" where
  "free_physical_page mm page =
     bindR (get_physical_page (mm_pages mm) page) (\<lambda>p.
       bindR (assertR (ref_count p = 0)) (\<lambda>_.
         bindR (regions_free page (mm_regions mm) (mm_pages mm)) (\<lambda>(rs, pages).
           Inr \<lparr>mm_pages = pages, mm_regions = rs\<rparr>)))"

section \<open>Reference counts\<close>

definition page_ref :: "memory_manager \<Rightarrow> nat \<Rightarrow> memory_manager run" where
  "page_ref mm page =
     bindR (get_physical_page (mm_pages mm) page) (\<lambda>p.
       bindR (upd_physical_page (mm_pages mm) page (set_ref_count (ref_count p + 1))) (\<lambda>pages.
         bindR (assertR (ref_count p \<noteq> 0xFFFF)) (\<lambda>_. Inr (mm\<lparr>mm_pages := pages\<rparr>))))"

definition page_release :: "memory_manager \<Rightarrow> nat \<Rightarrow> memory_manager run" where
  "page_release mm page =
     bindR (get_physical_page (mm_pages mm) page) (\<lambda>p.
       bindR (assertR (ref_count p = 0)) (\<lambda>_.
         if \<not> reserved p then free_physical_page mm page else Inr mm))"

definition page_unref :: "memory_manager \<Rightarrow> nat \<Rightarrow> memory_manager run" where
  "page_unref mm page =
     bindR (get_physical_page (mm_pages mm) page) (\<lambda>p.
       bindR (upd_physical_page (mm_pages mm) page (set_ref_count (ref_count p - 1))) (\<lambda>pages.
         bindR (assertR (ref_count p \<noteq> 0)) (\<lambda>_.
           if ref_count p = 1 then page_release (mm\<lparr>mm_pages := pages\<rparr>) page
           else Inr (mm\<lparr>mm_pages := pages\<rparr>))))"

definition used_pmem :: "memory_manager \<Rightarrow> nat" where
  "used_pmem mm = sum_list (map (\<lambda>r. pr_num_pages r - pr_free_pages r) (mm_regions mm)) * 4096"

section \<open>Zones that tile a region\<close>

text \<open>A zone depends on the page array only through its free pages.\<close>

lemma zone_rep_cong:
  assumes "zone_rep z pages F" "length pages' = length pages"
    and "\<And>b. b \<in> free_pages F \<Longrightarrow> pages' ! (z_first_page z + b) = pages ! (z_first_page z + b)"
  shows "zone_rep z pages' F"
proof -
  have "order_rep (z_highest_order z) (nx z pages') (pv z pages') k (z_orders z ! k) (F k)"
    if "k \<le> z_highest_order z" for k
  proof -
    have "b \<in> free_pages F" if "b \<in> set (F k)" for b
      using block_in_free[of b F k, OF that] block_nonempty[of b k] by blast
    then have "dll (nx z pages') (pv z pages') (- 1) (F k) (- 1) = dll (nx z pages) (pv z pages) (- 1) (F k) (- 1)"
      by (intro dll_cong) (simp add: assms(3) nx_def pv_def)
    with zone_rep_order[OF assms(1) that] show ?thesis by (simp add: order_rep_def)
  qed
  with zone_repD[OF assms(1)] zone_frame_length[OF _ assms(2)] show ?thesis by (simp add: zone_rep_def)
qed

lemma zone_good_cong:
  assumes "zone_good pages z F" "length pages' = length pages"
    and "\<And>i. i \<in> shift (z_first_page z) (free_pages F) \<Longrightarrow> pages' ! i = pages ! i"
  shows "zone_good pages' z F"
proof -
  have "zone_rep z pages' F"
    by (rule zone_rep_cong[of z pages]) (use assms in \<open>auto simp: zone_good_def shift_def\<close>)
  with assms(1) show ?thesis by (simp add: zone_good_def)
qed

fun tiles :: "nat \<Rightarrow> buddy_zone list \<Rightarrow> nat \<Rightarrow> bool" where
  "tiles s [] e \<longleftrightarrow> s = e"
| "tiles s (z # zs) e \<longleftrightarrow> z_first_page z = s \<and> tiles (s + 2 ^ z_highest_order z) zs e"

fun region_free :: "buddy_zone list \<Rightarrow> freelists list \<Rightarrow> nat set" where
  "region_free (z # zs) (F # Fs) = shift (z_first_page z) (free_pages F) \<union> region_free zs Fs"
| "region_free _ _ = {}"

lemma tiles_le: "tiles s zs e \<Longrightarrow> s \<le> e"
  by (induction zs arbitrary: s) (auto dest: add_leD1)

lemma region_free_bounds:
  "list_all2 (zone_good pages) zs Fs \<Longrightarrow> tiles s zs e \<Longrightarrow> region_free zs Fs \<subseteq> {s ..< e}"
proof (induction zs arbitrary: s Fs)
  case (Cons z zs)
  then obtain F Gs where F: "Fs = F # Gs" "zone_good pages z F" "list_all2 (zone_good pages) zs Gs"
    by (auto simp: list_all2_Cons1)
  from Cons.IH[OF F(3)] Cons.prems(2) tiles_le zone_free_bounds[of z pages F] F(1,2) show ?case
    by (fastforce simp: zone_good_def)
qed simp

lemma zones_good_cong:
  "list_all2 (zone_good pages) zs Fs \<Longrightarrow> length pages' = length pages \<Longrightarrow>
   (\<And>i. i \<in> region_free zs Fs \<Longrightarrow> pages' ! i = pages ! i) \<Longrightarrow> list_all2 (zone_good pages') zs Fs"
proof (induction zs arbitrary: Fs)
  case (Cons z zs)
  then obtain F Gs where F: "Fs = F # Gs" "zone_good pages z F" "list_all2 (zone_good pages) zs Gs"
    by (auto simp: list_all2_Cons1)
  have "zone_good pages' z F" by (rule zone_good_cong[OF F(2)]) (use Cons.prems F(1) in auto)
  moreover have "list_all2 (zone_good pages') zs Gs" by (rule Cons.IH[OF F(3)]) (use Cons.prems F(1) in auto)
  ultimately show ?case using F(1) by simp
qed simp

text \<open>Changing pages below a list of zones leaves the zones alone.\<close>

lemma zones_good_below:
  assumes "list_all2 (zone_good pages) zs Fs" "tiles s zs e" "length pages' = length pages"
    and "\<And>i. s \<le> i \<Longrightarrow> pages' ! i = pages ! i"
  shows "list_all2 (zone_good pages') zs Fs"
  by (rule zones_good_cong[OF assms(1,3)]) (use region_free_bounds[OF assms(1,2)] assms(4) in auto)

lemma zones_alloc_none:
  "sum_list (map z_free_pages zs) = 0 \<Longrightarrow> zones_alloc 1 zs pages = Inr (None, zs, pages)"
  by (induction zs) (simp_all add: alloc_block_def)

lemma zones_alloc_some:
  assumes "list_all2 (zone_good pages) zs Fs" "tiles s zs e" "sum_list (map z_free_pages zs) \<noteq> 0"
  shows "\<exists>p zs' pages' Fs'. zones_alloc 1 zs pages = Inr (Some p, zs', pages') \<and>
       list_all2 (zone_good pages') zs' Fs' \<and> tiles s zs' e \<and> length pages' = length pages \<and>
       sum_list (map z_free_pages zs) = Suc (sum_list (map z_free_pages zs')) \<and>
       p \<in> region_free zs Fs \<and> region_free zs' Fs' = region_free zs Fs - {p}"
  using assms
proof (induction zs arbitrary: s Fs)
  case (Cons z zs)
  then obtain F Gs where F: "Fs = F # Gs" "zone_good pages z F" "list_all2 (zone_good pages) zs Gs"
    by (auto simp: list_all2_Cons1)
  have t: "z_first_page z = s" "tiles (s + 2 ^ z_highest_order z) zs e" using Cons.prems by simp_all
  have rep: "zone_rep z pages F" using F(2) by (simp add: zone_good_def)
  show ?case
  proof (cases "z_free_pages z = 0")
    case True
    then have one: "alloc_block z pages 1 = Inr (Inl ENOMEM, z, pages)" by (simp add: alloc_block_def)
    have empty: "free_pages F = {}" using True F(2) finite_free_pages[OF rep] by (simp add: zone_good_def)
    have "sum_list (map z_free_pages zs) \<noteq> 0" using Cons.prems(3) True by simp
    from Cons.IH[OF F(3) t(2) this] obtain p zs' pages' Fs' where
      *: "zones_alloc 1 zs pages = Inr (Some p, zs', pages')" "list_all2 (zone_good pages') zs' Fs'"
        "tiles (s + 2 ^ z_highest_order z) zs' e" "length pages' = length pages"
        "sum_list (map z_free_pages zs) = Suc (sum_list (map z_free_pages zs'))"
        "p \<in> region_free zs Gs" "region_free zs' Fs' = region_free zs Gs - {p}" by blast
    have "zone_good pages' z F" by (rule zone_good_cong[OF F(2) *(4)]) (simp add: empty shift_def)
    moreover have "shift (z_first_page z) (free_pages F) = {}" using empty by (simp add: shift_def)
    moreover have "zones_alloc 1 (z # zs) pages = Inr (Some p, z # zs', pages')" using one *(1) by simp
    ultimately show ?thesis using True * F(1) t(1)
      by (intro exI[of _ p] exI[of _ "z # zs'"] exI[of _ pages'] exI[of _ "F # Fs'"]) simp
  next
    case False
    from alloc_one[OF F(2) False] obtain p z' pages' F' where
      *: "alloc_block z pages 1 = Inr (Inr p, z', pages')" "zone_good pages' z' F'"
        "z_first_page z' = z_first_page z" "z_highest_order z' = z_highest_order z"
        "z_free_pages z' = z_free_pages z - 1" "outside z pages pages'"
        "p \<in> shift (z_first_page z) (free_pages F)"
        "shift (z_first_page z) (free_pages F') = shift (z_first_page z) (free_pages F) - {p}" by blast
    have len: "length pages' = length pages" using *(6) by (simp add: outside_def)
    have "list_all2 (zone_good pages') zs Gs"
      by (rule zones_good_below[OF F(3) t(2) len]) (use *(6) t(1) in \<open>auto simp: outside_def\<close>)
    moreover have "p \<notin> region_free zs Gs"
      using *(7) zone_free_bounds[OF rep] region_free_bounds[OF F(3) t(2)] t(1) by fastforce
    moreover have "zones_alloc 1 (z # zs) pages = Inr (Some p, z' # zs, pages')" using *(1) by simp
    ultimately show ?thesis using False * F(1) t len
      by (intro exI[of _ p] exI[of _ "z' # zs"] exI[of _ pages'] exI[of _ "F' # Gs"]) auto
  qed
qed simp

lemma zones_free_spec:
  assumes "list_all2 (zone_good pages) zs Fs" "tiles s zs e" "s \<le> p" "p < e" "p \<notin> region_free zs Fs"
  shows "\<exists>zs' pages' Fs'. zones_free p zs pages = Inr (zs', pages') \<and>
       list_all2 (zone_good pages') zs' Fs' \<and> tiles s zs' e \<and> length pages' = length pages \<and>
       (\<forall>i < s. pages' ! i = pages ! i) \<and>
       sum_list (map z_free_pages zs') = Suc (sum_list (map z_free_pages zs)) \<and>
       region_free zs' Fs' = region_free zs Fs \<union> {p}"
  using assms
proof (induction zs arbitrary: s Fs)
  case (Cons z zs)
  then obtain F Gs where F: "Fs = F # Gs" "zone_good pages z F" "list_all2 (zone_good pages) zs Gs"
    by (auto simp: list_all2_Cons1)
  have t: "z_first_page z = s" "tiles (s + 2 ^ z_highest_order z) zs e" using Cons.prems by simp_all
  have num: "z_num_pages z = 2 ^ z_highest_order z"
    using zone_repD(1)[of z pages F] F(2) by (simp add: zone_good_def zone_frame_def)
  have nin: "p \<notin> shift (z_first_page z) (free_pages F)" "p \<notin> region_free zs Gs"
    using Cons.prems(5) F(1) by simp_all
  show ?case
  proof (cases "contains_page z p")
    case True
    from free_one[OF F(2) True nin(1)] obtain z' pages' F' where
      *: "free_block z pages p 1 = Inr (z', pages')" "zone_good pages' z' F'"
        "z_first_page z' = z_first_page z" "z_highest_order z' = z_highest_order z"
        "z_free_pages z' = Suc (z_free_pages z)" "untouched z pages pages'"
        "shift (z_first_page z) (free_pages F') = shift (z_first_page z) (free_pages F) \<union> {p}" by blast
    have len: "length pages' = length pages" using *(6) by (simp add: untouched_def)
    have "list_all2 (zone_good pages') zs Gs"
      by (rule zones_good_below[OF F(3) t(2) len]) (use *(6) t(1) in \<open>auto simp: untouched_def\<close>)
    moreover have "\<forall>i < s. pages' ! i = pages ! i" using *(6) t(1) by (simp add: untouched_def)
    moreover have "zones_free p (z # zs) pages = Inr (z' # zs, pages')" using True *(1) by simp
    ultimately show ?thesis using * F(1) t len
      by (intro exI[of _ "z' # zs"] exI[of _ pages'] exI[of _ "F' # Gs"]) auto
  next
    case False
    then have "s + 2 ^ z_highest_order z \<le> p" using Cons.prems(3) t(1) num by (simp add: contains_page_def)
    from Cons.IH[OF F(3) t(2) this Cons.prems(4) nin(2)] obtain zs' pages' Fs' where
      *: "zones_free p zs pages = Inr (zs', pages')" "list_all2 (zone_good pages') zs' Fs'"
        "tiles (s + 2 ^ z_highest_order z) zs' e" "length pages' = length pages"
        "\<forall>i < s + 2 ^ z_highest_order z. pages' ! i = pages ! i"
        "sum_list (map z_free_pages zs') = Suc (sum_list (map z_free_pages zs))"
        "region_free zs' Fs' = region_free zs Gs \<union> {p}" by blast
    have "zone_good pages' z F"
      by (rule zone_good_cong[OF F(2) *(4)])
        (use *(5) t(1) zone_free_bounds[of z pages F] F(2) in \<open>auto simp: zone_good_def\<close>)
    moreover have "zones_free p (z # zs) pages = Inr (z # zs', pages')" using False *(1) by simp
    ultimately show ?thesis using * F(1) t
      by (intro exI[of _ "z # zs'"] exI[of _ pages'] exI[of _ "F # Fs'"]) auto
  qed
qed simp

section \<open>A region as a source of single pages\<close>

definition region_rep :: "phys_region \<Rightarrow> phys_page list \<Rightarrow> freelists list \<Rightarrow> bool" where
  "region_rep r pages Fs \<longleftrightarrow> \<not> pr_reserved r \<and> list_all2 (zone_good pages) (pr_zones r) Fs \<and>
     tiles (pr_start_page r) (pr_zones r) (pr_start_page r + pr_num_pages r) \<and>
     pr_free_pages r = sum_list (map z_free_pages (pr_zones r))"

definition region_avail :: "nat set \<Rightarrow> phys_region \<times> phys_page list \<Rightarrow> nat set \<Rightarrow> bool" where
  "region_avail A s V \<longleftrightarrow> (case s of (r, pages) \<Rightarrow>
     A = {pr_start_page r ..< pr_start_page r + pr_num_pages r} \<and>
     (\<exists>Fs. region_rep r pages Fs \<and> V = region_free (pr_zones r) Fs))"

lemma zones_good_count:
  "list_all2 (zone_good pages) zs Fs \<Longrightarrow> tiles s zs e \<Longrightarrow>
   sum_list (map z_free_pages zs) = card (region_free zs Fs)"
proof (induction zs arbitrary: s Fs)
  case (Cons z zs)
  then obtain F Gs where F: "Fs = F # Gs" "zone_good pages z F" "list_all2 (zone_good pages) zs Gs"
    by (auto simp: list_all2_Cons1)
  have t: "z_first_page z = s" "tiles (s + 2 ^ z_highest_order z) zs e" using Cons.prems by simp_all
  have rep: "zone_rep z pages F" using F(2) by (simp add: zone_good_def)
  note rb = region_free_bounds[OF F(3) t(2)] and zb = zone_free_bounds[OF rep]
  have "finite (region_free zs Gs)" using rb by (rule finite_subset) simp
  moreover have "finite (shift s (free_pages F))" using finite_free_pages[OF rep] by (simp add: shift_def)
  moreover have "shift s (free_pages F) \<inter> region_free zs Gs = {}" using rb zb t(1) by fastforce
  moreover have "card (shift s (free_pages F)) = z_free_pages z"
    using F(2) by (simp add: zone_good_def shift_def card_image)
  ultimately show ?case using Cons.IH[OF F(3) t(2)] F(1) t(1) by (simp add: card_Un_disjoint)
qed simp

lemma region_rep_count:
  assumes "region_rep r pages Fs"
  shows "pr_free_pages r = card (region_free (pr_zones r) Fs)"
    "region_free (pr_zones r) Fs \<subseteq> {pr_start_page r ..< pr_start_page r + pr_num_pages r}"
proof -
  from assms have r: "list_all2 (zone_good pages) (pr_zones r) Fs"
    "tiles (pr_start_page r) (pr_zones r) (pr_start_page r + pr_num_pages r)" by (simp_all add: region_rep_def)
  show "pr_free_pages r = card (region_free (pr_zones r) Fs)"
    using zones_good_count[OF r] assms by (simp add: region_rep_def)
  show "region_free (pr_zones r) Fs \<subseteq> {pr_start_page r ..< pr_start_page r + pr_num_pages r}"
    using region_free_bounds[OF r] .
qed

interpretation region_src: page_source "\<lambda>(r, pages). alloc_page r pages"
    "\<lambda>(r, pages) p. free_page r pages p" region_avail
proof (unfold_locales, goal_cases)
  case (1 A s V)
  then show ?case using region_rep_count(2) by (fastforce simp: region_avail_def)
next
  case (2 A s)
  obtain r pages where s: "s = (r, pages)" by fastforce
  with 2 obtain Fs where "region_rep r pages Fs" "region_free (pr_zones r) Fs = {}" by (auto simp: region_avail_def)
  then show ?case using region_rep_count(1)[of r pages Fs] by (simp add: s alloc_page_def)
next
  case (3 A s V)
  obtain r pages where s: "s = (r, pages)" by fastforce
  with 3 obtain Fs where F: "region_rep r pages Fs" "V = region_free (pr_zones r) Fs"
      "A = {pr_start_page r ..< pr_start_page r + pr_num_pages r}" by (auto simp: region_avail_def)
  have "finite V" using region_rep_count(2)[OF F(1)] F(2) finite_subset by blast
  then have ne: "pr_free_pages r \<noteq> 0" using region_rep_count(1)[OF F(1)] 3(2) F(2) by auto
  from F(1) have r: "list_all2 (zone_good pages) (pr_zones r) Fs" "\<not> pr_reserved r"
    "tiles (pr_start_page r) (pr_zones r) (pr_start_page r + pr_num_pages r)"
    "pr_free_pages r = sum_list (map z_free_pages (pr_zones r))" by (simp_all add: region_rep_def)
  from zones_alloc_some[OF r(1,3)] ne r(4) obtain p zs' pages' Fs' where
    *: "zones_alloc 1 (pr_zones r) pages = Inr (Some p, zs', pages')" "list_all2 (zone_good pages') zs' Fs'"
      "tiles (pr_start_page r) zs' (pr_start_page r + pr_num_pages r)"
      "sum_list (map z_free_pages (pr_zones r)) = Suc (sum_list (map z_free_pages zs'))"
      "p \<in> V" "region_free zs' Fs' = V - {p}" using F(2) by auto
  let ?r = "r\<lparr>pr_zones := zs', pr_free_pages := pr_free_pages r - 1\<rparr>"
  have "alloc_page r pages = Inr (Inr p, ?r, pages')" using ne r(2) *(1) by (simp add: alloc_page_def)
  moreover have "region_rep ?r pages' Fs'" using * r by (simp add: region_rep_def)
  ultimately show ?case using *(5,6) F(3) s by (auto simp: region_avail_def)
next
  case (4 A s V p)
  obtain r pages where s: "s = (r, pages)" by fastforce
  with 4 obtain Fs where F: "region_rep r pages Fs" "V = region_free (pr_zones r) Fs"
      "A = {pr_start_page r ..< pr_start_page r + pr_num_pages r}" by (auto simp: region_avail_def)
  from F(1) have r: "list_all2 (zone_good pages) (pr_zones r) Fs" "\<not> pr_reserved r"
    "tiles (pr_start_page r) (pr_zones r) (pr_start_page r + pr_num_pages r)"
    "pr_free_pages r = sum_list (map z_free_pages (pr_zones r))" by (simp_all add: region_rep_def)
  from zones_free_spec[OF r(1,3), of p] 4(2,3) F(2,3) obtain zs' pages' Fs' where
    *: "zones_free p (pr_zones r) pages = Inr (zs', pages')" "list_all2 (zone_good pages') zs' Fs'"
      "tiles (pr_start_page r) zs' (pr_start_page r + pr_num_pages r)"
      "sum_list (map z_free_pages zs') = Suc (sum_list (map z_free_pages (pr_zones r)))"
      "region_free zs' Fs' = V \<union> {p}" by auto
  let ?r = "r\<lparr>pr_zones := zs', pr_free_pages := pr_free_pages r + 1\<rparr>"
  have "free_page r pages p = Inr (?r, pages')"
    using 4(2) F(3) r(2) *(1) by (simp add: free_page_def region_contains_page_def)
  moreover have "region_rep ?r pages' Fs'" using * r by (simp add: region_rep_def)
  ultimately show ?case using *(5) F(3) s by (auto simp: region_avail_def)
qed

section \<open>A new region\<close>

fun fresh_tiles :: "u8 \<Rightarrow> nat \<Rightarrow> buddy_zone list \<Rightarrow> nat \<Rightarrow> bool" where
  "fresh_tiles junk s [] e \<longleftrightarrow> s = e"
| "fresh_tiles junk s (z # zs) e \<longleftrightarrow>
     (\<exists>H \<le> MAX_ORDER. zone_new junk s (2 ^ H) = Inr z \<and> fresh_tiles junk (s + 2 ^ H) zs e)"

lemma zone_new_exists:
  assumes "H \<le> MAX_ORDER" "0 < first" "first + 2 ^ H < 2 ^ 32"
  shows "\<exists>z. zone_new junk first (2 ^ H) = Inr z \<and> z_first_page z = first \<and> z_highest_order z = H \<and>
     z_free_pages z = 2 ^ H"
proof -
  let ?p = "replicate (first + 2 ^ H) \<lparr>pp_lo = - 1, pp_hi = - 1\<rparr>"
  have "free_next (?p ! first) = - 1" "free_prev (?p ! first) = - 1"
    by (simp_all add: free_next_def free_prev_def)
  with zone_new_rep[of H first ?p junk] assms show ?thesis by auto
qed

lemma fresh_tiles_le: "fresh_tiles junk s zs e \<Longrightarrow> s \<le> e"
  by (induction zs arbitrary: s) (auto dest: add_leD1)

lemma fill_zones_fresh:
  "0 < s \<Longrightarrow> s + n < 2 ^ 32 \<Longrightarrow>
   \<exists>new. fill_zones junk False s n zs pages = Inr (zs @ new, pages) \<and> fresh_tiles junk s new (s + n)"
proof (induction n arbitrary: s zs rule: less_induct)
  case (less n)
  show ?case
  proof (cases "n = 0")
    case True
    then show ?thesis by (subst fill_zones.simps) (auto intro: exI[of _ "[]"])
  next
    case False
    define H where "H = (if highest_bit n > MAX_ORDER then MAX_ORDER else highest_bit n)"
    have H: "H \<le> MAX_ORDER" "H \<le> highest_bit n" by (simp_all add: H_def)
    have "(2::nat) ^ H \<le> 2 ^ highest_bit n" using H(2) by (intro power_increasing) simp_all
    moreover have "2 ^ highest_bit n \<le> n" using highest_bit_bounds[of n] False by simp
    ultimately have le: "2 ^ H \<le> n" by (rule le_trans)
    from zone_new_exists[OF H(1), of s junk] less.prems le obtain z where
      z: "zone_new junk s (2 ^ H) = Inr z" by auto
    have "(0::nat) < 2 ^ H" by simp
    from less.IH[of "n - 2 ^ H" "s + 2 ^ H" "zs @ [z]"] this le less.prems False obtain new where
      new: "fill_zones junk False (s + 2 ^ H) (n - 2 ^ H) (zs @ [z]) pages = Inr ((zs @ [z]) @ new, pages)"
        "fresh_tiles junk (s + 2 ^ H) new (s + n)" by auto
    have "fill_zones junk False s n zs pages = Inr (zs @ z # new, pages)"
      using False z new(1) by (subst fill_zones.simps) (simp add: Let_def flip: H_def)
    moreover have "fresh_tiles junk s (z # new) (s + n)" using H(1) z new(2) by auto
    ultimately show ?thesis by blast
  qed
qed

lemma init_zones_links:
  assumes "\<And>z. z \<in> set zs \<Longrightarrow> z_first_page z < length pages"
  shows "\<exists>pages'. init_zones zs pages = Inr pages' \<and> length pages' = length pages \<and>
     (\<forall>i. pages' ! i = pages ! i \<or> free_next (pages' ! i) = - 1 \<and> free_prev (pages' ! i) = - 1) \<and>
     (\<forall>z \<in> set zs. free_next (pages' ! z_first_page z) = - 1 \<and> free_prev (pages' ! z_first_page z) = - 1)"
  using assms
proof (induction zs arbitrary: pages)
  case (Cons z zs)
  let ?i = "z_first_page z"
  let ?p = "pages[?i := set_free_next (- 1) (set_free_prev (- 1) (pages ! ?i))]"
  have i: "?i < length pages" using Cons.prems by simp
  from Cons.IH[of ?p] Cons.prems obtain pages' where
    *: "init_zones zs ?p = Inr pages'" "length pages' = length pages"
      "\<And>i. pages' ! i = ?p ! i \<or> free_next (pages' ! i) = - 1 \<and> free_prev (pages' ! i) = - 1"
      "\<And>z. z \<in> set zs \<Longrightarrow> free_next (pages' ! z_first_page z) = - 1 \<and> free_prev (pages' ! z_first_page z) = - 1"
    by auto
  have "init_zones (z # zs) pages = Inr pages'" using i *(1) by simp
  moreover have "free_next (?p ! ?i) = - 1" "free_prev (?p ! ?i) = - 1" using i by simp_all
  then have "free_next (pages' ! ?i) = - 1 \<and> free_prev (pages' ! ?i) = - 1" using *(3)[of ?i] by auto
  moreover have "pages' ! j = pages ! j \<or> free_next (pages' ! j) = - 1 \<and> free_prev (pages' ! j) = - 1" for j
    using *(3)[of j] calculation(2) by (cases "j = ?i") auto
  ultimately show ?case using *(2,4) by auto
qed simp

lemma fresh_zones_good:
  assumes "fresh_tiles junk s zs e" "0 < s" "e \<le> length pages" "length pages < 2 ^ 32"
    and "\<And>z. z \<in> set zs \<Longrightarrow> free_next (pages ! z_first_page z) = - 1 \<and> free_prev (pages ! z_first_page z) = - 1"
  shows "list_all2 (zone_good pages) zs (map (\<lambda>z. whole (z_highest_order z)) zs) \<and> tiles s zs e \<and>
     region_free zs (map (\<lambda>z. whole (z_highest_order z)) zs) = {s ..< e}"
  using assms
proof (induction zs arbitrary: s)
  case (Cons z zs)
  then obtain H where H: "H \<le> MAX_ORDER" "zone_new junk s (2 ^ H) = Inr z" "fresh_tiles junk (s + 2 ^ H) zs e" by auto
  have le: "s + 2 ^ H \<le> e" using fresh_tiles_le[OF H(3)] .
  have "z_first_page z = s" using zone_new_exists[OF H(1) Cons.prems(2), of junk] H(2) le Cons.prems(3,4) by auto
  with zone_new_rep[OF H(1) Cons.prems(2) _ Cons.prems(4), of junk] H(2) le Cons.prems(3,5) have
    z: "zone_rep z pages (whole H)" "z_first_page z = s" "z_highest_order z = H" "z_free_pages z = 2 ^ H" by auto
  have "zone_good pages z (whole H)" using z(1,4) whole_ok(2) by (simp add: zone_good_def)
  moreover have "shift s (free_pages (whole H)) = {s ..< s + 2 ^ H}"
    using range_of_shift[of H s 0] whole_ok(2) by (simp add: range_of_def block_pages_def lessThan_atLeast0)
  moreover have "s \<le> s + 2 ^ H" by simp
  ultimately show ?case using Cons.IH[OF H(3)] Cons.prems z le by (simp add: ivl_disj_un_two(3))
qed simp

lemma fresh_tiles_first:
  "fresh_tiles junk s zs e \<Longrightarrow> z \<in> set zs \<Longrightarrow> 0 < s \<Longrightarrow> e < 2 ^ 32 \<Longrightarrow> z_first_page z < e"
proof (induction zs arbitrary: s)
  case (Cons y ys)
  then obtain H where H: "H \<le> MAX_ORDER" "zone_new junk s (2 ^ H) = Inr y" "fresh_tiles junk (s + 2 ^ H) ys e"
    by auto
  have pos: "s < s + 2 ^ H" by simp
  from fresh_tiles_le[OF H(3)] have le: "s + 2 ^ H \<le> e" .
  show ?case
  proof (cases "z = y")
    case True
    have "z_first_page y = s" using zone_new_exists[OF H(1) Cons.prems(3), of junk] H(2) le Cons.prems(4) by auto
    moreover have "s < e" using le pos by linarith
    ultimately show ?thesis using True by simp
  next
    case False
    with Cons.IH[OF H(3)] Cons.prems show ?thesis by simp
  qed
qed simp

lemma region_new_avail:
  assumes "0 < start" "start + num \<le> length pages" "length pages < 2 ^ 32"
  shows "\<exists>r pages'. region_new junk start num False False pages = Inr (r, pages) \<and>
     region_init r pages = Inr pages' \<and> pr_start_page r = start \<and> pr_num_pages r = num \<and>
     region_avail {start ..< start + num} (r, pages') {start ..< start + num}"
proof -
  from fill_zones_fresh[of start num junk "[]" pages] assms obtain zs where
    zs: "fill_zones junk False start num [] pages = Inr (zs, pages)" "fresh_tiles junk start zs (start + num)"
    by auto
  let ?r = "\<lparr>pr_zones = zs, pr_start_page = start, pr_num_pages = num, pr_free_pages = num, pr_reserved = False\<rparr>"
  have new: "region_new junk start num False False pages = Inr (?r, pages)"
    using zs(1) by (simp add: region_new_def Let_def)
  have firsts: "z_first_page z < length pages" if "z \<in> set zs" for z
    using fresh_tiles_first[OF zs(2) that] assms by simp
  from init_zones_links[OF firsts] obtain pages' where
    p: "init_zones zs pages = Inr pages'" "length pages' = length pages"
      "\<And>z. z \<in> set zs \<Longrightarrow> free_next (pages' ! z_first_page z) = - 1 \<and> free_prev (pages' ! z_first_page z) = - 1"
    by blast
  let ?Fs = "map (\<lambda>z. whole (z_highest_order z)) zs"
  from fresh_zones_good[OF zs(2) assms(1) _ _ p(3)] p(2) assms(2,3) have
    g: "list_all2 (zone_good pages') zs ?Fs" "tiles start zs (start + num)"
      "region_free zs ?Fs = {start ..< start + num}" by auto
  then have "region_rep ?r pages' ?Fs" using zones_good_count[OF g(1,2)] by (simp add: region_rep_def)
  with new p(1) g(3) show ?thesis by (auto simp: region_init_def region_avail_def)
qed

section \<open>Correctness of regions and reference counts\<close>

text \<open>
  C8: for every sequence of single-page requests and returns on a new region, no call faults, the
  pages a client holds are pairwise different pages of the region, and the region's count of free
  pages is the number of its pages that are not held.
\<close>

theorem region_pages_exclusive:
  assumes "0 < start" and "start + num \<le> length pages" and "length pages < 2 ^ 32"
  shows "\<exists>r pages'. region_new junk start num False False pages = Inr (r, pages) \<and>
     region_init r pages = Inr pages' \<and>
     (\<exists>held r' pages''. page_run (\<lambda>(r, pages). alloc_page r pages) (\<lambda>(r, pages) p. free_page r pages p)
           ops [] (r, pages') = Inr (held, (r', pages'')) \<and>
        distinct held \<and> set held \<subseteq> {start ..< start + num} \<and> pr_free_pages r' = num - length held)"
proof -
  let ?A = "{start ..< start + num}"
  from region_new_avail[OF assms, of junk] obtain r pages' where
    r: "region_new junk start num False False pages = Inr (r, pages)" "region_init r pages = Inr pages'"
      "region_avail ?A (r, pages') ?A" by blast
  from region_src.page_run_safe[of ?A "(r, pages')" "[]" ops] r(3) obtain held r' pages'' where
    run: "page_run (\<lambda>(r, pages). alloc_page r pages) (\<lambda>(r, pages) p. free_page r pages p)
        ops [] (r, pages') = Inr (held, (r', pages''))" "distinct held" "set held \<subseteq> ?A"
      "region_avail ?A (r', pages'') (?A - set held)" by auto
  from run(4) obtain Fs where "region_rep r' pages'' Fs" "region_free (pr_zones r') Fs = ?A - set held"
    by (auto simp: region_avail_def)
  with region_rep_count(1)[of r' pages'' Fs] run(2,3) have "pr_free_pages r' = num - length held"
    by (simp add: card_Diff_subset distinct_card)
  with r run show ?thesis by blast
qed

theorem region_pages_exclusive_witness:
  "\<exists>r pages'. region_new 0 1 2 False False demo_pages = Inr (r, demo_pages) \<and>
     region_init r demo_pages = Inr pages' \<and>
     (\<exists>held r' pages''. page_run (\<lambda>(r, pages). alloc_page r pages) (\<lambda>(r, pages) p. free_page r pages p)
           [GetPage, GetPage, PutPage 1] [] (r, pages') = Inr (held, (r', pages'')) \<and>
        distinct held \<and> set held \<subseteq> {1 ..< 1 + 2} \<and> pr_free_pages r' = 2 - length held)"
  by (rule region_pages_exclusive) (simp_all add: demo_pages_simps)

lemma zones_good_length:
  "list_all2 (zone_good pages) zs Fs \<Longrightarrow> tiles s zs e \<Longrightarrow> s \<le> p \<Longrightarrow> p < e \<Longrightarrow> p < length pages"
proof (induction zs arbitrary: s Fs)
  case (Cons z zs)
  then obtain F Gs where F: "zone_good pages z F" "list_all2 (zone_good pages) zs Gs"
    by (auto simp: list_all2_Cons1)
  have "z_first_page z + 2 ^ z_highest_order z \<le> length pages"
    using F(1) by (simp add: zone_good_def zone_rep_def zone_frame_def)
  with Cons.IH[OF F(2)] Cons.prems show ?case by (cases "p < s + 2 ^ z_highest_order z") auto
qed simp

lemma region_avail_length:
  assumes "region_avail A (r, pages) V" "p \<in> A"
  shows "p < length pages"
  using assms zones_good_length by (fastforce simp: region_avail_def region_rep_def)

lemma region_avail_write_used:
  assumes "region_avail A (r, pages) V" "p \<notin> V" "p < length pages"
  shows "region_avail A (r, pages[p := q]) V"
proof -
  from assms(1) obtain Fs where Fs: "region_rep r pages Fs" "V = region_free (pr_zones r) Fs"
    "A = {pr_start_page r ..< pr_start_page r + pr_num_pages r}" by (auto simp: region_avail_def)
  from Fs(1) have "list_all2 (zone_good pages) (pr_zones r) Fs" by (simp add: region_rep_def)
  from zones_good_cong[OF this, of "pages[p := q]"] assms(2) Fs(2)
  have "list_all2 (zone_good (pages[p := q])) (pr_zones r) Fs" by (metis length_list_update nth_list_update_neq)
  with Fs show ?thesis by (auto simp: region_avail_def region_rep_def)
qed

lemma regions_free_skip:
  "\<forall>r0 \<in> set rs1. \<not> region_contains_page r0 p \<Longrightarrow>
   regions_free p (rs1 @ rs) pages = bindR (regions_free p rs pages) (\<lambda>(rs', pages'). Inr (rs1 @ rs', pages'))"
  by (induction rs1) (auto simp: bindR_def split: sum.splits)

text \<open>
  C9: dropping a reference to a page in use, in a manager with any list of regions of which the
  first that contains the page is an initialised one. Only the last reference to a page that is not
  marked reserved gives it back: the page becomes available in that region, and the other regions
  stay as they are. In every other case, with references left or with a page marked reserved, the
  count goes down by one and nothing else changes, so a reserved page is not given back.
\<close>

theorem page_unref_exact:
  assumes "region_avail A (r, pages) V" and "p \<in> A" and "p \<notin> V"
    and "ref_count (pages ! p) \<noteq> 0" and "\<forall>r0 \<in> set rs1. \<not> region_contains_page r0 p"
  shows "\<exists>mm'. page_unref \<lparr>mm_pages = pages, mm_regions = rs1 @ r # rs2\<rparr> p = Inr mm' \<and>
     (if ref_count (pages ! p) = 1 \<and> \<not> reserved (pages ! p)
      then \<exists>r' pages'. mm' = \<lparr>mm_pages = pages', mm_regions = rs1 @ r' # rs2\<rparr> \<and> region_avail A (r', pages') (V \<union> {p})
      else mm' = \<lparr>mm_pages = pages[p := set_ref_count (ref_count (pages ! p) - 1) (pages ! p)],
                  mm_regions = rs1 @ r # rs2\<rparr>)"
proof -
  let ?q = "set_ref_count (ref_count (pages ! p) - 1) (pages ! p)"
  note len = region_avail_length[OF assms(1,2)]
  have q: "reserved ?q = reserved (pages ! p)" "ref_count ?q = ref_count (pages ! p) - 1"
    by (simp_all add: ref_count_def set_ref_count_def reserved_def)
  show ?thesis
  proof (cases "ref_count (pages ! p) = 1 \<and> \<not> reserved (pages ! p)")
    case False
    with assms(4) len q show ?thesis by (auto simp: page_unref_def page_release_def)
  next
    case True
    have av: "region_avail A (r, pages[p := ?q]) V" by (rule region_avail_write_used[OF assms(1,3) len])
    from region_src.free_taken[OF av assms(2,3)] obtain r' pages' where
      f: "free_page r (pages[p := ?q]) p = Inr (r', pages')" "region_avail A (r', pages') (V \<union> {p})" by auto
    have "region_contains_page r p"
      using assms(1,2) by (auto simp: region_avail_def region_contains_page_def)
    with True len f(1) q have "page_unref \<lparr>mm_pages = pages, mm_regions = rs1 @ r # rs2\<rparr> p =
        Inr \<lparr>mm_pages = pages', mm_regions = rs1 @ r' # rs2\<rparr>"
      by (simp add: page_unref_def page_release_def free_physical_page_def regions_free_skip[OF assms(5)])
    with True f(2) show ?thesis by auto
  qed
qed

text \<open>A page of the second of two regions, with one reference.\<close>

theorem page_unref_exact_witness:
  "\<exists>r0 r pages p V r' pages'. ref_count (pages ! p) = 1 \<and> pr_num_pages r0 = 1 \<and>
     page_unref \<lparr>mm_pages = pages, mm_regions = [r0] @ r # []\<rparr> p =
       Inr \<lparr>mm_pages = pages', mm_regions = [r0] @ r' # []\<rparr> \<and>
     region_avail {2 ..< 2 + 1} (r', pages') (V \<union> {p})"
proof -
  let ?A = "{2 ..< 2 + 1} :: nat set"
  from region_new_avail[of 1 1 demo_pages 0] obtain r0 pages0 where
    r0: "pr_start_page r0 = 1" "pr_num_pages r0 = 1" "region_init r0 demo_pages = Inr pages0"
    by (auto simp: demo_pages_simps)
  from region_new_avail[of 2 1 demo_pages 0] obtain r1 pages1 where
    1: "region_avail ?A (r1, pages1) ?A" by (auto simp: demo_pages_simps)
  from region_src.alloc_given[OF 1] obtain p r pages where
    p: "p \<in> ?A" "region_avail ?A (r, pages) (?A - {p})" by auto
  let ?pages = "pages[p := fresh_page (pages ! p)]"
  note len = region_avail_length[OF p(2,1)]
  have av: "region_avail ?A (r, ?pages) (?A - {p})" by (rule region_avail_write_used[OF p(2) _ len]) simp
  have "\<not> reserved (?pages ! p)" using len by (simp add: fresh_page_def)
  moreover have "ref_count (?pages ! p) = 1" using len
    by (simp add: fresh_page_def ref_count_def set_reserved_def set_ref_count_def)
  ultimately have one: "ref_count (?pages ! p) = 1 \<and> \<not> reserved (?pages ! p)" by blast
  have "p \<notin> ?A - {p}" "ref_count (?pages ! p) \<noteq> 0" "\<forall>x \<in> set [r0]. \<not> region_contains_page x p"
    using one p(1) r0 by (simp_all add: region_contains_page_def)
  from page_unref_exact[OF av p(1) this, of "[]", unfolded if_P[OF one]] one r0(2) show ?thesis by blast
qed

text \<open>
  C12: taking the last block of a free list of a zone marks the page in front of the zone as
  reserved, because the list head \<open>-1\<close> is used as a block number. If that page is in use with one
  reference, dropping the reference then leaves every region as it is: the page is never freed.
\<close>

theorem last_block_leaks_neighbour:
  assumes "zone_rep z pages F" and "F k = [b]" and "2 ^ k \<le> z_free_pages z"
    and "ref_count (pages ! (z_first_page z - 1)) = 1"
  shows "\<exists>z' pages'. alloc_block z pages (2 ^ k) = Inr (Inr (z_first_page z + b), z', pages') \<and>
     (\<forall>rs. page_unref \<lparr>mm_pages = pages', mm_regions = rs\<rparr> (z_first_page z - 1) =
        Inr \<lparr>mm_pages = pages'[z_first_page z - 1 := set_ref_count 0 (pages' ! (z_first_page z - 1))],
             mm_regions = rs\<rparr>)"
proof -
  let ?i = "z_first_page z - 1"
  let ?pages = "pages[?i := set_free_prev (- 1) (pages ! ?i)]"
  have mem: "b \<in> set (F k)" using assms(2) by simp
  note ok = zone_repD(2)[OF assms(1)] and frame = zone_repD(1)[OF assms(1)]
  note b = blocks_okD[where k = k and b = b, OF ok mem]
  from alloc_last_block[OF assms(1) b(1) assms(2)] obtain z' where
    z': "alloc_block_internal z pages k = Inr (int b, z', ?pages)" by blast
  have "alloc_block z pages (2 ^ k) =
      Inr (Inr (z_first_page z + b), z'\<lparr>z_free_pages := z_free_pages z' - 2 ^ k\<rparr>, ?pages)"
    using assms(3) z' zone_frameD(1)[OF frame block_less[OF b(3)]] by (simp add: alloc_block_def)
  moreover have "reserved (set_ref_count 0 (set_free_prev (- 1) (pages ! ?i)))"
    using reserved_set_free_prev by (simp add: reserved_def set_ref_count_def)
  moreover have "ref_count (set_free_prev (- 1) (pages ! ?i)) = 1"
    using assms(4) by (simp add: ref_count_def set_free_prev_def)
  moreover have "ref_count (set_ref_count 0 p) = 0" for p by (simp add: ref_count_def set_ref_count_def)
  ultimately show ?thesis using page_before_zone(2)[OF frame]
    by (auto simp: page_unref_def page_release_def)
qed

theorem last_block_leaks_neighbour_witness:
  "\<exists>z z' pages'. alloc_block z (demo_pages[0 := \<lparr>pp_lo = 1, pp_hi = 0\<rparr>]) (2 ^ 1) = Inr (Inr (z_first_page z + 0), z', pages') \<and>
     (\<forall>rs. page_unref \<lparr>mm_pages = pages', mm_regions = rs\<rparr> (z_first_page z - 1) =
        Inr \<lparr>mm_pages = pages'[z_first_page z - 1 := set_ref_count 0 (pages' ! (z_first_page z - 1))],
             mm_regions = rs\<rparr>)"
proof -
  let ?pages = "demo_pages[0 := \<lparr>pp_lo = 1, pp_hi = 0\<rparr>]"
  have "1 + 2 ^ 1 \<le> length ?pages" "length ?pages < 2 ^ 32" "free_next (?pages ! 1) = - 1" "free_prev (?pages ! 1) = - 1"
    using demo_pages_simps by simp_all
  from zone_new_rep[OF demo_prems(1,2) this, of 0] obtain z where
    z: "zone_rep z ?pages (whole 1)" "z_first_page z = 1" "z_free_pages z = 2 ^ 1" by blast
  have "ref_count (?pages ! (z_first_page z - 1)) = 1"
    using z(2) demo_pages_simps(1) by (simp add: ref_count_def)
  from last_block_leaks_neighbour[OF z(1) _ _ this, of 1 0] z(3) show ?thesis
    by (auto simp: whole_def)
qed

end
