(* ===== verification/PhysicalMemory.thy ===== *)
theory PhysicalMemory
  imports PhysicalRegion
begin

text \<open>
  Physical memory as the virtual memory objects see it: the page allocator of \<open>MemoryManager\<close>
  together with the contents of the frames. \<open>with_quickmapped\<close> maps a frame into the kernel for the
  duration of a callback; its effect on memory is the callback applied to the frame. The theory also
  has the contract of single-page allocation for a manager with one region, in the form the objects
  need it: which page is returned, and that the counts of pages in use do not change.
\<close>

section \<open>Frames\<close>

type_synonym frame = "nat \<Rightarrow> u8"

record phys =
  ph_mm :: memory_manager
  ph_frames :: "nat \<Rightarrow> frame"

definition zero_frame :: frame where
  "zero_frame = (\<lambda>_. 0)"

definition with_quickmapped :: "phys \<Rightarrow> nat \<Rightarrow> (frame \<Rightarrow> frame) \<Rightarrow> phys" where
  "with_quickmapped ph page callback =
     ph\<lparr>ph_frames := (ph_frames ph)(page := callback (ph_frames ph page))\<rparr>"

definition copy_page :: "phys \<Rightarrow> nat \<Rightarrow> nat \<Rightarrow> phys" where
  "copy_page ph src dest = ph\<lparr>ph_frames := (ph_frames ph)(dest := ph_frames ph src)\<rparr>"

text \<open>\<open>alloc_physical_pages\<close>, with the attempt to free pages of the disk cache beforehand.\<close>

definition alloc_physical_pages ::
    "(memory_manager \<Rightarrow> nat \<times> memory_manager) \<Rightarrow> (nat \<Rightarrow> memory_manager \<Rightarrow> memory_manager) \<Rightarrow> nat \<Rightarrow>
     memory_manager \<Rightarrow> nat \<Rightarrow> (nat list \<times> memory_manager) prun" where
  "alloc_physical_pages reclaim drop_cache usable_bytes mm num_pages =
     collect_pages reclaim num_pages
       (if sub32 usable_bytes (used_pmem mm) div 4096 < num_pages then drop_cache (num_pages * 2) mm else mm)"

section \<open>A manager with one region\<close>

definition mm_avail :: "nat set \<Rightarrow> memory_manager \<Rightarrow> nat set \<Rightarrow> bool" where
  "mm_avail A mm V \<longleftrightarrow> (\<exists>r. mm_regions mm = [r] \<and> region_avail A (r, mm_pages mm) V)"

definition refs :: "memory_manager \<Rightarrow> nat \<Rightarrow> u16" where
  "refs mm p = ref_count (mm_pages mm ! p)"

lemma zones_alloc_counts:
  "list_all2 (zone_good pages) zs Fs \<Longrightarrow> zones_alloc 1 zs pages = Inr (res, zs', pages') \<Longrightarrow>
   i \<notin> region_free zs Fs \<Longrightarrow> pp_lo (pages' ! i) = pp_lo (pages ! i)"
proof (induction zs arbitrary: Fs res zs')
  case (Cons z zs)
  then obtain F Gs where F: "Fs = F # Gs" "zone_good pages z F" "list_all2 (zone_good pages) zs Gs"
    by (auto simp: list_all2_Cons1)
  have rep: "zone_rep z pages F" using F(2) by (simp add: zone_good_def)
  have i: "i \<notin> (\<lambda>b. z_first_page z + b) ` free_pages F" "i \<notin> region_free zs Gs"
    using Cons.prems(3) F(1) by (auto simp: shift_def)
  from Cons.prems(2) obtain res1 z1 pages1 where
    1: "alloc_block z pages 1 = Inr (res1, z1, pages1)" by (auto elim!: bindR_InrE)
  show ?case
  proof (cases res1)
    case (Inr p)
    with 1 Cons.prems(2) alloc_block_counts[OF rep 1 i(1)] show ?thesis by simp
  next
    case (Inl e)
    with 1 have "pages1 = pages" by (auto simp: alloc_block_def split: if_splits elim!: bindR_InrE)
    with 1 Inl Cons.prems(2) obtain res2 zs2 where "zones_alloc 1 zs pages = Inr (res2, zs2, pages')"
      by (auto elim!: bindR_InrE)
    from Cons.IH[OF F(3) this i(2)] show ?thesis .
  qed
qed simp

lemma alloc_page_counts:
  assumes "region_avail A (r, pages) V" "alloc_page r pages = Inr (res, r', pages')" "i \<notin> V"
  shows "pp_lo (pages' ! i) = pp_lo (pages ! i)"
proof -
  from assms(1) obtain Fs where Fs: "list_all2 (zone_good pages) (pr_zones r) Fs" "V = region_free (pr_zones r) Fs"
    by (auto simp: region_avail_def region_rep_def)
  from assms(2) zones_alloc_counts[OF Fs(1), of _ _ pages' i] assms(3) Fs(2) show ?thesis
    by (auto simp: alloc_page_def split: if_splits option.splits elim!: bindR_InrE)
qed

lemma fresh_page_count [simp]: "ref_count (fresh_page p) = 1"
  by (simp add: fresh_page_def ref_count_def set_reserved_def set_ref_count_def)

text \<open>With a page available, \<open>alloc_physical_page\<close> returns it at once, with one reference.\<close>

lemma alloc_physical_page_spec:
  assumes "mm_avail A mm V" "V \<noteq> {}"
  shows "\<exists>q mm'. alloc_physical_page reclaim mm = Some (Inr (q, mm')) \<and> q \<in> V \<and> mm_avail A mm' (V - {q}) \<and>
     refs mm' q = 1 \<and> (\<forall>p. p \<notin> V \<longrightarrow> refs mm' p = refs mm p)"
proof -
  from assms(1) obtain r where r: "mm_regions mm = [r]" "region_avail A (r, mm_pages mm) V"
    by (auto simp: mm_avail_def)
  from region_src.alloc_given[OF r(2) assms(2)] obtain q r' pages' where
    q: "alloc_page r (mm_pages mm) = Inr (Inr q, r', pages')" "q \<in> V" "region_avail A (r', pages') (V - {q})"
    by auto
  have qA: "q \<in> A" using region_src.avail_within[OF r(2)] q(2) by blast
  note len = region_avail_length[OF q(3) qA]
  let ?pages = "pages'[q := fresh_page (pages' ! q)]" and ?mm = "\<lparr>mm_pages = pages'[q := fresh_page (pages' ! q)], mm_regions = [r']\<rparr>"
  have "alloc_physical_page reclaim mm = Some (Inr (q, ?mm))"
    using r(1) q(1) len by (subst alloc_physical_page.simps) simp
  moreover have "mm_avail A ?mm (V - {q})"
    using region_avail_write_used[OF q(3) _ len] by (simp add: mm_avail_def)
  moreover have "refs ?mm p = refs mm p" if "p \<notin> V" for p
  proof -
    have "q \<noteq> p" using q(2) that by blast
    with alloc_page_counts[OF r(2) q(1) that] show ?thesis by (simp add: refs_def ref_count_def)
  qed
  moreover have "refs ?mm q = 1" using len by (simp add: refs_def)
  ultimately show ?thesis using q(2) by blast
qed

lemma mm_avail_length: "mm_avail A mm V \<Longrightarrow> p \<in> A \<Longrightarrow> p < length (mm_pages mm)"
  using region_avail_length by (auto simp: mm_avail_def)

lemma mm_avail_write:
  assumes "mm_avail A mm V" "p \<in> A" "p \<notin> V"
  shows "mm_avail A (mm\<lparr>mm_pages := (mm_pages mm)[p := x]\<rparr>) V"
  using assms region_avail_write_used mm_avail_length[OF assms(1,2)] by (auto simp: mm_avail_def)

lemma ref_count_set [simp]: "ref_count (set_ref_count c p) = c"
  by (simp add: ref_count_def set_ref_count_def)

lemma page_ref_spec:
  assumes "mm_avail A mm V" "p \<in> A" "p \<notin> V" "refs mm p \<noteq> 0xFFFF"
  shows "\<exists>mm'. page_ref mm p = Inr mm' \<and> mm_avail A mm' V \<and> refs mm' = (refs mm)(p := refs mm p + 1)"
  using assms mm_avail_length[OF assms(1,2)] mm_avail_write[OF assms(1-3)]
  by (auto simp: page_ref_def refs_def fun_eq_iff)

lemma page_unref_shared:
  assumes "mm_avail A mm V" "p \<in> A" "p \<notin> V" "refs mm p \<noteq> 0" "refs mm p \<noteq> 1"
  shows "\<exists>mm'. page_unref mm p = Inr mm' \<and> mm_avail A mm' V \<and> refs mm' = (refs mm)(p := refs mm p - 1)"
  using assms mm_avail_length[OF assms(1,2)] mm_avail_write[OF assms(1-3)]
  by (auto simp: page_unref_def refs_def fun_eq_iff)

text \<open>Dropping a reference always succeeds; the last one returns the page unless it is marked reserved.\<close>

lemma page_unref_any:
  assumes "mm_avail A mm V" "p \<in> A" "p \<notin> V" "refs mm p \<noteq> 0"
  shows "\<exists>mm' V'. page_unref mm p = Inr mm' \<and> mm_avail A mm' V' \<and> V \<subseteq> V' \<and> V' \<subseteq> V \<union> {p}"
proof (cases "refs mm p = 1")
  case False
  from page_unref_shared[OF assms(1-4) False] show ?thesis by blast
next
  case True
  let ?pages = "(mm_pages mm)[p := set_ref_count 0 (mm_pages mm ! p)]"
  note len = mm_avail_length[OF assms(1,2)]
  from mm_avail_write[OF assms(1-3), of "set_ref_count 0 (mm_pages mm ! p)"] obtain r where
    r: "mm_regions mm = [r]" "region_avail A (r, ?pages) V" by (auto simp: mm_avail_def)
  have unref: "page_unref mm p = page_release (mm\<lparr>mm_pages := ?pages\<rparr>) p"
    using True len by (simp add: page_unref_def refs_def)
  show ?thesis
  proof (cases "reserved (set_ref_count 0 (mm_pages mm ! p))")
    case res: True
    with unref len r show ?thesis
      by (intro exI[of _ "mm\<lparr>mm_pages := ?pages\<rparr>"] exI[of _ V]) (auto simp: page_release_def mm_avail_def)
  next
    case False
    from region_src.free_taken[OF r(2) assms(2,3)] obtain r' pages' where
      f: "free_page r ?pages p = Inr (r', pages')" "region_avail A (r', pages') (V \<union> {p})" by auto
    have "region_contains_page r p" using r(2) assms(2) by (auto simp: region_avail_def region_contains_page_def)
    with unref False len r(1) f(1) have "page_unref mm p = Inr \<lparr>mm_pages = pages', mm_regions = [r']\<rparr>"
      by (simp add: page_release_def free_physical_page_def)
    with f(2) show ?thesis
      by (intro exI[of _ "\<lparr>mm_pages = pages', mm_regions = [r']\<rparr>"] exI[of _ "V \<union> {p}"]) (auto simp: mm_avail_def)
  qed
qed

text \<open>A page that was just allocated cannot be given back with \<open>free_physical_page\<close>: its count is 1.\<close>

lemma free_fresh_page:
  assumes "mm_avail A mm V" "p \<in> A" "refs mm p \<noteq> 0"
  shows "free_physical_page mm p = Inl AssertFailed"
  using assms mm_avail_length[OF assms(1,2)] by (simp add: free_physical_page_def refs_def)

end
