(* ===== verification/PageTables.thy ===== *)
theory PageTables
  imports Prelude
begin

text \<open>
  The two-level page tables of the i386 port (\<open>kernel/arch/i386/PageDirectory.cpp\<close> and
  \<open>PageTable.cpp\<close>). A directory has 768 entries for user space, each with a page table that is
  allocated on demand and released when its last page is unmapped, and 256 entries for the kernel
  whose tables are static and shared by all directories.

  The bits of an entry that only the processor sets (accessed, dirty) are left out, and so is the
  physical address of a page table: the tables are reached through \<open>m_page_tables\<close>, as the code does.
  The memory that backs a new page table is kernel memory and is not part of the user half.
\<close>

section \<open>Entries\<close>

abbreviation PAGE_SIZE :: nat where "PAGE_SIZE \<equiv> 4096"

abbreviation HIGHER_HALF :: nat where "HIGHER_HALF \<equiv> 0xC0000000"

record vm_prot =
  prot_read :: bool
  prot_write :: bool
  prot_execute :: bool

definition VMProt_R :: vm_prot where
  "VMProt_R = \<lparr>prot_read = True, prot_write = False, prot_execute = False\<rparr>"

definition VMProt_RW :: vm_prot where
  "VMProt_RW = \<lparr>prot_read = True, prot_write = True, prot_execute = False\<rparr>"

definition VMProt_RX :: vm_prot where
  "VMProt_RX = \<lparr>prot_read = True, prot_write = False, prot_execute = True\<rparr>"

definition VMProt_RWX :: vm_prot where
  "VMProt_RWX = \<lparr>prot_read = True, prot_write = True, prot_execute = True\<rparr>"

text \<open>\<open>PageTable::Entry::Data\<close>; the address is a bit-field of 20 bits.\<close>

record pt_entry =
  pe_present :: bool
  pe_read_write :: bool
  pe_user :: bool
  pe_page_addr :: "20 word"

definition entry_zero :: pt_entry where
  "entry_zero = \<lparr>pe_present = False, pe_read_write = False, pe_user = False, pe_page_addr = 0\<rparr>"

definition set_address :: "nat \<Rightarrow> pt_entry \<Rightarrow> pt_entry" where
  "set_address address e = e\<lparr>pe_page_addr := of_nat (address div 2 ^ 12)\<rparr>"

definition get_address :: "pt_entry \<Rightarrow> nat" where
  "get_address e = unat (pe_page_addr e) * 2 ^ 12"

section \<open>Directories\<close>

datatype dir_type = USER | KERNEL

record page_dir =
  pd_type :: dir_type
  pd_entry_present :: "nat \<Rightarrow> bool"
  pd_tables :: "nat \<Rightarrow> (nat \<Rightarrow> pt_entry) option"
  pd_num_mapped :: "nat \<Rightarrow> int"
  pd_kernel_present :: "nat \<Rightarrow> bool"
  pd_kernel_tables :: "nat \<Rightarrow> nat \<Rightarrow> pt_entry"

definition dir_index :: "nat \<Rightarrow> nat" where
  "dir_index page = (page div 1024) mod 1024"

definition table_index :: "nat \<Rightarrow> nat" where
  "table_index page = page mod 1024"

text \<open>The kernel's half after \<open>init_paging\<close>, and a new user directory on top of it.\<close>

definition init_paging :: page_dir where
  "init_paging =
     \<lparr>pd_type = KERNEL, pd_entry_present = (\<lambda>_. False), pd_tables = (\<lambda>_. None), pd_num_mapped = (\<lambda>_. 0),
      pd_kernel_present = (\<lambda>i. 768 \<le> i \<and> i < 1024), pd_kernel_tables = (\<lambda>_ _. entry_zero)\<rparr>"

definition page_dir_new :: "page_dir \<Rightarrow> page_dir" where
  "page_dir_new kd =
     kd\<lparr>pd_type := USER, pd_entry_present := (\<lambda>_. False), pd_tables := (\<lambda>_. None), pd_num_mapped := (\<lambda>_. 0)\<rparr>"

text \<open>\<open>get_physaddr\<close> returns \<open>-1\<close>, as a \<open>size_t\<close>, when there is no table.\<close>

definition get_physaddr :: "page_dir \<Rightarrow> nat \<Rightarrow> nat" where
  "get_physaddr pd virtaddr =
     (let page = virtaddr div PAGE_SIZE; directory_index = dir_index page; table_index = table_index page in
      if virtaddr < HIGHER_HALF then
        (if \<not> pd_entry_present pd directory_index then 2 ^ 32 - 1
         else case pd_tables pd directory_index of
           None \<Rightarrow> 2 ^ 32 - 1
         | Some entries \<Rightarrow> get_address (entries table_index) + virtaddr mod PAGE_SIZE)
      else
        (if \<not> pd_kernel_present pd directory_index then 2 ^ 32 - 1
         else get_address (pd_kernel_tables pd (directory_index - 768) table_index) + virtaddr mod PAGE_SIZE))"

definition is_mapped :: "page_dir \<Rightarrow> nat \<Rightarrow> bool \<Rightarrow> bool" where
  "is_mapped pd vaddr wr =
     (let page = vaddr div PAGE_SIZE; directory_index = dir_index page in
      if vaddr < HIGHER_HALF then
        (if \<not> pd_entry_present pd directory_index then False
         else case pd_tables pd directory_index of
           None \<Rightarrow> False
         | Some entries \<Rightarrow>
             let entry = entries (table_index page) in
             if \<not> pe_present entry then False
             else if wr then (if \<not> pe_read_write entry then False else True) else True)
      else
        (if \<not> pd_kernel_present pd directory_index then False
         else
           let entry = pd_kernel_tables pd (directory_index - 768) (table_index page) in
           pe_present entry \<and> (\<not> wr \<or> pe_read_write entry)))"

text \<open>Page tables on demand. A new table is zeroed memory.\<close>

definition alloc_page_table :: "page_dir \<Rightarrow> nat \<Rightarrow> page_dir" where
  "alloc_page_table pd tables_index =
     (case pd_tables pd tables_index of
        Some _ \<Rightarrow> pd
      | None \<Rightarrow> pd\<lparr>pd_tables := (pd_tables pd)(tables_index := Some (\<lambda>_. entry_zero)),
                   pd_entry_present := (pd_entry_present pd)(tables_index := True)\<rparr>)"

definition dealloc_page_table :: "page_dir \<Rightarrow> nat \<Rightarrow> page_dir" where
  "dealloc_page_table pd tables_index =
     (case pd_tables pd tables_index of
        None \<Rightarrow> pd
      | Some _ \<Rightarrow> pd\<lparr>pd_tables := (pd_tables pd)(tables_index := None),
                     pd_entry_present := (pd_entry_present pd)(tables_index := False)\<rparr>)"

definition fill_entry :: "nat \<Rightarrow> nat \<Rightarrow> vm_prot \<Rightarrow> pt_entry \<Rightarrow> pt_entry" where
  "fill_entry directory_index ppage prot entry =
     set_address (ppage * PAGE_SIZE)
       (entry\<lparr>pe_present := True, pe_read_write := prot_write prot, pe_user := directory_index < 768\<rparr>)"

definition map_page :: "page_dir \<Rightarrow> nat \<Rightarrow> nat \<Rightarrow> vm_prot \<Rightarrow> (unit ret \<times> page_dir) run" where
  "map_page pd vpage ppage prot =
     (let directory_index = dir_index vpage; table_index = table_index vpage in
      if directory_index < 768 then
        (if pd_type pd \<noteq> USER then Inr (Inl EINVAL, pd)
         else
           let pd1 = (if pd_tables pd directory_index = None then alloc_page_table pd directory_index else pd) in
           case pd_tables pd1 directory_index of
             None \<Rightarrow> Inl NullDeref
           | Some entries \<Rightarrow>
               let pd2 = (if \<not> pe_present (entries table_index)
                          then pd1\<lparr>pd_num_mapped := (pd_num_mapped pd1)
                                 (directory_index := pd_num_mapped pd1 directory_index + 1)\<rparr>
                          else pd1) in
               Inr (Inr (), pd2\<lparr>pd_tables := (pd_tables pd2)(directory_index :=
                      Some (entries(table_index := fill_entry directory_index ppage prot (entries table_index))))\<rparr>))
      else
        (if pd_type pd \<noteq> KERNEL then Inr (Inl EINVAL, pd)
         else
           let entries = pd_kernel_tables pd (directory_index - 768) in
           Inr (Inr (), pd\<lparr>pd_kernel_tables := (pd_kernel_tables pd)(directory_index - 768 :=
                  entries(table_index := fill_entry directory_index ppage prot (entries table_index)))\<rparr>)))"

definition unmap_page :: "page_dir \<Rightarrow> nat \<Rightarrow> (unit ret \<times> page_dir) run" where
  "unmap_page pd vpage =
     (let directory_index = dir_index vpage; table_index = table_index vpage in
      if directory_index < 768 then
        (if pd_type pd \<noteq> USER then Inr (Inl EINVAL, pd)
         else
           let pd1 = (if pd_tables pd directory_index = None then alloc_page_table pd directory_index else pd) in
           case pd_tables pd1 directory_index of
             None \<Rightarrow> Inl NullDeref
           | Some entries \<Rightarrow>
               let pd2 = (if pe_present (entries table_index)
                          then pd1\<lparr>pd_num_mapped := (pd_num_mapped pd1)
                                 (directory_index := pd_num_mapped pd1 directory_index - 1)\<rparr>
                          else pd1);
                   pd3 = pd2\<lparr>pd_tables := (pd_tables pd2)(directory_index :=
                              Some (entries(table_index := entry_zero)))\<rparr> in
               Inr (Inr (), if pd_num_mapped pd3 directory_index = 0
                            then dealloc_page_table pd3 directory_index else pd3))
      else
        (if pd_type pd \<noteq> KERNEL then Inr (Inl EINVAL, pd)
         else
           Inr (Inr (), pd\<lparr>pd_kernel_tables := (pd_kernel_tables pd)(directory_index - 768 :=
                  (pd_kernel_tables pd (directory_index - 768))(table_index := entry_zero))\<rparr>)))"

section \<open>The user half as a partial map\<close>

text \<open>What the processor sees: the frame and the write permission of a virtual page.\<close>

definition pd_lookup :: "page_dir \<Rightarrow> nat \<Rightarrow> (nat \<times> bool) option" where
  "pd_lookup pd vpage =
     (if is_mapped pd (vpage * PAGE_SIZE) False
      then Some (get_physaddr pd (vpage * PAGE_SIZE) div PAGE_SIZE, is_mapped pd (vpage * PAGE_SIZE) True)
      else None)"

abbreviation mapped_in :: "(nat \<Rightarrow> pt_entry) \<Rightarrow> nat set" where
  "mapped_in entries \<equiv> {t. t < 1024 \<and> pe_present (entries t)}"

text \<open>
  The invariant of a user directory: a table exists exactly when one of its pages is mapped, its
  entry in the directory is present exactly then, and the counter is the number of mapped pages.
\<close>

definition table_ok :: "page_dir \<Rightarrow> nat \<Rightarrow> bool" where
  "table_ok pd i \<longleftrightarrow>
     (case pd_tables pd i of
        None \<Rightarrow> \<not> pd_entry_present pd i \<and> pd_num_mapped pd i = 0
      | Some entries \<Rightarrow> pd_entry_present pd i \<and> mapped_in entries \<noteq> {} \<and>
          pd_num_mapped pd i = int (card (mapped_in entries)))"

definition dir_ok :: "page_dir \<Rightarrow> bool" where
  "dir_ok pd \<longleftrightarrow> pd_type pd = USER \<and> (\<forall>i < 768. table_ok pd i)"

lemma dir_ok_new: "dir_ok (page_dir_new kd)"
  by (simp add: dir_ok_def table_ok_def page_dir_new_def)

lemma user_page_index:
  assumes "v < 768 * 1024"
  shows "dir_index v = v div 1024" "dir_index v < 768" "v * PAGE_SIZE < HIGHER_HALF" "v * PAGE_SIZE div PAGE_SIZE = v"
  using assms by (simp_all add: dir_index_def less_mult_imp_div_less)

lemma page_index_eq:
  assumes "v < 768 * 1024" "w < 768 * 1024" "dir_index v = dir_index w" "table_index v = table_index w"
  shows "v = w"
  using assms user_page_index(1)[of v] user_page_index(1)[of w] unfolding table_index_def
  by (metis div_mult_mod_eq)

lemma pd_lookup_user:
  assumes "v < 768 * 1024" "table_ok pd (dir_index v)"
  shows "pd_lookup pd v =
     (case pd_tables pd (dir_index v) of
        None \<Rightarrow> None
      | Some es \<Rightarrow> let e = es (table_index v) in
          if pe_present e then Some (unat (pe_page_addr e), pe_read_write e) else None)"
  using assms user_page_index[OF assms(1)]
  by (auto simp: pd_lookup_def is_mapped_def get_physaddr_def table_ok_def get_address_def Let_def split: option.splits)

lemma fill_entry_simps [simp]:
  "pe_present (fill_entry d p prot e)"
  "pe_read_write (fill_entry d p prot e) = prot_write prot"
  "pe_page_addr (fill_entry d p prot e) = of_nat p"
  by (simp_all add: fill_entry_def set_address_def)

lemma mapped_in_finite [simp]: "finite (mapped_in es)"
  by simp

lemma mapped_in_add:
  assumes "t < 1024" "pe_present e"
  shows "mapped_in (es(t := e)) = insert t (mapped_in es)"
  using assms by auto

lemma mapped_in_remove:
  assumes "\<not> pe_present e"
  shows "mapped_in (es(t := e)) = mapped_in es - {t}"
  using assms by auto

lemma table_index_less [simp]: "table_index v < 1024"
  by (simp add: table_index_def)

text \<open>The effect of both operations on the tables, with the page table in place.\<close>

definition table_of :: "page_dir \<Rightarrow> nat \<Rightarrow> nat \<Rightarrow> pt_entry" where
  "table_of pd i = (case pd_tables pd i of None \<Rightarrow> \<lambda>_. entry_zero | Some es \<Rightarrow> es)"

lemma entry_zero_absent [simp]: "\<not> pe_present entry_zero"
  by (simp add: entry_zero_def)

lemma table_ok_count: "table_ok pd i \<Longrightarrow> pd_num_mapped pd i = int (card (mapped_in (table_of pd i)))"
  by (auto simp: table_ok_def table_of_def split: option.splits)

lemma map_page_step:
  assumes ok: "dir_ok pd" and v: "v < 768 * 1024"
  defines "i \<equiv> dir_index v" and "t \<equiv> table_index v"
  shows "\<exists>pd'. map_page pd v p prot = Inr (Inr (), pd') \<and> dir_ok pd' \<and>
     pd_tables pd' = (pd_tables pd)(i \<mapsto> (table_of pd i)(t := fill_entry i p prot (table_of pd i t)))"
proof -
  let ?es = "table_of pd i" and ?e = "fill_entry i p prot (table_of pd i t)"
  let ?n = "if pe_present (?es t) then pd_num_mapped pd i else pd_num_mapped pd i + 1"
  let ?pd = "pd\<lparr>pd_tables := (pd_tables pd)(i \<mapsto> ?es(t := ?e)),
     pd_entry_present := (pd_entry_present pd)(i := True), pd_num_mapped := (pd_num_mapped pd)(i := ?n)\<rparr>"
  have i: "i < 768" unfolding i_def by (rule user_page_index(2)[OF v])
  from ok i have ty: "pd_type pd = USER" and tok: "table_ok pd i" by (simp_all add: dir_ok_def)
  have "map_page pd v p prot = Inr (Inr (), ?pd)"
    using i ty tok fun_upd_triv[of "pd_num_mapped pd" i] fun_upd_triv[of "pd_entry_present pd" i]
    unfolding i_def[symmetric] t_def[symmetric]
    by (cases "pd_tables pd i") (auto simp: map_page_def Let_def i_def[symmetric] t_def[symmetric] alloc_page_table_def
        table_of_def table_ok_def)
  moreover have "table_ok ?pd j" if "j < 768" for j
  proof (cases "j = i")
    case True
    have m: "mapped_in (?es(t := ?e)) = insert t (mapped_in ?es)"
      by (rule mapped_in_add) (simp_all add: t_def)
    have "?n = int (card (insert t (mapped_in ?es)))"
      using table_ok_count[OF tok] by (simp add: card_insert_if t_def)
    with True m show ?thesis by (simp add: table_ok_def)
  next
    case False
    moreover have "table_ok pd j" using ok that by (simp add: dir_ok_def)
    ultimately show ?thesis by (simp add: table_ok_def cong: option.case_cong)
  qed
  ultimately show ?thesis using ty by (auto simp: dir_ok_def)
qed

lemma unmap_page_step:
  assumes ok: "dir_ok pd" and v: "v < 768 * 1024"
  defines "i \<equiv> dir_index v" and "t \<equiv> table_index v"
  defines "es \<equiv> (table_of pd i)(t := entry_zero)"
  shows "\<exists>pd'. unmap_page pd v = Inr (Inr (), pd') \<and> dir_ok pd' \<and>
     pd_tables pd' = (pd_tables pd)(i := if mapped_in es = {} then None else Some es)"
proof -
  let ?n = "if pe_present (table_of pd i t) then pd_num_mapped pd i - 1 else pd_num_mapped pd i"
  have i: "i < 768" unfolding i_def by (rule user_page_index(2)[OF v])
  from ok i have ty: "pd_type pd = USER" and tok: "table_ok pd i" by (simp_all add: dir_ok_def)
  have m: "mapped_in es = mapped_in (table_of pd i) - {t}" unfolding es_def by (rule mapped_in_remove) simp
  have n: "?n = int (card (mapped_in es))"
  proof (cases "pe_present (table_of pd i t)")
    case True
    then have "t \<in> mapped_in (table_of pd i)" by (simp add: t_def)
    then have "card (mapped_in (table_of pd i)) = Suc (card (mapped_in es))"
      unfolding m by (rule card.remove[OF mapped_in_finite])
    with True table_ok_count[OF tok] show ?thesis by simp
  next
    case False
    then have "mapped_in es = mapped_in (table_of pd i)" unfolding m by auto
    with False table_ok_count[OF tok] show ?thesis by simp
  qed
  define gone where "gone \<longleftrightarrow> mapped_in es = {}"
  let ?pd = "pd\<lparr>pd_tables := (pd_tables pd)(i := if gone then None else Some es),
     pd_entry_present := (pd_entry_present pd)(i := \<not> gone), pd_num_mapped := (pd_num_mapped pd)(i := ?n)\<rparr>"
  have n0: "?n = 0 \<longleftrightarrow> gone" using n by (simp add: gone_def card_eq_0_iff)
  have "unmap_page pd v = Inr (Inr (), ?pd)"
  proof (cases "pd_tables pd i")
    case None
    with tok n0 have "gone" "es = (\<lambda>_. entry_zero)(t := entry_zero)" "pd_num_mapped pd i = 0" "\<not> pd_entry_present pd i"
      by (auto simp: table_ok_def table_of_def es_def split: if_splits)
    moreover have "(pd_num_mapped pd)(i := 0) = pd_num_mapped pd" using calculation(3) by (simp add: fun_upd_idem)
    ultimately show ?thesis using None i ty
      by (simp add: unmap_page_def Let_def i_def[symmetric] alloc_page_table_def dealloc_page_table_def table_of_def)
  next
    case (Some a)
    with tok n0 have "es = a(t := entry_zero)" "pd_entry_present pd i" "pe_present (a t) \<longleftrightarrow> pe_present (table_of pd i t)"
      by (auto simp: table_ok_def table_of_def es_def)
    moreover have "(pd_entry_present pd)(i := True) = pd_entry_present pd" using calculation(2) by (simp add: fun_upd_idem)
    ultimately show ?thesis using Some i ty n0
      by (cases gone) (auto simp: unmap_page_def Let_def i_def[symmetric] t_def[symmetric] dealloc_page_table_def fun_upd_idem)
  qed
  moreover have "table_ok ?pd j" if "j < 768" for j
  proof (cases "j = i")
    case True
    with n show ?thesis by (simp add: table_ok_def gone_def split: option.splits)
  next
    case False
    moreover have "table_ok pd j" using ok that by (simp add: dir_ok_def)
    ultimately show ?thesis by (simp add: table_ok_def cong: option.case_cong)
  qed
  moreover have "dir_ok ?pd" using calculation(2) ty by (simp add: dir_ok_def)
  ultimately show ?thesis unfolding gone_def by auto
qed

section \<open>Correctness of the page tables\<close>

datatype pt_op = PtMap nat nat vm_prot | PtUnmap nat

fun pt_run :: "page_dir \<Rightarrow> pt_op list \<Rightarrow> page_dir run" where
  "pt_run pd [] = Inr pd"
| "pt_run pd (PtMap vpage ppage prot # ops) = bindR (map_page pd vpage ppage prot) (\<lambda>(_, pd1). pt_run pd1 ops)"
| "pt_run pd (PtUnmap vpage # ops) = bindR (unmap_page pd vpage) (\<lambda>(_, pd1). pt_run pd1 ops)"

fun pt_spec :: "(nat \<Rightarrow> (nat \<times> bool) option) \<Rightarrow> pt_op list \<Rightarrow> nat \<Rightarrow> (nat \<times> bool) option" where
  "pt_spec m [] = m"
| "pt_spec m (PtMap vpage ppage prot # ops) = pt_spec (m(vpage \<mapsto> (ppage, prot_write prot))) ops"
| "pt_spec m (PtUnmap vpage # ops) = pt_spec (m(vpage := None)) ops"

fun pt_op_ok :: "pt_op \<Rightarrow> bool" where
  "pt_op_ok (PtMap vpage ppage prot) \<longleftrightarrow> vpage < 768 * 1024 \<and> ppage < 2 ^ 20"
| "pt_op_ok (PtUnmap vpage) \<longleftrightarrow> vpage < 768 * 1024"

definition user_map :: "page_dir \<Rightarrow> nat \<Rightarrow> (nat \<times> bool) option" where
  "user_map pd v = (if v < 768 * 1024 then pd_lookup pd v else None)"

lemma user_map_table:
  assumes "dir_ok pd" "v < 768 * 1024"
  shows "user_map pd v = (let e = table_of pd (dir_index v) (table_index v) in
     if pe_present e then Some (unat (pe_page_addr e), pe_read_write e) else None)"
  using assms user_page_index(2)[OF assms(2)] pd_lookup_user[OF assms(2), of pd]
  by (auto simp: user_map_def dir_ok_def table_of_def Let_def split: option.splits)

lemma map_page_refines:
  assumes "dir_ok pd" "v < 768 * 1024" "p < 2 ^ 20"
  shows "\<exists>pd'. map_page pd v p prot = Inr (Inr (), pd') \<and> dir_ok pd' \<and>
     user_map pd' = (user_map pd)(v \<mapsto> (p, prot_write prot))"
proof -
  from map_page_step[OF assms(1,2), of p prot] obtain pd' where
    *: "map_page pd v p prot = Inr (Inr (), pd')" "dir_ok pd'"
      "pd_tables pd' = (pd_tables pd)(dir_index v \<mapsto> (table_of pd (dir_index v))
         (table_index v := fill_entry (dir_index v) p prot (table_of pd (dir_index v) (table_index v))))" by blast
  have p: "unat (of_nat p :: 20 word) = p" using assms(3) by (simp add: unat_of_nat take_bit_eq_mod)
  have "user_map pd' w = ((user_map pd)(v \<mapsto> (p, prot_write prot))) w" for w
  proof (cases "w < 768 * 1024")
    case True
    have t: "table_of pd' (dir_index w) (table_index w) = (if w = v
        then fill_entry (dir_index v) p prot (table_of pd (dir_index v) (table_index v))
        else table_of pd (dir_index w) (table_index w))"
      using *(3) page_index_eq[OF True assms(2)] by (auto simp: table_of_def)
    show ?thesis using user_map_table[OF *(2) True] user_map_table[OF assms(1) True] p
      unfolding t by (simp add: Let_def)
  next
    case False
    with assms(2) show ?thesis by (simp add: user_map_def)
  qed
  with *(1,2) show ?thesis by blast
qed

lemma unmap_page_refines:
  assumes "dir_ok pd" "v < 768 * 1024"
  shows "\<exists>pd'. unmap_page pd v = Inr (Inr (), pd') \<and> dir_ok pd' \<and> user_map pd' = (user_map pd)(v := None)"
proof -
  let ?es = "(table_of pd (dir_index v))(table_index v := entry_zero)"
  from unmap_page_step[OF assms] obtain pd' where
    *: "unmap_page pd v = Inr (Inr (), pd')" "dir_ok pd'"
      "pd_tables pd' = (pd_tables pd)(dir_index v := if mapped_in ?es = {} then None else Some ?es)" by blast
  have "user_map pd' w = ((user_map pd)(v := None)) w" for w
  proof (cases "w < 768 * 1024")
    case True
    have t: "pe_present (table_of pd' (dir_index w) (table_index w)) \<longleftrightarrow>
        w \<noteq> v \<and> pe_present (table_of pd (dir_index w) (table_index w))"
      using *(3) page_index_eq[OF True assms(2)] by (auto simp: table_of_def split: if_splits option.splits)
    moreover have "table_of pd' (dir_index w) (table_index w) = table_of pd (dir_index w) (table_index w)"
      if "pe_present (table_of pd' (dir_index w) (table_index w))"
      using that *(3) by (auto simp: table_of_def split: if_splits)
    ultimately show ?thesis using user_map_table[OF *(2) True] user_map_table[OF assms(1) True]
      by (auto simp: Let_def)
  next
    case False
    with assms(2) show ?thesis by (simp add: user_map_def)
  qed
  with *(1,2) show ?thesis by blast
qed

lemma pt_run_refines:
  "dir_ok pd \<Longrightarrow> list_all pt_op_ok ops \<Longrightarrow>
   \<exists>pd'. pt_run pd ops = Inr pd' \<and> dir_ok pd' \<and> user_map pd' = pt_spec (user_map pd) ops"
proof (induction ops arbitrary: pd)
  case (Cons op ops)
  show ?case
  proof (cases op)
    case (PtMap v p prot)
    with map_page_refines[of pd v p prot] Cons.prems obtain pd1 where
      *: "map_page pd v p prot = Inr (Inr (), pd1)" "dir_ok pd1" "user_map pd1 = (user_map pd)(v \<mapsto> (p, prot_write prot))" by auto
    have "list_all pt_op_ok ops" using Cons.prems by simp
    from Cons.IH[OF *(2) this, unfolded *(3)] *(1) PtMap show ?thesis by (simp del: fun_upd_apply)
  next
    case (PtUnmap v)
    with unmap_page_refines[of pd v] Cons.prems obtain pd1 where
      *: "unmap_page pd v = Inr (Inr (), pd1)" "dir_ok pd1" "user_map pd1 = (user_map pd)(v := None)" by auto
    have "list_all pt_op_ok ops" using Cons.prems by simp
    from Cons.IH[OF *(2) this, unfolded *(3)] *(1) PtUnmap show ?thesis by (simp del: fun_upd_apply)
  qed
qed simp

lemma user_map_new: "user_map (page_dir_new kd) = (\<lambda>_. None)"
  using user_map_table[OF dir_ok_new, of _ kd]
  by (intro ext) (simp add: user_map_def pd_lookup_def is_mapped_def page_dir_new_def Let_def)

text \<open>A table is allocated exactly when one of its pages is mapped.\<close>

lemma tables_on_demand:
  assumes "dir_ok pd" "i < 768"
  shows "pd_tables pd i \<noteq> None \<longleftrightarrow> (\<exists>v. v < 768 * 1024 \<and> dir_index v = i \<and> user_map pd v \<noteq> None)"
proof
  assume "pd_tables pd i \<noteq> None"
  moreover have "table_ok pd i" using assms by (simp add: dir_ok_def)
  ultimately obtain es t where t: "pd_tables pd i = Some es" "t < 1024" "pe_present (es t)"
    by (auto simp: table_ok_def)
  let ?v = "i * 1024 + t"
  have v: "?v < 768 * 1024" "dir_index ?v = i" "table_index ?v = t"
    using assms(2) t(2) by (simp_all add: dir_index_def table_index_def)
  with user_map_table[OF assms(1) v(1)] t show "\<exists>v. v < 768 * 1024 \<and> dir_index v = i \<and> user_map pd v \<noteq> None"
    by (intro exI[of _ ?v]) (simp add: table_of_def Let_def)
next
  assume "\<exists>v. v < 768 * 1024 \<and> dir_index v = i \<and> user_map pd v \<noteq> None"
  then show "pd_tables pd i \<noteq> None"
    using user_map_table[OF assms(1)] by (auto simp: table_of_def Let_def split: option.splits)
qed

text \<open>
  C4: a user page directory is a partial map from virtual pages to frames and write permissions.
  After any sequence of \<open>map_page\<close> and \<open>unmap_page\<close> calls on a new directory, \<open>is_mapped\<close> and
  \<open>get_physaddr\<close> report exactly the last mapping of each page, no call faults, and a page table is
  allocated exactly for the 4 MiB areas that have a mapped page.
\<close>

theorem page_directory_refines_map:
  assumes "list_all pt_op_ok ops"
  shows "\<exists>pd. pt_run (page_dir_new kd) ops = Inr pd \<and> user_map pd = pt_spec (\<lambda>_. None) ops \<and>
     (\<forall>i < 768. pd_tables pd i \<noteq> None \<longleftrightarrow>
        (\<exists>v. v < 768 * 1024 \<and> dir_index v = i \<and> pt_spec (\<lambda>_. None) ops v \<noteq> None))"
proof -
  from pt_run_refines[OF dir_ok_new assms, of kd] obtain pd where
    pd: "pt_run (page_dir_new kd) ops = Inr pd" "dir_ok pd" "user_map pd = pt_spec (\<lambda>_. None) ops"
    unfolding user_map_new by blast
  from tables_on_demand[OF pd(2)] pd(1,3) show ?thesis by auto
qed

theorem page_directory_refines_map_witness:
  "\<exists>pd. pt_run (page_dir_new init_paging) [PtMap 5 77 VMProt_RW, PtMap 2048 3 VMProt_R, PtUnmap 5] = Inr pd \<and>
     user_map pd = [2048 \<mapsto> (3, False)] \<and> pd_tables pd 0 = None \<and> pd_tables pd 2 \<noteq> None"
proof -
  let ?ops = "[PtMap 5 77 VMProt_RW, PtMap 2048 3 VMProt_R, PtUnmap 5]"
  have spec: "pt_spec (\<lambda>_. None) ?ops = [2048 \<mapsto> (3, False)]"
    by (auto simp: VMProt_R_def VMProt_RW_def fun_eq_iff)
  have "list_all pt_op_ok ?ops" by simp
  from page_directory_refines_map[OF this, of init_paging, unfolded spec] obtain pd where
    pd: "pt_run (page_dir_new init_paging) ?ops = Inr pd" "user_map pd = [2048 \<mapsto> (3, False)]"
      "\<forall>i < 768. pd_tables pd i \<noteq> None \<longleftrightarrow>
        (\<exists>v. v < 768 * 1024 \<and> dir_index v = i \<and> [2048 \<mapsto> (3 :: nat, False)] v \<noteq> None)"
    by (elim exE conjE) (rule that)
  have "dir_index 2048 = 2" by (simp add: dir_index_def)
  then have "pd_tables pd 0 = None" "pd_tables pd 2 \<noteq> None" 
    using pd(3)[rule_format, of 0] pd(3)[rule_format, of 2] by (auto split: if_splits)
  with pd(1,2) show ?thesis by blast
qed

end
