(* ===== verification/VMObject.thy ===== *)
theory VMObject
  imports PhysicalMemory PageTables
begin

text \<open>
  Virtual memory objects (\<open>kernel/memory/VMObject.cpp\<close>, \<open>AnonymousVMObject.cpp\<close>,
  \<open>InodeVMObject.cpp\<close>): a vector of physical pages, page number 0 standing for "not committed", and
  a bitmap of the pages that must be copied before they are written. The subclasses extend the
  record of the base class, whose methods work on every extension.

  The methods that replace or add a page drop the object's lock while they allocate. They are split
  where the lock is released: a check, the allocation, and a commit that looks at the object again.
  \<open>reclaim\<close> is \<open>DiskDevice::free_pages(4)\<close> as in the page allocator.
\<close>

section \<open>State\<close>

datatype fork_action = BecomeCoW | Share | Ignore

record vm_object =
  vo_pages :: "nat list"
  vo_cow :: bitmap
  vo_size :: nat

record anon_object = vm_object +
  an_is_shared :: bool
  an_fork_action :: fork_action
  an_shared_owner :: int
  an_shm_id :: int
  an_committed :: nat
  an_device :: bool
  an_permissions :: "int \<Rightarrow> vm_prot option"

datatype inode_type = Shared | Private

record inode_object = vm_object +
  io_type :: inode_type
  io_committed :: nat

type_synonym reclaim = "memory_manager \<Rightarrow> nat \<times> memory_manager"

section \<open>The base class\<close>

definition physical_page_index :: "'a vm_object_scheme \<Rightarrow> nat \<Rightarrow> nat run" where
  "physical_page_index obj index =
     (if index < length (vo_pages obj) then Inr (vo_pages obj ! index) else Inl AssertFailed)"

definition page_is_cow :: "'a vm_object_scheme \<Rightarrow> nat \<Rightarrow> bool run" where
  "page_is_cow obj page = bm_get (vo_cow obj) page"

text \<open>The loop of the constructor and of \<open>become_cow_and_ref_pages\<close> over the committed pages.\<close>

definition mark_cow :: "nat list \<Rightarrow> nat \<Rightarrow> bitmap \<Rightarrow> bitmap run" where
  "mark_cow pages i cow = (if pages ! i \<noteq> 0 then bm_set cow i True else Inr cow)"

definition vm_object_new :: "u8 \<Rightarrow> nat list \<Rightarrow> bool \<Rightarrow> vm_object run" where
  "vm_object_new junk pages all_cow =
     bindR (bm_new junk (length pages) False) (\<lambda>cow.
       bindR (if all_cow then for_run 0 (length pages) (mark_cow pages) cow else Inr cow) (\<lambda>cow1.
         Inr \<lparr>vo_pages = pages, vo_cow = cow1, vo_size = (length pages * PAGE_SIZE) mod 2 ^ 32\<rparr>))"

fun unref_pages :: "nat list \<Rightarrow> memory_manager \<Rightarrow> memory_manager run" where
  "unref_pages [] mm = Inr mm"
| "unref_pages (p # ps) mm =
     bindR (if p \<noteq> 0 then page_unref mm p else Inr mm) (\<lambda>mm1. unref_pages ps mm1)"

definition vm_object_destroy :: "'a vm_object_scheme \<Rightarrow> memory_manager \<Rightarrow> memory_manager run" where
  "vm_object_destroy obj mm = unref_pages (vo_pages obj) mm"

definition become_cow_and_ref_pages ::
    "'a vm_object_scheme \<Rightarrow> memory_manager \<Rightarrow> ('a vm_object_scheme \<times> memory_manager) run" where
  "become_cow_and_ref_pages obj mm =
     bindR (for_run 0 (length (vo_pages obj)) (\<lambda>i (cow, mm).
         if vo_pages obj ! i \<noteq> 0
         then bindR (bm_set cow i True) (\<lambda>cow1. bindR (page_ref mm (vo_pages obj ! i)) (\<lambda>mm1. Inr (cow1, mm1)))
         else Inr (cow, mm)) (vo_cow obj, mm))
       (\<lambda>(cow, mm1). Inr (obj\<lparr>vo_cow := cow\<rparr>, mm1))"

text \<open>\<open>try_cow_page\<close>: the check, the copy, and the commit under the lock again.\<close>

definition cow_check :: "'a vm_object_scheme \<Rightarrow> nat \<Rightarrow> nat ret run" where
  "cow_check obj page =
     bindR (assertR (page < length (vo_pages obj))) (\<lambda>_.
       bindR (page_is_cow obj page) (\<lambda>cow.
         if \<not> cow then Inr (Inl EINVAL)
         else bindR (physical_page_index obj page) (\<lambda>old_page_index.
                bindR (assertR (old_page_index \<noteq> 0)) (\<lambda>_. Inr (Inr old_page_index)))))"

definition cow_commit ::
    "'a vm_object_scheme \<Rightarrow> phys \<Rightarrow> nat \<Rightarrow> nat \<Rightarrow> (unit ret \<times> 'a vm_object_scheme \<times> phys) run" where
  "cow_commit obj ph page new_page =
     bindR (page_is_cow obj page) (\<lambda>cow.
       if \<not> cow
       then bindR (free_physical_page (ph_mm ph) new_page) (\<lambda>mm. Inr (Inr (), obj, ph\<lparr>ph_mm := mm\<rparr>))
       else bindR (physical_page_index obj page) (\<lambda>slot.
              bindR (page_unref (ph_mm ph) slot) (\<lambda>mm.
                bindR (bm_set (vo_cow obj) page False) (\<lambda>cow1.
                  Inr (Inr (), obj\<lparr>vo_pages := (vo_pages obj)[page := new_page], vo_cow := cow1\<rparr>,
                       ph\<lparr>ph_mm := mm\<rparr>)))))"

definition try_cow_page ::
    "reclaim \<Rightarrow> 'a vm_object_scheme \<Rightarrow> phys \<Rightarrow> nat \<Rightarrow> (unit ret \<times> 'a vm_object_scheme \<times> phys) prun" where
  "try_cow_page reclaim obj ph page =
     bindP (Some (cow_check obj page)) (\<lambda>res. case res of
       Inl e \<Rightarrow> Some (Inr (Inl e, obj, ph))
     | Inr old_page_index \<Rightarrow>
         bindP (alloc_physical_page reclaim (ph_mm ph)) (\<lambda>(new_page, mm).
           Some (cow_commit obj (copy_page (ph\<lparr>ph_mm := mm\<rparr>) old_page_index new_page) page new_page)))"

section \<open>Anonymous objects\<close>

definition ceil_div :: "nat \<Rightarrow> nat \<Rightarrow> nat" where
  "ceil_div a b = ((a + (b - 1)) mod 2 ^ 32) div b"

definition anon_of :: "vm_object \<Rightarrow> nat \<Rightarrow> anon_object" where
  "anon_of obj committed =
     \<lparr>vo_pages = vo_pages obj, vo_cow = vo_cow obj, vo_size = vo_size obj, an_is_shared = False,
      an_fork_action = BecomeCoW, an_shared_owner = 0, an_shm_id = 0, an_committed = committed,
      an_device = False, an_permissions = Map.empty\<rparr>"

text \<open>The two constructors: from a vector of pages, all of them counted, and with no page committed.\<close>

definition anon_new_pages :: "u8 \<Rightarrow> nat list \<Rightarrow> bool \<Rightarrow> anon_object run" where
  "anon_new_pages junk pages cow =
     bindR (vm_object_new junk pages cow) (\<lambda>obj. Inr (anon_of obj (length pages)))"

definition anon_new_empty :: "u8 \<Rightarrow> nat \<Rightarrow> bool \<Rightarrow> anon_object run" where
  "anon_new_empty junk n_pages cow =
     bindR (vm_object_new junk (replicate n_pages 0) cow) (\<lambda>obj. Inr (anon_of obj 0))"

fun zero_pages :: "nat list \<Rightarrow> phys \<Rightarrow> phys" where
  "zero_pages [] ph = ph"
| "zero_pages (p # ps) ph = zero_pages ps (with_quickmapped ph p (\<lambda>_. zero_frame))"

text \<open>A committed object is zeroed through a temporary mapping of all its pages.\<close>

definition anon_alloc ::
    "reclaim \<Rightarrow> (nat \<Rightarrow> memory_manager \<Rightarrow> memory_manager) \<Rightarrow> nat \<Rightarrow> u8 \<Rightarrow> phys \<Rightarrow> nat \<Rightarrow> bool \<Rightarrow>
     (anon_object \<times> phys) prun" where
  "anon_alloc reclaim drop_cache usable_bytes junk ph sz commit =
     (let num_pages = ceil_div sz PAGE_SIZE in
      if \<not> commit then Some (bindR (anon_new_empty junk num_pages False) (\<lambda>obj. Inr (obj, ph)))
      else
        bindP (alloc_physical_pages reclaim drop_cache usable_bytes (ph_mm ph) num_pages) (\<lambda>(pages, mm).
          Some (bindR (anon_new_pages junk pages False) (\<lambda>obj.
            Inr (obj, zero_pages pages (ph\<lparr>ph_mm := mm\<rparr>))))))"

definition anon_alloc_contiguous :: "u8 \<Rightarrow> phys \<Rightarrow> nat \<Rightarrow> (anon_object ret \<times> phys) run" where
  "anon_alloc_contiguous junk ph sz =
     (let num_pages = ceil_div sz PAGE_SIZE in
      bindR (alloc_contiguous_physical_pages (ph_mm ph) num_pages) (\<lambda>(res, mm).
        case res of
          Inl e \<Rightarrow> Inr (Inl e, ph\<lparr>ph_mm := mm\<rparr>)
        | Inr pages \<Rightarrow> bindR (anon_new_pages junk pages False) (\<lambda>obj.
            Inr (Inr obj, zero_pages pages (ph\<lparr>ph_mm := mm\<rparr>)))))"

fun reserve_pages :: "nat \<Rightarrow> nat \<Rightarrow> phys_page list \<Rightarrow> phys_page list run" where
  "reserve_pages start_page 0 pages = Inr pages"
| "reserve_pages start_page (Suc n) pages =
     bindR (upd_physical_page pages start_page (\<lambda>p. set_reserved True (set_ref_count 1 p))) (\<lambda>pages1.
       reserve_pages (Suc start_page) n pages1)"

definition anon_map_to_physical ::
    "u8 \<Rightarrow> memory_manager \<Rightarrow> nat \<Rightarrow> nat \<Rightarrow> bool \<Rightarrow> (anon_object ret \<times> memory_manager) run" where
  "anon_map_to_physical junk mm start sz device =
     bindR (assertR ((start div PAGE_SIZE) * PAGE_SIZE = start)) (\<lambda>_.
       let start_page = start div PAGE_SIZE;
           num_pages = sub32 (ceil_div (add32 start sz) PAGE_SIZE) start_page in
       if ((start_page + num_pages) * PAGE_SIZE) mod 2 ^ 32 < (start_page * PAGE_SIZE) mod 2 ^ 32
       then Inr (Inl EINVAL, mm)
       else
         bindR (reserve_pages start_page num_pages (mm_pages mm)) (\<lambda>pages.
           bindR (anon_new_pages junk [start_page ..< start_page + num_pages] False) (\<lambda>obj.
             Inr (Inr (obj\<lparr>an_committed := 0, an_fork_action := Share, an_device := device\<rparr>),
                  mm\<lparr>mm_pages := pages\<rparr>))))"

text \<open>Shared objects: the table of identifiers and the permissions of each process.\<close>

record shm_table =
  shm_cur_id :: int
  shm_objects :: "int \<Rightarrow> nat option"

definition get_shared :: "shm_table \<Rightarrow> int \<Rightarrow> nat ret" where
  "get_shared shm ident = (case shm_objects shm ident of None \<Rightarrow> Inl ENOENT | Some self \<Rightarrow> Inr self)"

definition anon_share ::
    "shm_table \<Rightarrow> nat \<Rightarrow> anon_object \<Rightarrow> int \<Rightarrow> vm_prot \<Rightarrow> anon_object \<times> shm_table" where
  "anon_share shm self obj pid prot =
     (let (obj1, shm1) =
        (if \<not> an_is_shared obj
         then (obj\<lparr>an_shared_owner := pid, an_shm_id := shm_cur_id shm, an_is_shared := True, an_fork_action := Ignore\<rparr>,
               shm\<lparr>shm_cur_id := shm_cur_id shm + 1, shm_objects := (shm_objects shm)(shm_cur_id shm \<mapsto> self)\<rparr>)
         else (obj, shm))
      in (obj1\<lparr>an_permissions := (an_permissions obj1)(pid \<mapsto> prot)\<rparr>, shm1))"

definition get_shared_permissions :: "anon_object \<Rightarrow> int \<Rightarrow> vm_prot ret" where
  "get_shared_permissions obj pid =
     (case an_permissions obj pid of None \<Rightarrow> Inl ENOENT | Some prot \<Rightarrow> Inr prot)"

definition anon_destroy :: "shm_table \<Rightarrow> anon_object \<Rightarrow> memory_manager \<Rightarrow> (shm_table \<times> memory_manager) run" where
  "anon_destroy shm obj mm =
     bindR (vm_object_destroy obj mm) (\<lambda>mm1.
       Inr (if an_is_shared obj then shm\<lparr>shm_objects := (shm_objects shm)(an_shm_id obj := None)\<rparr> else shm, mm1))"

definition anon_clone :: "u8 \<Rightarrow> anon_object \<Rightarrow> memory_manager \<Rightarrow> (anon_object \<times> anon_object \<times> memory_manager) run" where
  "anon_clone junk obj mm =
     bindR (assertR (\<not> an_is_shared obj)) (\<lambda>_.
       bindR (become_cow_and_ref_pages obj mm) (\<lambda>(obj1, mm1).
         bindR (anon_new_pages junk (vo_pages obj1) True) (\<lambda>new_object. Inr (obj1, new_object, mm1))))"

definition anon_fault_check :: "anon_object \<Rightarrow> nat \<Rightarrow> bool ret run" where
  "anon_fault_check obj page =
     (if page > length (vo_pages obj) then Inr (Inl EINVAL)
      else bindR (physical_page_index obj page) (\<lambda>p. Inr (Inr (p \<noteq> 0))))"

definition anon_fault_commit :: "anon_object \<Rightarrow> phys \<Rightarrow> nat \<Rightarrow> nat \<Rightarrow> (bool ret \<times> anon_object \<times> phys) run" where
  "anon_fault_commit obj ph page new_page =
     bindR (physical_page_index obj page) (\<lambda>p.
       if p \<noteq> 0
       then bindR (free_physical_page (ph_mm ph) new_page) (\<lambda>mm. Inr (Inr False, obj, ph\<lparr>ph_mm := mm\<rparr>))
       else Inr (Inr True, obj\<lparr>vo_pages := (vo_pages obj)[page := new_page], an_committed := an_committed obj + 1\<rparr>, ph))"

definition anon_try_fault_in_page ::
    "reclaim \<Rightarrow> anon_object \<Rightarrow> phys \<Rightarrow> nat \<Rightarrow> (bool ret \<times> anon_object \<times> phys) prun" where
  "anon_try_fault_in_page reclaim obj ph page =
     bindP (Some (anon_fault_check obj page)) (\<lambda>res. case res of
       Inl e \<Rightarrow> Some (Inr (Inl e, obj, ph))
     | Inr True \<Rightarrow> Some (Inr (Inr False, obj, ph))
     | Inr False \<Rightarrow>
         bindP (alloc_physical_page reclaim (ph_mm ph)) (\<lambda>(new_page, mm).
           Some (anon_fault_commit obj (with_quickmapped (ph\<lparr>ph_mm := mm\<rparr>) new_page (\<lambda>_. zero_frame)) page new_page)))"

section \<open>Objects backed by an inode\<close>

text \<open>
  \<open>inode_read start count buf\<close> is \<open>m_inode->read(start, count, buf)\<close>: the number of bytes read, or a
  negative error number, and the buffer afterwards.
\<close>

type_synonym inode_read = "nat \<Rightarrow> nat \<Rightarrow> frame \<Rightarrow> int \<times> frame"

definition inode_object_new :: "u8 \<Rightarrow> nat list \<Rightarrow> inode_type \<Rightarrow> bool \<Rightarrow> inode_object run" where
  "inode_object_new junk pages type cow =
     bindR (vm_object_new junk pages cow) (\<lambda>obj.
       Inr \<lparr>vo_pages = vo_pages obj, vo_cow = vo_cow obj, vo_size = vo_size obj, io_type = type, io_committed = 0\<rparr>)"

definition make_for_inode :: "u8 \<Rightarrow> nat \<Rightarrow> inode_type \<Rightarrow> inode_object run" where
  "make_for_inode junk inode_size type =
     inode_object_new junk (replicate ((inode_size + PAGE_SIZE - 1) div PAGE_SIZE) 0) type False"

definition inode_clone :: "u8 \<Rightarrow> inode_object \<Rightarrow> memory_manager \<Rightarrow> (inode_object \<times> inode_object \<times> memory_manager) run" where
  "inode_clone junk obj mm =
     bindR (assertR (io_type obj = Private)) (\<lambda>_.
       bindR (become_cow_and_ref_pages obj mm) (\<lambda>(obj1, mm1).
         bindR (inode_object_new junk (vo_pages obj1) (io_type obj1) (io_type obj1 = Private)) (\<lambda>new_object.
           Inr (obj1, new_object\<lparr>io_committed := io_committed obj1\<rparr>, mm1))))"

definition inode_fork_action :: "inode_object \<Rightarrow> fork_action" where
  "inode_fork_action obj = (if io_type obj = Private then BecomeCoW else Share)"

definition inode_fault_check :: "inode_object \<Rightarrow> nat \<Rightarrow> bool ret run" where
  "inode_fault_check obj index =
     (if index \<ge> length (vo_pages obj) then Inr (Inl ERANGE)
      else bindR (physical_page_index obj index) (\<lambda>p. Inr (Inr (p \<noteq> 0))))"

definition inode_fault_commit :: "inode_object \<Rightarrow> phys \<Rightarrow> nat \<Rightarrow> nat \<Rightarrow> ((int + bool) \<times> inode_object \<times> phys) run" where
  "inode_fault_commit obj ph index new_page =
     bindR (physical_page_index obj index) (\<lambda>p.
       if p \<noteq> 0
       then bindR (free_physical_page (ph_mm ph) new_page) (\<lambda>mm. Inr (Inr False, obj, ph\<lparr>ph_mm := mm\<rparr>))
       else Inr (Inr True, obj\<lparr>io_committed := io_committed obj + 1, vo_pages := (vo_pages obj)[index := new_page]\<rparr>, ph))"

text \<open>The error of a failed read is passed on as a number, so the result type is \<open>int + bool\<close> here.\<close>

definition inode_try_fault_in_page ::
    "reclaim \<Rightarrow> inode_read \<Rightarrow> inode_object \<Rightarrow> phys \<Rightarrow> nat \<Rightarrow> ((int + bool) \<times> inode_object \<times> phys) prun" where
  "inode_try_fault_in_page reclaim inode_read obj ph index =
     bindP (Some (inode_fault_check obj index)) (\<lambda>res. case res of
       Inl e \<Rightarrow> Some (Inr (Inl (errno_code e), obj, ph))
     | Inr True \<Rightarrow> Some (Inr (Inr False, obj, ph))
     | Inr False \<Rightarrow>
         bindP (alloc_physical_page reclaim (ph_mm ph)) (\<lambda>(new_page, mm).
           let (nread, buf) = inode_read (index * PAGE_SIZE) PAGE_SIZE (ph_frames ph new_page);
               ph1 = with_quickmapped (ph\<lparr>ph_mm := mm\<rparr>) new_page (\<lambda>_. buf) in
           Some (if nread < 0
                 then bindR (free_physical_page (ph_mm ph1) new_page) (\<lambda>mm1. Inr (Inl (- nread), obj, ph1\<lparr>ph_mm := mm1\<rparr>))
                 else inode_fault_commit obj ph1 index new_page)))"

section \<open>Objects and the pages they hold\<close>

text \<open>
  An object is well formed with respect to the allocator: its bitmap covers its pages, a page occurs
  once, is in use and is counted, and only committed pages are marked.
\<close>

definition object_ok :: "nat set \<Rightarrow> nat set \<Rightarrow> memory_manager \<Rightarrow> 'a vm_object_scheme \<Rightarrow> bool" where
  "object_ok A V mm obj \<longleftrightarrow> length (vo_pages obj) \<le> bm_cap (vo_cow obj) \<and>
     distinct (filter (\<lambda>p. p \<noteq> 0) (vo_pages obj)) \<and>
     (\<forall>p \<in> set (vo_pages obj). p \<noteq> 0 \<longrightarrow> p \<in> A \<and> p \<notin> V \<and> refs mm p \<noteq> 0) \<and>
     (\<forall>i < length (vo_pages obj). bm_val (vo_cow obj) i \<longrightarrow> vo_pages obj ! i \<noteq> 0)"

lemma object_ok_page:
  assumes "object_ok A V mm obj" "i < length (vo_pages obj)" "vo_pages obj ! i \<noteq> 0"
  shows "vo_pages obj ! i \<in> A" "vo_pages obj ! i \<notin> V" "refs mm (vo_pages obj ! i) \<noteq> 0" "i < bm_cap (vo_cow obj)"
  using assms nth_mem[OF assms(2)] by (auto simp: object_ok_def)

lemma distinct_filter_nth:
  assumes "distinct (filter P xs)" "i < length xs" "j < length xs" "P (xs ! i)" "xs ! i = xs ! j"
  shows "i = j"
  using assms
proof (induction xs arbitrary: i j)
  case (Cons x xs)
  have "x \<notin> set (filter P xs)" if "P x" using Cons.prems(1) that by simp
  moreover have "distinct (filter P xs)" using Cons.prems(1) by (simp split: if_splits)
  ultimately show ?case using Cons.prems Cons.IH by (cases i; cases j) (auto simp: in_set_conv_nth)
qed simp

lemma object_ok_distinct:
  assumes "object_ok A V mm obj" "i < length (vo_pages obj)" "j < length (vo_pages obj)"
    "vo_pages obj ! i \<noteq> 0" "vo_pages obj ! i = vo_pages obj ! j"
  shows "i = j"
  using assms distinct_filter_nth[of "\<lambda>p. p \<noteq> 0" "vo_pages obj" i j] by (simp add: object_ok_def)

text \<open>Marking the committed pages: the loop of the constructor and of \<open>become_cow_and_ref_pages\<close>.\<close>

lemma vm_object_new_cow:
  "\<exists>obj. vm_object_new junk pages True = Inr obj \<and> vo_pages obj = pages \<and> length pages \<le> bm_cap (vo_cow obj) \<and>
     (\<forall>j < length pages. bm_val (vo_cow obj) j \<longleftrightarrow> pages ! j \<noteq> 0)"
proof -
  let ?n = "length pages"
  from bm_new_val[of junk ?n False] obtain c0 where
    c0: "bm_new junk ?n False = Inr c0" "?n \<le> bm_cap c0" "\<And>i. i < bm_cap c0 \<Longrightarrow> \<not> bm_val c0 i" by auto
  let ?P = "\<lambda>i c. bm_cap c = bm_cap c0 \<and> (\<forall>j < bm_cap c0. bm_val c j \<longleftrightarrow> j < i \<and> pages ! j \<noteq> 0)"
  have "\<exists>c. for_run 0 ?n (mark_cow pages) c0 = Inr c \<and> ?P ?n c"
  proof (rule for_run_rule[where P = ?P])
    fix i c assume i: "0 \<le> i" "i < ?n" "?P i c"
    then have ic: "i < bm_cap c" using c0(2) by simp
    from bm.set_val[OF ic, of True] i show "\<exists>c'. mark_cow pages i c = Inr c' \<and> ?P (Suc i) c'"
      by (cases "pages ! i = 0") (auto simp: mark_cow_def less_Suc_eq)
  qed (use c0 in auto)
  then obtain c where "for_run 0 ?n (mark_cow pages) c0 = Inr c" "?P ?n c" by blast
  with c0 show ?thesis by (auto simp: vm_object_new_def)
qed

lemma become_cow_spec:
  assumes mm: "mm_avail A mm V" and ok: "object_ok A V mm obj"
    and room: "\<And>p. p \<in> set (vo_pages obj) \<Longrightarrow> p \<noteq> 0 \<Longrightarrow> refs mm p \<noteq> 0xFFFF"
  shows "\<exists>c mm'. become_cow_and_ref_pages obj mm = Inr (obj\<lparr>vo_cow := c\<rparr>, mm') \<and> bm_cap c = bm_cap (vo_cow obj) \<and>
     (\<forall>j < length (vo_pages obj). bm_val c j \<longleftrightarrow> vo_pages obj ! j \<noteq> 0) \<and> mm_avail A mm' V \<and>
     (\<forall>p. refs mm' p = refs mm p + (if p \<noteq> 0 \<and> p \<in> set (vo_pages obj) then 1 else 0))"
proof -
  let ?ps = "vo_pages obj" and ?n = "length (vo_pages obj)" and ?c0 = "vo_cow obj"
  let ?body = "\<lambda>i (cow, mm). if ?ps ! i \<noteq> 0
         then bindR (bm_set cow i True) (\<lambda>cow1. bindR (page_ref mm (?ps ! i)) (\<lambda>mm1. Inr (cow1, mm1)))
         else Inr (cow, mm)"
  let ?P = "\<lambda>i (c, m). bm_cap c = bm_cap ?c0 \<and>
     (\<forall>j < bm_cap ?c0. bm_val c j \<longleftrightarrow> j < i \<and> ?ps ! j \<noteq> 0 \<or> bm_val ?c0 j) \<and> mm_avail A m V \<and>
     (\<forall>p. refs m p = refs mm p + (if p \<noteq> 0 \<and> p \<in> set (take i ?ps) then 1 else 0))"
  have cap: "?n \<le> bm_cap ?c0" using ok by (simp add: object_ok_def)
  have "\<exists>s. for_run 0 ?n ?body (?c0, mm) = Inr s \<and> ?P ?n s"
  proof (rule for_run_rule[where P = ?P])
    fix i s assume i: "0 \<le> i" "i < ?n" "?P i s"
    obtain c m where s: "s = (c, m)" by fastforce
    have tk: "set (take (Suc i) ?ps) = insert (?ps ! i) (set (take i ?ps))"
      using i(2) by (simp add: take_Suc_conv_app_nth)
    show "\<exists>s'. ?body i s = Inr s' \<and> ?P (Suc i) s'"
    proof (cases "?ps ! i = 0")
      case True
      with i s tk show ?thesis by (auto simp: less_Suc_eq)
    next
      case False
      note pg = object_ok_page[OF ok i(2) False]
      have fresh: "?ps ! i \<notin> set (take i ?ps)"
        using object_ok_distinct[OF ok i(2) _ False] by (fastforce simp: in_set_conv_nth)
      have ic: "i < bm_cap c" using i s cap by simp
      have "refs m (?ps ! i) = refs mm (?ps ! i)" using i(3) s fresh by simp
      with room[of "?ps ! i"] i(2) False have "refs m (?ps ! i) \<noteq> 0xFFFF" by simp
      with page_ref_spec[OF _ pg(1,2), of m] i(3) s obtain m' where
        m': "page_ref m (?ps ! i) = Inr m'" "mm_avail A m' V" "refs m' = (refs m)(?ps ! i := refs m (?ps ! i) + 1)" by auto
      from bm.set_val[OF ic, of True] i(3) s obtain c' where
        c': "bm_set c i True = Inr c'" "bm_cap c' = bm_cap ?c0"
          "\<forall>j < bm_cap ?c0. bm_val c' j = (if j = i then True else bm_val c j)" by auto
      show ?thesis using False m' c' i(3) s tk fresh by (auto simp: less_Suc_eq)
    qed
  qed (use mm in auto)
  then obtain c m where *: "for_run 0 ?n ?body (?c0, mm) = Inr (c, m)" "?P ?n (c, m)" by (auto split: prod.splits)
  have "bm_val c j \<longleftrightarrow> ?ps ! j \<noteq> 0" if "j < ?n" for j
    using *(2) that cap ok by (auto simp: object_ok_def)
  with * show ?thesis by (intro exI[of _ c] exI[of _ m]) (simp add: become_cow_and_ref_pages_def)
qed

section \<open>Copy on write\<close>

definition page_content :: "phys \<Rightarrow> 'a vm_object_scheme \<Rightarrow> nat \<Rightarrow> frame" where
  "page_content ph obj i = ph_frames ph (vo_pages obj ! i)"

text \<open>A store by the processor to a page of the object.\<close>

definition store_page :: "phys \<Rightarrow> 'a vm_object_scheme \<Rightarrow> nat \<Rightarrow> frame \<Rightarrow> phys" where
  "store_page ph obj i f = ph\<lparr>ph_frames := (ph_frames ph)(vo_pages obj ! i := f)\<rparr>"

lemma try_cow_page_spec:
  assumes mm: "mm_avail A (ph_mm ph) V" and V: "V \<noteq> {}" and ok: "object_ok A V (ph_mm ph) obj"
    and i: "i < length (vo_pages obj)" "bm_val (vo_cow obj) i" and shared: "refs (ph_mm ph) (vo_pages obj ! i) \<noteq> 1"
  shows "\<exists>q c mm'. try_cow_page reclaim obj ph i =
       Some (Inr (Inr (), obj\<lparr>vo_pages := (vo_pages obj)[i := q], vo_cow := c\<rparr>,
         \<lparr>ph_mm = mm', ph_frames = (ph_frames ph)(q := ph_frames ph (vo_pages obj ! i))\<rparr>)) \<and>
     q \<in> V \<and> mm_avail A mm' (V - {q}) \<and> \<not> bm_val c i \<and>
     (\<forall>p. p \<notin> V \<longrightarrow> refs mm' p = refs (ph_mm ph) p - (if p = vo_pages obj ! i then 1 else 0)) \<and> refs mm' q = 1"
proof -
  let ?p = "vo_pages obj ! i"
  have p0: "?p \<noteq> 0" using ok i by (simp add: object_ok_def)
  note pg = object_ok_page[OF ok i(1) p0]
  have get: "bm_get (vo_cow obj) i = Inr True" using bm.get_val[OF pg(4)] i(2) by simp
  have chk: "cow_check obj i = Inr (Inr ?p)"
    using i(1) get p0 by (simp add: cow_check_def page_is_cow_def physical_page_index_def)
  from alloc_physical_page_spec[OF mm V, of reclaim] obtain q mm1 where
    q: "alloc_physical_page reclaim (ph_mm ph) = Some (Inr (q, mm1))" "q \<in> V" "mm_avail A mm1 (V - {q})"
      "refs mm1 q = 1" "\<And>p. p \<notin> V \<Longrightarrow> refs mm1 p = refs (ph_mm ph) p" by blast
  have "?p \<notin> V - {q}" "refs mm1 ?p \<noteq> 0" "refs mm1 ?p \<noteq> 1" using pg q(5)[OF pg(2)] shared by auto
  from page_unref_shared[OF q(3) pg(1) this] obtain mm2 where
    mm2: "page_unref mm1 ?p = Inr mm2" "mm_avail A mm2 (V - {q})" "refs mm2 = (refs mm1)(?p := refs mm1 ?p - 1)" by blast
  from bm.set_val[OF pg(4), of False] obtain c where
    c: "bm_set (vo_cow obj) i False = Inr c" "\<not> bm_val c i" using pg(4) by auto
  have "try_cow_page reclaim obj ph i =
       Some (Inr (Inr (), obj\<lparr>vo_pages := (vo_pages obj)[i := q], vo_cow := c\<rparr>,
         \<lparr>ph_mm = mm2, ph_frames = (ph_frames ph)(q := ph_frames ph ?p)\<rparr>))"
    using chk q(1) mm2(1) c(1) i(1) get
    by (simp add: try_cow_page_def cow_commit_def page_is_cow_def physical_page_index_def copy_page_def)
  moreover have "refs mm2 p = refs (ph_mm ph) p - (if p = ?p then 1 else 0)" if "p \<notin> V" for p
    using mm2(3) q(5)[OF that] by auto
  moreover have "refs mm2 q = 1" using mm2(3) q(2,4) pg(2) by auto
  ultimately show ?thesis using q(2) mm2(2) c(2) by blast
qed

text \<open>The write reaches the writer's private copy only.\<close>

lemma cow_isolates:
  assumes mm: "mm_avail A (ph_mm ph) V" and V: "V \<noteq> {}" and ok: "object_ok A V (ph_mm ph) x"
    and i: "i < length (vo_pages x)" "bm_val (vo_cow x) i" and shared: "refs (ph_mm ph) (vo_pages x ! i) \<noteq> 1"
    and y: "vo_pages y = vo_pages x"
  shows "\<exists>x' ph'. try_cow_page reclaim x ph i = Some (Inr (Inr (), x', ph')) \<and>
     page_content (store_page ph' x' i f) x' i = f \<and>
     (\<forall>j < length (vo_pages x). vo_pages x ! j \<noteq> 0 \<longrightarrow>
        page_content ph' x' j = page_content ph x j \<and>
        page_content (store_page ph' x' i f) y j = page_content ph x j)"
proof -
  from try_cow_page_spec[OF mm V ok i shared, of reclaim] obtain q c mm' where
    t: "try_cow_page reclaim x ph i = Some (Inr (Inr (), x\<lparr>vo_pages := (vo_pages x)[i := q], vo_cow := c\<rparr>,
         \<lparr>ph_mm = mm', ph_frames = (ph_frames ph)(q := ph_frames ph (vo_pages x ! i))\<rparr>))" "q \<in> V" by blast
  have "vo_pages x ! j \<noteq> q" if "j < length (vo_pages x)" "vo_pages x ! j \<noteq> 0" for j
    using object_ok_page(2)[OF ok that] t(2) by auto
  with t(1) i(1) y show ?thesis
    by (intro exI[of _ "x\<lparr>vo_pages := (vo_pages x)[i := q], vo_cow := c\<rparr>"]
          exI[of _ "\<lparr>ph_mm = mm', ph_frames = (ph_frames ph)(q := ph_frames ph (vo_pages x ! i))\<rparr>"])
      (auto simp: page_content_def store_page_def nth_list_update)
qed

text \<open>
  C1: copy on write after a fork. \<open>clone()\<close> gives two objects with the same pages; when either of
  them resolves a write fault, the fault is served, the contents it sees are those from before the
  fork, and what it then stores in the page is not visible through the other object.
\<close>

theorem fork_copy_on_write:
  assumes "mm_avail A mm V" and "V \<noteq> {}" and "object_ok A V mm obj" and "\<not> an_is_shared obj"
    and "\<forall>p \<in> set (vo_pages obj). p \<noteq> 0 \<longrightarrow> refs mm p \<noteq> 0xFFFF"
    and "i < length (vo_pages obj)" and "vo_pages obj ! i \<noteq> 0"
  shows "\<exists>parent child mm1. anon_clone junk obj mm = Inr (parent, child, mm1) \<and>
     (\<forall>(x, y) \<in> {(parent, child), (child, parent)}.
        \<exists>x' ph'. try_cow_page reclaim x \<lparr>ph_mm = mm1, ph_frames = fr\<rparr> i = Some (Inr (Inr (), x', ph')) \<and>
          page_content (store_page ph' x' i f) x' i = f \<and>
          (\<forall>j < length (vo_pages obj). vo_pages obj ! j \<noteq> 0 \<longrightarrow>
             page_content ph' x' j = fr (vo_pages obj ! j) \<and>
             page_content (store_page ph' x' i f) y j = fr (vo_pages obj ! j)))"
proof -
  from become_cow_spec[OF assms(1,3)] assms(5) obtain c mm1 where
    b: "become_cow_and_ref_pages obj mm = Inr (obj\<lparr>vo_cow := c\<rparr>, mm1)" "bm_cap c = bm_cap (vo_cow obj)"
      "\<forall>j < length (vo_pages obj). bm_val c j \<longleftrightarrow> vo_pages obj ! j \<noteq> 0" "mm_avail A mm1 V"
      "\<And>p. refs mm1 p = refs mm p + (if p \<noteq> 0 \<and> p \<in> set (vo_pages obj) then 1 else 0)" by blast
  from vm_object_new_cow[of junk "vo_pages obj"] obtain n where
    n: "vm_object_new junk (vo_pages obj) True = Inr n" "vo_pages n = vo_pages obj"
      "length (vo_pages obj) \<le> bm_cap (vo_cow n)"
      "\<forall>j < length (vo_pages obj). bm_val (vo_cow n) j \<longleftrightarrow> vo_pages obj ! j \<noteq> 0" by blast
  let ?x = "obj\<lparr>vo_cow := c\<rparr>" and ?y = "anon_of n (length (vo_pages obj))" and ?ph = "\<lparr>ph_mm = mm1, ph_frames = fr\<rparr>"
  have cl: "anon_clone junk obj mm = Inr (?x, ?y, mm1)"
    using assms(4) b(1) n(1) by (simp add: anon_clone_def anon_new_pages_def)
  have wrap: "r + 1 \<noteq> 0" "r + 1 \<noteq> 1" if "r \<noteq> 0xFFFF" "r \<noteq> 0" for r :: u16
  proof -
    have "- 1 = (0xFFFF :: u16)" by simp
    then show "r + 1 \<noteq> 0" using that(1) by (metis eq_neg_iff_add_eq_0)
    show "r + 1 \<noteq> 1" using that(2) by simp
  qed
  have "object_ok A V mm1 ?x" "object_ok A V mm1 ?y"
    using assms(3,5) b(2,3,5) n(2-4) wrap by (auto simp: object_ok_def anon_of_def)
  moreover have "refs mm1 (vo_pages obj ! i) \<noteq> 1"
    using b(5)[of "vo_pages obj ! i"] assms(3,5-7) wrap by (auto simp: object_ok_def)
  ultimately have "\<exists>x' ph'. try_cow_page reclaim ?x ?ph i = Some (Inr (Inr (), x', ph')) \<and>
          page_content (store_page ph' x' i f) x' i = f \<and> (\<forall>j < length (vo_pages obj). vo_pages obj ! j \<noteq> 0 \<longrightarrow>
             page_content ph' x' j = fr (vo_pages obj ! j) \<and> page_content (store_page ph' x' i f) ?y j = fr (vo_pages obj ! j))"
    "\<exists>x' ph'. try_cow_page reclaim ?y ?ph i = Some (Inr (Inr (), x', ph')) \<and>
          page_content (store_page ph' x' i f) x' i = f \<and> (\<forall>j < length (vo_pages obj). vo_pages obj ! j \<noteq> 0 \<longrightarrow>
             page_content ph' x' j = fr (vo_pages obj ! j) \<and> page_content (store_page ph' x' i f) ?x j = fr (vo_pages obj ! j))"
    using cow_isolates[of A ?ph V ?x i ?y reclaim f] cow_isolates[of A ?ph V ?y i ?x reclaim f] assms(2,6,7) b(3,4) n(2,4)
    by (simp_all add: anon_of_def page_content_def)
  with cl show ?thesis by simp
qed

lemma demo_memory:
  "\<exists>mm p. mm_avail {1 ..< 3} mm ({1 ..< 3} - {p}) \<and> {1 ..< 3} - {p} \<noteq> {} \<and> p \<in> {1 ..< 3 :: nat} \<and> refs mm p = 1"
proof -
  let ?A = "{1 ..< 1 + 2} :: nat set"
  from region_new_avail[of 1 2 demo_pages 0] obtain r pages where
    "region_avail ?A (r, pages) ?A" by (auto simp: demo_pages_simps)
  then have "mm_avail ?A \<lparr>mm_pages = pages, mm_regions = [r]\<rparr> ?A" by (simp add: mm_avail_def)
  from alloc_physical_page_spec[OF this, of "\<lambda>m. (0, m)"] obtain p mm where
    "p \<in> ?A" "mm_avail ?A mm (?A - {p})" "refs mm p = 1" by auto
  moreover have "(if p = 1 then 2 else 1) \<in> ?A - {p}" by auto
  then have "?A - {p} \<noteq> {}" by blast
  moreover have "?A = {1 ..< 3}" by (simp add: numeral_3_eq_3)
  ultimately show ?thesis by metis
qed

theorem fork_copy_on_write_witness:
  "\<exists>obj mm parent child mm1 child' ph'. vo_pages obj \<noteq> [] \<and> anon_clone 0 obj mm = Inr (parent, child, mm1) \<and>
     try_cow_page (\<lambda>m. (0, m)) child \<lparr>ph_mm = mm1, ph_frames = \<lambda>_. zero_frame\<rparr> 0 = Some (Inr (Inr (), child', ph')) \<and>
     page_content (store_page ph' child' 0 (\<lambda>_. 7)) child' 0 = (\<lambda>_. 7) \<and>
     page_content (store_page ph' child' 0 (\<lambda>_. 7)) parent 0 = zero_frame"
proof -
  from demo_memory obtain mm p where
    mm: "mm_avail {1 ..< 3} mm ({1 ..< 3} - {p})" "{1 ..< 3} - {p} \<noteq> {}" "p \<in> {1 ..< 3 :: nat}" "refs mm p = 1" by blast
  from bm_new_val[of 0 1 False] obtain c where c: "1 \<le> bm_cap c" "\<forall>i < bm_cap c. \<not> bm_val c i" by auto
  let ?obj = "anon_of \<lparr>vo_pages = [p], vo_cow = c, vo_size = 4096\<rparr> 1"
  have "object_ok {1 ..< 3} ({1 ..< 3} - {p}) mm ?obj"
    using mm(3,4) c by (auto simp: object_ok_def anon_of_def)
  moreover have "\<forall>q \<in> set (vo_pages ?obj). q \<noteq> 0 \<longrightarrow> refs mm q \<noteq> 0xFFFF" using mm(4) by (simp add: anon_of_def)
  moreover have "\<not> an_is_shared ?obj" "0 < length (vo_pages ?obj)" "vo_pages ?obj ! 0 \<noteq> 0"
    using mm(3) by (auto simp: anon_of_def)
  ultimately have "\<exists>parent child mm1. anon_clone 0 ?obj mm = Inr (parent, child, mm1) \<and>
     (\<forall>(x, y) \<in> {(parent, child), (child, parent)}.
        \<exists>x' ph'. try_cow_page (\<lambda>m. (0, m)) x \<lparr>ph_mm = mm1, ph_frames = \<lambda>_. zero_frame\<rparr> 0 = Some (Inr (Inr (), x', ph')) \<and>
          page_content (store_page ph' x' 0 (\<lambda>_. 7)) x' 0 = (\<lambda>_. 7) \<and>
          (\<forall>j < length (vo_pages ?obj). vo_pages ?obj ! j \<noteq> 0 \<longrightarrow>
             page_content ph' x' j = zero_frame \<and> page_content (store_page ph' x' 0 (\<lambda>_. 7)) y j = zero_frame))"
    using fork_copy_on_write[OF mm(1,2), of ?obj 0 0 "\<lambda>m. (0, m)" "\<lambda>_. zero_frame" "\<lambda>_. 7"] by blast
  then obtain parent child mm1 where "anon_clone 0 ?obj mm = Inr (parent, child, mm1)"
    "\<exists>x' ph'. try_cow_page (\<lambda>m. (0, m)) child \<lparr>ph_mm = mm1, ph_frames = \<lambda>_. zero_frame\<rparr> 0 = Some (Inr (Inr (), x', ph')) \<and>
          page_content (store_page ph' x' 0 (\<lambda>_. 7)) x' 0 = (\<lambda>_. 7) \<and>
          page_content (store_page ph' x' 0 (\<lambda>_. 7)) parent 0 = zero_frame"
    using \<open>0 < length (vo_pages ?obj)\<close> \<open>vo_pages ?obj ! 0 \<noteq> 0\<close> by auto
  moreover have "vo_pages ?obj \<noteq> []" by (simp add: anon_of_def)
  ultimately show ?thesis by blast
qed

text \<open>
  C22: a fault on a page of a file that is not in memory. If the read succeeds the page is committed
  with the contents the read left in a recycled frame, so the bytes that a short read does not reach
  keep what the frame held before. If the read fails, the frame, whose count is 1, is passed to
  \<open>free_physical_page\<close> and the kernel panics; the error is not returned.
\<close>

theorem inode_fault_exact:
  assumes "mm_avail A (ph_mm ph) V" and "V \<noteq> {}" and "i < length (vo_pages obj)" and "vo_pages obj ! i = 0"
  shows "\<exists>q mm'. q \<in> V \<and> mm_avail A mm' (V - {q}) \<and>
     (case inode_read (i * PAGE_SIZE) PAGE_SIZE (ph_frames ph q) of (nread, buf) \<Rightarrow>
        inode_try_fault_in_page reclaim inode_read obj ph i =
          (if nread < 0 then Some (Inl AssertFailed)
           else Some (Inr (Inr True, obj\<lparr>io_committed := io_committed obj + 1, vo_pages := (vo_pages obj)[i := q]\<rparr>,
                  \<lparr>ph_mm = mm', ph_frames = (ph_frames ph)(q := buf)\<rparr>))))"
proof -
  from alloc_physical_page_spec[OF assms(1,2), of reclaim] obtain q mm' where
    q: "alloc_physical_page reclaim (ph_mm ph) = Some (Inr (q, mm'))" "q \<in> V" "mm_avail A mm' (V - {q})" "refs mm' q = 1"
    by blast
  have "mm_regions (ph_mm ph) \<noteq> [] \<Longrightarrow> q \<in> A"
    using assms(1) q(2) region_src.avail_within by (fastforce simp: mm_avail_def)
  then have "q \<in> A" using assms(1) by (auto simp: mm_avail_def)
  from free_fresh_page[OF q(3) this] q(4) have "free_physical_page mm' q = Inl AssertFailed" by simp
  moreover obtain nread buf where "inode_read (i * PAGE_SIZE) PAGE_SIZE (ph_frames ph q) = (nread, buf)" by fastforce
  ultimately show ?thesis using q(1-3) assms(3,4)
    by (intro exI[of _ q] exI[of _ mm'])
      (simp add: inode_try_fault_in_page_def inode_fault_check_def inode_fault_commit_def physical_page_index_def
        with_quickmapped_def)
qed

theorem inode_fault_exact_witness:
  "\<exists>obj ph q mm'. inode_try_fault_in_page (\<lambda>m. (0, m)) (\<lambda>start n buf. (1, buf(0 := 42))) obj ph 0 =
       Some (Inr (Inr True, obj\<lparr>io_committed := io_committed obj + 1, vo_pages := (vo_pages obj)[0 := q]\<rparr>,
         \<lparr>ph_mm = mm', ph_frames = (ph_frames ph)(q := (\<lambda>_. 99)(0 := 42))\<rparr>)) \<and>
     inode_try_fault_in_page (\<lambda>m. (0, m)) (\<lambda>start n buf. (- 5, buf)) obj ph 0 = Some (Inl AssertFailed)"
proof -
  from demo_memory obtain mm p where mm: "mm_avail {1 ..< 3} mm ({1 ..< 3} - {p})" "{1 ..< 3} - {p} \<noteq> {}" by blast
  let ?ph = "\<lparr>ph_mm = mm, ph_frames = \<lambda>_ _. 99\<rparr>"
  let ?obj = "\<lparr>vo_pages = [0], vo_cow = bm_null, vo_size = 4096, io_type = Shared, io_committed = 0\<rparr>"
  have pre: "mm_avail {1 ..< 3} (ph_mm ?ph) ({1 ..< 3} - {p})" "0 < length (vo_pages ?obj)" "vo_pages ?obj ! 0 = 0"
    using mm by simp_all
  from inode_fault_exact[OF pre(1) mm(2) pre(2,3), where inode_read = "\<lambda>start n buf. (1, buf(0 := 42))" and reclaim = "\<lambda>m. (0, m)"]
    inode_fault_exact[OF pre(1) mm(2) pre(2,3), where inode_read = "\<lambda>start n buf. (- 5, buf)" and reclaim = "\<lambda>m. (0, m)"]
  show ?thesis by (intro exI[of _ ?obj] exI[of _ ?ph]) auto
qed

end
