(* ===== verification/VMSpace.thy ===== *)
theory VMSpace
  imports VMObject
begin

text \<open>
  Address spaces (\<open>kernel/memory/VMSpace.cpp\<close>, \<open>VMRegion.cpp\<close> and the generic half of
  \<open>PageDirectory.cpp\<close>). A space is divided into consecutive regions, free or used, kept in a doubly
  linked list in address order; the list is a list here, and a pointer to a region is its position.
  A used region may carry a \<open>VMRegion\<close>, the mapping of an object, which the page directory of the
  space reflects. Addresses are 32-bit.
\<close>

section \<open>Mapped regions and the page directory\<close>

record vm_region =
  vr_id :: nat
  vr_object :: nat
  vr_start :: nat
  vr_size :: nat
  vr_object_start :: nat
  vr_prot :: vm_prot

definition vr_end :: "vm_region \<Rightarrow> nat" where
  "vr_end r = add32 (vr_start r) (vr_size r)"

definition vr_contains :: "vm_region \<Rightarrow> nat \<Rightarrow> bool" where
  "vr_contains r address \<longleftrightarrow> address \<ge> vr_start r \<and> address < vr_end r"

definition set_prot :: "vm_prot \<Rightarrow> vm_region \<Rightarrow> vm_region" where
  "set_prot prot r = r\<lparr>vr_prot := prot\<rparr>"

text \<open>
  The loop of \<open>PageDirectory::map\<close>. The page of the object is taken at \<open>page_index + page_offset\<close>, its
  copy-on-write bit at \<open>page_index\<close>. The loop ends at the first page that cannot be mapped.
\<close>

fun map_pages :: "page_dir \<Rightarrow> vm_region \<Rightarrow> 'a vm_object_scheme \<Rightarrow> nat \<Rightarrow> nat \<Rightarrow> page_dir run" where
  "map_pages pd region obj page_index 0 = Inr pd"
| "map_pages pd region obj page_index (Suc n) =
     bindR (physical_page_index obj (page_index + vr_object_start region div PAGE_SIZE)) (\<lambda>ppage.
       if ppage = 0 then map_pages pd region obj (Suc page_index) n
       else
         bindR (page_is_cow obj page_index) (\<lambda>cow.
           bindR (map_page pd (vr_start region div PAGE_SIZE + page_index) ppage
                    ((vr_prot region)\<lparr>prot_write := (if cow then False else prot_write (vr_prot region))\<rparr>))
             (\<lambda>(res, pd1). case res of
                Inl _ \<Rightarrow> Inr pd1
              | Inr _ \<Rightarrow> map_pages pd1 region obj (Suc page_index) n)))"

definition pd_map :: "page_dir \<Rightarrow> vm_region \<Rightarrow> 'a vm_object_scheme \<Rightarrow> nat \<Rightarrow> nat \<Rightarrow> page_dir run" where
  "pd_map pd region obj range_start range_size =
     (let range_size = (if range_size = 0 then vr_size region else range_size);
          start_index = range_start div PAGE_SIZE;
          end_index = add32 range_start range_size div PAGE_SIZE in
      bindR (assertR (prot_read (vr_prot region))) (\<lambda>_.
        bindR (assertR (range_start mod PAGE_SIZE = 0)) (\<lambda>_.
          bindR (assertR (range_size mod PAGE_SIZE = 0)) (\<lambda>_.
            bindR (assertR (add32 range_start range_size \<le> vr_end region)) (\<lambda>_.
              map_pages pd region obj start_index (end_index - start_index))))))"

fun unmap_pages :: "page_dir \<Rightarrow> nat \<Rightarrow> nat \<Rightarrow> page_dir run" where
  "unmap_pages pd vpage 0 = Inr pd"
| "unmap_pages pd vpage (Suc n) =
     bindR (unmap_page pd vpage) (\<lambda>(res, pd1). case res of
       Inl _ \<Rightarrow> Inr pd1
     | Inr _ \<Rightarrow> unmap_pages pd1 (Suc vpage) n)"

definition pd_unmap :: "page_dir \<Rightarrow> vm_region \<Rightarrow> nat \<Rightarrow> nat \<Rightarrow> page_dir run" where
  "pd_unmap pd region range_start range_size =
     (let range_size = (if range_size = 0 then vr_size region else range_size);
          start_vpage = vr_start region div PAGE_SIZE;
          start_index = range_start div PAGE_SIZE;
          end_index = add32 range_start range_size div PAGE_SIZE in
      bindR (assertR (range_start mod PAGE_SIZE = 0)) (\<lambda>_.
        bindR (assertR (range_size mod PAGE_SIZE = 0)) (\<lambda>_.
          bindR (assertR (add32 range_start range_size \<le> vr_end region)) (\<lambda>_.
            if vr_end region > HIGHER_HALF \<and> pd_type pd \<noteq> KERNEL then Inr pd
            else unmap_pages pd (start_vpage + start_index) (end_index - start_index)))))"

section \<open>The regions of a space\<close>

record space_region =
  sr_start :: nat
  sr_size :: nat
  sr_used :: bool
  sr_vm :: "vm_region option"

definition sr_end :: "space_region \<Rightarrow> nat" where
  "sr_end r = add32 (sr_start r) (sr_size r)"

definition sr_contains :: "space_region \<Rightarrow> nat \<Rightarrow> bool" where
  "sr_contains r address \<longleftrightarrow> sr_start r \<le> address \<and> sr_end r > address"

record vm_space =
  vs_start :: nat
  vs_size :: nat
  vs_regions :: "space_region list"
  vs_used :: nat
  vs_pd :: page_dir

definition vm_space_new :: "nat \<Rightarrow> nat \<Rightarrow> page_dir \<Rightarrow> vm_space" where
  "vm_space_new start sz pd =
     \<lparr>vs_start = start, vs_size = sz,
      vs_regions = [\<lparr>sr_start = start, sr_size = sz, sr_used = False, sr_vm = None\<rparr>],
      vs_used = 0, vs_pd = pd\<rparr>"

text \<open>The walks over the list: the first region with a property, and the last one.\<close>

fun find_region :: "(space_region \<Rightarrow> bool) \<Rightarrow> space_region list \<Rightarrow> nat option" where
  "find_region P [] = None"
| "find_region P (r # rs) = (if P r then Some 0 else map_option Suc (find_region P rs))"

definition find_region_from_end :: "(space_region \<Rightarrow> bool) \<Rightarrow> space_region list \<Rightarrow> nat option" where
  "find_region_from_end P rs = map_option (\<lambda>i. length rs - 1 - i) (find_region P (rev rs))"

definition alloc_space :: "vm_space \<Rightarrow> nat \<Rightarrow> (nat ret \<times> vm_space) run" where
  "alloc_space vs sz =
     bindR (assertR (sz mod PAGE_SIZE = 0)) (\<lambda>_.
       case find_region (\<lambda>r. \<not> (sr_used r \<or> sr_size r < sz)) (vs_regions vs) of
         None \<Rightarrow> Inr (Inl ENOMEM, vs)
       | Some i \<Rightarrow>
           let rs = vs_regions vs; cur = rs ! i in
           if sr_size cur = sz
           then Inr (Inr i, vs\<lparr>vs_regions := rs[i := cur\<lparr>sr_used := True\<rparr>], vs_used := add32 (vs_used vs) (sr_size cur)\<rparr>)
           else
             let new_region = \<lparr>sr_start = sr_start cur, sr_size = sz, sr_used = True, sr_vm = None\<rparr>;
                 cur1 = cur\<lparr>sr_start := add32 (sr_start cur) sz, sr_size := sub32 (sr_size cur) sz\<rparr> in
             Inr (Inr i, vs\<lparr>vs_regions := take i rs @ [new_region, cur1] @ drop (Suc i) rs,
                            vs_used := add32 (vs_used vs) sz\<rparr>))"

definition alloc_space_at :: "vm_space \<Rightarrow> nat \<Rightarrow> nat \<Rightarrow> (nat ret \<times> vm_space) run" where
  "alloc_space_at vs sz address =
     bindR (assertR (address mod PAGE_SIZE = 0)) (\<lambda>_.
       bindR (assertR (sz mod PAGE_SIZE = 0)) (\<lambda>_.
         case find_region (\<lambda>r. sr_contains r address) (vs_regions vs) of
           None \<Rightarrow> Inr (Inl ENOMEM, vs)
         | Some i \<Rightarrow>
             let rs = vs_regions vs; cur = rs ! i in
             if sr_used cur then Inr (Inl ENOMEM, vs)
             else if sr_size cur = sz
             then Inr (Inr i, vs\<lparr>vs_regions := rs[i := cur\<lparr>sr_used := True\<rparr>], vs_used := add32 (vs_used vs) (sr_size cur)\<rparr>)
             else if sub32 (sr_size cur) (sub32 address (sr_start cur)) \<ge> sz
             then
               let before = (if sr_start cur < address
                     then [\<lparr>sr_start = sr_start cur, sr_size = sub32 address (sr_start cur), sr_used = False, sr_vm = None\<rparr>]
                     else []);
                   after = (if sr_end cur > add32 address sz
                     then [\<lparr>sr_start = add32 address sz, sr_size = sub32 (sr_end cur) (add32 address sz),
                            sr_used = False, sr_vm = None\<rparr>]
                     else []);
                   cur1 = cur\<lparr>sr_start := address, sr_size := sz, sr_used := True\<rparr> in
               Inr (Inr (i + length before),
                    vs\<lparr>vs_regions := take i rs @ before @ [cur1] @ after @ drop (Suc i) rs,
                       vs_used := add32 (vs_used vs) sz\<rparr>)
             else Inr (Inl ENOMEM, vs)))"

text \<open>\<open>free_region\<close> joins the region with free neighbours, first the previous one, then the next.\<close>

definition free_region :: "vm_space \<Rightarrow> nat \<Rightarrow> vm_space run" where
  "free_region vs i =
     (let rs = vs_regions vs in
      if \<not> i < length rs then Inl DeadObject
      else
        let region = (rs ! i)\<lparr>sr_used := False, sr_vm := None\<rparr>;
            merge_prev = (0 < i \<and> \<not> sr_used (rs ! (i - 1)));
            region1 = (if merge_prev
                       then region\<lparr>sr_start := sub32 (sr_start region) (sr_size (rs ! (i - 1))),
                                   sr_size := add32 (sr_size region) (sr_size (rs ! (i - 1)))\<rparr>
                       else region);
            merge_next = (Suc i < length rs \<and> \<not> sr_used (rs ! Suc i));
            region2 = (if merge_next
                       then region1\<lparr>sr_size := add32 (sr_size region1) (sr_size (rs ! Suc i))\<rparr>
                       else region1) in
        Inr (vs\<lparr>vs_regions := take (if merge_prev then i - 1 else i) rs @ [region2] @
                              drop (if merge_next then Suc (Suc i) else Suc i) rs,
                vs_used := sub32 (vs_used vs) (sr_size (rs ! i))\<rparr>))"

section \<open>Mapping and unmapping\<close>

definition attach_region :: "vm_space \<Rightarrow> nat \<Rightarrow> vm_region \<Rightarrow> 'a vm_object_scheme \<Rightarrow> (vm_region ret \<times> vm_space) run" where
  "attach_region vs i vmRegion obj =
     bindR (pd_map (vs_pd vs) vmRegion obj 0 0) (\<lambda>pd.
       Inr (Inr vmRegion,
            vs\<lparr>vs_regions := (vs_regions vs)[i := (vs_regions vs ! i)\<lparr>sr_vm := Some vmRegion\<rparr>], vs_pd := pd\<rparr>))"

text \<open>\<open>new_id\<close> is the identity of the new \<open>VMRegion\<close>, \<open>object\<close> that of the mapped object \<open>obj\<close>.\<close>

definition map_object ::
    "vm_space \<Rightarrow> nat \<Rightarrow> nat \<Rightarrow> 'a vm_object_scheme \<Rightarrow> vm_prot \<Rightarrow> nat \<Rightarrow> nat \<Rightarrow> nat \<Rightarrow> (vm_region ret \<times> vm_space) run" where
  "map_object vs new_id object obj prot range_start range_size object_start =
     (let range_size = (if range_size = 0 then sub32 (vo_size obj) object_start else range_size) in
      if range_start mod PAGE_SIZE \<noteq> 0 \<or> range_size mod PAGE_SIZE \<noteq> 0 \<or> object_start mod PAGE_SIZE \<noteq> 0 \<or>
         add32 object_start range_size > vo_size obj
      then Inr (Inl EINVAL, vs)
      else
        bindR (if range_start \<noteq> 0 then alloc_space_at vs range_size range_start else alloc_space vs range_size)
          (\<lambda>(res, vs1). case res of
             Inl e \<Rightarrow> Inr (Inl e, vs1)
           | Inr i \<Rightarrow>
               attach_region vs1 i
                 \<lparr>vr_id = new_id, vr_object = object, vr_start = sr_start (vs_regions vs1 ! i), vr_size = range_size,
                  vr_object_start = object_start, vr_prot = prot\<rparr> obj))"

definition map_object_with_sentinel ::
    "vm_space \<Rightarrow> nat \<Rightarrow> nat \<Rightarrow> 'a vm_object_scheme \<Rightarrow> vm_prot \<Rightarrow> (vm_region ret \<times> vm_space) run" where
  "map_object_with_sentinel vs new_id object obj prot =
     bindR (alloc_space vs (add32 (vo_size obj) (PAGE_SIZE * 2))) (\<lambda>(res, vs1). case res of
       Inl e \<Rightarrow> Inr (Inl e, vs1)
     | Inr i \<Rightarrow>
         attach_region vs1 i
           \<lparr>vr_id = new_id, vr_object = object, vr_start = add32 (sr_start (vs_regions vs1 ! i)) PAGE_SIZE,
            vr_size = vo_size obj, vr_object_start = 0, vr_prot = prot\<rparr> obj)"

text \<open>The walk of \<open>map_stack\<close> tests a region before it tests the pointer, so it faults when it finds none.\<close>

definition map_stack ::
    "vm_space \<Rightarrow> nat \<Rightarrow> nat \<Rightarrow> 'a vm_object_scheme \<Rightarrow> vm_prot \<Rightarrow> (vm_region ret \<times> vm_space) run" where
  "map_stack vs new_id object obj prot =
     (case find_region_from_end (\<lambda>r. \<not> (sr_used r \<or> sr_size r < vo_size obj)) (vs_regions vs) of
        None \<Rightarrow> Inl NullDeref
      | Some i \<Rightarrow>
          map_object vs new_id object obj prot (sub32 (sr_end (vs_regions vs ! i)) (vo_size obj)) (vo_size obj) 0)"

definition unmap_at :: "vm_space \<Rightarrow> nat option \<Rightarrow> (unit ret \<times> vm_space) run" where
  "unmap_at vs pos =
     (case pos of
        None \<Rightarrow> Inr (Inl ENOENT, vs)
      | Some i \<Rightarrow>
          (case sr_vm (vs_regions vs ! i) of
             None \<Rightarrow> Inr (Inl ENOENT, vs)
           | Some vmRegion \<Rightarrow>
               bindR (pd_unmap (vs_pd vs) vmRegion 0 0) (\<lambda>pd.
                 bindR (free_region (vs\<lparr>vs_pd := pd\<rparr>) i) (\<lambda>vs1. Inr (Inr (), vs1)))))"

definition unmap_region :: "vm_space \<Rightarrow> nat \<Rightarrow> (unit ret \<times> vm_space) run" where
  "unmap_region vs ident =
     unmap_at vs (find_region (\<lambda>r. case sr_vm r of None \<Rightarrow> False | Some v \<Rightarrow> vr_id v = ident) (vs_regions vs))"

definition unmap_region_at :: "vm_space \<Rightarrow> nat \<Rightarrow> (unit ret \<times> vm_space) run" where
  "unmap_region_at vs address = unmap_at vs (find_region (\<lambda>r. sr_start r = address) (vs_regions vs))"

text \<open>The destructor of a region that still belongs to a space.\<close>

definition vm_region_destroy :: "vm_space \<Rightarrow> vm_region \<Rightarrow> vm_space run" where
  "vm_region_destroy vs region =
     bindR (unmap_region vs (vr_id region)) (\<lambda>(res, vs1).
       bindR (assertR (is_value res)) (\<lambda>_. Inr vs1))"

section \<open>Queries\<close>

definition region_found :: "vm_space \<Rightarrow> nat option \<Rightarrow> vm_region ret" where
  "region_found vs pos =
     (case pos of
        None \<Rightarrow> Inl ENOENT
      | Some i \<Rightarrow> (case sr_vm (vs_regions vs ! i) of None \<Rightarrow> Inl ENOENT | Some v \<Rightarrow> Inr v))"

definition get_region_at :: "vm_space \<Rightarrow> nat \<Rightarrow> vm_region ret" where
  "get_region_at vs address = region_found vs (find_region (\<lambda>r. sr_start r = address) (vs_regions vs))"

definition get_region_containing :: "vm_space \<Rightarrow> nat \<Rightarrow> vm_region ret" where
  "get_region_containing vs address = region_found vs (find_region (\<lambda>r. sr_contains r address) (vs_regions vs))"

definition reserve_region :: "vm_space \<Rightarrow> nat \<Rightarrow> nat \<Rightarrow> (unit ret \<times> vm_space) run" where
  "reserve_region vs start sz =
     bindR (alloc_space_at vs sz start) (\<lambda>(res, vs1).
       Inr (case res of Inl e \<Rightarrow> Inl e | Inr _ \<Rightarrow> Inr (), vs1))"

definition find_free_space :: "vm_space \<Rightarrow> nat \<Rightarrow> nat ret" where
  "find_free_space vs sz =
     (case find_region (\<lambda>r. \<not> sr_used r \<and> sr_size r \<ge> sz) (vs_regions vs) of
        None \<Rightarrow> Inl ENOMEM
      | Some i \<Rightarrow> Inr (sr_start (vs_regions vs ! i)))"

text \<open>\<open>committed\<close> gives the number of committed pages of an object.\<close>

fun sum_committed :: "(nat \<Rightarrow> nat) \<Rightarrow> space_region list \<Rightarrow> nat run" where
  "sum_committed committed [] = Inr 0"
| "sum_committed committed (r # rs) =
     (if sr_used r
      then (case sr_vm r of
              None \<Rightarrow> Inl NullDeref
            | Some v \<Rightarrow> bindR (sum_committed committed rs) (\<lambda>n. Inr (committed (vr_object v) + n)))
      else sum_committed committed rs)"

definition calculate_regular_anonymous_total :: "(nat \<Rightarrow> nat) \<Rightarrow> vm_space \<Rightarrow> nat run" where
  "calculate_regular_anonymous_total committed vs =
     bindR (sum_committed committed (vs_regions vs)) (\<lambda>total_pages. Inr ((total_pages * PAGE_SIZE) mod 2 ^ 32))"

text \<open>\<open>iterate_regions\<close> hands these to its callback, in this order; a reserved region gives a null pointer.\<close>

definition iterate_regions :: "vm_space \<Rightarrow> vm_region option list" where
  "iterate_regions vs = map sr_vm (filter sr_used (vs_regions vs))"

section \<open>The layout invariant\<close>

text \<open>
  The regions tile the space without gaps, none is empty and all are page-aligned; a free region has
  no mapping, a mapping lies inside its region; no two neighbours are free; the counter of used bytes
  is exact. The space ends below the end of the address range, so no sum of addresses wraps.
\<close>

definition region_ok :: "space_region \<Rightarrow> bool" where
  "region_ok r \<longleftrightarrow> 0 < sr_size r \<and> sr_size r mod PAGE_SIZE = 0 \<and>
     (case sr_vm r of
        None \<Rightarrow> True
      | Some v \<Rightarrow> sr_used r \<and> sr_start r \<le> vr_start v \<and> vr_start v + vr_size v \<le> sr_start r + sr_size r)"

fun tiled :: "nat \<Rightarrow> space_region list \<Rightarrow> nat \<Rightarrow> bool" where
  "tiled s [] e \<longleftrightarrow> s = e"
| "tiled s (r # rs) e \<longleftrightarrow> sr_start r = s \<and> region_ok r \<and> tiled (s + sr_size r) rs e"

fun coalesced :: "space_region list \<Rightarrow> bool" where
  "coalesced (a # b # rs) \<longleftrightarrow> (sr_used a \<or> sr_used b) \<and> coalesced (b # rs)"
| "coalesced _ \<longleftrightarrow> True"

fun used_bytes :: "space_region list \<Rightarrow> nat" where
  "used_bytes [] = 0"
| "used_bytes (r # rs) = (if sr_used r then sr_size r else 0) + used_bytes rs"

definition space_ok :: "vm_space \<Rightarrow> bool" where
  "space_ok vs \<longleftrightarrow> tiled (vs_start vs) (vs_regions vs) (vs_start vs + vs_size vs) \<and> coalesced (vs_regions vs) \<and>
     vs_used vs = used_bytes (vs_regions vs) \<and> vs_start vs mod PAGE_SIZE = 0 \<and> vs_start vs + vs_size vs < 2 ^ 32"

named_theorems space_simps \<open>lists of regions split at a position\<close>

lemma tiled_append [space_simps]: "tiled s (xs @ ys) e \<longleftrightarrow> (\<exists>m. tiled s xs m \<and> tiled m ys e)"
  by (induction xs arbitrary: s) auto

lemma tiled_le: "tiled s rs e \<Longrightarrow> s \<le> e"
  by (induction rs arbitrary: s) (auto dest: add_leD1)

lemma coalesced_append:
  "coalesced (xs @ y # ys) \<longleftrightarrow> coalesced (xs @ [y]) \<and> coalesced (y # ys)"
  by (induction xs rule: coalesced.induct) auto

lemma coalesced_snoc2: "coalesced (xs @ [a, b]) \<longleftrightarrow> coalesced (xs @ [a]) \<and> (sr_used a \<or> sr_used b)"
  using coalesced_append[of xs a "[b]"] by simp

lemma coalesced_Cons_used: "sr_used y \<Longrightarrow> coalesced (y # ys) \<longleftrightarrow> coalesced ys"
  by (cases ys) simp_all

lemma coalesced_snoc_used: "sr_used y \<Longrightarrow> coalesced (xs @ [y]) \<longleftrightarrow> coalesced xs"
  by (induction xs rule: coalesced.induct) auto

lemma coalesced_snoc_swap:
  "sr_used y = sr_used z \<Longrightarrow> coalesced (xs @ [y]) = coalesced (xs @ [z])"
  by (induction xs rule: coalesced.induct) auto

lemma coalesced_Cons_swap: "sr_used y = sr_used z \<Longrightarrow> coalesced (y # ys) = coalesced (z # ys)"
  by (cases ys) simp_all

lemma used_bytes_append [space_simps]: "used_bytes (xs @ ys) = used_bytes xs + used_bytes ys"
  by (induction xs) simp_all

lemma used_bytes_le: "tiled s rs e \<Longrightarrow> s + used_bytes rs \<le> e"
  by (induction rs arbitrary: s) fastforce+

lemma mod_add_page: "a mod PAGE_SIZE = 0 \<Longrightarrow> b mod PAGE_SIZE = 0 \<Longrightarrow> (a + b) mod PAGE_SIZE = 0"
  by (simp add: mod_eq_0_iff_dvd)

lemma tiled_start_aligned:
  "tiled s rs e \<Longrightarrow> s mod PAGE_SIZE = 0 \<Longrightarrow> r \<in> set rs \<Longrightarrow> sr_start r mod PAGE_SIZE = 0"
proof (induction rs arbitrary: s)
  case (Cons a rs)
  have "(s + sr_size a) mod PAGE_SIZE = 0" using Cons.prems by (simp add: region_ok_def mod_add_page)
  with Cons show ?case by auto
qed simp

lemma find_region_split:
  "find_region P rs = Some i \<Longrightarrow>
   \<exists>xs r ys. rs = xs @ r # ys \<and> length xs = i \<and> P r \<and> (\<forall>x \<in> set xs. \<not> P x)"
proof (induction rs arbitrary: i)
  case (Cons a rs)
  show ?case
  proof (cases "P a")
    case True
    with Cons.prems show ?thesis by (intro exI[of _ "[]"]) simp
  next
    case False
    with Cons.prems obtain k where k: "find_region P rs = Some k" "i = Suc k" by auto
    from Cons.IH[OF k(1)] obtain xs r ys where "rs = xs @ r # ys" "length xs = k" "P r" "\<forall>x \<in> set xs. \<not> P x" by blast
    with False k(2) show ?thesis by (intro exI[of _ "a # xs"]) simp
  qed
qed simp

lemma find_region_none: "find_region P rs = None \<longleftrightarrow> (\<forall>r \<in> set rs. \<not> P r)"
  by (induction rs) auto

lemma find_region_append:
  "(\<forall>x \<in> set xs. \<not> P x) \<Longrightarrow> P r \<Longrightarrow> find_region P (xs @ r # ys) = Some (length xs)"
  by (induction xs) auto

text \<open>A space split at one of its regions.\<close>

lemma space_split:
  assumes "space_ok vs" "vs_regions vs = xs @ r # ys"
  shows "tiled (vs_start vs) xs (sr_start r)" "region_ok r" "tiled (sr_start r + sr_size r) ys (vs_start vs + vs_size vs)"
    "sr_start r mod PAGE_SIZE = 0" "sr_start r + sr_size r < 2 ^ 32"
proof -
  from assms show t: "tiled (vs_start vs) xs (sr_start r)" "region_ok r"
    "tiled (sr_start r + sr_size r) ys (vs_start vs + vs_size vs)"
    by (auto simp: space_ok_def space_simps)
  show "sr_start r mod PAGE_SIZE = 0"
    using assms tiled_start_aligned[of "vs_start vs" "vs_regions vs" _ r] by (auto simp: space_ok_def)
  show "sr_start r + sr_size r < 2 ^ 32" using tiled_le[OF t(3)] assms(1) by (simp add: space_ok_def)
qed

lemma space_used_bound:
  assumes "space_ok vs" "vs_regions vs = xs @ r # ys"
  shows "vs_used vs + (if sr_used r then 0 else sr_size r) < 2 ^ 32"
proof -
  note sp = space_split[OF assms]
  from used_bytes_le[OF sp(1)] used_bytes_le[OF sp(3)] assms show ?thesis
    by (auto simp: space_ok_def space_simps)
qed

lemma space_ok_new:
  assumes "0 < sz" "sz mod PAGE_SIZE = 0" "start mod PAGE_SIZE = 0" "start + sz < 2 ^ 32"
  shows "space_ok (vm_space_new start sz pd)"
  using assms by (simp add: space_ok_def vm_space_new_def region_ok_def)

section \<open>Allocation and release keep the layout\<close>

lemma coalesced_snoc: "coalesced (xs @ [y]) \<longleftrightarrow> coalesced xs \<and> (xs = [] \<or> sr_used (last xs) \<or> sr_used y)"
  by (induction xs rule: coalesced.induct) auto

lemma coalesced_Cons: "coalesced (y # ys) \<longleftrightarrow> coalesced ys \<and> (ys = [] \<or> sr_used y \<or> sr_used (hd ys))"
  by (cases ys) auto

lemma coalesced_split:
  "coalesced (xs @ y # ys) \<longleftrightarrow> coalesced xs \<and> coalesced ys \<and> (xs = [] \<or> sr_used (last xs) \<or> sr_used y) \<and>
     (ys = [] \<or> sr_used y \<or> sr_used (hd ys))"
  using coalesced_append[of xs y ys] coalesced_snoc[of xs y] coalesced_Cons[of y ys] by blast

text \<open>Cutting a used region out of a free one, with at most one free piece on either side.\<close>

lemma carve_ok:
  assumes ok: "space_ok vs" and rs: "vs_regions vs = xs @ r # ys" and r: "\<not> sr_used r" and u: "sr_used u"
    and before: "before = [] \<or> (\<exists>b. before = [b] \<and> \<not> sr_used b)" and after: "after = [] \<or> (\<exists>a. after = [a] \<and> \<not> sr_used a)"
    and t: "tiled (sr_start r) (before @ u # after) (sr_start r + sr_size r)"
  shows "space_ok (vs\<lparr>vs_regions := xs @ before @ u # after @ ys, vs_used := add32 (vs_used vs) (sr_size u)\<rparr>)"
proof -
  note sp = space_split[OF ok rs]
  have c: "coalesced xs" "coalesced ys" "xs = [] \<or> sr_used (last xs)" "ys = [] \<or> sr_used (hd ys)"
    using ok rs r by (auto simp: space_ok_def coalesced_split)
  have "sr_size u \<le> sr_size r" using used_bytes_le[OF t] u by (simp add: space_simps)
  with space_used_bound[OF ok rs] r have used: "add32 (vs_used vs) (sr_size u) = vs_used vs + sr_size u"
    by (intro add32_less) simp
  have "coalesced ((xs @ before) @ u # after @ ys)"
    using c u before after unfolding coalesced_split[of "xs @ before"] by (auto simp: coalesced_snoc coalesced_Cons)
  moreover have "tiled (vs_start vs) (xs @ (before @ u # after) @ ys) (vs_start vs + vs_size vs)"
    using sp(1,3) t unfolding tiled_append by blast
  moreover have "used_bytes (before @ u # after) = sr_size u" using before after u by (auto simp: space_simps)
  ultimately show ?thesis using ok rs r used by (auto simp: space_ok_def space_simps)
qed

definition carve :: "space_region \<Rightarrow> nat \<Rightarrow> space_region list" where
  "carve r sz =
     (if sr_size r = sz then [r\<lparr>sr_used := True\<rparr>]
      else [\<lparr>sr_start = sr_start r, sr_size = sz, sr_used = True, sr_vm = None\<rparr>,
            r\<lparr>sr_start := sr_start r + sz, sr_size := sr_size r - sz\<rparr>])"

lemma region_ok_free: "\<not> sr_used r \<Longrightarrow> region_ok r \<longleftrightarrow> 0 < sr_size r \<and> sr_size r mod PAGE_SIZE = 0 \<and> sr_vm r = None"
  by (auto simp: region_ok_def split: option.splits)

lemma mod_diff_page: "b \<le> a \<Longrightarrow> a mod PAGE_SIZE = 0 \<Longrightarrow> b mod PAGE_SIZE = 0 \<Longrightarrow> (a - b) mod PAGE_SIZE = 0"
  by (auto simp: mod_eq_0_iff_dvd intro: dvd_diff_nat)

lemma alloc_space_found:
  assumes ok: "space_ok vs" and sz: "sz mod PAGE_SIZE = 0" "0 < sz"
    and rs: "vs_regions vs = xs @ r # ys" and r: "\<not> sr_used r" "sz \<le> sr_size r"
    and first: "\<forall>x \<in> set xs. sr_used x \<or> sr_size x < sz"
  shows "alloc_space vs sz = Inr (Inr (length xs),
      vs\<lparr>vs_regions := xs @ carve r sz @ ys, vs_used := add32 (vs_used vs) sz\<rparr>)"
    and "space_ok (vs\<lparr>vs_regions := xs @ carve r sz @ ys, vs_used := add32 (vs_used vs) sz\<rparr>)"
proof -
  note sp = space_split[OF ok rs]
  have f: "find_region (\<lambda>r. \<not> (sr_used r \<or> sr_size r < sz)) (vs_regions vs) = Some (length xs)"
    unfolding rs by (rule find_region_append) (use first r in auto)
  have a: "add32 (sr_start r) sz = sr_start r + sz" "sub32 (sr_size r) sz = sr_size r - sz"
    using sp(5) r(2) by (auto intro!: add32_less sub32_le)
  show "alloc_space vs sz = Inr (Inr (length xs),
      vs\<lparr>vs_regions := xs @ carve r sz @ ys, vs_used := add32 (vs_used vs) sz\<rparr>)"
    using sz(1) f a by (auto simp: alloc_space_def rs carve_def Let_def)
  have vm: "sr_vm r = None" using sp(2) r(1) by (simp add: region_ok_free)
  let ?u = "if sr_size r = sz then r\<lparr>sr_used := True\<rparr> else \<lparr>sr_start = sr_start r, sr_size = sz, sr_used = True, sr_vm = None\<rparr>"
  let ?after = "if sr_size r = sz then [] else [r\<lparr>sr_start := sr_start r + sz, sr_size := sr_size r - sz\<rparr>]"
  have "space_ok (vs\<lparr>vs_regions := xs @ [] @ ?u # ?after @ ys, vs_used := add32 (vs_used vs) (sr_size ?u)\<rparr>)"
  proof (rule carve_ok[OF ok rs r(1)])
    show "tiled (sr_start r) ([] @ ?u # ?after) (sr_start r + sr_size r)"
      using sp(2) r sz vm mod_diff_page[OF r(2)] by (auto simp: region_ok_def)
  qed (use r in auto)
  then show "space_ok (vs\<lparr>vs_regions := xs @ carve r sz @ ys, vs_used := add32 (vs_used vs) sz\<rparr>)"
    by (cases "sr_size r = sz") (simp_all add: carve_def)
qed

lemma alloc_space_full:
  assumes "sz mod PAGE_SIZE = 0" "\<forall>r \<in> set (vs_regions vs). sr_used r \<or> sr_size r < sz"
  shows "alloc_space vs sz = Inr (Inl ENOMEM, vs)"
proof -
  have "find_region (\<lambda>r. \<not> (sr_used r \<or> sr_size r < sz)) (vs_regions vs) = None"
    using assms(2) by (simp add: find_region_none)
  with assms(1) show ?thesis by (simp add: alloc_space_def)
qed

lemma first_fit_cases:
  fixes rs :: "space_region list"
  obtains "\<forall>r \<in> set rs. sr_used r \<or> sr_size r < sz"
  | xs r ys where "rs = xs @ r # ys" "\<not> sr_used r" "sz \<le> sr_size r" "\<forall>x \<in> set xs. sr_used x \<or> sr_size x < sz"
proof (cases "find_region (\<lambda>r. \<not> (sr_used r \<or> sr_size r < sz)) rs")
  case None
  then show ?thesis using that(1) by (auto simp: find_region_none)
next
  case (Some i)
  from find_region_split[OF this] show ?thesis using that(2) by auto
qed

text \<open>Allocation at an address: the region that contains it.\<close>

definition piece :: "nat \<Rightarrow> nat \<Rightarrow> space_region list" where
  "piece start sz = (if sz = 0 then [] else [\<lparr>sr_start = start, sr_size = sz, sr_used = False, sr_vm = None\<rparr>])"

definition taken :: "nat \<Rightarrow> nat \<Rightarrow> space_region" where
  "taken start sz = \<lparr>sr_start = start, sr_size = sz, sr_used = True, sr_vm = None\<rparr>"

lemma sr_contains_iff: "sr_start r + sr_size r < 2 ^ 32 \<Longrightarrow> sr_contains r a \<longleftrightarrow> sr_start r \<le> a \<and> a < sr_start r + sr_size r"
  by (simp add: sr_contains_def sr_end_def add32_less)

lemma tiled_member: "tiled s rs e \<Longrightarrow> r \<in> set rs \<Longrightarrow> s \<le> sr_start r \<and> sr_start r + sr_size r \<le> e"
proof (induction rs arbitrary: s)
  case (Cons a rs)
  then show ?case using tiled_le[of "s + sr_size a" rs e] by fastforce
qed simp

lemma find_containing:
  assumes ok: "space_ok vs" and rs: "vs_regions vs = xs @ r # ys" and a: "sr_start r \<le> a" "a < sr_start r + sr_size r"
  shows "find_region (\<lambda>r. sr_contains r a) (vs_regions vs) = Some (length xs)"
proof -
  note sp = space_split[OF ok rs]
  have "\<not> sr_contains x a" if "x \<in> set xs" for x
    using tiled_member[OF sp(1) that] a(1) sp(5) by (simp add: sr_contains_iff)
  then show ?thesis unfolding rs using a sp(5) by (intro find_region_append) (auto simp: sr_contains_iff)
qed

lemma find_containing_none:
  assumes "space_ok vs" "a < vs_start vs \<or> vs_start vs + vs_size vs \<le> a"
  shows "find_region (\<lambda>r. sr_contains r a) (vs_regions vs) = None"
proof -
  have "\<not> sr_contains r a" if "r \<in> set (vs_regions vs)" for r
  proof -
    have "vs_start vs \<le> sr_start r \<and> sr_start r + sr_size r \<le> vs_start vs + vs_size vs"
      using tiled_member[of "vs_start vs" "vs_regions vs" "vs_start vs + vs_size vs" r] that assms(1)
      by (simp add: space_ok_def)
    with assms show ?thesis by (auto simp: space_ok_def sr_contains_iff)
  qed
  then show ?thesis by (simp add: find_region_none)
qed

lemma tiled_cover: "tiled s rs e \<Longrightarrow> s \<le> a \<Longrightarrow> a < e \<Longrightarrow> \<exists>xs r ys. rs = xs @ r # ys \<and> sr_start r \<le> a \<and> a < sr_start r + sr_size r"
proof (induction rs arbitrary: s)
  case (Cons x rs)
  show ?case
  proof (cases "a < s + sr_size x")
    case True
    with Cons.prems show ?thesis by (intro exI[of _ "[]"]) auto
  next
    case False
    with Cons.IH[of "s + sr_size x"] Cons.prems obtain xs r ys where
      "rs = xs @ r # ys" "sr_start r \<le> a" "a < sr_start r + sr_size r" by auto
    then show ?thesis by (intro exI[of _ "x # xs"]) auto
  qed
qed simp

lemma alloc_space_at_found:
  assumes ok: "space_ok vs" and al: "sz mod PAGE_SIZE = 0" "a mod PAGE_SIZE = 0" "0 < sz"
    and rs: "vs_regions vs = xs @ r # ys" and a: "sr_start r \<le> a" "a < sr_start r + sr_size r"
    and fit: "a + sz \<le> sr_start r + sr_size r \<or> sr_size r = sz" and r: "\<not> sr_used r"
  defines "b \<equiv> if sr_size r = sz then sr_start r else a"
  defines "new \<equiv> piece (sr_start r) (b - sr_start r) @ taken b sz # piece (b + sz) (sr_start r + sr_size r - (b + sz))"
  shows "\<exists>i. alloc_space_at vs sz a = Inr (Inr i, vs\<lparr>vs_regions := xs @ new @ ys, vs_used := add32 (vs_used vs) sz\<rparr>) \<and>
       (xs @ new @ ys) ! i = taken b sz \<and> i < length (xs @ new)"
    and "space_ok (vs\<lparr>vs_regions := xs @ new @ ys, vs_used := add32 (vs_used vs) sz\<rparr>)"
proof -
  note sp = space_split[OF ok rs]
  have f: "find_region (\<lambda>r. sr_contains r a) (vs_regions vs) = Some (length xs)"
    by (rule find_containing[OF ok rs a])
  have s: "sub32 a (sr_start r) = a - sr_start r" "sub32 (sr_size r) (a - sr_start r) = sr_size r - (a - sr_start r)"
    "sr_end r = sr_start r + sr_size r"
    "a + sz \<le> sr_start r + sr_size r \<Longrightarrow> add32 a sz = a + sz"
    "a + sz \<le> sr_start r + sr_size r \<Longrightarrow>
       sub32 (sr_start r + sr_size r) (a + sz) = sr_start r + sr_size r - (a + sz)"
    using a sp(5) sub32_le[of "sr_start r" a] sub32_le[of "a - sr_start r" "sr_size r"]
      sub32_le[of "a + sz" "sr_start r + sr_size r"] add32_less[of a sz] add32_less[of "sr_start r" "sr_size r"]
    by (simp_all add: sr_end_def)
  have vm: "sr_vm r = None" using sp(2) r by (simp add: region_ok_free)
  then have rt: "r\<lparr>sr_used := True\<rparr> = taken (sr_start r) (sr_size r)" "r\<lparr>sr_start := a, sr_size := sz, sr_used := True\<rparr> = taken a sz"
    by (simp_all add: taken_def)
  let ?i = "length xs + length (piece (sr_start r) (b - sr_start r))"
  have "alloc_space_at vs sz a = Inr (Inr ?i, vs\<lparr>vs_regions := xs @ new @ ys, vs_used := add32 (vs_used vs) sz\<rparr>)"
  proof (cases "sr_size r = sz")
    case True
    with al r f rt(1) show ?thesis by (simp add: alloc_space_at_def rs new_def b_def piece_def Let_def)
  next
    case False
    with fit have fit: "a + sz \<le> sr_start r + sr_size r" by simp
    with a have "sz \<le> sr_size r - (a - sr_start r)" by linarith
    with False al r f rt(2) s(1-3) s(4,5)[OF fit] a(1) fit show ?thesis
      by (simp add: alloc_space_at_def rs new_def b_def piece_def Let_def)
  qed
  then show "\<exists>i. alloc_space_at vs sz a = Inr (Inr i, vs\<lparr>vs_regions := xs @ new @ ys, vs_used := add32 (vs_used vs) sz\<rparr>) \<and>
       (xs @ new @ ys) ! i = taken b sz \<and> i < length (xs @ new)"
    by (intro exI[of _ ?i]) (simp add: new_def nth_append)
  have bb: "sr_start r \<le> b" "b + sz \<le> sr_start r + sr_size r" "b mod PAGE_SIZE = 0" using a fit al sp(4) by (auto simp: b_def)
  have "(b + sz) mod PAGE_SIZE = 0" "(sr_start r + sr_size r) mod PAGE_SIZE = 0"
    using bb(3) al(1) sp(2,4) by (simp_all add: region_ok_def mod_add_page)
  then have "tiled (sr_start r) new (sr_start r + sr_size r)"
    using bb al mod_diff_page[OF bb(1)] mod_diff_page[OF bb(2)] sp(4)
    by (auto simp: new_def piece_def taken_def region_ok_def)
  then have "space_ok (vs\<lparr>vs_regions := xs @ piece (sr_start r) (b - sr_start r) @ taken b sz #
      piece (b + sz) (sr_start r + sr_size r - (b + sz)) @ ys, vs_used := add32 (vs_used vs) (sr_size (taken b sz))\<rparr>)"
    unfolding new_def by (intro carve_ok[OF ok rs r]) (auto simp: piece_def taken_def)
  then show "space_ok (vs\<lparr>vs_regions := xs @ new @ ys, vs_used := add32 (vs_used vs) sz\<rparr>)"
    by (simp add: new_def taken_def)
qed

text \<open>Release, with the free neighbours joined.\<close>

lemma free_region_eq:
  assumes ok: "space_ok vs" and rs: "vs_regions vs = xs @ r # ys" and r: "sr_used r"
  defines "P \<equiv> xs \<noteq> [] \<and> \<not> sr_used (last xs)" and "N \<equiv> ys \<noteq> [] \<and> \<not> sr_used (hd ys)"
  defines "p \<equiv> if P then sr_size (last xs) else 0" and "n \<equiv> if N then sr_size (hd ys) else 0"
  defines "xs' \<equiv> if P then butlast xs else xs" and "ys' \<equiv> if N then tl ys else ys"
  shows "free_region vs (length xs) = Inr (vs\<lparr>vs_regions := xs' @ piece (sr_start r - p) (p + sr_size r + n) @ ys',
      vs_used := vs_used vs - sr_size r\<rparr>)"
    and "tiled (vs_start vs) xs' (sr_start r - p)" "p \<le> sr_start r"
      "tiled (sr_start r + sr_size r + n) ys' (vs_start vs + vs_size vs)"
      "region_ok \<lparr>sr_start = sr_start r - p, sr_size = p + sr_size r + n, sr_used = False, sr_vm = None\<rparr>"
proof -
  note sp = space_split[OF ok rs]
  have P: "xs = butlast xs @ [last xs]" "region_ok (last xs)" "tiled (vs_start vs) (butlast xs) (sr_start (last xs))"
    "sr_start (last xs) + sr_size (last xs) = sr_start r" if P
  proof -
    show xs: "xs = butlast xs @ [last xs]" using that by (simp add: P_def)
    have "tiled (vs_start vs) (butlast xs @ [last xs]) (sr_start r)" using sp(1) xs by simp
    then show "region_ok (last xs)" "tiled (vs_start vs) (butlast xs) (sr_start (last xs))"
      "sr_start (last xs) + sr_size (last xs) = sr_start r" by (auto simp: space_simps)
  qed
  have N: "ys = hd ys # tl ys" "region_ok (hd ys)" "tiled (sr_start r + sr_size r + sr_size (hd ys)) (tl ys) (vs_start vs + vs_size vs)" if N
  proof -
    show ys: "ys = hd ys # tl ys" using that by (simp add: N_def)
    have "tiled (sr_start r + sr_size r) (hd ys # tl ys) (vs_start vs + vs_size vs)" using sp(3) ys by simp
    then show "region_ok (hd ys)" "tiled (sr_start r + sr_size r + sr_size (hd ys)) (tl ys) (vs_start vs + vs_size vs)" by auto
  qed
  show pr: "p \<le> sr_start r" and tp: "tiled (vs_start vs) xs' (sr_start r - p)"
    using P(3,4) sp(1) by (auto simp: p_def xs'_def simp flip: P(4))
  show tn: "tiled (sr_start r + sr_size r + n) ys' (vs_start vs + vs_size vs)"
    using N(3) sp(3) by (auto simp: n_def ys'_def)
  show "region_ok \<lparr>sr_start = sr_start r - p, sr_size = p + sr_size r + n, sr_used = False, sr_vm = None\<rparr>"
    using P(2) N(2) sp(2) by (auto simp: region_ok_def p_def n_def intro!: mod_add_page)
  have bound: "sr_start r + sr_size r + n < 2 ^ 32" using tiled_le[OF tn] ok by (simp add: space_ok_def)
  have "sr_size r \<le> vs_used vs" using r ok rs by (simp add: space_ok_def space_simps)
  then have u: "sub32 (vs_used vs) (sr_size r) = vs_used vs - sr_size r"
    using space_used_bound[OF ok rs] r by (intro sub32_le) simp_all
  have a: "sub32 (sr_start r) p = sr_start r - p" "add32 (sr_size r) p = p + sr_size r" "add32 (p + sr_size r) n = p + sr_size r + n"
    using pr bound sub32_le[of p "sr_start r"] add32_less[of "sr_size r" p] add32_less[of "p + sr_size r" n] by simp_all
  have nth: "xs \<noteq> [] \<Longrightarrow> (xs @ r # ys) ! (length xs - 1) = last xs" "ys \<noteq> [] \<Longrightarrow> (xs @ r # ys) ! Suc (length xs) = hd ys"
    "xs \<noteq> [] \<Longrightarrow> take (length xs - 1) (xs @ r # ys) = butlast xs"
    by (simp_all add: nth_append last_conv_nth hd_conv_nth butlast_conv_take)
  show "free_region vs (length xs) = Inr (vs\<lparr>vs_regions := xs' @ piece (sr_start r - p) (p + sr_size r + n) @ ys',
      vs_used := vs_used vs - sr_size r\<rparr>)"
  proof -
    have mp: "(0 < length xs \<and> \<not> sr_used ((xs @ r # ys) ! (length xs - 1))) = P"
      by (cases "xs = []") (simp_all add: P_def nth[unfolded One_nat_def])
    have mn: "(Suc (length xs) < length (xs @ r # ys) \<and> \<not> sr_used ((xs @ r # ys) ! Suc (length xs))) = N"
      by (cases "ys = []") (simp_all add: N_def nth)
    have pp: "P \<Longrightarrow> (xs @ r # ys) ! (length xs - 1) = last xs" "P \<Longrightarrow> take (length xs - 1) (xs @ r # ys) = butlast xs"
      "N \<Longrightarrow> (xs @ r # ys) ! Suc (length xs) = hd ys" unfolding P_def N_def using nth by blast+
    have dr: "drop (Suc (Suc (length xs))) (xs @ r # ys) = tl ys" by (simp add: drop_Suc tl_append)
    have it: "(xs @ r # ys) ! length xs = r" "length xs < length (xs @ r # ys)" by simp_all
    have "0 < sr_size r" using sp(2) by (simp add: region_ok_def)
    then show ?thesis using a u it(1) unfolding free_region_def rs Let_def mp mn dr piece_def xs'_def ys'_def p_def n_def
      by (cases P; cases N) (simp_all add: pp[unfolded One_nat_def] butlast_conv_take drop_Suc)
  qed
qed

lemma piece_pos: "0 < sz \<Longrightarrow> piece start sz = [\<lparr>sr_start = start, sr_size = sz, sr_used = False, sr_vm = None\<rparr>]"
  by (simp add: piece_def)

lemma free_region_ok:
  assumes ok: "space_ok vs" and rs: "vs_regions vs = xs @ r # ys" and r: "sr_used r"
  shows "\<exists>vs'. free_region vs (length xs) = Inr vs' \<and> space_ok vs'"
proof -
  define P where "P \<longleftrightarrow> xs \<noteq> [] \<and> \<not> sr_used (last xs)"
  define N where "N \<longleftrightarrow> ys \<noteq> [] \<and> \<not> sr_used (hd ys)"
  define p where "p = (if P then sr_size (last xs) else 0)"
  define n where "n = (if N then sr_size (hd ys) else 0)"
  define xs' where "xs' = (if P then butlast xs else xs)"
  define ys' where "ys' = (if N then tl ys else ys)"
  let ?u = "\<lparr>sr_start = sr_start r - p, sr_size = p + sr_size r + n, sr_used = False, sr_vm = None\<rparr>"
  note fr = free_region_eq[OF ok rs r, folded P_def N_def, folded p_def n_def xs'_def ys'_def]
  have cs: "coalesced xs" "coalesced ys" using ok rs r by (auto simp: space_ok_def coalesced_split)
  have xs: "P \<Longrightarrow> xs = xs' @ [last xs]" by (simp add: P_def xs'_def)
  have ys: "N \<Longrightarrow> ys = hd ys # ys'" by (simp add: N_def ys'_def)
  have cx: "coalesced xs' \<and> (xs' = [] \<or> sr_used (last xs')) \<and> used_bytes xs = used_bytes xs'"
  proof (cases P)
    case True
    then have "coalesced (xs' @ [last xs])" "used_bytes xs = used_bytes (xs' @ [last xs])"
      using cs(1) by (simp_all only: xs[OF True, symmetric])
    moreover have "\<not> sr_used (last xs)" using True by (simp add: P_def)
    ultimately show ?thesis by (simp add: coalesced_snoc space_simps)
  next
    case False
    then have "xs' = xs" "xs = [] \<or> sr_used (last xs)" by (simp add: xs'_def, auto simp: P_def)
    with cs(1) show ?thesis by simp
  qed
  have cy: "coalesced ys' \<and> (ys' = [] \<or> sr_used (hd ys')) \<and> used_bytes ys = used_bytes ys'"
  proof (cases N)
    case True
    then have "coalesced (hd ys # ys')" "used_bytes ys = used_bytes (hd ys # ys')"
      using cs(2) by (simp_all only: ys[OF True, symmetric])
    moreover have "\<not> sr_used (hd ys)" using True by (simp add: N_def)
    ultimately show ?thesis by (simp add: coalesced_Cons)
  next
    case False
    then have "ys' = ys" "ys = [] \<or> sr_used (hd ys)" by (simp add: ys'_def, auto simp: N_def)
    with cs(2) show ?thesis by simp
  qed
  have ub: "vs_used vs - sr_size r = used_bytes xs' + used_bytes ys'"
    using ok rs r cx cy by (simp add: space_ok_def space_simps)
  have pos: "0 < p + sr_size r + n" using fr(5) by (simp add: region_ok_def)
  have "sr_start r - p + (p + sr_size r + n) = sr_start r + sr_size r + n" using fr(3) by simp
  then have "tiled (vs_start vs) (xs' @ ?u # ys') (vs_start vs + vs_size vs)"
    using fr(2,4,5) unfolding tiled_append by (intro exI[of _ "sr_start r - p"]) (simp add: add.assoc)
  moreover have "coalesced (xs' @ ?u # ys')" using cx cy by (auto simp: coalesced_split)
  ultimately have "space_ok (vs\<lparr>vs_regions := xs' @ ?u # ys', vs_used := vs_used vs - sr_size r\<rparr>)"
    using ok ub by (simp add: space_ok_def space_simps)
  with fr(1) pos show ?thesis by (simp add: piece_pos)
qed

lemma alloc_space_ok:
  assumes "alloc_space vs sz = Inr (res, vs')" "space_ok vs" "0 < sz"
  shows "space_ok vs'" and "res = Inr i \<Longrightarrow> i < length (vs_regions vs') \<and> sr_used (vs_regions vs' ! i) \<and>
     sr_size (vs_regions vs' ! i) = sz \<and> vs_pd vs' = vs_pd vs"
proof -
  have sz: "sz mod PAGE_SIZE = 0" using assms(1) by (auto simp: alloc_space_def elim!: bindR_InrE)
  have "space_ok vs' \<and> (\<forall>i. res = Inr i \<longrightarrow> i < length (vs_regions vs') \<and> sr_used (vs_regions vs' ! i) \<and>
     sr_size (vs_regions vs' ! i) = sz \<and> vs_pd vs' = vs_pd vs)"
  proof (cases rule: first_fit_cases[of "vs_regions vs" sz])
    case 1
    from alloc_space_full[OF sz this] assms(1,2) show ?thesis by auto
  next
    case (2 xs r ys)
    from alloc_space_found[OF assms(2) sz assms(3) 2] assms(1) show ?thesis
      by (auto simp: carve_def nth_append)
  qed
  then show "space_ok vs'" "res = Inr i \<Longrightarrow> i < length (vs_regions vs') \<and> sr_used (vs_regions vs' ! i) \<and>
     sr_size (vs_regions vs' ! i) = sz \<and> vs_pd vs' = vs_pd vs" by auto
qed

lemma alloc_space_at_outside:
  assumes "space_ok vs" "sz mod PAGE_SIZE = 0" "a mod PAGE_SIZE = 0" "a < vs_start vs \<or> vs_start vs + vs_size vs \<le> a"
  shows "alloc_space_at vs sz a = Inr (Inl ENOMEM, vs)"
  using assms find_containing_none[OF assms(1,4)] by (simp add: alloc_space_at_def)

lemma alloc_space_at_refused:
  assumes ok: "space_ok vs" and al: "sz mod PAGE_SIZE = 0" "a mod PAGE_SIZE = 0"
    and r: "vs_regions vs = xs @ r # ys" "sr_start r \<le> a" "a < sr_start r + sr_size r"
    and no: "sr_used r \<or> \<not> a + sz \<le> sr_start r + sr_size r \<and> sr_size r \<noteq> sz"
  shows "alloc_space_at vs sz a = Inr (Inl ENOMEM, vs)"
proof -
  note f = find_containing[OF ok r] and sp = space_split[OF ok r(1)]
  have s: "sub32 a (sr_start r) = a - sr_start r" "sub32 (sr_size r) (a - sr_start r) = sr_size r - (a - sr_start r)"
    using r(2,3) sp(5) sub32_le[of "sr_start r" a] sub32_le[of "a - sr_start r" "sr_size r"] by simp_all
  show ?thesis
  proof (cases "sr_used r")
    case True
    with al f r(1) show ?thesis by (simp add: alloc_space_at_def Let_def)
  next
    case False
    with no have n: "\<not> a + sz \<le> sr_start r + sr_size r" "sr_size r \<noteq> sz" by simp_all
    then have "\<not> sz \<le> sr_size r - (a - sr_start r)" using r(2,3) by linarith
    with False n(2) al f s r(1) show ?thesis by (simp add: alloc_space_at_def Let_def)
  qed
qed

lemma alloc_space_at_ok:
  assumes "alloc_space_at vs sz a = Inr (res, vs')" "space_ok vs" "0 < sz"
  shows "space_ok vs'" and "res = Inr i \<Longrightarrow> i < length (vs_regions vs') \<and> sr_used (vs_regions vs' ! i) \<and>
     sr_size (vs_regions vs' ! i) = sz \<and> vs_pd vs' = vs_pd vs"
proof -
  have al: "sz mod PAGE_SIZE = 0" "a mod PAGE_SIZE = 0" using assms(1) by (auto simp: alloc_space_at_def elim!: bindR_InrE)
  have "space_ok vs' \<and> (\<forall>i. res = Inr i \<longrightarrow> i < length (vs_regions vs') \<and> sr_used (vs_regions vs' ! i) \<and>
     sr_size (vs_regions vs' ! i) = sz \<and> vs_pd vs' = vs_pd vs)"
  proof (cases "vs_start vs \<le> a \<and> a < vs_start vs + vs_size vs")
    case False
    then have "alloc_space_at vs sz a = Inr (Inl ENOMEM, vs)" by (intro alloc_space_at_outside[OF assms(2) al]) auto
    with assms(1,2) show ?thesis by auto
  next
    case True
    with tiled_cover[of "vs_start vs" "vs_regions vs" "vs_start vs + vs_size vs" a] assms(2) obtain xs r ys where
      r: "vs_regions vs = xs @ r # ys" "sr_start r \<le> a" "a < sr_start r + sr_size r" by (auto simp: space_ok_def)
    show ?thesis
    proof (cases "\<not> sr_used r \<and> (a + sz \<le> sr_start r + sr_size r \<or> sr_size r = sz)")
      case True
      from alloc_space_at_found[OF assms(2) al assms(3) r] True assms(1) show ?thesis by (fastforce simp: taken_def)
    next
      case False
      with alloc_space_at_refused[OF assms(2) al r] assms(1,2) show ?thesis by auto
    qed
  qed
  then show "space_ok vs'" "res = Inr i \<Longrightarrow> i < length (vs_regions vs') \<and> sr_used (vs_regions vs' ! i) \<and>
     sr_size (vs_regions vs' ! i) = sz \<and> vs_pd vs' = vs_pd vs" by auto
qed

lemma attach_region_ok:
  assumes ok: "space_ok vs" and i: "i < length (vs_regions vs)" "sr_used (vs_regions vs ! i)"
    and v: "sr_start (vs_regions vs ! i) \<le> vr_start v"
      "vr_start v + vr_size v \<le> sr_start (vs_regions vs ! i) + sr_size (vs_regions vs ! i)"
    and a: "attach_region vs i v obj = Inr (res, vs')"
  shows "space_ok vs'"
proof -
  define xs r ys where "xs = take i (vs_regions vs)" and "r = vs_regions vs ! i" and "ys = drop (Suc i) (vs_regions vs)"
  then have rs: "vs_regions vs = xs @ r # ys" and len: "length xs = i" using i(1) id_take_nth_drop by auto
  note sp = space_split[OF ok rs]
  let ?r = "r\<lparr>sr_vm := Some v\<rparr>"
  from a obtain pd where vs': "vs' = vs\<lparr>vs_regions := xs @ ?r # ys, vs_pd := pd\<rparr>"
    using len by (auto simp: attach_region_def rs list_update_append nth_append elim!: bindR_InrE)
  have "region_ok ?r" using sp(2) i(2) v by (simp add: region_ok_def r_def)
  with sp(1,3) have "tiled (vs_start vs) (xs @ ?r # ys) (vs_start vs + vs_size vs)" by (auto simp: tiled_append)
  moreover have "coalesced (xs @ ?r # ys)" using ok rs by (simp add: space_ok_def coalesced_split)
  ultimately show ?thesis using ok rs by (simp add: vs' space_ok_def space_simps)
qed

lemma map_object_ok:
  assumes "map_object vs new_id object obj prot rstart rsize ostart = Inr (res, vs')"
    and "space_ok vs" "ostart < vo_size obj" "vo_size obj < 2 ^ 32"
  shows "space_ok vs'"
proof -
  define sz where "sz = (if rsize = 0 then sub32 (vo_size obj) ostart else rsize)"
  have pos: "0 < sz" using assms(3,4) sub32_le[of ostart "vo_size obj"] by (auto simp: sz_def)
  let ?alloc = "if rstart \<noteq> 0 then alloc_space_at vs sz rstart else alloc_space vs sz"
  show ?thesis
  proof (cases "vs' = vs")
    case True
    with assms(2) show ?thesis by simp
  next
    case False
    with assms(1) obtain res1 vs1 where a: "?alloc = Inr (res1, vs1)" "vs' = vs1 \<or> (\<exists>i. res1 = Inr i \<and>
        attach_region vs1 i \<lparr>vr_id = new_id, vr_object = object, vr_start = sr_start (vs_regions vs1 ! i), vr_size = sz,
                  vr_object_start = ostart, vr_prot = prot\<rparr> obj = Inr (res, vs'))"
      unfolding map_object_def Let_def sz_def[symmetric]
      by (auto split: if_splits sum.splits elim!: bindR_InrE)
    have o: "space_ok vs1" "\<And>i. res1 = Inr i \<Longrightarrow> i < length (vs_regions vs1) \<and> sr_used (vs_regions vs1 ! i) \<and>
        sr_size (vs_regions vs1 ! i) = sz"
      using a(1) alloc_space_ok[of vs sz res1 vs1] alloc_space_at_ok[of vs sz rstart res1 vs1] assms(2) pos
      by (auto split: if_splits)
    from a(2) show ?thesis
    proof (elim disjE exE conjE)
      fix i assume i: "res1 = Inr i" "attach_region vs1 i \<lparr>vr_id = new_id, vr_object = object,
          vr_start = sr_start (vs_regions vs1 ! i), vr_size = sz, vr_object_start = ostart, vr_prot = prot\<rparr> obj = Inr (res, vs')"
      from attach_region_ok[OF o(1) _ _ _ _ i(2)] o(2)[OF i(1)] show ?thesis by simp
    qed (use o in simp)
  qed
qed

lemma map_object_with_sentinel_ok:
  assumes "map_object_with_sentinel vs new_id object obj prot = Inr (res, vs')"
    and "space_ok vs" "vo_size obj + PAGE_SIZE * 2 < 2 ^ 32"
  shows "space_ok vs'"
proof -
  let ?sz = "vo_size obj + PAGE_SIZE * 2"
  have sz: "add32 (vo_size obj) (PAGE_SIZE * 2) = ?sz" using assms(3) by (rule add32_less)
  from assms(1) obtain res1 vs1 where a: "alloc_space vs ?sz = Inr (res1, vs1)" "vs' = vs1 \<or> (\<exists>i. res1 = Inr i \<and>
      attach_region vs1 i \<lparr>vr_id = new_id, vr_object = object, vr_start = add32 (sr_start (vs_regions vs1 ! i)) PAGE_SIZE,
                  vr_size = vo_size obj, vr_object_start = 0, vr_prot = prot\<rparr> obj = Inr (res, vs'))"
    unfolding map_object_with_sentinel_def sz by (auto split: sum.splits elim!: bindR_InrE)
  note o = alloc_space_ok[OF a(1) assms(2)]
  from a(2) show ?thesis
  proof (elim disjE exE conjE)
    fix i assume i: "res1 = Inr i" "attach_region vs1 i \<lparr>vr_id = new_id, vr_object = object,
        vr_start = add32 (sr_start (vs_regions vs1 ! i)) PAGE_SIZE, vr_size = vo_size obj, vr_object_start = 0, vr_prot = prot\<rparr> obj
        = Inr (res, vs')"
    have r: "i < length (vs_regions vs1)" "sr_used (vs_regions vs1 ! i)" "sr_size (vs_regions vs1 ! i) = ?sz"
      using o(2)[OF _ i(1)] by simp_all
    have "sr_start (vs_regions vs1 ! i) + ?sz < 2 ^ 32"
      using space_split(5)[OF o(1) id_take_nth_drop[OF r(1)]] r(3) by simp
    then have "add32 (sr_start (vs_regions vs1 ! i)) PAGE_SIZE = sr_start (vs_regions vs1 ! i) + PAGE_SIZE"
      by (intro add32_less) simp
    with attach_region_ok[OF o(1) r(1,2) _ _ i(2)] r(3) show ?thesis by simp
  qed (use o in simp)
qed

lemma unmap_at_ok:
  assumes "unmap_at vs pos = Inr (res, vs')" "space_ok vs" "\<And>i. pos = Some i \<Longrightarrow> i < length (vs_regions vs)"
  shows "space_ok vs'"
proof (cases "vs' = vs")
  case False
  with assms(1) obtain i v pd where i: "pos = Some i" "sr_vm (vs_regions vs ! i) = Some v"
    "free_region (vs\<lparr>vs_pd := pd\<rparr>) i = Inr vs'"
    by (auto simp: unmap_at_def split: option.splits elim!: bindR_InrE)
  note len = assms(3)[OF i(1)]
  let ?xs = "take i (vs_regions vs)"
  have rs: "vs_regions (vs\<lparr>vs_pd := pd\<rparr>) = ?xs @ vs_regions vs ! i # drop (Suc i) (vs_regions vs)"
    using id_take_nth_drop[OF len] by simp
  have ok: "space_ok (vs\<lparr>vs_pd := pd\<rparr>)" using assms(2) by (simp add: space_ok_def)
  have "sr_used (vs_regions vs ! i)" using space_split(2)[OF ok rs] i(2) by (simp add: region_ok_def)
  from free_region_ok[OF ok rs this] i(3) len show ?thesis by simp
qed (use assms in simp)

lemma find_region_less: "find_region P rs = Some i \<Longrightarrow> i < length rs"
  using find_region_split by fastforce

section \<open>Every sequence of calls\<close>

text \<open>A call on the space that returns, with the sizes of the objects within the address range.\<close>

inductive space_step :: "vm_space \<Rightarrow> vm_space \<Rightarrow> bool" where
  step_map: "space_step vs vs'"
    if "map_object vs new_id object (obj :: vm_object) prot rstart rsize ostart = Inr (res, vs')"
      "ostart < vo_size obj" "vo_size obj < 2 ^ 32"
| step_sentinel: "space_step vs vs'"
    if "map_object_with_sentinel vs new_id object (obj :: vm_object) prot = Inr (res, vs')" "vo_size obj + PAGE_SIZE * 2 < 2 ^ 32"
| step_stack: "space_step vs vs'"
    if "map_stack vs new_id object (obj :: vm_object) prot = Inr (res, vs')" "0 < vo_size obj" "vo_size obj < 2 ^ 32"
| step_unmap: "space_step vs vs'" if "unmap_region vs ident = Inr (res', vs')"
| step_unmap_at: "space_step vs vs'" if "unmap_region_at vs address = Inr (res', vs')"
| step_reserve: "space_step vs vs'" if "reserve_region vs start sz = Inr (res', vs')" "0 < sz"

lemma space_step_ok: "space_step vs vs' \<Longrightarrow> space_ok vs \<Longrightarrow> space_ok vs'"
proof (induction rule: space_step.induct)
  case (step_map vs new_id object obj prot rstart rsize ostart res vs')
  then show ?case using map_object_ok by blast
next
  case (step_sentinel vs new_id object obj prot res vs')
  then show ?case using map_object_with_sentinel_ok by blast
next
  case (step_stack vs new_id object obj prot res vs')
  then show ?case using map_object_ok[of vs new_id object obj prot _ _ 0 res vs']
    by (auto simp: map_stack_def split: option.splits)
next
  case (step_unmap vs ident res' vs')
  then show ?case using unmap_at_ok[OF _ _ find_region_less] by (auto simp: unmap_region_def)
next
  case (step_unmap_at vs address res' vs')
  then show ?case using unmap_at_ok[OF _ _ find_region_less] by (auto simp: unmap_region_at_def)
next
  case (step_reserve vs start sz res' vs')
  then show ?case using alloc_space_at_ok(1) by (auto simp: reserve_region_def elim!: bindR_InrE)
qed

lemma space_steps_ok: "space_step\<^sup>*\<^sup>* vs vs' \<Longrightarrow> space_ok vs \<Longrightarrow> space_ok vs'"
  by (induction rule: rtranclp_induct) (auto intro: space_step_ok)

lemma tiled_ordered:
  assumes "tiled s rs e" "i < j" "j < length rs"
  shows "sr_start (rs ! i) + sr_size (rs ! i) \<le> sr_start (rs ! j)"
proof -
  have i: "i < length rs" using assms(2,3) by simp
  have "tiled s (take i rs @ rs ! i # drop (Suc i) rs) e" using assms(1) id_take_nth_drop[OF i] by simp
  then have "tiled (sr_start (rs ! i) + sr_size (rs ! i)) (drop (Suc i) rs) e" by (auto simp: tiled_append)
  moreover have "rs ! j \<in> set (drop (Suc i) rs)"
    using assms(2,3) by (auto simp: in_set_conv_nth intro!: exI[of _ "j - Suc i"])
  ultimately show ?thesis using tiled_member by blast
qed

text \<open>
  C2: address spaces. After any sequence of mapping, unmapping and reservation calls on a new space
  the regions tile it without gaps or overlaps, free neighbours are joined, the counter of used bytes
  is exact, every mapping lies inside a used region, and two mappings never share an address.
\<close>

theorem vm_space_invariant:
  assumes "space_step\<^sup>*\<^sup>* (vm_space_new start sz pd) vs"
    and "0 < sz" and "sz mod PAGE_SIZE = 0" and "start mod PAGE_SIZE = 0" and "start + sz < 2 ^ 32"
  shows "space_ok vs \<and>
     (\<forall>i j v w. i < j \<and> j < length (vs_regions vs) \<and> sr_vm (vs_regions vs ! i) = Some v \<and>
        sr_vm (vs_regions vs ! j) = Some w \<longrightarrow> vr_start v + vr_size v \<le> vr_start w)"
proof -
  have ok: "space_ok vs" using space_steps_ok[OF assms(1) space_ok_new[OF assms(2-5)]] .
  have in_region: "sr_start (vs_regions vs ! k) \<le> vr_start v \<and>
      vr_start v + vr_size v \<le> sr_start (vs_regions vs ! k) + sr_size (vs_regions vs ! k)"
    if "k < length (vs_regions vs)" "sr_vm (vs_regions vs ! k) = Some v" for k v
    using space_split(2)[OF ok id_take_nth_drop[OF that(1)]] that(2) by (simp add: region_ok_def)
  have "vr_start v + vr_size v \<le> vr_start w"
    if "i < j" "j < length (vs_regions vs)" "sr_vm (vs_regions vs ! i) = Some v" "sr_vm (vs_regions vs ! j) = Some w" for i j v w
    using in_region[of i v] in_region[of j w] that tiled_ordered[of "vs_start vs" "vs_regions vs" _ i j] ok
    by (fastforce simp: space_ok_def)
  with ok show ?thesis by blast
qed

text \<open>
  C20: releasing what was just allocated. If \<open>alloc_space\<close> gives a region, \<open>free_region\<close> of it restores
  the space exactly as it was.
\<close>

theorem alloc_free_roundtrip:
  assumes "space_ok vs" and "0 < sz" and "alloc_space vs sz = Inr (Inr i, vs')"
  shows "free_region vs' i = Inr vs"
proof -
  have sz: "sz mod PAGE_SIZE = 0" using assms(3) by (auto simp: alloc_space_def elim!: bindR_InrE)
  show ?thesis
  proof (cases rule: first_fit_cases[of "vs_regions vs" sz])
    case 1
    from alloc_space_full[OF sz this] assms(3) show ?thesis by simp
  next
    case (2 xs r ys)
    note al = alloc_space_found[OF assms(1) sz assms(2) 2] and sp = space_split[OF assms(1) 2(1)]
    have vs': "i = length xs" "vs' = vs\<lparr>vs_regions := xs @ carve r sz @ ys, vs_used := add32 (vs_used vs) sz\<rparr>"
      using al(1) assms(3) by simp_all
    have vm: "sr_vm r = None" using sp(2) 2(2) by (simp add: region_ok_free)
    have nb: "xs = [] \<or> sr_used (last xs)" "ys = [] \<or> sr_used (hd ys)"
      using assms(1) 2(1,2) by (auto simp: space_ok_def coalesced_split)
    have "vs_used vs + sz < 2 ^ 32" using space_used_bound[OF assms(1) 2(1)] 2(2,3) by simp
    then have used: "add32 (vs_used vs) sz - sz = vs_used vs" by (simp add: add32_less)
    define rest where "rest = (if sr_size r = sz then ys else r\<lparr>sr_start := sr_start r + sz, sr_size := sr_size r - sz\<rparr> # ys)"
    have rs: "vs_regions vs' = xs @ taken (sr_start r) sz # rest"
      using vm by (auto simp: vs' carve_def taken_def rest_def)
    have "sr_used (taken (sr_start r) sz)" by (simp add: taken_def)
    from free_region_eq(1)[OF al(2)[folded vs'(2)] rs this]
    have "free_region vs' (length xs) = Inr (vs'\<lparr>vs_regions := xs @ piece (sr_start r) (sr_size r) @ ys,
        vs_used := vs_used vs' - sz\<rparr>)"
      using nb 2(2,3) by (auto simp: taken_def rest_def)
    moreover have "piece (sr_start r) (sr_size r) = [r]" using vm 2(2) sp(2) by (simp add: piece_def region_ok_def)
    ultimately show ?thesis using vs' used 2(1) by simp
  qed
qed

text \<open>
  C21: allocation at an address. The call succeeds exactly when the region that holds the address is
  free and either reaches far enough or has exactly the requested size. The new region starts at the
  requested address, except in the latter case: then the whole free region is returned, and it
  starts at its own start, even if another address was asked for.
\<close>

theorem alloc_space_at_exact:
  assumes "space_ok vs" and "sz mod PAGE_SIZE = 0" and "a mod PAGE_SIZE = 0" and "0 < sz"
    and "r \<in> set (vs_regions vs)" and "sr_start r \<le> a" and "a < sr_start r + sr_size r"
  shows "if \<not> sr_used r \<and> (a + sz \<le> sr_start r + sr_size r \<or> sr_size r = sz)
     then \<exists>i vs'. alloc_space_at vs sz a = Inr (Inr i, vs') \<and> i < length (vs_regions vs') \<and> space_ok vs' \<and>
            vs_regions vs' ! i = taken (if sr_size r = sz then sr_start r else a) sz
     else alloc_space_at vs sz a = Inr (Inl ENOMEM, vs)"
proof -
  from assms(5) obtain xs ys where rs: "vs_regions vs = xs @ r # ys" by (meson split_list)
  show ?thesis
  proof (cases "\<not> sr_used r \<and> (a + sz \<le> sr_start r + sr_size r \<or> sr_size r = sz)")
    case True
    from alloc_space_at_found[OF assms(1-4) rs assms(6,7)] True show ?thesis
      by (simp only: if_True) force
  next
    case False
    with alloc_space_at_refused[OF assms(1-3) rs assms(6,7)] show ?thesis by auto
  qed
qed

abbreviation demo_space :: vm_space where
  "demo_space \<equiv> vm_space_new 4096 8192 (page_dir_new init_paging)"

lemma demo_space_ok: "space_ok demo_space"
  by (rule space_ok_new) simp_all

theorem alloc_space_at_exact_witness:
  "\<exists>i vs'. alloc_space_at demo_space 8192 8192 = Inr (Inr i, vs') \<and> i < length (vs_regions vs') \<and> space_ok vs' \<and>
     vs_regions vs' ! i = taken 4096 8192"
proof -
  let ?r = "\<lparr>sr_start = 4096, sr_size = 8192, sr_used = False, sr_vm = None\<rparr>"
  have "?r \<in> set (vs_regions demo_space)" by (simp add: vm_space_new_def)
  from alloc_space_at_exact[OF demo_space_ok _ _ _ this, of 8192 8192] show ?thesis by simp
qed

lemma demo_alloc: "\<exists>vs'. alloc_space demo_space 4096 = Inr (Inr 0, vs') \<and> vs_used vs' = 4096"
  by (simp add: alloc_space_def vm_space_new_def Let_def add32_def)

theorem alloc_free_roundtrip_witness:
  "\<exists>vs'. alloc_space demo_space 4096 = Inr (Inr 0, vs') \<and> vs_used vs' = 4096 \<and> free_region vs' 0 = Inr demo_space"
  using demo_alloc alloc_free_roundtrip[OF demo_space_ok, of 4096 0] by auto

theorem vm_space_invariant_witness:
  "\<exists>vs. space_step\<^sup>*\<^sup>* demo_space vs \<and> space_ok vs \<and> vs_used vs = 4096"
proof -
  have "\<exists>vs. reserve_region demo_space 8192 4096 = Inr (Inr (), vs) \<and> vs_used vs = 4096"
    by (simp add: reserve_region_def alloc_space_at_def vm_space_new_def Let_def sr_contains_def sr_end_def add32_def sub32_def)
  then obtain vs where vs: "reserve_region demo_space 8192 4096 = Inr (Inr (), vs)" "vs_used vs = 4096" by blast
  then have "space_step\<^sup>*\<^sup>* demo_space vs" by (intro r_into_rtranclp step_reserve[of _ 8192 4096]) simp_all
  moreover from vm_space_invariant[OF this] have "space_ok vs" by simp
  ultimately show ?thesis using vs(2) by blast
qed

end
