(* ===== verification/VMFault.thy ===== *)
theory VMFault
  imports VMSpace
begin

text \<open>
  Page faults and \<open>fork\<close> of an address space (\<open>VMSpace::try_pagefault\<close>, \<open>VMSpace::fork\<close>). Objects are
  shared between regions and spaces, so they live in a store; the virtual methods are dispatched on
  the class of the object. \<open>rd\<close> gives the \<open>read\<close> method of the inode behind an object.
\<close>

section \<open>The object store\<close>

datatype any_object = BaseObj vm_object | AnonObj anon_object | InodeObj inode_object

record vm_world =
  vw_objects :: "nat \<Rightarrow> any_object"
  vw_phys :: phys

fun any_base :: "any_object \<Rightarrow> vm_object" where
  "any_base (BaseObj obj) = obj"
| "any_base (AnonObj obj) = vm_object.truncate obj"
| "any_base (InodeObj obj) = vm_object.truncate obj"

fun any_fork_action :: "any_object \<Rightarrow> fork_action" where
  "any_fork_action (BaseObj obj) = Share"
| "any_fork_action (AnonObj obj) = an_fork_action obj"
| "any_fork_action (InodeObj obj) = inode_fork_action obj"

fun any_num_committed_pages :: "any_object \<Rightarrow> nat" where
  "any_num_committed_pages (BaseObj obj) = 0"
| "any_num_committed_pages (AnonObj obj) = an_committed obj"
| "any_num_committed_pages (InodeObj obj) = io_committed obj"

definition lift_step :: "('o \<Rightarrow> any_object) \<Rightarrow> ('r \<times> 'o \<times> phys) prun \<Rightarrow> ('r \<times> any_object \<times> phys) prun" where
  "lift_step f m = bindP m (\<lambda>(r, obj, ph). Some (Inr (r, f obj, ph)))"

fun any_try_cow_page :: "reclaim \<Rightarrow> any_object \<Rightarrow> phys \<Rightarrow> nat \<Rightarrow> (unit ret \<times> any_object \<times> phys) prun" where
  "any_try_cow_page reclaim (BaseObj obj) ph page = lift_step BaseObj (try_cow_page reclaim obj ph page)"
| "any_try_cow_page reclaim (AnonObj obj) ph page = lift_step AnonObj (try_cow_page reclaim obj ph page)"
| "any_try_cow_page reclaim (InodeObj obj) ph page = lift_step InodeObj (try_cow_page reclaim obj ph page)"

definition ret_code :: "'a ret \<Rightarrow> int + 'a" where
  "ret_code r = (case r of Inl e \<Rightarrow> Inl (errno_code e) | Inr x \<Rightarrow> Inr x)"

fun any_try_fault_in_page ::
    "reclaim \<Rightarrow> inode_read \<Rightarrow> any_object \<Rightarrow> phys \<Rightarrow> nat \<Rightarrow> ((int + bool) \<times> any_object \<times> phys) prun" where
  "any_try_fault_in_page reclaim rd (BaseObj obj) ph page = Some (Inr (Inl (errno_code EINVAL), BaseObj obj, ph))"
| "any_try_fault_in_page reclaim rd (AnonObj obj) ph page =
     lift_step AnonObj (bindP (anon_try_fault_in_page reclaim obj ph page) (\<lambda>(r, obj1, ph1). Some (Inr (ret_code r, obj1, ph1))))"
| "any_try_fault_in_page reclaim rd (InodeObj obj) ph page =
     lift_step InodeObj (inode_try_fault_in_page reclaim rd obj ph page)"

section \<open>Page faults\<close>

datatype fault_type = FaultRead | FaultWrite | FaultExecute | FaultUnknown

definition prot_denies :: "vm_prot \<Rightarrow> fault_type \<Rightarrow> bool" where
  "prot_denies prot type \<longleftrightarrow>
     (\<not> prot_read prot \<and> type = FaultRead) \<or> (\<not> prot_write prot \<and> type = FaultWrite) \<or>
     (\<not> prot_execute prot \<and> type = FaultExecute)"

definition put_object :: "vm_world \<Rightarrow> nat \<Rightarrow> any_object \<Rightarrow> phys \<Rightarrow> vm_world" where
  "put_object w ident obj ph = w\<lparr>vw_objects := (vw_objects w)(ident := obj), vw_phys := ph\<rparr>"

text \<open>The page is present: it is copied if it is marked, and mapped again at \<open>object_page\<close>.\<close>

definition fault_present ::
    "reclaim \<Rightarrow> vm_world \<Rightarrow> vm_space \<Rightarrow> vm_region \<Rightarrow> nat \<Rightarrow> ((int + unit) \<times> vm_world \<times> vm_space) prun" where
  "fault_present reclaim w vs vmRegion object_page =
     (let ident = vr_object vmRegion; obj = vw_objects w ident in
      bindP (Some (page_is_cow (any_base obj) object_page)) (\<lambda>cow.
        bindP (if prot_write (vr_prot vmRegion) \<and> cow
               then any_try_cow_page reclaim obj (vw_phys w) object_page
               else Some (Inr (Inr (), obj, vw_phys w))) (\<lambda>(res, obj1, ph1).
          let w1 = put_object w ident obj1 ph1 in
          case res of
            Inl e \<Rightarrow> Some (Inr (Inl (errno_code e), w1, vs))
          | Inr _ \<Rightarrow>
              bindP (Some (pd_map (vs_pd vs) vmRegion (any_base obj1) (object_page * PAGE_SIZE) PAGE_SIZE)) (\<lambda>pd.
                Some (Inr (Inr (), w1, vs\<lparr>vs_pd := pd\<rparr>))))))"

text \<open>The page is absent: it is read in and mapped at \<open>error_page\<close>.\<close>

definition fault_absent ::
    "reclaim \<Rightarrow> inode_read \<Rightarrow> vm_world \<Rightarrow> vm_space \<Rightarrow> vm_region \<Rightarrow> nat \<Rightarrow> nat \<Rightarrow> ((int + unit) \<times> vm_world \<times> vm_space) prun" where
  "fault_absent reclaim rd w vs vmRegion error_page object_page =
     (let ident = vr_object vmRegion in
      bindP (any_try_fault_in_page reclaim rd (vw_objects w ident) (vw_phys w) object_page) (\<lambda>(res, obj1, ph1).
        let w1 = put_object w ident obj1 ph1 in
        case res of
          Inl e \<Rightarrow> Some (Inr (Inl e, w1, vs))
        | Inr did_read \<Rightarrow>
            bindP (Some (physical_page_index (any_base obj1) object_page)) (\<lambda>p.
              bindP (Some (assertR (p \<noteq> 0))) (\<lambda>_.
                if did_read
                then bindP (Some (pd_map (vs_pd vs) vmRegion (any_base obj1) (error_page * PAGE_SIZE) PAGE_SIZE)) (\<lambda>pd.
                       Some (Inr (Inr (), w1, vs\<lparr>vs_pd := pd\<rparr>)))
                else Some (Inr (Inr (), w1, vs))))))"

definition try_pagefault ::
    "reclaim \<Rightarrow> (nat \<Rightarrow> inode_read) \<Rightarrow> vm_world \<Rightarrow> vm_space \<Rightarrow> nat \<Rightarrow> fault_type \<Rightarrow>
     ((int + unit) \<times> vm_world \<times> vm_space) prun" where
  "try_pagefault reclaim rd w vs address type =
     (case find_region (\<lambda>r. sr_contains r address) (vs_regions vs) of
        None \<Rightarrow> Some (Inr (Inl (errno_code ENOENT), w, vs))
      | Some i \<Rightarrow>
          (case sr_vm (vs_regions vs ! i) of
             None \<Rightarrow> Some (Inr (Inl (errno_code EINVAL), w, vs))
           | Some vmRegion \<Rightarrow>
               if \<not> vr_contains vmRegion address then Some (Inr (Inl (errno_code ENOENT), w, vs))
               else if prot_denies (vr_prot vmRegion) type then Some (Inr (Inl (errno_code EINVAL), w, vs))
               else
                 let error_page = (address - vr_start vmRegion) div PAGE_SIZE;
                     object_page = error_page + vr_object_start vmRegion div PAGE_SIZE in
                 bindP (Some (physical_page_index (any_base (vw_objects w (vr_object vmRegion))) object_page)) (\<lambda>p.
                   if p \<noteq> 0 then fault_present reclaim w vs vmRegion object_page
                   else fault_absent reclaim (rd (vr_object vmRegion)) w vs vmRegion error_page object_page)))"

section \<open>Forking a space\<close>

fun any_clone :: "u8 \<Rightarrow> any_object \<Rightarrow> memory_manager \<Rightarrow> ((any_object ret) \<times> any_object \<times> memory_manager) run" where
  "any_clone junk (BaseObj obj) mm = Inr (Inl ENOSYS, BaseObj obj, mm)"
| "any_clone junk (AnonObj obj) mm = bindR (anon_clone junk obj mm) (\<lambda>(obj1, new_obj, mm1). Inr (Inr (AnonObj new_obj), AnonObj obj1, mm1))"
| "any_clone junk (InodeObj obj) mm = bindR (inode_clone junk obj mm) (\<lambda>(obj1, new_obj, mm1). Inr (Inr (InodeObj new_obj), InodeObj obj1, mm1))"

text \<open>
  State of the loop: the objects, both page directories and the regions created. \<open>obj_id\<close> and
  \<open>reg_id\<close> are the identities the next new object and the next new \<open>VMRegion\<close> get.
\<close>

record fork_state =
  fs_objects :: "nat \<Rightarrow> any_object"
  fs_mm :: memory_manager
  fs_parent_pd :: page_dir
  fs_child_pd :: page_dir
  fs_regions_vec :: "vm_region list"
  fs_obj_id :: nat
  fs_reg_id :: nat

definition fork_share :: "fork_state \<Rightarrow> vm_region \<Rightarrow> nat \<Rightarrow> (vm_region \<times> fork_state) run" where
  "fork_share st region new_object =
     (let new_region = region\<lparr>vr_id := fs_reg_id st, vr_object := new_object\<rparr> in
      bindR (pd_map (fs_child_pd st) new_region (any_base (fs_objects st new_object)) 0 0) (\<lambda>pd.
        Inr (new_region, st\<lparr>fs_child_pd := pd, fs_regions_vec := fs_regions_vec st @ [new_region],
                           fs_reg_id := fs_reg_id st + 1\<rparr>)))"

text \<open>One mapped region. The result is the \<open>VMRegion\<close> of the child's copy of the space region.\<close>

definition fork_region :: "u8 \<Rightarrow> fork_state \<Rightarrow> vm_region \<Rightarrow> (vm_region \<times> fork_state) run" where
  "fork_region junk st region =
     (let ident = vr_object region; obj = fs_objects st ident in
      case any_fork_action obj of
        BecomeCoW \<Rightarrow>
          bindR (any_clone junk obj (fs_mm st)) (\<lambda>(res, obj1, mm1).
            let st1 = st\<lparr>fs_objects := (fs_objects st)(ident := obj1), fs_mm := mm1\<rparr> in
            bindR (pd_map (fs_parent_pd st1) region (any_base obj1) 0 0) (\<lambda>pd.
              let st2 = st1\<lparr>fs_parent_pd := pd\<rparr> in
              case res of
                Inl _ \<Rightarrow> Inr (region, st2)
              | Inr new_obj \<Rightarrow>
                  fork_share (st2\<lparr>fs_objects := (fs_objects st2)(fs_obj_id st2 := new_obj), fs_obj_id := fs_obj_id st2 + 1\<rparr>)
                    region (fs_obj_id st2)))
      | Share \<Rightarrow> fork_share st region ident
      | Ignore \<Rightarrow> Inr (region, st))"

fun fork_regions :: "u8 \<Rightarrow> fork_state \<Rightarrow> space_region list \<Rightarrow> (space_region list \<times> fork_state) run" where
  "fork_regions junk st [] = Inr ([], st)"
| "fork_regions junk st (r # rs) =
     bindR (case sr_vm r of
              None \<Rightarrow> Inr (r, st)
            | Some region \<Rightarrow> bindR (fork_region junk st region) (\<lambda>(v, st1). Inr (r\<lparr>sr_vm := Some v\<rparr>, st1)))
       (\<lambda>(r1, st2). bindR (fork_regions junk st2 rs) (\<lambda>(rs1, st3). Inr (r1 # rs1, st3)))"

definition vm_space_fork ::
    "u8 \<Rightarrow> vm_space \<Rightarrow> page_dir \<Rightarrow> (nat \<Rightarrow> any_object) \<Rightarrow> memory_manager \<Rightarrow> nat \<Rightarrow> nat \<Rightarrow>
     (vm_space \<times> vm_space \<times> fork_state) run" where
  "vm_space_fork junk vs child_pd objects mm obj_id reg_id =
     bindR (fork_regions junk
              \<lparr>fs_objects = objects, fs_mm = mm, fs_parent_pd = vs_pd vs, fs_child_pd = child_pd,
               fs_regions_vec = [], fs_obj_id = obj_id, fs_reg_id = reg_id\<rparr> (vs_regions vs))
       (\<lambda>(rs, st).
          Inr (vs\<lparr>vs_pd := fs_parent_pd st\<rparr>,
               \<lparr>vs_start = vs_start vs, vs_size = vs_size vs, vs_regions = rs, vs_used = vs_used vs, vs_pd = fs_child_pd st\<rparr>,
               st))"

section \<open>Page faults are served\<close>

lemma pd_map_one:
  assumes pd: "dir_ok pd" and rd: "prot_read (vr_prot v)" and al: "vr_start v mod PAGE_SIZE = 0" "vr_object_start v = 0"
    and i: "(i + 1) * PAGE_SIZE \<le> vr_size v" and hi: "vr_start v + vr_size v \<le> HIGHER_HALF"
    and p: "i < length (vo_pages obj)" "vo_pages obj ! i \<noteq> 0" "vo_pages obj ! i < 2 ^ 20" and cow: "page_is_cow obj i = Inr cow"
  shows "\<exists>pd'. pd_map pd v obj (i * PAGE_SIZE) PAGE_SIZE = Inr pd' \<and> dir_ok pd' \<and>
     user_map pd' = (user_map pd)(vr_start v div PAGE_SIZE + i \<mapsto> (vo_pages obj ! i, \<not> cow \<and> prot_write (vr_prot v)))"
proof -
  let ?v = "vr_start v div PAGE_SIZE + i"
  from al(1) obtain s where s: "vr_start v = s * PAGE_SIZE" by (metis div_mult_mod_eq add.right_neutral)
  have a: "add32 (i * PAGE_SIZE) PAGE_SIZE = (i + 1) * PAGE_SIZE" "vr_end v = vr_start v + vr_size v"
    using i hi by (simp_all add: add32_less vr_end_def)
  have "?v < 768 * 1024" using s i hi by simp
  from map_page_refines[OF pd this p(3), of "(vr_prot v)\<lparr>prot_write := \<not> cow \<and> prot_write (vr_prot v)\<rparr>"] obtain pd' where
    m: "map_page pd ?v (vo_pages obj ! i) ((vr_prot v)\<lparr>prot_write := \<not> cow \<and> prot_write (vr_prot v)\<rparr>) = Inr (Inr (), pd')"
      "dir_ok pd'" "user_map pd' = (user_map pd)(?v \<mapsto> (vo_pages obj ! i, \<not> cow \<and> prot_write (vr_prot v)))" by auto
  have "pd_map pd v obj (i * PAGE_SIZE) PAGE_SIZE = map_pages pd v obj i (Suc 0)"
  proof -
    have "(i + 1) * PAGE_SIZE div PAGE_SIZE - i = Suc 0" "(i + 1) * PAGE_SIZE \<le> vr_start v + vr_size v"
      using i by simp_all
    with rd a show ?thesis by (simp add: pd_map_def Let_def del: map_pages.simps add_mult_distrib)
  qed
  also have "\<dots> = Inr pd'" using m(1) al(2) p(1,2) cow by (cases cow) (simp_all add: physical_page_index_def)
  finally show ?thesis using m(2,3) by blast
qed

lemma truncate_simps [simp]:
  "physical_page_index (vm_object.truncate obj) i = physical_page_index obj i"
  "page_is_cow (vm_object.truncate obj) i = page_is_cow obj i"
  "vo_pages (vm_object.truncate obj) = vo_pages obj"
  by (simp_all add: vm_object.truncate_def physical_page_index_def page_is_cow_def)

lemma anon_fault_spec:
  assumes "mm_avail A (ph_mm ph) V" "V \<noteq> {}" "i < length (vo_pages obj)" "vo_pages obj ! i = 0"
  shows "\<exists>q mm'. anon_try_fault_in_page reclaim obj ph i =
       Some (Inr (Inr True, obj\<lparr>vo_pages := (vo_pages obj)[i := q], an_committed := an_committed obj + 1\<rparr>,
         \<lparr>ph_mm = mm', ph_frames = (ph_frames ph)(q := zero_frame)\<rparr>)) \<and> q \<in> V \<and> mm_avail A mm' (V - {q})"
proof -
  from alloc_physical_page_spec[OF assms(1,2), of reclaim] obtain q mm' where
    "alloc_physical_page reclaim (ph_mm ph) = Some (Inr (q, mm'))" "q \<in> V" "mm_avail A mm' (V - {q})" by blast
  with assms(3,4) show ?thesis
    by (intro exI[of _ q] exI[of _ mm'])
      (simp add: anon_try_fault_in_page_def anon_fault_check_def anon_fault_commit_def physical_page_index_def with_quickmapped_def)
qed

text \<open>A marked page is replaced by a copy, whether or not it is still shared.\<close>

lemma try_cow_page_any:
  assumes mm: "mm_avail A (ph_mm ph) V" and V: "V \<noteq> {}" and ok: "object_ok A V (ph_mm ph) obj"
    and i: "i < length (vo_pages obj)" "bm_val (vo_cow obj) i"
  shows "\<exists>q c mm'. try_cow_page reclaim obj ph i =
       Some (Inr (Inr (), obj\<lparr>vo_pages := (vo_pages obj)[i := q], vo_cow := c\<rparr>,
         \<lparr>ph_mm = mm', ph_frames = (ph_frames ph)(q := ph_frames ph (vo_pages obj ! i))\<rparr>)) \<and>
     q \<in> V \<and> bm_get c i = Inr False"
proof -
  let ?p = "vo_pages obj ! i"
  have p0: "?p \<noteq> 0" using ok i by (simp add: object_ok_def)
  note pg = object_ok_page[OF ok i(1) p0]
  have get: "bm_get (vo_cow obj) i = Inr True" using bm.get_val[OF pg(4)] i(2) by simp
  from alloc_physical_page_spec[OF mm V, of reclaim] obtain q mm1 where
    q: "alloc_physical_page reclaim (ph_mm ph) = Some (Inr (q, mm1))" "q \<in> V" "mm_avail A mm1 (V - {q})"
      "\<And>p. p \<notin> V \<Longrightarrow> refs mm1 p = refs (ph_mm ph) p" by blast
  have "?p \<notin> V - {q}" "refs mm1 ?p \<noteq> 0" using pg q(4)[OF pg(2)] by auto
  from page_unref_any[OF q(3) pg(1) this] obtain mm2 where mm2: "page_unref mm1 ?p = Inr mm2" by blast
  from bm.set_val[OF pg(4), of False] obtain c where
    c: "bm_set (vo_cow obj) i False = Inr c" "bm_get c i = Inr False" using pg(4) bm.get_val by fastforce
  have "try_cow_page reclaim obj ph i =
       Some (Inr (Inr (), obj\<lparr>vo_pages := (vo_pages obj)[i := q], vo_cow := c\<rparr>,
         \<lparr>ph_mm = mm2, ph_frames = (ph_frames ph)(q := ph_frames ph ?p)\<rparr>))"
    using i(1) get p0 q(1) mm2 c(1)
    by (simp add: try_cow_page_def cow_check_def cow_commit_def page_is_cow_def physical_page_index_def copy_page_def)
  with q(2) c(2) show ?thesis by blast
qed

text \<open>The circumstances of a fault in a region of user space that maps an anonymous object.\<close>

definition fault_in ::
    "nat set \<Rightarrow> nat set \<Rightarrow> vm_world \<Rightarrow> vm_space \<Rightarrow> nat \<Rightarrow> vm_region \<Rightarrow> anon_object \<Rightarrow> bool" where
  "fault_in A V w vs address v obj \<longleftrightarrow>
     get_region_containing vs address = Inr v \<and> vr_contains v address \<and> prot_read (vr_prot v) \<and> dir_ok (vs_pd vs) \<and>
     vr_start v mod PAGE_SIZE = 0 \<and> vr_size v mod PAGE_SIZE = 0 \<and> vr_start v + vr_size v \<le> HIGHER_HALF \<and>
     vw_objects w (vr_object v) = AnonObj obj \<and> vr_object_start v + vr_size v \<le> length (vo_pages obj) * PAGE_SIZE \<and>
     object_ok A V (ph_mm (vw_phys w)) obj \<and> mm_avail A (ph_mm (vw_phys w)) V \<and> V \<noteq> {} \<and> A \<subseteq> {0 <..< 2 ^ 20}"

lemma fault_inD:
  assumes "fault_in A V w vs address v obj"
  defines "page \<equiv> (address - vr_start v) div PAGE_SIZE"
  shows "(page + 1) * PAGE_SIZE \<le> vr_size v" "page + vr_object_start v div PAGE_SIZE < length (vo_pages obj)"
    "vr_start v div PAGE_SIZE + page = address div PAGE_SIZE"
proof -
  have d: "vr_start v \<le> address" "address < vr_start v + vr_size v"
    using assms(1) by (auto simp: fault_in_def vr_contains_def vr_end_def add32_less)
  from assms(1) have al: "PAGE_SIZE dvd vr_start v" "PAGE_SIZE dvd vr_size v"
    by (simp_all add: fault_in_def mod_eq_0_iff_dvd)
  from al(2) obtain n where n: "vr_size v = PAGE_SIZE * n" by blast
  have "page < n" using d n by (simp add: page_def less_mult_imp_div_less mult.commute)
  then show le: "(page + 1) * PAGE_SIZE \<le> vr_size v" using n by simp
  have "(vr_object_start v div PAGE_SIZE) * PAGE_SIZE + (page + 1) * PAGE_SIZE \<le> length (vo_pages obj) * PAGE_SIZE"
    using assms(1) le by (auto simp: fault_in_def intro: le_trans[OF add_mono[OF div_times_less_eq_dividend]])
  then show "page + vr_object_start v div PAGE_SIZE < length (vo_pages obj)" by simp
  show "vr_start v div PAGE_SIZE + page = address div PAGE_SIZE"
    using al(1) d(1) by (simp add: page_def div_plus_div_distrib_dvd_left[symmetric])
qed

lemma try_pagefault_dispatch:
  assumes "fault_in A V w vs address v obj" "\<not> prot_denies (vr_prot v) type"
  defines "page \<equiv> (address - vr_start v) div PAGE_SIZE" and "opage \<equiv> (address - vr_start v) div PAGE_SIZE + vr_object_start v div PAGE_SIZE"
  shows "try_pagefault reclaim rd w vs address type =
     (if vo_pages obj ! opage \<noteq> 0 then fault_present reclaim w vs v opage
      else fault_absent reclaim (rd (vr_object v)) w vs v page opage)"
proof -
  from assms(1) obtain i where i: "find_region (\<lambda>r. sr_contains r address) (vs_regions vs) = Some i"
      "sr_vm (vs_regions vs ! i) = Some v"
    by (auto simp: fault_in_def get_region_containing_def region_found_def split: option.splits)
  have o: "vw_objects w (vr_object v) = AnonObj obj" "vr_contains v address" using assms(1) by (simp_all add: fault_in_def)
  have "physical_page_index obj opage = Inr (vo_pages obj ! opage)"
    using fault_inD(2)[OF assms(1)] by (simp add: physical_page_index_def opage_def)
  with i o assms(2) show ?thesis by (simp add: try_pagefault_def Let_def page_def opage_def)
qed

definition fault_page :: "nat \<Rightarrow> vm_region \<Rightarrow> nat" where
  "fault_page address v = (address - vr_start v) div PAGE_SIZE"

definition served ::
    "nat set \<Rightarrow> vm_world \<Rightarrow> vm_space \<Rightarrow> nat \<Rightarrow> vm_region \<Rightarrow> anon_object \<Rightarrow> vm_world \<Rightarrow> vm_space \<Rightarrow> anon_object \<Rightarrow> bool" where
  "served A w vs address v obj w' vs' obj' \<longleftrightarrow>
     vw_objects w' = (vw_objects w)(vr_object v := AnonObj obj') \<and> vo_pages obj' ! fault_page address v \<in> A \<and>
     user_map (vs_pd vs') = (user_map (vs_pd vs))
       (address div PAGE_SIZE \<mapsto> (vo_pages obj' ! fault_page address v, prot_write (vr_prot v))) \<and>
     page_content (vw_phys w') obj' (fault_page address v) =
       (if vo_pages obj ! fault_page address v = 0 then zero_frame else page_content (vw_phys w) obj (fault_page address v))"

lemma fault_in_facts:
  assumes "fault_in A V w vs address v obj" "vr_object_start v = 0"
  shows "vw_objects w (vr_object v) = AnonObj obj" "object_ok A V (ph_mm (vw_phys w)) obj" "mm_avail A (ph_mm (vw_phys w)) V"
    "V \<noteq> {}" "V \<subseteq> A" "fault_page address v < length (vo_pages obj)" "0 \<notin> A"
    "page_is_cow obj (fault_page address v) = Inr (bm_val (vo_cow obj) (fault_page address v))"
proof -
  show o: "vw_objects w (vr_object v) = AnonObj obj" "object_ok A V (ph_mm (vw_phys w)) obj" "mm_avail A (ph_mm (vw_phys w)) V"
    "V \<noteq> {}" "0 \<notin> A" using assms(1) by (auto simp: fault_in_def)
  show "V \<subseteq> A" using o(3) region_src.avail_within by (fastforce simp: mm_avail_def)
  show len: "fault_page address v < length (vo_pages obj)"
    using fault_inD(2)[OF assms(1)] assms(2) by (simp add: fault_page_def)
  then have "fault_page address v < bm_cap (vo_cow obj)" using o(2) by (simp add: object_ok_def)
  then show "page_is_cow obj (fault_page address v) = Inr (bm_val (vo_cow obj) (fault_page address v))"
    using bm.get_val by (simp add: page_is_cow_def)
qed

lemma fault_map:
  assumes "fault_in A V w vs address v obj" "vr_object_start v = 0"
    and "fault_page address v < length (vo_pages obj')" "vo_pages obj' ! fault_page address v \<in> A"
    and "page_is_cow obj' (fault_page address v) = Inr cow" "prot_write (vr_prot v) \<longrightarrow> \<not> cow"
  shows "\<exists>pd'. pd_map (vs_pd vs) v (vm_object.truncate obj') (fault_page address v * PAGE_SIZE) PAGE_SIZE = Inr pd' \<and>
      user_map pd' = (user_map (vs_pd vs))
        (address div PAGE_SIZE \<mapsto> (vo_pages obj' ! fault_page address v, prot_write (vr_prot v)))"
proof -
  note D = fault_inD[OF assms(1), folded fault_page_def]
  from assms(1) have "dir_ok (vs_pd vs)" "prot_read (vr_prot v)" "vr_start v mod PAGE_SIZE = 0"
    "vr_start v + vr_size v \<le> HIGHER_HALF" "A \<subseteq> {0 <..< 2 ^ 20}" by (simp_all add: fault_in_def)
  with pd_map_one[of "vs_pd vs" v "fault_page address v" "vm_object.truncate obj'" cow] assms(2-6) D(1,3) show ?thesis
    by (auto simp: subset_iff)
qed

lemma fault_absent_served:
  assumes F: "fault_in A V w vs address v obj" "vr_object_start v = 0" and p: "vo_pages obj ! fault_page address v = 0"
  shows "\<exists>w' vs' obj'. fault_absent reclaim rd w vs v (fault_page address v) (fault_page address v) = Some (Inr (Inr (), w', vs')) \<and>
     served A w vs address v obj w' vs' obj'"
proof -
  note f = fault_in_facts[OF F]
  let ?pg = "fault_page address v" and ?ph = "vw_phys w"
  from anon_fault_spec[OF f(3,4,6) p, of reclaim] obtain q mm' where
    q: "anon_try_fault_in_page reclaim obj ?ph ?pg =
       Some (Inr (Inr True, obj\<lparr>vo_pages := (vo_pages obj)[?pg := q], an_committed := an_committed obj + 1\<rparr>,
         \<lparr>ph_mm = mm', ph_frames = (ph_frames ?ph)(q := zero_frame)\<rparr>))" "q \<in> V" by blast
  let ?o = "obj\<lparr>vo_pages := (vo_pages obj)[?pg := q], an_committed := an_committed obj + 1\<rparr>"
  have "page_is_cow ?o ?pg = Inr False" using f(2,6,8) p by (auto simp: page_is_cow_def object_ok_def)
  with fault_map[OF F, of ?o False] q(2) f(5,6) obtain pd' where
    pd': "pd_map (vs_pd vs) v (vm_object.truncate ?o) (?pg * PAGE_SIZE) PAGE_SIZE = Inr pd'"
      "user_map pd' = (user_map (vs_pd vs))(address div PAGE_SIZE \<mapsto> (q, prot_write (vr_prot v)))" by auto
  let ?w = "put_object w (vr_object v) (AnonObj ?o) \<lparr>ph_mm = mm', ph_frames = (ph_frames ?ph)(q := zero_frame)\<rparr>"
  have "q \<noteq> 0" using q(2) f(5,7) by (metis subsetD)
  with f(1,6) q(1) pd'(1)
  have "fault_absent reclaim rd w vs v ?pg ?pg = Some (Inr (Inr (), ?w, vs\<lparr>vs_pd := pd'\<rparr>))"
    by (simp add: fault_absent_def lift_step_def ret_code_def physical_page_index_def)
  moreover have "served A w vs address v obj ?w (vs\<lparr>vs_pd := pd'\<rparr>) ?o"
    using pd'(2) p f(5,6) q(2) by (auto simp: served_def put_object_def page_content_def)
  ultimately show ?thesis by blast
qed

lemma fault_cow_served:
  assumes F: "fault_in A V w vs address v obj" "vr_object_start v = 0"
    and p: "vo_pages obj ! fault_page address v \<noteq> 0" "bm_val (vo_cow obj) (fault_page address v)" "prot_write (vr_prot v)"
  shows "\<exists>w' vs' obj'. fault_present reclaim w vs v (fault_page address v) = Some (Inr (Inr (), w', vs')) \<and>
     served A w vs address v obj w' vs' obj'"
proof -
  note f = fault_in_facts[OF F]
  let ?pg = "fault_page address v" and ?ph = "vw_phys w"
  from try_cow_page_any[OF f(3,4,2,6) p(2), of reclaim] obtain q c mm' where
    q: "try_cow_page reclaim obj ?ph ?pg = Some (Inr (Inr (), obj\<lparr>vo_pages := (vo_pages obj)[?pg := q], vo_cow := c\<rparr>,
       \<lparr>ph_mm = mm', ph_frames = (ph_frames ?ph)(q := ph_frames ?ph (vo_pages obj ! ?pg))\<rparr>))" "q \<in> V" "bm_get c ?pg = Inr False"
    by blast
  let ?o = "obj\<lparr>vo_pages := (vo_pages obj)[?pg := q], vo_cow := c\<rparr>"
  from fault_map[OF F, of ?o False] q(2,3) f(5,6) obtain pd' where
    pd': "pd_map (vs_pd vs) v (vm_object.truncate ?o) (?pg * PAGE_SIZE) PAGE_SIZE = Inr pd'"
      "user_map pd' = (user_map (vs_pd vs))(address div PAGE_SIZE \<mapsto> (q, prot_write (vr_prot v)))" by (auto simp: page_is_cow_def)
  let ?w = "put_object w (vr_object v) (AnonObj ?o)
    \<lparr>ph_mm = mm', ph_frames = (ph_frames ?ph)(q := ph_frames ?ph (vo_pages obj ! ?pg))\<rparr>"
  from f(1,8) p q(1) pd'(1) have "fault_present reclaim w vs v ?pg = Some (Inr (Inr (), ?w, vs\<lparr>vs_pd := pd'\<rparr>))"
    by (simp add: fault_present_def lift_step_def Let_def)
  moreover have "served A w vs address v obj ?w (vs\<lparr>vs_pd := pd'\<rparr>) ?o"
    using pd'(2) p(1) f(5,6) q(2) by (auto simp: served_def put_object_def page_content_def)
  ultimately show ?thesis by blast
qed

lemma fault_here_served:
  assumes F: "fault_in A V w vs address v obj" "vr_object_start v = 0"
    and p: "vo_pages obj ! fault_page address v \<noteq> 0" "\<not> (prot_write (vr_prot v) \<and> bm_val (vo_cow obj) (fault_page address v))"
  shows "\<exists>w' vs' obj'. fault_present reclaim w vs v (fault_page address v) = Some (Inr (Inr (), w', vs')) \<and>
     served A w vs address v obj w' vs' obj'"
proof -
  note f = fault_in_facts[OF F]
  let ?pg = "fault_page address v" and ?w = "put_object w (vr_object v) (AnonObj obj) (vw_phys w)"
  note A = object_ok_page(1)[OF f(2,6) p(1)]
  from fault_map[OF F f(6) A f(8)] p(2) obtain pd' where
    pd': "pd_map (vs_pd vs) v (vm_object.truncate obj) (?pg * PAGE_SIZE) PAGE_SIZE = Inr pd'"
      "user_map pd' = (user_map (vs_pd vs))(address div PAGE_SIZE \<mapsto> (vo_pages obj ! ?pg, prot_write (vr_prot v)))" by auto
  from p f(1,8) pd'(1) have "fault_present reclaim w vs v ?pg = Some (Inr (Inr (), ?w, vs\<lparr>vs_pd := pd'\<rparr>))"
    by (auto simp: fault_present_def Let_def)
  moreover have "served A w vs address v obj ?w (vs\<lparr>vs_pd := pd'\<rparr>) obj"
    using pd'(2) p(1) A by (auto simp: served_def put_object_def page_content_def)
  ultimately show ?thesis by blast
qed

text \<open>
  C3: page faults in user space. When memory is available, a permitted fault in a region that maps an
  anonymous object from its start is served: the faulting page, and no other, is mapped to the
  object's page with the region's write permission. A page that was absent reads as zeros, a page
  marked for copy on write keeps its contents in a private copy when the region is writable.
\<close>

theorem pagefault_served:
  assumes "fault_in A V w vs address v obj" and "\<not> prot_denies (vr_prot v) type" and "vr_object_start v = 0"
  shows "\<exists>w' vs' obj'. try_pagefault reclaim rd w vs address type = Some (Inr (Inr (), w', vs')) \<and>
     vw_objects w' = (vw_objects w)(vr_object v := AnonObj obj') \<and>
     (let page = (address - vr_start v) div PAGE_SIZE in
      vo_pages obj' ! page \<noteq> 0 \<and>
      user_map (vs_pd vs') = (user_map (vs_pd vs))
        (address div PAGE_SIZE \<mapsto> (vo_pages obj' ! page, prot_write (vr_prot v))) \<and>
      page_content (vw_phys w') obj' page =
        (if vo_pages obj ! page = 0 then zero_frame else page_content (vw_phys w) obj page))"
proof -
  have "\<exists>w' vs' obj'. try_pagefault reclaim rd w vs address type = Some (Inr (Inr (), w', vs')) \<and>
      served A w vs address v obj w' vs' obj'"
    using try_pagefault_dispatch[OF assms(1,2), folded fault_page_def, of reclaim rd] assms(3)
      fault_absent_served[OF assms(1,3)] fault_cow_served[OF assms(1,3)] fault_here_served[OF assms(1,3)]
    by (cases "vo_pages obj ! fault_page address v = 0";
        cases "prot_write (vr_prot v) \<and> bm_val (vo_cow obj) (fault_page address v)") auto
  with fault_in_facts(7)[OF assms(1,3)] show ?thesis
    unfolding Let_def fault_page_def[symmetric] served_def by metis
qed

text \<open>In a region with an offset, the loop of \<open>map\<close> adds the offset to an index that already has it.\<close>

lemma pd_map_one_far:
  assumes pd: "dir_ok pd" and rd: "prot_read (vr_prot v)" and hi: "vr_start v + vr_size v < 2 ^ 32"
    and i: "(i + 1) * PAGE_SIZE \<le> vr_start v + vr_size v" "vr_start v div PAGE_SIZE + i < 768 * 1024"
    and far: "far = i + vr_object_start v div PAGE_SIZE" "far < length (vo_pages obj)" "vo_pages obj ! far < 2 ^ 20"
    and cow: "page_is_cow obj i = Inr cow"
  shows "\<exists>pd'. pd_map pd v obj (i * PAGE_SIZE) PAGE_SIZE = Inr pd' \<and>
     user_map pd' = (if vo_pages obj ! far = 0 then user_map pd else (user_map pd)
       (vr_start v div PAGE_SIZE + i \<mapsto> (vo_pages obj ! far, \<not> cow \<and> prot_write (vr_prot v))))"
proof -
  let ?prot = "(vr_prot v)\<lparr>prot_write := \<not> cow \<and> prot_write (vr_prot v)\<rparr>"
  from map_page_refines[OF pd i(2) far(3), of ?prot] obtain pd' where
    m: "map_page pd (vr_start v div PAGE_SIZE + i) (vo_pages obj ! far) ?prot = Inr (Inr (), pd')"
      "user_map pd' = (user_map pd)(vr_start v div PAGE_SIZE + i \<mapsto> (vo_pages obj ! far, \<not> cow \<and> prot_write (vr_prot v)))"
    by auto
  have a: "add32 (i * PAGE_SIZE) PAGE_SIZE = (i + 1) * PAGE_SIZE" "vr_end v = vr_start v + vr_size v"
    using i(1) hi by (simp_all add: add32_less vr_end_def)
  have "(i + 1) * PAGE_SIZE div PAGE_SIZE - i = Suc 0" by simp
  with rd a i(1) have "pd_map pd v obj (i * PAGE_SIZE) PAGE_SIZE = map_pages pd v obj i (Suc 0)"
    by (simp add: pd_map_def Let_def del: map_pages.simps add_mult_distrib)
  also have "\<dots> = Inr (if vo_pages obj ! far = 0 then pd else pd')"
    using m(1) far(1,2) cow by (cases cow) (simp_all add: physical_page_index_def)
  finally show ?thesis using m(2) by auto
qed

text \<open>
  C25: a permitted fault in a region that maps an anonymous object from a later offset
  \<open>object_start\<close>, on an object page that is present and need not be copied. Where the assertions of
  \<open>map\<close> hold (the offset is at most the address of the region, and the object still has the page at
  twice the offset), the handler always reports success, but the offset has been counted twice: it
  maps, at \<open>object_start\<close> bytes behind the fault, the object page at twice the offset, or nothing if
  that page is absent. The faulting page keeps the mapping it had, so the access faults again.
\<close>

theorem pagefault_offset_unserved:
  assumes "fault_in A V w vs address v obj" and "\<not> prot_denies (vr_prot v) type"
    and "PAGE_SIZE \<le> vr_object_start v" and "vr_object_start v \<le> vr_start v"
    and "vr_start v + vr_object_start v + vr_size v \<le> HIGHER_HALF"
    and "op = fault_page address v + vr_object_start v div PAGE_SIZE" and "vo_pages obj ! op \<noteq> 0"
    and "\<not> (prot_write (vr_prot v) \<and> bm_val (vo_cow obj) op)"
    and "far = op + vr_object_start v div PAGE_SIZE" and "far < length (vo_pages obj)"
  shows "\<exists>w' vs'. try_pagefault reclaim rd w vs address type = Some (Inr (Inr (), w', vs')) \<and>
     user_map (vs_pd vs') (address div PAGE_SIZE) = user_map (vs_pd vs) (address div PAGE_SIZE) \<and>
     user_map (vs_pd vs') = (if vo_pages obj ! far = 0 then user_map (vs_pd vs) else (user_map (vs_pd vs))
       (address div PAGE_SIZE + vr_object_start v div PAGE_SIZE \<mapsto> (vo_pages obj ! far, prot_write (vr_prot v))))"
proof -
  note D = fault_inD[OF assms(1), folded fault_page_def]
  have o: "vw_objects w (vr_object v) = AnonObj obj" "op < bm_cap (vo_cow obj)" "dir_ok (vs_pd vs)" "prot_read (vr_prot v)"
    using assms(1,6) D(2) by (auto simp: fault_in_def object_ok_def)
  then have cow: "page_is_cow obj op = Inr (bm_val (vo_cow obj) op)" by (simp add: page_is_cow_def bm.get_val)
  have page: "vr_start v div PAGE_SIZE + op = address div PAGE_SIZE + vr_object_start v div PAGE_SIZE"
    using D(3) assms(6) by simp
  have ops: "vr_object_start v div PAGE_SIZE * PAGE_SIZE \<le> vr_object_start v" by (rule div_times_less_eq_dividend)
  have end_: "(op + 1) * PAGE_SIZE \<le> vr_start v + vr_size v" using D(1) ops assms(4,6) by simp
  have low: "vr_start v div PAGE_SIZE + op < 768 * 1024"
  proof -
    have "vr_start v div PAGE_SIZE * PAGE_SIZE \<le> vr_start v" by (rule div_times_less_eq_dividend)
    then have "(vr_start v div PAGE_SIZE + op + 1) * PAGE_SIZE \<le> vr_start v + vr_object_start v + vr_size v"
      using D(1) ops assms(6) by simp
    with assms(5) show ?thesis by simp
  qed
  have "object_ok A V (ph_mm (vw_phys w)) obj" "A \<subseteq> {0 <..< 2 ^ 20}" using assms(1) by (simp_all add: fault_in_def)
  then have "vo_pages obj ! far < 2 ^ 20"
    using object_ok_page(1)[of A V "ph_mm (vw_phys w)" obj far] assms(10) by (cases "vo_pages obj ! far = 0") auto
  with pd_map_one_far[OF o(3,4) _ end_ low assms(9), of "vm_object.truncate obj"] assms(5,8,10) cow page obtain pd' where
    m: "pd_map (vs_pd vs) v (vm_object.truncate obj) (op * PAGE_SIZE) PAGE_SIZE = Inr pd'"
      "user_map pd' = (if vo_pages obj ! far = 0 then user_map (vs_pd vs) else (user_map (vs_pd vs))
         (address div PAGE_SIZE + vr_object_start v div PAGE_SIZE \<mapsto> (vo_pages obj ! far, prot_write (vr_prot v))))" by auto
  have "try_pagefault reclaim rd w vs address type =
      Some (Inr (Inr (), put_object w (vr_object v) (AnonObj obj) (vw_phys w), vs\<lparr>vs_pd := pd'\<rparr>))"
    using try_pagefault_dispatch[OF assms(1,2), folded fault_page_def, folded assms(6), of reclaim rd] assms(7,8) m(1) o(1) cow
    by (auto simp: fault_present_def Let_def)
  moreover have "0 < vr_object_start v div PAGE_SIZE" using assms(3) by (simp add: div_greater_zero_iff)
  ultimately show ?thesis using m(2) by simp
qed

definition demo_region :: "nat \<Rightarrow> vm_region" where
  "demo_region ostart = \<lparr>vr_id = 0, vr_object = 0, vr_start = 4096, vr_size = 4096, vr_object_start = ostart, vr_prot = VMProt_RW\<rparr>"

definition demo_mapped :: "nat \<Rightarrow> vm_space" where
  "demo_mapped ostart = \<lparr>vs_start = 4096, vs_size = 4096,
     vs_regions = [\<lparr>sr_start = 4096, sr_size = 4096, sr_used = True, sr_vm = Some (demo_region ostart)\<rparr>],
     vs_used = 4096, vs_pd = page_dir_new init_paging\<rparr>"

lemma demo_fault_in:
  assumes "mm_avail {1 ..< 3} mm V" "V \<noteq> {}" "object_ok {1 ..< 3} V mm obj" "2 \<le> length (vo_pages obj)" "ostart \<in> {0, 4096}"
  shows "fault_in {1 ..< 3} V \<lparr>vw_objects = \<lambda>_. AnonObj obj, vw_phys = \<lparr>ph_mm = mm, ph_frames = fr\<rparr>\<rparr> (demo_mapped ostart) 4100
    (demo_region ostart) obj"
  using assms dir_ok_new
  by (auto simp: fault_in_def demo_mapped_def demo_region_def get_region_containing_def region_found_def sr_contains_def
      sr_end_def add32_def vr_contains_def vr_end_def VMProt_RW_def)

theorem pagefault_served_witness:
  "\<exists>w w' vs'. try_pagefault (\<lambda>m. (0, m)) (\<lambda>_ start n buf. (0, buf)) w (demo_mapped 0) 4100 FaultWrite = Some (Inr (Inr (), w', vs')) \<and>
     user_map (vs_pd vs') 1 \<noteq> None"
proof -
  from demo_memory obtain mm p where mm: "mm_avail {1 ..< 3} mm ({1 ..< 3} - {p})" "{1 ..< 3} - {p} \<noteq> {}" by blast
  from bm_new_val[of 0 2 False] obtain c where c: "2 \<le> bm_cap c" "\<forall>i < bm_cap c. \<not> bm_val c i" by auto
  let ?obj = "anon_of \<lparr>vo_pages = [0, 0], vo_cow = c, vo_size = 8192\<rparr> 0"
  have "object_ok {1 ..< 3} ({1 ..< 3} - {p}) mm ?obj" using c by (auto simp: object_ok_def anon_of_def)
  from demo_fault_in[OF mm this, of 0 "\<lambda>_. zero_frame"]
  have f: "fault_in {1 ..< 3} ({1 ..< 3} - {p}) \<lparr>vw_objects = \<lambda>_. AnonObj ?obj, vw_phys = \<lparr>ph_mm = mm, ph_frames = \<lambda>_. zero_frame\<rparr>\<rparr>
      (demo_mapped 0) 4100 (demo_region 0) ?obj" by (simp add: anon_of_def)
  have "\<not> prot_denies (vr_prot (demo_region 0)) FaultWrite" "vr_object_start (demo_region 0) = 0"
    by (simp_all add: prot_denies_def demo_region_def VMProt_RW_def)
  from pagefault_served[OF f this, of "\<lambda>m. (0, m)" "\<lambda>_ start n buf. (0, buf)"] obtain w' vs' obj' where
    r: "try_pagefault (\<lambda>m. (0, m)) (\<lambda>_ start n buf. (0, buf)) \<lparr>vw_objects = \<lambda>_. AnonObj ?obj,
        vw_phys = \<lparr>ph_mm = mm, ph_frames = \<lambda>_. zero_frame\<rparr>\<rparr> (demo_mapped 0) 4100 FaultWrite = Some (Inr (Inr (), w', vs'))"
      "\<exists>x. user_map (vs_pd vs') = (user_map (vs_pd (demo_mapped 0)))(4100 div PAGE_SIZE \<mapsto> x)" unfolding Let_def by blast
  then have "user_map (vs_pd vs') 1 \<noteq> None" by auto
  with r(1) show ?thesis by blast
qed

theorem pagefault_offset_unserved_witness:
  "\<exists>w w' vs'. try_pagefault (\<lambda>m. (0, m)) (\<lambda>_ start n buf. (0, buf)) w (demo_mapped 4096) 4100 FaultRead = Some (Inr (Inr (), w', vs')) \<and>
     user_map (vs_pd vs') 1 = None"
proof -
  from demo_memory obtain mm p where
    mm: "mm_avail {1 ..< 3} mm ({1 ..< 3} - {p})" "{1 ..< 3} - {p} \<noteq> {}" "p \<in> {1 ..< 3}" "refs mm p = 1" by blast
  from bm_new_val[of 0 3 False] obtain c where c: "3 \<le> bm_cap c" "\<forall>i < bm_cap c. \<not> bm_val c i" by auto
  let ?obj = "anon_of \<lparr>vo_pages = [0, p, 0], vo_cow = c, vo_size = 12288\<rparr> 0"
  let ?w = "\<lparr>vw_objects = \<lambda>_. AnonObj ?obj, vw_phys = \<lparr>ph_mm = mm, ph_frames = \<lambda>_. zero_frame\<rparr>\<rparr>"
  have "object_ok {1 ..< 3} ({1 ..< 3} - {p}) mm ?obj" using c mm(3,4) by (auto simp: object_ok_def anon_of_def)
  from demo_fault_in[OF mm(1,2) this, of 4096 "\<lambda>_. zero_frame"]
  have f: "fault_in {1 ..< 3} ({1 ..< 3} - {p}) ?w (demo_mapped 4096) 4100 (demo_region 4096) ?obj" by (simp add: anon_of_def)
  have r: "\<not> prot_denies (vr_prot (demo_region 4096)) FaultRead" "fault_page 4100 (demo_region 4096) = 0"
    "vr_object_start (demo_region 4096) = 4096" "vr_start (demo_region 4096) = 4096" "vr_size (demo_region 4096) = 4096"
    by (simp_all add: prot_denies_def demo_region_def VMProt_RW_def fault_page_def)
  have p1: "vo_pages ?obj ! 1 \<noteq> 0" "\<not> bm_val (vo_cow ?obj) 1" "2 < length (vo_pages ?obj)"
    using mm(3) c by (auto simp: anon_of_def)
  have h: "PAGE_SIZE \<le> vr_object_start (demo_region 4096)" "vr_object_start (demo_region 4096) \<le> vr_start (demo_region 4096)"
    "vr_start (demo_region 4096) + vr_object_start (demo_region 4096) + vr_size (demo_region 4096) \<le> HIGHER_HALF"
    "1 = fault_page 4100 (demo_region 4096) + vr_object_start (demo_region 4096) div PAGE_SIZE"
    "\<not> (prot_write (vr_prot (demo_region 4096)) \<and> bm_val (vo_cow ?obj) 1)"
    "2 = 1 + vr_object_start (demo_region 4096) div PAGE_SIZE" using p1(2) by (simp_all add: r)
  from pagefault_offset_unserved[OF f r(1) h(1-4) p1(1) h(5,6) p1(3), of "\<lambda>m. (0, m)" "\<lambda>_ start n buf. (0, buf)"] obtain w' vs' where
    t: "try_pagefault (\<lambda>m. (0, m)) (\<lambda>_ start n buf. (0, buf)) ?w (demo_mapped 4096) 4100 FaultRead = Some (Inr (Inr (), w', vs'))"
      "user_map (vs_pd vs') (4100 div PAGE_SIZE) = user_map (vs_pd (demo_mapped 4096)) (4100 div PAGE_SIZE)" by blast
  from t(2) have "user_map (vs_pd vs') 1 = None" by (simp add: demo_mapped_def user_map_new)
  with t(1) show ?thesis by blast
qed

end
