(* ===== verification/ByteBlocks.thy ===== *)
theory ByteBlocks
  imports Prelude
begin

text \<open>
  Storage in blocks of equal size: the vocabulary that the drive, its cache, the file systems and
  their lemmas share. A device is a function from block numbers to blocks (byte lists); it is also
  one long sequence of bytes. \<open>memcpy\<close> into the middle of a buffer is \<open>patch\<close>.
\<close>

section \<open>Buffers\<close>

definition patch :: "'a list \<Rightarrow> nat \<Rightarrow> 'a list \<Rightarrow> 'a list" where
  "patch buf off src = take off buf @ src @ drop (off + length src) buf"

definition memcpy_to :: "'a list \<Rightarrow> nat \<Rightarrow> 'a list \<Rightarrow> 'a list run" where
  "memcpy_to buf off src =
     (if off + length src \<le> length buf then Inr (patch buf off src) else Inl OutOfBounds)"

definition memcpy_from :: "'a list \<Rightarrow> nat \<Rightarrow> nat \<Rightarrow> 'a list run" where
  "memcpy_from buf off n =
     (if off + n \<le> length buf then Inr (take n (drop off buf)) else Inl OutOfBounds)"

definition chunk :: "nat \<Rightarrow> 'a list \<Rightarrow> nat \<Rightarrow> 'a list" where
  "chunk n xs i = take n (drop (i * n) xs)"

lemma length_patch [simp]: "off + length src \<le> length buf \<Longrightarrow> length (patch buf off src) = length buf"
  by (simp add: patch_def)

lemma nth_patch:
  "off + length src \<le> length buf \<Longrightarrow> i < length buf \<Longrightarrow>
   patch buf off src ! i = (if off \<le> i \<and> i < off + length src then src ! (i - off) else buf ! i)"
  by (auto simp: patch_def nth_append not_less)

lemma memcpy_to_ok [simp]:
  "off + length src \<le> length buf \<Longrightarrow> memcpy_to buf off src = Inr (patch buf off src)"
  by (simp add: memcpy_to_def)

lemma memcpy_from_ok [simp]:
  "off + n \<le> length buf \<Longrightarrow> memcpy_from buf off n = Inr (take n (drop off buf))"
  by (simp add: memcpy_from_def)

lemma patch_all: "length src = length buf \<Longrightarrow> patch buf 0 src = src"
  by (simp add: patch_def)

lemma length_chunk: "length (chunk n xs i) = min n (length xs - i * n)"
  by (simp add: chunk_def)

lemma chunk_full [simp]: "Suc i * n \<le> length xs \<Longrightarrow> length (chunk n xs i) = n"
  by (simp add: chunk_def)

lemma nth_chunk: "j < n \<Longrightarrow> i * n + j < length xs \<Longrightarrow> chunk n xs i ! j = xs ! (i * n + j)"
  by (simp add: chunk_def)

lemma chunk_append1: "Suc i * n \<le> length xs \<Longrightarrow> chunk n (xs @ ys) i = chunk n xs i"
  by (simp add: chunk_def)

lemma chunk_append2:
  "length xs = k * n \<Longrightarrow> k \<le> i \<Longrightarrow> chunk n (xs @ ys) i = chunk n ys (i - k)"
  by (simp add: chunk_def diff_mult_distrib)

lemma chunk_patch_other:
  assumes "off + length src \<le> length buf" "Suc i * n \<le> length buf"
    "Suc i * n \<le> off \<or> off + length src \<le> i * n"
  shows "chunk n (patch buf off src) i = chunk n buf i"
proof (rule nth_equalityI)
  fix j
  assume "j < length (chunk n (patch buf off src) i)"
  with assms(1,2) have j: "j < n" by simp
  with assms(2) have le: "i * n + j < length buf" by simp
  with j assms show "chunk n (patch buf off src) i ! j = chunk n buf i ! j"
    by (auto simp: nth_chunk nth_patch)
qed (use assms in simp)

lemma chunk_patch_same:
  assumes "Suc i * n \<le> length buf" "length src = n"
  shows "chunk n (patch buf (i * n) src) i = src"
proof (rule nth_equalityI)
  have le: "i * n + length src \<le> length buf" using assms by simp
  then show "length (chunk n (patch buf (i * n) src) i) = length src"
    using assms by simp
  fix j
  assume "j < length (chunk n (patch buf (i * n) src) i)"
  with assms le have "j < n" by simp
  with assms le show "chunk n (patch buf (i * n) src) i ! j = src ! j"
    by (simp add: nth_chunk nth_patch)
qed

section \<open>Runs of blocks\<close>

definition read_run :: "(nat \<Rightarrow> 'a list) \<Rightarrow> nat \<Rightarrow> nat \<Rightarrow> 'a list" where
  "read_run f b n = concat (map f [b..<b + n])"

definition put_run :: "nat \<Rightarrow> (nat \<Rightarrow> 'a list) \<Rightarrow> nat \<Rightarrow> 'a list \<Rightarrow> nat \<Rightarrow> 'a list" where
  "put_run bs f b xs s = (if b \<le> s \<and> s < b + length xs div bs then chunk bs xs (s - b) else f s)"

definition sized :: "nat \<Rightarrow> (nat \<Rightarrow> 'a list) \<Rightarrow> bool" where
  "sized bs f \<longleftrightarrow> (\<forall>s. length (f s) = bs)"

lemma sizedD: "sized bs f \<Longrightarrow> length (f s) = bs"
  by (simp add: sized_def)

lemma read_run_0 [simp]: "read_run f b 0 = []"
  by (simp add: read_run_def)

lemma read_run_Suc: "read_run f b (Suc n) = f b @ read_run f (Suc b) n"
proof -
  have "[b..<b + Suc n] = b # [Suc b..<Suc b + n]" 
    using upt_conv_Cons[of b "b + Suc n"] by (simp only: add_Suc_right add_Suc less_add_Suc1 simp_thms)
  then show ?thesis by (simp only: read_run_def list.map concat.simps)
qed

lemma read_run_add: "read_run f b (m + n) = read_run f b m @ read_run f (b + m) n"
proof -
  have "[b..<b + (m + n)] = [b..<b + m] @ [b + m..<b + m + n]"
    using upt_add_eq_append[of b "b + m" n] by (simp only: add.assoc le_add1 simp_thms)
  then show ?thesis by (simp only: read_run_def map_append concat_append)
qed

lemma length_read_run [simp]: "sized bs f \<Longrightarrow> length (read_run f b n) = n * bs"
  by (induction n arbitrary: b) (simp_all add: read_run_Suc sized_def)

lemma chunk_read_run: "sized bs f \<Longrightarrow> i < n \<Longrightarrow> chunk bs (read_run f b n) i = f (b + i)"
proof (induction n arbitrary: b i)
  case (Suc n)
  then show ?case
  proof (cases i)
    case 0
    then show ?thesis using Suc.prems by (simp add: read_run_Suc chunk_def sized_def)
  next
    case (Suc k)
    then have "chunk bs (f b @ read_run f (Suc b) n) i = chunk bs (read_run f (Suc b) n) k"
      using Suc.prems by (simp add: chunk_def sized_def)
    with Suc Suc.IH[of k "Suc b"] Suc.prems show ?thesis by (simp add: read_run_Suc)
  qed
qed simp

lemma read_run_cong: "(\<And>s. b \<le> s \<Longrightarrow> s < b + n \<Longrightarrow> f s = g s) \<Longrightarrow> read_run f b n = read_run g b n"
  unfolding read_run_def by (intro arg_cong[of _ _ concat] map_cong) auto

lemma put_run_Nil [simp]: "put_run bs f b [] = f"
  by (rule ext) (auto simp: put_run_def)

lemma sized_put_run [simp]: "sized bs f \<Longrightarrow> sized bs (put_run bs f b xs)"
proof -
  assume f: "sized bs f"
  have "length (chunk bs xs (s - b)) = bs" if "b \<le> s" "s < b + length xs div bs" for s
  proof -
    have "Suc (s - b) \<le> length xs div bs" using that by simp
    then have "Suc (s - b) * bs \<le> (length xs div bs) * bs" by (rule mult_le_mono1)
    also have "\<dots> \<le> length xs" by simp
    finally show ?thesis by simp
  qed
  with f show ?thesis by (simp add: sized_def put_run_def)
qed

lemma put_run_append:
  assumes "length xs = m * bs" "0 < bs"
  shows "put_run bs (put_run bs f b xs) (b + m) ys = put_run bs f b (xs @ ys)"
proof
  fix s
  have len: "length (xs @ ys) div bs = m + length ys div bs" using assms by simp
  have c1: "chunk bs (xs @ ys) (s - b) = chunk bs xs (s - b)" if "s - b < m"
    using assms that by (intro chunk_append1) (metis Suc_leI mult_le_mono1)
  have c2: "chunk bs (xs @ ys) (s - b) = chunk bs ys (s - (b + m))" if "b + m \<le> s"
    using chunk_append2[of xs m bs "s - b" ys] assms that by simp
  show "put_run bs (put_run bs f b xs) (b + m) ys s = put_run bs f b (xs @ ys) s"
    unfolding put_run_def len using assms c1 c2 by (cases "s < b + m") auto
qed

lemma put_run_one: "length x = bs \<Longrightarrow> 0 < bs \<Longrightarrow> put_run bs f b x = f(b := x)"
  by (rule ext) (auto simp: put_run_def chunk_def)

lemma read_run_put_run:
  assumes "sized bs f" "length xs = n * bs" "0 < bs"
  shows "read_run (put_run bs f b xs) b n = xs"
proof -
  have "chunk bs (read_run (put_run bs f b xs) b n) i = chunk bs xs i" if "i < n" for i
    using assms that by (simp add: chunk_read_run put_run_def)
  moreover have "length (read_run (put_run bs f b xs) b n) = length xs" using assms by simp
  ultimately show ?thesis
  proof (intro nth_equalityI)
    fix j
    assume eq: "\<And>i. i < n \<Longrightarrow> chunk bs (read_run (put_run bs f b xs) b n) i = chunk bs xs i"
      and len: "length (read_run (put_run bs f b xs) b n) = length xs"
      and j: "j < length (read_run (put_run bs f b xs) b n)"
    let ?ys = "read_run (put_run bs f b xs) b n"
    have i: "j div bs < n" using j len assms(2,3) by (simp add: less_mult_imp_div_less)
    have split: "j div bs * bs + j mod bs = j" by simp
    have m: "j mod bs < bs" using assms(3) by simp
    have "?ys ! j = chunk bs ?ys (j div bs) ! (j mod bs)"
      using nth_chunk[OF m, of "j div bs" ?ys] j split by simp
    also have "\<dots> = chunk bs xs (j div bs) ! (j mod bs)" using eq[OF i] by simp
    also have "\<dots> = xs ! j" using nth_chunk[OF m, of "j div bs" xs] j len split by simp
    finally show "?ys ! j = xs ! j" .
  qed simp
qed

section \<open>Devices as sequences of bytes\<close>

definition byte_at :: "nat \<Rightarrow> (nat \<Rightarrow> 'a list) \<Rightarrow> nat \<Rightarrow> 'a" where
  "byte_at bs f k = f (k div bs) ! (k mod bs)"

definition bytes_at :: "nat \<Rightarrow> (nat \<Rightarrow> 'a list) \<Rightarrow> nat \<Rightarrow> nat \<Rightarrow> 'a list" where
  "bytes_at bs f off n = map (byte_at bs f) [off..<off + n]"

text \<open>The device after the bytes \<open>xs\<close> were stored from byte \<open>off\<close> on.\<close>

definition put_bytes :: "nat \<Rightarrow> (nat \<Rightarrow> 'a list) \<Rightarrow> nat \<Rightarrow> 'a list \<Rightarrow> nat \<Rightarrow> 'a list" where
  "put_bytes bs f off xs s =
     map (\<lambda>j. if off \<le> s * bs + j \<and> s * bs + j < off + length xs then xs ! (s * bs + j - off) else f s ! j) [0..<bs]"

lemma length_bytes_at [simp]: "length (bytes_at bs f off n) = n"
  by (simp add: bytes_at_def)

lemma nth_bytes_at [simp]: "i < n \<Longrightarrow> bytes_at bs f off n ! i = byte_at bs f (off + i)"
  by (simp add: bytes_at_def)

lemma sized_put_bytes [simp]: "sized bs (put_bytes bs f off xs)"
  by (simp add: sized_def put_bytes_def)

lemma byte_at_put_bytes:
  "0 < bs \<Longrightarrow> byte_at bs (put_bytes bs f off xs) k =
     (if off \<le> k \<and> k < off + length xs then xs ! (k - off) else byte_at bs f k)"
  by (simp add: byte_at_def put_bytes_def)

lemma bytes_at_put_bytes: "0 < bs \<Longrightarrow> bytes_at bs (put_bytes bs f off xs) off (length xs) = xs"
  by (rule nth_equalityI) (simp_all add: byte_at_put_bytes)

lemma bytes_at_add: "bytes_at bs f off (m + n) = bytes_at bs f off m @ bytes_at bs f (off + m) n"
proof -
  have "[off..<off + (m + n)] = [off..<off + m] @ [off + m..<off + m + n]"
    using upt_add_eq_append[of off "off + m" n] by (simp only: add.assoc le_add1 simp_thms)
  then show ?thesis by (simp only: bytes_at_def map_append)
qed

lemma put_bytes_Nil: "sized bs f \<Longrightarrow> put_bytes bs f off [] = f"
proof
  fix s
  assume "sized bs f"
  then have "length (f s) = bs" by (rule sizedD)
  then have "put_bytes bs f off [] s = map ((!) (f s)) [0..<length (f s)]"
    unfolding put_bytes_def by (intro map_cong) auto
  then show "put_bytes bs f off [] s = f s" by (simp only: map_nth)
qed

lemma put_bytes_append:
  "put_bytes bs (put_bytes bs f off xs) (off + length xs) ys = put_bytes bs f off (xs @ ys)"
proof
  fix s
  show "put_bytes bs (put_bytes bs f off xs) (off + length xs) ys s = put_bytes bs f off (xs @ ys) s"
  proof (rule nth_equalityI)
    fix j
    assume "j < length (put_bytes bs (put_bytes bs f off xs) (off + length xs) ys s)"
    then have j: "j < bs" by (simp add: put_bytes_def)
    define k where "k = s * bs + j"
    show "put_bytes bs (put_bytes bs f off xs) (off + length xs) ys s ! j = put_bytes bs f off (xs @ ys) s ! j"
      using j by (cases "k < off + length xs"; cases "off \<le> k")
        (auto simp: put_bytes_def nth_append k_def[symmetric])
  qed (simp add: put_bytes_def)
qed

text \<open>Bytes inside one block: the slice that the copy loops take.\<close>

lemma bytes_at_in_block:
  assumes "sized bs f" "n \<le> bs - k mod bs" "0 < bs"
  shows "bytes_at bs f k n = take n (drop (k mod bs) (f (k div bs)))"
proof (rule nth_equalityI)
  show "length (bytes_at bs f k n) = length (take n (drop (k mod bs) (f (k div bs))))"
    using assms by (simp add: sizedD[OF assms(1)])
  fix i
  assume "i < length (bytes_at bs f k n)"
  then have i: "i < n" by simp
  have lt: "k mod bs + i < bs" using i assms mod_less_divisor[OF assms(3), of k] by linarith
  have "(k + i) div bs = k div bs \<and> (k + i) mod bs = k mod bs + i"
  proof -
    have "k + i = (k mod bs + i) + k div bs * bs" using div_mult_mod_eq[of k bs] by simp
    then show ?thesis using lt assms(3) by (simp only: div_mult_self1 mod_mult_self1) simp
  qed
  with i lt assms show "bytes_at bs f k n ! i = take n (drop (k mod bs) (f (k div bs))) ! i"
    by (simp add: byte_at_def sizedD[OF assms(1)])
qed

lemma put_bytes_in_block:
  assumes f: "sized bs f" and n: "k mod bs + length xs \<le> bs" and bs: "0 < bs"
  shows "put_bytes bs f k xs = f(k div bs := patch (f (k div bs)) (k mod bs) xs)"
proof
  fix s
  have k: "k = k div bs * bs + k mod bs" by simp
  have len: "length (f s) = bs" using f by (rule sizedD)
  have m: "k mod bs < bs" using bs by simp
  show "put_bytes bs f k xs s = (f(k div bs := patch (f (k div bs)) (k mod bs) xs)) s"
  proof (cases "s = k div bs")
    case True
    have "put_bytes bs f k xs s ! j = patch (f s) (k mod bs) xs ! j" if "j < bs" for j
    proof -
      have "k \<le> s * bs + j \<longleftrightarrow> k mod bs \<le> j" "s * bs + j < k + length xs \<longleftrightarrow> j < k mod bs + length xs"
        "s * bs + j - k = j - k mod bs"
        using True k by (linarith | (unfold True; linarith))+
      with that n len show ?thesis by (simp add: put_bytes_def nth_patch)
    qed
    then have "put_bytes bs f k xs s = patch (f s) (k mod bs) xs"
      using n len by (intro nth_equalityI) (simp_all add: put_bytes_def)
    with True show ?thesis by simp
  next
    case False
    have out: "\<not> (k \<le> s * bs + j \<and> s * bs + j < k + length xs)" if "j < bs" for j
    proof
      assume a: "k \<le> s * bs + j \<and> s * bs + j < k + length xs"
      then have "s * bs + j < k div bs * bs + bs" using n k by linarith
      then have "s * bs < Suc (k div bs) * bs" by simp
      then have "s < Suc (k div bs)" by (metis mult_less_cancel2)
      moreover have "k div bs * bs < Suc s * bs" using a that k mult_Suc[of s bs] by linarith
      then have "k div bs < Suc s" by (metis mult_less_cancel2)
      ultimately show False using False by simp
    qed
    have "put_bytes bs f k xs s = map ((!) (f s)) [0..<length (f s)]"
      unfolding put_bytes_def by (intro map_cong) (use out len in auto)
    then have "put_bytes bs f k xs s = f s" by (simp only: map_nth)
    with False show ?thesis by simp
  qed
qed

end
