(* ===== verification/PataDrive.thy ===== *)
theory PataDrive
  imports ByteBlocks
begin

text \<open>
  The parallel ATA driver (\<open>kernel/arch/i386/device/PATADevice.cpp\<close>): programming of the command
  registers, the DMA and PIO transfers and the splitting of long transfers. The drive itself is
  hardware: the record \<open>drive_hw\<close> has one function per command, which takes the drive and the
  register file and gives the data and the drive after the command. What the driver relies on is
  \<open>drive_ok\<close>: a 28-bit command works on the sectors that the registers name.
\<close>

unbundle bit_operations_syntax

section \<open>Registers and the drive\<close>

datatype ata_reg = ATA_SECCNT0 | ATA_LBA0 | ATA_LBA1 | ATA_LBA2 | ATA_DRIVESEL | ATA_COMMAND

type_synonym ata_regs = "ata_reg \<Rightarrow> u8"

record 'd drive_hw =
  hw_read_dma :: "'d \<Rightarrow> ata_regs \<Rightarrow> u8 list option"
  hw_write_dma :: "'d \<Rightarrow> ata_regs \<Rightarrow> u8 list \<Rightarrow> 'd \<times> bool"
  hw_read_pio :: "'d \<Rightarrow> ata_regs \<Rightarrow> u16 list"
  hw_write_pio :: "'d \<Rightarrow> ata_regs \<Rightarrow> u16 list \<Rightarrow> 'd"
  hw_sector :: "'d \<Rightarrow> nat \<Rightarrow> u8 list"

record 'd pata =
  pa_hw :: "'d drive_hw"
  pa_drive :: 'd
  pa_regs :: ata_regs
  pa_slave :: bool
  pa_use_pio :: bool
  pa_lba48 :: bool
  pa_max_addressable_block :: nat
  pa_dma_size :: nat

abbreviation ATA_MAX_SECTORS_AT_ONCE :: nat where "ATA_MAX_SECTORS_AT_ONCE \<equiv> 8"

abbreviation SECTOR :: nat where "SECTOR \<equiv> 512"

definition READ_PIO :: u8 where "READ_PIO = 0x20"
definition READ_DMA :: u8 where "READ_DMA = 0xC8"
definition WRITE_PIO :: u8 where "WRITE_PIO = 0x30"
definition WRITE_DMA :: u8 where "WRITE_DMA = 0xCA"

fun outb_all :: "(ata_reg \<times> u8) list \<Rightarrow> ata_regs \<Rightarrow> ata_regs" where
  "outb_all [] r = r"
| "outb_all ((reg, v) # outs) r = outb_all outs (r(reg := v))"

definition lba_byte :: "nat \<Rightarrow> nat \<Rightarrow> u8" where
  "lba_byte lba sh = word_of_nat (drop_bit sh lba)"

definition access_drive :: "'d pata \<Rightarrow> u8 \<Rightarrow> nat \<Rightarrow> u8 \<Rightarrow> (ata_reg \<times> u8) list" where
  "access_drive p command lba num_sectors =
     (if pa_lba48 p
      then [(ATA_DRIVESEL, 0x40 OR (if pa_slave p then 0x10 else 0)),
            (ATA_SECCNT0, 0), (ATA_LBA0, lba_byte lba 24), (ATA_LBA1, 0), (ATA_LBA2, 0),
            (ATA_SECCNT0, num_sectors), (ATA_LBA0, lba_byte lba 0), (ATA_LBA1, lba_byte lba 8),
            (ATA_LBA2, lba_byte lba 16)]
      else [(ATA_DRIVESEL, 0xE0 OR (if pa_slave p then 0x10 else 0) OR (lba_byte lba 24 AND 0x0F)),
            (ATA_SECCNT0, num_sectors), (ATA_LBA0, lba_byte lba 0), (ATA_LBA1, lba_byte lba 8),
            (ATA_LBA2, lba_byte lba 16)])
     @ [(ATA_COMMAND, command)]"

definition send_command :: "'d pata \<Rightarrow> u8 \<Rightarrow> nat \<Rightarrow> nat \<Rightarrow> 'd pata" where
  "send_command p command lba num_sectors =
     p\<lparr>pa_regs := outb_all (access_drive p command lba (word_of_nat num_sectors)) (pa_regs p)\<rparr>"

section \<open>Transfers\<close>

definition read_sectors_dma :: "'d pata \<Rightarrow> nat \<Rightarrow> nat \<Rightarrow> ((u8 list) ret \<times> 'd pata) run" where
  "read_sectors_dma p lba num_sectors =
     bindR (assertR (num_sectors \<le> ATA_MAX_SECTORS_AT_ONCE)) (\<lambda>_.
     if num_sectors * SECTOR > pa_dma_size p then Inr (Inl EINVAL, p)
     else
       let p' = send_command p READ_DMA lba num_sectors in
       (case hw_read_dma (pa_hw p') (pa_drive p') (pa_regs p') of
          None \<Rightarrow> Inr (Inl EIO, p')
        | Some dma \<Rightarrow> bindR (memcpy_from dma 0 (SECTOR * num_sectors)) (\<lambda>buf. Inr (Inr buf, p'))))"

definition write_sectors_dma :: "'d pata \<Rightarrow> nat \<Rightarrow> nat \<Rightarrow> u8 list \<Rightarrow> (unit ret \<times> 'd pata) run" where
  "write_sectors_dma p lba num_sectors buf =
     bindR (assertR (num_sectors \<le> ATA_MAX_SECTORS_AT_ONCE)) (\<lambda>_.
     if num_sectors * SECTOR > pa_dma_size p then Inr (Inl EINVAL, p)
     else
       bindR (memcpy_from buf 0 (SECTOR * num_sectors)) (\<lambda>dma.
         let p' = send_command p WRITE_DMA lba num_sectors;
             (drive, done) = hw_write_dma (pa_hw p') (pa_drive p') (pa_regs p') dma;
             p'' = p'\<lparr>pa_drive := drive\<rparr> in
         Inr (if done then Inr () else Inl EIO, p'')))"

text \<open>The data port is 16 bits wide, the low byte first.\<close>

definition word_bytes :: "u16 \<Rightarrow> u8 list" where
  "word_bytes tmp = [ucast tmp, ucast (drop_bit 8 tmp)]"

fun bytes_words :: "u8 list \<Rightarrow> u16 list" where
  "bytes_words (lo # hi # rest) = (ucast lo OR push_bit 8 (ucast hi)) # bytes_words rest"
| "bytes_words _ = []"

definition read_sectors_pio :: "'d pata \<Rightarrow> nat \<Rightarrow> nat \<Rightarrow> u8 list \<times> 'd pata" where
  "read_sectors_pio p sector sectors =
     (let p' = send_command p READ_PIO sector sectors;
          ws = hw_read_pio (pa_hw p') (pa_drive p') (pa_regs p') in
      (concat (map word_bytes (take (256 * sectors) ws)), p'))"

definition write_sectors_pio :: "'d pata \<Rightarrow> nat \<Rightarrow> nat \<Rightarrow> u8 list \<Rightarrow> 'd pata run" where
  "write_sectors_pio p sector sectors buffer =
     bindR (memcpy_from buffer 0 (SECTOR * sectors)) (\<lambda>bs.
       let p' = send_command p WRITE_PIO sector sectors in
       Inr (p'\<lparr>pa_drive := hw_write_pio (pa_hw p') (pa_drive p') (pa_regs p') (bytes_words bs)\<rparr>))"

text \<open>
  The chunk loops. A read returns what it has stored in the buffer, also when it stops with an
  error, because the caller keeps the buffer.
\<close>

fun read_chunks_dma :: "'d pata \<Rightarrow> nat \<Rightarrow> nat \<Rightarrow> nat \<Rightarrow> nat \<Rightarrow> (unit ret \<times> u8 list \<times> 'd pata) run" where
  "read_chunks_dma p block i 0 count = Inr (Inr (), [], p)"
| "read_chunks_dma p block i (Suc chunks) count =
     (let num_sectors = min ATA_MAX_SECTORS_AT_ONCE count in
      bindR (read_sectors_dma p (add32 block (i * ATA_MAX_SECTORS_AT_ONCE)) num_sectors) (\<lambda>(res, p').
        case res of
          Inl e \<Rightarrow> Inr (Inl e, [], p')
        | Inr buf \<Rightarrow>
            bindR (read_chunks_dma p' block (Suc i) chunks (count - num_sectors)) (\<lambda>(res', rest, p'').
              Inr (res', buf @ rest, p''))))"

function read_chunks_pio :: "'d pata \<Rightarrow> nat \<Rightarrow> nat \<Rightarrow> u8 list \<times> 'd pata" where
  "read_chunks_pio p block count =
     (if count = 0 then ([], p)
      else
        let to_read = min count 255;
            (buf, p') = read_sectors_pio p block to_read;
            (rest, p'') = read_chunks_pio p' (add32 block to_read) (count - to_read) in
        (buf @ rest, p''))"
  by pat_completeness auto
termination
  by (relation "measure (\<lambda>(p, block, count). count)") auto

definition num_chunks :: "nat \<Rightarrow> nat" where
  "num_chunks count = (count + ATA_MAX_SECTORS_AT_ONCE - 1) div ATA_MAX_SECTORS_AT_ONCE"

definition read_uncached_blocks :: "'d pata \<Rightarrow> nat \<Rightarrow> nat \<Rightarrow> (unit ret \<times> u8 list \<times> 'd pata) run" where
  "read_uncached_blocks p block count =
     (if \<not> pa_use_pio p then read_chunks_dma p block 0 (num_chunks count) count
      else (let (buf, p') = read_chunks_pio p block count in Inr (Inr (), buf, p')))"

fun write_chunks_dma :: "'d pata \<Rightarrow> nat \<Rightarrow> nat \<Rightarrow> nat \<Rightarrow> nat \<Rightarrow> u8 list \<Rightarrow> (unit ret \<times> 'd pata) run" where
  "write_chunks_dma p block i 0 count buffer = Inr (Inr (), p)"
| "write_chunks_dma p block i (Suc chunks) count buffer =
     (let num_sectors = min ATA_MAX_SECTORS_AT_ONCE count in
      bindR (write_sectors_dma p (add32 block (i * ATA_MAX_SECTORS_AT_ONCE)) num_sectors
               (drop (512 * i * ATA_MAX_SECTORS_AT_ONCE) buffer)) (\<lambda>(res, p').
        case res of
          Inl e \<Rightarrow> Inr (Inl e, p')
        | Inr _ \<Rightarrow> write_chunks_dma p' block (Suc i) chunks (count - num_sectors) buffer))"

function write_chunks_pio :: "'d pata \<Rightarrow> nat \<Rightarrow> nat \<Rightarrow> u8 list \<Rightarrow> 'd pata run" where
  "write_chunks_pio p block count buffer =
     (if count = 0 then Inr p
      else
        let to_write = min count 255 in
        bindR (write_sectors_pio p block to_write buffer) (\<lambda>p'.
          write_chunks_pio p' (add32 block to_write) (count - to_write) (drop (to_write * 512) buffer)))"
  by pat_completeness auto
termination
  by (relation "measure (\<lambda>(p, block, count, buffer). count)") auto

definition write_uncached_blocks :: "'d pata \<Rightarrow> nat \<Rightarrow> nat \<Rightarrow> u8 list \<Rightarrow> (unit ret \<times> 'd pata) run" where
  "write_uncached_blocks p block count buffer =
     (if \<not> pa_use_pio p then write_chunks_dma p block 0 (num_chunks count) count buffer
      else bindR (write_chunks_pio p block count buffer) (\<lambda>p'. Inr (Inr (), p')))"

declare read_chunks_pio.simps [simp del] write_chunks_pio.simps [simp del]

section \<open>What a drive does\<close>

definition ata28_lba :: "ata_regs \<Rightarrow> nat" where
  "ata28_lba r = unat (r ATA_LBA0) + 256 * unat (r ATA_LBA1) + 65536 * unat (r ATA_LBA2) +
     16777216 * (unat (r ATA_DRIVESEL) mod 16)"

definition ata28_count :: "ata_regs \<Rightarrow> nat" where
  "ata28_count r = (if r ATA_SECCNT0 = 0 then 256 else unat (r ATA_SECCNT0))"

text \<open>The commands on sectors below \<open>cap\<close> succeed and move the data of the named sectors.\<close>

definition drive_ok :: "'d drive_hw \<Rightarrow> nat \<Rightarrow> bool" where
  "drive_ok hw cap \<longleftrightarrow>
     (\<forall>d. sized SECTOR (hw_sector hw d)) \<and>
     (\<forall>d r. ata28_lba r + ata28_count r \<le> cap \<longrightarrow>
        hw_read_dma hw d r = Some (read_run (hw_sector hw d) (ata28_lba r) (ata28_count r)) \<and>
        hw_read_pio hw d r = bytes_words (read_run (hw_sector hw d) (ata28_lba r) (ata28_count r))) \<and>
     (\<forall>d r data. ata28_lba r + ata28_count r \<le> cap \<and> length data = SECTOR * ata28_count r \<longrightarrow>
        snd (hw_write_dma hw d r data) \<and>
        hw_sector hw (fst (hw_write_dma hw d r data)) = put_run SECTOR (hw_sector hw d) (ata28_lba r) data \<and>
        hw_sector hw (hw_write_pio hw d r (bytes_words data)) = put_run SECTOR (hw_sector hw d) (ata28_lba r) data)"

definition pata_ok :: "'d pata \<Rightarrow> nat \<Rightarrow> bool" where
  "pata_ok p cap \<longleftrightarrow> drive_ok (pa_hw p) cap \<and> pa_dma_size p = 4096 \<and>
     cap \<le> (if pa_lba48 p then 2 ^ 24 else 2 ^ 28)"

abbreviation sectors :: "'d pata \<Rightarrow> nat \<Rightarrow> u8 list" where
  "sectors p \<equiv> hw_sector (pa_hw p) (pa_drive p)"


section \<open>Addresses\<close>

lemma unat_lba_byte: "unat (lba_byte lba sh) = (lba div 2 ^ sh) mod 256"
  by (simp add: lba_byte_def unsigned_of_nat take_bit_eq_mod drop_bit_eq_div)

lemma unat_mod_16: "unat (w :: u8) mod 16 = unat (w AND 0x0F)"
proof -
  have "w AND 0x0F = take_bit 4 w" by (simp add: take_bit_eq_mask mask_eq_exp_minus_1)
  then have "unat (w AND 0x0F) = take_bit 4 (unat w)" by (simp only: unsigned_take_bit_eq)
  then show ?thesis by (simp add: take_bit_eq_mod[of 4 "unat w"])
qed

lemma drivesel_low:
  "unat (0xE0 OR (if s then 0x10 else 0) OR (b AND 0x0F) :: u8) mod 16 = unat b mod 16"
  "unat (0x40 OR (if s then 0x10 else 0) :: u8) mod 16 = 0"
  by (simp_all add: unat_mod_16 bit.conj_disj_distrib2 and.assoc)

lemma digits256:
  "n mod 256 + 256 * (n div 256 mod 256) + 65536 * (n div 65536 mod 256) = n mod 16777216"
  for n :: nat
proof -
  have "n mod 16777216 = 65536 * (n div 65536 mod 256) + n mod 65536"
    using mod_mult2_eq[of n 65536 256] by simp
  moreover have "n mod 65536 = 256 * (n div 256 mod 256) + n mod 256"
    using mod_mult2_eq[of n 256 256] by simp
  ultimately show ?thesis by simp
qed

lemma registers_lba:
  "ata28_lba (pa_regs (send_command p c lba n)) = lba mod (if pa_lba48 p then 2 ^ 24 else 2 ^ 28)"
proof (cases "pa_lba48 p")
  case True
  then show ?thesis
    using digits256[of lba]
    by (simp add: send_command_def access_drive_def ata28_lba_def unat_lba_byte drivesel_low)
next
  case False
  have "lba mod 268435456 = 16777216 * (lba div 16777216 mod 16) + lba mod 16777216"
    using mod_mult2_eq[of lba 16777216 16] by simp
  moreover have "lba div 16777216 mod 256 mod 16 = lba div 16777216 mod 16"
    by (simp add: mod_mod_cancel)
  ultimately show ?thesis
    using False digits256[of lba]
    by (simp add: send_command_def access_drive_def ata28_lba_def unat_lba_byte drivesel_low)
qed

lemma registers_count:
  assumes "0 < n" "n < 256"
  shows "ata28_count (pa_regs (send_command p c lba n)) = n"
proof -
  have "unat (word_of_nat n :: u8) = n" using assms by (simp add: unsigned_of_nat take_bit_eq_mod)
  moreover from this have "(word_of_nat n :: u8) \<noteq> 0" using assms by (metis less_numeral_extra(3) unsigned_0)
  ultimately show ?thesis by (simp add: send_command_def access_drive_def ata28_count_def)
qed

lemma send_command_simps [simp]:
  "pa_hw (send_command p c lba n) = pa_hw p" "pa_drive (send_command p c lba n) = pa_drive p"
  "pa_slave (send_command p c lba n) = pa_slave p" "pa_use_pio (send_command p c lba n) = pa_use_pio p"
  "pa_lba48 (send_command p c lba n) = pa_lba48 p" "pa_dma_size (send_command p c lba n) = pa_dma_size p"
  "pa_max_addressable_block (send_command p c lba n) = pa_max_addressable_block p"
  by (simp_all add: send_command_def)

section \<open>Transfers are exact\<close>

lemma bytes_words_round_trip: "even (length bs) \<Longrightarrow> concat (map word_bytes (bytes_words bs)) = bs"
proof (induction bs rule: bytes_words.induct)
  case (1 lo hi rest)
  have "ucast (ucast lo OR push_bit 8 (ucast hi) :: u16) = lo"
    by (rule bit_eqI) (simp add: bit_simps)
  moreover have "ucast (drop_bit 8 (ucast lo OR push_bit 8 (ucast hi) :: u16)) = hi"
    by (rule bit_eqI) (auto simp: bit_simps dest: bit_imp_le_length)
  ultimately show ?case using 1 by (simp add: word_bytes_def)
qed simp_all

lemma length_bytes_words: "length (bytes_words bs) = length bs div 2"
  by (induction bs rule: bytes_words.induct) simp_all

text \<open>\<open>same_device p q\<close>: only the registers and the contents of the drive may differ.\<close>

definition same_device :: "'d pata \<Rightarrow> 'd pata \<Rightarrow> bool" where
  "same_device p q \<longleftrightarrow> pa_hw q = pa_hw p \<and> pa_slave q = pa_slave p \<and> pa_use_pio q = pa_use_pio p \<and>
     pa_lba48 q = pa_lba48 p \<and> pa_dma_size q = pa_dma_size p \<and>
     pa_max_addressable_block q = pa_max_addressable_block p"

lemma same_deviceD:
  assumes "same_device p q"
  shows "pa_hw q = pa_hw p" "pa_use_pio q = pa_use_pio p" "pa_lba48 q = pa_lba48 p"
    "pa_dma_size q = pa_dma_size p" "pa_max_addressable_block q = pa_max_addressable_block p"
    "pata_ok q cap = pata_ok p cap"
  using assms by (auto simp: same_device_def pata_ok_def)

lemma same_device_refl [simp]: "same_device p p"
  by (simp add: same_device_def)

lemma same_device_trans: "same_device p q \<Longrightarrow> same_device q r \<Longrightarrow> same_device p r"
  by (simp add: same_device_def)

lemma same_device_send [simp]: "same_device p (send_command p c lba n)"
  by (simp add: same_device_def)

lemma same_device_send_drive [simp]: "same_device p ((send_command p c lba n)\<lparr>pa_drive := d\<rparr>)"
  by (simp add: same_device_def)

lemma pata_ok_command:
  assumes "pata_ok p cap" "lba + n \<le> cap" "0 < n" "n < 256"
  shows "ata28_lba (pa_regs (send_command p c lba n)) = lba"
    "ata28_count (pa_regs (send_command p c lba n)) = n"
proof -
  have "lba < (if pa_lba48 p then 2 ^ 24 else 2 ^ 28)" using assms by (auto simp: pata_ok_def)
  then show "ata28_lba (pa_regs (send_command p c lba n)) = lba"
    unfolding registers_lba by (rule mod_less)
  show "ata28_count (pa_regs (send_command p c lba n)) = n"
    by (rule registers_count) (use assms in simp_all)
qed

lemma pata_ok_hw:
  assumes "pata_ok p cap"
  shows "sized SECTOR (sectors p)"
    "ata28_lba r + ata28_count r \<le> cap \<Longrightarrow>
       hw_read_dma (pa_hw p) (pa_drive p) r = Some (read_run (sectors p) (ata28_lba r) (ata28_count r))"
    "ata28_lba r + ata28_count r \<le> cap \<Longrightarrow>
       hw_read_pio (pa_hw p) (pa_drive p) r = bytes_words (read_run (sectors p) (ata28_lba r) (ata28_count r))"
    "ata28_lba r + ata28_count r \<le> cap \<Longrightarrow> length data = SECTOR * ata28_count r \<Longrightarrow>
       \<exists>d. hw_write_dma (pa_hw p) (pa_drive p) r data = (d, True) \<and>
           hw_sector (pa_hw p) d = put_run SECTOR (sectors p) (ata28_lba r) data"
    "ata28_lba r + ata28_count r \<le> cap \<Longrightarrow> length data = SECTOR * ata28_count r \<Longrightarrow>
       hw_sector (pa_hw p) (hw_write_pio (pa_hw p) (pa_drive p) r (bytes_words data)) =
         put_run SECTOR (sectors p) (ata28_lba r) data"
proof -
  have ok: "drive_ok (pa_hw p) cap" using assms by (simp add: pata_ok_def)
  show "sized SECTOR (sectors p)" using ok by (simp add: drive_ok_def)
  show "hw_read_dma (pa_hw p) (pa_drive p) r = Some (read_run (sectors p) (ata28_lba r) (ata28_count r))"
    "hw_read_pio (pa_hw p) (pa_drive p) r = bytes_words (read_run (sectors p) (ata28_lba r) (ata28_count r))"
    if "ata28_lba r + ata28_count r \<le> cap" using ok that by (simp_all add: drive_ok_def)
  assume a: "ata28_lba r + ata28_count r \<le> cap" "length data = SECTOR * ata28_count r"
  with ok have "snd (hw_write_dma (pa_hw p) (pa_drive p) r data)"
    "hw_sector (pa_hw p) (fst (hw_write_dma (pa_hw p) (pa_drive p) r data)) =
       put_run SECTOR (sectors p) (ata28_lba r) data"
    by (simp_all add: drive_ok_def)
  then show "\<exists>d. hw_write_dma (pa_hw p) (pa_drive p) r data = (d, True) \<and>
      hw_sector (pa_hw p) d = put_run SECTOR (sectors p) (ata28_lba r) data"
    by (cases "hw_write_dma (pa_hw p) (pa_drive p) r data") auto
  from a ok show "hw_sector (pa_hw p) (hw_write_pio (pa_hw p) (pa_drive p) r (bytes_words data)) =
      put_run SECTOR (sectors p) (ata28_lba r) data"
    by (simp add: drive_ok_def)
qed

lemma read_sectors_dma_exact:
  assumes ok: "pata_ok p cap" and n: "lba + n \<le> cap" "0 < n" "n \<le> 8"
  shows "read_sectors_dma p lba n = Inr (Inr (read_run (sectors p) lba n), send_command p READ_DMA lba n)"
proof -
  note r = pata_ok_command[OF ok n(1,2), of READ_DMA]
  have "hw_read_dma (pa_hw p) (pa_drive p) (pa_regs (send_command p READ_DMA lba n)) =
      Some (read_run (sectors p) lba n)"
    using pata_ok_hw(2)[OF ok, of "pa_regs (send_command p READ_DMA lba n)"] r n by simp
  moreover have "length (read_run (sectors p) lba n) = n * 512"
    using pata_ok_hw(1)[OF ok] by simp
  ultimately show ?thesis
    using ok n by (simp add: read_sectors_dma_def Let_def pata_ok_def)
qed

lemma write_sectors_dma_exact:
  assumes ok: "pata_ok p cap" and n: "lba + n \<le> cap" "0 < n" "n \<le> 8" and buf: "512 * n \<le> length buf"
  shows "\<exists>q. write_sectors_dma p lba n buf = Inr (Inr (), q) \<and> same_device p q \<and>
           sectors q = put_run SECTOR (sectors p) lba (take (512 * n) buf)"
proof -
  let ?c = "send_command p WRITE_DMA lba n"
  note r = pata_ok_command[OF ok n(1,2), of WRITE_DMA]
  obtain d where d: "hw_write_dma (pa_hw p) (pa_drive p) (pa_regs ?c) (take (512 * n) buf) = (d, True)"
    "hw_sector (pa_hw p) d = put_run SECTOR (sectors p) lba (take (512 * n) buf)"
    using pata_ok_hw(4)[OF ok, of "pa_regs ?c" "take (512 * n) buf"] r n buf by auto
  then show ?thesis
    using ok n buf by (simp add: write_sectors_dma_def Let_def pata_ok_def)
qed

lemma read_sectors_pio_exact:
  assumes ok: "pata_ok p cap" and n: "lba + n \<le> cap" "0 < n" "n < 256"
  shows "read_sectors_pio p lba n = (read_run (sectors p) lba n, send_command p READ_PIO lba n)"
proof -
  let ?run = "read_run (sectors p) lba n"
  note r = pata_ok_command[OF ok n, of READ_PIO]
  have len: "length ?run = n * 512" using pata_ok_hw(1)[OF ok] by simp
  have "hw_read_pio (pa_hw p) (pa_drive p) (pa_regs (send_command p READ_PIO lba n)) = bytes_words ?run"
    using pata_ok_hw(3)[OF ok, of "pa_regs (send_command p READ_PIO lba n)"] r n by simp
  then show ?thesis
    using bytes_words_round_trip[of ?run] len by (simp add: read_sectors_pio_def Let_def length_bytes_words)
qed

lemma write_sectors_pio_exact:
  assumes ok: "pata_ok p cap" and n: "lba + n \<le> cap" "0 < n" "n < 256" and buf: "512 * n \<le> length buf"
  shows "\<exists>q. write_sectors_pio p lba n buf = Inr q \<and> same_device p q \<and>
           sectors q = put_run SECTOR (sectors p) lba (take (512 * n) buf)"
proof -
  let ?c = "send_command p WRITE_PIO lba n"
  note r = pata_ok_command[OF ok n, of WRITE_PIO]
  have "hw_sector (pa_hw p) (hw_write_pio (pa_hw p) (pa_drive p) (pa_regs ?c) (bytes_words (take (512 * n) buf))) =
      put_run SECTOR (sectors p) lba (take (512 * n) buf)"
    using pata_ok_hw(5)[OF ok, of "pa_regs ?c" "take (512 * n) buf"] r n buf by simp
  with n buf show ?thesis by (simp add: write_sectors_pio_def Let_def)
qed

lemma pata_ok_small: "pata_ok p cap \<Longrightarrow> cap < 2 ^ 32"
  by (auto simp: pata_ok_def split: if_splits)

lemma num_chunks_step:
  assumes "num_chunks count = Suc k"
  shows "0 < count" "num_chunks (count - min 8 count) = k"
proof -
  show c: "0 < count" using assms by (cases count) (simp_all add: num_chunks_def)
  show "num_chunks (count - min 8 count) = k"
  proof (cases "count \<le> 8")
    case True
    then have "(count + 7) div 8 = 1" using c by linarith
    with True assms show ?thesis by (simp add: num_chunks_def)
  next
    case False
    then have "count + 7 = (count - 8 + 7) + 8" by simp
    then have "(count + 7) div 8 = Suc ((count - 8 + 7) div 8)" by (metis div_add_self2 Suc_eq_plus1 zero_neq_numeral)
    with False assms show ?thesis by (simp add: num_chunks_def)
  qed
qed

lemma read_chunks_dma_exact:
  assumes "pata_ok p cap" "block + i * 8 + count \<le> cap" "chunks = num_chunks count"
  shows "\<exists>q. read_chunks_dma p block i chunks count =
             Inr (Inr (), read_run (sectors p) (block + i * 8) count, q) \<and>
           same_device p q \<and> pa_drive q = pa_drive p"
  using assms
proof (induction chunks arbitrary: p i count)
  case 0
  then have "count = 0" by (simp add: num_chunks_def)
  then show ?case by simp
next
  case (Suc chunks)
  let ?n = "min 8 count" and ?b = "block + i * 8"
  note c = num_chunks_step[OF Suc.prems(3)[symmetric]]
  let ?p = "send_command p READ_DMA ?b ?n"
  have b: "add32 block (i * 8) = ?b"
    using Suc.prems(2) pata_ok_small[OF Suc.prems(1)] by (intro add32_less) simp
  have rd: "read_sectors_dma p ?b ?n = Inr (Inr (read_run (sectors p) ?b ?n), ?p)"
    using Suc.prems c by (intro read_sectors_dma_exact) auto
  have ok: "pata_ok ?p cap" using Suc.prems(1) same_deviceD(6)[OF same_device_send] by metis
  have last: "read_run (sectors p) (block + Suc i * 8) (count - ?n) =
      read_run (sectors p) (?b + ?n) (count - ?n)"
    by (cases "count \<le> 8") (simp_all add: add.assoc add.commute[of 8])
  have bound: "block + Suc i * 8 + (count - ?n) \<le> cap \<or> count - ?n = 0" using Suc.prems(2) by auto
  obtain q where q: "read_chunks_dma ?p block (Suc i) chunks (count - ?n) =
      Inr (Inr (), read_run (sectors p) (?b + ?n) (count - ?n), q)" "same_device ?p q" "pa_drive q = pa_drive p"
  proof (cases "count - ?n = 0")
    case True
    with c(2) have "chunks = 0" by (simp add: num_chunks_def)
    with True show ?thesis by (intro that[of ?p]) simp_all
  next
    case False
    with bound have "block + Suc i * 8 + (count - ?n) \<le> cap" by blast
    from Suc.IH[OF ok this c(2)[symmetric]] obtain q where
      "read_chunks_dma ?p block (Suc i) chunks (count - ?n) =
         Inr (Inr (), read_run (sectors p) (block + Suc i * 8) (count - ?n), q)"
      "same_device ?p q" "pa_drive q = pa_drive p" by (metis send_command_simps(1,2))
    then show ?thesis using last by (intro that[of q]) simp_all
  qed
  have "read_run (sectors p) ?b count = read_run (sectors p) ?b ?n @ read_run (sectors p) (?b + ?n) (count - ?n)"
    using read_run_add[of "sectors p" ?b ?n "count - ?n"] by simp
  moreover have "same_device p q" using same_device_trans[OF same_device_send q(2)] .
  ultimately show ?case using b rd q by (simp add: Let_def)
qed

lemma write_chunks_dma_exact:
  assumes "pata_ok p cap" "block + i * 8 + count \<le> cap" "chunks = num_chunks count"
    "length buffer = 512 * (i * 8 + count)"
  shows "\<exists>q. write_chunks_dma p block i chunks count buffer = Inr (Inr (), q) \<and> same_device p q \<and>
           sectors q = put_run SECTOR (sectors p) (block + i * 8) (drop (512 * i * 8) buffer)"
  using assms
proof (induction chunks arbitrary: p i count)
  case 0
  then have "count = 0" by (simp add: num_chunks_def)
  with 0 show ?case by simp
next
  case (Suc chunks)
  let ?n = "min 8 count" and ?b = "block + i * 8" and ?rest = "drop (512 * i * 8) buffer"
  note c = num_chunks_step[OF Suc.prems(3)[symmetric]]
  have b: "add32 block (i * 8) = ?b"
    using Suc.prems(2) pata_ok_small[OF Suc.prems(1)] by (intro add32_less) simp
  have len: "length ?rest = 512 * count" using Suc.prems(4) by simp
  obtain p1 where p1: "write_sectors_dma p ?b ?n ?rest = Inr (Inr (), p1)" "same_device p p1"
    "sectors p1 = put_run SECTOR (sectors p) ?b (take (512 * ?n) ?rest)"
    using write_sectors_dma_exact[OF Suc.prems(1), of ?b ?n ?rest] Suc.prems(2) c len by auto
  have ok: "pata_ok p1 cap" using Suc.prems(1) same_deviceD(6)[OF p1(2)] by metis
  show ?case
  proof (cases "count \<le> 8")
    case True
    with c(2) have "chunks = 0" by (simp add: num_chunks_def)
    with True len b p1 show ?thesis by (simp add: Let_def)
  next
    case False
    then have l: "length buffer = 512 * (Suc i * 8 + (count - ?n))" "block + Suc i * 8 + (count - ?n) \<le> cap"
      using Suc.prems by simp_all
    from Suc.IH[OF ok l(2) c(2)[symmetric] l(1)] obtain q where
      q: "write_chunks_dma p1 block (Suc i) chunks (count - ?n) buffer = Inr (Inr (), q)" "same_device p1 q"
        "sectors q = put_run SECTOR (sectors p1) (block + Suc i * 8) (drop (512 * Suc i * 8) buffer)" by blast
    have "put_run SECTOR (put_run SECTOR (sectors p) ?b (take 4096 ?rest)) (?b + 8) (drop 4096 ?rest) =
        put_run SECTOR (sectors p) ?b (take 4096 ?rest @ drop 4096 ?rest)"
      using False len by (intro put_run_append) simp_all
    moreover have "block + Suc i * 8 = ?b + 8" "drop (512 * Suc i * 8) buffer = drop 4096 ?rest"
      "take (512 * ?n) ?rest = take 4096 ?rest"
      using False by (simp_all add: algebra_simps)
    ultimately have "sectors q = put_run SECTOR (sectors p) ?b ?rest"
      using q(3) p1(3) by (simp only: append_take_drop_id)
    with q p1 b same_device_trans[OF p1(2) q(2)] show ?thesis by (simp add: Let_def)
  qed
qed

lemma read_chunks_pio_exact:
  assumes "pata_ok p cap" "block + count \<le> cap"
  shows "\<exists>q. read_chunks_pio p block count = (read_run (sectors p) block count, q) \<and>
           same_device p q \<and> pa_drive q = pa_drive p"
  using assms
proof (induction p block count rule: read_chunks_pio.induct)
  case (1 p block count)
  let ?n = "min count 255" and ?p = "send_command p READ_PIO block (min count 255)"
  show ?case
  proof (cases "count = 0")
    case True
    then show ?thesis by (subst read_chunks_pio.simps) simp
  next
    case False
    have rd: "read_sectors_pio p block ?n = (read_run (sectors p) block ?n, ?p)"
      using "1.prems" False by (intro read_sectors_pio_exact) auto
    have ok: "pata_ok ?p cap" using "1.prems"(1) same_deviceD(6)[OF same_device_send] by metis
    have b: "add32 block ?n = block + ?n"
      using "1.prems"(2) pata_ok_small[OF "1.prems"(1)] by (intro add32_less) simp
    have "block + ?n + (count - ?n) \<le> cap" using "1.prems"(2) by simp
    with "1.IH"[OF False refl rd[symmetric] refl] ok b obtain q where
      q: "read_chunks_pio ?p (block + ?n) (count - ?n) = (read_run (sectors ?p) (block + ?n) (count - ?n), q)"
        "same_device ?p q" "pa_drive q = pa_drive p" by auto
    have "read_run (sectors p) block count = read_run (sectors p) block ?n @ read_run (sectors p) (block + ?n) (count - ?n)"
      using read_run_add[of "sectors p" block ?n "count - ?n"] by simp
    with False rd q b same_device_trans[OF same_device_send q(2)] show ?thesis
      by (subst read_chunks_pio.simps) (simp add: Let_def)
  qed
qed

lemma write_chunks_pio_exact:
  assumes "pata_ok p cap" "block + count \<le> cap" "length buffer = 512 * count"
  shows "\<exists>q. write_chunks_pio p block count buffer = Inr q \<and> same_device p q \<and>
           sectors q = put_run SECTOR (sectors p) block buffer"
  using assms
proof (induction p block count buffer rule: write_chunks_pio.induct)
  case (1 p block count buffer)
  let ?n = "min count 255"
  show ?case
  proof (cases "count = 0")
    case True
    with "1.prems" show ?thesis by (subst write_chunks_pio.simps) simp
  next
    case False
    obtain p1 where p1: "write_sectors_pio p block ?n buffer = Inr p1" "same_device p p1"
      "sectors p1 = put_run SECTOR (sectors p) block (take (512 * ?n) buffer)"
      using write_sectors_pio_exact[OF "1.prems"(1), of block ?n buffer] "1.prems" False
      by (auto simp: min_less_iff_disj)
    have ok: "pata_ok p1 cap" using "1.prems"(1) same_deviceD(6)[OF p1(2)] by metis
    have b: "add32 block ?n = block + ?n"
      using "1.prems"(2) pata_ok_small[OF "1.prems"(1)] by (intro add32_less) simp
    have l: "block + ?n + (count - ?n) \<le> cap" "length (drop (?n * 512) buffer) = 512 * (count - ?n)"
      using "1.prems" by (simp_all add: diff_mult_distrib2)
    from "1.IH"[OF False refl, of p1] ok l b obtain q where
      q: "write_chunks_pio p1 (block + ?n) (count - ?n) (drop (?n * 512) buffer) = Inr q" "same_device p1 q"
        "sectors q = put_run SECTOR (sectors p1) (block + ?n) (drop (?n * 512) buffer)" by auto
    have "put_run SECTOR (put_run SECTOR (sectors p) block (take (512 * ?n) buffer)) (block + ?n) (drop (512 * ?n) buffer) =
        put_run SECTOR (sectors p) block (take (512 * ?n) buffer @ drop (512 * ?n) buffer)"
      using "1.prems"(3) by (intro put_run_append) simp_all
    then have "sectors q = put_run SECTOR (sectors p) block buffer"
      using q(3) p1(3) by (simp only: append_take_drop_id mult.commute[of ?n])
    with False p1 q b same_device_trans[OF p1(2) q(2)] show ?thesis
      by (subst write_chunks_pio.simps) (simp add: Let_def)
  qed
qed

text \<open>Both transfer modes move exactly the requested sectors.\<close>

lemma read_uncached_exact:
  assumes "pata_ok p cap" "block + count \<le> cap"
  shows "\<exists>q. read_uncached_blocks p block count = Inr (Inr (), read_run (sectors p) block count, q) \<and>
           same_device p q \<and> pa_drive q = pa_drive p"
  using read_chunks_dma_exact[OF assms(1), of block 0 count] read_chunks_pio_exact[OF assms] assms(2)
  by (cases "pa_use_pio p") (auto simp: read_uncached_blocks_def)

lemma write_uncached_exact:
  assumes "pata_ok p cap" "block + count \<le> cap" "length buffer = 512 * count"
  shows "\<exists>q. write_uncached_blocks p block count buffer = Inr (Inr (), q) \<and> same_device p q \<and>
           sectors q = put_run SECTOR (sectors p) block buffer"
  using write_chunks_dma_exact[OF assms(1), of block 0 count _ buffer] write_chunks_pio_exact[OF assms] assms(2,3)
  by (cases "pa_use_pio p") (auto simp: write_uncached_blocks_def)


definition demo_pata :: "bool \<Rightarrow> unit pata" where
  "demo_pata lba48 = \<lparr>pa_hw = \<lparr>hw_read_dma = \<lambda>_ _. None, hw_write_dma = \<lambda>d _ _. (d, False),
     hw_read_pio = \<lambda>_ _. [], hw_write_pio = \<lambda>d _ _. d, hw_sector = \<lambda>_ _. []\<rparr>, pa_drive = (),
     pa_regs = \<lambda>_. 0, pa_slave = False, pa_use_pio = False, pa_lba48 = lba48,
     pa_max_addressable_block = 2 ^ 27, pa_dma_size = 4096\<rparr>"


end
