(* ===== verification/KTime.thy ===== *)
theory KTime
  imports CircularQueue "HOL-Library.Signed_Division"
begin

text \<open>
  Points in time (\<open>kernel/time/Time.cpp\<close>) and the clock that produces them
  (\<open>kernel/time/TimeManager.cpp\<close>). Seconds are 64 bits wide and microseconds a 32-bit \<open>long\<close>; signed
  overflow is undefined in C++, so every sum and product is checked against its width and an
  overflow is the fault \<open>Undefined\<close>. Division truncates towards zero.
\<close>

section \<open>Points in time\<close>

definition fits_width :: "nat \<Rightarrow> int \<Rightarrow> bool" where
  "fits_width w x \<longleftrightarrow> - (2 ^ (w - 1)) \<le> x \<and> x < 2 ^ (w - 1)"

definition chk_width :: "nat \<Rightarrow> int \<Rightarrow> int run" where
  "chk_width w x = (if fits_width w x then Inr x else Inl Undefined)"

record ktime =
  t_sec :: int
  t_usec :: int

record timespec =
  ts_sec :: int
  ts_nsec :: int

record timeval =
  tv_sec :: int
  tv_usec :: int

definition time_zero :: ktime where
  "time_zero = \<lparr>t_sec = 0, t_usec = 0\<rparr>"

definition time_new :: "int \<Rightarrow> int \<Rightarrow> ktime" where
  "time_new sec usec = \<lparr>t_sec = sec, t_usec = usec\<rparr>"

definition time_of_timespec :: "timespec \<Rightarrow> ktime run" where
  "time_of_timespec spec =
     (let usec = ts_nsec spec sdiv 1000 in
      bindR (chk_width 64 (ts_sec spec + usec sdiv 1000000)) (\<lambda>sec.
        Inr \<lparr>t_sec = sec, t_usec = usec smod 1000000\<rparr>))"

definition time_of_timeval :: "timeval \<Rightarrow> ktime run" where
  "time_of_timeval spec =
     bindR (chk_width 64 (tv_sec spec + tv_usec spec sdiv 1000000)) (\<lambda>sec.
       Inr \<lparr>t_sec = sec, t_usec = tv_usec spec smod 1000000\<rparr>)"

definition distant_future :: ktime where
  "distant_future = \<lparr>t_sec = 2147483647, t_usec = 0\<rparr>"

definition to_timespec :: "ktime \<Rightarrow> timespec run" where
  "to_timespec t = bindR (chk_width 32 (t_usec t * 1000)) (\<lambda>ns. Inr \<lparr>ts_sec = t_sec t, ts_nsec = ns\<rparr>)"

definition to_timeval :: "ktime \<Rightarrow> timeval" where
  "to_timeval t = \<lparr>tv_sec = t_sec t, tv_usec = t_usec t\<rparr>"

definition time_add :: "ktime \<Rightarrow> ktime \<Rightarrow> ktime run" where
  "time_add this other =
     bindR (to_timespec this) (\<lambda>spec. bindR (time_of_timespec spec) (\<lambda>ret.
     bindR (chk_width 32 (t_usec ret + t_usec other)) (\<lambda>usec.
     bindR (chk_width 64 (t_sec other + usec sdiv 1000000)) (\<lambda>more.
     bindR (chk_width 64 (t_sec ret + more)) (\<lambda>sec.
       Inr \<lparr>t_sec = sec, t_usec = usec smod 1000000\<rparr>)))))"

definition time_sub :: "ktime \<Rightarrow> ktime \<Rightarrow> ktime run" where
  "time_sub this other =
     bindR (to_timespec this) (\<lambda>spec. bindR (time_of_timespec spec) (\<lambda>ret.
     bindR (chk_width 64 (t_sec ret - t_sec other)) (\<lambda>sec.
     bindR (chk_width 32 (t_usec ret - t_usec other)) (\<lambda>usec.
       if usec < 0
       then bindR (chk_width 64 (sec - (1 + usec sdiv - 1000000))) (\<lambda>sec'.
              Inr \<lparr>t_sec = sec', t_usec = (1000000 - (- usec) smod 1000000) smod 1000000\<rparr>)
       else Inr \<lparr>t_sec = sec, t_usec = usec\<rparr>))))"

definition time_gt :: "ktime \<Rightarrow> ktime \<Rightarrow> bool" where
  "time_gt a b \<longleftrightarrow> t_sec a > t_sec b \<or> (t_sec a = t_sec b \<and> t_usec a > t_usec b)"

definition time_ge :: "ktime \<Rightarrow> ktime \<Rightarrow> bool" where
  "time_ge a b \<longleftrightarrow> t_sec a > t_sec b \<or> (t_sec a = t_sec b \<and> t_usec a \<ge> t_usec b)"

definition time_lt :: "ktime \<Rightarrow> ktime \<Rightarrow> bool" where
  "time_lt a b \<longleftrightarrow> t_sec a < t_sec b \<or> (t_sec a = t_sec b \<and> t_usec a < t_usec b)"

definition time_le :: "ktime \<Rightarrow> ktime \<Rightarrow> bool" where
  "time_le a b \<longleftrightarrow> t_sec a < t_sec b \<or> (t_sec a = t_sec b \<and> t_usec a \<le> t_usec b)"

definition time_eq :: "ktime \<Rightarrow> ktime \<Rightarrow> bool" where
  "time_eq a b \<longleftrightarrow> t_sec a = t_sec b \<and> t_usec a = t_usec b"

section \<open>The clock\<close>

text \<open>
  \<open>TimeManager::tick\<close>: the time stamp counter and whether the processor is idle are read from
  outside and are arguments. \<open>idle_ticks\<close> is a bounded queue of 100 flags.
\<close>

record time_manager =
  tm_epoch :: timeval
  tm_uptime :: timeval
  tm_ticks :: int
  tm_boot_epoch :: int
  tm_tsc_speed :: nat
  tm_idle_ticks :: "bool cq"

definition TimeManager_uptime :: "time_manager option \<Rightarrow> timeval" where
  "TimeManager_uptime inst = (case inst of None \<Rightarrow> \<lparr>tv_sec = 0, tv_usec = 0\<rparr> | Some tm \<Rightarrow> tm_uptime tm)"

definition TimeManager_now :: "time_manager option \<Rightarrow> timeval run" where
  "TimeManager_now inst = (case inst of None \<Rightarrow> Inl NullDeref | Some tm \<Rightarrow> Inr (tm_epoch tm))"

definition time_now :: "time_manager option \<Rightarrow> ktime run" where
  "time_now inst = bindR (TimeManager_now inst) time_of_timeval"

definition TimeManager_tick :: "nat \<Rightarrow> nat \<Rightarrow> bool \<Rightarrow> time_manager \<Rightarrow> time_manager run" where
  "TimeManager_tick tsc initial_tsc idle tm =
     bindR (chk_width 32 (tm_ticks tm + 1)) (\<lambda>ticks.
     bindR (if cq_size (tm_idle_ticks tm) = 100
            then bindR (cq_pop_front (tm_idle_ticks tm)) (\<lambda>(_, q). Inr q)
            else Inr (tm_idle_ticks tm)) (\<lambda>q.
     bindR (cq_push_back q idle) (\<lambda>(_, q').
     if tm_tsc_speed tm = 0 then Inl DivByZero
     else
       let us = ((tsc + 2 ^ 64 - initial_tsc) mod 2 ^ 64) div tm_tsc_speed tm;
           usec = int (us mod 1000000);
           sec = signed_take_bit 31 (int (us div 1000000)) in
       bindR (chk_width 64 (tm_boot_epoch tm + sec)) (\<lambda>esec.
         Inr (tm\<lparr>tm_ticks := ticks, tm_idle_ticks := q',
                 tm_uptime := \<lparr>tv_sec = sec, tv_usec = usec\<rparr>,
                 tm_epoch := \<lparr>tv_sec = esec, tv_usec = usec\<rparr>\<rparr>)))))"

section \<open>Times as numbers of microseconds\<close>

definition time_ok :: "ktime \<Rightarrow> bool" where
  "time_ok t \<longleftrightarrow> 0 \<le> t_usec t \<and> t_usec t < 1000000 \<and> \<bar>t_sec t\<bar> < 2 ^ 61"

definition micros :: "ktime \<Rightarrow> int" where
  "micros t = t_sec t * 1000000 + t_usec t"

lemma width_simps: "fits_width 32 x \<longleftrightarrow> -2147483648 \<le> x \<and> x < 2147483648"
  "fits_width 64 x \<longleftrightarrow> -9223372036854775808 \<le> x \<and> x < 9223372036854775808"
  by (simp_all add: fits_width_def)

lemma sdiv_nonneg: "0 \<le> a \<Longrightarrow> 0 < b \<Longrightarrow> a sdiv b = a div b" for a b :: int
  by (cases "a = 0") (simp_all add: signed_divide_int_def sgn_if)

lemma smod_nonneg: "0 \<le> a \<Longrightarrow> 0 < b \<Longrightarrow> a smod b = a mod b" for a b :: int
  by (cases "a = 0") (simp_all add: signed_modulo_int_def sgn_if)

text \<open>The round trip through \<open>timespec\<close> at the start of the operators loses nothing.\<close>

lemma timespec_round_trip:
  assumes "time_ok t"
  shows "bindR (to_timespec t) time_of_timespec = Inr t"
proof -
  have u: "0 \<le> t_usec t" "t_usec t < 1000000" and s: "\<bar>t_sec t\<bar> < 2 ^ 61"
    using assms by (simp_all add: time_ok_def)
  have "chk_width 32 (t_usec t * 1000) = Inr (t_usec t * 1000)"
    using u by (simp add: chk_width_def width_simps)
  moreover have "t_usec t * 1000 sdiv 1000 = t_usec t" using u by (simp add: sdiv_nonneg)
  moreover have "t_usec t sdiv 1000000 = 0" "t_usec t smod 1000000 = t_usec t"
    using u by (simp_all add: sdiv_nonneg smod_nonneg)
  moreover have "chk_width 64 (t_sec t) = Inr (t_sec t)" using s by (simp add: chk_width_def width_simps abs_less_iff)
  ultimately show ?thesis by (simp add: to_timespec_def time_of_timespec_def)
qed

lemma time_add_exact:
  assumes a: "time_ok a" and b: "time_ok b"
  shows "\<exists>c. time_add a b = Inr c \<and> micros c = micros a + micros b \<and> 0 \<le> t_usec c \<and> t_usec c < 1000000"
proof -
  have ua: "0 \<le> t_usec a" "t_usec a < 1000000" and ub: "0 \<le> t_usec b" "t_usec b < 1000000"
    and sa: "\<bar>t_sec a\<bar> < 2 ^ 61" and sb: "\<bar>t_sec b\<bar> < 2 ^ 61"
    using a b by (simp_all add: time_ok_def)
  let ?u = "t_usec a + t_usec b"
  have d: "?u sdiv 1000000 = ?u div 1000000" "?u smod 1000000 = ?u mod 1000000"
    using ua ub by (simp_all add: sdiv_nonneg smod_nonneg)
  have carry: "0 \<le> ?u div 1000000" "?u div 1000000 \<le> 1" using ua ub by linarith+
  have c: "chk_width 32 ?u = Inr ?u"
    "chk_width 64 (t_sec b + ?u div 1000000) = Inr (t_sec b + ?u div 1000000)"
    "chk_width 64 (t_sec a + (t_sec b + ?u div 1000000)) = Inr (t_sec a + (t_sec b + ?u div 1000000))"
    using ua ub sa sb carry by (simp_all add: chk_width_def width_simps abs_less_iff)
  have "time_add a b = Inr \<lparr>t_sec = t_sec a + (t_sec b + ?u div 1000000), t_usec = ?u mod 1000000\<rparr>"
    using timespec_round_trip[OF a] c d
    by (auto simp: time_add_def bindR_assoc bindR_eq_Inr_iff)
  then show ?thesis by (auto simp: micros_def algebra_simps)
qed

lemma time_sub_exact:
  assumes a: "time_ok a" and b: "time_ok b"
  shows "\<exists>c. time_sub a b = Inr c \<and> micros c = micros a - micros b \<and> 0 \<le> t_usec c \<and> t_usec c < 1000000"
proof -
  have ua: "0 \<le> t_usec a" "t_usec a < 1000000" and ub: "0 \<le> t_usec b" "t_usec b < 1000000"
    and sa: "\<bar>t_sec a\<bar> < 2 ^ 61" and sb: "\<bar>t_sec b\<bar> < 2 ^ 61"
    using a b by (simp_all add: time_ok_def)
  let ?u = "t_usec a - t_usec b" and ?s = "t_sec a - t_sec b"
  have c: "chk_width 32 ?u = Inr ?u" "chk_width 64 ?s = Inr ?s" "chk_width 64 (?s - 1) = Inr (?s - 1)"
    using ua ub sa sb by (simp_all add: chk_width_def width_simps abs_less_iff)
  from timespec_round_trip[OF a] obtain spec where
    spec: "to_timespec a = Inr spec" "time_of_timespec spec = Inr a" by auto
  show ?thesis
  proof (cases "?u < 0")
    case True
    then have "?u sdiv - 1000000 = 0" using ua ub by (simp add: signed_divide_int_def)
    moreover have "(- ?u) smod 1000000 = - ?u" using True ua ub by (simp add: smod_nonneg)
    moreover have "(1000000 - (- ?u)) smod 1000000 = 1000000 + ?u"
      using True ua ub smod_nonneg[of "1000000 - (- ?u)" 1000000]
        mod_pos_pos_trivial[of "1000000 - (- ?u)" 1000000] by simp
    ultimately have "time_sub a b = Inr \<lparr>t_sec = ?s - 1, t_usec = 1000000 + ?u\<rparr>"
      using spec c True by (simp add: time_sub_def)
    then show ?thesis using True ua ub by (auto simp: micros_def algebra_simps)
  next
    case False
    then have "time_sub a b = Inr \<lparr>t_sec = ?s, t_usec = ?u\<rparr>"
      using spec c by (simp add: time_sub_def)
    then show ?thesis using False ua ub by (auto simp: micros_def algebra_simps)
  qed
qed

lemma micros_inj:
  assumes "micros a = micros b" "0 \<le> t_usec a" "t_usec a < 1000000" "0 \<le> t_usec b" "t_usec b < 1000000"
  shows "t_sec a = t_sec b" "t_usec a = t_usec b"
proof -
  have "micros t div 1000000 = t_sec t \<and> micros t mod 1000000 = t_usec t"
    if "0 \<le> t_usec t" "t_usec t < 1000000" for t
    using that by (simp add: micros_def)
  then show "t_sec a = t_sec b" "t_usec a = t_usec b" using assms by metis+
qed

lemma time_order_micros:
  assumes "time_ok a" "time_ok b"
  shows "time_lt a b \<longleftrightarrow> micros a < micros b" "time_le a b \<longleftrightarrow> micros a \<le> micros b"
    "time_gt a b \<longleftrightarrow> micros a > micros b" "time_ge a b \<longleftrightarrow> micros a \<ge> micros b"
    "time_eq a b \<longleftrightarrow> micros a = micros b"
proof -
  have u: "0 \<le> t_usec a" "t_usec a < 1000000" "0 \<le> t_usec b" "t_usec b < 1000000"
    using assms by (simp_all add: time_ok_def)
  from u show "time_lt a b \<longleftrightarrow> micros a < micros b" "time_le a b \<longleftrightarrow> micros a \<le> micros b"
    "time_gt a b \<longleftrightarrow> micros a > micros b" "time_ge a b \<longleftrightarrow> micros a \<ge> micros b"
    unfolding time_lt_def time_le_def time_gt_def time_ge_def micros_def by linarith+
  show "time_eq a b \<longleftrightarrow> micros a = micros b"
    using micros_inj[OF _ u] by (auto simp: time_eq_def micros_def)
qed

text \<open>
  C27: on normalised times the operators are the arithmetic and the order of microsecond counts: no
  sum, difference or intermediate product overflows its width, the results are normalised, and
  subtracting what was added gives back the time.
\<close>

theorem time_arithmetic:
  assumes "time_ok a" and "time_ok b"
  shows "\<exists>s d. time_add a b = Inr s \<and> micros s = micros a + micros b \<and>
           time_sub a b = Inr d \<and> micros d = micros a - micros b \<and>
           t_usec s \<in> {0..<1000000} \<and> t_usec d \<in> {0..<1000000} \<and>
           (\<bar>t_sec s\<bar> < 2 ^ 61 \<longrightarrow> time_sub s b = Inr a) \<and>
           (time_lt a b \<longleftrightarrow> micros a < micros b) \<and> (time_le a b \<longleftrightarrow> micros a \<le> micros b)"
proof -
  from time_add_exact[OF assms] obtain s where
    s: "time_add a b = Inr s" "micros s = micros a + micros b" "0 \<le> t_usec s" "t_usec s < 1000000" by blast
  from time_sub_exact[OF assms] obtain d where
    d: "time_sub a b = Inr d" "micros d = micros a - micros b" "0 \<le> t_usec d" "t_usec d < 1000000" by blast
  have undo: "\<bar>t_sec s\<bar> < 2 ^ 61 \<longrightarrow> time_sub s b = Inr a"
  proof
    assume "\<bar>t_sec s\<bar> < 2 ^ 61"
    then have "time_ok s" using s by (simp add: time_ok_def)
    from time_sub_exact[OF this assms(2)] obtain e where
      e: "time_sub s b = Inr e" "micros e = micros a" "0 \<le> t_usec e" "t_usec e < 1000000"
      using s by auto
    with assms(1) micros_inj[of e a] have "t_sec e = t_sec a \<and> t_usec e = t_usec a"
      by (simp add: time_ok_def)
    with e show "time_sub s b = Inr a" by simp
  qed
  show ?thesis
    by (intro exI[of _ s] exI[of _ d]) (use s d undo time_order_micros[OF assms] in auto)
qed

theorem time_arithmetic_witness:
  "\<exists>s d. time_add \<lparr>t_sec = 5, t_usec = 300000\<rparr> \<lparr>t_sec = 2, t_usec = 900000\<rparr> = Inr s \<and>
     micros s = 8200000 \<and>
     time_sub \<lparr>t_sec = 5, t_usec = 300000\<rparr> \<lparr>t_sec = 2, t_usec = 900000\<rparr> = Inr d \<and>
     micros d = 2400000"
  using time_arithmetic[of "\<lparr>t_sec = 5, t_usec = 300000\<rparr>" "\<lparr>t_sec = 2, t_usec = 900000\<rparr>"]
  by (auto simp: time_ok_def micros_def)

text \<open>
  One tick of a running clock: it does not fault, the epoch is the boot time plus the uptime, both
  stamps are normalised and the idle queue keeps the last hundred flags.
\<close>

lemma tick_exact:
  assumes wf: "cq_wf (tm_idle_ticks tm)" and cap: "cq_capacity (tm_idle_ticks tm) = 100"
    and t: "0 \<le> tm_ticks tm" "tm_ticks tm < 2147483647" and sp: "0 < tm_tsc_speed tm"
    and ep: "\<bar>tm_boot_epoch tm\<bar> < 2 ^ 61"
    and us: "us = ((tsc + 2 ^ 64 - initial_tsc) mod 2 ^ 64) div tm_tsc_speed tm"
    and small: "us < 2147483648 * 1000000"
  shows "\<exists>q. TimeManager_tick tsc initial_tsc idle tm = Inr (tm\<lparr>tm_ticks := tm_ticks tm + 1,
             tm_idle_ticks := q, tm_uptime := \<lparr>tv_sec = int (us div 1000000), tv_usec = int (us mod 1000000)\<rparr>,
             tm_epoch := \<lparr>tv_sec = tm_boot_epoch tm + int (us div 1000000), tv_usec = int (us mod 1000000)\<rparr>\<rparr>) \<and>
           cq_wf q \<and> cq_capacity q = 100 \<and>
           cq_contents q = (if length (cq_contents (tm_idle_ticks tm)) = 100
             then tl (cq_contents (tm_idle_ticks tm)) else cq_contents (tm_idle_ticks tm)) @ [idle]"
proof -
  let ?q = "tm_idle_ticks tm" and ?xs = "cq_contents (tm_idle_ticks tm)"
  have sec: "signed_take_bit 31 (int (us div 1000000)) = int (us div 1000000)"
  proof (rule signed_take_bit_int_eq_self)
    have "int (us div 1000000) < 2147483648" using small by linarith
    then show "int (us div 1000000) < 2 ^ 31" by simp
  qed simp
  have c1: "chk_width 32 (tm_ticks tm + 1) = Inr (tm_ticks tm + 1)"
    using t by (simp add: chk_width_def width_simps)
  have b: "int (us div 1000000) < 2147483648" using small by linarith
  have c2: "chk_width 64 (tm_boot_epoch tm + int (us div 1000000)) =
      Inr (tm_boot_epoch tm + int (us div 1000000))"
    using ep b by (simp add: chk_width_def width_simps abs_less_iff)
  obtain q1 where q1: "(if cq_size ?q = 100 then bindR (cq_pop_front ?q) (\<lambda>(_, q). Inr q) else Inr ?q) = Inr q1"
    "cq_wf q1" "cq_capacity q1 = 100" "cq_contents q1 = (if length ?xs = 100 then tl ?xs else ?xs)"
  proof (cases "cq_size ?q = 100")
    case True
    then obtain x ys where x: "?xs = x # ys" using cq.num_contents[OF wf]
      by (metis length_0_conv list.exhaust zero_neq_numeral)
    from cq.pop_front_Cons[OF wf x] obtain q1 where
      "cq_pop_front ?q = Inr (x, q1)" "cq_wf q1" "cq_contents q1 = ys" "cq_capacity q1 = 100"
      using cap by auto
    with True x cq.num_contents[OF wf] show ?thesis by (intro that[of q1]) simp_all
  next
    case False
    with wf cap cq.num_contents[OF wf] show ?thesis by (intro that[of ?q]) simp_all
  qed
  have "length (cq_contents q1) < cq_capacity q1"
    using q1(3,4) cq.within_capacity[OF wf] cap by (auto split: if_splits)
  from cq.push_room[OF q1(2) this, of idle] obtain q2 where
    q2: "cq_push_back q1 idle = Inr (True, q2)" "cq_wf q2" "cq_contents q2 = cq_contents q1 @ [idle]"
      "cq_capacity q2 = 100" using q1(3) by auto
  have "TimeManager_tick tsc initial_tsc idle tm = Inr (tm\<lparr>tm_ticks := tm_ticks tm + 1,
             tm_idle_ticks := q2, tm_uptime := \<lparr>tv_sec = int (us div 1000000), tv_usec = int (us mod 1000000)\<rparr>,
             tm_epoch := \<lparr>tv_sec = tm_boot_epoch tm + int (us div 1000000), tv_usec = int (us mod 1000000)\<rparr>\<rparr>)"
    unfolding TimeManager_tick_def c1 bindR_simps q1(1) q2(1) prod.case Let_def us[symmetric] sec c2
    using sp by simp
  with q1(4) q2 show ?thesis by auto
qed

end
