(* ===== verification/DiskCache.thy ===== *)
theory DiskCache
  imports PataDrive KTime LRUCache Queue Blocker
begin

text \<open>
  The block cache of disks (\<open>kernel/device/DiskDevice.cpp\<close>) over the driver of PataDrive. A region
  caches the eight sectors of one page; the regions of a device are in an LRU cache, keyed by their
  first sector. Writes only change the region and put its key into the queue of dirty regions, which
  a task writes back; memory pressure evicts the least recently used region of all disks.

  A \<open>BlockCacheRegion\<close> is shared by reference in the source; here it is reached through its key, and
  no region leaves the cache while a read or a write runs. \<open>Time::now()\<close> is an argument.
\<close>

section \<open>State\<close>

abbreviation BLOCK_SIZE :: nat where "BLOCK_SIZE \<equiv> 512"

record cache_region =
  cr_data :: "u8 list"
  cr_block_size :: nat
  cr_start_block :: nat
  cr_last_used :: ktime
  cr_dirty :: bool

record 'd disk =
  dd_pata :: "'d pata"
  dd_cache :: "(nat, cache_region) lru"
  dd_dirty :: "nat queue"

record 'd disks =
  s_used_cache_memory :: nat
  s_disk_devices :: "'d disk list"
  s_writeback_blocker :: blocker

definition cache_region_new :: "ktime \<Rightarrow> nat \<Rightarrow> nat \<Rightarrow> cache_region" where
  "cache_region_new now start_block block_size =
     \<lparr>cr_data = replicate 4096 0, cr_block_size = block_size, cr_start_block = start_block,
      cr_last_used = now, cr_dirty = False\<rparr>"

definition cr_num_blocks :: "cache_region \<Rightarrow> nat" where
  "cr_num_blocks r = 4096 div cr_block_size r"

definition has_block :: "cache_region \<Rightarrow> nat \<Rightarrow> bool" where
  "has_block r block \<longleftrightarrow> block \<ge> cr_start_block r \<and> block < add32 (cr_start_block r) (cr_num_blocks r)"

definition block_data :: "cache_region \<Rightarrow> nat \<Rightarrow> nat" where
  "block_data r block = cr_block_size r * (block - cr_start_block r)"

definition blocks_per_cache_region :: nat where
  "blocks_per_cache_region = 4096 div BLOCK_SIZE"

definition block_cache_region_start :: "nat \<Rightarrow> nat" where
  "block_cache_region_start block = block - block mod blocks_per_cache_region"

section \<open>Regions\<close>

definition cached :: "'d disk \<Rightarrow> nat \<Rightarrow> cache_region option" where
  "cached dd key = map_get (lru_map (dd_cache dd)) key"

definition put_region :: "'d disk \<Rightarrow> nat \<Rightarrow> cache_region \<Rightarrow> 'd disk" where
  "put_region dd key r =
     dd\<lparr>dd_cache := (dd_cache dd)\<lparr>lru_map := map_put (lru_map (dd_cache dd)) key r\<rparr>\<rparr>"

definition get_cache_region :: "ktime \<Rightarrow> 'd disk \<Rightarrow> nat \<Rightarrow> nat \<Rightarrow> (nat \<times> 'd disk \<times> nat) prun" where
  "get_cache_region now dd used block =
     (let start = block_cache_region_start block in
      bindP (lru_get (dd_cache dd) start) (\<lambda>(reg_opt, c).
        case reg_opt of
          Some _ \<Rightarrow> Some (Inr (start, dd\<lparr>dd_cache := c\<rparr>, used))
        | None \<Rightarrow>
            let reg = cache_region_new now start BLOCK_SIZE in
            bindP (lru_insert c start reg) (\<lambda>c'.
            bindP (Some (read_uncached_blocks (dd_pata dd) start blocks_per_cache_region)) (\<lambda>(_, bytes, p).
            bindP (Some (memcpy_to (cr_data reg) 0 bytes)) (\<lambda>data.
              Some (Inr (start, put_region (dd\<lparr>dd_cache := c', dd_pata := p\<rparr>) start (reg\<lparr>cr_data := data\<rparr>),
                         add32 used 4096))))))) "

definition deref :: "'d disk \<Rightarrow> nat option \<Rightarrow> cache_region run" where
  "deref dd key =
     (case key of None \<Rightarrow> Inl NullDeref
      | Some k \<Rightarrow> (case cached dd k of None \<Rightarrow> Inl NullDeref | Some r \<Rightarrow> Inr r))"

text \<open>The region for a block: the one in hand if it has the block, else one from the cache.\<close>

definition holds_block :: "'d disk \<Rightarrow> nat option \<Rightarrow> nat \<Rightarrow> bool" where
  "holds_block dd cache_region block =
     (case cache_region of None \<Rightarrow> False
      | Some k \<Rightarrow> (case cached dd k of None \<Rightarrow> False | Some r \<Rightarrow> has_block r block))"

section \<open>Reading and writing blocks\<close>

fun read_blocks_loop :: "(nat \<Rightarrow> ktime) \<Rightarrow> 'd disk \<Rightarrow> nat \<Rightarrow> nat option \<Rightarrow> nat \<Rightarrow> nat \<Rightarrow> nat \<Rightarrow> (u8 list \<times> 'd disk \<times> nat) prun" where
  "read_blocks_loop clock dd used cache_region start_block i 0 = Some (Inr ([], dd, used))"
| "read_blocks_loop clock dd used cache_region start_block i (Suc n) =
     (let block = add32 start_block i in
      bindP (if \<not> holds_block dd cache_region block
             then bindP (get_cache_region (clock i) dd used block) (\<lambda>(k, dd', used'). Some (Inr (Some k, dd', used')))
             else Some (Inr (cache_region, dd, used))) (\<lambda>(region, dd1, used1).
      bindP (Some (deref dd1 region)) (\<lambda>r.
      let dd2 = put_region dd1 (the region) (r\<lparr>cr_last_used := clock i\<rparr>) in
      bindP (Some (memcpy_from (cr_data r) (block_data r block) BLOCK_SIZE)) (\<lambda>bytes.
      bindP (read_blocks_loop clock dd2 used1 region start_block (Suc i) n) (\<lambda>(rest, dd3, used3).
        Some (Inr (bytes @ rest, dd3, used3)))))))"

definition read_blocks :: "(nat \<Rightarrow> ktime) \<Rightarrow> 'd disk \<Rightarrow> nat \<Rightarrow> nat \<Rightarrow> nat \<Rightarrow> (u8 list \<times> 'd disk \<times> nat) prun" where
  "read_blocks clock dd used start_block count = read_blocks_loop clock dd used None start_block 0 count"

definition invalidate_cache_region :: "'d disk \<Rightarrow> nat option \<Rightarrow> 'd disk prun" where
  "invalidate_cache_region dd region =
     bindP (Some (deref dd region)) (\<lambda>r.
       bindP (q_contains (dd_dirty dd) (cr_start_block r)) (\<lambda>found.
         if found then Some (Inr dd)
         else bindP (Some (q_push_back (dd_dirty dd) (cr_start_block r))) (\<lambda>q.
                Some (Inr (dd\<lparr>dd_dirty := q\<rparr>)))))"

fun write_blocks_loop :: "(nat \<Rightarrow> ktime) \<Rightarrow> 'd disk \<Rightarrow> nat \<Rightarrow> nat option \<Rightarrow> nat \<Rightarrow> u8 list \<Rightarrow> nat \<Rightarrow> nat \<Rightarrow>
    (nat option \<times> 'd disk \<times> nat) prun" where
  "write_blocks_loop clock dd used cache_region start_block buffer i 0 = Some (Inr (cache_region, dd, used))"
| "write_blocks_loop clock dd used cache_region start_block buffer i (Suc n) =
     (let block = add32 start_block i in
      bindP (if \<not> holds_block dd cache_region block
             then bindP (if cache_region \<noteq> None then invalidate_cache_region dd cache_region else Some (Inr dd)) (\<lambda>dd0.
                  bindP (get_cache_region (clock i) dd0 used block) (\<lambda>(k, dd', used'). Some (Inr (Some k, dd', used'))))
             else Some (Inr (cache_region, dd, used))) (\<lambda>(region, dd1, used1).
      bindP (Some (deref dd1 region)) (\<lambda>r.
      bindP (Some (memcpy_from buffer (i * BLOCK_SIZE) BLOCK_SIZE)) (\<lambda>bytes.
      bindP (Some (memcpy_to (cr_data r) (block_data r block) bytes)) (\<lambda>data.
        write_blocks_loop clock
          (put_region dd1 (the region) (r\<lparr>cr_last_used := clock i, cr_dirty := True, cr_data := data\<rparr>))
          used1 region start_block buffer (Suc i) n)))))"

definition write_blocks :: "(nat \<Rightarrow> ktime) \<Rightarrow> 'd disk \<Rightarrow> nat \<Rightarrow> blocker \<Rightarrow> nat \<Rightarrow> nat \<Rightarrow> u8 list \<Rightarrow>
    ('d disk \<times> nat \<times> blocker) prun" where
  "write_blocks clock dd used wb start_block count buffer =
     bindP (write_blocks_loop clock dd used None start_block buffer 0 count) (\<lambda>(region, dd1, used1).
       bindP (invalidate_cache_region dd1 region) (\<lambda>dd2.
         Some (Inr (dd2, used1, set_ready True wb))))"

text \<open>\<open>BlockDevice::read_block\<close> and \<open>write_block\<close>: one block.\<close>

definition read_block :: "ktime \<Rightarrow> 'd disk \<Rightarrow> nat \<Rightarrow> nat \<Rightarrow> (u8 list \<times> 'd disk \<times> nat) prun" where
  "read_block now dd used block = read_blocks (\<lambda>_. now) dd used block 1"

definition write_block :: "ktime \<Rightarrow> 'd disk \<Rightarrow> nat \<Rightarrow> blocker \<Rightarrow> nat \<Rightarrow> u8 list \<Rightarrow> ('d disk \<times> nat \<times> blocker) prun" where
  "write_block now dd used wb block buffer = write_blocks (\<lambda>_. now) dd used wb block 1 buffer"

section \<open>Eviction\<close>

text \<open>The device whose least recently used region is oldest, with that region and its age.\<close>

fun find_lru :: "nat \<Rightarrow> 'd disk list \<Rightarrow> ktime \<Rightarrow> (nat \<times> cache_region) option \<Rightarrow> ((nat \<times> cache_region) option) prun" where
  "find_lru i [] lru_time best = Some (Inr best)"
| "find_lru i (device # devices) lru_time best =
     (if lru_empty (dd_cache device) then find_lru (Suc i) devices lru_time best
      else bindP (lru_unsafe (cache_region_new lru_time 0 0) (dd_cache device)) (\<lambda>((_, reg), _).
             if time_lt (cr_last_used reg) lru_time
             then find_lru (Suc i) devices (cr_last_used reg) (Some (i, reg))
             else find_lru (Suc i) devices lru_time best))"

definition evict :: "'d disk \<Rightarrow> cache_region \<Rightarrow> 'd disk prun" where
  "evict device lru_region =
     bindP (if cr_dirty lru_region
            then bindP (Some (write_uncached_blocks (dd_pata device) (cr_start_block lru_region)
                         (cr_num_blocks lru_region) (cr_data lru_region))) (\<lambda>(_, p).
                   Some (Inr (device\<lparr>dd_pata := p\<rparr>)))
            else Some (Inr device)) (\<lambda>device1.
       bindP (lru_prune (dd_cache device1) 1) (\<lambda>c. Some (Inr (device1\<lparr>dd_cache := c\<rparr>))))"

partial_function (option) free_pages_loop :: "'d disks \<Rightarrow> nat \<Rightarrow> nat \<Rightarrow> (nat \<times> 'd disks) prun" where
  "free_pages_loop ds num_pages num_freed =
     (if num_freed < num_pages
      then (case find_lru 0 (s_disk_devices ds) distant_future None of
              None \<Rightarrow> None
            | Some (Inl e) \<Rightarrow> Some (Inl e)
            | Some (Inr None) \<Rightarrow> Some (Inr (num_freed, ds))
            | Some (Inr (Some (i, reg))) \<Rightarrow>
                (case evict (s_disk_devices ds ! i) reg of
                   None \<Rightarrow> None
                 | Some (Inl e) \<Rightarrow> Some (Inl e)
                 | Some (Inr device) \<Rightarrow>
                     free_pages_loop
                       (ds\<lparr>s_disk_devices := (s_disk_devices ds)[i := device],
                           s_used_cache_memory := sub32 (s_used_cache_memory ds) (length (cr_data reg))\<rparr>)
                       num_pages (num_freed + length (cr_data reg) div 4096)))
      else Some (Inr (num_freed, ds)))"

definition free_pages :: "'d disks \<Rightarrow> nat \<Rightarrow> (nat \<times> 'd disks) prun" where
  "free_pages ds num_pages = free_pages_loop ds num_pages 0"

section \<open>Writing back\<close>

text \<open>
  One device in a pass of the write-back task. The flag is false when the task returns because a
  region of the queue is not in the cache any more.
\<close>

partial_function (option) writeback_device :: "'d disk \<Rightarrow> (bool \<times> 'd disk) prun" where
  "writeback_device device =
     (if q_empty (dd_dirty device) then Some (Inr (True, device))
      else
        (case q_pop_front (dd_dirty device) of
           Inl e \<Rightarrow> Some (Inl e)
         | Inr (region_loc, q) \<Rightarrow>
             (case lru_get (dd_cache device) region_loc of
                None \<Rightarrow> None
              | Some (Inl e) \<Rightarrow> Some (Inl e)
              | Some (Inr (None, c)) \<Rightarrow> Some (Inr (False, device\<lparr>dd_dirty := q, dd_cache := c\<rparr>))
              | Some (Inr (Some region, c)) \<Rightarrow>
                  (case write_uncached_blocks (dd_pata device) (cr_start_block region)
                          (cr_num_blocks region) (cr_data region) of
                     Inl e \<Rightarrow> Some (Inl e)
                   | Inr (_, p) \<Rightarrow>
                       writeback_device (put_region (device\<lparr>dd_dirty := q, dd_cache := c, dd_pata := p\<rparr>)
                         region_loc (region\<lparr>cr_dirty := False\<rparr>))))))"

fun writeback_devices :: "'d disk list \<Rightarrow> (bool \<times> 'd disk list) prun" where
  "writeback_devices [] = Some (Inr (True, []))"
| "writeback_devices (device # devices) =
     bindP (writeback_device device) (\<lambda>(alive, device').
       if alive
       then bindP (writeback_devices devices) (\<lambda>(alive', devices'). Some (Inr (alive', device' # devices')))
       else Some (Inr (False, device' # devices)))"

text \<open>One pass of the loop of \<open>cache_writeback_task_entry\<close>, from the moment the task is woken.\<close>

definition writeback_pass :: "'d disks \<Rightarrow> (bool \<times> 'd disks) prun" where
  "writeback_pass ds =
     bindP (writeback_devices (s_disk_devices ds)) (\<lambda>(alive, devices).
       Some (Inr (alive, ds\<lparr>s_disk_devices := devices,
                            s_writeback_blocker := set_ready False (s_writeback_blocker ds)\<rparr>)))"

section \<open>The LRU cache as a map\<close>

lemma lru_get_view:
  assumes "lru_wf c"
  shows "\<exists>c'. lru_get c k = Some (Inr (map_get (lru_map c) k, c')) \<and> lru_wf c' \<and>
           map_get (lru_map c') = map_get (lru_map c)"
proof (cases "map_get (lru_map c) k")
  case None
  with assms show ?thesis by (simp add: lru_get_def)
next
  case (Some x)
  from lru_promote_refines[OF assms Some] obtain c' where
    "lru_promote c k = Some (Inr c')" "lru_wf c'" "lru_map c' = lru_map c" by blast
  with Some show ?thesis by (simp add: lru_get_def)
qed

lemma lru_insert_view:
  assumes "lru_wf c"
  shows "\<exists>c'. lru_insert c k x = Some (Inr c') \<and> lru_wf c' \<and>
           map_get (lru_map c') = (map_get (lru_map c))(k \<mapsto> x)"
proof -
  from lru_insert_refines[OF assms] obtain c' where
    c': "lru_insert c k x = Some (Inr c')" "lru_wf c'" "lru_abs c' = spec_insert k x (lru_abs c)" by blast
  have "map_of (filter (\<lambda>(k', _). k' \<noteq> k) ys) j = (if j = k then None else map_of ys j)" for ys :: "('a \<times> 'b) list" and j
    by (induction ys) auto
  then have "map_of (spec_insert k x ys) = (map_of ys)(k \<mapsto> x)" for ys :: "('a \<times> 'b) list"
    by (auto simp: spec_insert_def spec_erase_def map_add_def fun_eq_iff split: option.split)
  with c' map_of_lru_abs[OF assms] map_of_lru_abs[OF c'(2)] show ?thesis by auto
qed

lemma lru_put_view:
  assumes "lru_wf c" "map_get (lru_map c) k \<noteq> None"
  shows "lru_wf (c\<lparr>lru_map := map_put (lru_map c) k x\<rparr>)"
    "map_get (map_put (lru_map c) k x) = (map_get (lru_map c))(k \<mapsto> x)"
  using assms kmap.put_present[OF lru_wfD(1)[OF assms(1)] assms(2), of x]
  by (auto simp: lru_wf_def)

lemma lru_size_card: "lru_wf c \<Longrightarrow> lru_size c = card (dom (map_get (lru_map c)))"
  using lru_wfD(4)[of c] distinct_card[OF lru_wfD(3)[of c]] vec.num_contents[OF lru_wfD(2)[of c]]
  by (simp add: lru_size_def lru_order_def)

lemma lru_empty_view: "lru_wf c \<Longrightarrow> lru_empty c \<longleftrightarrow> map_get (lru_map c) = Map.empty"
proof -
  assume wf: "lru_wf c"
  have "lru_empty c \<longleftrightarrow> lru_order c = []"
    using vec.num_contents[OF lru_wfD(2)[OF wf]] by (simp add: lru_empty_def vec_empty_def lru_order_def)
  also have "\<dots> \<longleftrightarrow> dom (map_get (lru_map c)) = {}" by (simp flip: lru_wfD(4)[OF wf])
  finally show ?thesis by (simp only: dom_eq_empty_conv)
qed

text \<open>The least recently used entry, and what is left without it.\<close>

lemma lru_oldest:
  assumes wf: "lru_wf c" and ne: "\<not> lru_empty c" and k: "k = hd (lru_order c)"
  shows "\<exists>x c'. lru_unsafe d c = Some (Inr ((k, x), c)) \<and> map_get (lru_map c) k = Some x \<and>
           lru_prune c 1 = Some (Inr c') \<and> lru_wf c' \<and> map_get (lru_map c') = (map_get (lru_map c))(k := None)"
proof -
  note w = lru_wfD[OF wf]
  obtain ks where ord: "lru_order c = k # ks"
    using ne k vec.num_contents[OF w(2)] by (cases "lru_order c") (simp_all add: lru_empty_def vec_empty_def lru_order_def)
  from ord w(4) obtain x where x: "map_get (lru_map c) k = Some x" by force
  have at: "vec_at (lru_list c) 0 = Inr k" using vec.at_nth[OF w(2), of 0] ord by (simp add: lru_order_def)
  have "lru_unsafe d c = Some (Inr ((k, x), c))"
    using ne at x by (simp add: lru_unsafe_def map_index_def map_get_def)
  moreover from lru_prune_refines[OF wf, of 1] obtain c' where
    c': "lru_prune c 1 = Some (Inr c')" "lru_wf c'" "lru_abs c' = tl (lru_abs c)" by (auto simp: drop_Suc)
  moreover have "map_get (lru_map c') = (map_get (lru_map c))(k := None)"
  proof
    fix j
    have abs: "lru_abs c = (k, x) # tl (lru_abs c)" using ord x by (simp add: lru_abs_def)
    have "k \<notin> fst ` set (tl (lru_abs c))" using distinct_fst_lru_abs[OF wf] by (subst (asm) abs) simp
    then have "map_of (tl (lru_abs c)) k = None" by (simp add: map_of_eq_None_iff)
    moreover have "map_of (lru_abs c) j = (if j = k then Some x else map_of (tl (lru_abs c)) j)"
      by (subst abs) simp
    ultimately show "map_get (lru_map c') j = ((map_get (lru_map c))(k := None)) j"
      using map_of_lru_abs[OF wf] map_of_lru_abs[OF c'(2)] c'(3) by auto
  qed
  ultimately show ?thesis using x by blast
qed

section \<open>The invariant and what a disk holds\<close>

text \<open>A cached region: its position, its size, and that it agrees with the drive unless dirty.\<close>

definition cached_region_ok :: "'d pata \<Rightarrow> nat \<Rightarrow> nat \<Rightarrow> cache_region \<Rightarrow> bool" where
  "cached_region_ok p cap k r \<longleftrightarrow> 8 dvd k \<and> k + 8 \<le> cap \<and> cr_start_block r = k \<and> cr_block_size r = BLOCK_SIZE \<and>
     length (cr_data r) = 4096 \<and> (\<not> cr_dirty r \<longrightarrow> cr_data r = read_run (sectors p) k 8)"

definition disk_ok :: "nat \<Rightarrow> 'd disk \<Rightarrow> bool" where
  "disk_ok cap dd \<longleftrightarrow> pata_ok (dd_pata dd) cap \<and> 8 dvd cap \<and> lru_wf (dd_cache dd) \<and> q_wf (dd_dirty dd) \<and>
     (\<forall>k r. cached dd k = Some r \<longrightarrow> cached_region_ok (dd_pata dd) cap k r)"

text \<open>The contents of a disk as its users see it: cached data hide the sectors of the drive.\<close>

definition view_of :: "(nat \<rightharpoonup> cache_region) \<Rightarrow> (nat \<Rightarrow> u8 list) \<Rightarrow> nat \<Rightarrow> u8 list" where
  "view_of m f b =
     (case m (block_cache_region_start b) of
        Some r \<Rightarrow> chunk BLOCK_SIZE (cr_data r) (b mod 8)
      | None \<Rightarrow> f b)"

definition disk_view :: "'d disk \<Rightarrow> nat \<Rightarrow> u8 list" where
  "disk_view dd = view_of (cached dd) (sectors (dd_pata dd))"

lemma region_start: "block_cache_region_start b = b - b mod 8" "blocks_per_cache_region = 8"
  by (simp_all add: block_cache_region_start_def blocks_per_cache_region_def)

lemma region_start_facts:
  "8 dvd block_cache_region_start b" "block_cache_region_start b + b mod 8 = b"
  "8 dvd cap \<Longrightarrow> b < cap \<Longrightarrow> block_cache_region_start b + 8 \<le> cap"
proof -
  show d: "8 dvd block_cache_region_start b" unfolding region_start by simp
  show e: "block_cache_region_start b + b mod 8 = b" unfolding region_start by simp
  assume "8 dvd cap" "b < cap"
  with d obtain m n where "block_cache_region_start b = 8 * m" "cap = 8 * n" by (elim dvdE)
  with e \<open>b < cap\<close> show "block_cache_region_start b + 8 \<le> cap" by presburger
qed

lemma region_start_unique: "8 dvd k \<Longrightarrow> k \<le> b \<Longrightarrow> b < k + 8 \<Longrightarrow> block_cache_region_start b = k"
proof -
  assume a: "8 dvd k" "k \<le> b" "b < k + 8"
  then obtain m where "k = 8 * m" by (elim dvdE)
  moreover define j where "j = b - k"
  ultimately have "b = 8 * m + j" "j < 8" using a by simp_all
  then have "b mod 8 = j" by simp
  with a show ?thesis unfolding region_start j_def by simp
qed

lemma cached_put_region:
  assumes "lru_wf (dd_cache dd)" "cached dd k \<noteq> None"
  shows "cached (put_region dd k r) = (cached dd)(k \<mapsto> r)" "lru_wf (dd_cache (put_region dd k r))"
    "dd_pata (put_region dd k r) = dd_pata dd" "dd_dirty (put_region dd k r) = dd_dirty dd"
  using lru_put_view[OF assms(1), of k r] assms(2) by (auto simp: put_region_def cached_def fun_eq_iff)

lemma disk_okD:
  assumes "disk_ok cap dd"
  shows "pata_ok (dd_pata dd) cap" "8 dvd cap" "lru_wf (dd_cache dd)" "q_wf (dd_dirty dd)"
    "cached dd k = Some r \<Longrightarrow> cached_region_ok (dd_pata dd) cap k r" "sized BLOCK_SIZE (sectors (dd_pata dd))"
  using assms pata_ok_hw(1) by (auto simp: disk_ok_def)

lemma sized_disk_view:
  assumes "disk_ok cap dd"
  shows "sized BLOCK_SIZE (disk_view dd)"
proof -
  have "length (disk_view dd b) = BLOCK_SIZE" for b
  proof (cases "cached dd (block_cache_region_start b)")
    case (Some r)
    then have "length (cr_data r) = 4096" using disk_okD(5)[OF assms Some] by (simp add: cached_region_ok_def)
    moreover have "Suc (b mod 8) * 512 \<le> 4096"
      using mult_le_mono1[of "Suc (b mod 8)" 8 512] by (simp add: Suc_leI)
    ultimately show ?thesis using Some by (simp add: disk_view_def view_of_def del: mult_Suc)
  qed (use sizedD[OF disk_okD(6)[OF assms]] in \<open>simp add: disk_view_def view_of_def\<close>)
  then show ?thesis by (simp add: sized_def)
qed

text \<open>How the view changes with the cached regions and the drive.\<close>

lemma view_keep_data:
  "m k = Some r \<Longrightarrow> cr_data r' = cr_data r \<Longrightarrow> view_of (m(k \<mapsto> r')) f = view_of m f"
  by (rule ext) (auto simp: view_of_def)

lemma view_clean:
  assumes "8 dvd k" "cr_data r = read_run f k 8" "sized BLOCK_SIZE f"
  shows "view_of (m(k \<mapsto> r)) f = view_of (m(k := None)) f"
proof
  fix b
  show "view_of (m(k \<mapsto> r)) f b = view_of (m(k := None)) f b"
  proof (cases "block_cache_region_start b = k")
    case True
    have "chunk BLOCK_SIZE (read_run f k 8) (b mod 8) = f (k + b mod 8)"
      by (rule chunk_read_run[OF assms(3)]) simp
    with True assms(2) region_start_facts(2)[of b] show ?thesis by (simp add: view_of_def)
  qed (simp add: view_of_def)
qed

lemma view_flush:
  assumes "8 dvd k" "m k = Some r" "length (cr_data r) = 4096"
  shows "view_of (m(k := None)) (put_run BLOCK_SIZE f k (cr_data r)) = view_of m f"
    "view_of m (put_run BLOCK_SIZE f k (cr_data r)) = view_of m f"
proof -
  have put: "put_run BLOCK_SIZE f k (cr_data r) b =
      (if block_cache_region_start b = k then chunk BLOCK_SIZE (cr_data r) (b mod 8) else f b)" for b
  proof (cases "block_cache_region_start b = k")
    case True
    then have "b - k = b mod 8" "k \<le> b" "b < k + 8"
      using region_start_facts(2)[of b] mod_less_divisor[of 8 b] by linarith+
    with True assms(3) show ?thesis by (simp add: put_run_def)
  next
    case False
    then have "\<not> (k \<le> b \<and> b < k + 8)" using region_start_unique[OF assms(1), of b] by blast
    with False assms(3) show ?thesis by (auto simp: put_run_def)
  qed
  show "view_of (m(k := None)) (put_run BLOCK_SIZE f k (cr_data r)) = view_of m f"
    "view_of m (put_run BLOCK_SIZE f k (cr_data r)) = view_of m f"
    using assms(2) by (auto simp: view_of_def put fun_eq_iff split: option.split)
qed

lemma view_write:
  assumes "m (block_cache_region_start b) = Some r" "length (cr_data r) = 4096" "length bytes = BLOCK_SIZE"
    "cr_data r' = patch (cr_data r) (b mod 8 * BLOCK_SIZE) bytes"
  shows "view_of (m(block_cache_region_start b \<mapsto> r')) f = (view_of m f)(b := bytes)"
proof
  fix c
  let ?k = "block_cache_region_start b"
  have fit: "Suc (j mod 8) * BLOCK_SIZE \<le> 4096" for j
    using mult_le_mono1[of "Suc (j mod 8)" 8 512] by (simp add: Suc_leI)
  show "view_of (m(?k \<mapsto> r')) f c = ((view_of m f)(b := bytes)) c"
  proof (cases "c = b")
    case True
    have "chunk BLOCK_SIZE (patch (cr_data r) (b mod 8 * BLOCK_SIZE) bytes) (b mod 8) = bytes"
      using chunk_patch_same[of "b mod 8" 512 "cr_data r" bytes] fit[of b] assms(2,3) by simp
    with True assms(4) show ?thesis by (simp add: view_of_def)
  next
    case False
    have "chunk BLOCK_SIZE (cr_data r') (c mod 8) = chunk BLOCK_SIZE (cr_data r) (c mod 8)"
      if "block_cache_region_start c = ?k"
    proof -
      have "c mod 8 \<noteq> b mod 8" using that False region_start_facts(2)[of b] region_start_facts(2)[of c] by metis
      then have "Suc (c mod 8) * 512 \<le> b mod 8 * 512 \<or> Suc (b mod 8) * 512 \<le> c mod 8 * 512"
        using mult_le_mono1[of "Suc (c mod 8)" "b mod 8" 512] mult_le_mono1[of "Suc (b mod 8)" "c mod 8" 512]
        by linarith
      then show ?thesis unfolding assms(4)
        using fit[of b] fit[of c] assms(2,3) by (intro chunk_patch_other) auto
    qed
    with False assms(1) show ?thesis by (auto simp: view_of_def)
  qed
qed

section \<open>Operations that do not change what a disk holds\<close>

definition dirty_keys :: "'d disk \<Rightarrow> nat set" where
  "dirty_keys dd = {k. \<exists>r. cached dd k = Some r \<and> cr_dirty r}"

definition same_disk :: "nat \<Rightarrow> 'd disk \<Rightarrow> 'd disk \<Rightarrow> bool" where
  "same_disk cap dd dd' \<longleftrightarrow> disk_ok cap dd' \<and> same_device (dd_pata dd) (dd_pata dd') \<and> disk_view dd' = disk_view dd \<and> dd_dirty dd' = dd_dirty dd \<and>
     sectors (dd_pata dd') = sectors (dd_pata dd) \<and> dirty_keys dd' = dirty_keys dd \<and>
     dom (cached dd) \<subseteq> dom (cached dd')"

lemma same_disk_trans: "same_disk cap a b \<Longrightarrow> same_disk cap b c \<Longrightarrow> same_disk cap a c"
  unfolding same_disk_def using subset_trans same_device_trans by metis

lemma same_disk_refl: "disk_ok cap dd \<Longrightarrow> same_disk cap dd dd"
  by (simp add: same_disk_def)

lemma same_disk_touch:
  assumes ok: "disk_ok cap dd" and r: "cached dd k = Some r"
  shows "same_disk cap dd (put_region dd k (r\<lparr>cr_last_used := t\<rparr>))"
    "cached (put_region dd k (r\<lparr>cr_last_used := t\<rparr>)) k = Some (r\<lparr>cr_last_used := t\<rparr>)"
proof -
  let ?r = "r\<lparr>cr_last_used := t\<rparr>"
  have p: "cached (put_region dd k ?r) = (cached dd)(k \<mapsto> ?r)" "lru_wf (dd_cache (put_region dd k ?r))"
    "dd_pata (put_region dd k ?r) = dd_pata dd" "dd_dirty (put_region dd k ?r) = dd_dirty dd"
    using cached_put_region[OF disk_okD(3)[OF ok], of k ?r] r by auto
  then have "disk_ok cap (put_region dd k ?r)"
    using ok r by (auto simp: disk_ok_def cached_region_ok_def)
  moreover have "dirty_keys (put_region dd k ?r) = dirty_keys dd" using p(1) r by (auto simp: dirty_keys_def)
  ultimately show "same_disk cap dd (put_region dd k ?r)"
    using p r view_keep_data[of "cached dd" k r ?r] by (auto simp: same_disk_def disk_view_def)
  show "cached (put_region dd k ?r) k = Some ?r" using p(1) by simp
qed

lemma get_cache_region_spec:
  assumes ok: "disk_ok cap dd" and b: "b < cap"
  shows "\<exists>dd' used'. get_cache_region now dd used b = Some (Inr (block_cache_region_start b, dd', used')) \<and>
           same_disk cap dd dd' \<and> block_cache_region_start b \<in> dom (cached dd')"
proof -
  let ?s = "block_cache_region_start b" and ?p = "dd_pata dd"
  note okD = disk_okD[OF ok]
  have s: "8 dvd ?s" "?s + 8 \<le> cap" using region_start_facts okD(2) b by blast+
  from lru_get_view[OF okD(3), of ?s] obtain c where
    c: "lru_get (dd_cache dd) ?s = Some (Inr (cached dd ?s, c))" "lru_wf c" "map_get (lru_map c) = cached dd"
    by (auto simp: cached_def fun_eq_iff)
  show ?thesis
  proof (cases "cached dd ?s")
    case (Some r)
    have "cached (dd\<lparr>dd_cache := c\<rparr>) = cached dd" using c(3) by (simp add: cached_def fun_eq_iff)
    then have "same_disk cap dd (dd\<lparr>dd_cache := c\<rparr>)"
      using ok c(2) by (auto simp: same_disk_def disk_ok_def disk_view_def dirty_keys_def)
    moreover have "cached (dd\<lparr>dd_cache := c\<rparr>) ?s = Some r"
      using \<open>cached (dd\<lparr>dd_cache := c\<rparr>) = cached dd\<close> Some by simp
    ultimately show ?thesis using c(1) Some by (auto simp: get_cache_region_def Let_def)
  next
    case None
    let ?reg = "cache_region_new now ?s BLOCK_SIZE" and ?run = "read_run (sectors ?p) ?s 8"
    from lru_insert_view[OF c(2), of ?s ?reg] c(3) obtain c' where
      c': "lru_insert c ?s ?reg = Some (Inr c')" "lru_wf c'" "map_get (lru_map c') = (cached dd)(?s \<mapsto> ?reg)" by auto
    from read_uncached_exact[OF okD(1) s(2)] obtain q where
      q: "read_uncached_blocks ?p ?s 8 = Inr (Inr (), ?run, q)" "same_device ?p q" "pa_drive q = pa_drive ?p" by blast
    have sec: "sectors q = sectors ?p" using same_deviceD(1)[OF q(2)] q(3) by simp
    have len: "length ?run = 4096" using okD(6) by simp
    let ?new = "?reg\<lparr>cr_data := ?run\<rparr>" and ?mid = "dd\<lparr>dd_cache := c', dd_pata := q\<rparr>"
    let ?dd = "put_region ?mid ?s ?new"
    have mid: "cached ?mid = (cached dd)(?s \<mapsto> ?reg)" using c'(3) by (simp add: cached_def fun_eq_iff)
    have d: "cached ?dd = (cached dd)(?s \<mapsto> ?new)" "lru_wf (dd_cache ?dd)" "dd_pata ?dd = q" "dd_dirty ?dd = dd_dirty dd"
      using cached_put_region[of ?mid ?s ?new] mid c'(2) by auto
    have copy: "memcpy_to (cr_data ?reg) 0 ?run = Inr ?run"
      using len by (simp add: cache_region_new_def patch_all)
    have "cached_region_ok q cap k r" if "cached ?dd k = Some r" for k r
      using that okD(5)[of k r] s len sec d(1)
      by (auto simp: cached_region_ok_def cache_region_new_def split: if_splits)
    then have "disk_ok cap ?dd" using d okD same_deviceD(6)[OF q(2)] by (simp add: disk_ok_def)
    moreover have "view_of ((cached dd)(?s \<mapsto> ?new)) (sectors ?p) = view_of (cached dd) (sectors ?p)"
      using view_clean[OF s(1), of ?new "sectors ?p" "cached dd"] okD(6) None by (simp add: fun_upd_idem)
    moreover have "dirty_keys ?dd = dirty_keys dd"
      using d(1) None by (auto simp: dirty_keys_def cache_region_new_def)
    ultimately have "same_disk cap dd ?dd" using d sec q(2) by (auto simp: same_disk_def disk_view_def)
    moreover have "get_cache_region now dd used b = Some (Inr (?s, ?dd, add32 used 4096))"
      unfolding get_cache_region_def Let_def using c(1) None c'(1) q(1) copy by (simp add: region_start(2))
    ultimately show ?thesis using d(1) by auto
  qed
qed

lemma holds_block_start:
  assumes ok: "disk_ok cap dd" and h: "holds_block dd region b"
  shows "region = Some (block_cache_region_start b)" "block_cache_region_start b \<in> dom (cached dd)"
proof -
  obtain k r where k: "region = Some k" "cached dd k = Some r" "has_block r b"
    using h by (auto simp: holds_block_def split: option.splits)
  have r: "8 dvd k" "k + 8 \<le> cap" "cr_start_block r = k" "cr_block_size r = 512"
    using disk_okD(5)[OF ok k(2)] by (simp_all add: cached_region_ok_def)
  have "add32 k 8 = k + 8" using r(2) pata_ok_small[OF disk_okD(1)[OF ok]] by (intro add32_less) simp
  then have "k \<le> b" "b < k + 8" using k(3) r(3,4) by (simp_all add: has_block_def cr_num_blocks_def)
  then have "block_cache_region_start b = k" using region_start_unique[OF r(1)] by blast
  with k show "region = Some (block_cache_region_start b)" "block_cache_region_start b \<in> dom (cached dd)" by auto
qed

lemma obtain_region:
  assumes ok: "disk_ok cap dd" and b: "b < cap"
  shows "\<exists>dd' used'. (if \<not> holds_block dd region b
             then bindP (get_cache_region now dd used b) (\<lambda>(k, dd', used'). Some (Inr (Some k, dd', used')))
             else Some (Inr (region, dd, used))) = Some (Inr (Some (block_cache_region_start b), dd', used')) \<and>
           same_disk cap dd dd' \<and> block_cache_region_start b \<in> dom (cached dd')"
proof (cases "holds_block dd region b")
  case True
  with holds_block_start[OF ok True] same_disk_refl[OF ok] show ?thesis by auto
next
  case False
  with get_cache_region_spec[OF ok b, of now used] show ?thesis by auto
qed

text \<open>A cached block: where its data are in the region.\<close>

lemma region_block:
  assumes ok: "disk_ok cap dd" and r: "cached dd (block_cache_region_start b) = Some r"
  shows "block_data r b = b mod 8 * BLOCK_SIZE" "length (cr_data r) = 4096" "b mod 8 * BLOCK_SIZE + BLOCK_SIZE \<le> 4096"
    "memcpy_from (cr_data r) (block_data r b) BLOCK_SIZE = Inr (disk_view dd b)"
proof -
  have f: "cr_start_block r = block_cache_region_start b" "cr_block_size r = 512" "length (cr_data r) = 4096"
    using disk_okD(5)[OF ok r] by (simp_all add: cached_region_ok_def)
  show d: "block_data r b = b mod 8 * BLOCK_SIZE"
    using f region_start_facts(2)[of b] by (simp add: block_data_def)
  show "length (cr_data r) = 4096" by (rule f)
  show le: "b mod 8 * BLOCK_SIZE + BLOCK_SIZE \<le> 4096"
    using mult_le_mono1[of "Suc (b mod 8)" 8 512] by (simp add: Suc_leI)
  show "memcpy_from (cr_data r) (block_data r b) BLOCK_SIZE = Inr (disk_view dd b)"
    using d le f(3) r by (simp add: disk_view_def view_of_def chunk_def)
qed

lemma read_blocks_loop_spec:
  assumes "disk_ok cap dd" "start_block + i + n \<le> cap"
  shows "\<exists>dd' used'. read_blocks_loop clock dd used region start_block i n =
             Some (Inr (read_run (disk_view dd) (start_block + i) n, dd', used')) \<and> same_disk cap dd dd'"
  using assms
proof (induction n arbitrary: i dd used region)
  case 0
  then show ?case by (simp add: same_disk_refl)
next
  case (Suc n)
  let ?b = "start_block + i"
  have b: "?b < cap" using Suc.prems(2) by simp
  have b32: "add32 start_block i = ?b"
    using b pata_ok_small[OF disk_okD(1)[OF Suc.prems(1)]] by (intro add32_less) simp
  from obtain_region[OF Suc.prems(1) b, of region "clock i" used] obtain dd1 used1 where
    o: "(if \<not> holds_block dd region ?b
         then bindP (get_cache_region (clock i) dd used ?b) (\<lambda>(k, dd', used'). Some (Inr (Some k, dd', used')))
         else Some (Inr (region, dd, used))) = Some (Inr (Some (block_cache_region_start ?b), dd1, used1))"
      "same_disk cap dd dd1" "block_cache_region_start ?b \<in> dom (cached dd1)" by blast
  let ?k = "block_cache_region_start ?b"
  from o(3) obtain r where r: "cached dd1 ?k = Some r" by blast
  have ok1: "disk_ok cap dd1" and view1: "disk_view dd1 = disk_view dd" using o(2) by (simp_all add: same_disk_def)
  note touch = same_disk_touch[OF ok1 r, of "clock i"]
  let ?dd2 = "put_region dd1 ?k (r\<lparr>cr_last_used := clock i\<rparr>)"
  have ok2: "disk_ok cap ?dd2" and view2: "disk_view ?dd2 = disk_view dd"
    using touch(1) view1 by (simp_all add: same_disk_def)
  have le: "start_block + Suc i + n \<le> cap" using Suc.prems(2) by simp
  from Suc.IH[OF ok2 le, of used1 "Some ?k"] view2 obtain dd3 used3 where
    d3: "read_blocks_loop clock ?dd2 used1 (Some ?k) start_block (Suc i) n =
           Some (Inr (read_run (disk_view dd) (Suc ?b) n, dd3, used3))" "same_disk cap ?dd2 dd3" by auto
  have "deref dd1 (Some ?k) = Inr r" using r by (simp add: deref_def)
  then have "read_blocks_loop clock dd used region start_block i (Suc n) =
      Some (Inr (disk_view dd ?b @ read_run (disk_view dd) (Suc ?b) n, dd3, used3))"
    using b32 o(1) region_block(4)[OF ok1 r] view1 d3(1) by (simp add: Let_def)
  moreover have "same_disk cap dd dd3"
    using same_disk_trans[OF o(2) same_disk_trans[OF touch(1) d3(2)]] .
  ultimately show ?case by (auto simp: read_run_Suc)
qed

section \<open>Writing a block\<close>

lemma write_block_spec:
  assumes ok: "disk_ok cap dd" and b: "b < cap" and len: "length bytes = BLOCK_SIZE"
    and q: "q_contents (dd_dirty dd) = [] \<or> block_cache_region_start b \<in> set (q_contents (dd_dirty dd))"
  shows "\<exists>dd' used'. write_block now dd used wb b bytes = Some (Inr (dd', used', set_ready True wb)) \<and>
           disk_ok cap dd' \<and> same_device (dd_pata dd) (dd_pata dd') \<and> disk_view dd' = (disk_view dd)(b := bytes) \<and>
           sectors (dd_pata dd') = sectors (dd_pata dd) \<and>
           q_contents (dd_dirty dd') = (if q_contents (dd_dirty dd) = [] then [block_cache_region_start b]
                                        else q_contents (dd_dirty dd)) \<and>
           dirty_keys dd' = insert (block_cache_region_start b) (dirty_keys dd) \<and>
           dom (cached dd) \<subseteq> dom (cached dd') \<and> block_cache_region_start b \<in> dom (cached dd')"
proof -
  let ?k = "block_cache_region_start b"
  have b32: "add32 b 0 = b" using b pata_ok_small[OF disk_okD(1)[OF ok]] by (intro add32_less[of b 0, simplified]) simp
  from get_cache_region_spec[OF ok b, of now used] obtain dd1 used1 where
    g: "get_cache_region now dd used b = Some (Inr (?k, dd1, used1))" "same_disk cap dd dd1" "?k \<in> dom (cached dd1)" by blast
  from g(3) obtain r where r: "cached dd1 ?k = Some r" by blast
  have ok1: "disk_ok cap dd1" using g(2) by (simp add: same_disk_def)
  note rb = region_block[OF ok1 r]
  let ?r = "r\<lparr>cr_last_used := now, cr_dirty := True, cr_data := patch (cr_data r) (b mod 8 * BLOCK_SIZE) bytes\<rparr>"
  let ?dd2 = "put_region dd1 ?k ?r"
  have p: "cached ?dd2 = (cached dd1)(?k \<mapsto> ?r)" "lru_wf (dd_cache ?dd2)" "dd_pata ?dd2 = dd_pata dd1" "dd_dirty ?dd2 = dd_dirty dd1"
    using cached_put_region[OF disk_okD(3)[OF ok1], of ?k ?r] r by auto
  have "cached_region_ok (dd_pata dd1) cap k x" if "cached ?dd2 k = Some x" for k x
    using that disk_okD(5)[OF ok1, of k] disk_okD(5)[OF ok1 r] rb len p(1)
    by (auto simp: cached_region_ok_def split: if_splits)
  then have ok2: "disk_ok cap ?dd2" using p disk_okD[OF ok1] by (simp add: disk_ok_def)
  have "disk_view ?dd2 = (disk_view dd1)(b := bytes)"
    unfolding disk_view_def p(1,3) by (rule view_write) (use r rb len in auto)
  then have view2: "disk_view ?dd2 = (disk_view dd)(b := bytes)" using g(2) by (simp add: same_disk_def)
  have copy: "memcpy_from bytes 0 BLOCK_SIZE = Inr bytes"
    "memcpy_to (cr_data r) (block_data r b) bytes = Inr (patch (cr_data r) (b mod 8 * BLOCK_SIZE) bytes)"
    using rb len by simp_all
  have dd2: "write_blocks_loop (\<lambda>_. now) dd used None b bytes 0 1 = Some (Inr (Some ?k, ?dd2, used1))"
    using b32 g(1) r copy by (simp add: holds_block_def deref_def Let_def)
  have start: "deref ?dd2 (Some ?k) = Inr ?r" "cr_start_block ?r = ?k"
    using p(1) disk_okD(5)[OF ok1 r] by (simp_all add: deref_def cached_region_ok_def)
  have qd: "dd_dirty ?dd2 = dd_dirty dd" using p(4) g(2) by (simp add: same_disk_def)
  obtain dd3 where dd3: "invalidate_cache_region ?dd2 (Some ?k) = Some (Inr dd3)" "q_wf (dd_dirty dd3)"
    "dd3 = ?dd2\<lparr>dd_dirty := dd_dirty dd3\<rparr>"
    "q_contents (dd_dirty dd3) = (if q_contents (dd_dirty dd) = [] then [?k] else q_contents (dd_dirty dd))"
  proof (cases "?k \<in> set (q_contents (dd_dirty dd))")
    case True
    then have "q_contains (dd_dirty dd) ?k = Some (Inr True)" using q_contains_found[OF disk_okD(4)[OF ok]] by blast
    with True start qd disk_okD(4)[OF ok] show ?thesis
      by (intro that[of ?dd2]) (auto simp: invalidate_cache_region_def)
  next
    case False
    with q have e: "q_contents (dd_dirty dd) = []" by simp
    then have c: "q_contains (dd_dirty dd) ?k = Some (Inr False)"
      using qu.is_empty_contents[OF disk_okD(4)[OF ok]] by (simp add: q_contains_def)
    from qu.push_snoc[OF disk_okD(4)[OF ok], of ?k] obtain q' where
      "q_push_back (dd_dirty dd) ?k = Inr q'" "q_wf q'" "q_contents q' = [?k]" using e by auto
    with e c start qd show ?thesis
      by (intro that[of "?dd2\<lparr>dd_dirty := q'\<rparr>"]) (auto simp: invalidate_cache_region_def)
  qed
  have c3: "cached dd3 = cached ?dd2" "dd_pata dd3 = dd_pata ?dd2"
    by (subst dd3(3), simp add: cached_def fun_eq_iff)+
  have "write_block now dd used wb b bytes = Some (Inr (dd3, used1, set_ready True wb))"
    using dd2 dd3(1) by (simp add: write_block_def write_blocks_def)
  moreover have "disk_ok cap dd3"
    using ok2 dd3(2) c3 by (subst dd3(3)) (simp add: disk_ok_def cached_def)
  moreover have "disk_view dd3 = (disk_view dd)(b := bytes)" using view2 c3 by (simp add: disk_view_def)
  moreover have "same_device (dd_pata dd) (dd_pata dd3)" using c3 p(3) g(2) by (simp add: same_disk_def)
  moreover have "sectors (dd_pata dd3) = sectors (dd_pata dd)" using c3 p(3) g(2) by (simp add: same_disk_def)
  moreover have "dirty_keys dd3 = insert ?k (dirty_keys dd)"
    using c3(1) p(1) g(2) by (auto simp: dirty_keys_def same_disk_def)
  moreover have "dom (cached dd) \<subseteq> dom (cached dd3)" "?k \<in> dom (cached dd3)"
    using c3(1) p(1) g(2) by (auto simp: same_disk_def)
  ultimately show ?thesis using dd3(4) by blast
qed

section \<open>Flushing, eviction and write-back\<close>

lemma flush_region:
  assumes ok: "disk_ok cap dd" and r: "cached dd k = Some r"
  shows "\<exists>p. write_uncached_blocks (dd_pata dd) (cr_start_block r) (cr_num_blocks r) (cr_data r) = Inr (Inr (), p) \<and>
           pata_ok p cap \<and> sectors p = put_run BLOCK_SIZE (sectors (dd_pata dd)) k (cr_data r)"
proof -
  have f: "cr_start_block r = k" "cr_num_blocks r = 8" "k + 8 \<le> cap" "length (cr_data r) = 4096"
    using disk_okD(5)[OF ok r] by (simp_all add: cached_region_ok_def cr_num_blocks_def)
  from write_uncached_exact[OF disk_okD(1)[OF ok] f(3), of "cr_data r"] f obtain p where
    p: "write_uncached_blocks (dd_pata dd) k 8 (cr_data r) = Inr (Inr (), p)" "same_device (dd_pata dd) p"
      "sectors p = put_run BLOCK_SIZE (sectors (dd_pata dd)) k (cr_data r)" by auto
  have "pata_ok p cap" using same_deviceD(6)[OF p(2)] disk_okD(1)[OF ok] by blast
  with p f show ?thesis by auto
qed

text \<open>Storing one region on the drive leaves every other cached region in agreement with it.\<close>

lemma flush_others:
  assumes "8 dvd k" "8 dvd k'" "k \<noteq> k'" "length xs = 4096"
  shows "read_run (put_run BLOCK_SIZE f k xs) k' 8 = read_run f k' 8"
proof (rule read_run_cong)
  fix s
  assume s: "k' \<le> s" "s < k' + 8"
  from assms(1-3) have "k + 8 \<le> k' \<or> k' + 8 \<le> k" by (elim dvdE) (simp, presburger)
  with s assms(4) show "put_run BLOCK_SIZE f k xs s = f s" by (auto simp: put_run_def)
qed

lemma cached_region_ok_flush:
  assumes r: "cached_region_ok p cap k r" and r': "cached_region_ok p cap k' r'" and ne: "k' \<noteq> k"
    and q: "sectors q = put_run BLOCK_SIZE (sectors p) k (cr_data r)"
  shows "cached_region_ok q cap k' r'"
  using assms flush_others[of k k' "cr_data r" "sectors p"] by (auto simp: cached_region_ok_def)

lemma evict_spec:
  assumes ok: "disk_ok cap dd" and ne: "\<not> lru_empty (dd_cache dd)" and k: "k = hd (lru_order (dd_cache dd))"
  shows "\<exists>r dd'. (\<forall>d. lru_unsafe d (dd_cache dd) = Some (Inr ((k, r), dd_cache dd))) \<and> cached dd k = Some r \<and>
           evict dd r = Some (Inr dd') \<and> disk_ok cap dd' \<and> disk_view dd' = disk_view dd \<and>
           cached dd' = (cached dd)(k := None) \<and> dd_dirty dd' = dd_dirty dd \<and>
           (\<not> cr_dirty r \<longrightarrow> sectors (dd_pata dd') = sectors (dd_pata dd))"
proof -
  note okD = disk_okD[OF ok]
  from lru_oldest[OF okD(3) ne k] obtain r c where
    c: "map_get (lru_map (dd_cache dd)) k = Some r" "lru_prune (dd_cache dd) 1 = Some (Inr c)" "lru_wf c"
      "map_get (lru_map c) = (map_get (lru_map (dd_cache dd)))(k := None)" by blast
  have un: "lru_unsafe d (dd_cache dd) = Some (Inr ((k, r), dd_cache dd))" for d
    using lru_oldest[OF okD(3) ne k, of d] c(1) by auto
  have r: "cached dd k = Some r" using c(1) by (simp add: cached_def)
  have rok: "cached_region_ok (dd_pata dd) cap k r" by (rule okD(5)[OF r])
  show ?thesis
  proof (cases "cr_dirty r")
    case True
    from flush_region[OF ok r] obtain p where
      p: "write_uncached_blocks (dd_pata dd) (cr_start_block r) (cr_num_blocks r) (cr_data r) = Inr (Inr (), p)"
        "pata_ok p cap" "sectors p = put_run BLOCK_SIZE (sectors (dd_pata dd)) k (cr_data r)" by blast
    let ?dd = "dd\<lparr>dd_pata := p, dd_cache := c\<rparr>"
    have m: "cached ?dd = (cached dd)(k := None)" using c(4) by (simp add: cached_def fun_eq_iff)
    have "disk_ok cap ?dd"
      using okD p(2) c(3) m cached_region_ok_flush[OF rok _ _ p(3)] by (auto simp: disk_ok_def split: if_splits)
    moreover have "disk_view ?dd = disk_view dd"
      using view_flush(1)[of k "cached dd" r "sectors (dd_pata dd)"] r rok m p(3)
      by (simp add: disk_view_def cached_region_ok_def)
    ultimately show ?thesis using True p(1) c(2) m un r by (intro exI[of _ r] exI[of _ ?dd]) (simp add: evict_def del: lru_prune.simps)
  next
    case False
    let ?dd = "dd\<lparr>dd_cache := c\<rparr>"
    have m: "cached ?dd = (cached dd)(k := None)" using c(4) by (simp add: cached_def fun_eq_iff)
    have "disk_ok cap ?dd" using okD c(3) m by (auto simp: disk_ok_def split: if_splits)
    moreover have "view_of ((cached dd)(k \<mapsto> r)) (sectors (dd_pata dd)) = view_of ((cached dd)(k := None)) (sectors (dd_pata dd))"
      using rok False okD(6) by (intro view_clean) (simp_all add: cached_region_ok_def)
    then have "disk_view ?dd = disk_view dd" using m r by (simp add: disk_view_def fun_upd_idem)
    ultimately show ?thesis using False c(2) m un r by (intro exI[of _ r] exI[of _ ?dd]) (simp add: evict_def del: lru_prune.simps)
  qed
qed

text \<open>One round of the loop: a queued region that is cached is stored on the drive.\<close>

lemma writeback_round:
  assumes ok: "disk_ok cap dd" and q: "q_contents (dd_dirty dd) = k # ks" and k: "k \<in> dom (cached dd)"
  shows "\<exists>dd'. writeback_device dd = writeback_device dd' \<and> disk_ok cap dd' \<and> disk_view dd' = disk_view dd \<and>
           q_contents (dd_dirty dd') = ks \<and> dom (cached dd') = dom (cached dd) \<and>
           dirty_keys dd' = dirty_keys dd - {k} \<and>
           (\<forall>b. block_cache_region_start b \<noteq> k \<longrightarrow> sectors (dd_pata dd') b = sectors (dd_pata dd) b)"
proof -
  note okD = disk_okD[OF ok]
  have ne: "\<not> q_empty (dd_dirty dd)" using qu.is_empty_contents[OF okD(4)] q by simp
  from qu.pop_front_Cons[OF okD(4) q] obtain q' where
    q': "q_pop_front (dd_dirty dd) = Inr (k, q')" "q_wf q'" "q_contents q' = ks" by blast
  from lru_get_view[OF okD(3), of k] obtain c where
    c: "lru_get (dd_cache dd) k = Some (Inr (cached dd k, c))" "lru_wf c" "map_get (lru_map c) = map_get (lru_map (dd_cache dd))"
    by (auto simp: cached_def)
  from k obtain r where r: "cached dd k = Some r" by auto
  have rok: "cached_region_ok (dd_pata dd) cap k r" by (rule okD(5)[OF r])
  from flush_region[OF ok r] obtain p where
    p: "write_uncached_blocks (dd_pata dd) (cr_start_block r) (cr_num_blocks r) (cr_data r) = Inr (Inr (), p)"
      "pata_ok p cap" "sectors p = put_run BLOCK_SIZE (sectors (dd_pata dd)) k (cr_data r)" by blast
  let ?mid = "dd\<lparr>dd_dirty := q', dd_cache := c, dd_pata := p\<rparr>" and ?r = "r\<lparr>cr_dirty := False\<rparr>"
  let ?dd = "put_region ?mid k ?r"
  have mid: "cached ?mid = cached dd" using c(3) by (simp add: cached_def fun_eq_iff)
  have d: "cached ?dd = (cached dd)(k \<mapsto> ?r)" "lru_wf (dd_cache ?dd)" "dd_pata ?dd = p" "dd_dirty ?dd = q'"
    using cached_put_region[of ?mid k ?r] mid c(2) r by auto
  have same: "read_run (sectors p) k 8 = cr_data r"
    using p(3) read_run_put_run[OF okD(6), of "cr_data r" 8 k] rok by (simp add: cached_region_ok_def)
  have "cached_region_ok p cap k' r'" if "cached ?dd k' = Some r'" for k' r'
    using that d(1) cached_region_ok_flush[OF rok okD(5) _ p(3), of k' r'] rok same
    by (auto simp: cached_region_ok_def split: if_splits)
  then have ok': "disk_ok cap ?dd" using d okD(2) p(2) q'(2) by (simp add: disk_ok_def)
  have "view_of ((cached dd)(k \<mapsto> ?r)) (sectors p) = view_of (cached dd) (sectors p)"
    using view_keep_data[of "cached dd" k r ?r "sectors p"] r by simp
  also have "\<dots> = view_of (cached dd) (sectors (dd_pata dd))"
    using view_flush(2)[of k "cached dd" r "sectors (dd_pata dd)"] r rok p(3) by (simp add: cached_region_ok_def)
  finally have view: "disk_view ?dd = disk_view dd" using d by (simp add: disk_view_def)
  have "sectors p b = sectors (dd_pata dd) b" if "block_cache_region_start b \<noteq> k" for b
    using that p(3) rok region_start_unique[of k b] by (auto simp: cached_region_ok_def put_run_def)
  moreover have "writeback_device dd = writeback_device ?dd"
    using ne q'(1) c(1) r p(1) by (subst writeback_device.simps) simp
  moreover have "dirty_keys ?dd = dirty_keys dd - {k}" using d(1) by (auto simp: dirty_keys_def)
  ultimately show ?thesis using ok' view d q'(3) r by (intro exI[of _ ?dd]) auto
qed

lemma writeback_device_spec:
  assumes "disk_ok cap dd" "set (q_contents (dd_dirty dd)) \<subseteq> dom (cached dd)"
  shows "\<exists>dd'. writeback_device dd = Some (Inr (True, dd')) \<and> disk_ok cap dd' \<and> disk_view dd' = disk_view dd \<and>
           q_contents (dd_dirty dd') = [] \<and> dom (cached dd') = dom (cached dd) \<and>
           dirty_keys dd' = dirty_keys dd - set (q_contents (dd_dirty dd))"
  using assms
proof (induction "q_contents (dd_dirty dd)" arbitrary: dd)
  case Nil
  then have "q_empty (dd_dirty dd)" using qu.is_empty_contents[OF disk_okD(4)[OF Nil.prems(1)]] by simp
  with Nil show ?case by (subst writeback_device.simps) auto
next
  case (Cons k ks)
  then have k: "k \<in> dom (cached dd)" and ks: "set ks \<subseteq> dom (cached dd)" by (metis list.set_intros(1) subsetD, metis set_subset_Cons subset_trans)
  from writeback_round[OF Cons.prems(1) Cons.hyps(2)[symmetric] k] obtain dd1 where
    1: "writeback_device dd = writeback_device dd1" "disk_ok cap dd1" "disk_view dd1 = disk_view dd"
      "q_contents (dd_dirty dd1) = ks" "dom (cached dd1) = dom (cached dd)" "dirty_keys dd1 = dirty_keys dd - {k}" by blast
  from Cons.hyps(1)[OF 1(4)[symmetric] 1(2)] 1 ks Cons.hyps(2)[symmetric] show ?case by auto
qed

text \<open>A queued region that is not cached any more ends the loop; only the regions before it are stored.\<close>

lemma writeback_device_stops:
  assumes "disk_ok cap dd" "q_contents (dd_dirty dd) = pre @ k # ks" "set pre \<subseteq> dom (cached dd)" "cached dd k = None"
  shows "\<exists>dd'. writeback_device dd = Some (Inr (False, dd')) \<and> q_contents (dd_dirty dd') = ks \<and>
           dom (cached dd') = dom (cached dd) \<and> dirty_keys dd' = dirty_keys dd - set pre \<and>
           (\<forall>b. block_cache_region_start b \<notin> set pre \<longrightarrow> sectors (dd_pata dd') b = sectors (dd_pata dd) b)"
  using assms
proof (induction pre arbitrary: dd)
  case Nil
  note okD = disk_okD[OF Nil.prems(1)]
  have q: "q_contents (dd_dirty dd) = k # ks" using Nil.prems(2) by simp
  then have ne: "\<not> q_empty (dd_dirty dd)" using qu.is_empty_contents[OF okD(4)] by simp
  from qu.pop_front_Cons[OF okD(4) q] obtain q' where
    q': "q_pop_front (dd_dirty dd) = Inr (k, q')" "q_contents q' = ks" by blast
  from lru_get_view[OF okD(3), of k] obtain c where
    c: "lru_get (dd_cache dd) k = Some (Inr (None, c))" "map_get (lru_map c) = map_get (lru_map (dd_cache dd))"
    using Nil.prems(4) by (auto simp: cached_def)
  let ?dd = "dd\<lparr>dd_dirty := q', dd_cache := c\<rparr>"
  have "cached ?dd = cached dd" using c(2) by (simp add: cached_def fun_eq_iff)
  moreover have "writeback_device dd = Some (Inr (False, ?dd))"
    using ne q'(1) c(1) by (subst writeback_device.simps) simp
  ultimately show ?case using q'(2) by (intro exI[of _ ?dd]) (simp add: dirty_keys_def)
next
  case (Cons a pre)
  from writeback_round[OF Cons.prems(1), of a "pre @ k # ks"] Cons.prems(2,3) obtain dd1 where
    1: "writeback_device dd = writeback_device dd1" "disk_ok cap dd1" "q_contents (dd_dirty dd1) = pre @ k # ks"
      "dom (cached dd1) = dom (cached dd)" "dirty_keys dd1 = dirty_keys dd - {a}"
      "\<forall>b. block_cache_region_start b \<noteq> a \<longrightarrow> sectors (dd_pata dd1) b = sectors (dd_pata dd) b" by auto
  have "cached dd1 k = None" using 1(4) Cons.prems(4) by (metis domIff)
  from Cons.IH[OF 1(2,3) _ this] 1 Cons.prems(3) show ?case by auto
qed

section \<open>All disks\<close>

abbreviation disks_ok :: "nat list \<Rightarrow> 'd disk list \<Rightarrow> bool" where
  "disks_ok caps devs \<equiv> list_all2 disk_ok caps devs"

text \<open>The search returns the oldest region of some device that has one.\<close>

lemma find_lru_spec:
  assumes "disks_ok caps devs"
  shows "\<exists>res. find_lru i devs t best = Some (Inr res) \<and>
           (res = best \<or> (\<exists>j < length devs. \<not> lru_empty (dd_cache (devs ! j)) \<and>
              res = Some (i + j, the (cached (devs ! j) (hd (lru_order (dd_cache (devs ! j))))))))"
  using assms
proof (induction caps devs arbitrary: i t best rule: list_all2_induct)
  case Nil
  then show ?case by simp
next
  case (Cons cap caps dev devs)
  have shift: "\<exists>j < length (dev # devs). \<not> lru_empty (dd_cache ((dev # devs) ! j)) \<and>
      res = Some (i + j, the (cached ((dev # devs) ! j) (hd (lru_order (dd_cache ((dev # devs) ! j))))))"
    if "\<exists>j < length devs. \<not> lru_empty (dd_cache (devs ! j)) \<and>
      res = Some (Suc i + j, the (cached (devs ! j) (hd (lru_order (dd_cache (devs ! j))))))" for res
  proof -
    from that obtain j where "j < length devs" "\<not> lru_empty (dd_cache (devs ! j))"
      "res = Some (Suc i + j, the (cached (devs ! j) (hd (lru_order (dd_cache (devs ! j))))))" by blast
    then show ?thesis by (intro exI[of _ "Suc j"]) simp
  qed
  show ?case
  proof (cases "lru_empty (dd_cache dev)")
    case True
    with Cons.IH[of "Suc i" t best] shift show ?thesis by auto
  next
    case False
    from evict_spec[OF Cons.hyps(1) False refl] obtain r where
      r: "\<And>d. lru_unsafe d (dd_cache dev) = Some (Inr ((hd (lru_order (dd_cache dev)), r), dd_cache dev))"
        "cached dev (hd (lru_order (dd_cache dev))) = Some r" by blast
    show ?thesis
    proof (cases "time_lt (cr_last_used r) t")
      case True
      have "\<exists>j < length (dev # devs). \<not> lru_empty (dd_cache ((dev # devs) ! j)) \<and>
          Some (i, r) = Some (i + j, the (cached ((dev # devs) ! j) (hd (lru_order (dd_cache ((dev # devs) ! j))))))"
        using False r(2) by (intro exI[of _ 0]) simp
      with True False r(1) Cons.IH[of "Suc i" "cr_last_used r" "Some (i, r)"] shift show ?thesis by auto
    next
      case False2: False
      with False r(1) Cons.IH[of "Suc i" t best] shift show ?thesis by auto
    qed
  qed
qed

text \<open>What eviction leaves alone, device by device.\<close>

definition shrunk :: "'d disk \<Rightarrow> 'd disk \<Rightarrow> bool" where
  "shrunk dd dd' \<longleftrightarrow> disk_view dd' = disk_view dd \<and> dd_dirty dd' = dd_dirty dd \<and>
     dirty_keys dd' \<subseteq> dirty_keys dd \<and> dom (cached dd') \<subseteq> dom (cached dd)"

lemma shrunk_refl: "shrunk dd dd"
  by (simp add: shrunk_def)

lemma shrunk_trans: "shrunk a b \<Longrightarrow> shrunk b c \<Longrightarrow> shrunk a c"
  unfolding shrunk_def by (metis subset_trans)

lemma free_pages_loop_spec:
  assumes "disks_ok caps (s_disk_devices ds)"
  shows "\<exists>n ds'. free_pages_loop ds num_pages num_freed = Some (Inr (n, ds')) \<and>
           disks_ok caps (s_disk_devices ds') \<and> list_all2 shrunk (s_disk_devices ds) (s_disk_devices ds')"
  using assms
proof (induction "num_pages - num_freed" arbitrary: num_freed ds)
  case 0
  then show ?case by (subst free_pages_loop.simps) (simp add: list.rel_refl shrunk_refl)
next
  case (Suc m)
  let ?devs = "s_disk_devices ds"
  from find_lru_spec[OF Suc.prems, of 0 distant_future None] obtain res where
    res: "find_lru 0 ?devs distant_future None = Some (Inr res)"
      "res = None \<or> (\<exists>j < length ?devs. \<not> lru_empty (dd_cache (?devs ! j)) \<and>
         res = Some (j, the (cached (?devs ! j) (hd (lru_order (dd_cache (?devs ! j)))))))" by auto
  show ?case
  proof (cases res)
    case None
    then have "free_pages_loop ds num_pages num_freed = Some (Inr (num_freed, ds))"
      using res(1) by (subst free_pages_loop.simps) simp
    with Suc.prems show ?thesis using list.rel_refl[of shrunk, OF shrunk_refl] by blast
  next
    case (Some x)
    with res(2) obtain j where j: "j < length ?devs" "\<not> lru_empty (dd_cache (?devs ! j))"
      "res = Some (j, the (cached (?devs ! j) (hd (lru_order (dd_cache (?devs ! j))))))" by blast
    have len: "length caps = length ?devs" using Suc.prems by (rule list_all2_lengthD)
    have ok: "disk_ok (caps ! j) (?devs ! j)" using Suc.prems j(1) len by (simp add: list_all2_conv_all_nth)
    let ?k = "hd (lru_order (dd_cache (?devs ! j)))"
    from evict_spec[OF ok j(2) refl] obtain r dd' where
      e: "cached (?devs ! j) ?k = Some r" "evict (?devs ! j) r = Some (Inr dd')" "disk_ok (caps ! j) dd'"
        "disk_view dd' = disk_view (?devs ! j)" "cached dd' = (cached (?devs ! j))(?k := None)"
        "dd_dirty dd' = dd_dirty (?devs ! j)" by blast
    have lr: "length (cr_data r) = 4096" using disk_okD(5)[OF ok e(1)] by (simp add: cached_region_ok_def)
    let ?ds = "ds\<lparr>s_disk_devices := ?devs[j := dd'],
                  s_used_cache_memory := sub32 (s_used_cache_memory ds) (length (cr_data r))\<rparr>"
    have oks: "disks_ok caps (s_disk_devices ?ds)"
      using Suc.prems e(3) j(1) len by (simp add: list_all2_conv_all_nth nth_list_update)
    have sh: "shrunk (?devs ! j) dd'" using e(4-6) by (auto simp: shrunk_def dirty_keys_def)
    have shr: "list_all2 shrunk ?devs (?devs[j := dd'])"
      using sh j(1) by (auto simp: list_all2_conv_all_nth nth_list_update shrunk_refl)
    have m: "m = num_pages - (num_freed + length (cr_data r) div 4096)" using Suc.hyps(2) lr by simp
    from Suc.hyps(1)[OF m oks] obtain n ds' where
      d: "free_pages_loop ?ds num_pages (num_freed + length (cr_data r) div 4096) = Some (Inr (n, ds'))"
        "disks_ok caps (s_disk_devices ds')" "list_all2 shrunk (s_disk_devices ?ds) (s_disk_devices ds')" by blast
    have "num_freed < num_pages" using Suc.hyps(2) by simp
    then have "free_pages_loop ds num_pages num_freed = Some (Inr (n, ds'))"
      using res(1) j(3) e(1,2) d(1) by (subst free_pages_loop.simps) simp
    moreover have "list_all2 shrunk ?devs (s_disk_devices ds')"
      using list_all2_trans[OF shrunk_trans shr] d(3) by simp
    ultimately show ?thesis using d(2) by blast
  qed
qed

lemma clean_view:
  assumes ok: "disk_ok cap dd" and clean: "dirty_keys dd = {}"
  shows "disk_view dd = sectors (dd_pata dd)"
proof
  fix b
  show "disk_view dd b = sectors (dd_pata dd) b"
  proof (cases "cached dd (block_cache_region_start b)")
    case (Some r)
    then have "\<not> cr_dirty r" using clean by (auto simp: dirty_keys_def)
    then have "cr_data r = read_run (sectors (dd_pata dd)) (block_cache_region_start b) 8"
      using disk_okD(5)[OF ok Some] by (simp add: cached_region_ok_def)
    with Some show ?thesis
      using chunk_read_run[OF disk_okD(6)[OF ok], of "b mod 8" 8 "block_cache_region_start b"] region_start_facts(2)[of b]
      by (simp add: disk_view_def view_of_def)
  qed (simp add: disk_view_def view_of_def)
qed

section \<open>Sequences of operations\<close>

datatype disk_op = DiskRead ktime nat nat nat | DiskWrite ktime nat nat "u8 list" | DiskFree nat | DiskSync

datatype disk_out = Bytes "u8 list" | Written | Freed | TaskAlive bool

fun disk_step :: "disk_op \<Rightarrow> 'd disks \<Rightarrow> (disk_out \<times> 'd disks) prun" where
  "disk_step (DiskRead t i b n) ds =
     bindP (read_blocks (\<lambda>_. t) (s_disk_devices ds ! i) (s_used_cache_memory ds) b n) (\<lambda>(bytes, dd, used).
       Some (Inr (Bytes bytes, ds\<lparr>s_disk_devices := (s_disk_devices ds)[i := dd], s_used_cache_memory := used\<rparr>)))"
| "disk_step (DiskWrite t i b bytes) ds =
     bindP (write_block t (s_disk_devices ds ! i) (s_used_cache_memory ds) (s_writeback_blocker ds) b bytes) (\<lambda>(dd, used, wb).
       Some (Inr (Written, ds\<lparr>s_disk_devices := (s_disk_devices ds)[i := dd], s_used_cache_memory := used,
                              s_writeback_blocker := wb\<rparr>)))"
| "disk_step (DiskFree n) ds = bindP (free_pages ds n) (\<lambda>(_, ds'). Some (Inr (Freed, ds')))"
| "disk_step DiskSync ds = bindP (writeback_pass ds) (\<lambda>(alive, ds'). Some (Inr (TaskAlive alive, ds')))"

fun disk_run :: "disk_op list \<Rightarrow> 'd disks \<Rightarrow> (disk_out list \<times> 'd disks) prun" where
  "disk_run [] ds = Some (Inr ([], ds))"
| "disk_run (op # ops) ds =
     bindP (disk_step op ds) (\<lambda>(out, ds'). bindP (disk_run ops ds') (\<lambda>(outs, ds''). Some (Inr (out # outs, ds''))))"

text \<open>The reference: drives without a cache, whose writes take effect at once.\<close>

fun raw_step :: "disk_op \<Rightarrow> (nat \<Rightarrow> u8 list) list \<Rightarrow> disk_out \<times> (nat \<Rightarrow> u8 list) list" where
  "raw_step (DiskRead t i b n) vs = (Bytes (read_run (vs ! i) b n), vs)"
| "raw_step (DiskWrite t i b bytes) vs = (Written, vs[i := (vs ! i)(b := bytes)])"
| "raw_step (DiskFree n) vs = (Freed, vs)"
| "raw_step DiskSync vs = (TaskAlive True, vs)"

fun raw_run :: "disk_op list \<Rightarrow> (nat \<Rightarrow> u8 list) list \<Rightarrow> disk_out list \<times> (nat \<Rightarrow> u8 list) list" where
  "raw_run [] vs = ([], vs)"
| "raw_run (op # ops) vs =
     (case raw_step op vs of (out, vs') \<Rightarrow> case raw_run ops vs' of (outs, vs'') \<Rightarrow> (out # outs, vs''))"

fun disk_op_ok :: "nat list \<Rightarrow> disk_op \<Rightarrow> bool" where
  "disk_op_ok caps (DiskRead t i b n) \<longleftrightarrow> i < length caps \<and> b + n \<le> caps ! i"
| "disk_op_ok caps (DiskWrite t i b bytes) \<longleftrightarrow> i < length caps \<and> b < caps ! i \<and> length bytes = 512"
| "disk_op_ok caps _ \<longleftrightarrow> True"

text \<open>
  A write is followed by a pass of the write-back task before the next write or eviction; the flag
  says that a write is waiting for that pass.
\<close>

fun settled_ops :: "bool \<Rightarrow> disk_op list \<Rightarrow> bool" where
  "settled_ops w [] = (\<not> w)"
| "settled_ops w (DiskRead t i b n # ops) = settled_ops w ops"
| "settled_ops w (DiskWrite t i b bytes # ops) = (\<not> w \<and> settled_ops True ops)"
| "settled_ops w (DiskFree n # ops) = (\<not> w \<and> settled_ops False ops)"
| "settled_ops w (DiskSync # ops) = settled_ops False ops"

definition settled :: "nat \<Rightarrow> 'd disk \<Rightarrow> bool" where
  "settled cap dd \<longleftrightarrow> disk_ok cap dd \<and> q_contents (dd_dirty dd) = [] \<and> dirty_keys dd = {}"


definition pending :: "nat \<Rightarrow> 'd disk \<Rightarrow> bool" where
  "pending cap dd \<longleftrightarrow> disk_ok cap dd \<and> set (q_contents (dd_dirty dd)) \<subseteq> dom (cached dd) \<and>
     dirty_keys dd \<subseteq> set (q_contents (dd_dirty dd))"

definition stage :: "bool \<Rightarrow> nat \<Rightarrow> 'd disk \<Rightarrow> bool" where
  "stage w cap dd = (if w then pending cap dd else settled cap dd)"

lemma stage_simps [simp]: "stage True = pending" "stage False = settled"
  by (simp_all add: stage_def fun_eq_iff)

lemma same_disk_stage: "same_disk cap dd dd' \<Longrightarrow> stage w cap dd \<Longrightarrow> stage w cap dd'"
  using subset_trans[of "set (q_contents (dd_dirty dd))" "dom (cached dd)" "dom (cached dd')"]
  unfolding stage_def pending_def settled_def same_disk_def by (simp split: if_splits)

lemma settled_pending: "settled cap dd \<Longrightarrow> pending cap dd"
  by (simp add: settled_def pending_def)

lemma settled_disks_ok: "list_all2 settled caps devs \<Longrightarrow> disks_ok caps devs"
  by (auto simp: settled_def elim: list_all2_mono)

lemma writeback_devices_spec:
  assumes "list_all2 pending caps devs"
  shows "\<exists>devs'. writeback_devices devs = Some (Inr (True, devs')) \<and> list_all2 settled caps devs' \<and>
           map disk_view devs' = map disk_view devs"
  using assms
proof (induction caps devs rule: list_all2_induct)
  case Nil
  then show ?case by simp
next
  case (Cons cap caps dev devs)
  then obtain devs' where
    d: "writeback_devices devs = Some (Inr (True, devs'))" "list_all2 settled caps devs'"
      "map disk_view devs' = map disk_view devs" by blast
  from writeback_device_spec[of cap dev] Cons.hyps(1) obtain dev' where
    e: "writeback_device dev = Some (Inr (True, dev'))" "disk_ok cap dev'" "disk_view dev' = disk_view dev"
      "q_contents (dd_dirty dev') = []" "dirty_keys dev' = dirty_keys dev - set (q_contents (dd_dirty dev))"
    by (auto simp: pending_def)
  have "dirty_keys dev' = {}" using e(5) Cons.hyps(1) by (auto simp: pending_def)
  then have "settled cap dev'" using e(2,4) by (simp add: settled_def)
  with d e(1,3) show ?case by simp
qed

lemma disk_step_sync:
  assumes "list_all2 pending caps (s_disk_devices ds)"
  shows "\<exists>ds'. disk_step DiskSync ds = Some (Inr (TaskAlive True, ds')) \<and>
           list_all2 settled caps (s_disk_devices ds') \<and>
           map disk_view (s_disk_devices ds') = map disk_view (s_disk_devices ds)"
  using writeback_devices_spec[OF assms] by (auto simp: writeback_pass_def)

lemma disk_step_free:
  assumes "list_all2 settled caps (s_disk_devices ds)"
  shows "\<exists>ds'. disk_step (DiskFree n) ds = Some (Inr (Freed, ds')) \<and>
           list_all2 settled caps (s_disk_devices ds') \<and>
           map disk_view (s_disk_devices ds') = map disk_view (s_disk_devices ds)"
proof -
  from free_pages_loop_spec[OF settled_disks_ok[OF assms], of n 0] obtain m ds' where
    d: "free_pages_loop ds n 0 = Some (Inr (m, ds'))" "disks_ok caps (s_disk_devices ds')"
      "list_all2 shrunk (s_disk_devices ds) (s_disk_devices ds')" by blast
  have "list_all2 settled caps (s_disk_devices ds')"
    using assms d(2,3) by (auto simp: list_all2_conv_all_nth settled_def shrunk_def)
  moreover have "map disk_view (s_disk_devices ds') = map disk_view (s_disk_devices ds)"
    using d(3) by (auto simp: list_all2_conv_all_nth shrunk_def intro!: nth_equalityI)
  ultimately show ?thesis using d(1) by (auto simp: free_pages_def)
qed

lemma map_view_update:
  "i < length devs \<Longrightarrow> map disk_view (devs[i := dd]) = (map disk_view devs)[i := disk_view dd]"
  by (simp add: map_update)

lemma disk_step_read:
  assumes ok: "list_all2 (stage w) caps (s_disk_devices ds)" and i: "i < length caps" "b + n \<le> caps ! i"
  shows "\<exists>ds'. disk_step (DiskRead t i b n) ds =
             Some (Inr (Bytes (read_run (map disk_view (s_disk_devices ds) ! i) b n), ds')) \<and>
           list_all2 (stage w) caps (s_disk_devices ds') \<and>
           map disk_view (s_disk_devices ds') = map disk_view (s_disk_devices ds)"
proof -
  let ?devs = "s_disk_devices ds"
  have len: "length ?devs = length caps" using list_all2_lengthD[OF ok] by simp
  have dev: "stage w (caps ! i) (?devs ! i)" using list_all2_nthD[OF ok, of i] i(1) by simp
  have disk: "disk_ok (caps ! i) (?devs ! i)"
    using dev by (auto simp: stage_def pending_def settled_def split: if_splits)
  from read_blocks_loop_spec[of "caps ! i" "?devs ! i" b 0 n "\<lambda>_. t" "s_used_cache_memory ds" None] disk i(2)
  obtain dd used where
    r: "read_blocks (\<lambda>_. t) (?devs ! i) (s_used_cache_memory ds) b n = Some (Inr (read_run (disk_view (?devs ! i)) b n, dd, used))"
      "same_disk (caps ! i) (?devs ! i) dd" by (auto simp: read_blocks_def)
  have "stage w (caps ! i) dd" using same_disk_stage[OF r(2) dev] .
  then have "list_all2 (stage w) caps (?devs[i := dd])"
    using ok i(1) len by (auto simp: list_all2_conv_all_nth nth_list_update)
  moreover have "map disk_view (?devs[i := dd]) = map disk_view ?devs"
    using r(2) i(1) len by (simp add: map_view_update same_disk_def list_update_same_conv)
  ultimately show ?thesis using r(1) i(1) len by simp
qed

lemma disk_step_write:
  assumes ok: "list_all2 settled caps (s_disk_devices ds)"
    and i: "i < length caps" "b < caps ! i" "length bytes = 512"
  shows "\<exists>ds'. disk_step (DiskWrite t i b bytes) ds = Some (Inr (Written, ds')) \<and>
           list_all2 pending caps (s_disk_devices ds') \<and>
           map disk_view (s_disk_devices ds') =
             (map disk_view (s_disk_devices ds))[i := (map disk_view (s_disk_devices ds) ! i)(b := bytes)]"
proof -
  let ?devs = "s_disk_devices ds"
  have len: "length ?devs = length caps" using list_all2_lengthD[OF ok] by simp
  have dev: "settled (caps ! i) (?devs ! i)" using list_all2_nthD[OF ok, of i] i(1) by simp
  from write_block_spec[of "caps ! i" "?devs ! i" b bytes t "s_used_cache_memory ds" "s_writeback_blocker ds"] dev i(2,3)
  obtain dd used where
    r: "write_block t (?devs ! i) (s_used_cache_memory ds) (s_writeback_blocker ds) b bytes =
          Some (Inr (dd, used, set_ready True (s_writeback_blocker ds)))"
      "disk_ok (caps ! i) dd" "disk_view dd = (disk_view (?devs ! i))(b := bytes)"
      "q_contents (dd_dirty dd) = [block_cache_region_start b]" "dirty_keys dd = {block_cache_region_start b}"
      "block_cache_region_start b \<in> dom (cached dd)" by (auto simp: settled_def)
  have "pending (caps ! i) dd" using r by (simp add: pending_def)
  then have "list_all2 pending caps (?devs[i := dd])"
    using ok i(1) len settled_pending by (auto simp: list_all2_conv_all_nth nth_list_update)
  moreover have "map disk_view (?devs[i := dd]) = (map disk_view ?devs)[i := (map disk_view ?devs ! i)(b := bytes)]"
    using r(3) i(1) len by (simp add: map_view_update)
  ultimately show ?thesis using r(1) by simp
qed

lemma disk_run_equals_raw:
  assumes "settled_ops w ops" "list_all (disk_op_ok caps) ops" "list_all2 (stage w) caps (s_disk_devices ds)"
  shows "\<exists>ds'. disk_run ops ds = Some (Inr (fst (raw_run ops (map disk_view (s_disk_devices ds))), ds')) \<and>
           list_all2 settled caps (s_disk_devices ds') \<and>
           map disk_view (s_disk_devices ds') = snd (raw_run ops (map disk_view (s_disk_devices ds)))"
  using assms
proof (induction ops arbitrary: w ds)
  case Nil
  then show ?case by simp
next
  case (Cons op ops)
  let ?vs = "map disk_view (s_disk_devices ds)"
  obtain ds1 w1 where a: "disk_step op ds = Some (Inr (fst (raw_step op ?vs), ds1))"
    "list_all2 (stage w1) caps (s_disk_devices ds1)" "settled_ops w1 ops"
    "map disk_view (s_disk_devices ds1) = snd (raw_step op ?vs)"
  proof (cases op)
    case (DiskRead t i b n)
    with disk_step_read[OF Cons.prems(3), of i b n t] Cons.prems(1,2) obtain ds1 where
      "disk_step op ds = Some (Inr (fst (raw_step op ?vs), ds1))" "list_all2 (stage w) caps (s_disk_devices ds1)"
      "map disk_view (s_disk_devices ds1) = snd (raw_step op ?vs)" by (auto simp del: disk_step.simps)
    with DiskRead Cons.prems(1) show ?thesis by (intro that[of ds1 w]) simp_all
  next
    case (DiskWrite t i b bytes)
    with Cons.prems have w: "\<not> w" "list_all2 settled caps (s_disk_devices ds)" by (auto simp: stage_def cong: list.rel_cong)
    with disk_step_write[OF w(2), of i b bytes t] Cons.prems(2) DiskWrite obtain ds1 where
      "disk_step op ds = Some (Inr (fst (raw_step op ?vs), ds1))" "list_all2 pending caps (s_disk_devices ds1)"
      "map disk_view (s_disk_devices ds1) = snd (raw_step op ?vs)" by (auto simp del: disk_step.simps)
    with DiskWrite Cons.prems(1) show ?thesis by (intro that[of ds1 True]) simp_all
  next
    case (DiskFree n)
    with Cons.prems have w: "\<not> w" "list_all2 settled caps (s_disk_devices ds)" by (auto simp: stage_def cong: list.rel_cong)
    with disk_step_free[OF w(2), of n] DiskFree obtain ds1 where
      "disk_step op ds = Some (Inr (fst (raw_step op ?vs), ds1))" "list_all2 settled caps (s_disk_devices ds1)"
      "map disk_view (s_disk_devices ds1) = snd (raw_step op ?vs)" by (auto simp del: disk_step.simps)
    with DiskFree Cons.prems(1) show ?thesis by (intro that[of ds1 False]) simp_all
  next
    case DiskSync
    have "list_all2 pending caps (s_disk_devices ds)"
      using Cons.prems(3) by (rule list_all2_mono) (auto simp: stage_def settled_pending split: if_splits)
    from disk_step_sync[OF this] DiskSync obtain ds1 where
      "disk_step op ds = Some (Inr (fst (raw_step op ?vs), ds1))" "list_all2 settled caps (s_disk_devices ds1)"
      "map disk_view (s_disk_devices ds1) = snd (raw_step op ?vs)" by (auto simp del: disk_step.simps)
    with DiskSync Cons.prems(1) show ?thesis by (intro that[of ds1 False]) simp_all
  qed
  from Cons.IH[OF a(3) _ a(2)] Cons.prems(2) obtain ds2 where
    c: "disk_run ops ds1 = Some (Inr (fst (raw_run ops (map disk_view (s_disk_devices ds1))), ds2))"
      "list_all2 settled caps (s_disk_devices ds2)"
      "map disk_view (s_disk_devices ds2) = snd (raw_run ops (map disk_view (s_disk_devices ds1)))" by auto
  show ?case using a(1) c unfolding a(4)
    by (cases "raw_step op ?vs"; cases "raw_run ops (snd (raw_step op ?vs))") (simp del: disk_step.simps)
qed

text \<open>
  C5: the cache is invisible. Any sequence of reads, block writes, evictions under memory pressure
  and write-back passes in which each write is written back before the next write or eviction
  returns exactly what drives without a cache return, without a fault, keeps the write-back task
  alive, and leaves every drive with the data written.
\<close>

theorem disk_cache_transparent:
  assumes "settled_ops False ops" and "list_all (disk_op_ok caps) ops"
    and "list_all2 settled caps (s_disk_devices ds)"
  shows "\<exists>ds'. disk_run ops ds = Some (Inr (fst (raw_run ops (map disk_view (s_disk_devices ds))), ds')) \<and>
           map disk_view (s_disk_devices ds') = snd (raw_run ops (map disk_view (s_disk_devices ds))) \<and>
           map (\<lambda>dd. sectors (dd_pata dd)) (s_disk_devices ds') =
             snd (raw_run ops (map disk_view (s_disk_devices ds)))"
proof -
  have "list_all2 (stage False) caps (s_disk_devices ds)" using assms(3) by simp
  from disk_run_equals_raw[OF assms(1,2) this] obtain ds' where
    d: "disk_run ops ds = Some (Inr (fst (raw_run ops (map disk_view (s_disk_devices ds))), ds'))"
      "list_all2 settled caps (s_disk_devices ds')"
      "map disk_view (s_disk_devices ds') = snd (raw_run ops (map disk_view (s_disk_devices ds)))" by blast
  have "map (\<lambda>dd. sectors (dd_pata dd)) (s_disk_devices ds') = map disk_view (s_disk_devices ds')"
  proof (rule nth_equalityI)
    fix i
    assume "i < length (map (\<lambda>dd. sectors (dd_pata dd)) (s_disk_devices ds'))"
    then have i: "i < length (s_disk_devices ds')" by simp
    then have "settled (caps ! i) (s_disk_devices ds' ! i)" using list_all2_nthD2[OF d(2)] by simp
    with clean_view[of "caps ! i" "s_disk_devices ds' ! i"] i
    show "map (\<lambda>dd. sectors (dd_pata dd)) (s_disk_devices ds') ! i = map disk_view (s_disk_devices ds') ! i"
      by (simp add: settled_def)
  qed simp
  with d show ?thesis by auto
qed

text \<open>A drive that meets the contract, and a new disk on it, for examples.\<close>

definition demo_sector :: "(nat \<Rightarrow> u8 list) \<Rightarrow> nat \<Rightarrow> u8 list" where
  "demo_sector d s = (if length (d s) = 512 then d s else replicate 512 0)"

definition demo_hw :: "(nat \<Rightarrow> u8 list) drive_hw" where
  "demo_hw = \<lparr>
     hw_read_dma = \<lambda>d r. Some (read_run (demo_sector d) (ata28_lba r) (ata28_count r)),
     hw_write_dma = \<lambda>d r data. (put_run 512 (demo_sector d) (ata28_lba r) data, True),
     hw_read_pio = \<lambda>d r. bytes_words (read_run (demo_sector d) (ata28_lba r) (ata28_count r)),
     hw_write_pio = \<lambda>d r ws. put_run 512 (demo_sector d) (ata28_lba r) (concat (map word_bytes ws)),
     hw_sector = demo_sector\<rparr>"

lemma demo_sector_sized: "sized 512 (demo_sector d)"
  by (simp add: sized_def demo_sector_def)

lemma demo_sector_id: "sized 512 d \<Longrightarrow> demo_sector d = d"
  by (simp add: demo_sector_def sized_def fun_eq_iff)

lemma demo_drive_ok: "drive_ok demo_hw cap"
  by (simp add: drive_ok_def demo_hw_def demo_sector_sized demo_sector_id bytes_words_round_trip)

definition demo_disk :: "(nat \<Rightarrow> u8 list) disk" where
  "demo_disk = \<lparr>dd_pata = \<lparr>pa_hw = demo_hw, pa_drive = \<lambda>_. replicate 512 0, pa_regs = \<lambda>_. 0, pa_slave = False,
     pa_use_pio = False, pa_lba48 = False, pa_max_addressable_block = 16, pa_dma_size = 4096\<rparr>,
     dd_cache = lru_new, dd_dirty = q_new\<rparr>"

lemma q_new_ok: "q_wf q_new" "q_contents q_new = []"
  by (simp_all add: q_new_def q_wf_def q_rep_def q_contents_def ring_live_def kcalloc_def blk_def)

lemma demo_disk_settled: "settled 16 demo_disk"
proof -
  have "cached demo_disk = Map.empty"
    by (simp add: cached_def demo_disk_def lru_new_def map_get_new fun_eq_iff)
  then show ?thesis
    by (simp add: settled_def disk_ok_def dirty_keys_def pata_ok_def)
      (simp add: demo_disk_def demo_drive_ok lru_new_wf q_new_ok)
qed

theorem disk_cache_transparent_witness:
  "\<exists>ds'. disk_run [DiskWrite time_zero 0 3 (replicate 512 7), DiskSync, DiskFree 1, DiskRead time_zero 0 3 1]
       \<lparr>s_used_cache_memory = 0, s_disk_devices = [demo_disk], s_writeback_blocker = blocker_new\<rparr> =
     Some (Inr ([Written, TaskAlive True, Freed, Bytes (replicate 512 7)], ds'))"
  using disk_cache_transparent[of "[DiskWrite time_zero 0 3 (replicate 512 7), DiskSync, DiskFree 1, DiskRead time_zero 0 3 1]"
      "[16]" "\<lparr>s_used_cache_memory = 0, s_disk_devices = [demo_disk], s_writeback_blocker = blocker_new\<rparr>"]
    demo_disk_settled
  by (auto simp: read_run_def simp del: disk_run.simps)

lemma writeback_devices_stop:
  assumes "list_all2 pending caps devs" "writeback_device dd = Some (Inr (False, dd'))"
  shows "\<exists>devs'. writeback_devices (devs @ dd # rest) = Some (Inr (False, devs' @ dd' # rest)) \<and> list_all2 settled caps devs'"
  using assms(1)
proof (induction caps devs rule: list_all2_induct)
  case Nil
  with assms(2) show ?case by simp
next
  case (Cons cap caps dev devs)
  then obtain devs' where
    d: "writeback_devices (devs @ dd # rest) = Some (Inr (False, devs' @ dd' # rest))" "list_all2 settled caps devs'" by blast
  from writeback_devices_spec[of "[cap]" "[dev]"] Cons.hyps(1) obtain dev' where
    "writeback_device dev = Some (Inr (True, dev'))" "settled cap dev'"
    by (auto simp: bindP_def list_all2_Cons1 split: option.splits sum.splits if_splits)
  with d show ?case by (intro exI[of _ "dev' # devs'"]) simp
qed

text \<open>
  C24: let a region be evicted, and so stored on the drive, while its key stands anywhere in the dirty
  queue of any disk. The queue keeps the key, and the next pass of the write-back task ends the task
  when it reaches it: the disks before this one and the regions before the key are stored, but the
  regions behind it stay dirty, their sectors are not written, and the following disks are not
  touched.
\<close>

theorem writeback_stops_after_eviction:
  assumes "disk_ok cap dd" and "\<not> lru_empty (dd_cache dd)" and "k = hd (lru_order (dd_cache dd))"
    and "q_contents (dd_dirty dd) = pre @ k # ks" and "set pre \<subseteq> dom (cached dd) - {k}"
    and "list_all2 pending caps devs"
  shows "\<exists>r dd1 dd2 devs'. cached dd k = Some r \<and> evict dd r = Some (Inr dd1) \<and>
           writeback_devices (devs @ dd1 # rest) = Some (Inr (False, devs' @ dd2 # rest)) \<and>
           list_all2 settled caps devs' \<and> q_contents (dd_dirty dd2) = ks \<and>
           dirty_keys dd2 = dirty_keys dd - {k} - set pre \<and>
           (\<forall>b. block_cache_region_start b \<notin> set pre \<longrightarrow> sectors (dd_pata dd2) b = sectors (dd_pata dd1) b)"
proof -
  from evict_spec[OF assms(1-3)] obtain r dd1 where
    e: "cached dd k = Some r" "evict dd r = Some (Inr dd1)" "disk_ok cap dd1" "cached dd1 = (cached dd)(k := None)"
      "dd_dirty dd1 = dd_dirty dd" by blast
  have "set pre \<subseteq> dom (cached dd1)" "cached dd1 k = None" using e(4) assms(5) by auto
  from writeback_device_stops[OF e(3) _ this, of ks] assms(4) e(5) obtain dd2 where
    w: "writeback_device dd1 = Some (Inr (False, dd2))" "q_contents (dd_dirty dd2) = ks"
      "dirty_keys dd2 = dirty_keys dd1 - set pre"
      "\<forall>b. block_cache_region_start b \<notin> set pre \<longrightarrow> sectors (dd_pata dd2) b = sectors (dd_pata dd1) b" by auto
  have "dirty_keys dd1 = dirty_keys dd - {k}" using e(4) by (auto simp: dirty_keys_def)
  with writeback_devices_stop[OF assms(6) w(1), of rest] e(1,2) w(2-4) show ?thesis by blast
qed

theorem writeback_stops_after_eviction_witness:
  "\<exists>dd r dd1 dd2 d0. disk_ok 16 (dd :: (nat \<Rightarrow> u8 list) disk) \<and> q_contents (dd_dirty dd) = [0, 8] \<and>
     cached dd 0 = Some r \<and> cr_dirty r \<and> evict dd r = Some (Inr dd1) \<and>
     writeback_devices [demo_disk, dd1] = Some (Inr (False, [d0, dd2])) \<and> q_contents (dd_dirty dd2) = [8]"
proof -
  let ?r = "(cache_region_new time_zero 0 512)\<lparr>cr_dirty := True\<rparr>"
  from lru_insert_refines[OF lru_new_wf, of "0 :: nat" ?r] obtain c where
    c: "lru_wf c" "lru_abs c = [(0 :: nat, ?r)]" by (auto simp: lru_new_abs spec_insert_def spec_erase_def)
  have m: "map_get (lru_map c) = [0 \<mapsto> ?r]" using map_of_lru_abs[OF c(1)] c(2) by simp
  have o: "lru_order c = [0]" using c(2) by (auto simp: lru_abs_def map_eq_Cons_conv)
  from qu.push_snoc[OF q_new_ok(1), of "0 :: nat"] obtain q1 where
    q1: "q_wf q1" "q_contents q1 = [0 :: nat]" by (auto simp: q_new_ok(2))
  from qu.push_snoc[OF q1(1), of 8] obtain q where q: "q_wf q" "q_contents q = [0, 8 :: nat]" using q1(2) by auto
  let ?dd = "demo_disk\<lparr>dd_cache := c, dd_dirty := q\<rparr>"
  have cd: "cached ?dd = [0 \<mapsto> ?r]" using m by (simp add: cached_def fun_eq_iff)
  have ok: "disk_ok 16 ?dd"
    unfolding disk_ok_def cd using demo_disk_settled c(1) q(1)
    by (auto simp: settled_def disk_ok_def cached_region_ok_def cache_region_new_def split: if_splits)
  have ne: "\<not> lru_empty (dd_cache ?dd)" using lru_empty_view[OF c(1)] m by simp
  have pend: "list_all2 pending [16] [demo_disk]" using settled_pending[OF demo_disk_settled] by simp
  from writeback_stops_after_eviction[OF ok ne _ _ _ pend, of 0 "[]" "[8]" "[]"] o q(2) cd obtain dd1 dd2 d0 where
    "evict ?dd ?r = Some (Inr dd1)" "writeback_devices [demo_disk, dd1] = Some (Inr (False, [d0, dd2]))"
    "q_contents (dd_dirty dd2) = [8]" by (auto simp: list_all2_Cons1 simp del: writeback_devices.simps)
  with ok q(2) cd show ?thesis
    by (intro exI[of _ ?dd] exI[of _ ?r] exI[of _ dd1] exI[of _ dd2] exI[of _ d0]) (simp del: writeback_devices.simps)
qed

end
