(* ===== verification/DiskFile.thy ===== *)
theory DiskFile
  imports DiskCache
begin

text \<open>
  Disks as files of bytes: \<open>PATADevice::read\<close> and \<open>write\<close>, which cut a byte range into blocks, and
  \<open>PartitionDevice\<close>, which shifts it. The loops copy a part of the first block and then whole blocks.
\<close>

section \<open>Byte ranges on a disk\<close>

text \<open>The part of block \<open>bk\<close> that a transfer touches: where it starts in the block and how long it is.\<close>

definition piece_start :: "nat \<Rightarrow> nat \<Rightarrow> nat" where
  "piece_start offset bk = (if bk = offset div BLOCK_SIZE then offset mod BLOCK_SIZE else 0)"

definition piece_len :: "nat \<Rightarrow> nat \<Rightarrow> nat \<Rightarrow> nat" where
  "piece_len offset bk bytes_left =
     (if bk = offset div BLOCK_SIZE then min bytes_left (BLOCK_SIZE - offset mod BLOCK_SIZE)
      else min bytes_left BLOCK_SIZE)"

lemma piece_len_pos: "0 < bytes_left \<Longrightarrow> 0 < piece_len offset bk bytes_left"
  by (simp add: piece_len_def)

function pata_read_loop :: "(nat \<Rightarrow> ktime) \<Rightarrow> nat \<Rightarrow> 'd disk \<Rightarrow> nat \<Rightarrow> nat \<Rightarrow> nat \<Rightarrow> (u8 list \<times> 'd disk \<times> nat) prun" where
  "pata_read_loop clock offset dd used bk bytes_left =
     (if bytes_left = 0 \<or> bk > pa_max_addressable_block (dd_pata dd) then Some (Inr ([], dd, used))
      else
        bindP (read_block (clock bk) dd used bk) (\<lambda>(block_buf, dd1, used1).
        let to_copy = piece_len offset bk bytes_left in
        bindP (Some (memcpy_from block_buf (piece_start offset bk) to_copy)) (\<lambda>bytes.
        bindP (pata_read_loop clock offset dd1 used1 (bk + 1) (bytes_left - to_copy)) (\<lambda>(rest, dd2, used2).
          Some (Inr (bytes @ rest, dd2, used2))))))"
  by pat_completeness auto
termination
  by (relation "measure (\<lambda>(clock, offset, dd, used, bk, bytes_left). bytes_left)") (auto simp: piece_len_pos)

definition pata_read :: "(nat \<Rightarrow> ktime) \<Rightarrow> 'd disk \<Rightarrow> nat \<Rightarrow> nat \<Rightarrow> nat \<Rightarrow> (u8 list \<times> 'd disk \<times> nat) prun" where
  "pata_read clock dd used offset count = pata_read_loop clock offset dd used (offset div BLOCK_SIZE) count"

function pata_write_loop :: "(nat \<Rightarrow> ktime) \<Rightarrow> nat \<Rightarrow> u8 list \<Rightarrow> 'd disk \<Rightarrow> nat \<Rightarrow> blocker \<Rightarrow> nat \<Rightarrow> nat \<Rightarrow> ('d disk \<times> nat \<times> blocker) prun" where
  "pata_write_loop clock offset buffer dd used wb bk bytes_left =
     (if bytes_left = 0 then Some (Inr (dd, used, wb))
      else
        bindP (read_block (clock bk) dd used bk) (\<lambda>(block_buf, dd1, used1).
        let to_copy = piece_len offset bk bytes_left in
        bindP (Some (memcpy_from buffer (length buffer - bytes_left) to_copy)) (\<lambda>bytes.
        bindP (Some (memcpy_to block_buf (piece_start offset bk) bytes)) (\<lambda>block_buf'.
        bindP (write_block (clock bk) dd1 used1 wb bk block_buf') (\<lambda>(dd2, used2, wb2).
          pata_write_loop clock offset buffer dd2 used2 wb2 (bk + 1) (bytes_left - to_copy))))))"
  by pat_completeness auto
termination
  by (relation "measure (\<lambda>(clock, offset, buffer, dd, used, wb, bk, bytes_left). bytes_left)") (auto simp: piece_len_pos)

declare pata_read_loop.simps [simp del] pata_write_loop.simps [simp del]

lemma pata_write_loop_0 [simp]: "pata_write_loop clock offset buffer dd used wb bk 0 = Some (Inr (dd, used, wb))"
  by (simp add: pata_write_loop.simps)

definition pata_write :: "(nat \<Rightarrow> ktime) \<Rightarrow> 'd disk \<Rightarrow> nat \<Rightarrow> blocker \<Rightarrow> nat \<Rightarrow> u8 list \<Rightarrow> (int \<times> 'd disk \<times> nat \<times> blocker) prun" where
  "pata_write clock dd used wb offset buffer =
     (let last_block = sub32 (add32 offset (length buffer)) 1 div BLOCK_SIZE in
      if last_block > pa_max_addressable_block (dd_pata dd) then Some (Inr (- errno_code ENOSPC, dd, used, wb))
      else bindP (pata_write_loop clock offset buffer dd used wb (offset div BLOCK_SIZE) (length buffer)) (\<lambda>(dd', used', wb').
             Some (Inr (int (length buffer), dd', used', wb'))))"

section \<open>Partitions\<close>

record 'p partition =
  part_parent :: 'p
  part_offset :: nat

definition partition_new :: "'p \<Rightarrow> nat \<Rightarrow> 'p partition" where
  "partition_new parent offset_blocks = \<lparr>part_parent = parent, part_offset = offset_blocks * BLOCK_SIZE mod 2 ^ 32\<rparr>"

definition partition_read_blocks :: "(nat \<Rightarrow> ktime) \<Rightarrow> 'd disk partition \<Rightarrow> nat \<Rightarrow> nat \<Rightarrow> nat \<Rightarrow> (u8 list \<times> 'd disk \<times> nat) prun" where
  "partition_read_blocks clock p used block count =
     read_blocks clock (part_parent p) used (add32 block (part_offset p)) count"

definition partition_write_blocks :: "(nat \<Rightarrow> ktime) \<Rightarrow> 'd disk partition \<Rightarrow> nat \<Rightarrow> blocker \<Rightarrow> nat \<Rightarrow> nat \<Rightarrow> u8 list \<Rightarrow>
    ('d disk \<times> nat \<times> blocker) prun" where
  "partition_write_blocks clock p used wb block count buffer =
     write_blocks clock (part_parent p) used wb (add32 block (part_offset p)) count buffer"

definition partition_read :: "(nat \<Rightarrow> ktime) \<Rightarrow> 'd disk partition \<Rightarrow> nat \<Rightarrow> nat \<Rightarrow> nat \<Rightarrow> (u8 list \<times> 'd disk \<times> nat) prun" where
  "partition_read clock p used start count = pata_read clock (part_parent p) used (add32 start (part_offset p)) count"

definition partition_write :: "(nat \<Rightarrow> ktime) \<Rightarrow> 'd disk partition \<Rightarrow> nat \<Rightarrow> blocker \<Rightarrow> nat \<Rightarrow> u8 list \<Rightarrow>
    (int \<times> 'd disk \<times> nat \<times> blocker) prun" where
  "partition_write clock p used wb start buffer =
     pata_write clock (part_parent p) used wb (add32 start (part_offset p)) buffer"

section \<open>The loops are exact\<close>

text \<open>The bytes left when block \<open>bk\<close> is reached: the transfer has got up to position \<open>pos\<close>.\<close>

definition piece_at :: "nat \<Rightarrow> nat \<Rightarrow> nat \<Rightarrow> bool" where
  "piece_at offset bk pos \<longleftrightarrow> pos div BLOCK_SIZE = bk \<and> piece_start offset bk = pos mod BLOCK_SIZE \<and> offset \<le> pos"

lemma piece_at_first: "piece_at offset (offset div BLOCK_SIZE) offset"
  by (simp add: piece_at_def piece_start_def)

lemma piece_len_at: "piece_at offset bk pos \<Longrightarrow> piece_len offset bk n = min n (BLOCK_SIZE - pos mod BLOCK_SIZE)"
  by (auto simp: piece_at_def piece_len_def piece_start_def split: if_splits)

lemma piece_at_next:
  assumes "piece_at offset bk pos" "n = BLOCK_SIZE - pos mod BLOCK_SIZE"
  shows "piece_at offset (bk + 1) (pos + n)"
proof -
  define q r where "q = pos div 512" and "r = pos mod 512"
  have r: "r < 512" and pos: "pos = q * 512 + r" by (simp_all add: q_def r_def)
  have n: "n = 512 - r" using assms(2) by (simp only: r_def)
  have "pos + n = (q + 1) * 512" unfolding n pos using r by simp
  then have "pos + n = (pos div 512 + 1) * 512" by (simp only: q_def)
  then have "(pos + n) div 512 = pos div 512 + 1" "(pos + n) mod 512 = 0" by simp_all
  moreover have "offset div 512 \<le> pos div 512" using assms(1) div_le_mono[of offset pos 512] by (simp add: piece_at_def)
  ultimately show ?thesis using assms(1) by (auto simp: piece_at_def piece_start_def)
qed

lemma pata_read_loop_spec:
  assumes "disk_ok cap dd" "cap \<le> Suc (pa_max_addressable_block (dd_pata dd))"
    "piece_at offset bk pos" "pos + n \<le> cap * BLOCK_SIZE"
  shows "\<exists>dd' used'. pata_read_loop clock offset dd used bk n =
             Some (Inr (bytes_at BLOCK_SIZE (disk_view dd) pos n, dd', used')) \<and> same_disk cap dd dd'"
  using assms
proof (induction n arbitrary: dd used bk pos rule: less_induct)
  case (less n)
  show ?case
  proof (cases "n = 0")
    case True
    with less.prems(1) show ?thesis
      by (subst pata_read_loop.simps) (simp add: same_disk_refl bytes_at_def)
  next
    case False
    let ?m = "min n (BLOCK_SIZE - pos mod BLOCK_SIZE)"
    have bk: "pos div 512 = bk" "piece_start offset bk = pos mod 512" using less.prems(3) by (simp_all add: piece_at_def)
    have "pos < cap * 512" using less.prems(4) False by simp
    then have b: "bk < cap" using bk(1) by (simp add: less_mult_imp_div_less)
    from read_blocks_loop_spec[OF less.prems(1), of bk 0 1 "\<lambda>_. clock bk" used None] b obtain dd1 used1 where
      r: "read_block (clock bk) dd used bk = Some (Inr (disk_view dd bk, dd1, used1))" "same_disk cap dd dd1"
      by (auto simp: read_block_def read_blocks_def read_run_def)
    have sz: "sized 512 (disk_view dd)" by (rule sized_disk_view[OF less.prems(1)])
    have m: "pos mod 512 + ?m \<le> 512" using mod_less_divisor[OF zero_less_numeral, of pos] by linarith
    have copy: "memcpy_from (disk_view dd bk) (piece_start offset bk) ?m = Inr (bytes_at 512 (disk_view dd) pos ?m)"
      using m bk sizedD[OF sz, of bk] bytes_at_in_block[OF sz, of ?m pos] by simp
    have ok1: "disk_ok cap dd1" and v1: "disk_view dd1 = disk_view dd" using r(2) by (simp_all add: same_disk_def)
    have mx: "pa_max_addressable_block (dd_pata dd1) = pa_max_addressable_block (dd_pata dd)"
      using r(2) by (simp add: same_disk_def same_deviceD(5))
    have split: "bytes_at 512 (disk_view dd) pos n = bytes_at 512 (disk_view dd) pos ?m @ bytes_at 512 (disk_view dd) (pos + ?m) (n - ?m)"
      using bytes_at_add[of 512 "disk_view dd" pos ?m "n - ?m"] by simp
    have notdone: "\<not> (n = 0 \<or> bk > pa_max_addressable_block (dd_pata dd))" using False b less.prems(2) by simp
    obtain dd2 used2 where s: "pata_read_loop clock offset dd1 used1 (bk + 1) (n - ?m) =
        Some (Inr (bytes_at 512 (disk_view dd) (pos + ?m) (n - ?m), dd2, used2))" "same_disk cap dd1 dd2"
    proof (cases "n - ?m = 0")
      case True
      then show ?thesis using ok1
        by (intro that[of dd1 used1]) (subst pata_read_loop.simps, simp_all add: same_disk_refl bytes_at_def)
    next
      case False2: False
      then have m2: "?m = 512 - pos mod 512" by linarith
      have lt: "n - ?m < n" using False mod_less_divisor[OF zero_less_numeral, of pos] by linarith
      have le: "pos + ?m + (n - ?m) \<le> cap * 512" using less.prems(4) by simp
      from less.IH[OF lt ok1 _ piece_at_next[OF less.prems(3) m2] le, of used1] less.prems(2) mx v1 show ?thesis
        using that by auto
    qed
    have "pata_read_loop clock offset dd used bk n = Some (Inr (bytes_at 512 (disk_view dd) pos n, dd2, used2))"
      unfolding split using notdone r(1) copy s(1) piece_len_at[OF less.prems(3), of n]
      by (subst pata_read_loop.simps) (simp add: Let_def)
    with same_disk_trans[OF r(2) s(2)] show ?thesis by blast
  qed
qed

text \<open>One round of the write loop: it stores the bytes of the current block and goes on with the rest.\<close>

lemma pata_write_piece:
  assumes ok: "disk_ok cap dd" and at: "piece_at offset bk pos" and b: "bk < cap" and n: "0 < n" "n \<le> length buffer"
    and m: "m = min n (BLOCK_SIZE - pos mod BLOCK_SIZE)"
    and q: "q_contents (dd_dirty dd) = [] \<or> block_cache_region_start bk \<in> set (q_contents (dd_dirty dd))"
  shows "\<exists>dd' used' wb'. pata_write_loop clock offset buffer dd used wb bk n =
             pata_write_loop clock offset buffer dd' used' wb' (bk + 1) (n - m) \<and>
           disk_ok cap dd' \<and> same_device (dd_pata dd) (dd_pata dd') \<and>
           disk_view dd' = put_bytes BLOCK_SIZE (disk_view dd) pos (take m (drop (length buffer - n) buffer)) \<and>
           sectors (dd_pata dd') = sectors (dd_pata dd) \<and>
           block_cache_region_start bk \<in> set (q_contents (dd_dirty dd'))"
proof -
  have sz: "sized 512 (disk_view dd)" by (rule sized_disk_view[OF ok])
  have bk: "pos div 512 = bk" "piece_start offset bk = pos mod 512" using at by (simp_all add: piece_at_def)
  have lenm: "m \<le> n" "pos mod 512 + m \<le> 512"
    using mod_less_divisor[OF zero_less_numeral, of pos] unfolding m by linarith+
  define bytes bl where "bytes = take m (drop (length buffer - n) buffer)" and
    "bl = patch (disk_view dd bk) (pos mod 512) bytes"
  have len: "length bytes = m" using n(2) lenm(1) by (simp add: bytes_def)
  from read_blocks_loop_spec[OF ok, of bk 0 1 "\<lambda>_. clock bk" used None] b obtain dd1 used1 where
    r: "read_block (clock bk) dd used bk = Some (Inr (disk_view dd bk, dd1, used1))" "same_disk cap dd dd1"
    by (auto simp: read_block_def read_blocks_def read_run_def)
  have d1: "disk_ok cap dd1" "disk_view dd1 = disk_view dd" "dd_dirty dd1 = dd_dirty dd"
    "sectors (dd_pata dd1) = sectors (dd_pata dd)" "same_device (dd_pata dd) (dd_pata dd1)"
    using r(2) by (simp_all add: same_disk_def)
  have copy: "memcpy_from buffer (length buffer - n) m = Inr bytes"
    "memcpy_to (disk_view dd bk) (piece_start offset bk) bytes = Inr bl"
    using n(2) lenm len bk(2) sizedD[OF sz, of bk] by (simp_all add: bl_def bytes_def)
  have lenb: "length bl = 512" using lenm len sizedD[OF sz, of bk] by (simp add: bl_def)
  from write_block_spec[OF d1(1) b lenb, of "clock bk" used1 wb] q d1(3) obtain dd2 used2 where
    w: "write_block (clock bk) dd1 used1 wb bk bl = Some (Inr (dd2, used2, set_ready True wb))"
      "disk_ok cap dd2" "same_device (dd_pata dd1) (dd_pata dd2)" "disk_view dd2 = (disk_view dd1)(bk := bl)"
      "sectors (dd_pata dd2) = sectors (dd_pata dd1)" "block_cache_region_start bk \<in> set (q_contents (dd_dirty dd2))"
    by (auto split: if_splits)
  have "disk_view dd2 = put_bytes 512 (disk_view dd) pos bytes"
    using put_bytes_in_block[OF sz, of pos bytes] lenm len bk(1) w(4) d1(2) by (simp add: bl_def)
  moreover have "pata_write_loop clock offset buffer dd used wb bk n =
      pata_write_loop clock offset buffer dd2 used2 (set_ready True wb) (bk + 1) (n - m)"
    using n(1) r(1) copy w(1) piece_len_at[OF at, of n, folded m]
    by (subst pata_write_loop.simps) (simp add: Let_def)
  moreover have "same_device (dd_pata dd) (dd_pata dd2)" by (rule same_device_trans[OF d1(5) w(3)])
  ultimately show ?thesis using w(2,5,6) d1(4) unfolding bytes_def by metis
qed

text \<open>A write that stays inside one cache region, whose key is the only one it puts into the queue.\<close>

lemma pata_write_loop_spec:
  assumes "disk_ok cap dd" "piece_at offset bk pos" "8 dvd k" "k * BLOCK_SIZE \<le> pos"
    "pos + n \<le> (k + 8) * BLOCK_SIZE" "k + 8 \<le> cap" "n \<le> length buffer"
    "q_contents (dd_dirty dd) = [] \<or> k \<in> set (q_contents (dd_dirty dd))"
  shows "\<exists>dd' used' wb'. pata_write_loop clock offset buffer dd used wb bk n = Some (Inr (dd', used', wb')) \<and>
           disk_ok cap dd' \<and> same_device (dd_pata dd) (dd_pata dd') \<and>
           disk_view dd' = put_bytes BLOCK_SIZE (disk_view dd) pos (drop (length buffer - n) buffer) \<and>
           (0 < n \<longrightarrow> k \<in> set (q_contents (dd_dirty dd')))"
  using assms
proof (induction n arbitrary: dd used wb bk pos rule: less_induct)
  case (less n)
  show ?case
  proof (cases "n = 0")
    case True
    with less.prems(1) show ?thesis by (simp add: put_bytes_Nil[OF sized_disk_view])
  next
    case False
    define m where "m = min n (512 - pos mod 512)"
    let ?src = "drop (length buffer - n) buffer" and ?rest = "drop (length buffer - (n - m)) buffer"
    have lenm: "m \<le> n" "0 < m" using False mod_less_divisor[OF zero_less_numeral, of pos] unfolding m_def by linarith+
    have bk: "pos div 512 = bk" using less.prems(2) by (simp add: piece_at_def)
    have "pos < (k + 8) * 512" using less.prems(5) False by linarith
    then have "bk < k + 8" using bk less_mult_imp_div_less by blast
    moreover have "k \<le> bk" using less.prems(4) bk by (metis div_le_mono nonzero_mult_div_cancel_right zero_neq_numeral)
    ultimately have start: "block_cache_region_start bk = k" and b: "bk < cap"
      using region_start_unique[OF less.prems(3)] less.prems(6) by auto
    from pata_write_piece[OF less.prems(1,2) b _ less.prems(7) m_def, of clock used wb] False less.prems(8) start
    obtain dd2 used2 wb2 where p: "pata_write_loop clock offset buffer dd used wb bk n =
        pata_write_loop clock offset buffer dd2 used2 wb2 (bk + 1) (n - m)"
      "disk_ok cap dd2" "same_device (dd_pata dd) (dd_pata dd2)"
      "disk_view dd2 = put_bytes 512 (disk_view dd) pos (take m ?src)" "k \<in> set (q_contents (dd_dirty dd2))" by auto
    have src: "?src = take m ?src @ ?rest"
      using lenm less.prems(7) append_take_drop_id[of m ?src] by (simp add: add.commute del: append_take_drop_id)
    have all: "put_bytes 512 (disk_view dd2) (pos + m) ?rest = put_bytes 512 (disk_view dd) pos ?src"
      unfolding p(4) using put_bytes_append[of 512 "disk_view dd" pos "take m ?src" ?rest] lenm(1) less.prems(7) src by simp
    show ?thesis
    proof (cases "n - m = 0")
      case True
      then have "take m ?src = ?src" using less.prems(7) by simp
      with True p show ?thesis by simp
    next
      case False
      then have m2: "m = 512 - pos mod 512" unfolding m_def by linarith
      have "n - m < n" using lenm by linarith
      from less.IH[OF this p(2) piece_at_next[OF less.prems(2) m2] less.prems(3), of used2 wb2]
      have "\<exists>dd' used' wb'. pata_write_loop clock offset buffer dd2 used2 wb2 (bk + 1) (n - m) = Some (Inr (dd', used', wb')) \<and>
           disk_ok cap dd' \<and> same_device (dd_pata dd2) (dd_pata dd') \<and>
           disk_view dd' = put_bytes BLOCK_SIZE (disk_view dd2) (pos + m) ?rest \<and> k \<in> set (q_contents (dd_dirty dd'))"
        using less.prems(4-7) p(5) lenm(1) False by auto
      with p(1,3) all same_device_trans show ?thesis by (metis (no_types, lifting))
    qed
  qed
qed

lemma pata_write_spec:
  assumes ok: "disk_ok cap dd" and mx: "cap \<le> Suc (pa_max_addressable_block (dd_pata dd))" "cap * BLOCK_SIZE < 2 ^ 32"
    and k: "8 dvd k" "k * BLOCK_SIZE \<le> offset" "offset + length buffer \<le> (k + 8) * BLOCK_SIZE" "k + 8 \<le> cap"
    and ne: "buffer \<noteq> []" and q: "q_contents (dd_dirty dd) = [] \<or> k \<in> set (q_contents (dd_dirty dd))"
  shows "\<exists>dd' used' wb'. pata_write clock dd used wb offset buffer = Some (Inr (int (length buffer), dd', used', wb')) \<and>
           disk_ok cap dd' \<and> same_device (dd_pata dd) (dd_pata dd') \<and>
           disk_view dd' = put_bytes BLOCK_SIZE (disk_view dd) offset buffer \<and> k \<in> set (q_contents (dd_dirty dd'))"
proof -
  have lim: "offset + length buffer \<le> cap * 512" using k(3) mult_le_mono1[OF k(4), of 512] by linarith
  have pos: "0 < length buffer" using ne by simp
  have a: "add32 offset (length buffer) = offset + length buffer" using lim mx(2) by (intro add32_less) linarith
  have s: "sub32 (offset + length buffer) 1 = offset + length buffer - 1"
    using pos lim mx(2) by (intro sub32_le) linarith+
  have "offset + length buffer - 1 < cap * 512" using pos lim by linarith
  then have "(offset + length buffer - 1) div 512 < cap" by (rule less_mult_imp_div_less)
  then have last: "\<not> sub32 (add32 offset (length buffer)) 1 div 512 > pa_max_addressable_block (dd_pata dd)"
    using a s mx(1) by simp
  from pata_write_loop_spec[OF ok piece_at_first k(1,2) k(3,4), of buffer clock used wb] q last pos show ?thesis
    by (auto simp: pata_write_def Let_def)
qed

text \<open>
  C23: a disk is a file of bytes, also with dirty pages in its cache. Take a write of at least one
  byte inside one cache page (eight blocks), on a disk whose queue of dirty pages is empty or already
  holds that page, so that the search of the queue before the write ends at once. It returns the
  number of bytes, and a read of any range of the disk after it returns the old bytes with the
  written ones in place and leaves the contents as they are. The disk still satisfies its
  invariant, so this holds for any number of writes to that page in a row.
\<close>

theorem disk_file_exact:
  assumes "disk_ok cap dd" and "q_contents (dd_dirty dd) = [] \<or> k \<in> set (q_contents (dd_dirty dd))"
    and "cap \<le> Suc (pa_max_addressable_block (dd_pata dd))" and "cap * BLOCK_SIZE < 2 ^ 32"
    and "8 dvd k" and "k * BLOCK_SIZE \<le> offset" and "offset + length buffer \<le> (k + 8) * BLOCK_SIZE" and "k + 8 \<le> cap"
    and "buffer \<noteq> []" and "pos + n \<le> cap * BLOCK_SIZE"
  shows "\<exists>dd1 u1 wb1 dd2 u2. pata_write clock dd used wb offset buffer = Some (Inr (int (length buffer), dd1, u1, wb1)) \<and>
           pata_read clock dd1 u1 pos n =
             Some (Inr (map (\<lambda>j. if offset \<le> j \<and> j < offset + length buffer then buffer ! (j - offset)
                                 else byte_at BLOCK_SIZE (disk_view dd) j) [pos..<pos + n], dd2, u2)) \<and>
           disk_view dd2 = put_bytes BLOCK_SIZE (disk_view dd) offset buffer \<and>
           disk_ok cap dd2 \<and> k \<in> set (q_contents (dd_dirty dd2))"
proof -
  from pata_write_spec[OF assms(1,3-9,2), of clock used wb] obtain dd1 u1 wb1 where
    w: "pata_write clock dd used wb offset buffer = Some (Inr (int (length buffer), dd1, u1, wb1))"
      "disk_ok cap dd1" "same_device (dd_pata dd) (dd_pata dd1)"
      "disk_view dd1 = put_bytes BLOCK_SIZE (disk_view dd) offset buffer" "k \<in> set (q_contents (dd_dirty dd1))" by blast
  have mx: "cap \<le> Suc (pa_max_addressable_block (dd_pata dd1))" using assms(3) same_deviceD(5)[OF w(3)] by simp
  from pata_read_loop_spec[OF w(2) mx piece_at_first assms(10), of clock u1] obtain dd2 u2 where
    r: "pata_read clock dd1 u1 pos n = Some (Inr (bytes_at BLOCK_SIZE (disk_view dd1) pos n, dd2, u2))"
      "same_disk cap dd1 dd2" by (auto simp: pata_read_def)
  have "bytes_at BLOCK_SIZE (disk_view dd1) pos n =
      map (\<lambda>j. if offset \<le> j \<and> j < offset + length buffer then buffer ! (j - offset)
               else byte_at BLOCK_SIZE (disk_view dd) j) [pos..<pos + n]"
    unfolding bytes_at_def w(4) by (intro map_cong refl) (simp add: byte_at_put_bytes)
  with w r show ?thesis by (auto simp: same_disk_def)
qed

theorem disk_file_exact_witness:
  "\<exists>dd1 u1 wb1 dd2 u2. pata_write (\<lambda>_. time_zero) demo_disk 0 blocker_new 510 [1, 2, 3, 4] = Some (Inr (4, dd1, u1, wb1)) \<and>
     pata_read (\<lambda>_. time_zero) dd1 u1 511 3 = Some (Inr ([2, 3, 4], dd2, u2))"
proof -
  have "disk_ok 16 demo_disk" "q_contents (dd_dirty demo_disk) = [] \<or> 0 \<in> set (q_contents (dd_dirty demo_disk))"
    using demo_disk_settled by (simp_all add: settled_def)
  from disk_file_exact[OF this, of 510 "[1, 2, 3, 4]" 511 3 "\<lambda>_. time_zero" 0 blocker_new] show ?thesis
    by (auto simp: demo_disk_def upt_rec)
qed

end
