(* ===== verification/Ext2Layout.thy ===== *)
theory Ext2Layout
  imports ByteBlocks Bitmap
begin

text \<open>
  The structures that the ext2 driver copies to and from disk blocks (\<open>kernel/filesystem/ext2/Ext2.h\<close>
  and \<open>Ext2Inode::Raw\<close>): packed and little-endian. A structure is a record of words, its image is the
  byte list that \<open>memcpy\<close> moves. The bits of the allocation bitmaps are also here.
\<close>

unbundle bit_operations_syntax

section \<open>Little-endian words\<close>

definition le16 :: "u16 \<Rightarrow> u8 list" where
  "le16 w = [ucast w, ucast (drop_bit 8 w)]"

definition le32 :: "u32 \<Rightarrow> u8 list" where
  "le32 w = [ucast w, ucast (drop_bit 8 w), ucast (drop_bit 16 w), ucast (drop_bit 24 w)]"

definition get16 :: "u8 list \<Rightarrow> nat \<Rightarrow> u16" where
  "get16 bs i = ucast (bs ! i) OR push_bit 8 (ucast (bs ! (i + 1)))"

definition get32 :: "u8 list \<Rightarrow> nat \<Rightarrow> u32" where
  "get32 bs i = ucast (bs ! i) OR push_bit 8 (ucast (bs ! (i + 1))) OR
     push_bit 16 (ucast (bs ! (i + 2))) OR push_bit 24 (ucast (bs ! (i + 3)))"

lemma length_le [simp]: "length (le16 v) = 2" "length (le32 w) = 4"
  by (simp_all add: le16_def le32_def)

lemma join16: "(ucast (ucast w :: u8) OR push_bit 8 (ucast (ucast (drop_bit 8 w) :: u8)) :: u16) = w"
  by (rule bit_word_eqI) (auto simp: bit_simps)

lemma join32:
  "(ucast (ucast w :: u8) OR push_bit 8 (ucast (ucast (drop_bit 8 w) :: u8)) OR
    push_bit 16 (ucast (ucast (drop_bit 16 w) :: u8)) OR push_bit 24 (ucast (ucast (drop_bit 24 w) :: u8)) :: u32) = w"
proof (rule bit_word_eqI)
  fix n
  assume "n < LENGTH(32)"
  then consider "n < 8" | "8 \<le> n" "n < 16" | "16 \<le> n" "n < 24" | "24 \<le> n" "n < 32" by (simp, linarith)
  then show "bit (ucast (ucast w :: u8) OR push_bit 8 (ucast (ucast (drop_bit 8 w) :: u8)) OR
    push_bit 16 (ucast (ucast (drop_bit 16 w) :: u8)) OR push_bit 24 (ucast (ucast (drop_bit 24 w) :: u8)) :: u32) n = bit w n"
    by cases (auto simp: bit_simps)
qed

lemma get_le [simp]:
  "get16 (xs @ le16 v @ ys) (length xs) = v"
  "get32 (xs @ le32 w @ ys) (length xs) = w"
  by (simp_all add: get16_def get32_def le16_def le32_def nth_append join16 join32)

lemma get_append [simp]:
  "i + 2 \<le> length xs \<Longrightarrow> get16 (xs @ ys) i = get16 xs i"
  "i + 4 \<le> length xs \<Longrightarrow> get32 (xs @ ys) i = get32 xs i"
  "length xs \<le> i \<Longrightarrow> get16 (xs @ ys) i = get16 ys (i - length xs)"
  "length xs \<le> i \<Longrightarrow> get32 (xs @ ys) i = get32 ys (i - length xs)"
  by (simp_all add: get16_def get32_def nth_append Suc_diff_le)

lemma get_Cons: "0 < i \<Longrightarrow> get16 (x # xs) i = get16 xs (i - 1)" "0 < i \<Longrightarrow> get32 (x # xs) i = get32 xs (i - 1)"
  by (simp_all add: get16_def get32_def nth_Cons' Suc_diff_le)

lemma get_le_0 [simp]: "get16 (le16 v) 0 = v" "get32 (le32 w) 0 = w"
  "get16 (le16 v @ ys) 0 = v" "get32 (le32 w @ ys) 0 = w"
  using get_le(1)[of "[]" v "[]"] get_le(2)[of "[]" w "[]"] get_le(1)[of "[]" v ys] get_le(2)[of "[]" w ys]
  by simp_all

text \<open>Counters that do not wrap.\<close>

lemma unat_pred: "0 < unat w \<Longrightarrow> unat (w - 1) = unat (w :: 'a::len word) - 1"
  by (cases "w = 0") (auto simp: unat_minus_one)

lemma unat_succ: "unat w + 1 < 2 ^ LENGTH('a) \<Longrightarrow> unat (w + 1) = unat (w :: 'a::len word) + 1"
  by (simp add: unsigned_of_nat unat_word_ariths)

section \<open>The superblock\<close>

record superblock =
  sb_total_inodes :: u32
  sb_total_blocks :: u32
  sb_superuser_blocks :: u32
  sb_free_blocks :: u32
  sb_free_inodes :: u32
  sb_superblock_block :: u32
  sb_block_size :: u32
  sb_fragment_size :: u32
  sb_blocks_per_group :: u32
  sb_fragments_per_group :: u32
  sb_inodes_per_group :: u32
  sb_last_mount :: u32
  sb_last_write :: u32
  sb_times_mounted :: u16
  sb_mounts_allowed :: u16
  sb_signature :: u16
  sb_state :: u16
  sb_error_action :: u16
  sb_version_minor :: u16
  sb_last_check :: u32
  sb_check_interval :: u32
  sb_os_id :: u32
  sb_version_major :: u32
  sb_reserved_user :: u16
  sb_reserved_group :: u16
  sb_first_inode :: u32
  sb_inode_size :: u16
  sb_superblock_group :: u16
  sb_optional_features :: u32
  sb_required_features :: u32
  sb_ro_features :: u32
  sb_filesystem_id :: "u8 list"
  sb_volume_name :: "u8 list"
  sb_last_mount_path :: "u8 list"
  sb_compression :: u32
  sb_file_prealloc_blocks :: u8
  sb_directory_prealloc_blocks :: u8
  sb_unused :: u16
  sb_journal_id :: "u8 list"
  sb_journal_inode :: u32
  sb_journal_device :: u32
  sb_orphan_inode_head :: u32
  sb_extra :: "u8 list"

definition superblock_bytes :: "superblock \<Rightarrow> u8 list" where
  "superblock_bytes sb =
     le32 (sb_total_inodes sb) @ le32 (sb_total_blocks sb) @ le32 (sb_superuser_blocks sb) @
     le32 (sb_free_blocks sb) @ le32 (sb_free_inodes sb) @ le32 (sb_superblock_block sb) @
     le32 (sb_block_size sb) @ le32 (sb_fragment_size sb) @ le32 (sb_blocks_per_group sb) @
     le32 (sb_fragments_per_group sb) @ le32 (sb_inodes_per_group sb) @ le32 (sb_last_mount sb) @
     le32 (sb_last_write sb) @ le16 (sb_times_mounted sb) @ le16 (sb_mounts_allowed sb) @
     le16 (sb_signature sb) @ le16 (sb_state sb) @ le16 (sb_error_action sb) @ le16 (sb_version_minor sb) @
     le32 (sb_last_check sb) @ le32 (sb_check_interval sb) @ le32 (sb_os_id sb) @ le32 (sb_version_major sb) @
     le16 (sb_reserved_user sb) @ le16 (sb_reserved_group sb) @ le32 (sb_first_inode sb) @
     le16 (sb_inode_size sb) @ le16 (sb_superblock_group sb) @ le32 (sb_optional_features sb) @
     le32 (sb_required_features sb) @ le32 (sb_ro_features sb) @ sb_filesystem_id sb @ sb_volume_name sb @
     sb_last_mount_path sb @ le32 (sb_compression sb) @ [sb_file_prealloc_blocks sb, sb_directory_prealloc_blocks sb] @
     le16 (sb_unused sb) @ sb_journal_id sb @ le32 (sb_journal_inode sb) @ le32 (sb_journal_device sb) @
     le32 (sb_orphan_inode_head sb) @ sb_extra sb"

definition superblock_of :: "u8 list \<Rightarrow> superblock" where
  "superblock_of bs = \<lparr>
     sb_total_inodes = get32 bs 0, sb_total_blocks = get32 bs 4, sb_superuser_blocks = get32 bs 8,
     sb_free_blocks = get32 bs 12, sb_free_inodes = get32 bs 16, sb_superblock_block = get32 bs 20,
     sb_block_size = get32 bs 24, sb_fragment_size = get32 bs 28, sb_blocks_per_group = get32 bs 32,
     sb_fragments_per_group = get32 bs 36, sb_inodes_per_group = get32 bs 40, sb_last_mount = get32 bs 44,
     sb_last_write = get32 bs 48, sb_times_mounted = get16 bs 52, sb_mounts_allowed = get16 bs 54,
     sb_signature = get16 bs 56, sb_state = get16 bs 58, sb_error_action = get16 bs 60, sb_version_minor = get16 bs 62,
     sb_last_check = get32 bs 64, sb_check_interval = get32 bs 68, sb_os_id = get32 bs 72, sb_version_major = get32 bs 76,
     sb_reserved_user = get16 bs 80, sb_reserved_group = get16 bs 82, sb_first_inode = get32 bs 84,
     sb_inode_size = get16 bs 88, sb_superblock_group = get16 bs 90, sb_optional_features = get32 bs 92,
     sb_required_features = get32 bs 96, sb_ro_features = get32 bs 100, sb_filesystem_id = take 16 (drop 104 bs),
     sb_volume_name = take 16 (drop 120 bs), sb_last_mount_path = take 64 (drop 136 bs),
     sb_compression = get32 bs 200, sb_file_prealloc_blocks = bs ! 204, sb_directory_prealloc_blocks = bs ! 205,
     sb_unused = get16 bs 206, sb_journal_id = take 16 (drop 208 bs), sb_journal_inode = get32 bs 224,
     sb_journal_device = get32 bs 228, sb_orphan_inode_head = get32 bs 232, sb_extra = take 276 (drop 236 bs)\<rparr>"

definition superblock_ok :: "superblock \<Rightarrow> bool" where
  "superblock_ok sb \<longleftrightarrow> length (sb_filesystem_id sb) = 16 \<and> length (sb_volume_name sb) = 16 \<and>
     length (sb_last_mount_path sb) = 64 \<and> length (sb_journal_id sb) = 16 \<and> length (sb_extra sb) = 276"

lemma length_superblock_bytes [simp]: "superblock_ok sb \<Longrightarrow> length (superblock_bytes sb) = 512"
  by (simp add: superblock_bytes_def superblock_ok_def)

lemma superblock_of_bytes: "superblock_ok sb \<Longrightarrow> superblock_of (superblock_bytes sb) = sb"
  by (simp add: superblock_of_def superblock_bytes_def superblock_ok_def nth_append get_Cons)

lemma superblock_of_ok: "length bs = 512 \<Longrightarrow> superblock_ok (superblock_of bs)"
  by (simp add: superblock_of_def superblock_ok_def)

section \<open>Group descriptors, inodes and directory entries\<close>

record group_desc =
  gd_block_usage_bitmap :: u32
  gd_inode_usage_bitmap :: u32
  gd_inode_table :: u32
  gd_free_blocks :: u16
  gd_free_inodes :: u16
  gd_num_directories :: u16
  gd_unused :: "u8 list"

definition group_desc_bytes :: "group_desc \<Rightarrow> u8 list" where
  "group_desc_bytes d =
     le32 (gd_block_usage_bitmap d) @ le32 (gd_inode_usage_bitmap d) @ le32 (gd_inode_table d) @
     le16 (gd_free_blocks d) @ le16 (gd_free_inodes d) @ le16 (gd_num_directories d) @ gd_unused d"

definition group_desc_of :: "u8 list \<Rightarrow> group_desc" where
  "group_desc_of bs = \<lparr>gd_block_usage_bitmap = get32 bs 0, gd_inode_usage_bitmap = get32 bs 4,
     gd_inode_table = get32 bs 8, gd_free_blocks = get16 bs 12, gd_free_inodes = get16 bs 14,
     gd_num_directories = get16 bs 16, gd_unused = take 14 (drop 18 bs)\<rparr>"

lemma length_group_desc_bytes [simp]: "length (gd_unused d) = 14 \<Longrightarrow> length (group_desc_bytes d) = 32"
  by (simp add: group_desc_bytes_def)

lemma group_desc_of_bytes: "length (gd_unused d) = 14 \<Longrightarrow> group_desc_of (group_desc_bytes d) = d"
  by (simp add: group_desc_of_def group_desc_bytes_def)

record raw_inode =
  ri_mode :: u16
  ri_uid :: u16
  ri_size :: u32
  ri_atime :: u32
  ri_ctime :: u32
  ri_mtime :: u32
  ri_dtime :: u32
  ri_gid :: u16
  ri_hard_links :: u16
  ri_logical_blocks :: u32
  ri_flags :: u32
  ri_os_specific_1 :: u32
  ri_block_pointers :: "u32 list"
  ri_s_pointer :: u32
  ri_d_pointer :: u32
  ri_t_pointer :: u32
  ri_generation :: u32
  ri_file_acl :: u32
  ri_dir_acl :: u32
  ri_fragment_addr :: u32
  ri_os_specific_2 :: "u32 list"

text \<open>Arrays of words.\<close>

definition le32s :: "u32 list \<Rightarrow> u8 list" where
  "le32s ws = concat (map le32 ws)"

definition get32s :: "u8 list \<Rightarrow> nat \<Rightarrow> nat \<Rightarrow> u32 list" where
  "get32s bs i n = map (\<lambda>k. get32 bs (i + 4 * k)) [0..<n]"

lemma length_le32s [simp]: "length (le32s ws) = 4 * length ws"
  by (induction ws) (simp_all add: le32s_def)

lemma length_get32s [simp]: "length (get32s bs i n) = n"
  by (simp add: get32s_def)

lemma get32_le32s: "k < length ws \<Longrightarrow> get32 (le32s ws) (4 * k) = ws ! k"
proof (induction ws arbitrary: k)
  case (Cons w ws)
  then show ?case by (cases k) (simp_all add: le32s_def)
qed simp

lemma get32s_append:
  "i + 4 * n \<le> length xs \<Longrightarrow> get32s (xs @ ys) i n = get32s xs i n"
  "length xs \<le> i \<Longrightarrow> get32s (xs @ ys) i n = get32s ys (i - length xs) n"
  by (auto simp: get32s_def)

lemma get32s_le32s [simp]: "get32s (le32s ws) 0 (length ws) = ws"
  by (rule nth_equalityI) (simp_all add: get32s_def get32_le32s)

definition raw_inode_bytes :: "raw_inode \<Rightarrow> u8 list" where
  "raw_inode_bytes r =
     le16 (ri_mode r) @ le16 (ri_uid r) @ le32 (ri_size r) @ le32 (ri_atime r) @ le32 (ri_ctime r) @
     le32 (ri_mtime r) @ le32 (ri_dtime r) @ le16 (ri_gid r) @ le16 (ri_hard_links r) @
     le32 (ri_logical_blocks r) @ le32 (ri_flags r) @ le32 (ri_os_specific_1 r) @ le32s (ri_block_pointers r) @
     le32 (ri_s_pointer r) @ le32 (ri_d_pointer r) @ le32 (ri_t_pointer r) @ le32 (ri_generation r) @
     le32 (ri_file_acl r) @ le32 (ri_dir_acl r) @ le32 (ri_fragment_addr r) @ le32s (ri_os_specific_2 r)"

definition raw_inode_of :: "u8 list \<Rightarrow> raw_inode" where
  "raw_inode_of bs = \<lparr>ri_mode = get16 bs 0, ri_uid = get16 bs 2, ri_size = get32 bs 4, ri_atime = get32 bs 8,
     ri_ctime = get32 bs 12, ri_mtime = get32 bs 16, ri_dtime = get32 bs 20, ri_gid = get16 bs 24,
     ri_hard_links = get16 bs 26, ri_logical_blocks = get32 bs 28, ri_flags = get32 bs 32,
     ri_os_specific_1 = get32 bs 36, ri_block_pointers = get32s bs 40 12, ri_s_pointer = get32 bs 88,
     ri_d_pointer = get32 bs 92, ri_t_pointer = get32 bs 96, ri_generation = get32 bs 100,
     ri_file_acl = get32 bs 104, ri_dir_acl = get32 bs 108, ri_fragment_addr = get32 bs 112,
     ri_os_specific_2 = get32s bs 116 3\<rparr>"

definition raw_inode_ok :: "raw_inode \<Rightarrow> bool" where
  "raw_inode_ok r \<longleftrightarrow> length (ri_block_pointers r) = 12 \<and> length (ri_os_specific_2 r) = 3"

definition raw_inode_zero :: raw_inode where
  "raw_inode_zero = \<lparr>ri_mode = 0, ri_uid = 0, ri_size = 0, ri_atime = 0, ri_ctime = 0, ri_mtime = 0, ri_dtime = 0,
     ri_gid = 0, ri_hard_links = 0, ri_logical_blocks = 0, ri_flags = 0, ri_os_specific_1 = 0,
     ri_block_pointers = replicate 12 0, ri_s_pointer = 0, ri_d_pointer = 0, ri_t_pointer = 0, ri_generation = 0,
     ri_file_acl = 0, ri_dir_acl = 0, ri_fragment_addr = 0, ri_os_specific_2 = replicate 3 0\<rparr>"

lemma length_raw_inode_bytes [simp]: "raw_inode_ok r \<Longrightarrow> length (raw_inode_bytes r) = 128"
  by (simp add: raw_inode_bytes_def raw_inode_ok_def)

lemma raw_inode_of_bytes: "raw_inode_ok r \<Longrightarrow> raw_inode_of (raw_inode_bytes r) = r"
  using get32s_le32s[of "ri_block_pointers r"] get32s_le32s[of "ri_os_specific_2 r"]
  by (simp add: raw_inode_of_def raw_inode_bytes_def raw_inode_ok_def get32s_append del: get32s_le32s)

lemma raw_inode_of_ok [simp]: "raw_inode_ok (raw_inode_of bs)"
  by (simp add: raw_inode_of_def raw_inode_ok_def)

record ext2_directory =
  ed_inode :: u32
  ed_size :: u16
  ed_name_length :: u8
  ed_type :: u8

definition ext2_directory_bytes :: "ext2_directory \<Rightarrow> u8 list" where
  "ext2_directory_bytes d = le32 (ed_inode d) @ le16 (ed_size d) @ [ed_name_length d, ed_type d]"

definition ext2_directory_of :: "u8 list \<Rightarrow> ext2_directory" where
  "ext2_directory_of bs = \<lparr>ed_inode = get32 bs 0, ed_size = get16 bs 4, ed_name_length = bs ! 6, ed_type = bs ! 7\<rparr>"

lemma length_ext2_directory_bytes [simp]: "length (ext2_directory_bytes d) = 8"
  by (simp add: ext2_directory_bytes_def)

lemma ext2_directory_of_bytes: "ext2_directory_of (ext2_directory_bytes d) = d"
  by (simp add: ext2_directory_of_def ext2_directory_bytes_def nth_append)

text \<open>Storing a structure that was read puts the very bytes back.\<close>

lemma split32:
  fixes a b c d :: u8
  defines "w \<equiv> ucast a OR push_bit 8 (ucast b) OR push_bit 16 (ucast c) OR push_bit 24 (ucast d) :: u32"
  shows "ucast w = a" "ucast (drop_bit 8 w) = b" "ucast (drop_bit 16 w) = c" "ucast (drop_bit 24 w) = d"
  unfolding w_def by (rule bit_word_eqI; auto simp: bit_simps dest: bit_imp_le_length)+

lemma split16:
  fixes a b :: u8
  defines "w \<equiv> ucast a OR push_bit 8 (ucast b) :: u16"
  shows "ucast w = a" "ucast (drop_bit 8 w) = b"
  unfolding w_def by (rule bit_word_eqI; auto simp: bit_simps dest: bit_imp_le_length)+

lemma drop_nth: "j = i + 1 \<Longrightarrow> j \<le> length bs \<Longrightarrow> bs ! i # drop j bs = drop i bs"
  by (simp add: Cons_nth_drop_Suc)

lemma le16_get16: "j = i + 2 \<Longrightarrow> j \<le> length bs \<Longrightarrow> le16 (get16 bs i) @ drop j bs = drop i bs"
  unfolding le16_def get16_def split16 by (simp add: drop_nth)

lemma le32_get32: "j = i + 4 \<Longrightarrow> j \<le> length bs \<Longrightarrow> le32 (get32 bs i) @ drop j bs = drop i bs"
  unfolding le32_def get32_def split32 by (simp add: drop_nth)

lemma take_drop_bytes: "j = i + n \<Longrightarrow> take n (drop i bs) @ drop j bs = drop i bs"
  using append_take_drop_id[of n "drop i bs"] by (simp add: add.commute)

lemma le32s_get32s: "j = i + 4 * n \<Longrightarrow> j \<le> length bs \<Longrightarrow> le32s (get32s bs i n) @ drop j bs = drop i bs"
proof (induction n arbitrary: i)
  case (Suc n)
  have "get32s bs i (Suc n) = get32 bs i # get32s bs (i + 4) n"
    by (simp add: get32s_def upt_conv_Cons map_Suc_upt[symmetric] add.assoc del: upt_Suc)
  with Suc.IH[of "i + 4"] Suc.prems le32_get32[of "i + 4" i bs] show ?case by (simp add: le32s_def)
qed (simp add: get32s_def le32s_def)

lemmas reload_simps = le16_get16 le32_get32 le32s_get32s take_drop_bytes drop_nth

lemma superblock_bytes_of: "length bs = 512 \<Longrightarrow> superblock_bytes (superblock_of bs) = bs"
  by (simp add: superblock_bytes_def superblock_of_def reload_simps)

lemma group_desc_bytes_of: "length bs = 32 \<Longrightarrow> group_desc_bytes (group_desc_of bs) = bs"
  by (simp add: group_desc_bytes_def group_desc_of_def reload_simps)

lemma raw_inode_bytes_of: "length bs = 128 \<Longrightarrow> raw_inode_bytes (raw_inode_of bs) = bs"
  using le32s_get32s[of 128 116 3 bs]
  by (simp add: raw_inode_bytes_def raw_inode_of_def reload_simps)

lemma ext2_directory_bytes_of: "length bs = 8 \<Longrightarrow> ext2_directory_bytes (ext2_directory_of bs) = bs"
  using drop_nth[of 8 7 bs] by (simp add: ext2_directory_bytes_def ext2_directory_of_def reload_simps)

text \<open>The offsets of the fields.\<close>

lemma superblock_offsets:
  assumes "superblock_ok sb"
  shows "map (get32 (superblock_bytes sb)) [0, 4, 8, 12, 16, 20, 24, 28, 32, 36, 40, 44, 48, 64, 68, 72, 76, 84, 92, 96, 100, 200, 224, 228, 232] =
      [sb_total_inodes sb, sb_total_blocks sb, sb_superuser_blocks sb, sb_free_blocks sb, sb_free_inodes sb,
       sb_superblock_block sb, sb_block_size sb, sb_fragment_size sb, sb_blocks_per_group sb, sb_fragments_per_group sb,
       sb_inodes_per_group sb, sb_last_mount sb, sb_last_write sb, sb_last_check sb, sb_check_interval sb, sb_os_id sb,
       sb_version_major sb, sb_first_inode sb, sb_optional_features sb, sb_required_features sb, sb_ro_features sb,
       sb_compression sb, sb_journal_inode sb, sb_journal_device sb, sb_orphan_inode_head sb]"
    "map (get16 (superblock_bytes sb)) [52, 54, 56, 58, 60, 62, 80, 82, 88, 90, 206] =
      [sb_times_mounted sb, sb_mounts_allowed sb, sb_signature sb, sb_state sb, sb_error_action sb, sb_version_minor sb,
       sb_reserved_user sb, sb_reserved_group sb, sb_inode_size sb, sb_superblock_group sb, sb_unused sb]"
    "map (\<lambda>(i, n). take n (drop i (superblock_bytes sb))) [(104, 16), (120, 16), (136, 64), (204, 1), (205, 1), (208, 16), (236, 276)] =
      [sb_filesystem_id sb, sb_volume_name sb, sb_last_mount_path sb, [sb_file_prealloc_blocks sb],
       [sb_directory_prealloc_blocks sb], sb_journal_id sb, sb_extra sb]"
  using assms by (simp_all add: superblock_bytes_def superblock_ok_def get_Cons)

lemma group_desc_offsets:
  assumes "length (gd_unused gd) = 14"
  shows "map (get32 (group_desc_bytes gd)) [0, 4, 8] = [gd_block_usage_bitmap gd, gd_inode_usage_bitmap gd, gd_inode_table gd]"
    "map (get16 (group_desc_bytes gd)) [12, 14, 16] = [gd_free_blocks gd, gd_free_inodes gd, gd_num_directories gd]"
    "drop 18 (group_desc_bytes gd) = gd_unused gd"
  using assms by (simp_all add: group_desc_bytes_def)

lemma raw_inode_offsets:
  assumes "raw_inode_ok ri"
  shows "map (get16 (raw_inode_bytes ri)) [0, 2, 24, 26] = [ri_mode ri, ri_uid ri, ri_gid ri, ri_hard_links ri]"
    "map (get32 (raw_inode_bytes ri)) [4, 8, 12, 16, 20, 28, 32, 36, 88, 92, 96, 100, 104, 108, 112] =
      [ri_size ri, ri_atime ri, ri_ctime ri, ri_mtime ri, ri_dtime ri, ri_logical_blocks ri, ri_flags ri,
       ri_os_specific_1 ri, ri_s_pointer ri, ri_d_pointer ri, ri_t_pointer ri, ri_generation ri, ri_file_acl ri,
       ri_dir_acl ri, ri_fragment_addr ri]"
    "get32s (raw_inode_bytes ri) 40 12 = ri_block_pointers ri"
    "get32s (raw_inode_bytes ri) 116 3 = ri_os_specific_2 ri"
  using assms get32s_le32s[of "ri_block_pointers ri"] get32s_le32s[of "ri_os_specific_2 ri"]
  by (simp_all add: raw_inode_bytes_def raw_inode_ok_def get32s_append del: get32s_le32s)

lemma ext2_directory_offsets:
  "get32 (ext2_directory_bytes ed) 0 = ed_inode ed"
    "get16 (ext2_directory_bytes ed) 4 = ed_size ed"
    "ext2_directory_bytes ed ! 6 = ed_name_length ed"
    "ext2_directory_bytes ed ! 7 = ed_type ed"
  by (simp_all add: ext2_directory_bytes_def nth_append)



section \<open>Allocation bitmaps\<close>

definition get_bitmap_bit :: "u8 list \<Rightarrow> nat \<Rightarrow> bool run" where
  "get_bitmap_bit bitmap index =
     (if index div 8 < length bitmap then Inr (bitmap ! (index div 8) AND push_bit (index mod 8) 1 \<noteq> 0)
      else Inl OutOfBounds)"

definition set_bitmap_bit :: "u8 list \<Rightarrow> nat \<Rightarrow> bool \<Rightarrow> u8 list run" where
  "set_bitmap_bit bitmap index state =
     (if index div 8 < length bitmap
      then let old = bitmap ! (index div 8) in
           Inr (bitmap[index div 8 := (if state then old OR push_bit (index mod 8) 1
                                       else old AND NOT (push_bit (index mod 8) 1))])
      else Inl OutOfBounds)"

definition bitmap_bit :: "u8 list \<Rightarrow> nat \<Rightarrow> bool" where
  "bitmap_bit bitmap i = bit (bitmap ! (i div 8)) (i mod 8)"

definition bitmap_cap :: "u8 list \<Rightarrow> nat" where
  "bitmap_cap bitmap = 8 * length bitmap"

lemma set_bitmap_bit_ok:
  assumes "i < 8 * length bitmap"
  shows "\<exists>bitmap'. set_bitmap_bit bitmap i b = Inr bitmap' \<and> length bitmap' = length bitmap \<and>
           (\<forall>j. bitmap_bit bitmap' j = (if j = i then b else bitmap_bit bitmap j))"
proof -
  have i: "i div 8 < length bitmap" using assms by (simp add: less_mult_imp_div_less mult.commute)
  let ?new = "if b then bitmap ! (i div 8) OR push_bit (i mod 8) 1 else bitmap ! (i div 8) AND NOT (push_bit (i mod 8) 1)"
  have "bitmap_bit (bitmap[i div 8 := ?new]) j = (if j = i then b else bitmap_bit bitmap j)" for j
  proof (cases "j div 8 = i div 8")
    case True
    with i div_mod_8[of j i] show ?thesis by (auto simp: bitmap_bit_def bit_set_byte)
  next
    case False
    with i show ?thesis by (auto simp: bitmap_bit_def)
  qed
  with i show ?thesis by (auto simp: set_bitmap_bit_def Let_def)
qed

interpretation e2bits: bit_array get_bitmap_bit set_bitmap_bit bitmap_cap bitmap_bit
proof unfold_locales
  fix i and m :: "u8 list" and b
  assume i: "i < bitmap_cap m"
  then show "get_bitmap_bit m i = Inr (bitmap_bit m i)"
    by (simp add: bitmap_cap_def get_bitmap_bit_def bitmap_bit_def and_exp_eq_0_iff_not_bit less_mult_imp_div_less mult.commute)
  show "\<exists>m'. set_bitmap_bit m i b = Inr m' \<and> bitmap_cap m' = bitmap_cap m \<and>
      (\<forall>j < bitmap_cap m. bitmap_bit m' j = (if j = i then b else bitmap_bit m j))"
    using set_bitmap_bit_ok[of i m b] i by (auto simp: bitmap_cap_def)
qed

end
