(* ===== verification/FileFs.thy ===== *)
theory FileFs
  imports ByteBlocks LRUCache
begin

text \<open>
  \<open>kernel/filesystem/FileBasedFilesystem.cpp\<close>: a file system on top of a file. The file is given by its
  bytes and by the accesses that fail; that a disk behaves like this is shown in \<open>DiskFile\<close>. Buffers on
  the stack start with arbitrary bytes, which are a component of the state, so a caller that ignores a
  failed read goes on with them. The inode cache holds references; the objects live elsewhere.
\<close>

section \<open>The file below\<close>

record bfile =
  bf_bytes :: "u8 list"
  bf_read_error :: "nat \<Rightarrow> errno option"
  bf_write_error :: "nat \<Rightarrow> errno option"

definition file_read :: "bfile \<Rightarrow> nat \<Rightarrow> nat \<Rightarrow> u8 list ret" where
  "file_read f off n =
     (case bf_read_error f off of Some e \<Rightarrow> Inl e | None \<Rightarrow> Inr (take n (drop off (bf_bytes f))))"

definition file_write :: "bfile \<Rightarrow> nat \<Rightarrow> u8 list \<Rightarrow> nat ret \<times> bfile" where
  "file_write f off bytes =
     (case bf_write_error f off of
        Some e \<Rightarrow> (Inl e, f)
      | None \<Rightarrow>
          if off + length bytes \<le> length (bf_bytes f)
          then (Inr (length bytes), f\<lparr>bf_bytes := patch (bf_bytes f) off bytes\<rparr>)
          else (Inl ENOSPC, f))"

section \<open>Blocks\<close>

record fbfs =
  fb_file :: bfile
  fb_block_size :: nat
  fb_junk :: "nat \<Rightarrow> u8"
  fb_inode_cache :: "(nat, nat) lru"

abbreviation LOGICAL_BLOCK_SIZE :: nat where
  "LOGICAL_BLOCK_SIZE \<equiv> 512"

definition mul32 :: "nat \<Rightarrow> nat \<Rightarrow> nat" where
  "mul32 a b = a * b mod 2 ^ 32"

lemma mul32_less: "a * b < 2 ^ 32 \<Longrightarrow> mul32 a b = a * b"
  by (simp only: mul32_def mod_less)

text \<open>\<open>uint8_t buf[n]\<close> without an initialiser.\<close>

definition stack_buf :: "'a fbfs_scheme \<Rightarrow> nat \<Rightarrow> u8 list" where
  "stack_buf fs n = map (fb_junk fs) [0..<n]"

definition read_logical_blocks :: "'a fbfs_scheme \<Rightarrow> nat \<Rightarrow> nat \<Rightarrow> u8 list \<Rightarrow> (unit ret \<times> u8 list) run" where
  "read_logical_blocks fs block count buffer =
     (case file_read (fb_file fs) (mul32 block LOGICAL_BLOCK_SIZE) (mul32 count LOGICAL_BLOCK_SIZE) of
        Inl e \<Rightarrow> Inr (Inl e, buffer)
      | Inr bytes \<Rightarrow>
          bindR (memcpy_to buffer 0 bytes) (\<lambda>buffer'.
            Inr (if length bytes \<noteq> mul32 count LOGICAL_BLOCK_SIZE then Inl EIO else Inr (), buffer')))"

definition read_logical_block :: "'a fbfs_scheme \<Rightarrow> nat \<Rightarrow> u8 list \<Rightarrow> (unit ret \<times> u8 list) run" where
  "read_logical_block fs block buffer = read_logical_blocks fs block 1 buffer"

definition write_logical_blocks :: "'a fbfs_scheme \<Rightarrow> nat \<Rightarrow> nat \<Rightarrow> u8 list \<Rightarrow> (unit ret \<times> 'a fbfs_scheme) run" where
  "write_logical_blocks fs block count buffer =
     bindR (memcpy_from buffer 0 (mul32 count LOGICAL_BLOCK_SIZE)) (\<lambda>bytes.
       let (n, f) = file_write (fb_file fs) (mul32 block LOGICAL_BLOCK_SIZE) bytes in
       Inr (case n of
              Inl e \<Rightarrow> Inl e
            | Inr nwrote \<Rightarrow> if nwrote \<noteq> mul32 count LOGICAL_BLOCK_SIZE then Inl EIO else Inr (),
            fs\<lparr>fb_file := f\<rparr>))"

definition write_logical_block :: "'a fbfs_scheme \<Rightarrow> nat \<Rightarrow> u8 list \<Rightarrow> (unit ret \<times> 'a fbfs_scheme) run" where
  "write_logical_block fs block buffer = write_logical_blocks fs block 1 buffer"

definition set_block_size :: "'a fbfs_scheme \<Rightarrow> nat \<Rightarrow> 'a fbfs_scheme" where
  "set_block_size fs block_size = fs\<lparr>fb_block_size := block_size\<rparr>"

text \<open>A block is read into the buffer from position \<open>at\<close> on; a short read leaves the rest of it as it was.\<close>

definition fs_read_at :: "'a fbfs_scheme \<Rightarrow> nat \<Rightarrow> u8 list \<Rightarrow> nat \<Rightarrow> (unit ret \<times> u8 list) run" where
  "fs_read_at fs block buffer at =
     (case file_read (fb_file fs) (mul32 block (fb_block_size fs)) (fb_block_size fs) of
        Inl e \<Rightarrow> Inr (Inl e, buffer)
      | Inr bytes \<Rightarrow>
          if bytes = [] then Inr (Inl EIO, buffer)
          else bindR (memcpy_to buffer at bytes) (\<lambda>buffer'. Inr (Inr (), buffer')))"

definition fs_read_block :: "'a fbfs_scheme \<Rightarrow> nat \<Rightarrow> u8 list \<Rightarrow> (unit ret \<times> u8 list) run" where
  "fs_read_block fs block buffer = fs_read_at fs block buffer 0"

fun fs_read_blocks_loop :: "'a fbfs_scheme \<Rightarrow> nat \<Rightarrow> nat \<Rightarrow> nat \<Rightarrow> u8 list \<Rightarrow> (unit ret \<times> u8 list) run" where
  "fs_read_blocks_loop fs block i 0 buffer = Inr (Inr (), buffer)"
| "fs_read_blocks_loop fs block i (Suc left) buffer =
     bindR (fs_read_at fs (add32 block i) buffer (fb_block_size fs * i)) (\<lambda>(res, buffer').
       case res of
         Inl e \<Rightarrow> Inr (Inl e, buffer')
       | Inr _ \<Rightarrow> fs_read_blocks_loop fs block (Suc i) left buffer')"

definition fs_read_blocks :: "'a fbfs_scheme \<Rightarrow> nat \<Rightarrow> nat \<Rightarrow> u8 list \<Rightarrow> (unit ret \<times> u8 list) run" where
  "fs_read_blocks fs block count buffer = fs_read_blocks_loop fs block 0 count buffer"

definition fs_write_bytes :: "'a fbfs_scheme \<Rightarrow> nat \<Rightarrow> u8 list \<Rightarrow> unit ret \<times> 'a fbfs_scheme" where
  "fs_write_bytes fs block bytes =
     (let (n, f) = file_write (fb_file fs) (mul32 block (fb_block_size fs)) bytes in
      (case n of
         Inl e \<Rightarrow> Inl e
       | Inr nwrote \<Rightarrow> if nwrote = 0 then Inl EIO else Inr (),
       fs\<lparr>fb_file := f\<rparr>))"

definition fs_write_block :: "'a fbfs_scheme \<Rightarrow> nat \<Rightarrow> u8 list \<Rightarrow> (unit ret \<times> 'a fbfs_scheme) run" where
  "fs_write_block fs block buffer =
     bindR (memcpy_from buffer 0 (fb_block_size fs)) (\<lambda>bytes. Inr (fs_write_bytes fs block bytes))"

fun fs_write_blocks_loop :: "'a fbfs_scheme \<Rightarrow> nat \<Rightarrow> nat \<Rightarrow> nat \<Rightarrow> u8 list \<Rightarrow> (unit ret \<times> 'a fbfs_scheme) run" where
  "fs_write_blocks_loop fs block i 0 buffer = Inr (Inr (), fs)"
| "fs_write_blocks_loop fs block i (Suc left) buffer =
     bindR (memcpy_from buffer (i * fb_block_size fs) (fb_block_size fs)) (\<lambda>bytes.
       let (res, fs') = fs_write_bytes fs (add32 block i) bytes in
       (case res of
          Inl e \<Rightarrow> Inr (Inl e, fs')
        | Inr _ \<Rightarrow> fs_write_blocks_loop fs' block (Suc i) left buffer))"

definition fs_write_blocks :: "'a fbfs_scheme \<Rightarrow> nat \<Rightarrow> nat \<Rightarrow> u8 list \<Rightarrow> (unit ret \<times> 'a fbfs_scheme) run" where
  "fs_write_blocks fs block count buffer = fs_write_blocks_loop fs block 0 count buffer"

definition fs_zero_block :: "'a fbfs_scheme \<Rightarrow> nat \<Rightarrow> unit ret \<times> 'a fbfs_scheme" where
  "fs_zero_block fs block = fs_write_bytes fs block (replicate (fb_block_size fs) 0)"

definition fs_truncate_block :: "'a fbfs_scheme \<Rightarrow> nat \<Rightarrow> nat \<Rightarrow> (unit ret \<times> 'a fbfs_scheme) run" where
  "fs_truncate_block fs block new_size =
     (if new_size \<ge> fb_block_size fs then Inr (Inl EOVERFLOW, fs)
      else
        case file_read (fb_file fs) (mul32 block (fb_block_size fs)) (fb_block_size fs) of
          Inl e \<Rightarrow> Inr (Inl e, fs)
        | Inr bytes \<Rightarrow>
            bindR (memcpy_to (stack_buf fs (fb_block_size fs)) 0 bytes) (\<lambda>buf.
            bindR (memcpy_to buf new_size (replicate (fb_block_size fs - new_size) 0)) (\<lambda>buf'.
              Inr (fs_write_bytes fs block buf'))))"

section \<open>The inode cache\<close>

definition get_cached_inode :: "'a fbfs_scheme \<Rightarrow> nat \<Rightarrow> (nat ret \<times> 'a fbfs_scheme) prun" where
  "get_cached_inode fs ino =
     bindP (lru_get (fb_inode_cache fs) ino) (\<lambda>(inode, cache).
       Some (Inr (case inode of Some i \<Rightarrow> Inr i | None \<Rightarrow> Inl ENOENT, fs\<lparr>fb_inode_cache := cache\<rparr>)))"

definition add_cached_inode :: "'a fbfs_scheme \<Rightarrow> nat \<Rightarrow> nat \<Rightarrow> 'a fbfs_scheme prun" where
  "add_cached_inode fs ino inode =
     bindP (lru_insert (fb_inode_cache fs) ino inode) (\<lambda>cache. Some (Inr (fs\<lparr>fb_inode_cache := cache\<rparr>)))"

definition remove_cached_inode :: "'a fbfs_scheme \<Rightarrow> nat \<Rightarrow> 'a fbfs_scheme prun" where
  "remove_cached_inode fs ino =
     bindP (lru_erase (fb_inode_cache fs) ino) (\<lambda>cache. Some (Inr (fs\<lparr>fb_inode_cache := cache\<rparr>)))"

text \<open>\<open>get_inode_rawptr\<close> is virtual: the driver creates the object, or returns a null pointer.\<close>

definition get_inode :: "('a fbfs_scheme \<Rightarrow> nat \<Rightarrow> (nat option \<times> 'a fbfs_scheme) prun) \<Rightarrow>
    'a fbfs_scheme \<Rightarrow> nat \<Rightarrow> (nat ret \<times> 'a fbfs_scheme) prun" where
  "get_inode get_inode_rawptr fs ino =
     bindP (get_cached_inode fs ino) (\<lambda>(inode_perhaps, fs1).
       case inode_perhaps of
         Inr i \<Rightarrow> Some (Inr (Inr i, fs1))
       | Inl _ \<Rightarrow>
           bindP (get_inode_rawptr fs1 ino) (\<lambda>(raw, fs2).
             case raw of
               None \<Rightarrow> Some (Inr (Inl ENOENT, fs2))
             | Some i \<Rightarrow> bindP (add_cached_inode fs2 ino i) (\<lambda>fs3. Some (Inr (Inr i, fs3)))))"

section \<open>Block access on a healthy file\<close>

text \<open>\<open>store_ok n fs\<close>: the file holds \<open>n\<close> whole blocks, below 4 GiB, and no access fails.\<close>

definition store_ok :: "nat \<Rightarrow> 'a fbfs_scheme \<Rightarrow> bool" where
  "store_ok n fs \<longleftrightarrow> length (bf_bytes (fb_file fs)) = n * fb_block_size fs \<and> n * fb_block_size fs < 2 ^ 32 \<and>
     0 < fb_block_size fs \<and> bf_read_error (fb_file fs) = (\<lambda>_. None) \<and> bf_write_error (fb_file fs) = (\<lambda>_. None)"

definition block_at :: "'a fbfs_scheme \<Rightarrow> nat \<Rightarrow> u8 list" where
  "block_at fs b = chunk (fb_block_size fs) (bf_bytes (fb_file fs)) b"

definition put_block :: "'a fbfs_scheme \<Rightarrow> nat \<Rightarrow> u8 list \<Rightarrow> 'a fbfs_scheme" where
  "put_block fs b bytes =
     fs\<lparr>fb_file := (fb_file fs)\<lparr>bf_bytes := patch (bf_bytes (fb_file fs)) (b * fb_block_size fs) bytes\<rparr>\<rparr>"

lemma put_block_fields [simp]:
  "fb_block_size (put_block fs b bytes) = fb_block_size fs"
  "fb_junk (put_block fs b bytes) = fb_junk fs"
  "fb_inode_cache (put_block fs b bytes) = fb_inode_cache fs"
  "fbfs.more (put_block fs b bytes) = fbfs.more fs"
  by (simp_all add: put_block_def)

lemma store_block_bound:
  assumes "store_ok n fs" "b < n"
  shows "b * fb_block_size fs + fb_block_size fs \<le> length (bf_bytes (fb_file fs))"
    "Suc b * fb_block_size fs \<le> length (bf_bytes (fb_file fs))"
    "mul32 b (fb_block_size fs) = b * fb_block_size fs"
proof -
  have "Suc b * fb_block_size fs \<le> n * fb_block_size fs" using assms(2) by (intro mult_le_mono1) simp
  with assms(1) show 1: "b * fb_block_size fs + fb_block_size fs \<le> length (bf_bytes (fb_file fs))"
    "Suc b * fb_block_size fs \<le> length (bf_bytes (fb_file fs))"
    by (simp_all add: store_ok_def)
  with assms(1) show "mul32 b (fb_block_size fs) = b * fb_block_size fs"
    by (intro mul32_less) (simp add: store_ok_def)
qed

lemma length_block_at [simp]: "store_ok n fs \<Longrightarrow> b < n \<Longrightarrow> length (block_at fs b) = fb_block_size fs"
  using store_block_bound(2)[of n fs b] by (simp add: block_at_def)

lemma store_put_block [simp]:
  "store_ok n fs \<Longrightarrow> b < n \<Longrightarrow> length bytes = fb_block_size fs \<Longrightarrow> store_ok n (put_block fs b bytes)"
  using store_block_bound[of n fs b] by (simp add: store_ok_def put_block_def)

lemma block_at_put_block:
  assumes "store_ok n fs" "b < n" "c < n" "length bytes = fb_block_size fs"
  shows "block_at (put_block fs b bytes) c = (if c = b then bytes else block_at fs c)"
proof (cases "c = b")
  case True
  with assms show ?thesis
    using chunk_patch_same[OF store_block_bound(2)[OF assms(1,2)] assms(4)] by (simp add: block_at_def put_block_def)
next
  case False
  then have "Suc c \<le> b \<or> Suc b \<le> c" by linarith
  then have "Suc c * fb_block_size fs \<le> b * fb_block_size fs \<or> b * fb_block_size fs + fb_block_size fs \<le> c * fb_block_size fs"
    using mult_le_mono1[of "Suc c" b "fb_block_size fs"] mult_le_mono1[of "Suc b" c "fb_block_size fs"] by auto
  with False assms store_block_bound[OF assms(1,2)] store_block_bound(2)[OF assms(1,3)]
  show ?thesis by (simp add: block_at_def put_block_def chunk_patch_other)
qed

lemma fs_read_block_ok:
  assumes "store_ok n fs" "b < n" "length buffer = fb_block_size fs"
  shows "fs_read_block fs b buffer = Inr (Inr (), block_at fs b)"
proof -
  have len: "length (block_at fs b) = fb_block_size fs" using assms by simp
  have "file_read (fb_file fs) (mul32 b (fb_block_size fs)) (fb_block_size fs) = Inr (block_at fs b)"
    using assms(1) store_block_bound(3)[OF assms(1,2)] by (simp add: file_read_def block_at_def chunk_def store_ok_def)
  moreover have "block_at fs b \<noteq> []" using len assms(1) by (auto simp: store_ok_def)
  ultimately show ?thesis using len assms(3) by (simp add: fs_read_block_def fs_read_at_def patch_all)
qed

lemma fs_write_bytes_ok:
  assumes "store_ok n fs" "b < n" "length bytes = fb_block_size fs"
  shows "fs_write_bytes fs b bytes = (Inr (), put_block fs b bytes)"
  using assms store_block_bound[OF assms(1,2)]
  by (simp add: fs_write_bytes_def file_write_def store_ok_def put_block_def)

lemma fs_write_block_ok:
  assumes "store_ok n fs" "b < n" "length bytes = fb_block_size fs"
  shows "fs_write_block fs b bytes = Inr (Inr (), put_block fs b bytes)"
  using fs_write_bytes_ok[OF assms] assms(3) by (simp add: fs_write_block_def)

lemma fs_zero_block_ok:
  assumes "store_ok n fs" "b < n"
  shows "fs_zero_block fs b = (Inr (), put_block fs b (replicate (fb_block_size fs) 0))"
  using fs_write_bytes_ok[OF assms] by (simp add: fs_zero_block_def)

lemma fs_truncate_block_ok:
  assumes "store_ok n fs" "b < n" "k < fb_block_size fs"
  shows "fs_truncate_block fs b k =
    Inr (Inr (), put_block fs b (take k (block_at fs b) @ replicate (fb_block_size fs - k) 0))"
proof -
  have len: "length (block_at fs b) = fb_block_size fs" using assms by simp
  have "file_read (fb_file fs) (mul32 b (fb_block_size fs)) (fb_block_size fs) = Inr (block_at fs b)"
    using assms(1) store_block_bound(3)[OF assms(1,2)] by (simp add: file_read_def block_at_def chunk_def store_ok_def)
  with assms len fs_write_bytes_ok[OF assms(1,2)] show ?thesis
    by (simp add: fs_truncate_block_def stack_buf_def patch_all) (simp add: patch_def)
qed

end
