(* ===== verification/Ext2Alloc.thy ===== *)
theory Ext2Alloc
  imports Ext2Layout FileFs
begin

text \<open>
  \<open>kernel/filesystem/ext2/Ext2Filesystem.cpp\<close> and \<open>Ext2BlockGroup.cpp\<close>: mounting, the block groups and
  the block allocator. A pointer to a block group is its index in the array of loaded groups.
\<close>

section \<open>State\<close>

record block_group =
  bg_num :: nat
  bg_block_bitmap_block :: u32
  bg_inode_bitmap_block :: u32
  bg_inode_table_block :: u32
  bg_free_blocks :: u16
  bg_free_inodes :: u16
  bg_num_directories :: u16

record ext2 = fbfs +
  e2_superblock :: superblock
  e2_block_group_descriptor_table :: nat
  e2_blocks_per_inode_table :: nat
  e2_sectors_per_inode_table :: nat
  e2_sectors_per_block :: nat
  e2_num_block_groups :: nat
  e2_inodes_per_block :: nat
  e2_block_pointers_per_block :: nat
  e2_block_groups :: "block_group option list"

abbreviation EXT2_SIGNATURE :: u16 where
  "EXT2_SIGNATURE \<equiv> 0xEF53"

abbreviation blocks_per_group :: "'a ext2_scheme \<Rightarrow> nat" where
  "blocks_per_group fs \<equiv> unat (sb_blocks_per_group (e2_superblock fs))"

abbreviation inodes_per_group :: "'a ext2_scheme \<Rightarrow> nat" where
  "inodes_per_group fs \<equiv> unat (sb_inodes_per_group (e2_superblock fs))"

definition divR :: "nat \<Rightarrow> nat \<Rightarrow> nat run" where
  "divR a n = (if n = 0 then Inl DivByZero else Inr (a div n))"

lemma divR_pos [simp, run_simps]: "0 < n \<Longrightarrow> divR a n = Inr (a div n)"
  by (simp add: divR_def)

section \<open>Mounting\<close>

definition read_superblock :: "'a ext2_scheme \<Rightarrow> superblock run" where
  "read_superblock fs =
     bindR (read_logical_block fs 2 (stack_buf fs 512)) (\<lambda>(res, bytes).
       let sb = superblock_of bytes in
       Inr (if sb_version_major sb < 1 then sb\<lparr>sb_first_inode := 11, sb_inode_size := 128\<rparr> else sb))"

definition write_superblock :: "'a ext2_scheme \<Rightarrow> 'a ext2_scheme run" where
  "write_superblock fs =
     bindR (write_logical_block fs 2 (superblock_bytes (e2_superblock fs))) (\<lambda>(res, fs'). Inr fs')"

definition shl32 :: "nat \<Rightarrow> nat \<Rightarrow> nat run" where
  "shl32 a n = (if n < 32 then Inr (a * 2 ^ n mod 2 ^ 32) else Inl Undefined)"

definition ext2_init :: "'a ext2_scheme \<Rightarrow> 'a ext2_scheme run" where
  "ext2_init fs =
     bindR (read_superblock fs) (\<lambda>sb.
     bindR (shl32 1024 (unat (sb_block_size sb))) (\<lambda>bs.
     let inode_bytes = mul32 (unat (sb_inode_size sb)) (unat (sb_inodes_per_group sb)) in
     bindR (divR inode_bytes bs) (\<lambda>blocks_per_table.
     bindR (divR (sub32 (add32 (unat (sb_total_blocks sb)) (unat (sb_blocks_per_group sb))) 1)
                 (unat (sb_blocks_per_group sb))) (\<lambda>groups.
     bindR (divR bs (unat (sb_inode_size sb))) (\<lambda>per_block.
       Inr ((set_block_size fs bs)\<lparr>
         e2_superblock := sb,
         e2_block_group_descriptor_table := add32 (unat (sb_superblock_block sb)) 1,
         e2_blocks_per_inode_table := blocks_per_table,
         e2_sectors_per_inode_table := inode_bytes div 512,
         e2_sectors_per_block := bs div 512,
         e2_num_block_groups := groups,
         e2_inodes_per_block := per_block,
         e2_block_pointers_per_block := bs div 4,
         e2_block_groups := replicate groups None\<rparr>))))))"

section \<open>Block groups\<close>

definition read_block_group_raw :: "'a ext2_scheme \<Rightarrow> nat \<Rightarrow> (unit ret \<times> group_desc) run" where
  "read_block_group_raw fs bgi =
     bindR (divR (mul32 bgi 32) (fb_block_size fs)) (\<lambda>off.
     bindR (fs_read_block fs (add32 2 off) (stack_buf fs (fb_block_size fs))) (\<lambda>(ret, block_buf).
     bindR (modR bgi (fb_block_size fs div 32)) (\<lambda>d.
     bindR (memcpy_from block_buf (d * 32) 32) (\<lambda>bytes. Inr (ret, group_desc_of bytes)))))"

definition write_block_group_raw :: "'a ext2_scheme \<Rightarrow> nat \<Rightarrow> group_desc \<Rightarrow> (unit ret \<times> 'a ext2_scheme) run" where
  "write_block_group_raw fs bgi desc =
     bindR (divR (mul32 bgi 32) (fb_block_size fs)) (\<lambda>off.
     bindR (fs_read_block fs (add32 2 off) (stack_buf fs (fb_block_size fs))) (\<lambda>(res, block_buf).
       case res of
         Inl e \<Rightarrow> Inr (Inl e, fs)
       | Inr _ \<Rightarrow>
           bindR (modR bgi (fb_block_size fs div 32)) (\<lambda>d.
           bindR (memcpy_to block_buf (d * 32) (group_desc_bytes desc)) (\<lambda>block_buf'.
             fs_write_block fs (add32 2 off) block_buf'))))"

definition block_group_of :: "nat \<Rightarrow> group_desc \<Rightarrow> block_group" where
  "block_group_of num buf = \<lparr>bg_num = num, bg_block_bitmap_block = gd_block_usage_bitmap buf,
     bg_inode_bitmap_block = gd_inode_usage_bitmap buf, bg_inode_table_block = gd_inode_table buf,
     bg_free_blocks = gd_free_blocks buf, bg_free_inodes = gd_free_inodes buf,
     bg_num_directories = gd_num_directories buf\<rparr>"

definition block_group_new :: "'a ext2_scheme \<Rightarrow> nat \<Rightarrow> block_group run" where
  "block_group_new fs num = bindR (read_block_group_raw fs num) (\<lambda>(res, buf). Inr (block_group_of num buf))"

definition group_desc_for :: "u8 list \<Rightarrow> block_group \<Rightarrow> group_desc" where
  "group_desc_for junk g = \<lparr>gd_block_usage_bitmap = bg_block_bitmap_block g,
     gd_inode_usage_bitmap = bg_inode_bitmap_block g, gd_inode_table = bg_inode_table_block g,
     gd_free_blocks = bg_free_blocks g, gd_free_inodes = bg_free_inodes g,
     gd_num_directories = bg_num_directories g, gd_unused = junk\<rparr>"

definition group_at :: "'a ext2_scheme \<Rightarrow> nat \<Rightarrow> block_group run" where
  "group_at fs gi =
     (if gi < length (e2_block_groups fs)
      then (case e2_block_groups fs ! gi of Some g \<Rightarrow> Inr g | None \<Rightarrow> Inl NullDeref)
      else Inl NullDeref)"

definition set_group :: "'a ext2_scheme \<Rightarrow> nat \<Rightarrow> block_group \<Rightarrow> 'a ext2_scheme" where
  "set_group fs gi g = fs\<lparr>e2_block_groups := (e2_block_groups fs)[gi := Some g]\<rparr>"

definition group_write :: "'a ext2_scheme \<Rightarrow> nat \<Rightarrow> 'a ext2_scheme run" where
  "group_write fs gi =
     bindR (group_at fs gi) (\<lambda>g.
     bindR (write_block_group_raw fs (bg_num g) (group_desc_for (stack_buf fs 14) g)) (\<lambda>(res, fs'). Inr fs'))"

definition first_block :: "'a ext2_scheme \<Rightarrow> block_group \<Rightarrow> nat" where
  "first_block fs g =
     add32 (mul32 (bg_num g) (blocks_per_group fs)) (if fb_block_size fs = 1024 then 1 else 0)"

definition get_block_group :: "'a ext2_scheme \<Rightarrow> nat \<Rightarrow> (nat option \<times> 'a ext2_scheme) run" where
  "get_block_group fs gi =
     (if e2_block_groups fs = [] \<or> gi \<ge> e2_num_block_groups fs then Inr (None, fs)
      else if gi < length (e2_block_groups fs) then
        (case e2_block_groups fs ! gi of
           Some g \<Rightarrow> Inr (Some gi, fs)
         | None \<Rightarrow> bindR (block_group_new fs gi) (\<lambda>g. Inr (Some gi, set_group fs gi g)))
      else Inl OutOfBounds)"

section \<open>Releasing blocks\<close>

definition ext2_free_block :: "'a ext2_scheme \<Rightarrow> nat \<Rightarrow> 'a ext2_scheme run" where
  "ext2_free_block fs block =
     (if block = 0 then Inr fs
      else
        bindR (divR (block - 1) (blocks_per_group fs)) (\<lambda>group_index.
        bindR (get_block_group fs group_index) (\<lambda>(bg, fs1).
          case bg of
            None \<Rightarrow> Inr fs1
          | Some gi \<Rightarrow>
              bindR (group_at fs1 gi) (\<lambda>g.
              bindR (fs_read_block fs1 (unat (bg_block_bitmap_block g)) (stack_buf fs1 (fb_block_size fs1))) (\<lambda>(res, block_buf).
                case res of
                  Inl _ \<Rightarrow> Inr fs1
                | Inr _ \<Rightarrow>
                    let bit_index = sub32 block (first_block fs1 g) in
                    bindR (get_bitmap_bit block_buf bit_index) (\<lambda>used.
                      if \<not> used then Inr fs1
                      else
                        bindR (set_bitmap_bit block_buf bit_index False) (\<lambda>block_buf'.
                        bindR (fs_write_block fs1 (unat (bg_block_bitmap_block g)) block_buf') (\<lambda>(res, fs2).
                          case res of
                            Inl _ \<Rightarrow> Inr fs2
                          | Inr _ \<Rightarrow>
                              bindR (group_write (set_group fs2 gi (g\<lparr>bg_free_blocks := bg_free_blocks g + 1\<rparr>)) gi) (\<lambda>fs3.
                                write_superblock (fs3\<lparr>e2_superblock := (e2_superblock fs3)\<lparr>
                                  sb_free_blocks := sb_free_blocks (e2_superblock fs3) + 1\<rparr>\<rparr>))))))))))"

fun ext2_free_blocks :: "'a ext2_scheme \<Rightarrow> nat list \<Rightarrow> 'a ext2_scheme run" where
  "ext2_free_blocks fs [] = Inr fs"
| "ext2_free_blocks fs (b # bs) = bindR (ext2_free_block fs b) (\<lambda>fs'. ext2_free_blocks fs' bs)"

section \<open>Allocating blocks\<close>

text \<open>One block of a group is taken: the counters go down and, if asked for, the block is cleared.\<close>

definition take_block :: "bool \<Rightarrow> nat \<Rightarrow> nat \<Rightarrow> block_group \<Rightarrow> 'a ext2_scheme \<Rightarrow> 'a ext2_scheme" where
  "take_block zero_out gi b g fs =
     (let fs1 = (if zero_out then snd (fs_zero_block fs b) else fs);
          fs2 = set_group fs1 gi (g\<lparr>bg_free_blocks := bg_free_blocks g - 1\<rparr>)
      in fs2\<lparr>e2_superblock := (e2_superblock fs2)\<lparr>sb_free_blocks := sb_free_blocks (e2_superblock fs2) - 1\<rparr>\<rparr>)"

function alloc_loop :: "bool \<Rightarrow> nat \<Rightarrow> nat \<Rightarrow> nat \<Rightarrow> nat \<Rightarrow> 'a ext2_scheme \<Rightarrow> u8 list \<Rightarrow> nat list \<Rightarrow>
    ('a ext2_scheme \<times> u8 list \<times> nat list) run" where
  "alloc_loop zero_out num_blocks gi bpg bi fs block_buf ret =
     (if bi < bpg then
        bindR (get_bitmap_bit block_buf bi) (\<lambda>used.
          if used then alloc_loop zero_out num_blocks gi bpg (bi + 1) fs block_buf ret
          else
            bindR (set_bitmap_bit block_buf bi True) (\<lambda>block_buf'.
            bindR (group_at fs gi) (\<lambda>g.
              let b = add32 bi (first_block fs g); fs' = take_block zero_out gi b g fs; ret' = ret @ [b] in
              if length ret' = num_blocks then Inr (fs', block_buf', ret')
              else alloc_loop zero_out num_blocks gi bpg (bi + 1) fs' block_buf' ret')))
      else Inr (fs, block_buf, ret))"
  by pat_completeness auto
termination
  by (relation "measure (\<lambda>(zero_out, num_blocks, gi, bpg, bi, fs, block_buf, ret). bpg - bi)") auto

declare alloc_loop.simps [simp del]

text \<open>The bitmap could not be written: the counters are put back.\<close>

fun rollback_loop :: "'a ext2_scheme \<Rightarrow> nat \<Rightarrow> u8 list \<Rightarrow> nat list \<Rightarrow> 'a ext2_scheme run" where
  "rollback_loop fs gi block_buf [] = Inr fs"
| "rollback_loop fs gi block_buf (b # bs) =
     bindR (group_at fs gi) (\<lambda>g.
     bindR (set_bitmap_bit block_buf (sub32 b (first_block fs g)) False) (\<lambda>block_buf'.
       let fs1 = set_group fs gi (g\<lparr>bg_free_blocks := bg_free_blocks g + 1\<rparr>) in
       rollback_loop (fs1\<lparr>e2_superblock := (e2_superblock fs1)\<lparr>
           sb_free_blocks := sb_free_blocks (e2_superblock fs1) + 1\<rparr>\<rparr>) gi block_buf' bs))"

definition allocate_blocks_in_group :: "'a ext2_scheme \<Rightarrow> nat \<Rightarrow> nat \<Rightarrow> bool \<Rightarrow> (nat list ret \<times> 'a ext2_scheme) run" where
  "allocate_blocks_in_group fs gi num_blocks zero_out =
     bindR (group_at fs gi) (\<lambda>g.
       if unat (bg_free_blocks g) < num_blocks then Inr (Inl ENOSPC, fs)
       else if num_blocks = 0 then Inr (Inr [], fs)
       else
         bindR (fs_read_block fs (unat (bg_block_bitmap_block g)) (stack_buf fs (fb_block_size fs))) (\<lambda>(res, block_buf).
           case res of
             Inl e \<Rightarrow> Inr (Inl e, fs)
           | Inr _ \<Rightarrow>
               bindR (alloc_loop zero_out num_blocks gi (blocks_per_group fs) 0 fs block_buf []) (\<lambda>(fs1, block_buf1, ret).
               bindR (group_at fs1 gi) (\<lambda>g1.
               let fs2 = (if length ret \<noteq> num_blocks then set_group fs1 gi (g1\<lparr>bg_free_blocks := 0\<rparr>) else fs1) in
               bindR (fs_write_block fs2 (unat (bg_block_bitmap_block g)) block_buf1) (\<lambda>(res, fs3).
                 case res of
                   Inl e \<Rightarrow> bindR (rollback_loop fs3 gi block_buf1 ret) (\<lambda>fs4. Inr (Inl e, fs4))
                 | Inr _ \<Rightarrow>
                     bindR (write_superblock fs3) (\<lambda>fs4.
                     bindR (group_write fs4 gi) (\<lambda>fs5. Inr (Inr ret, fs5))))))))"

text \<open>The two searches of \<open>allocate_blocks\<close> over the groups \<open>bgi, bgi + 1, \<dots>\<close>, of which \<open>left\<close> are left.\<close>

fun find_target :: "'a ext2_scheme \<Rightarrow> nat \<Rightarrow> nat \<Rightarrow> nat \<Rightarrow> (nat option \<times> 'a ext2_scheme) run" where
  "find_target fs num_blocks bgi 0 = Inr (None, fs)"
| "find_target fs num_blocks bgi (Suc left) =
     bindR (get_block_group fs bgi) (\<lambda>(bg, fs1).
       case bg of
         None \<Rightarrow> Inr (None, fs1)
       | Some gi \<Rightarrow>
           bindR (group_at fs1 gi) (\<lambda>g.
             if unat (bg_free_blocks g) \<ge> num_blocks then Inr (Some gi, fs1)
             else find_target fs1 num_blocks (bgi + 1) left))"

fun most_spacious :: "'a ext2_scheme \<Rightarrow> nat option \<Rightarrow> nat \<Rightarrow> nat \<Rightarrow> (nat option \<times> 'a ext2_scheme) run" where
  "most_spacious fs best bgi 0 = Inr (best, fs)"
| "most_spacious fs best bgi (Suc left) =
     bindR (get_block_group fs bgi) (\<lambda>(bg, fs1).
       case bg of
         None \<Rightarrow> most_spacious fs1 best (bgi + 1) left
       | Some gi \<Rightarrow>
           (case best of
              None \<Rightarrow> most_spacious fs1 (Some gi) (bgi + 1) left
            | Some m \<Rightarrow>
                bindR (group_at fs1 gi) (\<lambda>g.
                bindR (group_at fs1 m) (\<lambda>gm.
                  most_spacious fs1 (if bg_free_blocks g > bg_free_blocks gm then Some gi else best) (bgi + 1) left))))"

text \<open>
  The loop that collects blocks from several groups ends because every round takes blocks from the
  group it chose, or finds that its counter was wrong and sets it to zero. A group that is not
  loaded counts as more than any counter.
\<close>

definition room :: "block_group option \<Rightarrow> nat" where
  "room bg = (case bg of None \<Rightarrow> 2 ^ 16 | Some g \<Rightarrow> unat (bg_free_blocks g))"

definition total_room :: "'a ext2_scheme \<Rightarrow> nat" where
  "total_room fs = sum_list (map room (e2_block_groups fs))"

lemma room_le: "room bg \<le> room None"
proof (cases bg)
  case (Some g)
  have "unat (bg_free_blocks g) < 2 ^ 16" using unsigned_less[of "bg_free_blocks g"] by simp
  with Some show ?thesis by (simp add: room_def)
qed simp

lemma sum_list_update_less:
  fixes f :: "'a \<Rightarrow> nat"
  assumes "i < length xs"
  shows "f x \<le> f (xs ! i) \<Longrightarrow> sum_list (map f (xs[i := x])) \<le> sum_list (map f xs)"
    and "f x < f (xs ! i) \<Longrightarrow> sum_list (map f (xs[i := x])) < sum_list (map f xs)"
proof -
  have u: "xs[i := x] = take i xs @ x # drop (Suc i) xs" by (rule upd_conv_take_nth_drop[OF assms])
  have v: "xs = take i xs @ xs ! i # drop (Suc i) xs" by (rule id_take_nth_drop[OF assms])
  have "sum_list (map f (xs[i := x])) + f (xs ! i) = sum_list (map f xs) + f x"
    unfolding u by (subst (4) v) simp
  then show "f x \<le> f (xs ! i) \<Longrightarrow> sum_list (map f (xs[i := x])) \<le> sum_list (map f xs)"
    "f x < f (xs ! i) \<Longrightarrow> sum_list (map f (xs[i := x])) < sum_list (map f xs)" by linarith+
qed

lemma group_atD: "group_at fs gi = Inr g \<Longrightarrow> gi < length (e2_block_groups fs) \<and> e2_block_groups fs ! gi = Some g"
  by (simp add: group_at_def split: if_splits option.splits)

text \<open>Writing blocks changes the file and nothing else.\<close>

lemma fs_write_bytes_file: "\<exists>r f. fs_write_bytes fs b bytes = (r, fs\<lparr>fb_file := f\<rparr>)"
  by (auto simp: fs_write_bytes_def split: prod.splits)

lemma fs_write_block_file: "fs_write_block fs b bytes = Inr (r, fs') \<Longrightarrow> \<exists>f. fs' = fs\<lparr>fb_file := f\<rparr>"
  using fs_write_bytes_file[of fs b "take (fb_block_size fs) bytes"]
  by (auto simp: fs_write_block_def memcpy_from_def split: if_splits)

lemma write_superblock_file: "write_superblock fs = Inr fs' \<Longrightarrow> \<exists>f. fs' = fs\<lparr>fb_file := f\<rparr>"
  by (auto simp: write_superblock_def write_logical_block_def write_logical_blocks_def bindR_eq_Inr_iff case_prod_unfold Let_def)

lemma write_block_group_raw_file: "write_block_group_raw fs n d = Inr (r, fs') \<Longrightarrow> \<exists>f. fs' = fs\<lparr>fb_file := f\<rparr>"
proof -
  assume w: "write_block_group_raw fs n d = Inr (r, fs')"
  from w obtain off where off: "divR (mul32 n 32) (fb_block_size fs) = Inr off"
    unfolding write_block_group_raw_def by (elim bindR_InrE)
  from w off obtain res buf where "fs_read_block fs (add32 2 off) (stack_buf fs (fb_block_size fs)) = Inr (res, buf)"
    unfolding write_block_group_raw_def by (auto elim!: bindR_InrE)
  with w off show ?thesis unfolding write_block_group_raw_def
    by (cases res) (auto elim!: bindR_InrE dest!: fs_write_block_file intro: exI[of _ "fb_file fs"])
qed

lemma group_write_file: "group_write fs gi = Inr fs' \<Longrightarrow> \<exists>f. fs' = fs\<lparr>fb_file := f\<rparr>"
  by (auto simp: group_write_def bindR_eq_Inr_iff dest!: write_block_group_raw_file)

lemma total_room_file [simp]: "total_room (fs\<lparr>fb_file := f\<rparr>) = total_room fs"
  by (simp add: total_room_def)

lemma get_block_group_room: "get_block_group fs gi = Inr (bg, fs') \<Longrightarrow> total_room fs' \<le> total_room fs"
  unfolding get_block_group_def total_room_def set_group_def
  by (auto simp: bindR_eq_Inr_iff room_le split: if_splits option.splits intro!: sum_list_update_less(1))

lemma most_spacious_room: "most_spacious fs best bgi left = Inr (best', fs') \<Longrightarrow> total_room fs' \<le> total_room fs"
proof (induction left arbitrary: fs best bgi)
  case (Suc left)
  then obtain bg fs1 where g: "get_block_group fs bgi = Inr (bg, fs1)" by (auto simp: bindR_eq_Inr_iff)
  obtain best1 where "most_spacious fs1 best1 (bgi + 1) left = Inr (best', fs')"
    using Suc.prems g by (auto simp: bindR_eq_Inr_iff split: option.splits)
  from Suc.IH[OF this] get_block_group_room[OF g] show ?case by simp
qed simp

lemma take_block_groups [simp]:
  "e2_block_groups (take_block z gi b g fs) = (e2_block_groups fs)[gi := Some (g\<lparr>bg_free_blocks := bg_free_blocks g - 1\<rparr>)]"
proof -
  obtain r f where "fs_zero_block fs b = (r, fs\<lparr>fb_file := f\<rparr>)"
    using fs_write_bytes_file unfolding fs_zero_block_def by blast
  then show ?thesis by (simp add: take_block_def Let_def set_group_def)
qed

lemma alloc_loop_groups:
  assumes "alloc_loop z num gi bpg bi fs buf ret = Inr (fs', buf', ret')" "group_at fs gi = Inr g"
    "length ret < num" "num - length ret \<le> unat (bg_free_blocks g)"
  shows "\<exists>g'. e2_block_groups fs' = (e2_block_groups fs)[gi := Some g'] \<and> length ret' \<le> num \<and>
           unat (bg_free_blocks g') + length ret' = unat (bg_free_blocks g) + length ret"
  using assms
proof (induction z num gi bpg bi fs buf ret arbitrary: g rule: alloc_loop.induct)
  case (1 z num gi bpg bi fs buf ret)
  have gi: "gi < length (e2_block_groups fs)" "e2_block_groups fs ! gi = Some g" using group_atD[OF "1.prems"(2)] by simp_all
  show ?case
  proof (cases "bi < bpg")
    case True
    then obtain used where u: "get_bitmap_bit buf bi = Inr used"
      using "1.prems"(1) by (subst (asm) alloc_loop.simps) (auto simp: bindR_eq_Inr_iff)
    show ?thesis
    proof (cases used)
      case used: True
      with True u "1.prems"(1) have "alloc_loop z num gi bpg (bi + 1) fs buf ret = Inr (fs', buf', ret')"
        by (subst (asm) alloc_loop.simps) simp
      from "1.IH"(1)[OF True used this "1.prems"(2-4)] show ?thesis .
    next
      case free: False
      let ?b = "add32 bi (first_block fs g)"
      let ?fs = "take_block z gi ?b g fs" and ?g = "g\<lparr>bg_free_blocks := bg_free_blocks g - 1\<rparr>"
      have pos: "0 < unat (bg_free_blocks g)" using "1.prems"(3,4) by linarith
      have dec: "unat (bg_free_blocks ?g) = unat (bg_free_blocks g) - 1"
        using unat_pred[OF pos] by simp
      from True u free "1.prems"(1) obtain buf1 where s: "set_bitmap_bit buf bi True = Inr buf1"
        and r: "(if length (ret @ [?b]) = num then Inr (?fs, buf1, ret @ [?b])
          else alloc_loop z num gi bpg (bi + 1) ?fs buf1 (ret @ [?b])) = Inr (fs', buf', ret')"
        using "1.prems"(2) by (subst (asm) alloc_loop.simps) (auto simp: bindR_eq_Inr_iff Let_def)
      show ?thesis
      proof (cases "length (ret @ [?b]) = num")
        case True
        with r pos dec gi "1.prems"(3) show ?thesis by auto
      next
        case False
        have at: "group_at ?fs gi = Inr ?g" using gi by (simp add: group_at_def)
        have "length (ret @ [?b]) < num" "num - length (ret @ [?b]) \<le> unat (bg_free_blocks ?g)"
          using False "1.prems"(3,4) dec by auto
        with "1.IH"(2)[OF True free refl refl refl _ _ at] False r obtain g' where
          "e2_block_groups fs' = (e2_block_groups ?fs)[gi := Some g']" "length ret' \<le> num"
          "unat (bg_free_blocks g') + length ret' = unat (bg_free_blocks ?g) + length (ret @ [?b])" by auto
        with dec pos show ?thesis by (intro exI[of _ g']) auto
      qed
    qed
  next
    case False
    with "1.prems"(1) have "fs' = fs" "ret' = ret" by (subst (asm) alloc_loop.simps; simp)+
    with gi(2) "1.prems"(3) list_update_id[of "e2_block_groups fs" gi] show ?thesis by (intro exI[of _ g]) auto
  qed
qed

text \<open>What a successful allocation in a group went through.\<close>

lemma allocate_blocks_in_groupD:
  assumes a: "allocate_blocks_in_group fs gi num z = Inr (Inr ret, fs')" and g: "group_at fs gi = Inr g" and num: "0 < num"
  shows "\<exists>buf fs1 buf1 g1 f. num \<le> unat (bg_free_blocks g) \<and>
    alloc_loop z num gi (blocks_per_group fs) 0 fs buf [] = Inr (fs1, buf1, ret) \<and> group_at fs1 gi = Inr g1 \<and>
    fs' = (if length ret \<noteq> num then set_group fs1 gi (g1\<lparr>bg_free_blocks := 0\<rparr>) else fs1)\<lparr>fb_file := f\<rparr>"
proof -
  have enough: "num \<le> unat (bg_free_blocks g)"
    using a g num by (auto simp: allocate_blocks_in_group_def not_less split: if_splits)
  note a = a[unfolded allocate_blocks_in_group_def g bindR_simps]
  from a enough num obtain res buf where
    rd: "fs_read_block fs (unat (bg_block_bitmap_block g)) (stack_buf fs (fb_block_size fs)) = Inr (res, buf)"
    by (auto elim!: bindR_InrE)
  with a enough num have res: "res = Inr ()" by (cases res) auto
  from a rd enough num res obtain fs1 buf1 r where
    l: "alloc_loop z num gi (blocks_per_group fs) 0 fs buf [] = Inr (fs1, buf1, r)" by (auto elim!: bindR_InrE)
  from a rd enough num res l obtain g1 where g1: "group_at fs1 gi = Inr g1" by (auto elim!: bindR_InrE)
  let ?fs2 = "if length r \<noteq> num then set_group fs1 gi (g1\<lparr>bg_free_blocks := 0\<rparr>) else fs1"
  from a rd enough num res l g1 obtain res2 fs3 where
    w: "fs_write_block ?fs2 (unat (bg_block_bitmap_block g)) buf1 = Inr (res2, fs3)" by (auto simp: Let_def elim!: bindR_InrE)
  with a rd enough num res l g1 have "res2 = Inr ()" by (cases res2) (auto simp: Let_def elim!: bindR_InrE)
  with a rd enough num res l g1 w obtain fs4 where
    "write_superblock fs3 = Inr fs4" "group_write fs4 gi = Inr fs'" "r = ret" by (auto simp: Let_def elim!: bindR_InrE)
  with fs_write_block_file[OF w] write_superblock_file group_write_file
  have "\<exists>f. fs' = ?fs2\<lparr>fb_file := f\<rparr>" "r = ret" by fastforce+
  with enough l g1 show ?thesis by blast
qed

lemma allocate_blocks_in_group_room:
  assumes a: "allocate_blocks_in_group fs gi num z = Inr (Inr ret, fs')" and g: "group_at fs gi = Inr g" and num: "0 < num"
  shows "total_room fs' < total_room fs"
proof -
  have gi: "gi < length (e2_block_groups fs)" "e2_block_groups fs ! gi = Some g" using group_atD[OF g] by simp_all
  from allocate_blocks_in_groupD[OF assms] obtain buf fs1 buf1 g1 f where
    enough: "num \<le> unat (bg_free_blocks g)" and
    l: "alloc_loop z num gi (blocks_per_group fs) 0 fs buf [] = Inr (fs1, buf1, ret)" "group_at fs1 gi = Inr g1" and
    w: "fs' = (if length ret \<noteq> num then set_group fs1 gi (g1\<lparr>bg_free_blocks := 0\<rparr>) else fs1)\<lparr>fb_file := f\<rparr>" by blast
  from alloc_loop_groups[OF l(1) g] num enough obtain g' where
    g': "e2_block_groups fs1 = (e2_block_groups fs)[gi := Some g']" "length ret \<le> num"
      "unat (bg_free_blocks g') + length ret = unat (bg_free_blocks g)" by auto
  have "g1 = g'" using group_atD[OF l(2)] g'(1) gi(1) by simp
  define g2 where "g2 = (if length ret \<noteq> num then g1\<lparr>bg_free_blocks := 0\<rparr> else g1)"
  have "e2_block_groups fs' = (e2_block_groups fs)[gi := Some g2]"
    using w g'(1) \<open>g1 = g'\<close> by (auto simp: set_group_def g2_def)
  moreover have "room (Some g2) < room (e2_block_groups fs ! gi)"
    using gi(2) g'(2,3) num enough \<open>g1 = g'\<close> by (auto simp: g2_def room_def)
  ultimately show ?thesis using sum_list_update_less(2)[OF gi(1), of room "Some g2"] by (simp add: total_room_def)
qed

declare bindR_cong [fundef_cong]

function alloc_across :: "bool \<Rightarrow> 'a ext2_scheme \<Rightarrow> nat \<Rightarrow> nat list \<Rightarrow> (nat list ret \<times> 'a ext2_scheme) run" where
  "alloc_across zero_out fs needed ret =
     (if needed = 0 then Inr (Inr ret, fs)
      else
        bindR (most_spacious fs None 0 (e2_num_block_groups fs)) (\<lambda>(best, fs1).
          case best of
            None \<Rightarrow> bindR (ext2_free_blocks fs1 ret) (\<lambda>fs2. Inr (Inl ENOSPC, fs2))
          | Some gi \<Rightarrow>
              bindR (group_at fs1 gi) (\<lambda>g.
                if bg_free_blocks g = 0 then bindR (ext2_free_blocks fs1 ret) (\<lambda>fs2. Inr (Inl ENOSPC, fs2))
                else
                  bindR (allocate_blocks_in_group fs1 gi (min (unat (bg_free_blocks g)) needed) zero_out) (\<lambda>(res, fs2).
                    case res of
                      Inl e \<Rightarrow> bindR (ext2_free_blocks fs2 ret) (\<lambda>fs3. Inr (Inl e, fs3))
                    | Inr blocks \<Rightarrow> alloc_across zero_out fs2 (needed - length blocks) (ret @ blocks)))))"
  by pat_completeness auto
termination
proof (relation "measure (\<lambda>(zero_out, fs, needed, ret). total_room fs)", goal_cases)
  case (2 z fs needed ret x best fs1 gi g y res fs2 blocks)
  then have ms: "most_spacious fs None 0 (e2_num_block_groups fs) = Inr (best, fs1)"
    and al: "allocate_blocks_in_group fs1 gi (min (unat (bg_free_blocks g)) needed) z = Inr (Inr blocks, fs2)" by simp_all
  have "0 < min (unat (bg_free_blocks g)) needed" using 2 by (simp add: unat_gt_0)
  from allocate_blocks_in_group_room[OF al 2(5) this] most_spacious_room[OF ms] show ?case by simp
qed simp

declare alloc_across.simps [simp del]

definition allocate_blocks :: "'a ext2_scheme \<Rightarrow> nat \<Rightarrow> bool \<Rightarrow> (nat list ret \<times> 'a ext2_scheme) run" where
  "allocate_blocks fs num_blocks zero_out =
     (if num_blocks = 0 then Inr (Inl EINVAL, fs)
      else
        bindR (find_target fs num_blocks 0 (e2_num_block_groups fs)) (\<lambda>(target_bg, fs1).
          case target_bg of
            Some gi \<Rightarrow> allocate_blocks_in_group fs1 gi num_blocks zero_out
          | None \<Rightarrow> alloc_across zero_out fs1 num_blocks []))"

definition allocate_block :: "'a ext2_scheme \<Rightarrow> bool \<Rightarrow> (nat \<times> 'a ext2_scheme) run" where
  "allocate_block fs zero_out =
     bindR (allocate_blocks fs 1 zero_out) (\<lambda>(ret_or_err, fs1).
       Inr (case ret_or_err of Inl e \<Rightarrow> 0 | Inr blocks \<Rightarrow> if blocks = [] then 0 else hd blocks, fs1))"

end
