(* ===== verification/FileMeta.thy ===== *)
theory FileMeta
  imports Prelude
begin

text \<open>
  Users and their groups (\<open>kernel/User.cpp\<close>), the metadata of inodes and the permission checks
  (\<open>kernel/filesystem/InodeMetadata.cpp\<close>). Fields of type \<open>size_t\<close> and the identifiers are natural
  numbers; the mode is a machine word.
\<close>

unbundle bit_operations_syntax

section \<open>Users\<close>

record user =
  us_gid :: nat
  us_egid :: nat
  us_uid :: nat
  us_euid :: nat
  us_groups :: "nat list"

definition user_new :: "nat \<Rightarrow> user" where
  "user_new uid = \<lparr>us_gid = uid, us_egid = uid, us_uid = uid, us_euid = uid, us_groups = []\<rparr>"

definition user_root :: user where
  "user_root = user_new 0"

definition in_group :: "user \<Rightarrow> nat \<Rightarrow> bool" where
  "in_group u grp \<longleftrightarrow> grp = us_egid u \<or> grp \<in> set (us_groups u)"

definition can_override_permissions :: "user \<Rightarrow> bool" where
  "can_override_permissions u \<longleftrightarrow> us_euid u = 0"

definition can_setuid :: "user \<Rightarrow> bool" where
  "can_setuid u \<longleftrightarrow> us_euid u = 0"

definition can_setgid :: "user \<Rightarrow> bool" where
  "can_setgid u \<longleftrightarrow> us_euid u = 0"

section \<open>Inode metadata\<close>

record inode_metadata =
  im_uid :: nat
  im_gid :: nat
  im_mode :: u32
  im_size :: nat
  im_inode_id :: nat
  im_dev_major :: u32
  im_dev_minor :: u32

abbreviation MODE_FIFO :: u32 where "MODE_FIFO \<equiv> 0x1000"
abbreviation MODE_CHAR_DEVICE :: u32 where "MODE_CHAR_DEVICE \<equiv> 0x2000"
abbreviation MODE_DIRECTORY :: u32 where "MODE_DIRECTORY \<equiv> 0x4000"
abbreviation MODE_BLOCK_DEVICE :: u32 where "MODE_BLOCK_DEVICE \<equiv> 0x6000"
abbreviation MODE_FILE :: u32 where "MODE_FILE \<equiv> 0x8000"
abbreviation MODE_SYMLINK :: u32 where "MODE_SYMLINK \<equiv> 0xA000"
abbreviation MODE_SOCKET :: u32 where "MODE_SOCKET \<equiv> 0xC000"

definition IS_DIR :: "u32 \<Rightarrow> bool" where
  "IS_DIR mode \<longleftrightarrow> mode AND 0xF000 = MODE_DIRECTORY"

definition is_directory :: "inode_metadata \<Rightarrow> bool" where
  "is_directory m \<longleftrightarrow> im_mode m AND 0xF000 = MODE_DIRECTORY"

definition is_simple_file :: "inode_metadata \<Rightarrow> bool" where
  "is_simple_file m \<longleftrightarrow> im_mode m AND 0xF000 = MODE_FILE"

definition metadata_exists :: "inode_metadata \<Rightarrow> bool" where
  "metadata_exists m \<longleftrightarrow> im_inode_id m \<noteq> 0"

definition is_block_device :: "inode_metadata \<Rightarrow> bool" where
  "is_block_device m \<longleftrightarrow> im_mode m AND 0xF000 = MODE_BLOCK_DEVICE"

definition is_character_device :: "inode_metadata \<Rightarrow> bool" where
  "is_character_device m \<longleftrightarrow> im_mode m AND 0xF000 = MODE_CHAR_DEVICE"

definition is_device :: "inode_metadata \<Rightarrow> bool" where
  "is_device m \<longleftrightarrow> im_mode m AND 0xF000 = MODE_CHAR_DEVICE \<or> im_mode m AND 0xF000 = MODE_BLOCK_DEVICE"

definition is_symlink :: "inode_metadata \<Rightarrow> bool" where
  "is_symlink m \<longleftrightarrow> im_mode m AND 0xF000 = MODE_SYMLINK"

text \<open>The file types exclude each other.\<close>

lemma file_kinds:
  "is_directory m \<Longrightarrow> \<not> is_simple_file m \<and> \<not> is_symlink m \<and> \<not> is_device m"
  "is_simple_file m \<Longrightarrow> \<not> is_symlink m \<and> \<not> is_device m"
  "is_symlink m \<Longrightarrow> \<not> is_device m"
  "is_device m \<longleftrightarrow> is_block_device m \<or> is_character_device m"
  by (auto simp: is_directory_def is_simple_file_def is_symlink_def is_device_def is_block_device_def is_character_device_def)

section \<open>Permissions\<close>

definition can_write :: "inode_metadata \<Rightarrow> user \<Rightarrow> bool" where
  "can_write m u \<longleftrightarrow> can_override_permissions u \<or> im_mode m AND 0x02 \<noteq> 0 \<or>
     (im_mode m AND 0x80 \<noteq> 0 \<and> us_euid u = im_uid m) \<or> (im_mode m AND 0x10 \<noteq> 0 \<and> in_group u (im_gid m))"

definition can_execute :: "inode_metadata \<Rightarrow> user \<Rightarrow> bool" where
  "can_execute m u \<longleftrightarrow> can_override_permissions u \<or> im_mode m AND 0x01 \<noteq> 0 \<or>
     (im_mode m AND 0x40 \<noteq> 0 \<and> us_euid u = im_uid m) \<or> (im_mode m AND 0x08 \<noteq> 0 \<and> in_group u (im_gid m))"

definition can_read :: "inode_metadata \<Rightarrow> user \<Rightarrow> bool" where
  "can_read m u \<longleftrightarrow> can_override_permissions u \<or> im_mode m AND 0x04 \<noteq> 0 \<or>
     (im_mode m AND 0x100 \<noteq> 0 \<and> us_euid u = im_uid m) \<or> (im_mode m AND 0x20 \<noteq> 0 \<and> in_group u (im_gid m))"

section \<open>The result of stat\<close>

text \<open>The fields of \<open>struct stat\<close> that are filled in; \<open>dev_t\<close> has 16 bits.\<close>

record kstat =
  st_dev :: u16
  st_ino :: nat
  st_mode :: u32
  st_uid :: u16
  st_gid :: u16
  st_size :: u32

definition metadata_stat :: "inode_metadata \<Rightarrow> kstat \<Rightarrow> kstat" where
  "metadata_stat m st = st\<lparr>st_mode := im_mode m, st_size := of_nat (im_size m), st_ino := im_inode_id m,
     st_dev := push_bit 8 (ucast (im_dev_major m)) + ucast (im_dev_minor m),
     st_uid := of_nat (im_uid m), st_gid := of_nat (im_gid m)\<rparr>"

end
