(* ===== verification/Ext2Inode.thy ===== *)
theory Ext2Inode
  imports Ext2Alloc FileMeta
begin

text \<open>
  Inodes of the ext2 file system (\<open>kernel/filesystem/ext2/Ext2Inode.cpp\<close>): reading and writing file
  contents, resizing, and the tree of block pointers. An operation takes the file system and the inode
  object and returns both; the locks of the source serialise the operations. The buffer behind a
  \<open>SafePointer\<close> is a list of bytes. Results of block reads that the source ignores leave the buffer as
  it was, and blocks are buffered in uninitialised stack memory.
\<close>

section \<open>The inode object\<close>

record ext2_inode =
  in_id :: nat
  in_metadata :: inode_metadata
  in_exists :: bool
  in_block_pointers :: "u32 list"
  in_pointer_blocks :: "u32 list"
  in_raw :: raw_inode
  in_dirty :: bool

definition in_block_group :: "'a ext2_scheme \<Rightarrow> ext2_inode \<Rightarrow> nat run" where
  "in_block_group fs ino = divR (sub32 (in_id ino) 1) (inodes_per_group fs)"

definition in_index :: "'a ext2_scheme \<Rightarrow> ext2_inode \<Rightarrow> nat run" where
  "in_index fs ino = modR (sub32 (in_id ino) 1) (inodes_per_group fs)"

definition in_block :: "'a ext2_scheme \<Rightarrow> ext2_inode \<Rightarrow> nat run" where
  "in_block fs ino =
     bindR (in_index fs ino) (\<lambda>i. divR (mul32 i (unat (sb_inode_size (e2_superblock fs)))) (fb_block_size fs))"

text \<open>A symbolic link of less than 60 bytes is stored in the inode.\<close>

definition is_inline :: "ext2_inode \<Rightarrow> bool" where
  "is_inline ino \<longleftrightarrow> is_symlink (in_metadata ino) \<and> im_size (in_metadata ino) < 60"

definition blocks_for :: "'a ext2_scheme \<Rightarrow> nat \<Rightarrow> nat run" where
  "blocks_for fs sz = divR (sub32 (add32 sz (fb_block_size fs)) 1) (fb_block_size fs)"

definition num_blocks :: "'a ext2_scheme \<Rightarrow> ext2_inode \<Rightarrow> nat run" where
  "num_blocks fs ino = (if is_inline ino then Inr 0 else blocks_for fs (im_size (in_metadata ino)))"

definition get_block_pointer :: "ext2_inode \<Rightarrow> nat \<Rightarrow> nat" where
  "get_block_pointer ino block_index =
     (if block_index \<ge> length (in_block_pointers ino) then 0 else unat (in_block_pointers ino ! block_index))"

definition set_block_pointer :: "ext2_inode \<Rightarrow> nat \<Rightarrow> u32 \<Rightarrow> bool \<times> ext2_inode" where
  "set_block_pointer ino block_index block =
     (let bps = in_block_pointers ino in
      if block_index = 0 \<and> bps = [] then (True, ino\<lparr>in_block_pointers := bps @ [block], in_dirty := True\<rparr>)
      else if block_index < length bps then (True, ino\<lparr>in_block_pointers := bps[block_index := block], in_dirty := True\<rparr>)
      else if block_index = length bps then (True, ino\<lparr>in_block_pointers := bps @ [block], in_dirty := True\<rparr>)
      else (False, ino))"

definition free_all_blocks :: "'a ext2_scheme \<Rightarrow> ext2_inode \<Rightarrow> 'a ext2_scheme run" where
  "free_all_blocks fs ino =
     bindR (ext2_free_blocks fs (map unat (in_block_pointers ino))) (\<lambda>fs1.
       ext2_free_blocks fs1 (map unat (in_pointer_blocks ino)))"

section \<open>Reading\<close>

text \<open>
  The bytes of a short symbolic link: \<open>raw.block_pointers\<close> and the three indirect pointers behind it.
\<close>

definition inline_bytes :: "raw_inode \<Rightarrow> u8 list" where
  "inline_bytes r = le32s (ri_block_pointers r @ [ri_s_pointer r, ri_d_pointer r, ri_t_pointer r])"

definition set_inline_bytes :: "raw_inode \<Rightarrow> u8 list \<Rightarrow> raw_inode" where
  "set_inline_bytes r bs = r\<lparr>ri_block_pointers := get32s bs 0 12, ri_s_pointer := get32 bs 48,
     ri_d_pointer := get32 bs 52, ri_t_pointer := get32 bs 56\<rparr>"

text \<open>
  The loop of \<open>read\<close>. The block size is not zero here: the source has just divided by it. \<open>block_buf\<close> is
  the stack buffer, which keeps its contents when a block cannot be read.
\<close>

function read_loop :: "'a ext2_scheme \<Rightarrow> ext2_inode \<Rightarrow> nat \<Rightarrow> nat \<Rightarrow> nat \<Rightarrow> nat \<Rightarrow> u8 list \<Rightarrow> u8 list \<Rightarrow> (nat \<times> u8 list) run" where
  "read_loop fs ino start len bytes_left block_index block_buf buffer =
     (if fb_block_size fs = 0 then Inl DivByZero
      else if bytes_left = 0 then Inr (bytes_left, buffer)
      else
        let blk = get_block_pointer ino block_index in
        if blk = 0 then Inr (bytes_left, buffer)
        else
          bindR (fs_read_block fs blk block_buf) (\<lambda>(res, block_buf').
            if block_index = start div fb_block_size fs then
              let to_copy = min bytes_left (fb_block_size fs - start mod fb_block_size fs) in
              bindR (memcpy_from block_buf' (start mod fb_block_size fs) to_copy) (\<lambda>bytes.
              bindR (memcpy_to buffer 0 bytes) (\<lambda>buffer'.
                read_loop fs ino start len (bytes_left - to_copy) (block_index + 1) block_buf' buffer'))
            else
              let to_copy = min bytes_left (fb_block_size fs) in
              bindR (memcpy_from block_buf' 0 to_copy) (\<lambda>bytes.
              bindR (memcpy_to buffer (len - bytes_left) bytes) (\<lambda>buffer'.
                read_loop fs ino start len (bytes_left - to_copy) (block_index + 1) block_buf' buffer'))))"
  by pat_completeness auto
termination
  by (relation "measure (\<lambda>(fs, ino, start, len, bytes_left, block_index, block_buf, buffer). bytes_left)")
    (auto simp: min_def)

declare read_loop.simps [simp del]

definition ext2_read :: "'a ext2_scheme \<Rightarrow> ext2_inode \<Rightarrow> nat \<Rightarrow> nat \<Rightarrow> u8 list \<Rightarrow> (nat ret \<times> u8 list) run" where
  "ext2_read fs ino start len buffer =
     (let sz = im_size (in_metadata ino) in
      if is_device (in_metadata ino) then Inr (Inr 0, buffer)
      else if sz = 0 then Inr (Inr 0, buffer)
      else if start \<ge> sz then Inr (Inr 0, buffer)
      else if len = 0 then Inr (Inr 0, buffer)
      else if \<not> in_exists ino then Inr (Inl ENOENT, buffer)
      else if is_inline ino then
        let actual_length = min (sz - start) len in
        bindR (memcpy_from (inline_bytes (in_raw ino)) start actual_length) (\<lambda>bytes.
        bindR (memcpy_to buffer 0 bytes) (\<lambda>buffer'. Inr (Inr actual_length, buffer')))
      else
        let len1 = if add32 start len > sz then sz - start else len in
        bindR (divR start (fb_block_size fs)) (\<lambda>first_block.
        bindR (read_loop fs ino start len1 len1 first_block (stack_buf fs (fb_block_size fs)) buffer) (\<lambda>(bytes_left, buffer').
          Inr (Inr (len1 - bytes_left), buffer'))))"

section \<open>The inode table\<close>

text \<open>
  The position of an inode in the table: the block, and the offset that \<open>inodeRaw += index() % inodes_per_block\<close>
  gives. The group object is loaded on the way; a missing group is a null pointer.
\<close>

definition table_slot :: "'a ext2_scheme \<Rightarrow> ext2_inode \<Rightarrow> ((nat \<times> nat) \<times> 'a ext2_scheme) run" where
  "table_slot fs ino =
     bindR (in_block_group fs ino) (\<lambda>bgi.
     bindR (get_block_group fs bgi) (\<lambda>(bg, fs1).
       case bg of
         None \<Rightarrow> Inl NullDeref
       | Some gi \<Rightarrow>
           bindR (group_at fs1 gi) (\<lambda>g.
           bindR (in_block fs1 ino) (\<lambda>b.
           bindR (in_index fs1 ino) (\<lambda>i.
           bindR (modR i (e2_inodes_per_block fs1)) (\<lambda>k.
             Inr ((add32 (unat (bg_inode_table_block g)) b, k * 128), fs1)))))))"

definition write_inode_entry :: "'a ext2_scheme \<Rightarrow> ext2_inode \<Rightarrow> ('a ext2_scheme \<times> ext2_inode) run" where
  "write_inode_entry fs ino =
     (let m = in_metadata ino;
          raw = (in_raw ino)\<lparr>ri_size := of_nat (im_size m), ri_mode := ucast (im_mode m),
            ri_uid := of_nat (im_uid m), ri_gid := of_nat (im_gid m)\<rparr>;
          ino1 = ino\<lparr>in_raw := raw\<rparr> in
      bindR (table_slot fs ino1) (\<lambda>((b, off), fs1).
      bindR (fs_read_block fs1 b (stack_buf fs1 (fb_block_size fs1))) (\<lambda>(res, block_buf).
      bindR (memcpy_to block_buf off (raw_inode_bytes raw)) (\<lambda>block_buf'.
      bindR (fs_write_block fs1 b block_buf') (\<lambda>(res, fs2).
        Inr (fs2, ino1\<lparr>in_dirty := False\<rparr>))))))"

text \<open>The metadata before \<open>create_metadata\<close> sets it; the device numbers have no initial value.\<close>

definition initial_metadata :: "'a ext2_scheme \<Rightarrow> inode_metadata" where
  "initial_metadata fs = \<lparr>im_uid = 0, im_gid = 0, im_mode = 0, im_size = 0, im_inode_id = unat (get32 (stack_buf fs 12) 8),
     im_dev_major = get32 (stack_buf fs 12) 0, im_dev_minor = get32 (stack_buf fs 12) 4\<rparr>"

definition create_metadata :: "'a ext2_scheme \<Rightarrow> ext2_inode \<Rightarrow> ext2_inode" where
  "create_metadata fs ino =
     (let r = in_raw ino;
          meta = (initial_metadata fs)\<lparr>im_uid := unat (ri_uid r), im_gid := unat (ri_gid r), im_mode := ucast (ri_mode r),
            im_size := unat (ri_size r), im_inode_id := in_id ino\<rparr> in
      if is_device meta then
        let device = if ri_block_pointers r ! 0 \<noteq> 0 then ri_block_pointers r ! 0 else ri_block_pointers r ! 1 in
        ino\<lparr>in_metadata := meta\<lparr>im_dev_major := drop_bit 8 (device AND 0xFFF00),
          im_dev_minor := device AND 0xFF OR (drop_bit 12 device AND 0xFFF00)\<rparr>\<rparr>
      else ino\<lparr>in_metadata := meta\<rparr>)"

section \<open>Loading the block pointers\<close>

definition read32 :: "u8 list \<Rightarrow> nat \<Rightarrow> u32 run" where
  "read32 buf i = bindR (memcpy_from buf (4 * i) 4) (\<lambda>bs. Inr (get32 bs 0))"

definition put32 :: "u8 list \<Rightarrow> nat \<Rightarrow> u32 \<Rightarrow> u8 list run" where
  "put32 buf i w = memcpy_to buf (4 * i) (le32 w)"

text \<open>
  The three levels of indirection. \<open>nb\<close> is \<open>num_blocks()\<close>; the state is the inode and \<open>block_index\<close>, the
  last argument of each loop is the number of entries that are left in the pointer block.
\<close>

fun singly_loop :: "nat \<Rightarrow> u8 list \<Rightarrow> nat \<Rightarrow> ext2_inode \<times> nat \<Rightarrow> nat \<Rightarrow> (ext2_inode \<times> nat) run" where
  "singly_loop nb buf i (ino, block_index) 0 = Inr (ino, block_index)"
| "singly_loop nb buf i (ino, block_index) (Suc left) =
     (if block_index < nb then
        bindR (read32 buf i) (\<lambda>w.
          singly_loop nb buf (i + 1) (ino\<lparr>in_block_pointers := in_block_pointers ino @ [w]\<rparr>, block_index + 1) left)
      else Inr (ino, block_index))"

definition read_singly_indirect :: "'a ext2_scheme \<Rightarrow> nat \<Rightarrow> u32 \<Rightarrow> ext2_inode \<times> nat \<Rightarrow> (ext2_inode \<times> nat) run" where
  "read_singly_indirect fs nb ptr st =
     (if ptr = 0 \<or> snd st \<ge> nb then Inr st
      else
        bindR (fs_read_block fs (unat ptr) (stack_buf fs (fb_block_size fs))) (\<lambda>(res, buf).
          singly_loop nb buf 0 ((fst st)\<lparr>in_pointer_blocks := in_pointer_blocks (fst st) @ [ptr]\<rparr>, snd st)
            (e2_block_pointers_per_block fs)))"

fun doubly_loop :: "'a ext2_scheme \<Rightarrow> nat \<Rightarrow> u8 list \<Rightarrow> nat \<Rightarrow> ext2_inode \<times> nat \<Rightarrow> nat \<Rightarrow> (ext2_inode \<times> nat) run" where
  "doubly_loop fs nb buf i st 0 = Inr st"
| "doubly_loop fs nb buf i st (Suc left) =
     (if snd st < nb then
        bindR (read32 buf i) (\<lambda>w. bindR (read_singly_indirect fs nb w st) (\<lambda>st'. doubly_loop fs nb buf (i + 1) st' left))
      else Inr st)"

definition read_doubly_indirect :: "'a ext2_scheme \<Rightarrow> nat \<Rightarrow> u32 \<Rightarrow> ext2_inode \<times> nat \<Rightarrow> (ext2_inode \<times> nat) run" where
  "read_doubly_indirect fs nb ptr st =
     (if ptr = 0 \<or> snd st \<ge> nb then Inr st
      else
        bindR (fs_read_block fs (unat ptr) (stack_buf fs (fb_block_size fs))) (\<lambda>(res, buf).
          doubly_loop fs nb buf 0 ((fst st)\<lparr>in_pointer_blocks := in_pointer_blocks (fst st) @ [ptr]\<rparr>, snd st)
            (e2_block_pointers_per_block fs)))"

fun triply_loop :: "'a ext2_scheme \<Rightarrow> nat \<Rightarrow> u8 list \<Rightarrow> nat \<Rightarrow> ext2_inode \<times> nat \<Rightarrow> nat \<Rightarrow> (ext2_inode \<times> nat) run" where
  "triply_loop fs nb buf i st 0 = Inr st"
| "triply_loop fs nb buf i st (Suc left) =
     (if snd st < nb then
        bindR (read32 buf i) (\<lambda>w. bindR (read_doubly_indirect fs nb w st) (\<lambda>st'. triply_loop fs nb buf (i + 1) st' left))
      else Inr st)"

definition read_triply_indirect :: "'a ext2_scheme \<Rightarrow> nat \<Rightarrow> u32 \<Rightarrow> ext2_inode \<times> nat \<Rightarrow> (ext2_inode \<times> nat) run" where
  "read_triply_indirect fs nb ptr st =
     (if ptr = 0 \<or> snd st \<ge> nb then Inr st
      else
        bindR (fs_read_block fs (unat ptr) (stack_buf fs (fb_block_size fs))) (\<lambda>(res, buf).
          triply_loop fs nb buf 0 ((fst st)\<lparr>in_pointer_blocks := in_pointer_blocks (fst st) @ [ptr]\<rparr>, snd st)
            (e2_block_pointers_per_block fs)))"

text \<open>The tests \<open>if(raw.s_pointer)\<close> of the caller are the first test of the callee.\<close>

definition read_block_pointers :: "'a ext2_scheme \<Rightarrow> ext2_inode \<Rightarrow> ext2_inode run" where
  "read_block_pointers fs ino =
     (if is_inline ino then Inr (ino\<lparr>in_pointer_blocks := [], in_block_pointers := []\<rparr>)
      else
        bindR (num_blocks fs ino) (\<lambda>nb.
        let direct = take (min 12 nb) (ri_block_pointers (in_raw ino));
            st = (ino\<lparr>in_block_pointers := direct, in_pointer_blocks := []\<rparr>, min 12 nb) in
        bindR (read_singly_indirect fs nb (ri_s_pointer (in_raw ino)) st) (\<lambda>st1.
        bindR (read_doubly_indirect fs nb (ri_d_pointer (in_raw ino)) st1) (\<lambda>st2.
        bindR (read_triply_indirect fs nb (ri_t_pointer (in_raw ino)) st2) (\<lambda>st3.
          Inr (fst st3))))))"

text \<open>The constructor that loads an inode from the table.\<close>

definition inode_load :: "'a ext2_scheme \<Rightarrow> nat \<Rightarrow> (ext2_inode \<times> 'a ext2_scheme) run" where
  "inode_load fs ino_id =
     (let ino = \<lparr>in_id = ino_id, in_metadata = initial_metadata fs, in_exists = True, in_block_pointers = [],
            in_pointer_blocks = [], in_raw = raw_inode_zero, in_dirty = False\<rparr> in
      bindR (table_slot fs ino) (\<lambda>((b, off), fs1).
      bindR (fs_read_blocks fs1 b 1 (stack_buf fs1 (fb_block_size fs1))) (\<lambda>(res, block_buf).
      bindR (memcpy_from block_buf off 128) (\<lambda>bytes.
        let ino1 = create_metadata fs1 (ino\<lparr>in_raw := raw_inode_of bytes\<rparr>) in
        if is_device (in_metadata ino1) then Inr (ino1, fs1)
        else bindR (read_block_pointers fs1 ino1) (\<lambda>ino2. Inr (ino2, fs1))))))"

section \<open>Storing the block pointers\<close>

definition calculate_num_ptr_blocks :: "'a ext2_scheme \<Rightarrow> nat \<Rightarrow> nat run" where
  "calculate_num_ptr_blocks fs num_data_blocks =
     (if num_data_blocks \<le> 12 then Inr 0
      else
        let n = e2_block_pointers_per_block fs; nn = mul32 n n;
            blocks_left = num_data_blocks - 12; s_data = min blocks_left n; blocks_left = blocks_left - s_data in
        if blocks_left = 0 then Inr 1
        else
          let d_data = min blocks_left nn; blocks_left = blocks_left - d_data in
          bindR (divR (sub32 (add32 d_data n) 1) n) (\<lambda>d_blocks.
            if blocks_left = 0 then Inr (add32 2 d_blocks)
            else
              bindR (divR (sub32 (add32 blocks_left nn) 1) nn) (\<lambda>t_d_blocks.
              bindR (divR (sub32 (add32 blocks_left n) 1) n) (\<lambda>t_s_blocks.
                Inr (add32 (add32 2 d_blocks) (add32 (add32 1 t_d_blocks) t_s_blocks))))))"

text \<open>The pointer at an index, zero past the end, and the block that lists the pointers from an index on.\<close>

definition bp_or_zero :: "u32 list \<Rightarrow> nat \<Rightarrow> u32" where
  "bp_or_zero bps i = (if i < length bps then bps ! i else 0)"

definition pointer_image :: "'a ext2_scheme \<Rightarrow> u32 list \<Rightarrow> nat \<Rightarrow> u8 list run" where
  "pointer_image fs bps cur =
     memcpy_to (replicate (fb_block_size fs) 0) 0 (le32s (map (\<lambda>i. bp_or_zero bps (cur + i)) [0..<e2_block_pointers_per_block fs]))"

text \<open>An existing pointer block or a new one, zero if none can be allocated.\<close>

definition ensure_block :: "'a ext2_scheme \<Rightarrow> u32 \<Rightarrow> (u32 \<times> 'a ext2_scheme) run" where
  "ensure_block fs p =
     (if p \<noteq> 0 then Inr (p, fs) else bindR (allocate_block fs True) (\<lambda>(b, fs1). Inr (of_nat b, fs1)))"

text \<open>
  The loop over a doubly-indirect block: \<open>block_buf\<close> is the block, \<open>di\<close> the entry, \<open>cur\<close> the index of the
  next data block. It returns ENOSPC as soon as a block is missing.
\<close>

fun store_doubly :: "u32 list \<Rightarrow> nat \<Rightarrow> nat \<Rightarrow> 'a ext2_scheme \<Rightarrow> u8 list \<Rightarrow> nat \<Rightarrow> u32 list \<Rightarrow>
    ((u8 list \<times> nat) ret \<times> u32 list \<times> 'a ext2_scheme) run" where
  "store_doubly bps di 0 fs block_buf cur pbs = Inr (Inr (block_buf, cur), pbs, fs)"
| "store_doubly bps di (Suc left) fs block_buf cur pbs =
     (if cur \<ge> length bps then Inr (Inr (block_buf, cur), pbs, fs)
      else
        bindR (read32 block_buf di) (\<lambda>old.
        bindR (ensure_block fs old) (\<lambda>(sblk, fs1).
          if sblk = 0 then Inr (Inl ENOSPC, pbs, fs1)
          else
            bindR (put32 block_buf di sblk) (\<lambda>block_buf'.
            bindR (pointer_image fs1 bps cur) (\<lambda>sblock_buf.
            bindR (fs_write_block fs1 (unat sblk) sblock_buf) (\<lambda>(res, fs2).
              store_doubly bps (di + 1) left fs2 block_buf' (cur + e2_block_pointers_per_block fs) (pbs @ [sblk])))))))"

fun store_triply :: "u32 list \<Rightarrow> nat \<Rightarrow> nat \<Rightarrow> 'a ext2_scheme \<Rightarrow> u8 list \<Rightarrow> u8 list \<Rightarrow> nat \<Rightarrow> u32 list \<Rightarrow>
    (u8 list ret \<times> u32 list \<times> 'a ext2_scheme) run" where
  "store_triply bps ti 0 fs tblock_buf dblock_buf cur pbs = Inr (Inr tblock_buf, pbs, fs)"
| "store_triply bps ti (Suc left) fs tblock_buf dblock_buf cur pbs =
     (if cur \<ge> length bps then Inr (Inr tblock_buf, pbs, fs)
      else
        bindR (read32 tblock_buf ti) (\<lambda>old.
        bindR (ensure_block fs old) (\<lambda>(dblk, fs1).
          if dblk = 0 then Inr (Inl ENOSPC, pbs, fs1)
          else
            bindR (put32 tblock_buf ti dblk) (\<lambda>tblock_buf'.
            bindR (fs_read_block fs1 (unat dblk) dblock_buf) (\<lambda>(res, dbuf).
            bindR (store_doubly bps 0 (e2_block_pointers_per_block fs) fs1 dbuf cur (pbs @ [dblk])) (\<lambda>(r, pbs', fs2).
              case r of
                Inl e \<Rightarrow> Inr (Inl e, pbs', fs2)
              | Inr (dbuf', cur') \<Rightarrow>
                  bindR (fs_write_block fs2 (unat dblk) dbuf') (\<lambda>(res, fs3).
                    store_triply bps (ti + 1) left fs3 tblock_buf' dbuf' cur' pbs')))))))"

text \<open>The three parts of \<open>write_block_pointers\<close>; the first one hands its buffer to the second.\<close>

definition write_singly :: "'a ext2_scheme \<Rightarrow> ext2_inode \<Rightarrow> nat \<Rightarrow> (u8 list ret \<times> 'a ext2_scheme \<times> ext2_inode) run" where
  "write_singly fs ino nb =
     (if nb > 12 then
        bindR (ensure_block fs (ri_s_pointer (in_raw ino))) (\<lambda>(s, fs1).
          let ino1 = ino\<lparr>in_raw := (in_raw ino)\<lparr>ri_s_pointer := s\<rparr>\<rparr> in
          if s = 0 then Inr (Inl ENOSPC, fs1, ino1)
          else
            bindR (pointer_image fs1 (in_block_pointers ino) 12) (\<lambda>block_buf.
            bindR (fs_write_block fs1 (unat s) block_buf) (\<lambda>(res, fs2).
              Inr (Inr block_buf, fs2, ino1\<lparr>in_pointer_blocks := in_pointer_blocks ino @ [s]\<rparr>))))
      else Inr (Inr (stack_buf fs (fb_block_size fs)), fs, ino\<lparr>in_raw := (in_raw ino)\<lparr>ri_s_pointer := 0\<rparr>\<rparr>))"

definition write_doubly :: "'a ext2_scheme \<Rightarrow> ext2_inode \<Rightarrow> nat \<Rightarrow> nat \<Rightarrow> u8 list \<Rightarrow> (unit ret \<times> 'a ext2_scheme \<times> ext2_inode) run" where
  "write_doubly fs ino nb dind_start block_buf =
     (if nb > dind_start then
        bindR (ensure_block fs (ri_d_pointer (in_raw ino))) (\<lambda>(d, fs1).
          let ino1 = ino\<lparr>in_raw := (in_raw ino)\<lparr>ri_d_pointer := d\<rparr>\<rparr> in
          if d = 0 then Inr (Inl ENOSPC, fs1, ino1)
          else
            bindR (fs_read_block fs1 (unat d) block_buf) (\<lambda>(res, buf).
            bindR (store_doubly (in_block_pointers ino) 0 (e2_block_pointers_per_block fs) fs1 buf dind_start
                (in_pointer_blocks ino @ [d])) (\<lambda>(r, pbs, fs2).
              case r of
                Inl e \<Rightarrow> Inr (Inl e, fs2, ino1\<lparr>in_pointer_blocks := pbs\<rparr>)
              | Inr (buf', cur) \<Rightarrow>
                  bindR (fs_write_block fs2 (unat d) buf') (\<lambda>(res, fs3).
                    Inr (Inr (), fs3, ino1\<lparr>in_pointer_blocks := pbs\<rparr>)))))
      else Inr (Inr (), fs, ino\<lparr>in_raw := (in_raw ino)\<lparr>ri_d_pointer := 0\<rparr>\<rparr>))"

definition write_triply :: "'a ext2_scheme \<Rightarrow> ext2_inode \<Rightarrow> nat \<Rightarrow> nat \<Rightarrow> (unit ret \<times> 'a ext2_scheme \<times> ext2_inode) run" where
  "write_triply fs ino nb tind_start =
     (if nb > tind_start then
        bindR (ensure_block fs (ri_t_pointer (in_raw ino))) (\<lambda>(t, fs1).
          let ino1 = ino\<lparr>in_raw := (in_raw ino)\<lparr>ri_t_pointer := t\<rparr>\<rparr> in
          if t = 0 then Inr (Inl ENOSPC, fs1, ino1)
          else
            bindR (fs_read_block fs1 (unat t) (stack_buf fs1 (fb_block_size fs1))) (\<lambda>(res, buf).
            bindR (store_triply (in_block_pointers ino) 0 (e2_block_pointers_per_block fs) fs1 buf
                (stack_buf fs1 (fb_block_size fs1)) tind_start (in_pointer_blocks ino @ [t])) (\<lambda>(r, pbs, fs2).
              case r of
                Inl e \<Rightarrow> Inr (Inl e, fs2, ino1\<lparr>in_pointer_blocks := pbs\<rparr>)
              | Inr buf' \<Rightarrow>
                  bindR (fs_write_block fs2 (unat t) buf') (\<lambda>(res, fs3).
                    Inr (Inr (), fs3, ino1\<lparr>in_pointer_blocks := pbs\<rparr>)))))
      else Inr (Inr (), fs, ino\<lparr>in_raw := (in_raw ino)\<lparr>ri_t_pointer := 0\<rparr>\<rparr>))"

definition write_block_pointers :: "'a ext2_scheme \<Rightarrow> ext2_inode \<Rightarrow> (unit ret \<times> 'a ext2_scheme \<times> ext2_inode) run" where
  "write_block_pointers fs ino =
     (if is_inline ino then Inr (Inr (), fs, ino)
      else
        bindR (num_blocks fs ino) (\<lambda>nb.
        bindR (calculate_num_ptr_blocks fs nb) (\<lambda>_.
          let n = e2_block_pointers_per_block fs; ino0 = ino\<lparr>in_pointer_blocks := []\<rparr> in
          if is_device (in_metadata ino) then Inr (Inr (), fs, ino0)
          else
            let ino1 = ino0\<lparr>in_raw := (in_raw ino)\<lparr>ri_block_pointers := map (bp_or_zero (in_block_pointers ino)) [0..<12]\<rparr>\<rparr> in
            bindR (write_singly fs ino1 nb) (\<lambda>(r, fs1, ino2).
              case r of Inl e \<Rightarrow> Inr (Inl e, fs1, ino2) | Inr block_buf \<Rightarrow>
            bindR (write_doubly fs1 ino2 nb (add32 12 n) block_buf) (\<lambda>(r, fs2, ino3).
              case r of Inl e \<Rightarrow> Inr (Inl e, fs2, ino3) | Inr _ \<Rightarrow>
            bindR (write_triply fs2 ino3 nb (add32 (add32 12 n) (mul32 n n))) (\<lambda>(r, fs3, ino4).
              case r of Inl e \<Rightarrow> Inr (Inl e, fs3, ino4) | Inr _ \<Rightarrow>
              Inr (Inr (), fs3, ino4\<lparr>in_dirty := True, in_raw := (in_raw ino4)\<lparr>ri_logical_blocks :=
                of_nat ((length (in_block_pointers ino4) + length (in_pointer_blocks ino4)) * (fb_block_size fs div 512))\<rparr>\<rparr>)))))))"

definition write_to_disk :: "'a ext2_scheme \<Rightarrow> ext2_inode \<Rightarrow> (unit ret \<times> 'a ext2_scheme \<times> ext2_inode) run" where
  "write_to_disk fs ino =
     bindR (write_block_pointers fs ino) (\<lambda>(r, fs1, ino1).
       case r of
         Inl e \<Rightarrow> Inr (Inl e, fs1, ino1)
       | Inr _ \<Rightarrow> bindR (write_inode_entry fs1 ino1) (\<lambda>(fs2, ino2). Inr (Inr (), fs2, ino2)))"

section \<open>Resizing and writing\<close>

definition resize :: "nat \<Rightarrow> u32 list \<Rightarrow> u32 list" where
  "resize n ws = take n ws @ replicate (n - length ws) 0"

definition set_size :: "ext2_inode \<Rightarrow> nat \<Rightarrow> ext2_inode" where
  "set_size ino n = ino\<lparr>in_metadata := (in_metadata ino)\<lparr>im_size := n\<rparr>\<rparr>"

text \<open>Growing: the new blocks are cleared; the result of \<open>write_to_disk\<close> is ignored.\<close>

definition truncate_grow :: "'a ext2_scheme \<Rightarrow> ext2_inode \<Rightarrow> nat \<Rightarrow> nat \<Rightarrow> (unit ret \<times> 'a ext2_scheme \<times> ext2_inode) run" where
  "truncate_grow fs ino len needed =
     bindR (allocate_blocks fs needed True) (\<lambda>(r, fs1).
       case r of
         Inl e \<Rightarrow> Inr (Inl e, fs1, ino)
       | Inr new_blocks \<Rightarrow>
           if length new_blocks \<noteq> needed then bindR (ext2_free_blocks fs1 new_blocks) (\<lambda>fs2. Inr (Inl ENOSPC, fs2, ino))
           else
             bindR (write_to_disk fs1 (set_size (ino\<lparr>in_block_pointers := in_block_pointers ino @ map of_nat new_blocks\<rparr>) len))
               (\<lambda>(r, fs2, ino1). Inr (Inr (), fs2, ino1)))"

definition truncate_shrink :: "'a ext2_scheme \<Rightarrow> ext2_inode \<Rightarrow> nat \<Rightarrow> nat \<Rightarrow> nat \<Rightarrow> (unit ret \<times> 'a ext2_scheme \<times> ext2_inode) run" where
  "truncate_shrink fs ino len nb new_nb =
     bindR (ext2_free_blocks fs (map (\<lambda>i. get_block_pointer ino i) (rev [new_nb..<nb]))) (\<lambda>fs1.
     let ino1 = ino\<lparr>in_block_pointers := resize new_nb (in_block_pointers ino)\<rparr> in
     bindR (calculate_num_ptr_blocks fs1 new_nb) (\<lambda>new_ptr.
     bindR (ext2_free_blocks fs1 (map unat (rev (drop new_ptr (in_pointer_blocks ino1))))) (\<lambda>fs2.
     let ino2 = ino1\<lparr>in_pointer_blocks := resize new_ptr (in_pointer_blocks ino1)\<rparr> in
     bindR (modR len (fb_block_size fs2)) (\<lambda>tail.
     bindR (if tail \<noteq> 0 \<and> new_nb > 0 then fs_truncate_block fs2 (get_block_pointer ino2 (new_nb - 1)) tail
            else Inr (Inr (), fs2)) (\<lambda>(res, fs3).
     bindR (write_to_disk fs3 (set_size ino2 len)) (\<lambda>(r, fs4, ino3). Inr (Inr (), fs4, ino3)))))))"

definition ext2_truncate :: "'a ext2_scheme \<Rightarrow> ext2_inode \<Rightarrow> int \<Rightarrow> (unit ret \<times> 'a ext2_scheme \<times> ext2_inode) run" where
  "ext2_truncate fs ino len =
     (if len < 0 then Inr (Inl EINVAL, fs, ino)
      else if nat len = im_size (in_metadata ino) then Inr (Inr (), fs, ino)
      else
        bindR (blocks_for fs (nat len)) (\<lambda>new_nb.
        bindR (num_blocks fs ino) (\<lambda>nb.
          if new_nb > nb then truncate_grow fs ino (nat len) (new_nb - nb)
          else if new_nb < nb then truncate_shrink fs ino (nat len) nb new_nb
          else bindR (write_inode_entry fs (set_size ino (nat len))) (\<lambda>(fs1, ino1). Inr (Inr (), fs1, ino1)))))"

function write_loop :: "ext2_inode \<Rightarrow> nat \<Rightarrow> u8 list \<Rightarrow> nat \<Rightarrow> nat \<Rightarrow> u8 list \<Rightarrow> 'a ext2_scheme \<Rightarrow> (unit ret \<times> 'a ext2_scheme) run" where
  "write_loop ino start data bytes_left block_index block_buf fs =
     (if fb_block_size fs = 0 then Inl DivByZero
      else if bytes_left = 0 then Inr (Inr (), fs)
      else
        let blk = get_block_pointer ino block_index in
        if blk = 0 then Inr (Inl ENOSPC, fs)
        else
          bindR (fs_read_block fs blk block_buf) (\<lambda>(res, block_buf').
            if block_index = start div fb_block_size fs then
              let to_copy = min bytes_left (fb_block_size fs - start mod fb_block_size fs) in
              bindR (memcpy_from data 0 to_copy) (\<lambda>bytes.
              bindR (memcpy_to block_buf' (start mod fb_block_size fs) bytes) (\<lambda>buf.
              bindR (fs_write_block fs blk buf) (\<lambda>(res, fs1).
                write_loop ino start data (bytes_left - to_copy) (block_index + 1) buf fs1)))
            else
              let to_copy = min bytes_left (fb_block_size fs) in
              bindR (memcpy_from data (length data - bytes_left) to_copy) (\<lambda>bytes.
              bindR (memcpy_to block_buf' 0 bytes) (\<lambda>buf.
              bindR (fs_write_block fs blk buf) (\<lambda>(res, fs1).
                write_loop ino start data (bytes_left - to_copy) (block_index + 1) buf fs1)))))"
  by pat_completeness auto
termination
  by (relation "measure (\<lambda>(ino, start, data, bytes_left, block_index, block_buf, fs). bytes_left)")
    (auto simp: min_def)

declare write_loop.simps [simp del]

text \<open>
  \<open>off_t\<close> and \<open>size_t\<close> have 32 bits, so the sum that is passed to \<open>truncate\<close> is the signed value of the
  wrapped sum.
\<close>

definition signed32 :: "nat \<Rightarrow> int" where
  "signed32 n = (if n < 2 ^ 31 then int n else int n - 2 ^ 32)"

definition ext2_write :: "'a ext2_scheme \<Rightarrow> ext2_inode \<Rightarrow> nat \<Rightarrow> u8 list \<Rightarrow> (nat ret \<times> 'a ext2_scheme \<times> ext2_inode) run" where
  "ext2_write fs ino start data =
     (let len = length data; last = add32 start len; m = in_metadata ino in
      if is_device m then Inr (Inr 0, fs, ino)
      else if len = 0 then Inr (Inr 0, fs, ino)
      else if \<not> in_exists ino then Inr (Inl ENOENT, fs, ino)
      else if is_symlink m \<and> max (im_size m) last < 60 then
        bindR (memcpy_to (inline_bytes (in_raw ino)) start data) (\<lambda>bytes.
          let ino1 = ino\<lparr>in_raw := set_inline_bytes (in_raw ino) bytes\<rparr>;
              ino2 = if last > im_size m then set_size ino1 last else ino1 in
          bindR (write_inode_entry fs ino2) (\<lambda>(fs1, ino3). Inr (Inr len, fs1, ino3)))
      else
        bindR (if last > im_size m then ext2_truncate fs ino (signed32 last) else Inr (Inr (), fs, ino)) (\<lambda>(r, fs1, ino1).
          case r of
            Inl e \<Rightarrow> Inr (Inl e, fs1, ino1)
          | Inr _ \<Rightarrow>
              bindR (divR start (fb_block_size fs1)) (\<lambda>first_block.
              bindR (write_loop ino1 start data len first_block (stack_buf fs1 (fb_block_size fs1)) fs1) (\<lambda>(r, fs2).
                case r of
                  Inl e \<Rightarrow> Inr (Inl e, fs2, ino1)
                | Inr _ \<Rightarrow>
                    bindR (write_inode_entry fs2 (ino1\<lparr>in_raw := (in_raw ino1)\<lparr>ri_mtime := 0\<rparr>, in_dirty := True\<rparr>))
                      (\<lambda>(fs3, ino2). Inr (Inr len, fs3, ino2))))))"

definition ext2_chmod :: "'a ext2_scheme \<Rightarrow> ext2_inode \<Rightarrow> u32 \<Rightarrow> ('a ext2_scheme \<times> ext2_inode) run" where
  "ext2_chmod fs ino mode = write_inode_entry fs (ino\<lparr>in_metadata := (in_metadata ino)\<lparr>im_mode := mode\<rparr>\<rparr>)"

definition ext2_chown :: "'a ext2_scheme \<Rightarrow> ext2_inode \<Rightarrow> nat \<Rightarrow> nat \<Rightarrow> ('a ext2_scheme \<times> ext2_inode) run" where
  "ext2_chown fs ino uid gid =
     write_inode_entry fs (ino\<lparr>in_metadata := (in_metadata ino)\<lparr>im_uid := uid, im_gid := gid\<rparr>\<rparr>)"

end
