(* ===== verification/KString.thy ===== *)
theory KString
  imports ByteBlocks
begin

text \<open>
  C strings and byte copies (\<open>kernel/kstd/cstring.cpp\<close>) and the string class of the kernel
  (\<open>kernel/kstd/string.cpp\<close>). A C string is a buffer; it ends at its first zero byte, and reading
  past the end of the buffer is a fault. Bytes of a new allocation that are not written are \<open>junk\<close>.
\<close>

section \<open>Bytes in memory\<close>

definition byte_of :: "u8 list \<Rightarrow> nat \<Rightarrow> u8 run" where
  "byte_of buf i = (if i < length buf then Inr (buf ! i) else Inl OutOfBounds)"

definition put_byte :: "u8 list \<Rightarrow> nat \<Rightarrow> u8 \<Rightarrow> u8 list run" where
  "put_byte buf i b = (if i < length buf then Inr (buf[i := b]) else Inl OutOfBounds)"

lemma byte_ok [simp]:
  "i < length buf \<Longrightarrow> byte_of buf i = Inr (buf ! i)"
  "i < length buf \<Longrightarrow> put_byte buf i b = Inr (buf[i := b])"
  by (simp_all add: byte_of_def put_byte_def)

text \<open>\<open>memcpy\<close> (\<open>rep movsb\<close>) goes up, the loop of \<open>memmove\<close> goes down; both ranges lie in one memory.\<close>

fun copy_up :: "u8 list \<Rightarrow> nat \<Rightarrow> nat \<Rightarrow> nat \<Rightarrow> u8 list run" where
  "copy_up mem dest src 0 = Inr mem"
| "copy_up mem dest src (Suc count) =
     bindR (byte_of mem src) (\<lambda>b. bindR (put_byte mem dest b) (\<lambda>mem'. copy_up mem' (dest + 1) (src + 1) count))"

fun copy_down :: "u8 list \<Rightarrow> nat \<Rightarrow> nat \<Rightarrow> nat \<Rightarrow> u8 list run" where
  "copy_down mem dest src 0 = Inr mem"
| "copy_down mem dest src (Suc n) =
     bindR (byte_of mem (src + n)) (\<lambda>b. bindR (put_byte mem (dest + n) b) (\<lambda>mem'. copy_down mem' dest src n))"

definition memmove :: "u8 list \<Rightarrow> nat \<Rightarrow> nat \<Rightarrow> nat \<Rightarrow> u8 list run" where
  "memmove mem dest src n = (if dest < src then copy_up mem dest src n else copy_down mem dest src n)"

definition memset :: "u8 list \<Rightarrow> nat \<Rightarrow> u8 \<Rightarrow> nat \<Rightarrow> u8 list run" where
  "memset mem dest c n = memcpy_to mem dest (replicate n c)"

lemma copy_up_exact:
  "dest \<le> src \<Longrightarrow> src + n \<le> length mem \<Longrightarrow> copy_up mem dest src n = Inr (patch mem dest (take n (drop src mem)))"
proof (induction n arbitrary: mem dest src)
  case 0
  then show ?case by (simp add: patch_def)
next
  case (Suc n)
  let ?mem = "mem[dest := mem ! src]"
  have "copy_up mem dest src (Suc n) = Inr (patch ?mem (dest + 1) (take n (drop (src + 1) ?mem)))"
    using Suc.IH[of "dest + 1" "src + 1" ?mem] Suc.prems by simp
  also have "patch ?mem (dest + 1) (take n (drop (src + 1) ?mem)) = patch mem dest (take (Suc n) (drop src mem))"
    using Suc.prems by (intro nth_equalityI) (auto simp: nth_patch nth_list_update Suc_diff_le intro!: arg_cong[of _ _ "nth mem"])
  finally show ?case .
qed

lemma copy_down_exact:
  "src \<le> dest \<Longrightarrow> dest + n \<le> length mem \<Longrightarrow> copy_down mem dest src n = Inr (patch mem dest (take n (drop src mem)))"
proof (induction n arbitrary: mem)
  case 0
  then show ?case by (simp add: patch_def)
next
  case (Suc n)
  let ?mem = "mem[dest + n := mem ! (src + n)]"
  have "copy_down mem dest src (Suc n) = Inr (patch ?mem dest (take n (drop src ?mem)))"
    using Suc.IH[of ?mem] Suc.prems by simp
  also have "patch ?mem dest (take n (drop src ?mem)) = patch mem dest (take (Suc n) (drop src mem))"
    using Suc.prems by (intro nth_equalityI) (auto simp: nth_patch nth_list_update less_Suc_eq, subst nth_take, auto)
  finally show ?case .
qed

text \<open>
  For all ranges inside the memory, overlapping or not, \<open>memmove\<close> is the simultaneous copy of the
  source bytes: the direction it chooses never reads a byte that it has already overwritten.
\<close>

theorem memmove_exact:
  assumes "dest + n \<le> length mem" and "src + n \<le> length mem"
  shows "memmove mem dest src n = Inr (patch mem dest (take n (drop src mem)))"
  using assms copy_up_exact[of dest src n mem] copy_down_exact[of src dest n mem]
  by (simp add: memmove_def not_less)

theorem memmove_exact_witness:
  "memmove [1, 2, 3, 4, 5] 1 0 3 = Inr [1, 1, 2, 3, 5] \<and> memmove [1, 2, 3, 4, 5] 0 1 3 = Inr [2, 3, 4, 4, 5]"
  using memmove_exact[of 1 3 "[1, 2, 3, 4, 5]" 0] memmove_exact[of 0 3 "[1, 2, 3, 4, 5]" 1]
  by (simp add: patch_def)

section \<open>C strings\<close>

function strlen_loop :: "u8 list \<Rightarrow> nat \<Rightarrow> nat run" where
  "strlen_loop str s =
     (if s < length str then if str ! s = 0 then Inr s else strlen_loop str (s + 1) else Inl OutOfBounds)"
  by pat_completeness auto
termination
  by (relation "measure (\<lambda>(str, s). length str - s)") auto

declare strlen_loop.simps [simp del]

definition strlen :: "u8 list \<Rightarrow> nat run" where
  "strlen str = strlen_loop str 0"

function strcmp_loop :: "u8 list \<Rightarrow> u8 list \<Rightarrow> nat \<Rightarrow> bool run" where
  "strcmp_loop str1 str2 i =
     (if i < length str1 then
        if str1 ! i \<noteq> 0 then
          bindR (byte_of str2 i) (\<lambda>b.
            if b \<noteq> 0 then (if str1 ! i \<noteq> b then Inr False else strcmp_loop str1 str2 (i + 1)) else Inr False)
        else bindR (byte_of str2 i) (\<lambda>b. Inr (b = 0))
      else Inl OutOfBounds)"
  by pat_completeness auto
termination
  by (relation "measure (\<lambda>(str1, str2, i). length str1 - i)") auto

declare strcmp_loop.simps [simp del]

definition strcmp :: "u8 list \<Rightarrow> u8 list \<Rightarrow> bool run" where
  "strcmp str1 str2 = strcmp_loop str1 str2 0"

function strcat_loop :: "u8 list \<Rightarrow> nat \<Rightarrow> u8 list \<Rightarrow> nat \<Rightarrow> u8 list run" where
  "strcat_loop dest i src j =
     (if j < length src then
        if src ! j = 0 then put_byte dest (i + j) 0
        else bindR (put_byte dest (i + j) (src ! j)) (\<lambda>dest'. strcat_loop dest' i src (j + 1))
      else Inl OutOfBounds)"
  by pat_completeness auto
termination
  by (relation "measure (\<lambda>(dest, i, src, j). length src - j)") auto

declare strcat_loop.simps [simp del]

definition strcat :: "u8 list \<Rightarrow> u8 list \<Rightarrow> u8 list run" where
  "strcat dest src = bindR (strlen_loop dest 0) (\<lambda>i. strcat_loop dest i src 0)"

definition strcpy :: "u8 list \<Rightarrow> u8 list \<Rightarrow> u8 list run" where
  "strcpy dest src =
     bindR (strlen src) (\<lambda>n. bindR (memcpy_from src 0 n) (\<lambda>bytes.
       bindR (memcpy_to dest 0 bytes) (\<lambda>dest'. put_byte dest' n 0)))"

definition substr_c :: "nat \<Rightarrow> u8 list \<Rightarrow> u8 list \<Rightarrow> u8 list run" where
  "substr_c i src dest =
     bindR (memcpy_from src 0 i) (\<lambda>bytes. bindR (memcpy_to dest 0 bytes) (\<lambda>dest'. put_byte dest' i 0))"

definition substri :: "nat \<Rightarrow> u8 list \<Rightarrow> u8 list \<Rightarrow> u8 list run" where
  "substri i src dest =
     bindR (memcpy_from src 0 (i + 1)) (\<lambda>bytes. bindR (memcpy_to dest 0 bytes) (\<lambda>dest'. put_byte dest' (i + 1) 0))"

definition substrr :: "nat \<Rightarrow> nat \<Rightarrow> u8 list \<Rightarrow> u8 list \<Rightarrow> u8 list run" where
  "substrr s e src dest =
     bindR (memcpy_from src s (sub32 e s)) (\<lambda>bytes.
       bindR (memcpy_to dest 0 bytes) (\<lambda>dest'. put_byte dest' (sub32 e s) 0))"

text \<open>A buffer that starts with the text \<open>xs\<close> and a terminator.\<close>

definition holds :: "u8 list \<Rightarrow> u8 list \<Rightarrow> bool" where
  "holds buf xs \<longleftrightarrow> 0 \<notin> set xs \<and> (\<exists>rest. buf = xs @ 0 # rest)"

lemma holdsD:
  assumes "holds buf xs"
  shows "length xs < length buf" "buf ! length xs = 0" "i < length xs \<Longrightarrow> buf ! i = xs ! i \<and> xs ! i \<noteq> 0"
    "take (length xs) buf = xs"
proof -
  from assms obtain rest where r: "0 \<notin> set xs" "buf = xs @ 0 # rest" by (auto simp: holds_def)
  then show "length xs < length buf" "buf ! length xs = 0" "take (length xs) buf = xs" by simp_all
  show "i < length xs \<Longrightarrow> buf ! i = xs ! i \<and> xs ! i \<noteq> 0" using r by (auto simp: nth_append) (metis nth_mem)
qed

lemma holdsI: "0 \<notin> set xs \<Longrightarrow> holds (xs @ 0 # rest) xs"
  by (auto simp: holds_def)

lemma strlen_loop_holds: "holds str xs \<Longrightarrow> s \<le> length xs \<Longrightarrow> strlen_loop str s = Inr (length xs)"
proof (induction "length xs - s" arbitrary: s)
  case 0
  then show ?case using holdsD[OF 0(2)] by (subst strlen_loop.simps) auto
next
  case (Suc k)
  then have "s < length xs" by simp
  with holdsD(1)[OF Suc.prems(1)] holdsD(3)[OF Suc.prems(1), of s] have "strlen_loop str s = strlen_loop str (s + 1)" by (subst strlen_loop.simps) auto
  with Suc \<open>s < length xs\<close> show ?case by simp
qed

lemma strlen_holds [simp]: "holds str xs \<Longrightarrow> strlen str = Inr (length xs)"
  using strlen_loop_holds[of str xs 0] by (simp add: strlen_def)

lemma strcmp_loop_holds:
  assumes "holds a xs" "holds b ys"
  shows "i \<le> length xs \<Longrightarrow> i \<le> length ys \<Longrightarrow> take i xs = take i ys \<Longrightarrow> strcmp_loop a b i = Inr (xs = ys)"
proof (induction "length xs - i" arbitrary: i)
  case 0
  then have i: "i = length xs" by simp
  have "strcmp_loop a b i = Inr (b ! i = 0)"
    using holdsD(1,2)[OF assms(1)] holdsD(1)[OF assms(2)] i 0(3) by (subst strcmp_loop.simps) simp
  moreover have "b ! i = 0 \<longleftrightarrow> i = length ys" using holdsD(2)[OF assms(2)] holdsD(3)[OF assms(2), of i] 0(3) by (cases "i = length ys") auto
  moreover have "i = length ys \<longleftrightarrow> xs = ys" using 0(3,4) i by (metis take_all_iff order_refl take_all)
  ultimately show ?case by simp
next
  case (Suc k)
  then have i: "i < length xs" by simp
  note A = holdsD[OF assms(1)] and B = holdsD[OF assms(2)]
  have a: "i < length a" "a ! i = xs ! i" "xs ! i \<noteq> 0" using A(1,3) i by auto
  show ?case
  proof (cases "i < length ys \<and> xs ! i = ys ! i")
    case True
    then have "strcmp_loop a b i = strcmp_loop a b (i + 1)"
      using a B(1) B(3)[of i] by (subst strcmp_loop.simps) simp
    moreover have "take (i + 1) xs = take (i + 1) ys" using True Suc.prems(3) i by (simp add: take_Suc_conv_app_nth)
    ultimately show ?thesis using Suc.hyps(1)[of "i + 1"] Suc.hyps(2) True i by simp
  next
    case False
    have "i < length b" using B(1) Suc.prems(2) by simp
    moreover have "b ! i = 0 \<or> b ! i \<noteq> xs ! i" using False B(2) B(3)[of i] Suc.prems(2) by (cases "i = length ys") auto
    ultimately have "strcmp_loop a b i = Inr False" using a by (subst strcmp_loop.simps) auto
    moreover have "xs \<noteq> ys" using False i by auto
    ultimately show ?thesis by simp
  qed
qed

lemma strcmp_holds [simp]: "holds a xs \<Longrightarrow> holds b ys \<Longrightarrow> strcmp a b = Inr (xs = ys)"
  using strcmp_loop_holds[of a xs b ys 0] by (simp add: strcmp_def)

lemma byte_of_holds: "holds buf xs \<Longrightarrow> i < length xs \<Longrightarrow> byte_of buf i = Inr (xs ! i)"
  using holdsD(1,3)[of buf xs] by simp

section \<open>The string class\<close>

text \<open>The fields of \<open>kstd::string\<close>; \<open>_cstring\<close> is a null pointer after the string was moved from.\<close>

record kstring =
  ks_size :: nat
  ks_length :: nat
  ks_cstring :: "u8 list option"

definition npos :: nat where
  "npos = 2 ^ 32 - 1"

definition fresh :: "(nat \<Rightarrow> u8) \<Rightarrow> nat \<Rightarrow> u8 list" where
  "fresh junk n = map junk [0..<n]"

definition ks_deref :: "kstring \<Rightarrow> u8 list run" where
  "ks_deref s = (case ks_cstring s of None \<Rightarrow> Inl NullDeref | Some buf \<Rightarrow> Inr buf)"

text \<open>The source of a \<open>memcpy\<close>: no byte is read when the count is zero.\<close>

definition source_bytes :: "u8 list option \<Rightarrow> nat \<Rightarrow> nat \<Rightarrow> u8 list run" where
  "source_bytes p off n =
     (if n = 0 then Inr [] else case p of None \<Rightarrow> Inl NullDeref | Some buf \<Rightarrow> memcpy_from buf off n)"

definition string_new :: kstring where
  "string_new = \<lparr>ks_size = 1, ks_length = 0, ks_cstring = Some [0]\<rparr>"

definition string_copy :: "(nat \<Rightarrow> u8) \<Rightarrow> kstring \<Rightarrow> kstring run" where
  "string_copy junk s =
     bindR (source_bytes (ks_cstring s) 0 (ks_size s)) (\<lambda>bytes.
       bindR (memcpy_to (fresh junk (ks_size s)) 0 bytes) (\<lambda>buf.
         Inr \<lparr>ks_size = ks_size s, ks_length = ks_length s, ks_cstring = Some buf\<rparr>))"

text \<open>The move constructor: the new string and what is left of the old one.\<close>

definition string_move :: "kstring \<Rightarrow> kstring \<times> kstring" where
  "string_move s = (s, \<lparr>ks_size = 0, ks_length = 0, ks_cstring = None\<rparr>)"

definition string_of_cstr :: "(nat \<Rightarrow> u8) \<Rightarrow> u8 list \<Rightarrow> kstring run" where
  "string_of_cstr junk str =
     bindR (strlen str) (\<lambda>n. bindR (memcpy_from str 0 (add32 n 1)) (\<lambda>bytes.
       bindR (memcpy_to (fresh junk (add32 n 1)) 0 bytes) (\<lambda>buf.
         Inr \<lparr>ks_size = add32 n 1, ks_length = n, ks_cstring = Some buf\<rparr>)))"

definition string_cat :: "(nat \<Rightarrow> u8) \<Rightarrow> u8 list option \<Rightarrow> nat \<Rightarrow> u8 list option \<Rightarrow> nat \<Rightarrow> kstring run" where
  "string_cat junk a size_a b size_b =
     (let n = add32 size_a size_b; size = add32 n 1 in
      bindR (source_bytes a 0 size_a) (\<lambda>xs. bindR (memcpy_to (fresh junk size) 0 xs) (\<lambda>buf.
      bindR (source_bytes b 0 size_b) (\<lambda>ys. bindR (memcpy_to buf size_a ys) (\<lambda>buf.
      bindR (put_byte buf n 0) (\<lambda>buf. Inr \<lparr>ks_size = size, ks_length = n, ks_cstring = Some buf\<rparr>))))))"

text \<open>Copy assignment from another object; assigning a string to itself changes nothing.\<close>

definition string_assign :: "(nat \<Rightarrow> u8) \<Rightarrow> kstring \<Rightarrow> kstring run" where
  "string_assign junk str =
     bindR (ks_deref str) (\<lambda>src. bindR (strcpy (fresh junk (ks_size str)) src) (\<lambda>buf.
       Inr \<lparr>ks_size = ks_size str, ks_length = ks_length str, ks_cstring = Some buf\<rparr>))"

definition string_assign_cstr :: "(nat \<Rightarrow> u8) \<Rightarrow> u8 list \<Rightarrow> kstring run" where
  "string_assign_cstr junk str =
     bindR (strlen str) (\<lambda>n. bindR (strcpy (fresh junk (add32 n 1)) str) (\<lambda>buf.
       Inr \<lparr>ks_size = add32 n 1, ks_length = n, ks_cstring = Some buf\<rparr>))"

definition string_assign_move :: "kstring \<Rightarrow> kstring \<times> kstring" where
  "string_assign_move str = (str, \<lparr>ks_size = 0, ks_length = 0, ks_cstring = None\<rparr>)"

definition expand_to :: "(nat \<Rightarrow> u8) \<Rightarrow> kstring \<Rightarrow> nat \<Rightarrow> kstring" where
  "expand_to junk s min_size =
     (if min_size \<le> ks_size s then s
      else let size = max min_size (ks_size s * 2 mod 2 ^ 32) in
        s\<lparr>ks_size := size,
          ks_cstring := Some (case ks_cstring s of
              Some buf \<Rightarrow> take size buf @ drop (length buf) (fresh junk size)
            | None \<Rightarrow> fresh junk size)\<rparr>)"

definition string_append :: "(nat \<Rightarrow> u8) \<Rightarrow> kstring \<Rightarrow> u8 list option \<Rightarrow> nat \<Rightarrow> kstring run" where
  "string_append junk s str n =
     (let new_length = add32 (ks_length s) n; s1 = expand_to junk s (add32 new_length 1) in
      bindR (source_bytes str 0 n) (\<lambda>bytes. bindR (ks_deref s1) (\<lambda>buf.
      bindR (memcpy_to buf (ks_length s1) bytes) (\<lambda>buf. bindR (put_byte buf new_length 0) (\<lambda>buf.
        Inr (s1\<lparr>ks_cstring := Some buf, ks_length := new_length\<rparr>))))))"

definition string_append_str :: "(nat \<Rightarrow> u8) \<Rightarrow> kstring \<Rightarrow> kstring \<Rightarrow> kstring run" where
  "string_append_str junk s str = string_append junk s (ks_cstring str) (ks_length str)"

definition string_append_cstr :: "(nat \<Rightarrow> u8) \<Rightarrow> kstring \<Rightarrow> u8 list \<Rightarrow> kstring run" where
  "string_append_cstr junk s str = bindR (strlen str) (\<lambda>n. string_append junk s (Some str) n)"

definition string_add_str :: "(nat \<Rightarrow> u8) \<Rightarrow> kstring \<Rightarrow> kstring \<Rightarrow> kstring run" where
  "string_add_str junk s str = string_cat junk (ks_cstring s) (ks_length s) (ks_cstring str) (ks_length str)"

definition string_add_cstr :: "(nat \<Rightarrow> u8) \<Rightarrow> kstring \<Rightarrow> u8 list \<Rightarrow> kstring run" where
  "string_add_cstr junk s str =
     bindR (strlen str) (\<lambda>n. string_cat junk (ks_cstring s) (ks_length s) (Some str) n)"

definition string_eq :: "kstring \<Rightarrow> kstring \<Rightarrow> bool run" where
  "string_eq s str = bindR (ks_deref s) (\<lambda>a. bindR (ks_deref str) (\<lambda>b. strcmp a b))"

definition string_eq_cstr :: "kstring \<Rightarrow> u8 list \<Rightarrow> bool run" where
  "string_eq_cstr s str = bindR (ks_deref s) (\<lambda>a. strcmp str a)"

definition string_ne :: "kstring \<Rightarrow> kstring \<Rightarrow> bool run" where
  "string_ne s str = bindR (ks_deref s) (\<lambda>a. bindR (ks_deref str) (\<lambda>b. bindR (strcmp a b) (\<lambda>r. Inr (\<not> r))))"

definition string_ne_cstr :: "kstring \<Rightarrow> u8 list \<Rightarrow> bool run" where
  "string_ne_cstr s str = bindR (ks_deref s) (\<lambda>a. bindR (strcmp str a) (\<lambda>r. Inr (\<not> r)))"

definition string_at :: "kstring \<Rightarrow> nat \<Rightarrow> u8 run" where
  "string_at s i = bindR (ks_deref s) (\<lambda>buf. byte_of buf i)"

definition string_substr :: "(nat \<Rightarrow> u8) \<Rightarrow> kstring \<Rightarrow> nat \<Rightarrow> nat \<Rightarrow> kstring run" where
  "string_substr junk s start len =
     bindR (source_bytes (ks_cstring s) start len) (\<lambda>bytes.
     bindR (memcpy_to (fresh junk (add32 len 1)) 0 bytes) (\<lambda>tmp.
     bindR (put_byte tmp len 0) (\<lambda>tmp. string_of_cstr junk tmp)))"

text \<open>
  The inner loop of both substring searches compares, but its \<open>break\<close> only leaves that loop: nothing of
  the comparison reaches the result. \<open>lim\<close> is the bound \<open>_length - len\<close> of the outer loop.
\<close>

function match_loop :: "u8 list \<Rightarrow> u8 list \<Rightarrow> nat \<Rightarrow> nat \<Rightarrow> nat \<Rightarrow> unit run" where
  "match_loop buf str i j len =
     (if j < len then
        bindR (byte_of buf (i + j)) (\<lambda>a. bindR (byte_of str j) (\<lambda>b.
          if a \<noteq> b then Inr () else match_loop buf str i (j + 1) len))
      else Inr ())"
  by pat_completeness auto
termination
  by (relation "measure (\<lambda>(buf, str, i, j, len). len - j)") auto

declare match_loop.simps [simp del]

function find_loop :: "u8 list \<Rightarrow> u8 list \<Rightarrow> nat \<Rightarrow> nat \<Rightarrow> nat \<Rightarrow> nat run" where
  "find_loop buf str len lim i =
     (if i \<le> lim then
        bindR (byte_of buf i) (\<lambda>a. bindR (byte_of str 0) (\<lambda>b.
          if a = b then bindR (match_loop buf str i 0 len) (\<lambda>_. Inr i)
          else find_loop buf str len lim (i + 1)))
      else Inr npos)"
  by pat_completeness auto
termination
  by (relation "measure (\<lambda>(buf, str, len, lim, i). lim + 1 - i)") auto

declare find_loop.simps [simp del]

definition find_cstr :: "kstring \<Rightarrow> u8 list \<Rightarrow> nat \<Rightarrow> nat run" where
  "find_cstr s str start =
     bindR (strlen str) (\<lambda>len. if start \<le> sub32 (ks_length s) len
       then bindR (ks_deref s) (\<lambda>buf. find_loop buf str len (sub32 (ks_length s) len) start) else Inr npos)"

definition find_str :: "kstring \<Rightarrow> kstring \<Rightarrow> nat \<Rightarrow> nat run" where
  "find_str s str start = bindR (ks_deref str) (\<lambda>p. find_cstr s p start)"

function find_char_loop :: "u8 list \<Rightarrow> u8 \<Rightarrow> nat \<Rightarrow> nat \<Rightarrow> nat run" where
  "find_char_loop buf c lim i =
     (if i \<le> lim then bindR (byte_of buf i) (\<lambda>a. if a = c then Inr i else find_char_loop buf c lim (i + 1))
      else Inr npos)"
  by pat_completeness auto
termination
  by (relation "measure (\<lambda>(buf, c, lim, i). lim + 1 - i)") auto

declare find_char_loop.simps [simp del]

definition find_char :: "kstring \<Rightarrow> u8 \<Rightarrow> nat \<Rightarrow> nat run" where
  "find_char s c start =
     (if start \<le> ks_length s then bindR (ks_deref s) (\<lambda>buf. find_char_loop buf c (ks_length s) start) else Inr npos)"

fun find_last_loop :: "u8 list \<Rightarrow> u8 list \<Rightarrow> nat \<Rightarrow> nat \<Rightarrow> nat run" where
  "find_last_loop buf str len 0 = Inr npos"
| "find_last_loop buf str len (Suc i) =
     bindR (byte_of buf i) (\<lambda>a. bindR (byte_of str 0) (\<lambda>b.
       if a = b then bindR (match_loop buf str (Suc i) 0 len) (\<lambda>_. Inr (Suc i))
       else find_last_loop buf str len i))"

definition find_last_cstr :: "kstring \<Rightarrow> u8 list \<Rightarrow> nat \<Rightarrow> nat run" where
  "find_last_cstr s str end_pos =
     bindR (strlen str) (\<lambda>find_len. if find_len = 0 then Inr npos
       else let e = sub32 (if end_pos = npos then sub32 (ks_length s) 1 else end_pos) find_len in
         if e = 0 then Inr npos else bindR (ks_deref s) (\<lambda>buf. find_last_loop buf str find_len e))"

definition find_last_str :: "kstring \<Rightarrow> kstring \<Rightarrow> nat \<Rightarrow> nat run" where
  "find_last_str s str end_pos = bindR (ks_deref str) (\<lambda>p. find_last_cstr s p end_pos)"

fun find_last_char_loop :: "u8 list \<Rightarrow> u8 \<Rightarrow> nat \<Rightarrow> nat run" where
  "find_last_char_loop buf c 0 = Inr npos"
| "find_last_char_loop buf c (Suc i) =
     bindR (byte_of buf i) (\<lambda>a. if a = c then Inr (Suc i) else find_last_char_loop buf c i)"

definition find_last_char :: "kstring \<Rightarrow> u8 \<Rightarrow> nat \<Rightarrow> nat run" where
  "find_last_char s c end_pos =
     (let e = add32 (if end_pos = npos then sub32 (ks_length s) 1 else end_pos) 1 in
      if e = 0 then Inr npos else bindR (ks_deref s) (\<lambda>buf. find_last_char_loop buf c e))"

section \<open>Strings as texts\<close>

definition str_ok :: "kstring \<Rightarrow> u8 list \<Rightarrow> bool" where
  "str_ok s xs \<longleftrightarrow> ks_length s = length xs \<and> ks_size s < 2 ^ 32 \<and>
     (\<exists>buf. ks_cstring s = Some buf \<and> length buf = ks_size s \<and> holds buf xs)"

lemma str_okE:
  assumes "str_ok s xs"
  obtains buf where "ks_cstring s = Some buf" "length buf = ks_size s" "holds buf xs"
    "ks_length s = length xs" "ks_size s < 2 ^ 32" "length xs < length buf"
  using assms holdsD(1)[of _ xs] unfolding str_ok_def by metis

lemma length_fresh [simp]: "length (fresh junk n) = n"
  by (simp add: fresh_def)

lemma memcpy_all [simp]: "n \<le> length buf \<Longrightarrow> memcpy_from buf 0 n = Inr (take n buf)"
  by (simp add: memcpy_from_def)

lemma memcpy_into [simp]: "off + length xs \<le> length buf \<Longrightarrow> memcpy_to buf off xs = Inr (patch buf off xs)"
  by (simp add: memcpy_to_def)

lemma source_bytes_cstr: "holds buf xs \<Longrightarrow> source_bytes (Some buf) 0 (length xs) = Inr xs"
  using holdsD(1,4)[of buf xs] by (simp add: source_bytes_def)

lemma source_bytes_ok: "str_ok s xs \<Longrightarrow> source_bytes (ks_cstring s) 0 (length xs) = Inr xs"
  by (elim str_okE) (simp add: source_bytes_cstr)

text \<open>Text written behind a text, with a terminator after it.\<close>

lemma holds_written:
  assumes "take (length xs) buf = xs" "length xs + length ys < length buf" "0 \<notin> set xs" "0 \<notin> set ys"
  shows "holds ((patch buf (length xs) ys)[length xs + length ys := 0]) (xs @ ys)"
proof -
  have "drop (length xs + length ys) buf = buf ! (length xs + length ys) # drop (length xs + length ys + 1) buf"
    using assms(2) by (simp add: Cons_nth_drop_Suc)
  then have "(patch buf (length xs) ys)[length xs + length ys := 0] = (xs @ ys) @ 0 # drop (length xs + length ys + 1) buf"
    using assms(1) by (simp add: patch_def list_update_append)
  with assms(3,4) show ?thesis using holdsI[of "xs @ ys"] by simp
qed

definition moved_from :: "kstring \<Rightarrow> bool" where
  "moved_from s \<longleftrightarrow> ks_cstring s = None \<and> ks_length s = 0 \<and> ks_size s = 0"

lemma expand_to_ok:
  assumes "str_ok s xs \<or> moved_from s \<and> xs = []" "n < 2 ^ 32" "length xs < n"
  shows "\<exists>buf. ks_cstring (expand_to junk s n) = Some buf \<and> length buf = ks_size (expand_to junk s n) \<and>
    n \<le> ks_size (expand_to junk s n) \<and> ks_size (expand_to junk s n) < 2 ^ 32 \<and> take (length xs) buf = xs \<and>
    ks_length (expand_to junk s n) = length xs \<and> 0 \<notin> set xs"
proof (cases "n \<le> ks_size s")
  case True
  with assms show ?thesis by (auto simp: expand_to_def str_ok_def moved_from_def holds_def)
next
  case False
  let ?size = "max n (ks_size s * 2 mod 2 ^ 32)"
  have "?size < 2 ^ 32" using assms(2) by simp
  from assms(1) consider buf where "ks_cstring s = Some buf" "length buf = ks_size s" "holds buf xs" "ks_length s = length xs"
    | "ks_cstring s = None" "ks_length s = 0" "xs = []"
    by (auto simp: str_ok_def moved_from_def)
  then show ?thesis
  proof cases
    case 1
    have "take ?size buf = buf" using 1(2) False by simp
    then have "ks_cstring (expand_to junk s n) = Some (buf @ drop (length buf) (fresh junk ?size))"
        "ks_size (expand_to junk s n) = ?size" "ks_length (expand_to junk s n) = length xs"
      using False 1 by (simp_all only: expand_to_def Let_def) simp_all
    moreover have "length (buf @ drop (length buf) (fresh junk ?size)) = ?size" using 1(2) False by simp
    moreover have "0 \<notin> set xs" using 1(3) by (simp add: holds_def)
    ultimately show ?thesis using \<open>?size < 2 ^ 32\<close> holdsD(1,4)[OF 1(3)] by simp
  next
    case 2
    with False \<open>?size < 2 ^ 32\<close> show ?thesis by (simp add: expand_to_def Let_def)
  qed
qed

lemma string_append_ok:
  assumes "str_ok s xs \<or> moved_from s \<and> xs = []"
    and "source_bytes p 0 (length ys) = Inr ys" "0 \<notin> set ys" "length xs + length ys + 1 < 2 ^ 32"
  shows "\<exists>s'. string_append junk s p (length ys) = Inr s' \<and> str_ok s' (xs @ ys)"
proof -
  let ?n = "length xs + length ys + 1"
  have n: "add32 (ks_length s) (length ys) = length xs + length ys" "add32 (length xs + length ys) 1 = ?n"
    using assms(1,4) by (auto simp: add32_def str_ok_def moved_from_def)
  obtain buf where buf: "ks_cstring (expand_to junk s ?n) = Some buf" "length buf = ks_size (expand_to junk s ?n)"
      "?n \<le> ks_size (expand_to junk s ?n)" "ks_size (expand_to junk s ?n) < 2 ^ 32"
      "take (length xs) buf = xs" "ks_length (expand_to junk s ?n) = length xs" "0 \<notin> set xs"
    using expand_to_ok[OF assms(1), of ?n junk] assms(4) by auto
  with assms(2,3) holds_written[of xs buf ys] show ?thesis
    by (simp add: string_append_def Let_def n ks_deref_def str_ok_def del: One_nat_def)
qed

lemma string_append_cstr_ok:
  "str_ok s xs \<or> moved_from s \<and> xs = [] \<Longrightarrow> holds p ys \<Longrightarrow> length xs + length ys + 1 < 2 ^ 32 \<Longrightarrow>
    \<exists>s'. string_append_cstr junk s p = Inr s' \<and> str_ok s' (xs @ ys)"
  using string_append_ok[of s xs "Some p" ys junk] source_bytes_cstr[of p ys]
  by (auto simp: string_append_cstr_def) (auto simp: holds_def)

lemma strcpy_ok:
  "holds src xs \<Longrightarrow> length xs < length dest \<Longrightarrow>
    \<exists>buf. strcpy dest src = Inr buf \<and> length buf = length dest \<and> holds buf xs"
  using holds_written[of "[]" dest xs] holdsD(1,4)[of src xs]
  by (auto simp: strcpy_def) (auto simp: holds_def)

lemma string_of_cstr_ok:
  assumes "holds str xs" "length xs + 1 < 2 ^ 32"
  shows "\<exists>s. string_of_cstr junk str = Inr s \<and> str_ok s xs"
proof -
  have a: "add32 (length xs) 1 = length xs + 1" using assms(2) by (simp add: add32_def)
  from assms(1) obtain rest where r: "0 \<notin> set xs" "str = xs @ 0 # rest" by (auto simp: holds_def)
  then have "string_of_cstr junk str = Inr \<lparr>ks_size = length xs + 1, ks_length = length xs, ks_cstring = Some (xs @ [0])\<rparr>"
    using strlen_holds[OF assms(1)] by (simp add: string_of_cstr_def a del: One_nat_def) (simp add: patch_def)
  with r(1) assms(2) show ?thesis using holdsI[of xs "[]"] by (simp add: str_ok_def)
qed

lemma string_assign_cstr_ok:
  assumes "holds str xs" "length xs + 1 < 2 ^ 32"
  shows "\<exists>s. string_assign_cstr junk str = Inr s \<and> str_ok s xs"
proof -
  have a: "add32 (length xs) 1 = length xs + 1" using assms(2) by (simp add: add32_def)
  from strcpy_ok[OF assms(1), of "fresh junk (length xs + 1)"] assms(2) show ?thesis
    using strlen_holds[OF assms(1)] by (auto simp: string_assign_cstr_def a str_ok_def simp del: One_nat_def)
qed

lemma string_assign_ok: "str_ok s xs \<Longrightarrow> \<exists>t. string_assign junk s = Inr t \<and> str_ok t xs"
  using strcpy_ok[of _ xs "fresh junk (ks_size s)"]
  by (elim str_okE) (fastforce simp: string_assign_def ks_deref_def str_ok_def)

lemma string_copy_ok: "str_ok s xs \<Longrightarrow> \<exists>t. string_copy junk s = Inr t \<and> str_ok t xs"
  by (elim str_okE) (auto simp: string_copy_def source_bytes_def str_ok_def patch_def)

lemma string_cat_ok:
  assumes "str_ok s xs" "holds p ys" "length xs + length ys + 1 < 2 ^ 32"
  shows "\<exists>t. string_cat junk (ks_cstring s) (ks_length s) (Some p) (length ys) = Inr t \<and> str_ok t (xs @ ys)"
proof -
  have a: "ks_length s = length xs" "add32 (length xs) (length ys) = length xs + length ys"
      "add32 (length xs + length ys) 1 = length xs + length ys + 1" "0 \<notin> set xs" "0 \<notin> set ys"
    using assms by (auto simp: add32_def str_ok_def holds_def)
  let ?buf = "patch (fresh junk (length xs + length ys + 1)) 0 xs"
  have "take (length xs) ?buf = xs" by (simp add: patch_def)
  with holds_written[of xs ?buf ys] a assms(3) show ?thesis
    using source_bytes_ok[OF assms(1)] source_bytes_cstr[OF assms(2)]
    by (simp add: string_cat_def Let_def str_ok_def del: One_nat_def)
qed

lemma string_substr_ok:
  assumes "str_ok s xs" "start + len \<le> length xs"
  shows "\<exists>t. string_substr junk s start len = Inr t \<and> str_ok t (take len (drop start xs))"
proof -
  from assms(1) obtain buf where b: "ks_cstring s = Some buf" "holds buf xs" "ks_size s < 2 ^ 32" "length buf = ks_size s"
    by (elim str_okE)
  let ?sub = "take len (drop start xs)"
  have z: "0 \<notin> set ?sub" using b(2) by (auto simp: holds_def dest: in_set_takeD in_set_dropD)
  have len: "length xs < 2 ^ 32" "add32 len 1 = len + 1" "length ?sub = len"
    using b(3,4) holdsD(1)[OF b(2)] assms(2) by (auto simp: add32_def)
  have "source_bytes (ks_cstring s) start len = Inr ?sub"
    using b(1,2) assms(2) by (auto simp: source_bytes_def memcpy_from_def holds_def)
  then have "string_substr junk s start len = string_of_cstr junk ((patch (fresh junk (len + 1)) 0 ?sub)[len := 0])"
    using len by (simp add: string_substr_def del: One_nat_def)
  moreover have "holds ((patch (fresh junk (len + 1)) 0 ?sub)[len := 0]) ?sub"
    using holds_written[of "[]" "fresh junk (len + 1)" ?sub] z len(3) by simp
  moreover have "length ?sub + 1 < 2 ^ 32" using len(3) b(3,4) holdsD(1)[OF b(2)] assms(2) by simp
  ultimately show ?thesis using string_of_cstr_ok by presburger
qed

lemma string_eq_cstr_ok: "str_ok s xs \<Longrightarrow> holds p ys \<Longrightarrow> string_eq_cstr s p = Inr (ys = xs)"
  by (elim str_okE) (simp add: string_eq_cstr_def ks_deref_def)

text \<open>Programs over one string object and what they do to its text.\<close>

datatype string_op =
    OpAppend "u8 list"
  | OpAssign "u8 list"
  | OpPlus "u8 list"
  | OpSubstr nat nat
  | OpCopy

fun string_step :: "(nat \<Rightarrow> u8) \<Rightarrow> kstring \<Rightarrow> string_op \<Rightarrow> kstring run" where
  "string_step junk s (OpAppend ys) = string_append_cstr junk s (ys @ [0])"
| "string_step junk s (OpAssign ys) = string_assign_cstr junk (ys @ [0])"
| "string_step junk s (OpPlus ys) = bindR (string_add_cstr junk s (ys @ [0])) (\<lambda>t. Inr (fst (string_assign_move t)))"
| "string_step junk s (OpSubstr start len) = bindR (string_substr junk s start len) (\<lambda>t. Inr (fst (string_move t)))"
| "string_step junk s OpCopy = bindR (string_copy junk s) (\<lambda>t. string_assign junk t)"

fun string_prog :: "(nat \<Rightarrow> u8) \<Rightarrow> kstring \<Rightarrow> string_op list \<Rightarrow> kstring run" where
  "string_prog junk s [] = Inr s"
| "string_prog junk s (op # ops) = bindR (string_step junk s op) (\<lambda>t. string_prog junk t ops)"

fun text_step :: "u8 list \<Rightarrow> string_op \<Rightarrow> u8 list" where
  "text_step xs (OpAppend ys) = xs @ ys"
| "text_step xs (OpAssign ys) = ys"
| "text_step xs (OpPlus ys) = xs @ ys"
| "text_step xs (OpSubstr start len) = take len (drop start xs)"
| "text_step xs OpCopy = xs"

text \<open>Arguments are C strings, substrings lie inside the text and no length reaches 32 bits.\<close>

fun op_fits :: "u8 list \<Rightarrow> string_op \<Rightarrow> bool" where
  "op_fits xs (OpAppend ys) \<longleftrightarrow> 0 \<notin> set ys \<and> length xs + length ys + 1 < 2 ^ 32"
| "op_fits xs (OpAssign ys) \<longleftrightarrow> 0 \<notin> set ys \<and> length ys + 1 < 2 ^ 32"
| "op_fits xs (OpPlus ys) \<longleftrightarrow> 0 \<notin> set ys \<and> length xs + length ys + 1 < 2 ^ 32"
| "op_fits xs (OpSubstr start len) \<longleftrightarrow> start + len \<le> length xs"
| "op_fits xs OpCopy \<longleftrightarrow> True"

fun ops_fit :: "u8 list \<Rightarrow> string_op list \<Rightarrow> bool" where
  "ops_fit xs [] \<longleftrightarrow> True"
| "ops_fit xs (op # ops) \<longleftrightarrow> op_fits xs op \<and> ops_fit (text_step xs op) ops"

lemma string_step_ok:
  assumes s: "str_ok s xs" and "op_fits xs op"
  shows "\<exists>t. string_step junk s op = Inr t \<and> str_ok t (text_step xs op)"
proof (cases op)
  case (OpAppend ys)
  with assms show ?thesis using string_append_cstr_ok[of s xs "ys @ [0]" ys junk] holdsI[of ys "[]"] by auto
next
  case (OpAssign ys)
  with assms show ?thesis using string_assign_cstr_ok[of "ys @ [0]" ys junk] holdsI[of ys "[]"] by auto
next
  case (OpPlus ys)
  with assms have h: "holds (ys @ [0]) ys" using holdsI[of ys "[]"] by simp
  from string_cat_ok[OF s h, of junk] OpPlus assms(2) h show ?thesis
    by (auto simp: string_add_cstr_def string_assign_move_def)
next
  case (OpSubstr start len)
  with assms show ?thesis using string_substr_ok[OF s, of start len junk] by (auto simp: string_move_def)
next
  case OpCopy
  obtain t where "string_copy junk s = Inr t" "str_ok t xs" using string_copy_ok[OF s] by blast
  with OpCopy show ?thesis using string_assign_ok[of t xs junk] by auto
qed

lemma string_prog_ok:
  "str_ok s xs \<Longrightarrow> ops_fit xs ops \<Longrightarrow> \<exists>t. string_prog junk s ops = Inr t \<and> str_ok t (foldl text_step xs ops)"
proof (induction ops arbitrary: s xs)
  case (Cons op ops)
  then obtain t where "string_step junk s op = Inr t" "str_ok t (text_step xs op)"
    using string_step_ok[of s xs op junk] by auto
  with Cons show ?case by simp
qed simp

text \<open>
  C40: a program of appends, assignments, concatenations, substrings and copies on a new string never
  leaves its storage, whatever the fresh allocations contain; the string then holds the text that the
  program computes on lists, its length and terminator agree with it, and \<open>operator==\<close> decides equality
  with that text.
\<close>

theorem string_refines:
  assumes "ops_fit [] ops"
  shows "\<exists>s. string_prog junk string_new ops = Inr s \<and> str_ok s (foldl text_step [] ops) \<and>
    (\<forall>ys rest. 0 \<notin> set ys \<longrightarrow> string_eq_cstr s (ys @ 0 # rest) = Inr (ys = foldl text_step [] ops))"
proof -
  have "str_ok string_new []" using holdsI[of "[]" "[]"] by (simp add: str_ok_def string_new_def)
  from string_prog_ok[OF this assms, of junk] obtain s where
    s: "string_prog junk string_new ops = Inr s" "str_ok s (foldl text_step [] ops)" by blast
  have "string_eq_cstr s (ys @ 0 # rest) = Inr (ys = foldl text_step [] ops)" if "0 \<notin> set ys" for ys rest
    using string_eq_cstr_ok[OF s(2) holdsI[OF that]] .
  with s show ?thesis by blast
qed

theorem string_refines_witness:
  "\<exists>s. string_prog (\<lambda>i. 255) string_new [OpAppend [97, 98, 99], OpPlus [100], OpSubstr 1 2, OpCopy] = Inr s \<and>
     string_eq_cstr s [98, 99, 0] = Inr True"
proof -
  have "ops_fit [] [OpAppend [97, 98, 99], OpPlus [100], OpSubstr 1 2, OpCopy]" by simp
  from string_refines[OF this, of "\<lambda>i. 255"] obtain s where
    "string_prog (\<lambda>i. 255) string_new [OpAppend [97, 98, 99], OpPlus [100], OpSubstr 1 2, OpCopy] = Inr s"
    "string_eq_cstr s ([98, 99] @ 0 # []) = Inr ([98, 99] = foldl text_step [] [OpAppend [97, 98, 99], OpPlus [100], OpSubstr 1 2, OpCopy])"
    by (elim exE conjE) (erule allE[of _ "[98, 99]"], erule allE[of _ "[]"], simp)
  then show ?thesis by auto
qed

text \<open>
  The search for a substring only looks for its first character: when the text is long enough, the
  result is the first position where that character occurs, also if the rest differs.
\<close>

lemma match_loop_total:
  "i + len \<le> length buf \<Longrightarrow> len \<le> length str \<Longrightarrow> match_loop buf str i j len = Inr ()"
proof (induction "len - j" arbitrary: j)
  case 0
  then show ?case by (simp add: match_loop.simps[of buf str i j])
next
  case (Suc k)
  then show ?case by (simp add: match_loop.simps[of buf str i j])
qed

lemma find_ignores_tail:
  "find_cstr \<lparr>ks_size = 4, ks_length = 3, ks_cstring = Some [97, 98, 99, 0]\<rparr> [98, 120, 0] 0 = Inr 1"
proof -
  have "strlen [98, 120, 0] = Inr 2" using strlen_holds[OF holdsI[of "[98, 120]" "[]"]] by simp
  moreover have "find_loop [97, 98, 99, 0] [98, 120, 0] 2 1 0 = Inr 1"
    by (simp add: find_loop.simps[of _ _ _ _ 0] find_loop.simps[of _ _ _ _ "Suc 0"] byte_of_def match_loop_total)
  ultimately show ?thesis by (simp add: find_cstr_def sub32_def ks_deref_def)
qed

lemma find_last_char_one_late:
  "find_last_char \<lparr>ks_size = 4, ks_length = 3, ks_cstring = Some [97, 98, 99, 0]\<rparr> 98 npos = Inr 2"
proof -
  have "find_last_char_loop [97, 98, 99, 0] 98 (Suc (Suc (Suc 0))) = Inr 2" by (simp add: byte_of_def)
  then have "find_last_char_loop [97, 98, 99, 0] 98 3 = Inr 2" by (simp only: numeral_3_eq_3)
  moreover have "add32 (sub32 3 1) 1 = 3" by (simp add: sub32_def add32_def)
  ultimately show ?thesis by (simp add: find_last_char_def ks_deref_def del: One_nat_def find_last_char_loop.simps)
qed

end
