(* ===== verification/Ext2Dir.thy ===== *)
theory Ext2Dir
  imports Ext2Inode KString
begin

text \<open>
  Directories: entries (\<open>kernel/filesystem/DirectoryEntry.cpp\<close>) and the operations of
  \<open>kernel/filesystem/ext2/Ext2Inode.cpp\<close> that walk through a directory, search it and store it again.
  A directory may hold any bytes, so the loop over its blocks is a partial function; the last section
  shows that it ends on every inode that was loaded from the disk.
\<close>

section \<open>Directory entries\<close>

record directory_entry =
  de_id :: nat
  de_type :: u8
  de_name_length :: nat
  de_name :: "u8 list"

definition dirent_new :: "nat \<Rightarrow> u8 \<Rightarrow> kstring \<Rightarrow> directory_entry run" where
  "dirent_new ino_id ftype ent_name =
     bindR (source_bytes (ks_cstring ent_name) 0 (ks_length ent_name)) (\<lambda>bytes.
     bindR (memcpy_to (replicate 256 0) 0 bytes) (\<lambda>nm.
     bindR (put_byte nm (ks_length ent_name) 0) (\<lambda>nm'.
       Inr \<lparr>de_id = ino_id, de_type = ftype, de_name_length = ks_length ent_name, de_name = nm'\<rparr>)))"

definition entry_length :: "directory_entry \<Rightarrow> nat" where
  "entry_length e = 4 + 1 + 4 + de_name_length e"

text \<open>The fields of the \<open>ext2_directory\<close> header at a position of a block.\<close>

definition dir_size :: "u8 list \<Rightarrow> nat \<Rightarrow> nat run" where
  "dir_size buf i = bindR (memcpy_from buf (i + 4) 2) (\<lambda>bs. Inr (unat (get16 bs 0)))"

definition dir_inode :: "u8 list \<Rightarrow> nat \<Rightarrow> nat run" where
  "dir_inode buf i = bindR (memcpy_from buf i 4) (\<lambda>bs. Inr (unat (get32 bs 0)))"

definition dir_name_length :: "u8 list \<Rightarrow> nat \<Rightarrow> nat run" where
  "dir_name_length buf i = bindR (byte_of buf (i + 6)) (\<lambda>b. Inr (unat b))"

section \<open>Walking through a directory\<close>

definition entry_at :: "u8 list \<Rightarrow> nat \<Rightarrow> directory_entry run" where
  "entry_at buf i =
     bindR (dir_name_length buf i) (\<lambda>n.
     bindR (dir_inode buf i) (\<lambda>ino_id.
     bindR (byte_of buf (i + 7)) (\<lambda>ftype.
     let name_length = if n > 256 - 1 then 256 - 1 else n in
     bindR (memcpy_from buf (i + 8) name_length) (\<lambda>bytes.
     bindR (memcpy_to (replicate 256 0) 0 bytes) (\<lambda>nm.
     bindR (put_byte nm name_length 0) (\<lambda>nm'.
       Inr \<lparr>de_id = ino_id, de_type = ftype, de_name_length = name_length, de_name = nm'\<rparr>))))))"

text \<open>
  The inner loop, over the entries of one block. The callback returns whether the iteration is to stop;
  a capture of it by reference is the state \<open>s\<close>. \<open>start\<close> is the position of the block in the file. The
  index stays below the size of a buffer in memory plus \<open>2 ^ 16\<close>, so its sum does not wrap.
\<close>

function dir_loop :: "('s \<Rightarrow> directory_entry \<Rightarrow> (bool \<times> 's) run) \<Rightarrow> nat \<Rightarrow> nat \<Rightarrow> nat \<Rightarrow> u8 list \<Rightarrow> nat \<Rightarrow> 's \<Rightarrow> (bool \<times> 's) run" where
  "dir_loop callback block_size start file_size buf i s =
     (if i < block_size \<and> add32 start i < file_size then
        bindR (dir_size buf i) (\<lambda>sz.
          if sz = 0 then Inr (False, s)
          else
            bindR (dir_inode buf i) (\<lambda>ino_id.
              if ino_id = 0 then dir_loop callback block_size start file_size buf (i + sz) s
              else
                bindR (entry_at buf i) (\<lambda>result.
                bindR (callback s result) (\<lambda>(stop, s').
                  if stop then Inr (True, s')
                  else dir_loop callback block_size start file_size buf (i + sz) s'))))
      else Inr (False, s))"
  by pat_completeness auto
termination
  by (relation "measure (\<lambda>(callback, block_size, start, file_size, buf, i, s). block_size - i)") auto

declare dir_loop.simps [simp del]

text \<open>
  The outer loop. \<open>read\<close> is tested for zero only, so the loop goes on with the old buffer after an error.
\<close>

partial_function (option) iterate_blocks :: "('s \<Rightarrow> directory_entry \<Rightarrow> (bool \<times> 's) run) \<Rightarrow> 'a ext2_scheme \<Rightarrow> ext2_inode \<Rightarrow>
    nat \<Rightarrow> u8 list \<Rightarrow> 's \<Rightarrow> 's prun" where
  "iterate_blocks callback fs ino cur_no buf s =
     (case ext2_read fs ino (mul32 cur_no (fb_block_size fs)) (fb_block_size fs) buf of
        Inl e \<Rightarrow> Some (Inl e)
      | Inr (r, buf') \<Rightarrow>
          if r = Inr 0 then Some (Inr s)
          else
            (case dir_loop callback (fb_block_size fs) (mul32 cur_no (fb_block_size fs)) (im_size (in_metadata ino)) buf' 0 s of
               Inl e \<Rightarrow> Some (Inl e)
             | Inr (stop, s') \<Rightarrow> if stop then Some (Inr s') else iterate_blocks callback fs ino (add32 cur_no 1) buf' s'))"

definition iterate_entries :: "('s \<Rightarrow> directory_entry \<Rightarrow> (bool \<times> 's) run) \<Rightarrow> 'a ext2_scheme \<Rightarrow> ext2_inode \<Rightarrow> 's \<Rightarrow> 's prun" where
  "iterate_entries callback fs ino s = iterate_blocks callback fs ino 0 (stack_buf fs (fb_block_size fs)) s"

text \<open>The callback that collects all entries.\<close>

definition collect :: "directory_entry list \<Rightarrow> directory_entry \<Rightarrow> (bool \<times> directory_entry list) run" where
  "collect entries e = Inr (False, entries @ [e])"

section \<open>Searching a directory\<close>

function find_in_block :: "kstring \<Rightarrow> nat \<Rightarrow> u8 list \<Rightarrow> nat \<Rightarrow> u8 list \<Rightarrow> nat run" where
  "find_in_block find_name block_size buf i name_buf =
     (if i < block_size then
        bindR (dir_size buf i) (\<lambda>sz.
          if sz = 0 then Inr 0
          else
            bindR (dir_inode buf i) (\<lambda>ino_id.
              if ino_id = 0 then find_in_block find_name block_size buf (i + sz) name_buf
              else
                bindR (dir_name_length buf i) (\<lambda>n.
                let nl = min n 256 in
                bindR (memcpy_from buf (i + 8) nl) (\<lambda>bytes.
                bindR (memcpy_to name_buf 0 bytes) (\<lambda>name_buf1.
                bindR (put_byte name_buf1 nl 0) (\<lambda>name_buf2.
                bindR (string_eq_cstr find_name name_buf2) (\<lambda>eq.
                  if eq then Inr ino_id
                  else find_in_block find_name block_size buf (i + sz) name_buf2)))))))
      else Inr 0)"
  by pat_completeness auto
termination
  by (relation "measure (\<lambda>(find_name, block_size, buf, i, name_buf). block_size - i)") auto

declare find_in_block.simps [simp del]

partial_function (option) find_blocks :: "'a ext2_scheme \<Rightarrow> ext2_inode \<Rightarrow> kstring \<Rightarrow> nat \<Rightarrow> u8 list \<Rightarrow> nat prun" where
  "find_blocks fs ino find_name cur_no buf =
     (case ext2_read fs ino (mul32 cur_no (fb_block_size fs)) (fb_block_size fs) buf of
        Inl e \<Rightarrow> Some (Inl e)
      | Inr (r, buf') \<Rightarrow>
          if r = Inr 0 then Some (Inr 0)
          else
            (case find_in_block find_name (fb_block_size fs) buf' 0 (stack_buf fs 257) of
               Inl e \<Rightarrow> Some (Inl e)
             | Inr ret \<Rightarrow> if ret \<noteq> 0 then Some (Inr ret) else find_blocks fs ino find_name (add32 cur_no 1) buf'))"

definition find_id :: "'a ext2_scheme \<Rightarrow> ext2_inode \<Rightarrow> kstring \<Rightarrow> nat prun" where
  "find_id fs ino find_name =
     (if \<not> is_directory (in_metadata ino) then Some (Inr 0)
      else find_blocks fs ino find_name 0 (stack_buf fs (fb_block_size fs)))"

section \<open>Storing a directory\<close>

definition entry_size :: "nat \<Rightarrow> nat" where
  "entry_size name_length =
     (let n = 8 + name_length in n + (if n mod 4 \<noteq> 0 then 4 - n mod 4 else 0))"

definition directory_size :: "'a ext2_scheme \<Rightarrow> directory_entry list \<Rightarrow> nat run" where
  "directory_size fs entries =
     (let n = foldl (\<lambda>t e. add32 t (entry_size (de_name_length e))) 0 entries in
      bindR (modR n (fb_block_size fs)) (\<lambda>m.
      bindR (blocks_for fs (if m = 0 then add32 n 1 else n)) (\<lambda>k. Inr (mul32 k (fb_block_size fs)))))"

text \<open>The state of the packing loop: the file system, \<open>cur_block\<close>, \<open>cur_byte\<close> and \<open>block_buf\<close>.\<close>

definition flush :: "ext2_inode \<Rightarrow> 'a ext2_scheme \<times> nat \<times> nat \<times> u8 list \<Rightarrow> ('a ext2_scheme \<times> nat \<times> nat \<times> u8 list) run" where
  "flush ino = (\<lambda>(fs, cur_block, cur_byte, block_buf).
     bindR (fs_write_block fs (get_block_pointer ino cur_block) block_buf) (\<lambda>(res, fs1).
       Inr (fs1, cur_block + 1, 0, replicate (fb_block_size fs1) 0)))"

fun pack_entries :: "ext2_inode \<Rightarrow> directory_entry list \<Rightarrow> 'a ext2_scheme \<times> nat \<times> nat \<times> u8 list \<Rightarrow>
    ('a ext2_scheme \<times> nat \<times> nat \<times> u8 list) run" where
  "pack_entries ino [] st = Inr st"
| "pack_entries ino (ent # entries) (fs, cur_block, cur_byte, block_buf) =
     (let nl = of_nat (de_name_length ent) :: u8; sz = entry_size (unat nl);
          raw_ent = \<lparr>ed_inode = of_nat (de_id ent), ed_size = of_nat sz, ed_name_length = nl, ed_type = de_type ent\<rparr> in
      bindR (if sz + cur_byte \<ge> fb_block_size fs then flush ino (fs, cur_block, cur_byte, block_buf)
             else Inr (fs, cur_block, cur_byte, block_buf)) (\<lambda>(fs1, cur_block1, cur_byte1, buf1).
      bindR (memcpy_to buf1 cur_byte1 (ext2_directory_bytes raw_ent)) (\<lambda>buf2.
      bindR (memcpy_from (de_name ent) 0 (de_name_length ent + 1)) (\<lambda>nm.
      bindR (memcpy_to buf2 (cur_byte1 + 8) nm) (\<lambda>buf3.
        pack_entries ino entries (fs1, cur_block1, cur_byte1 + sz, buf3))))))"

text \<open>The last steps: an entry without an inode takes the rest of the last block.\<close>

definition finish_entries :: "ext2_inode \<Rightarrow> 'a ext2_scheme \<times> nat \<times> nat \<times> u8 list \<Rightarrow> 'a ext2_scheme run" where
  "finish_entries ino = (\<lambda>(fs, cur_block, cur_byte, block_buf).
     bindR (if cur_byte \<ge> fb_block_size fs then flush ino (fs, cur_block, cur_byte, block_buf)
            else Inr (fs, cur_block, cur_byte, block_buf)) (\<lambda>(fs1, cur_block1, cur_byte1, buf1).
     bindR (memcpy_to buf1 cur_byte1 (ext2_directory_bytes
       \<lparr>ed_inode = 0, ed_size = of_nat (sub32 (fb_block_size fs1) cur_byte1), ed_name_length = 0, ed_type = 0\<rparr>)) (\<lambda>buf2.
     bindR (fs_write_block fs1 (get_block_pointer ino cur_block1) buf2) (\<lambda>(res, fs2). Inr fs2))))"

definition write_directory_entries :: "'a ext2_scheme \<Rightarrow> ext2_inode \<Rightarrow> directory_entry list \<Rightarrow>
    (unit ret \<times> 'a ext2_scheme \<times> ext2_inode) run" where
  "write_directory_entries fs ino entries =
     bindR (directory_size fs entries) (\<lambda>new_filesize.
     bindR (ext2_truncate fs ino (signed32 new_filesize)) (\<lambda>(r, fs1, ino1).
       case r of
         Inl e \<Rightarrow> Inr (Inl e, fs1, ino1)
       | Inr _ \<Rightarrow>
           bindR (pack_entries ino1 entries (fs1, 0, 0, replicate (fb_block_size fs1) 0)) (\<lambda>st.
           bindR (finish_entries ino1 st) (\<lambda>fs2. Inr (Inr (), fs2, ino1)))))"

section \<open>The walk ends\<close>

text \<open>A block at which both loops stop, whatever the buffer holds.\<close>

definition stops_at :: "'a ext2_scheme \<Rightarrow> ext2_inode \<Rightarrow> nat \<Rightarrow> bool" where
  "stops_at fs ino k \<longleftrightarrow> k < 2 ^ 32 \<and> (\<forall>buf. case ext2_read fs ino (mul32 k (fb_block_size fs)) (fb_block_size fs) buf of
     Inl e \<Rightarrow> True | Inr (r, buf') \<Rightarrow> r = Inr 0)"

lemma iterate_blocks_ends:
  assumes k: "stops_at fs ino k"
  shows "b \<le> k \<Longrightarrow> \<exists>r. iterate_blocks callback fs ino b buf s = Some r"
proof (induction "k - b" arbitrary: b buf s)
  case 0
  then have "b = k" by simp
  with k show ?case by (subst iterate_blocks.simps) (auto simp: stops_at_def split: sum.splits dest: spec[of _ buf])
next
  case (Suc d)
  have "b < k" "k < 2 ^ 32" using Suc(2) k by (simp_all add: stops_at_def)
  then have "add32 b 1 = b + 1" by (intro add32_less) simp
  with Suc.hyps Suc.prems show ?case by (subst iterate_blocks.simps) (auto split: sum.splits prod.splits)
qed

lemma find_blocks_ends:
  assumes k: "stops_at fs ino k"
  shows "b \<le> k \<Longrightarrow> \<exists>r. find_blocks fs ino find_name b buf = Some r"
proof (induction "k - b" arbitrary: b buf)
  case 0
  then have "b = k" by simp
  with k show ?case by (subst find_blocks.simps) (auto simp: stops_at_def split: sum.splits dest: spec[of _ buf])
next
  case (Suc d)
  have "b < k" "k < 2 ^ 32" using Suc(2) k by (simp_all add: stops_at_def)
  then have "add32 b 1 = b + 1" by (intro add32_less) simp
  with Suc.hyps Suc.prems show ?case by (subst find_blocks.simps) (auto split: sum.splits prod.splits)
qed

text \<open>The loops that load block pointers never push more of them than the file has blocks.\<close>

definition bounded :: "nat \<Rightarrow> inode_metadata \<Rightarrow> ext2_inode \<times> nat \<Rightarrow> bool" where
  "bounded nb m st \<longleftrightarrow> length (in_block_pointers (fst st)) \<le> snd st \<and> snd st \<le> nb \<and> in_metadata (fst st) = m \<and> in_exists (fst st)"

lemma singly_loop_bounded:
  "singly_loop nb buf i st n = Inr st' \<Longrightarrow> bounded nb m st \<Longrightarrow> bounded nb m st'"
  by (induction nb buf i st n rule: singly_loop.induct) (auto simp: bounded_def bindR_def split: if_splits sum.splits)

lemma read_singly_bounded: "read_singly_indirect fs nb p st = Inr st' \<Longrightarrow> bounded nb m st \<Longrightarrow> bounded nb m st'"
  by (cases st) (auto simp: read_singly_indirect_def bindR_def bounded_def split: if_splits sum.splits
      dest!: singly_loop_bounded[where m = m])

lemma doubly_loop_bounded:
  "doubly_loop fs nb buf i st n = Inr st' \<Longrightarrow> bounded nb m st \<Longrightarrow> bounded nb m st'"
  by (induction fs nb buf i st n rule: doubly_loop.induct)
    (auto simp: bindR_def split: if_splits sum.splits dest: read_singly_bounded[where m = m])

lemma read_doubly_bounded: "read_doubly_indirect fs nb p st = Inr st' \<Longrightarrow> bounded nb m st \<Longrightarrow> bounded nb m st'"
  by (cases st) (auto simp: read_doubly_indirect_def bindR_def bounded_def split: if_splits sum.splits
      dest!: doubly_loop_bounded[where m = m])

lemma triply_loop_bounded:
  "triply_loop fs nb buf i st n = Inr st' \<Longrightarrow> bounded nb m st \<Longrightarrow> bounded nb m st'"
  by (induction fs nb buf i st n rule: triply_loop.induct)
    (auto simp: bindR_def split: if_splits sum.splits dest: read_doubly_bounded[where m = m])

lemma read_triply_bounded: "read_triply_indirect fs nb p st = Inr st' \<Longrightarrow> bounded nb m st \<Longrightarrow> bounded nb m st'"
  by (cases st) (auto simp: read_triply_indirect_def bindR_def bounded_def split: if_splits sum.splits
      dest!: triply_loop_bounded[where m = m])

lemma read_block_pointers_bounded:
  assumes "read_block_pointers fs ino = Inr ino'" "\<not> is_inline ino" "in_exists ino"
  shows "\<exists>nb. num_blocks fs ino = Inr nb \<and> length (in_block_pointers ino') \<le> nb \<and> in_metadata ino' = in_metadata ino \<and> in_exists ino'"
proof -
  obtain nb where nb: "num_blocks fs ino = Inr nb" using assms(1,2) by (cases "num_blocks fs ino") (simp_all add: read_block_pointers_def)
  let ?st = "(ino\<lparr>in_block_pointers := take (min 12 nb) (ri_block_pointers (in_raw ino)), in_pointer_blocks := []\<rparr>, min 12 nb)"
  have "bounded nb (in_metadata ino) ?st" using assms(3) by (simp add: bounded_def min_def)
  obtain st1 st2 st3 where "read_singly_indirect fs nb (ri_s_pointer (in_raw ino)) ?st = Inr st1"
      "read_doubly_indirect fs nb (ri_d_pointer (in_raw ino)) st1 = Inr st2"
      "read_triply_indirect fs nb (ri_t_pointer (in_raw ino)) st2 = Inr st3" "ino' = fst st3"
    using assms(1,2) nb by (auto simp: read_block_pointers_def bindR_def Let_def split: sum.splits)
  with \<open>bounded nb (in_metadata ino) ?st\<close> have "bounded nb (in_metadata ino) st3"
    by (blast intro: read_singly_bounded read_doubly_bounded read_triply_bounded)
  with nb \<open>ino' = fst st3\<close> show ?thesis by (auto simp: bounded_def)
qed

text \<open>What holds of an inode that was loaded from arbitrary bytes.\<close>

definition from_disk :: "'a ext2_scheme \<Rightarrow> ext2_inode \<Rightarrow> bool" where
  "from_disk fs ino \<longleftrightarrow> im_size (in_metadata ino) < 2 ^ 32 \<and> in_exists ino \<and>
     (is_device (in_metadata ino) \<or> is_inline ino \<or>
      (\<exists>nb. blocks_for fs (im_size (in_metadata ino)) = Inr nb \<and> length (in_block_pointers ino) \<le> nb))"

lemma create_metadata_size: "im_size (in_metadata (create_metadata fs ino)) < 2 ^ 32" "in_exists (create_metadata fs ino) = in_exists ino"
  using unsigned_less[of "ri_size (in_raw ino)"] by (simp_all add: create_metadata_def Let_def)

lemma inode_load_from_disk:
  assumes "inode_load fs ino_id = Inr (ino, fs1)"
  shows "from_disk fs1 ino"
proof -
  obtain ino1 where i: "im_size (in_metadata ino1) < 2 ^ 32" "in_exists ino1"
      "if is_device (in_metadata ino1) then ino = ino1 else read_block_pointers fs1 ino1 = Inr ino"
  proof -
    let ?i0 = "\<lparr>in_id = ino_id, in_metadata = initial_metadata fs, in_exists = True, in_block_pointers = [], in_pointer_blocks = [],
        in_raw = raw_inode_zero, in_dirty = False\<rparr>"
    have "\<exists>bytes. let ino1 = create_metadata fs1 (?i0\<lparr>in_raw := raw_inode_of bytes\<rparr>) in
        is_device (in_metadata ino1) \<and> ino = ino1 \<or> \<not> is_device (in_metadata ino1) \<and> read_block_pointers fs1 ino1 = Inr ino"
      using assms by (auto simp: inode_load_def bindR_eq_Inr_iff Let_def split: if_splits)
    then obtain bytes where "let ino1 = create_metadata fs1 (?i0\<lparr>in_raw := raw_inode_of bytes\<rparr>) in
        is_device (in_metadata ino1) \<and> ino = ino1 \<or> \<not> is_device (in_metadata ino1) \<and> read_block_pointers fs1 ino1 = Inr ino" ..
    let ?i1 = "create_metadata fs1 (?i0\<lparr>in_raw := raw_inode_of bytes\<rparr>)"
    have "if is_device (in_metadata ?i1) then ino = ?i1 else read_block_pointers fs1 ?i1 = Inr ino"
      using \<open>let ino1 = _ in _\<close> by (auto simp: Let_def)
    moreover have "im_size (in_metadata ?i1) < 2 ^ 32" "in_exists ?i1" by (simp_all add: create_metadata_size del: power_numeral)
    ultimately show thesis using that by blast
  qed
  show ?thesis
  proof (cases "is_device (in_metadata ino1) \<or> is_inline ino1")
    case True
    then show ?thesis using i by (auto simp: from_disk_def read_block_pointers_def is_inline_def split: if_splits)
  next
    case False
    then show ?thesis using read_block_pointers_bounded[of fs1 ino1 ino] i by (auto simp: from_disk_def num_blocks_def)
  qed
qed

lemma from_disk_stops:
  assumes d: "from_disk fs ino" and bs: "fb_block_size fs \<le> 2 ^ 31"
  shows "\<exists>k. stops_at fs ino k"
proof -
  let ?bs = "fb_block_size fs" and ?size = "im_size (in_metadata ino)"
  consider (zero) "?bs = 0 \<or> is_device (in_metadata ino)" | (fits) "0 < ?bs" "?size + ?bs \<le> 2 ^ 32"
    | (wraps) "0 < ?bs" "?size + ?bs > 2 ^ 32" "\<not> is_device (in_metadata ino)" by linarith
  then show ?thesis
  proof cases
    case zero
    then have "stops_at fs ino 0" by (auto simp: stops_at_def ext2_read_def Let_def)
    then show ?thesis ..
  next
    case fits
    let ?k = "(?size + ?bs - 1) div ?bs"
    have "?size + ?bs - 1 = ?k * ?bs + (?size + ?bs - 1) mod ?bs" by simp
    moreover have "(?size + ?bs - 1) mod ?bs < ?bs" using fits(1) by simp
    ultimately have k: "?size \<le> ?k * ?bs" "?k * ?bs < 2 ^ 32" using fits by linarith+
    have "?k \<le> ?k * ?bs" using fits(1) by simp
    then have "?k < 2 ^ 32" using k(2) by linarith
    with k have "stops_at fs ino ?k" by (simp add: stops_at_def mul32_less ext2_read_def Let_def)
    then show ?thesis ..
  next
    case wraps
    have s: "?size < 2 ^ 32" using d by (simp add: from_disk_def)
    have ni: "\<not> is_inline ino" using wraps(2) bs by (simp add: is_inline_def)
    have a: "(?size + ?bs) mod 2 ^ 32 = ?size + ?bs - 2 ^ 32" using wraps(2) s bs by (simp add: mod_if)
    have "sub32 (add32 ?size ?bs) 1 = ?size + ?bs - 2 ^ 32 - 1" unfolding add32_def a using wraps(2) s bs by (intro sub32_le) simp_all
    moreover have "?size + ?bs - 2 ^ 32 - 1 < ?bs" using s wraps(1) by simp
    ultimately have "blocks_for fs ?size = Inr 0" using wraps(1) by (simp add: blocks_for_def divR_def)
    then have "in_block_pointers ino = []" using d ni wraps(3) by (simp add: from_disk_def)
    then have "stops_at fs ino 0"
      using ni wraps d by (auto simp: from_disk_def stops_at_def ext2_read_def Let_def mul32_def divR_def get_block_pointer_def read_loop.simps)
    then show ?thesis ..
  qed
qed

lemma walk_ends:
  assumes "from_disk fs ino" "fb_block_size fs \<le> 2 ^ 31"
  shows "(\<exists>r. iterate_entries callback fs ino s = Some r) \<and> (\<exists>r. find_id fs ino find_name = Some r)"
proof -
  obtain k where "stops_at fs ino k" using from_disk_stops[OF assms] ..
  then show ?thesis using iterate_blocks_ends[of fs ino k 0] find_blocks_ends[of fs ino k 0]
    by (auto simp: iterate_entries_def find_id_def)
qed

end
