(* ===== verification/Ext2Tree.thy ===== *)
theory Ext2Tree
  imports Ext2Dir
begin

text \<open>
  Operations on several inodes: creation and release of inodes (\<open>kernel/filesystem/ext2/Ext2Filesystem.cpp\<close>), and
  the directory operations of \<open>Ext2Inode.cpp\<close> that link, create and remove entries. They reach inode objects through
  the inode cache, and two names may lead to the same object, so the objects are in a store: a handle stands
  for the \<open>Arc\<close> of the source, and the cache maps inode numbers to handles. Reference counts are not part of
  the store; the destructor is an operation of its own.
\<close>

record ext2_objects = ext2 +
  ob_inodes :: "nat \<Rightarrow> ext2_inode option"
  ob_next :: nat

definition obj_at :: "'a ext2_objects_scheme \<Rightarrow> nat \<Rightarrow> ext2_inode run" where
  "obj_at fs h = (case ob_inodes fs h of None \<Rightarrow> Inl DeadObject | Some ino \<Rightarrow> Inr ino)"

definition set_obj :: "'a ext2_objects_scheme \<Rightarrow> nat \<Rightarrow> ext2_inode \<Rightarrow> 'a ext2_objects_scheme" where
  "set_obj fs h ino = fs\<lparr>ob_inodes := (ob_inodes fs)(h := Some ino)\<rparr>"

definition new_obj :: "'a ext2_objects_scheme \<Rightarrow> ext2_inode \<Rightarrow> nat \<times> 'a ext2_objects_scheme" where
  "new_obj fs ino = (ob_next fs, fs\<lparr>ob_inodes := (ob_inodes fs)(ob_next fs := Some ino), ob_next := ob_next fs + 1\<rparr>)"

definition get_inode_rawptr :: "'a ext2_objects_scheme \<Rightarrow> nat \<Rightarrow> (nat option \<times> 'a ext2_objects_scheme) prun" where
  "get_inode_rawptr fs ino_id =
     Some (bindR (inode_load fs ino_id) (\<lambda>(ino, fs1). let (h, fs2) = new_obj fs1 ino in Inr (Some h, fs2)))"

section \<open>Creating and releasing inodes\<close>

text \<open>The constructor for a new inode; a directory starts with its two entries.\<close>

definition inode_create :: "'a ext2_objects_scheme \<Rightarrow> nat \<Rightarrow> raw_inode \<Rightarrow> u32 list \<Rightarrow> nat \<Rightarrow> (nat \<times> 'a ext2_objects_scheme) run" where
  "inode_create fs ino_id raw blocks parent =
     (let ino = create_metadata fs \<lparr>in_id = ino_id, in_metadata = initial_metadata fs, in_exists = True,
            in_block_pointers = blocks, in_pointer_blocks = [], in_raw = raw, in_dirty = False\<rparr> in
      bindR (if IS_DIR (ucast (ri_mode raw)) then
               bindR (string_of_cstr (fb_junk fs) [46, 0]) (\<lambda>dot.
               bindR (dirent_new ino_id 2 dot) (\<lambda>e1.
               bindR (string_of_cstr (fb_junk fs) [46, 46, 0]) (\<lambda>dotdot.
               bindR (dirent_new parent 2 dotdot) (\<lambda>e2.
               bindR (write_directory_entries fs ino [e1, e2]) (\<lambda>(res, fs1, ino1). Inr (fs1, ino1))))))
             else Inr (fs, ino)) (\<lambda>(fs1, ino1).
      bindR (write_to_disk fs1 ino1) (\<lambda>(res, fs2, ino2). Inr (new_obj fs2 ino2))))"

definition inode_destroy :: "'a ext2_objects_scheme \<Rightarrow> nat \<Rightarrow> 'a ext2_objects_scheme run" where
  "inode_destroy fs h =
     bindR (obj_at fs h) (\<lambda>ino.
     bindR (if in_dirty ino \<and> in_exists ino then bindR (write_to_disk fs ino) (\<lambda>(res, fs1, ino1). Inr fs1) else Inr fs) (\<lambda>fs1.
       Inr (fs1\<lparr>ob_inodes := (ob_inodes fs1)(h := None)\<rparr>)))"

text \<open>The first group that counts a free inode, and the first clear bit of its bitmap.\<close>

fun first_free_group :: "'a ext2_scheme \<Rightarrow> nat \<Rightarrow> nat \<Rightarrow> (nat option \<times> 'a ext2_scheme) run" where
  "first_free_group fs i 0 = Inr (None, fs)"
| "first_free_group fs i (Suc left) =
     bindR (get_block_group fs i) (\<lambda>(bg, fs1).
       case bg of
         None \<Rightarrow> Inl NullDeref
       | Some gi \<Rightarrow>
           bindR (group_at fs1 gi) (\<lambda>g. if bg_free_inodes g > 0 then Inr (Some i, fs1) else first_free_group fs1 (i + 1) left))"

fun find_free_inode :: "u8 list \<Rightarrow> nat \<Rightarrow> nat \<Rightarrow> nat option run" where
  "find_free_inode bitmap i 0 = Inr None"
| "find_free_inode bitmap i (Suc left) =
     bindR (get_bitmap_bit bitmap i) (\<lambda>used. if \<not> used then Inr (Some i) else find_free_inode bitmap (i + 1) left)"

text \<open>
  \<open>allocate_inode\<close>. The bitmap is read into uninitialised memory; the rollback after a failed allocation of blocks
  ignores the results of its accesses.
\<close>

definition allocate_inode :: "'a ext2_objects_scheme \<Rightarrow> u32 \<Rightarrow> nat \<Rightarrow> nat \<Rightarrow> nat \<Rightarrow> nat \<Rightarrow> (nat ret \<times> 'a ext2_objects_scheme) prun" where
  "allocate_inode fs mode uid gid sz parent =
     bindP (Some (first_free_group fs 0 (e2_num_block_groups fs))) (\<lambda>(bg, fs1).
     case bg of
       None \<Rightarrow> Some (Inr (Inl ENOSPC, fs1))
     | Some gi \<Rightarrow>
     bindP (Some (group_at fs1 gi)) (\<lambda>g.
     bindP (Some (fs_read_block fs1 (unat (bg_inode_bitmap_block g)) (stack_buf fs1 (fb_block_size fs1)))) (\<lambda>(res, inode_bitmap).
     case res of
       Inl e \<Rightarrow> Some (Inr (Inl e, fs1))
     | Inr _ \<Rightarrow>
     bindP (Some (find_free_inode inode_bitmap 0 (inodes_per_group fs1))) (\<lambda>found.
     case found of
       None \<Rightarrow>
         bindP (Some (group_write (set_group fs1 gi (g\<lparr>bg_free_inodes := 0\<rparr>)) gi)) (\<lambda>fs2. Some (Inr (Inl ENOSPC, fs2)))
     | Some i \<Rightarrow>
     bindP (Some (set_bitmap_bit inode_bitmap i True)) (\<lambda>inode_bitmap'.
     bindP (Some (fs_write_block fs1 (unat (bg_inode_bitmap_block g)) inode_bitmap')) (\<lambda>(res, fs2).
     case res of
       Inl e \<Rightarrow> Some (Inr (Inl e, fs2))
     | Inr _ \<Rightarrow>
     let g1 = g\<lparr>bg_free_inodes := bg_free_inodes g - 1,
           bg_num_directories := (if IS_DIR mode then bg_num_directories g + 1 else bg_num_directories g)\<rparr> in
     bindP (Some (group_write (set_group fs2 gi g1) gi)) (\<lambda>fs3.
     bindP (Some (blocks_for fs3 sz)) (\<lambda>num_data_blocks.
     bindP (Some (if num_data_blocks \<noteq> 0 then allocate_blocks fs3 num_data_blocks True else Inr (Inr [], fs3))) (\<lambda>(r, fs4).
     case r of
       Inl e \<Rightarrow>
         bindP (Some (fs_read_block fs4 (unat (bg_inode_bitmap_block g)) inode_bitmap')) (\<lambda>(res, bitmap1).
         bindP (Some (set_bitmap_bit bitmap1 i False)) (\<lambda>bitmap2.
         bindP (Some (fs_write_block fs4 (unat (bg_inode_bitmap_block g)) bitmap2)) (\<lambda>(res, fs5).
         bindP (Some (group_at fs5 gi)) (\<lambda>g2.
         bindP (Some (group_write (set_group fs5 gi (g2\<lparr>bg_free_inodes := bg_free_inodes g2 + 1,
             bg_num_directories := (if IS_DIR mode then bg_num_directories g2 - 1 else bg_num_directories g2)\<rparr>)) gi)) (\<lambda>fs6.
           Some (Inr (Inl e, fs6)))))))
     | Inr blocks \<Rightarrow>
     let ino_id = add32 (mul32 gi (inodes_per_group fs4)) (i + 1);
         raw = raw_inode_zero\<lparr>ri_size := of_nat sz, ri_mode := ucast mode, ri_hard_links := 1, ri_uid := of_nat uid, ri_gid := of_nat gid\<rparr> in
     bindP (Some (inode_create fs4 ino_id raw (map of_nat blocks) parent)) (\<lambda>(h, fs5).
     bindP (Some (write_superblock (fs5\<lparr>e2_superblock := (e2_superblock fs5)\<lparr>sb_free_inodes := sb_free_inodes (e2_superblock fs5) - 1\<rparr>\<rparr>))) (\<lambda>fs6.
     bindP (add_cached_inode fs6 ino_id h) (\<lambda>fs7. Some (Inr (Inr h, fs7))))))))))))))"

definition free_inode :: "'a ext2_objects_scheme \<Rightarrow> nat \<Rightarrow> (unit ret \<times> 'a ext2_objects_scheme) run" where
  "free_inode fs h =
     bindR (obj_at fs h) (\<lambda>ino.
     bindR (in_block_group fs ino) (\<lambda>bgi.
     bindR (get_block_group fs bgi) (\<lambda>(bg, fs1).
     case bg of
       None \<Rightarrow> Inl NullDeref
     | Some gi \<Rightarrow>
     bindR (group_at fs1 gi) (\<lambda>g.
     bindR (fs_read_block fs1 (unat (bg_inode_bitmap_block g)) (stack_buf fs1 (fb_block_size fs1))) (\<lambda>(res, block_buf).
     case res of
       Inl e \<Rightarrow> Inr (Inl e, fs1)
     | Inr _ \<Rightarrow>
     bindR (in_index fs1 ino) (\<lambda>idx.
     bindR (set_bitmap_bit block_buf idx False) (\<lambda>block_buf1.
     bindR (fs_write_block fs1 (unat (bg_inode_bitmap_block g)) block_buf1) (\<lambda>(res, fs2).
     case res of
       Inl e \<Rightarrow> Inr (Inl e, fs2)
     | Inr _ \<Rightarrow>
     bindR (free_all_blocks fs2 ino) (\<lambda>fs3.
     bindR (group_at fs3 gi) (\<lambda>g1.
     bindR (group_write (set_group fs3 gi (g1\<lparr>bg_free_inodes := bg_free_inodes g1 + 1,
         bg_num_directories := (if is_directory (in_metadata ino) then bg_num_directories g1 - 1 else bg_num_directories g1)\<rparr>)) gi) (\<lambda>fs4.
     bindR (in_block fs4 ino) (\<lambda>b.
     bindR (modR idx (e2_inodes_per_block fs4)) (\<lambda>k.
     bindR (fs_read_block fs4 (add32 (unat (bg_inode_table_block g1)) b) block_buf1) (\<lambda>(res, block_buf2).
     bindR (memcpy_to block_buf2 (k * 128 + 20) (le32 0x42069)) (\<lambda>block_buf3.
     bindR (fs_write_block fs4 (add32 (unat (bg_inode_table_block g1)) b) block_buf3) (\<lambda>(res, fs5).
     bindR (write_superblock (fs5\<lparr>e2_superblock := (e2_superblock fs5)\<lparr>sb_free_inodes := sb_free_inodes (e2_superblock fs5) + 1\<rparr>\<rparr>)) (\<lambda>fs6.
       Inr (Inr (), set_obj fs6 h (ino\<lparr>in_exists := False\<rparr>)))))))))))))))))))"

section \<open>Link counts\<close>

definition increase_hardlink_count :: "'a ext2_objects_scheme \<Rightarrow> nat \<Rightarrow> 'a ext2_objects_scheme run" where
  "increase_hardlink_count fs h =
     bindR (obj_at fs h) (\<lambda>ino.
     bindR (write_inode_entry fs (ino\<lparr>in_raw := (in_raw ino)\<lparr>ri_hard_links := ri_hard_links (in_raw ino) + 1\<rparr>\<rparr>)) (\<lambda>(fs1, ino1).
       Inr (set_obj fs1 h ino1)))"

definition reduce_hardlink_count :: "'a ext2_objects_scheme \<Rightarrow> nat \<Rightarrow> 'a ext2_objects_scheme prun" where
  "reduce_hardlink_count fs h =
     bindP (Some (obj_at fs h)) (\<lambda>ino.
     bindP (Some (write_inode_entry fs (ino\<lparr>in_raw := (in_raw ino)\<lparr>ri_hard_links := ri_hard_links (in_raw ino) - 1\<rparr>\<rparr>))) (\<lambda>(fs1, ino1).
     let fs2 = set_obj fs1 h ino1 in
     if ri_hard_links (in_raw ino1) = 0 then
       bindP (remove_cached_inode fs2 (in_id ino1)) (\<lambda>fs3. bindP (Some (free_inode fs3 h)) (\<lambda>(res, fs4). Some (Inr fs4)))
     else Some (Inr fs2)))"

section \<open>Entries\<close>

definition file_type :: "inode_metadata \<Rightarrow> u8" where
  "file_type m = (if is_simple_file m then 1 else if is_directory m then 2 else if is_symlink m then 7
     else if is_block_device m then 4 else if is_character_device m then 3 else 0)"

text \<open>
  \<open>add_entry\<close>. The callback copies the entries and stops at one with the name; the child is another inode of
  the same file system, so the assertion on the file system numbers holds.
\<close>

definition add_entry :: "'a ext2_objects_scheme \<Rightarrow> nat \<Rightarrow> kstring \<Rightarrow> nat \<Rightarrow> (unit ret \<times> 'a ext2_objects_scheme) prun" where
  "add_entry fs h name child =
     bindP (Some (obj_at fs h)) (\<lambda>self.
     if \<not> is_directory (in_metadata self) then Some (Inr (Inl ENOTDIR, fs))
     else if ks_length name = 0 \<or> ks_length name > 256 then Some (Inr (Inl ENAMETOOLONG, fs))
     else
     bindP (iterate_entries (\<lambda>(entries, exist) dirent.
         bindR (string_eq_cstr name (de_name dirent)) (\<lambda>eq.
           if eq then Inr (True, entries @ [dirent], True) else Inr (False, entries @ [dirent], exist))) fs self ([], False)) (\<lambda>(entries, exist).
     if exist then Some (Inr (Inl EEXIST, fs))
     else
     bindP (Some (obj_at fs child)) (\<lambda>ch.
     bindP (Some (increase_hardlink_count fs child)) (\<lambda>fs1.
     bindP (Some (dirent_new (in_id ch) (file_type (in_metadata ch)) name)) (\<lambda>e.
     bindP (Some (obj_at fs1 h)) (\<lambda>self1.
     bindP (Some (write_directory_entries fs1 self1 (entries @ [e]))) (\<lambda>(res, fs2, self2).
     case res of
       Inl err \<Rightarrow> Some (Inr (Inl err, set_obj fs2 h self2))
     | Inr _ \<Rightarrow>
         if in_dirty self2 then
           bindP (Some (write_to_disk fs2 self2)) (\<lambda>(r, fs3, self3). Some (Inr (r, set_obj fs3 h self3)))
         else Some (Inr (Inr (), set_obj fs2 h self2)))))))))"

definition create_entry :: "'a ext2_objects_scheme \<Rightarrow> nat \<Rightarrow> kstring \<Rightarrow> u32 \<Rightarrow> nat \<Rightarrow> nat \<Rightarrow> (nat ret \<times> 'a ext2_objects_scheme) prun" where
  "create_entry fs h name mode uid gid =
     (if ks_length name = 0 \<or> ks_length name > 256 then Some (Inr (Inl ENAMETOOLONG, fs))
      else
      bindP (Some (obj_at fs h)) (\<lambda>self.
      bindP (allocate_inode fs mode uid gid 0 (in_id self)) (\<lambda>(r, fs1).
      case r of
        Inl e \<Rightarrow> Some (Inr (Inl e, fs1))
      | Inr child \<Rightarrow>
          bindP (Some (if IS_DIR mode then increase_hardlink_count fs1 h else Inr fs1)) (\<lambda>fs2.
          bindP (add_entry fs2 h name child) (\<lambda>(res, fs3).
          case res of
            Inl e \<Rightarrow> bindP (Some (free_inode fs3 child)) (\<lambda>(res, fs4). Some (Inr (Inl e, fs4)))
          | Inr _ \<Rightarrow> Some (Inr (Inr child, fs3)))))))"

text \<open>The loop of \<open>try_remove_dir\<close> over the entries that do not name the directory itself.\<close>

fun drop_parents :: "'a ext2_objects_scheme \<Rightarrow> nat \<Rightarrow> directory_entry list \<Rightarrow> (unit ret \<times> 'a ext2_objects_scheme) prun" where
  "drop_parents fs self_id [] = Some (Inr (Inr (), fs))"
| "drop_parents fs self_id (ent # entries) =
     (if de_id ent \<noteq> self_id then
        bindP (get_inode get_inode_rawptr fs (de_id ent)) (\<lambda>(r, fs1).
        case r of
          Inl e \<Rightarrow> Some (Inr (Inl e, fs1))
        | Inr p \<Rightarrow> bindP (reduce_hardlink_count fs1 p) (\<lambda>fs2. drop_parents fs2 self_id entries))
      else drop_parents fs self_id entries)"

definition try_remove_dir :: "'a ext2_objects_scheme \<Rightarrow> nat \<Rightarrow> (unit ret \<times> 'a ext2_objects_scheme) prun" where
  "try_remove_dir fs h =
     bindP (Some (obj_at fs h)) (\<lambda>self.
     if \<not> is_directory (in_metadata self) then Some (Inr (Inl ENOTDIR, fs))
     else
     bindP (iterate_entries collect fs self []) (\<lambda>entries.
     if length entries > 2 then Some (Inr (Inl ENOTEMPTY, fs))
     else
     bindP (drop_parents fs (in_id self) entries) (\<lambda>(r, fs1).
     case r of
       Inl e \<Rightarrow> Some (Inr (Inl e, fs1))
     | Inr _ \<Rightarrow>
         bindP (Some (obj_at fs1 h)) (\<lambda>self1.
         bindP (Some (write_inode_entry fs1 (self1\<lparr>in_raw := (in_raw self1)\<lparr>ri_hard_links := 0\<rparr>\<rparr>))) (\<lambda>(fs2, self2).
         bindP (remove_cached_inode (set_obj fs2 h self2) (in_id self2)) (\<lambda>fs3.
         bindP (Some (free_inode fs3 h)) (\<lambda>(res, fs4). Some (Inr (Inr (), fs4)))))))))"

definition remove_entry :: "'a ext2_objects_scheme \<Rightarrow> nat \<Rightarrow> kstring \<Rightarrow> (unit ret \<times> 'a ext2_objects_scheme) prun" where
  "remove_entry fs h name =
     bindP (Some (obj_at fs h)) (\<lambda>self.
     if \<not> is_directory (in_metadata self) then Some (Inr (Inl ENOTDIR, fs))
     else if ks_length name = 0 \<or> ks_length name > 256 then Some (Inr (Inl ENAMETOOLONG, fs))
     else
     bindP (iterate_entries (\<lambda>(entries, entry_index) dirent.
         bindR (string_eq_cstr name (de_name dirent)) (\<lambda>eq.
           Inr (False, entries @ [dirent], if eq then Some (length entries) else entry_index))) fs self ([], None)) (\<lambda>(entries, entry_index).
     case entry_index of
       None \<Rightarrow> Some (Inr (Inl ENOENT, fs))
     | Some k \<Rightarrow>
     bindP (get_inode get_inode_rawptr fs (de_id (entries ! k))) (\<lambda>(r, fs1).
     case r of
       Inl e \<Rightarrow> Some (Inr (Inl e, fs1))
     | Inr child \<Rightarrow>
     bindP (Some (obj_at fs1 child)) (\<lambda>ch.
     bindP (if is_directory (in_metadata ch) then try_remove_dir fs1 child
            else bindP (reduce_hardlink_count fs1 child) (\<lambda>fs2. Some (Inr (Inr (), fs2)))) (\<lambda>(r, fs2).
     case r of
       Inl e \<Rightarrow> Some (Inr (Inl e, fs2))
     | Inr _ \<Rightarrow>
     bindP (Some (obj_at fs2 h)) (\<lambda>self1.
     bindP (Some (write_directory_entries fs2 self1 (take k entries @ drop (k + 1) entries))) (\<lambda>(res, fs3, self2).
     case res of
       Inl err \<Rightarrow> Some (Inr (Inl err, set_obj fs3 h self2))
     | Inr _ \<Rightarrow>
         if in_dirty self2 then
           bindP (Some (write_to_disk fs3 self2)) (\<lambda>(r, fs4, self3). Some (Inr (r, set_obj fs4 h self3)))
         else Some (Inr (Inr (), set_obj fs3 h self2)))))))))"

end
