(* ===== verification/Ext2AllocSpec.thy ===== *)
theory Ext2AllocSpec
  imports Ext2Alloc
begin

text \<open>
  What the block allocator promises. On a healthy file system with 1 KiB blocks the bitmaps on disk,
  the counters of the groups, the loaded groups and the superblock always agree; an allocation takes
  exactly the requested number of distinct free blocks, or leaves the set of free blocks as it was.
\<close>

section \<open>Geometry\<close>

text \<open>The block of the descriptor table that holds the descriptor of a group.\<close>

definition gdt_block :: "nat \<Rightarrow> nat" where
  "gdt_block gi = 2 + gi div 32"

definition desc_at :: "'a ext2_scheme \<Rightarrow> nat \<Rightarrow> group_desc" where
  "desc_at fs i = group_desc_of (chunk 32 (block_at fs (gdt_block i)) (i mod 32))"

lemma desc_at_cong: "block_at fs (gdt_block j) = block_at fs' (gdt_block j) \<Longrightarrow> desc_at fs j = desc_at fs' j"
  by (simp add: desc_at_def)

abbreviation block_bitmap_of :: "'a ext2_scheme \<Rightarrow> nat \<Rightarrow> nat" where
  "block_bitmap_of fs i \<equiv> unat (gd_block_usage_bitmap (desc_at fs i))"

abbreviation inode_bitmap_of :: "'a ext2_scheme \<Rightarrow> nat \<Rightarrow> nat" where
  "inode_bitmap_of fs i \<equiv> unat (gd_inode_usage_bitmap (desc_at fs i))"

abbreviation inode_table_of :: "'a ext2_scheme \<Rightarrow> nat \<Rightarrow> nat" where
  "inode_table_of fs i \<equiv> unat (gd_inode_table (desc_at fs i))"

definition group_meta :: "'a ext2_scheme \<Rightarrow> nat \<Rightarrow> nat list" where
  "group_meta fs i = block_bitmap_of fs i # inode_bitmap_of fs i #
     [inode_table_of fs i..<inode_table_of fs i + e2_blocks_per_inode_table fs]"

definition meta_list :: "'a ext2_scheme \<Rightarrow> nat list" where
  "meta_list fs = 1 # [2..<2 + (e2_num_block_groups fs + 31) div 32] @
     concat (map (group_meta fs) [0..<e2_num_block_groups fs])"

definition bit_used :: "'a ext2_scheme \<Rightarrow> nat \<Rightarrow> nat \<Rightarrow> bool" where
  "bit_used fs i k = bitmap_bit (block_at fs (block_bitmap_of fs i)) k"

definition block_no :: "'a ext2_scheme \<Rightarrow> nat \<Rightarrow> nat \<Rightarrow> nat" where
  "block_no fs i k = 1 + i * blocks_per_group fs + k"

definition clear_bits :: "nat \<Rightarrow> u8 list \<Rightarrow> nat list" where
  "clear_bits bpg bitmap = filter (\<lambda>k. \<not> bitmap_bit bitmap k) [0..<bpg]"

definition free_in :: "'a ext2_scheme \<Rightarrow> nat \<Rightarrow> nat list" where
  "free_in fs i = clear_bits (blocks_per_group fs) (block_at fs (block_bitmap_of fs i))"

definition free_list :: "'a ext2_scheme \<Rightarrow> nat list" where
  "free_list fs = concat (map (\<lambda>i. map (block_no fs i) (free_in fs i)) [0..<e2_num_block_groups fs])"

text \<open>Everything but the contents of the file, the loaded groups and the two free counters.\<close>

definition same_shape :: "'a ext2_scheme \<Rightarrow> 'a ext2_scheme \<Rightarrow> bool" where
  "same_shape fs fs' \<longleftrightarrow>
     fb_block_size fs' = fb_block_size fs \<and> fb_junk fs' = fb_junk fs \<and> fb_inode_cache fs' = fb_inode_cache fs \<and>
     (e2_superblock fs')\<lparr>sb_free_blocks := 0, sb_free_inodes := 0\<rparr> =
       (e2_superblock fs)\<lparr>sb_free_blocks := 0, sb_free_inodes := 0\<rparr> \<and>
     e2_block_group_descriptor_table fs' = e2_block_group_descriptor_table fs \<and>
     e2_blocks_per_inode_table fs' = e2_blocks_per_inode_table fs \<and>
     e2_sectors_per_inode_table fs' = e2_sectors_per_inode_table fs \<and>
     e2_sectors_per_block fs' = e2_sectors_per_block fs \<and> e2_num_block_groups fs' = e2_num_block_groups fs \<and>
     e2_inodes_per_block fs' = e2_inodes_per_block fs \<and>
     e2_block_pointers_per_block fs' = e2_block_pointers_per_block fs \<and> ext2.more fs' = ext2.more fs"

lemma same_shape_refl [simp]: "same_shape fs fs"
  by (simp add: same_shape_def)

lemma same_shape_trans: "same_shape a b \<Longrightarrow> same_shape b c \<Longrightarrow> same_shape a c"
  by (simp add: same_shape_def)

lemma same_shape_put_block [simp]: "same_shape fs fs' \<Longrightarrow> same_shape fs (put_block fs' b bytes)"
  by (simp add: same_shape_def put_block_def)

lemma same_shape_set_group [simp]: "same_shape fs fs' \<Longrightarrow> same_shape fs (set_group fs' gi g)"
  by (simp add: same_shape_def set_group_def)

lemma same_shape_free_blocks [simp]:
  "same_shape fs fs' \<Longrightarrow> same_shape fs (fs'\<lparr>e2_superblock := (e2_superblock fs')\<lparr>sb_free_blocks := v\<rparr>\<rparr>)"
  by (simp add: same_shape_def)

lemma same_shapeD:
  assumes "same_shape fs fs'"
  shows "fb_block_size fs' = fb_block_size fs" "fb_junk fs' = fb_junk fs" "fb_inode_cache fs' = fb_inode_cache fs"
    "e2_blocks_per_inode_table fs' = e2_blocks_per_inode_table fs" "e2_num_block_groups fs' = e2_num_block_groups fs"
    "e2_inodes_per_block fs' = e2_inodes_per_block fs" "e2_block_pointers_per_block fs' = e2_block_pointers_per_block fs"
    "sb_blocks_per_group (e2_superblock fs') = sb_blocks_per_group (e2_superblock fs)"
    "sb_inodes_per_group (e2_superblock fs') = sb_inodes_per_group (e2_superblock fs)"
    "sb_inode_size (e2_superblock fs') = sb_inode_size (e2_superblock fs)"
    "superblock_ok (e2_superblock fs') = superblock_ok (e2_superblock fs)" "ext2.more fs' = ext2.more fs"
proof -
  from assms have eq: "(e2_superblock fs')\<lparr>sb_free_blocks := 0, sb_free_inodes := 0\<rparr> =
       (e2_superblock fs)\<lparr>sb_free_blocks := 0, sb_free_inodes := 0\<rparr>" by (simp add: same_shape_def)
  show "sb_blocks_per_group (e2_superblock fs') = sb_blocks_per_group (e2_superblock fs)"
    using arg_cong[OF eq, of sb_blocks_per_group] by simp
  show "sb_inodes_per_group (e2_superblock fs') = sb_inodes_per_group (e2_superblock fs)"
    using arg_cong[OF eq, of sb_inodes_per_group] by simp
  show "sb_inode_size (e2_superblock fs') = sb_inode_size (e2_superblock fs)"
    using arg_cong[OF eq, of sb_inode_size] by simp
  show "superblock_ok (e2_superblock fs') = superblock_ok (e2_superblock fs)"
    using arg_cong[OF eq, of superblock_ok] by (simp add: superblock_ok_def)
qed (use assms in \<open>simp_all add: same_shape_def\<close>)

lemma put_block_ext2 [simp]:
  "e2_superblock (put_block fs b x) = e2_superblock fs" "e2_block_groups (put_block fs b x) = e2_block_groups fs"
  "e2_num_block_groups (put_block fs b x) = e2_num_block_groups fs"
  "e2_blocks_per_inode_table (put_block fs b x) = e2_blocks_per_inode_table fs"
  "e2_inodes_per_block (put_block fs b x) = e2_inodes_per_block fs"
  "e2_block_pointers_per_block (put_block fs b x) = e2_block_pointers_per_block fs"
  "group_at (put_block fs b x) = group_at fs" "stack_buf (put_block fs b x) = stack_buf fs"
  by (simp_all add: put_block_def group_at_def stack_buf_def fun_eq_iff)

section \<open>Consistency\<close>

definition ext2_ok :: "nat \<Rightarrow> 'a ext2_scheme \<Rightarrow> bool" where
  "ext2_ok n fs \<longleftrightarrow>
     store_ok n fs \<and> fb_block_size fs = 1024 \<and> superblock_ok (e2_superblock fs) \<and>
     0 < blocks_per_group fs \<and> blocks_per_group fs \<le> 8192 \<and>
     length (e2_block_groups fs) = e2_num_block_groups fs \<and> 0 < e2_num_block_groups fs \<and>
     e2_num_block_groups fs * blocks_per_group fs < n + blocks_per_group fs \<and>
     distinct (meta_list fs) \<and> (\<forall>b \<in> set (meta_list fs). b < n) \<and>
     (\<forall>b \<in> set (free_list fs). b < n \<and> b \<notin> set (meta_list fs)) \<and>
     (\<forall>i < e2_num_block_groups fs. unat (gd_free_blocks (desc_at fs i)) = length (free_in fs i)) \<and>
     unat (sb_free_blocks (e2_superblock fs)) = length (free_list fs) \<and>
     (\<forall>i < e2_num_block_groups fs. case e2_block_groups fs ! i of
        None \<Rightarrow> True | Some g \<Rightarrow> g = block_group_of i (desc_at fs i))"

lemma ext2_okD:
  assumes "ext2_ok n fs"
  shows "store_ok n fs" "fb_block_size fs = 1024" "superblock_ok (e2_superblock fs)"
    "0 < blocks_per_group fs" "blocks_per_group fs \<le> 8192"
    "length (e2_block_groups fs) = e2_num_block_groups fs" "0 < e2_num_block_groups fs"
    "e2_num_block_groups fs * blocks_per_group fs < n + blocks_per_group fs"
    "distinct (meta_list fs)" "\<And>b. b \<in> set (meta_list fs) \<Longrightarrow> b < n"
    "\<And>b. b \<in> set (free_list fs) \<Longrightarrow> b < n \<and> b \<notin> set (meta_list fs)"
    "\<And>i. i < e2_num_block_groups fs \<Longrightarrow> unat (gd_free_blocks (desc_at fs i)) = length (free_in fs i)"
    "unat (sb_free_blocks (e2_superblock fs)) = length (free_list fs)"
    "\<And>i g. i < e2_num_block_groups fs \<Longrightarrow> e2_block_groups fs ! i = Some g \<Longrightarrow> g = block_group_of i (desc_at fs i)"
  using assms by (fastforce simp: ext2_ok_def split: option.splits)+

lemma group_meta_in: "i < e2_num_block_groups fs \<Longrightarrow> x \<in> set (group_meta fs i) \<Longrightarrow> x \<in> set (meta_list fs)"
  by (auto simp: meta_list_def)

lemma in_meta:
  assumes "i < e2_num_block_groups fs"
  shows "1 \<in> set (meta_list fs)" "gdt_block i \<in> set (meta_list fs)" "block_bitmap_of fs i \<in> set (meta_list fs)"
    "inode_bitmap_of fs i \<in> set (meta_list fs)"
    "t < e2_blocks_per_inode_table fs \<Longrightarrow> inode_table_of fs i + t \<in> set (meta_list fs)"
proof -
  have "i div 32 < (e2_num_block_groups fs + 31) div 32" using assms by linarith
  then show "1 \<in> set (meta_list fs)" "gdt_block i \<in> set (meta_list fs)"
    by (simp_all add: meta_list_def gdt_block_def del: upt_Suc add_2_eq_Suc)
  show "block_bitmap_of fs i \<in> set (meta_list fs)" "inode_bitmap_of fs i \<in> set (meta_list fs)"
    by (rule group_meta_in[OF assms], simp add: group_meta_def)+
  show "t < e2_blocks_per_inode_table fs \<Longrightarrow> inode_table_of fs i + t \<in> set (meta_list fs)"
    by (rule group_meta_in[OF assms]) (simp add: group_meta_def)
qed

lemma distinct_concat_map_upt:
  assumes "distinct (concat (map f [0..<n]))"
  shows "i < n \<Longrightarrow> distinct (f i)" "i < n \<Longrightarrow> j < n \<Longrightarrow> i \<noteq> j \<Longrightarrow> set (f i) \<inter> set (f j) = {}"
proof -
  assume i: "i < n"
  have "[0..<n] = [0..<i] @ i # [Suc i..<n]"
    using i by (metis le0 less_imp_le upt_conv_Cons upt_add_eq_append le_add_diff_inverse)
  then have c: "concat (map f [0..<n]) = concat (map f [0..<i]) @ f i @ concat (map f [Suc i..<n])" by simp
  from assms show "distinct (f i)" unfolding c by simp
  assume j: "j < n" "i \<noteq> j"
  then have "j \<in> set [0..<i] \<or> j \<in> set [Suc i..<n]" by auto
  then have "set (f j) \<subseteq> set (concat (map f [0..<i])) \<union> set (concat (map f [Suc i..<n]))" by auto
  moreover have "set (f i) \<inter> (set (concat (map f [0..<i])) \<union> set (concat (map f [Suc i..<n]))) = {}"
    using assms unfolding c distinct_append set_append by blast
  ultimately show "set (f i) \<inter> set (f j) = {}" by blast
qed

text \<open>No two of the metadata blocks coincide.\<close>

lemma meta_apart:
  assumes ok: "ext2_ok n fs" and i: "i < e2_num_block_groups fs" and x: "x \<in> set (group_meta fs i)"
  shows "x \<noteq> 1" "j < e2_num_block_groups fs \<Longrightarrow> x \<noteq> gdt_block j" "distinct (group_meta fs i)"
    "j < e2_num_block_groups fs \<Longrightarrow> i \<noteq> j \<Longrightarrow> x \<notin> set (group_meta fs j)"
proof -
  note d = ext2_okD(9)[OF ok, unfolded meta_list_def]
  have c: "distinct (concat (map (group_meta fs) [0..<e2_num_block_groups fs]))" using d by simp
  have xc: "x \<in> set (concat (map (group_meta fs) [0..<e2_num_block_groups fs]))" using i x by auto
  show "x \<noteq> 1" using d xc by auto
  show "distinct (group_meta fs i)" by (rule distinct_concat_map_upt(1)[OF c i])
  assume j: "j < e2_num_block_groups fs"
  then have "gdt_block j \<in> set [2..<2 + (e2_num_block_groups fs + 31) div 32]"
    unfolding gdt_block_def set_upt by (simp only: atLeastLessThan_iff) linarith
  with d xc show "x \<noteq> gdt_block j" by (auto simp del: set_upt)
  show "i \<noteq> j \<Longrightarrow> x \<notin> set (group_meta fs j)" using distinct_concat_map_upt(2)[OF c i j] x by blast
qed

lemma block_bitmap_in [simp]: "block_bitmap_of fs i \<in> set (group_meta fs i)" "inode_bitmap_of fs i \<in> set (group_meta fs i)"
  by (simp_all add: group_meta_def)

text \<open>Blocks of different groups are different.\<close>

lemma block_no_inj:
  assumes "block_no fs i k = block_no fs j l" "k < blocks_per_group fs" "l < blocks_per_group fs"
  shows "i = j" "k = l"
proof -
  let ?b = "blocks_per_group fs"
  have eq: "k + i * ?b = l + j * ?b" using assms(1) by (simp add: block_no_def)
  have "i = (k + i * ?b) div ?b" "j = (l + j * ?b) div ?b" using assms(2,3) by auto
  with eq show "i = j" by simp
  with eq show "k = l" by simp
qed

lemma set_clear_bits [simp]: "set (clear_bits bpg bitmap) = {k. k < bpg \<and> \<not> bitmap_bit bitmap k}"
  by (auto simp: clear_bits_def)

lemma distinct_clear_bits [simp]: "distinct (clear_bits bpg bitmap)"
  by (simp add: clear_bits_def)

lemma set_free_list:
  "set (free_list fs) =
     {block_no fs i k | i k. i < e2_num_block_groups fs \<and> k < blocks_per_group fs \<and> \<not> bit_used fs i k}"
  by (auto simp: free_list_def free_in_def bit_used_def) blast

lemma distinct_free_list: "distinct (free_list fs)"
proof -
  have inj: "inj_on (block_no fs i) (set (free_in fs i))" for i by (auto simp: inj_on_def block_no_def)
  have "distinct (concat (map (\<lambda>i. map (block_no fs i) (free_in fs i)) [0..<m]))" for m
  proof (induction m)
    case (Suc m)
    have "set (map (block_no fs m) (free_in fs m)) \<inter>
        set (concat (map (\<lambda>i. map (block_no fs i) (free_in fs i)) [0..<m])) = {}"
      using block_no_inj(1)[of fs] by (auto simp: free_in_def) (metis less_irrefl)
    with Suc inj show ?case by (auto simp: distinct_map free_in_def)
  qed simp
  then show ?thesis by (simp add: free_list_def)
qed

section \<open>Writing metadata\<close>

lemma write_superblock_ok:
  assumes st: "store_ok n fs" "fb_block_size fs = 1024" "superblock_ok (e2_superblock fs)" "1 < n"
  shows "write_superblock fs = Inr (put_block fs 1 (superblock_bytes (e2_superblock fs) @ drop 512 (block_at fs 1)))"
proof -
  let ?L = "bf_bytes (fb_file fs)" and ?sb = "superblock_bytes (e2_superblock fs)"
  have len: "length ?L = n * 1024" using st(1,2) by (simp add: store_ok_def)
  have "patch ?L 1024 ?sb = patch ?L (1 * 1024) (?sb @ drop 512 (take 1024 (drop 1024 ?L)))"
    using st(3,4) len append_take_drop_id[of 512 "drop 1536 ?L"] by (simp add: patch_def drop_take)
  moreover have "mul32 1 512 = 512" "mul32 2 512 = 1024" by (simp_all add: mul32_def)
  ultimately show ?thesis using st len
    by (simp add: write_superblock_def write_logical_block_def write_logical_blocks_def file_write_def store_ok_def
        put_block_def block_at_def chunk_def)
qed

lemma desc_block:
  assumes "store_ok n fs" "fb_block_size fs = 1024" "gdt_block gi < n"
  shows "divR (mul32 gi 32) (fb_block_size fs) = Inr (gi div 32)" "add32 2 (gi div 32) = gdt_block gi"
    "modR gi (fb_block_size fs div 32) = Inr (gi mod 32)" "gi mod 32 * 32 + 32 \<le> 1024"
proof -
  have n: "n * 1024 < 2 ^ 32" using assms(1,2) by (simp add: store_ok_def)
  have "gi < n * 32" using assms(3) unfolding gdt_block_def by linarith
  then have "gi * 32 < 2 ^ 32" using n by linarith
  then have "mul32 gi 32 = gi * 32" by (rule mul32_less)
  then show "divR (mul32 gi 32) (fb_block_size fs) = Inr (gi div 32)" using assms(2) by simp
  show "add32 2 (gi div 32) = gdt_block gi" using assms(3) n unfolding gdt_block_def by (intro add32_less) linarith
  show "modR gi (fb_block_size fs div 32) = Inr (gi mod 32)" using assms(2) by simp
  have "gi mod 32 < 32" by simp
  then show "gi mod 32 * 32 + 32 \<le> 1024" by linarith
qed

definition put_desc :: "'a ext2_scheme \<Rightarrow> nat \<Rightarrow> group_desc \<Rightarrow> 'a ext2_scheme" where
  "put_desc fs gi d = put_block fs (gdt_block gi) (patch (block_at fs (gdt_block gi)) (gi mod 32 * 32) (group_desc_bytes d))"

lemma group_write_ok:
  assumes st: "store_ok n fs" "fb_block_size fs = 1024" "gdt_block gi < n" and g: "group_at fs gi = Inr g" "bg_num g = gi"
  shows "group_write fs gi = Inr (put_desc fs gi (group_desc_for (stack_buf fs 14) g))"
proof -
  note b = desc_block[OF st]
  have len: "length (block_at fs (gdt_block gi)) = 1024" using st by simp
  have d: "length (group_desc_bytes (group_desc_for (stack_buf fs 14) g)) = 32"
    by (simp add: group_desc_for_def stack_buf_def)
  have r: "fs_read_block fs (gdt_block gi) (stack_buf fs (fb_block_size fs)) = Inr (Inr (), block_at fs (gdt_block gi))"
    by (rule fs_read_block_ok[OF st(1,3)]) (simp add: stack_buf_def)
  have w: "fs_write_block fs (gdt_block gi) buf = Inr (Inr (), put_block fs (gdt_block gi) buf)" if "length buf = 1024" for buf
    using fs_write_block_ok[OF st(1,3)] st(2) that by simp
  show ?thesis
    using g b(4) len d by (simp add: group_write_def write_block_group_raw_def b(1-3) r w put_desc_def)
qed

lemma desc_at_put_desc:
  assumes st: "store_ok n fs" "fb_block_size fs = 1024" "gdt_block gi < n" "gdt_block j < n" and d: "length (gd_unused d) = 14"
  shows "desc_at (put_desc fs gi d) j = (if j = gi then d else desc_at fs j)"
proof -
  have len: "length (block_at fs (gdt_block gi)) = 1024" "length (group_desc_bytes d) = 32" using st d by simp_all
  have b: "gi mod 32 * 32 + 32 \<le> 1024" "j mod 32 * 32 + 32 \<le> 1024"
    using desc_block(4)[OF st(1,2,3)] desc_block(4)[OF st(1,2,4)] by simp_all
  let ?new = "patch (block_at fs (gdt_block gi)) (gi mod 32 * 32) (group_desc_bytes d)"
  have at: "block_at (put_desc fs gi d) (gdt_block j) = (if j div 32 = gi div 32 then ?new else block_at fs (gdt_block j))"
    unfolding put_desc_def using block_at_put_block[OF st(1,3,4), of ?new] len b st(2) by (simp add: gdt_block_def)
  show ?thesis
  proof (cases "j = gi")
    case True
    with at len b d show ?thesis by (simp add: desc_at_def chunk_patch_same group_desc_of_bytes)
  next
    case False
    have other: "chunk 32 ?new (j mod 32) = chunk 32 (block_at fs (gdt_block gi)) (j mod 32)" if "j mod 32 \<noteq> gi mod 32"
    proof (rule chunk_patch_other)
      have "j mod 32 + 1 \<le> gi mod 32 \<or> gi mod 32 + 1 \<le> j mod 32" using that by linarith
      then show "Suc (j mod 32) * 32 \<le> gi mod 32 * 32 \<or> gi mod 32 * 32 + length (group_desc_bytes d) \<le> j mod 32 * 32"
        unfolding len using mult_le_mono1[of "j mod 32 + 1" "gi mod 32" 32] mult_le_mono1[of "gi mod 32 + 1" "j mod 32" 32]
        by auto
    qed (use len b in simp_all)
    have "chunk 32 (block_at (put_desc fs gi d) (gdt_block j)) (j mod 32) = chunk 32 (block_at fs (gdt_block j)) (j mod 32)"
    proof (cases "j div 32 = gi div 32")
      case True
      with False have "j mod 32 \<noteq> gi mod 32" by (metis div_mod_decomp)
      with True at other show ?thesis by (simp add: gdt_block_def)
    qed (simp add: at)
    with False show ?thesis by (simp add: desc_at_def)
  qed
qed

lemma store_put_desc:
  assumes "store_ok n fs" "fb_block_size fs = 1024" "gdt_block gi < n" "length (gd_unused d) = 14"
  shows "store_ok n (put_desc fs gi d)"
    "c < n \<Longrightarrow> block_at (put_desc fs gi d) c =
       (if c = gdt_block gi then patch (block_at fs c) (gi mod 32 * 32) (group_desc_bytes d) else block_at fs c)"
proof -
  have len: "length (patch (block_at fs (gdt_block gi)) (gi mod 32 * 32) (group_desc_bytes d)) = fb_block_size fs"
    using assms desc_block(4)[OF assms(1-3)] by simp
  then show "store_ok n (put_desc fs gi d)" using assms by (simp add: put_desc_def)
  show "c < n \<Longrightarrow> block_at (put_desc fs gi d) c =
       (if c = gdt_block gi then patch (block_at fs c) (gi mod 32 * 32) (group_desc_bytes d) else block_at fs c)"
    unfolding put_desc_def using block_at_put_block[OF assms(1,3) _ len, of c] by simp
qed

section \<open>A change of one bitmap\<close>

lemma length_free_list: "length (free_list fs) = (\<Sum>i < e2_num_block_groups fs. length (free_in fs i))"
  by (simp add: free_list_def length_concat comp_def interv_sum_list_conv_sum_set_nat atLeast0LessThan)

lemma meta_list_cong:
  assumes "same_shape fs fs'" and d: "\<And>j. j < e2_num_block_groups fs \<Longrightarrow> group_meta fs' j = group_meta fs j"
  shows "meta_list fs' = meta_list fs"
proof -
  have "map (group_meta fs') [0..<e2_num_block_groups fs] = map (group_meta fs) [0..<e2_num_block_groups fs]"
    using d by (intro map_cong) auto
  then show ?thesis by (simp only: meta_list_def same_shapeD(5)[OF assms(1)])
qed

lemma ext2_ok_commit:
  assumes ok: "ext2_ok n fs" and i: "i < e2_num_block_groups fs"
    and shape: "same_shape fs fs'" and st: "store_ok n fs'"
    and desc: "desc_at fs' i = (desc_at fs i)\<lparr>gd_free_blocks := f, gd_unused := u\<rparr>"
    and desc': "\<And>j. j < e2_num_block_groups fs \<Longrightarrow> j \<noteq> i \<Longrightarrow> desc_at fs' j = desc_at fs j"
    and keep: "\<And>j. j < e2_num_block_groups fs \<Longrightarrow> j \<noteq> i \<Longrightarrow>
        block_at fs' (block_bitmap_of fs j) = block_at fs (block_bitmap_of fs j)"
    and bm: "block_at fs' (block_bitmap_of fs i) = bitmap"
    and grps: "e2_block_groups fs' = (e2_block_groups fs)[i := Some (block_group_of i (desc_at fs' i))]"
    and f: "unat f = length (clear_bits (blocks_per_group fs) bitmap)"
    and sb: "unat (sb_free_blocks (e2_superblock fs')) + length (free_in fs i) = unat (sb_free_blocks (e2_superblock fs)) + unat f"
    and fresh: "\<And>k. k < blocks_per_group fs \<Longrightarrow> \<not> bitmap_bit bitmap k \<Longrightarrow>
        block_no fs i k < n \<and> block_no fs i k \<notin> set (meta_list fs)"
  shows "ext2_ok n fs'" "meta_list fs' = meta_list fs" "free_in fs' i = clear_bits (blocks_per_group fs) bitmap"
    "\<And>j. j < e2_num_block_groups fs \<Longrightarrow> j \<noteq> i \<Longrightarrow> free_in fs' j = free_in fs j"
proof -
  note D = ext2_okD[OF ok] and S = same_shapeD[OF shape]
  let ?G = "e2_num_block_groups fs"
  have bb: "block_bitmap_of fs' j = block_bitmap_of fs j" if "j < ?G" for j
    using desc desc'[OF that] by (cases "j = i") simp_all
  have "group_meta fs' j = group_meta fs j" if "j < ?G" for j
    using desc desc'[OF that] S(4) by (cases "j = i") (simp_all add: group_meta_def)
  then show meta: "meta_list fs' = meta_list fs" by (rule meta_list_cong[OF shape])
  show fi: "free_in fs' i = clear_bits (blocks_per_group fs) bitmap"
    unfolding free_in_def bb[OF i] bm S(8) ..
  show fj: "free_in fs' j = free_in fs j" if "j < ?G" "j \<noteq> i" for j
    unfolding free_in_def bb[OF that(1)] keep[OF that] S(8) ..
  have no: "block_no fs' = block_no fs" by (simp add: block_no_def fun_eq_iff S(8))
  have "(\<Sum>j \<in> {..<?G} - {i}. length (free_in fs' j)) = (\<Sum>j \<in> {..<?G} - {i}. length (free_in fs j))"
    using fj by (intro sum.cong) auto
  then have "length (free_list fs') + length (free_in fs i) = length (free_list fs) + length (free_in fs' i)"
    using i S(5) sum.remove[of "{..<?G}" i "\<lambda>j. length (free_in fs' j)"] sum.remove[of "{..<?G}" i "\<lambda>j. length (free_in fs j)"]
    by (simp add: length_free_list)
  then have cnt: "unat (sb_free_blocks (e2_superblock fs')) = length (free_list fs')" using sb D(13) f fi by simp
  have "b < n \<and> b \<notin> set (meta_list fs')" if "b \<in> set (free_list fs')" for b
  proof -
    from that obtain j k where jk: "j < ?G" "k \<in> set (free_in fs' j)" "b = block_no fs j k"
      by (auto simp: free_list_def S(5) no)
    show ?thesis
    proof (cases "j = i")
      case True
      with jk fi fresh meta show ?thesis by simp
    next
      case False
      with jk fj have "b \<in> set (free_list fs)" by (auto simp: free_list_def)
      with D(11) meta show ?thesis by simp
    qed
  qed
  moreover have "unat (gd_free_blocks (desc_at fs' j)) = length (free_in fs' j)" if "j < ?G" for j
    using desc desc'[OF that] fi fj[OF that] f D(12)[OF that] by (cases "j = i") simp_all
  moreover have "case e2_block_groups fs' ! j of None \<Rightarrow> True | Some g \<Rightarrow> g = block_group_of j (desc_at fs' j)" if "j < ?G" for j
    using that i D(6) D(14)[OF that] desc'[OF that] unfolding grps by (cases "j = i") (auto split: option.splits)
  ultimately show "ext2_ok n fs'" unfolding ext2_ok_def
    using st S D(2-10) meta cnt grps by simp
qed

section \<open>The allocation loop\<close>

lemma take_block_ok:
  assumes st: "store_ok n fs" "b < n" and fs'_def: "fs' = take_block z gi b g fs"
  shows "store_ok n fs'" "same_shape fs fs'" "c < n \<Longrightarrow> c \<noteq> b \<Longrightarrow> block_at fs' c = block_at fs c"
    "z \<Longrightarrow> block_at fs' b = replicate (fb_block_size fs) 0"
    "sb_free_blocks (e2_superblock fs') = sb_free_blocks (e2_superblock fs) - 1"
proof -
  let ?z = "put_block fs b (replicate (fb_block_size fs) 0)"
  let ?f = "\<lambda>h. set_group h gi (g\<lparr>bg_free_blocks := bg_free_blocks g - 1\<rparr>)"
  have eq: "fs' = (?f (if z then ?z else fs))\<lparr>e2_superblock := (e2_superblock fs)\<lparr>sb_free_blocks := sb_free_blocks (e2_superblock fs) - 1\<rparr>\<rparr>"
    unfolding fs'_def take_block_def using fs_zero_block_ok[OF st] by (simp add: Let_def set_group_def put_block_def)
  have at: "block_at ((?f h)\<lparr>e2_superblock := v\<rparr>) = block_at h" "store_ok n ((?f h)\<lparr>e2_superblock := v\<rparr>) = store_ok n h" for h v
    by (simp_all add: block_at_def store_ok_def set_group_def fun_eq_iff)
  show "store_ok n fs'" "c < n \<Longrightarrow> c \<noteq> b \<Longrightarrow> block_at fs' c = block_at fs c"
    "z \<Longrightarrow> block_at fs' b = replicate (fb_block_size fs) 0"
    unfolding eq at using st by (simp_all add: block_at_put_block)
  show "same_shape fs fs'"
    unfolding eq by (simp add: same_shape_def set_group_def put_block_def)
  show "sb_free_blocks (e2_superblock fs') = sb_free_blocks (e2_superblock fs) - 1" unfolding eq by simp
qed

lemma group_at_set:
  assumes "group_at fs gi = Inr g" "e2_block_groups fs' = (e2_block_groups fs)[gi := Some g']"
  shows "group_at fs' gi = Inr g'"
  using group_atD[OF assms(1)] assms(2) by (simp add: group_at_def)

lemma alloc_loop_spec:
  assumes "store_ok n fs" "fb_block_size fs = 1024" "length buf = 1024" "bpg \<le> 8192" "group_at fs gi = Inr g" "length ret < num"
    and "\<And>k. bi \<le> k \<Longrightarrow> k < bpg \<Longrightarrow> \<not> bitmap_bit buf k \<Longrightarrow> k + first_block fs g < n"
    and "ks = take (num - length ret) (filter (\<lambda>k. \<not> bitmap_bit buf k) [bi..<bpg])"
  shows "\<exists>fs' buf'. alloc_loop z num gi bpg bi fs buf ret = Inr (fs', buf', ret @ map (\<lambda>k. k + first_block fs g) ks) \<and>
    length buf' = 1024 \<and> (\<forall>j. bitmap_bit buf' j = (bitmap_bit buf j \<or> j \<in> set ks)) \<and> store_ok n fs' \<and> same_shape fs fs' \<and>
    (\<forall>c < n. c \<notin> (\<lambda>k. k + first_block fs g) ` set ks \<longrightarrow> block_at fs' c = block_at fs c) \<and>
    (z \<longrightarrow> (\<forall>k \<in> set ks. block_at fs' (k + first_block fs g) = replicate 1024 0)) \<and>
    e2_block_groups fs' = (e2_block_groups fs)[gi := Some (g\<lparr>bg_free_blocks := bg_free_blocks g - of_nat (length ks)\<rparr>)] \<and>
    sb_free_blocks (e2_superblock fs') = sb_free_blocks (e2_superblock fs) - of_nat (length ks)"
  using assms
proof (induction z num gi bpg bi fs buf ret arbitrary: g ks rule: alloc_loop.induct)
  case (1 z num gi bpg bi fs buf ret)
  let ?F = "first_block fs g"
  have gi: "(e2_block_groups fs)[gi := Some g] = e2_block_groups fs"
    using group_atD[OF "1.prems"(5)] list_update_id[of "e2_block_groups fs" gi] by simp
  show ?case
  proof (cases "bi < bpg")
    case bi: True
    then have u: "get_bitmap_bit buf bi = Inr (bitmap_bit buf bi)"
      using e2bits.get_val[of bi buf] "1.prems"(3,4) by (simp add: bitmap_cap_def)
    have upt: "[bi..<bpg] = bi # [bi + 1..<bpg]" using bi upt_conv_Cons by simp
    show ?thesis
    proof (cases "bitmap_bit buf bi")
      case used: True
      have "alloc_loop z num gi bpg bi fs buf ret = alloc_loop z num gi bpg (bi + 1) fs buf ret"
        using bi u used by (subst alloc_loop.simps) simp
      moreover have ks: "ks = take (num - length ret) (filter (\<lambda>k. \<not> bitmap_bit buf k) [bi + 1..<bpg])"
        using "1.prems"(8) upt used by simp
      ultimately show ?thesis using "1.IH"(1)[OF bi used "1.prems"(1-6) _ ks] "1.prems"(7) by (metis add_leD1)
    next
      case free: False
      then have b: "bi + ?F < n" using "1.prems"(7)[of bi] bi by simp
      have "n * 1024 < 2 ^ 32" using "1.prems"(1,2) by (simp add: store_ok_def)
      then have ab: "add32 bi ?F = bi + ?F" using b by (intro add32_less) linarith
      let ?fs = "take_block z gi (bi + ?F) g fs" and ?g = "g\<lparr>bg_free_blocks := bg_free_blocks g - 1\<rparr>"
      note T = take_block_ok[OF "1.prems"(1) b refl, where z = z and gi = gi and g = g]
      have at: "group_at ?fs gi = Inr ?g" by (rule group_at_set[OF "1.prems"(5)]) simp
      have F: "first_block ?fs ?g = ?F" using same_shapeD(1,8)[OF T(2)] by (simp add: first_block_def)
      obtain buf1 where s: "set_bitmap_bit buf bi True = Inr buf1" "length buf1 = 1024"
        "\<And>j. bitmap_bit buf1 j = (if j = bi then True else bitmap_bit buf j)"
        using set_bitmap_bit_ok[of bi buf True] bi "1.prems"(3,4) by auto
      have step: "alloc_loop z num gi bpg bi fs buf ret =
          (if length (ret @ [bi + ?F]) = num then Inr (?fs, buf1, ret @ [bi + ?F])
           else alloc_loop z num gi bpg (bi + 1) ?fs buf1 (ret @ [bi + ?F]))"
        using bi u free s(1) "1.prems"(5) ab by (subst alloc_loop.simps) (simp add: Let_def)
      define ks' where "ks' = take (num - length (ret @ [bi + ?F])) (filter (\<lambda>k. \<not> bitmap_bit buf1 k) [bi + 1..<bpg])"
      have "filter (\<lambda>k. \<not> bitmap_bit buf1 k) [bi + 1..<bpg] = filter (\<lambda>k. \<not> bitmap_bit buf k) [bi + 1..<bpg]"
        using s(3) by (intro filter_cong) auto
      then have ks: "ks = bi # ks'"
        using "1.prems"(6,8) upt free by (simp add: ks'_def take_Cons' del: upt_Suc)
      have "bi \<notin> set ks'" by (auto simp: ks'_def dest: in_set_takeD)
      then have bi': "bi + ?F \<notin> (\<lambda>k. k + ?F) ` set ks'" by auto
      show ?thesis
      proof (cases "length (ret @ [bi + ?F]) = num")
        case True
        then have "ks' = []" by (simp add: ks'_def)
        with True step ks s(2,3) T "1.prems"(2) show ?thesis by auto
      next
        case False
        have shape: "fb_block_size ?fs = 1024" using same_shapeD(1)[OF T(2)] "1.prems"(2) by simp
        have len: "length (ret @ [bi + ?F]) < num" using False "1.prems"(6) by simp
        have fr: "k + first_block ?fs ?g < n" if "bi + 1 \<le> k" "k < bpg" "\<not> bitmap_bit buf1 k" for k
          using "1.prems"(7)[of k] that s(3)[of k] F by (auto split: if_splits)
        from "1.IH"(2)[OF bi free ab[symmetric] refl refl _ T(1) shape s(2) "1.prems"(4) at len fr ks'_def] False
        obtain fs' buf' where IH: "alloc_loop z num gi bpg (bi + 1) ?fs buf1 (ret @ [bi + ?F]) =
              Inr (fs', buf', (ret @ [bi + ?F]) @ map (\<lambda>k. k + ?F) ks')"
            "length buf' = 1024" "\<And>j. bitmap_bit buf' j = (bitmap_bit buf1 j \<or> j \<in> set ks')" "store_ok n fs'" "same_shape ?fs fs'"
            "\<And>c. c < n \<Longrightarrow> c \<notin> (\<lambda>k. k + ?F) ` set ks' \<Longrightarrow> block_at fs' c = block_at ?fs c"
            "z \<Longrightarrow> \<forall>k \<in> set ks'. block_at fs' (k + ?F) = replicate 1024 0"
            "e2_block_groups fs' = (e2_block_groups ?fs)[gi := Some (?g\<lparr>bg_free_blocks := bg_free_blocks ?g - of_nat (length ks')\<rparr>)]"
            "sb_free_blocks (e2_superblock fs') = sb_free_blocks (e2_superblock ?fs) - of_nat (length ks')"
          unfolding F by blast
        have "alloc_loop z num gi bpg bi fs buf ret = Inr (fs', buf', ret @ map (\<lambda>k. k + ?F) ks)"
          using step False IH(1) ks by simp
        moreover have "\<forall>j. bitmap_bit buf' j = (bitmap_bit buf j \<or> j \<in> set ks)" using IH(3) s(3) ks by auto
        moreover have "\<forall>c < n. c \<notin> (\<lambda>k. k + ?F) ` set ks \<longrightarrow> block_at fs' c = block_at fs c" using IH(6) T(3) ks by auto
        moreover have "z \<longrightarrow> (\<forall>k \<in> set ks. block_at fs' (k + ?F) = replicate 1024 0)"
          using IH(6)[OF b] IH(7) T(4) bi' "1.prems"(2) ks by auto
        moreover have "e2_block_groups fs' = (e2_block_groups fs)[gi := Some (g\<lparr>bg_free_blocks := bg_free_blocks g - of_nat (length ks)\<rparr>)]"
          using IH(8) ks by (simp add: algebra_simps)
        moreover have "sb_free_blocks (e2_superblock fs') = sb_free_blocks (e2_superblock fs) - of_nat (length ks)"
          using IH(9) T(5) ks by simp
        ultimately show ?thesis using IH(2,4) same_shape_trans[OF T(2) IH(5)] by blast
      qed
    qed
  next
    case False
    then have "ks = []" using "1.prems"(8) by simp
    moreover have "alloc_loop z num gi bpg bi fs buf ret = Inr (fs, buf, ret)" using False by (subst alloc_loop.simps) simp
    ultimately show ?thesis using "1.prems"(1,3) gi by simp
  qed
qed

section \<open>Allocation in a group\<close>

text \<open>The blocks that the allocator writes for its own purposes.\<close>

definition alloc_area :: "'a ext2_scheme \<Rightarrow> nat set" where
  "alloc_area fs = {1} \<union> gdt_block ` {..<e2_num_block_groups fs} \<union> block_bitmap_of fs ` {..<e2_num_block_groups fs}"

text \<open>\<open>fs'\<close> is \<open>fs\<close> with the free set \<open>F'\<close> instead of its own; the blocks in \<open>new\<close> may have been written.\<close>

definition realloc :: "nat \<Rightarrow> 'a ext2_scheme \<Rightarrow> 'a ext2_scheme \<Rightarrow> nat set \<Rightarrow> nat set \<Rightarrow> bool" where
  "realloc n fs fs' F' new \<longleftrightarrow>
     ext2_ok n fs' \<and> same_shape fs fs' \<and> meta_list fs' = meta_list fs \<and> set (free_list fs') = F' \<and>
     (\<forall>i < e2_num_block_groups fs.
        (desc_at fs' i)\<lparr>gd_free_blocks := 0, gd_unused := []\<rparr> = (desc_at fs i)\<lparr>gd_free_blocks := 0, gd_unused := []\<rparr>) \<and>
     (\<forall>c < n. c \<notin> alloc_area fs \<and> c \<notin> new \<longrightarrow> block_at fs' c = block_at fs c) \<and>
     (\<forall>i < e2_num_block_groups fs. e2_block_groups fs ! i \<noteq> None \<longrightarrow> e2_block_groups fs' ! i \<noteq> None)"

lemma reallocD:
  assumes "realloc n fs fs' F' new"
  shows "ext2_ok n fs'" "same_shape fs fs'" "meta_list fs' = meta_list fs" "set (free_list fs') = F'"
    "\<And>c. c < n \<Longrightarrow> c \<notin> alloc_area fs \<Longrightarrow> c \<notin> new \<Longrightarrow> block_at fs' c = block_at fs c"
    "\<And>i. i < e2_num_block_groups fs \<Longrightarrow> e2_block_groups fs ! i \<noteq> None \<Longrightarrow> e2_block_groups fs' ! i \<noteq> None"
  using assms by (auto simp: realloc_def)

lemma reallocD_desc:
  assumes "realloc n fs fs' F' new" "i < e2_num_block_groups fs"
  shows "block_bitmap_of fs' i = block_bitmap_of fs i" "inode_bitmap_of fs' i = inode_bitmap_of fs i"
    "inode_table_of fs' i = inode_table_of fs i" "gd_free_inodes (desc_at fs' i) = gd_free_inodes (desc_at fs i)"
    "gd_num_directories (desc_at fs' i) = gd_num_directories (desc_at fs i)"
proof -
  have eq: "(desc_at fs' i)\<lparr>gd_free_blocks := 0, gd_unused := []\<rparr> = (desc_at fs i)\<lparr>gd_free_blocks := 0, gd_unused := []\<rparr>"
    using assms by (simp add: realloc_def)
  show "block_bitmap_of fs' i = block_bitmap_of fs i" using arg_cong[OF eq, of gd_block_usage_bitmap] by simp
  show "inode_bitmap_of fs' i = inode_bitmap_of fs i" using arg_cong[OF eq, of gd_inode_usage_bitmap] by simp
  show "inode_table_of fs' i = inode_table_of fs i" using arg_cong[OF eq, of gd_inode_table] by simp
  show "gd_free_inodes (desc_at fs' i) = gd_free_inodes (desc_at fs i)" using arg_cong[OF eq, of gd_free_inodes] by simp
  show "gd_num_directories (desc_at fs' i) = gd_num_directories (desc_at fs i)"
    using arg_cong[OF eq, of gd_num_directories] by simp
qed

lemma realloc_area: "realloc n fs fs' F' new \<Longrightarrow> alloc_area fs' = alloc_area fs"
  using reallocD_desc(1)[of n fs fs' F' new] same_shapeD(5)[OF reallocD(2), of n fs fs' F' new]
  by (auto simp: alloc_area_def)

lemma realloc_trans:
  assumes a: "realloc n fs fs1 F1 new1" and b: "realloc n fs1 fs2 F2 new2"
  shows "realloc n fs fs2 F2 (new1 \<union> new2)"
  unfolding realloc_def
proof (intro conjI allI impI)
  note A = reallocD[OF a] and B = reallocD[OF b]
  have G: "e2_num_block_groups fs1 = e2_num_block_groups fs" by (rule same_shapeD(5)[OF A(2)])
  show "ext2_ok n fs2" "set (free_list fs2) = F2" "meta_list fs2 = meta_list fs" using A B by simp_all
  show "same_shape fs fs2" using same_shape_trans[OF A(2) B(2)] .
  show "(desc_at fs2 i)\<lparr>gd_free_blocks := 0, gd_unused := []\<rparr> = (desc_at fs i)\<lparr>gd_free_blocks := 0, gd_unused := []\<rparr>"
    if "i < e2_num_block_groups fs" for i
    using a b that G by (simp add: realloc_def)
  show "block_at fs2 c = block_at fs c" if "c < n" "c \<notin> alloc_area fs \<and> c \<notin> new1 \<union> new2" for c
    using A(5)[of c] B(5)[of c] that realloc_area[OF a] by simp
  show "e2_block_groups fs2 ! i \<noteq> None" if "i < e2_num_block_groups fs" "e2_block_groups fs ! i \<noteq> None" for i
    using A(6)[OF that] B(6)[of i] that G by simp
qed

lemma realloc_refl: "ext2_ok n fs \<Longrightarrow> realloc n fs fs (set (free_list fs)) {}"
  by (simp add: realloc_def)

lemma realloc_mono: "realloc n fs fs' F' new \<Longrightarrow> new \<subseteq> new' \<Longrightarrow> F' = F'' \<Longrightarrow> realloc n fs fs' F'' new'"
  by (auto simp: realloc_def)

lemma in_free_list:
  "b \<in> set (free_list fs) \<longleftrightarrow> (\<exists>i k. i < e2_num_block_groups fs \<and> k \<in> set (free_in fs i) \<and> b = block_no fs i k)"
  by (auto simp: free_list_def)

text \<open>The group that a number belongs to is loaded and its number range is exact.\<close>

lemma group_number:
  assumes ok: "ext2_ok n fs" and gi: "gi < e2_num_block_groups fs" and g: "group_at fs gi = Inr g"
  shows "g = block_group_of gi (desc_at fs gi)" "bg_num g = gi" "first_block fs g = block_no fs gi 0"
    "gi * blocks_per_group fs < n" "gdt_block gi < n" "1 < n" "block_bitmap_of fs gi < n"
proof -
  note D = ext2_okD[OF ok]
  show eq: "g = block_group_of gi (desc_at fs gi)" using D(14)[OF gi] group_atD[OF g] by simp
  then show num: "bg_num g = gi" by (simp add: block_group_of_def)
  have "(gi + 1) * blocks_per_group fs \<le> e2_num_block_groups fs * blocks_per_group fs" using gi by (intro mult_le_mono1) simp
  with D(8) show lt: "gi * blocks_per_group fs < n" by simp
  have n: "n * 1024 < 2 ^ 32" using D(1,2) by (simp add: store_ok_def)
  have "mul32 gi (blocks_per_group fs) = gi * blocks_per_group fs" using lt n by (intro mul32_less) linarith
  moreover have "add32 (gi * blocks_per_group fs) 1 = gi * blocks_per_group fs + 1" using lt n by (intro add32_less) linarith
  ultimately show "first_block fs g = block_no fs gi 0" using num D(2) by (simp add: first_block_def block_no_def)
  show "gdt_block gi < n" "1 < n" "block_bitmap_of fs gi < n" using in_meta[OF gi] D(10) by blast+
qed

lemma commit_realloc:
  assumes ok: "ext2_ok n fs" and i: "i < e2_num_block_groups fs"
    and shape: "same_shape fs fs'" and st: "store_ok n fs'"
    and desc: "desc_at fs' i = (desc_at fs i)\<lparr>gd_free_blocks := f, gd_unused := u\<rparr>"
    and desc': "\<And>j. j < e2_num_block_groups fs \<Longrightarrow> j \<noteq> i \<Longrightarrow> desc_at fs' j = desc_at fs j"
    and bm: "block_at fs' (block_bitmap_of fs i) = bitmap"
    and grps: "e2_block_groups fs' = (e2_block_groups fs)[i := Some (block_group_of i (desc_at fs' i))]"
    and f: "unat f = length (clear_bits (blocks_per_group fs) bitmap)"
    and sb: "unat (sb_free_blocks (e2_superblock fs')) + length (free_in fs i) = unat (sb_free_blocks (e2_superblock fs)) + unat f"
    and fresh: "\<And>k. k < blocks_per_group fs \<Longrightarrow> \<not> bitmap_bit bitmap k \<Longrightarrow>
        block_no fs i k < n \<and> block_no fs i k \<notin> set (meta_list fs)"
    and keep: "\<And>c. c < n \<Longrightarrow> c \<notin> {1, gdt_block i, block_bitmap_of fs i} \<Longrightarrow> c \<notin> new \<Longrightarrow> block_at fs' c = block_at fs c"
    and new: "new \<inter> set (meta_list fs) = {}"
  shows "realloc n fs fs' (set (free_list fs) - block_no fs i ` set (free_in fs i) \<union>
           block_no fs i ` set (clear_bits (blocks_per_group fs) bitmap)) new"
proof -
  let ?G = "e2_num_block_groups fs"
  have bms: "block_at fs' (block_bitmap_of fs j) = block_at fs (block_bitmap_of fs j)" if j: "j < ?G" "j \<noteq> i" for j
  proof (rule keep)
    show "block_bitmap_of fs j < n" "block_bitmap_of fs j \<notin> new" using in_meta(3)[OF j(1)] ext2_okD(10)[OF ok] new by auto
    show "block_bitmap_of fs j \<notin> {1, gdt_block i, block_bitmap_of fs i}"
      using meta_apart(1)[OF ok j(1) block_bitmap_in(1)] meta_apart(2)[OF ok j(1) block_bitmap_in(1) i]
        meta_apart(4)[OF ok j(1) block_bitmap_in(1) i j(2)] block_bitmap_in(1)[of fs i] by (metis empty_iff insert_iff)
  qed
  note C = ext2_ok_commit[OF ok i shape st desc desc' bms bm grps f sb fresh]
  have no: "block_no fs' = block_no fs" and G: "e2_num_block_groups fs' = ?G"
    using same_shapeD(5,8)[OF shape] by (auto simp: block_no_def fun_eq_iff)
  have inj: "block_no fs i k = block_no fs j l \<Longrightarrow> k < blocks_per_group fs \<Longrightarrow> l \<in> set (free_in fs j) \<Longrightarrow> i = j \<and> k = l" for j k l
    using block_no_inj[of fs i k j l] by (simp add: free_in_def)
  have "set (free_list fs') = set (free_list fs) - block_no fs i ` set (free_in fs i) \<union>
           block_no fs i ` set (clear_bits (blocks_per_group fs) bitmap)" (is "?L = ?R")
  proof (rule set_eqI)
    fix b
    have "b \<in> ?L \<longleftrightarrow> b \<in> block_no fs i ` set (free_in fs' i) \<or> (\<exists>j < ?G. j \<noteq> i \<and> b \<in> block_no fs j ` set (free_in fs j))"
      unfolding in_free_list G no image_iff Bex_def using i C(4) by (metis (no_types, lifting))
    moreover have "b \<in> set (free_list fs) - block_no fs i ` set (free_in fs i) \<longleftrightarrow>
        (\<exists>j < ?G. j \<noteq> i \<and> b \<in> block_no fs j ` set (free_in fs j))"
    proof
      assume "\<exists>j < ?G. j \<noteq> i \<and> b \<in> block_no fs j ` set (free_in fs j)"
      then obtain j l where j: "j < ?G" "j \<noteq> i" "l \<in> set (free_in fs j)" "b = block_no fs j l" by blast
      moreover have "b \<notin> block_no fs i ` set (free_in fs i)"
      proof
        assume "b \<in> block_no fs i ` set (free_in fs i)"
        then obtain k where "k < blocks_per_group fs" "block_no fs i k = block_no fs j l" using j(4) by (auto simp: free_in_def)
        with inj j(2,3) show False by blast
      qed
      ultimately show "b \<in> set (free_list fs) - block_no fs i ` set (free_in fs i)" by (auto simp: in_free_list)
    qed (auto simp: in_free_list)
    ultimately show "b \<in> ?L \<longleftrightarrow> b \<in> ?R" using C(3) by (metis (no_types, lifting) Un_iff)
  qed
  moreover have "(desc_at fs' j)\<lparr>gd_free_blocks := 0, gd_unused := []\<rparr> = (desc_at fs j)\<lparr>gd_free_blocks := 0, gd_unused := []\<rparr>"
    if "j < ?G" for j using desc desc'[OF that] by (cases "j = i") simp_all
  moreover have "block_at fs' c = block_at fs c" if "c < n" "c \<notin> alloc_area fs" "c \<notin> new" for c
    by (rule keep[OF that(1)]) (use that i in \<open>auto simp: alloc_area_def\<close>)
  moreover have "e2_block_groups fs' ! j \<noteq> None" if "j < ?G" "e2_block_groups fs ! j \<noteq> None" for j
    using that i ext2_okD(6)[OF ok] unfolding grps by (cases "j = i") auto
  ultimately show ?thesis unfolding realloc_def using C(1,2) shape by blast
qed

lemma clear_bits_taken:
  assumes "\<And>j. bitmap_bit buf' j = (bitmap_bit buf j \<or> j \<in> set ks)" "set ks \<subseteq> set (clear_bits bpg buf)" "distinct ks"
  shows "set (clear_bits bpg buf') = set (clear_bits bpg buf) - set ks"
    "length (clear_bits bpg buf') + length ks = length (clear_bits bpg buf)"
proof -
  show eq: "set (clear_bits bpg buf') = set (clear_bits bpg buf) - set ks" using assms(1) by auto
  have "card (set (clear_bits bpg buf')) + card (set ks) = card (set (clear_bits bpg buf))"
    unfolding eq using assms(2) by (metis List.finite_set card_Diff_subset card_mono le_add_diff_inverse2 finite_subset)
  with assms(3) show "length (clear_bits bpg buf') + length ks = length (clear_bits bpg buf)"
    by (simp only: distinct_card distinct_clear_bits)
qed

lemma length_free_in_le: "i < e2_num_block_groups fs \<Longrightarrow> length (free_in fs i) \<le> length (free_list fs)"
  unfolding length_free_list by (intro member_le_sum) auto

lemma unat_sub_of_nat:
  fixes w :: "'a::len word"
  assumes "k \<le> unat w"
  shows "unat (w - of_nat k) = unat w - k"
proof -
  have "k < 2 ^ LENGTH('a)" using assms unsigned_less[of w] by (rule le_less_trans)
  then have "unat (of_nat k :: 'a word) = k" by (simp add: unsigned_of_nat take_bit_nat_eq_self)
  with assms show ?thesis by (simp add: unat_sub word_le_nat_alt)
qed

text \<open>
  The writes that end an allocation and a release store the bitmap, the superblock and the descriptor,
  in different orders. This is the state they leave, where \<open>fs1\<close> is the state before them.
\<close>

definition committed :: "nat \<Rightarrow> nat \<Rightarrow> u8 list \<Rightarrow> u16 \<Rightarrow> 'a ext2_scheme \<Rightarrow> 'a ext2_scheme \<Rightarrow> 'a ext2_scheme \<Rightarrow> bool" where
  "committed n i buf f fs fs1 fs' \<longleftrightarrow> store_ok n fs' \<and> same_shape fs fs' \<and>
     (\<forall>c < n. c \<noteq> 1 \<longrightarrow> block_at fs' c =
        (if c = block_bitmap_of fs i then buf
         else if c = gdt_block i
         then patch (block_at fs c) (i mod 32 * 32)
                (group_desc_bytes ((desc_at fs i)\<lparr>gd_free_blocks := f, gd_unused := stack_buf fs 14\<rparr>))
         else block_at fs1 c))"

lemma committedD:
  assumes ok: "ext2_ok n fs" and i: "i < e2_num_block_groups fs" and c: "committed n i buf f fs fs1 fs'"
    and fs1: "\<forall>c \<in> set (meta_list fs). block_at fs1 c = block_at fs c"
  shows "store_ok n fs'" "same_shape fs fs'" "block_at fs' (block_bitmap_of fs i) = buf"
    "desc_at fs' i = (desc_at fs i)\<lparr>gd_free_blocks := f, gd_unused := stack_buf fs 14\<rparr>"
    "\<And>j. j < e2_num_block_groups fs \<Longrightarrow> j \<noteq> i \<Longrightarrow> desc_at fs' j = desc_at fs j"
    "\<And>c. c < n \<Longrightarrow> c \<notin> {1, gdt_block i, block_bitmap_of fs i} \<Longrightarrow> block_at fs' c = block_at fs1 c"
proof -
  note D = ext2_okD[OF ok]
  let ?bb = "block_bitmap_of fs i" and ?d = "(desc_at fs i)\<lparr>gd_free_blocks := f, gd_unused := stack_buf fs 14\<rparr>"
  have at: "block_at fs' b = (if b = ?bb then buf else if b = gdt_block i
      then patch (block_at fs b) (i mod 32 * 32) (group_desc_bytes ?d) else block_at fs1 b)" if "b < n" "b \<noteq> 1" for b
    using c that by (auto simp: committed_def)
  have bb: "?bb < n" "?bb \<noteq> 1" "\<And>j. j < e2_num_block_groups fs \<Longrightarrow> ?bb \<noteq> gdt_block j"
    using in_meta(3)[OF i] D(10) meta_apart(1,2)[OF ok i block_bitmap_in(1)] by auto
  have gdt: "gdt_block j < n" "gdt_block j \<noteq> 1" "gdt_block j \<in> set (meta_list fs)" if "j < e2_num_block_groups fs" for j
    using in_meta(2)[OF that] D(10) by (auto simp: gdt_block_def)
  have du: "length (gd_unused ?d) = 14" by (simp add: stack_buf_def)
  have "desc_at fs' j = desc_at (put_desc fs i ?d) j" if j: "j < e2_num_block_groups fs" for j
  proof -
    show ?thesis by (rule desc_at_cong)
        (use store_put_desc(2)[OF D(1,2) gdt(1)[OF i] du gdt(1)[OF j]] at[OF gdt(1,2)[OF j]] bb(3)[OF j] bspec[OF fs1 gdt(3)[OF j]]
          in simp)
  qed
  then have desc: "desc_at fs' j = (if j = i then ?d else desc_at fs j)" if j: "j < e2_num_block_groups fs" for j
    using desc_at_put_desc[OF D(1,2) gdt(1)[OF i] gdt(1)[OF j] du] j by simp
  show "store_ok n fs'" "same_shape fs fs'" using c by (simp_all add: committed_def)
  show "block_at fs' ?bb = buf" using at[OF bb(1,2)] by simp
  show "desc_at fs' i = ?d" using desc[OF i] by simp
  show "desc_at fs' j = desc_at fs j" if "j < e2_num_block_groups fs" "j \<noteq> i" for j using desc that by simp
  show "block_at fs' b = block_at fs1 b" if "b < n" "b \<notin> {1, gdt_block i, ?bb}" for b using at[of b] that by simp
qed

text \<open>The writes of an allocation: bitmap, superblock, descriptor.\<close>

lemma commit_writes:
  assumes ok: "ext2_ok n fs" and i: "i < e2_num_block_groups fs" and g: "group_at fs i = Inr g"
    and fs1: "store_ok n fs1" "same_shape fs fs1" "\<forall>c \<in> set (meta_list fs). block_at fs1 c = block_at fs c"
    and grps: "e2_block_groups fs1 = (e2_block_groups fs)[i := Some (g\<lparr>bg_free_blocks := f\<rparr>)]"
    and buf: "length buf = 1024"
  obtains fs2 fs3 fs4 where
    "fs_write_block fs1 (block_bitmap_of fs i) buf = Inr (Inr (), fs2)" "write_superblock fs2 = Inr fs3" "group_write fs3 i = Inr fs4"
    "committed n i buf f fs fs1 fs4" "e2_block_groups fs4 = e2_block_groups fs1" "e2_superblock fs4 = e2_superblock fs1"
proof -
  note D = ext2_okD[OF ok] and N = group_number[OF ok i g] and S = same_shapeD[OF fs1(2)]
  let ?bb = "block_bitmap_of fs i" and ?d = "(desc_at fs i)\<lparr>gd_free_blocks := f, gd_unused := stack_buf fs 14\<rparr>"
  define fs2 where "fs2 = put_block fs1 ?bb buf"
  define fs3 where "fs3 = put_block fs2 1 (superblock_bytes (e2_superblock fs1) @ drop 512 (block_at fs2 1))"
  define fs4 where "fs4 = put_desc fs3 i ?d"
  have bs1: "fb_block_size fs1 = 1024" using S(1) D(2) by simp
  have w1: "fs_write_block fs1 ?bb buf = Inr (Inr (), fs2)"
    unfolding fs2_def by (rule fs_write_block_ok[OF fs1(1) N(7)]) (simp add: bs1 buf)
  have st2: "store_ok n fs2" "fb_block_size fs2 = 1024" using fs1(1) N(7) buf bs1 by (simp_all add: fs2_def)
  have w2: "write_superblock fs2 = Inr fs3"
    unfolding fs3_def using write_superblock_ok[OF st2 _ N(6)] S(11) D(3) by (simp add: fs2_def)
  have sbl: "length (superblock_bytes (e2_superblock fs1) @ drop 512 (block_at fs2 1)) = 1024"
    using st2 N(6) S(11) D(3) by simp
  have st3: "store_ok n fs3" "fb_block_size fs3 = 1024" using st2 N(6) sbl by (simp_all add: fs3_def)
  have g3: "group_at fs3 i = Inr (g\<lparr>bg_free_blocks := f\<rparr>)" using group_at_set[OF g grps] by (simp add: fs3_def fs2_def)
  have d: "group_desc_for (stack_buf fs3 14) (g\<lparr>bg_free_blocks := f\<rparr>) = ?d"
    using S(2) by (simp add: group_desc_for_def N(1) block_group_of_def fs3_def fs2_def stack_buf_def)
  have w3: "group_write fs3 i = Inr fs4"
    using group_write_ok[OF st3 N(5) g3] N(2) unfolding fs4_def d by simp
  have du: "length (gd_unused ?d) = 14" by (simp add: stack_buf_def)
  have gm: "gdt_block i \<in> set (meta_list fs)" "gdt_block i \<noteq> ?bb" "gdt_block i \<noteq> 1"
    using in_meta(2)[OF i] meta_apart(2)[OF ok i block_bitmap_in(1) i] by (auto simp: gdt_block_def)
  have at3: "block_at fs3 c = (if c = ?bb then buf else block_at fs1 c)" if "c < n" "c \<noteq> 1" for c
    using that block_at_put_block[OF st2(1) N(6) that(1) sbl[folded st2(2)]]
      block_at_put_block[OF fs1(1) N(7) that(1), of buf] buf bs1 by (simp add: fs3_def fs2_def)
  have "block_at fs4 c = (if c = ?bb then buf else if c = gdt_block i
      then patch (block_at fs c) (i mod 32 * 32) (group_desc_bytes ?d) else block_at fs1 c)" if "c < n" "c \<noteq> 1" for c
    unfolding fs4_def store_put_desc(2)[OF st3 N(5) du that(1)] at3[OF that] using bspec[OF fs1(3) gm(1)] gm(2) by simp
  moreover have "same_shape fs fs4" using fs1(2) by (simp add: fs4_def fs3_def fs2_def put_desc_def)
  ultimately have "committed n i buf f fs fs1 fs4"
    using store_put_desc(1)[OF st3 N(5) du] by (simp add: committed_def fs4_def)
  then show thesis by (rule that[OF w1 w2 w3]) (simp_all add: fs4_def fs3_def fs2_def put_desc_def)
qed

lemma allocate_in_group_ok:
  assumes ok: "ext2_ok n fs" and gi: "gi < e2_num_block_groups fs" and g: "group_at fs gi = Inr g"
    and num: "0 < num" "num \<le> length (free_in fs gi)"
  shows "\<exists>ret fs'. allocate_blocks_in_group fs gi num z = Inr (Inr ret, fs') \<and>
    realloc n fs fs' (set (free_list fs) - set ret) (set ret) \<and> length ret = num \<and> distinct ret \<and>
    set ret \<subseteq> set (free_list fs) \<and> (z \<longrightarrow> (\<forall>b \<in> set ret. block_at fs' b = replicate 1024 0))"
proof -
  note D = ext2_okD[OF ok] and N = group_number[OF ok gi g]
  let ?bb = "block_bitmap_of fs gi" and ?bpg = "blocks_per_group fs"
  define buf ks where "buf = block_at fs ?bb" and "ks = take num (free_in fs gi)"
  define ret where "ret = map (block_no fs gi) ks"
  have buf: "length buf = 1024" using D(1,2) N(7) by (simp add: buf_def)
  have bl: "bg_block_bitmap_block g = gd_block_usage_bitmap (desc_at fs gi)" "bg_free_blocks g = gd_free_blocks (desc_at fs gi)"
    using N(1) by (simp_all add: block_group_of_def)
  have sub: "block_no fs gi ` set (free_in fs gi) \<subseteq> set (free_list fs)"
    using gi unfolding subset_iff in_free_list by blast
  then have free: "b < n \<and> b \<notin> set (meta_list fs)" if "b \<in> block_no fs gi ` set (free_in fs gi)" for b
    using D(11)[of b] that by blast
  have ks: "set ks \<subseteq> set (free_in fs gi)" "distinct ks" "length ks = num"
    using num(2) by (auto simp: ks_def free_in_def dest: in_set_takeD)
  have no: "k + first_block fs g = block_no fs gi k" for k unfolding N(3) by (simp add: block_no_def)
  have "ks = take (num - length []) (filter (\<lambda>k. \<not> bitmap_bit buf k) [0..<?bpg])"
    by (simp add: ks_def free_in_def clear_bits_def buf_def)
  from alloc_loop_spec[OF D(1,2) buf D(5) g _ _ this, of z] num(1) free obtain fs1 buf1 where
    l: "alloc_loop z num gi ?bpg 0 fs buf [] = Inr (fs1, buf1, ret)" "length buf1 = 1024"
      "\<And>j. bitmap_bit buf1 j = (bitmap_bit buf j \<or> j \<in> set ks)" "store_ok n fs1" "same_shape fs fs1"
      "\<And>c. c < n \<Longrightarrow> c \<notin> block_no fs gi ` set ks \<Longrightarrow> block_at fs1 c = block_at fs c"
      "z \<Longrightarrow> \<forall>k \<in> set ks. block_at fs1 (block_no fs gi k) = replicate 1024 0"
      "e2_block_groups fs1 = (e2_block_groups fs)[gi := Some (g\<lparr>bg_free_blocks := bg_free_blocks g - of_nat num\<rparr>)]"
      "sb_free_blocks (e2_superblock fs1) = sb_free_blocks (e2_superblock fs) - of_nat num"
    unfolding no ks(3) ret_def by (auto simp: free_in_def buf_def)
  have new: "set ret = block_no fs gi ` set ks" "set ret \<subseteq> set (free_list fs)" "set ret \<inter> set (meta_list fs) = {}"
    using ks(1) free sub by (auto simp: ret_def)
  have meta: "\<forall>c \<in> set (meta_list fs). block_at fs1 c = block_at fs c"
    using l(6)[OF D(10)] new(1,3) by blast
  obtain fs2 fs3 fs4 where w: "fs_write_block fs1 ?bb buf1 = Inr (Inr (), fs2)" "write_superblock fs2 = Inr fs3"
      "group_write fs3 gi = Inr fs4" and cm: "committed n gi buf1 (bg_free_blocks g - of_nat num) fs fs1 fs4"
      "e2_block_groups fs4 = e2_block_groups fs1" "e2_superblock fs4 = e2_superblock fs1"
    using commit_writes[OF ok gi g l(4,5) meta l(8,2)] by blast
  note C = committedD[OF ok gi cm(1) meta]
  note T = clear_bits_taken[OF l(3), of ?bpg, folded free_in_def[of fs gi, folded buf_def], OF ks(1,2)]
  have "num \<le> unat (bg_free_blocks g)" using num(2) D(12)[OF gi] bl by simp
  then have f: "unat (bg_free_blocks g - of_nat num) = length (clear_bits ?bpg buf1)"
    using T(2) D(12)[OF gi] bl ks(3) by (simp add: unat_sub_of_nat)
  have sb: "unat (sb_free_blocks (e2_superblock fs4)) + length (free_in fs gi) =
      unat (sb_free_blocks (e2_superblock fs)) + unat (bg_free_blocks g - of_nat num)"
    using l(9) cm(3) f T(2) ks(3) num(2) D(13) length_free_in_le[OF gi] by (simp add: unat_sub_of_nat)
  have grps: "e2_block_groups fs4 = (e2_block_groups fs)[gi := Some (block_group_of gi (desc_at fs4 gi))]"
    using cm(2) l(8) C(4) N(1) by (simp add: block_group_of_def)
  have fresh: "block_no fs gi k < n \<and> block_no fs gi k \<notin> set (meta_list fs)" if "k < ?bpg" "\<not> bitmap_bit buf1 k" for k
    by (rule free) (use that l(3) in \<open>auto simp: free_in_def buf_def\<close>)
  have keep: "block_at fs4 c = block_at fs c" if "c < n" "c \<notin> {1, gdt_block gi, ?bb}" "c \<notin> set ret" for c
    using C(6)[OF that(1,2)] l(6)[OF that(1)] that(3) new(1) by simp
  have "realloc n fs fs4 (set (free_list fs) - block_no fs gi ` set (free_in fs gi) \<union>
      block_no fs gi ` set (clear_bits ?bpg buf1)) (set ret)"
    by (rule commit_realloc[OF ok gi C(2,1,4) _ C(3) grps f sb _ _ new(3)]) (fact C(5) fresh keep)+
  moreover have "block_no fs gi ` (set (free_in fs gi) - set ks) = block_no fs gi ` set (free_in fs gi) - set ret"
    unfolding new(1) by (rule image_set_diff) (simp add: inj_def block_no_def)
  then have "set (free_list fs) - block_no fs gi ` set (free_in fs gi) \<union> block_no fs gi ` set (clear_bits ?bpg buf1) =
      set (free_list fs) - set ret" unfolding T(1) using new(1) ks(1) sub by blast
  ultimately have "realloc n fs fs4 (set (free_list fs) - set ret) (set ret)" by simp
  moreover have "allocate_blocks_in_group fs gi num z = Inr (Inr ret, fs4)"
    using g num bl D(12)[OF gi] fs_read_block_ok[OF D(1) N(7), of "stack_buf fs (fb_block_size fs)"] l(1) w ks(3)
      group_at_set[OF g l(8)]
    by (simp add: allocate_blocks_in_group_def buf_def stack_buf_def ret_def Let_def)
  moreover have "distinct ret" using ks(2) by (simp add: ret_def distinct_map inj_on_def block_no_def)
  moreover have "block_at fs4 b = replicate 1024 0" if "z" "b \<in> set ret" for b
  proof -
    have b: "b < n" "b \<notin> set (meta_list fs)" using that(2) new(2,3) D(11) by auto
    then have "b \<notin> {1, gdt_block gi, ?bb}" using in_meta(1-3)[OF gi] by blast
    with C(6)[OF b(1)] l(7)[OF that(1)] that(2) new(1) show ?thesis by auto
  qed
  ultimately show ?thesis using new(2) ks(3) by (metis length_map ret_def)
qed

end
