(* ===== verification/Ext2AllocRun.thy ===== *)
theory Ext2AllocRun
  imports Ext2AllocSpec
begin

text \<open>
  The block allocator as a whole: the search for a group, the collection of blocks from several
  groups with its rollback, the release of blocks, and any sequence of these operations.
\<close>

section \<open>Loading groups\<close>

text \<open>\<open>loaded n fs fs'\<close>: \<open>fs'\<close> is \<open>fs\<close> with more groups in memory.\<close>

definition loaded :: "nat \<Rightarrow> 'a ext2_scheme \<Rightarrow> 'a ext2_scheme \<Rightarrow> bool" where
  "loaded n fs fs' \<longleftrightarrow> ext2_ok n fs' \<and> (\<exists>gs. fs' = fs\<lparr>e2_block_groups := gs\<rparr>) \<and>
     (\<forall>i < e2_num_block_groups fs. e2_block_groups fs ! i \<noteq> None \<longrightarrow> e2_block_groups fs' ! i \<noteq> None)"

lemma groups_update [simp]:
  "block_at (fs\<lparr>e2_block_groups := gs\<rparr>) = block_at fs" "store_ok n (fs\<lparr>e2_block_groups := gs\<rparr>) = store_ok n fs"
  "desc_at (fs\<lparr>e2_block_groups := gs\<rparr>) = desc_at fs" "meta_list (fs\<lparr>e2_block_groups := gs\<rparr>) = meta_list fs"
  "free_in (fs\<lparr>e2_block_groups := gs\<rparr>) = free_in fs" "free_list (fs\<lparr>e2_block_groups := gs\<rparr>) = free_list fs"
  "block_no (fs\<lparr>e2_block_groups := gs\<rparr>) = block_no fs"
proof -
  show a: "block_at (fs\<lparr>e2_block_groups := gs\<rparr>) = block_at fs" by (simp add: block_at_def fun_eq_iff)
  show "store_ok n (fs\<lparr>e2_block_groups := gs\<rparr>) = store_ok n fs" by (simp add: store_ok_def)
  show d: "desc_at (fs\<lparr>e2_block_groups := gs\<rparr>) = desc_at fs" using a by (simp add: desc_at_def fun_eq_iff)
  then have "group_meta (fs\<lparr>e2_block_groups := gs\<rparr>) = group_meta fs" by (simp add: group_meta_def fun_eq_iff)
  then show "meta_list (fs\<lparr>e2_block_groups := gs\<rparr>) = meta_list fs" by (simp add: meta_list_def)
  show f: "free_in (fs\<lparr>e2_block_groups := gs\<rparr>) = free_in fs" using a d by (simp add: free_in_def fun_eq_iff)
  show "block_no (fs\<lparr>e2_block_groups := gs\<rparr>) = block_no fs" by (simp add: block_no_def fun_eq_iff)
  with f show "free_list (fs\<lparr>e2_block_groups := gs\<rparr>) = free_list fs" by (simp add: free_list_def)
qed

lemma loadedD:
  assumes "loaded n fs fs'"
  shows "ext2_ok n fs'" "block_at fs' = block_at fs" "desc_at fs' = desc_at fs" "meta_list fs' = meta_list fs"
    "free_in fs' = free_in fs" "free_list fs' = free_list fs" "e2_num_block_groups fs' = e2_num_block_groups fs"
    "\<And>i. i < e2_num_block_groups fs \<Longrightarrow> e2_block_groups fs ! i \<noteq> None \<Longrightarrow> e2_block_groups fs' ! i \<noteq> None"
  using assms by (auto simp: loaded_def)

lemma loaded_refl: "ext2_ok n fs \<Longrightarrow> loaded n fs fs"
  by (simp add: loaded_def) (metis ext2.surjective ext2.update_convs(9))

lemma loaded_trans: "loaded n a b \<Longrightarrow> loaded n b c \<Longrightarrow> loaded n a c"
  by (fastforce simp: loaded_def)

lemma loaded_realloc:
  assumes "loaded n fs fs'"
  shows "realloc n fs fs' (set (free_list fs)) {}"
proof -
  note L = loadedD[OF assms]
  have "same_shape fs fs'" using assms by (auto simp: loaded_def same_shape_def)
  with L show ?thesis by (simp add: realloc_def)
qed

lemma block_group_new_ok:
  assumes ok: "ext2_ok n fs" and gi: "gi < e2_num_block_groups fs"
  shows "block_group_new fs gi = Inr (block_group_of gi (desc_at fs gi))"
proof -
  note D = ext2_okD[OF ok]
  have b: "gdt_block gi < n" using in_meta(2)[OF gi] D(10) by blast
  note db = desc_block[OF D(1,2) b]
  have r: "fs_read_block fs (gdt_block gi) (stack_buf fs (fb_block_size fs)) = Inr (Inr (), block_at fs (gdt_block gi))"
    by (rule fs_read_block_ok[OF D(1) b]) (simp add: stack_buf_def)
  have "length (block_at fs (gdt_block gi)) = 1024" using D(1,2) b by simp
  then show ?thesis using db(4)
    by (simp add: block_group_new_def read_block_group_raw_def db(1-3) r flip: gdt_block_def)
      (simp add: desc_at_def chunk_def)
qed

lemma get_block_group_ok:
  assumes ok: "ext2_ok n fs" and gi: "gi < e2_num_block_groups fs"
  shows "\<exists>fs'. get_block_group fs gi = Inr (Some gi, fs') \<and> loaded n fs fs' \<and>
           group_at fs' gi = Inr (block_group_of gi (desc_at fs gi))"
proof -
  note D = ext2_okD[OF ok]
  have ne: "e2_block_groups fs \<noteq> []" using D(6,7) by auto
  show ?thesis
  proof (cases "e2_block_groups fs ! gi")
    case None
    let ?fs = "fs\<lparr>e2_block_groups := (e2_block_groups fs)[gi := Some (block_group_of gi (desc_at fs gi))]\<rparr>"
    have "case e2_block_groups ?fs ! i of None \<Rightarrow> True | Some g \<Rightarrow> g = block_group_of i (desc_at ?fs i)"
      if "i < e2_num_block_groups fs" for i
      using D(14)[OF that] that gi D(6) by (cases "i = gi") (auto split: option.splits)
    then have "ext2_ok n ?fs" using ok by (simp add: ext2_ok_def)
    moreover have "e2_block_groups ?fs ! i \<noteq> None" if "e2_block_groups fs ! i \<noteq> None" for i
      using that None by (cases "i = gi") auto
    ultimately have "loaded n fs ?fs" by (auto simp: loaded_def)
    moreover have "get_block_group fs gi = Inr (Some gi, ?fs)"
      using ne gi D(6) None block_group_new_ok[OF ok gi] by (simp add: get_block_group_def set_group_def)
    moreover have "group_at ?fs gi = Inr (block_group_of gi (desc_at fs gi))" using gi D(6) by (simp add: group_at_def)
    ultimately show ?thesis by blast
  next
    case (Some g)
    with D(14)[OF gi] have "group_at fs gi = Inr (block_group_of gi (desc_at fs gi))" using gi D(6) by (simp add: group_at_def)
    moreover have "get_block_group fs gi = Inr (Some gi, fs)" using ne gi D(6) Some by (simp add: get_block_group_def)
    ultimately show ?thesis using loaded_refl[OF ok] by blast
  qed
qed

lemma group_at_loaded:
  assumes ok: "ext2_ok n fs" and gi: "gi < e2_num_block_groups fs" "e2_block_groups fs ! gi \<noteq> None"
  shows "group_at fs gi = Inr (block_group_of gi (desc_at fs gi))"
  using ext2_okD(6,14)[OF ok] gi by (auto simp: group_at_def)

lemma free_count:
  "ext2_ok n fs \<Longrightarrow> i < e2_num_block_groups fs \<Longrightarrow> unat (bg_free_blocks (block_group_of i (desc_at fs i))) = length (free_in fs i)"
  using ext2_okD(12) by (simp add: block_group_of_def)

lemma group_at_not_None: "group_at fs gi = Inr g \<Longrightarrow> e2_block_groups fs ! gi \<noteq> None"
  using group_atD by fastforce

section \<open>Finding a group\<close>

lemma find_target_ok:
  assumes "ext2_ok n fs" "bgi + left = e2_num_block_groups fs"
  shows "\<exists>t fs'. find_target fs num bgi left = Inr (t, fs') \<and> loaded n fs fs' \<and>
    (case t of
       Some gi \<Rightarrow> gi < e2_num_block_groups fs \<and> num \<le> length (free_in fs gi) \<and> e2_block_groups fs' ! gi \<noteq> None
     | None \<Rightarrow> \<forall>i. bgi \<le> i \<and> i < e2_num_block_groups fs \<longrightarrow> length (free_in fs i) < num)"
  using assms
proof (induction left arbitrary: fs bgi)
  case 0
  then show ?case using loaded_refl by force
next
  case (Suc left)
  then have b: "bgi < e2_num_block_groups fs" by simp
  from get_block_group_ok[OF Suc.prems(1) b] obtain fs1 where
    g: "get_block_group fs bgi = Inr (Some bgi, fs1)" "loaded n fs fs1"
      "group_at fs1 bgi = Inr (block_group_of bgi (desc_at fs bgi))" by blast
  note L = loadedD[OF g(2)]
  show ?case
  proof (cases "num \<le> length (free_in fs bgi)")
    case True
    with g b free_count[OF Suc.prems(1) b] group_at_not_None[OF g(3)] show ?thesis by auto
  next
    case False
    then have step: "find_target fs num bgi (Suc left) = find_target fs1 num (bgi + 1) left"
      using g free_count[OF Suc.prems(1) b] by simp
    have "bgi + 1 + left = e2_num_block_groups fs1" using Suc.prems(2) L(7) by simp
    from Suc.IH[OF L(1) this] obtain t fs' where
      t: "find_target fs1 num (bgi + 1) left = Inr (t, fs')" "loaded n fs1 fs'"
        "case t of Some gi \<Rightarrow> gi < e2_num_block_groups fs \<and> num \<le> length (free_in fs gi) \<and> e2_block_groups fs' ! gi \<noteq> None
         | None \<Rightarrow> \<forall>i. bgi + 1 \<le> i \<and> i < e2_num_block_groups fs \<longrightarrow> length (free_in fs i) < num"
      unfolding L(5,7) by blast
    have "\<forall>i. bgi \<le> i \<and> i < e2_num_block_groups fs \<longrightarrow> length (free_in fs i) < num" if "t = None"
      using t(3) that False by (auto simp: not_le dest: le_neq_implies_less)
    with t step loaded_trans[OF g(2) t(2)] show ?thesis by (cases t) auto
  qed
qed

lemma most_spacious_ok:
  assumes "ext2_ok n fs" "bgi + left = e2_num_block_groups fs"
    "case best of None \<Rightarrow> bgi = 0 | Some m \<Rightarrow> m < bgi \<and> e2_block_groups fs ! m \<noteq> None \<and>
       (\<forall>i < bgi. length (free_in fs i) \<le> length (free_in fs m))"
  shows "\<exists>m fs'. most_spacious fs best bgi left = Inr (Some m, fs') \<and> loaded n fs fs' \<and> m < e2_num_block_groups fs \<and>
    e2_block_groups fs' ! m \<noteq> None \<and> (\<forall>i < e2_num_block_groups fs. length (free_in fs i) \<le> length (free_in fs m))"
  using assms
proof (induction left arbitrary: fs best bgi)
  case 0
  then have "0 < bgi" using ext2_okD(7)[of n fs] by simp
  with 0 loaded_refl[of n fs] show ?case by (auto split: option.splits)
next
  case (Suc left)
  then have b: "bgi < e2_num_block_groups fs" by simp
  from get_block_group_ok[OF Suc.prems(1) b] obtain fs1 where
    g: "get_block_group fs bgi = Inr (Some bgi, fs1)" "loaded n fs fs1"
      "group_at fs1 bgi = Inr (block_group_of bgi (desc_at fs bgi))" by blast
  note L = loadedD[OF g(2)]
  define best1 where "best1 = (case best of None \<Rightarrow> bgi | Some m \<Rightarrow> if length (free_in fs m) < length (free_in fs bgi) then bgi else m)"
  have step: "most_spacious fs best bgi (Suc left) = most_spacious fs1 (Some best1) (bgi + 1) left"
  proof (cases best)
    case (Some m)
    then have m: "m < e2_num_block_groups fs" "e2_block_groups fs ! m \<noteq> None" using Suc.prems(3) b by auto
    then have "group_at fs1 m = Inr (block_group_of m (desc_at fs m))"
      using group_at_loaded[OF L(1), of m] L(3,7,8) by simp
    with Some g m free_count[OF Suc.prems(1) b] free_count[OF Suc.prems(1) m(1)] show ?thesis
      by (simp add: best1_def word_less_nat_alt)
  qed (simp add: g best1_def)
  have inv: "best1 < bgi + 1 \<and> e2_block_groups fs1 ! best1 \<noteq> None \<and>
      (\<forall>i < bgi + 1. length (free_in fs1 i) \<le> length (free_in fs1 best1))"
    using Suc.prems(3) b L(8) group_at_not_None[OF g(3)]
    by (auto simp: best1_def L(5) less_Suc_eq split: option.splits)
  have "bgi + 1 + left = e2_num_block_groups fs1" using Suc.prems(2) L(7) by simp
  from Suc.IH[OF L(1) this, of "Some best1"] inv obtain m fs' where
    "most_spacious fs1 (Some best1) (bgi + 1) left = Inr (Some m, fs')" "loaded n fs1 fs'" "m < e2_num_block_groups fs"
    "e2_block_groups fs' ! m \<noteq> None" "\<forall>i < e2_num_block_groups fs. length (free_in fs i) \<le> length (free_in fs m)"
    unfolding L(5,7) by auto
  with step loaded_trans[OF g(2)] show ?case by metis
qed

section \<open>Releasing a block\<close>

text \<open>The writes of a release: bitmap, descriptor, superblock.\<close>

lemma release_writes:
  assumes ok: "ext2_ok n fs" and i: "i < e2_num_block_groups fs" and g: "group_at fs i = Inr g"
    and buf: "length buf = 1024"
  obtains fs2 fs3 fs4 where
    "fs_write_block fs (block_bitmap_of fs i) buf = Inr (Inr (), fs2)"
    "group_write (set_group fs2 i (g\<lparr>bg_free_blocks := f\<rparr>)) i = Inr fs3" "e2_superblock fs3 = e2_superblock fs"
    "write_superblock (fs3\<lparr>e2_superblock := (e2_superblock fs3)\<lparr>sb_free_blocks := v\<rparr>\<rparr>) = Inr fs4"
    "committed n i buf f fs fs fs4" "e2_block_groups fs4 = (e2_block_groups fs)[i := Some (g\<lparr>bg_free_blocks := f\<rparr>)]"
    "sb_free_blocks (e2_superblock fs4) = v"
proof -
  note D = ext2_okD[OF ok] and N = group_number[OF ok i g]
  let ?bb = "block_bitmap_of fs i" and ?d = "(desc_at fs i)\<lparr>gd_free_blocks := f, gd_unused := stack_buf fs 14\<rparr>"
  define fs2 where "fs2 = put_block fs ?bb buf"
  define fs2' where "fs2' = set_group fs2 i (g\<lparr>bg_free_blocks := f\<rparr>)"
  define fs3 where "fs3 = put_desc fs2' i ?d"
  define fs3' where "fs3' = fs3\<lparr>e2_superblock := (e2_superblock fs3)\<lparr>sb_free_blocks := v\<rparr>\<rparr>"
  define fs4 where "fs4 = put_block fs3' 1 (superblock_bytes (e2_superblock fs3') @ drop 512 (block_at fs3' 1))"
  have at2: "block_at fs2' = block_at fs2" and st2: "store_ok n fs2'" "fb_block_size fs2' = 1024"
    using D(1,2) N(7) buf store_put_block[OF D(1) N(7)]
    by (simp_all add: fs2'_def fs2_def set_group_def)
  have w1: "fs_write_block fs ?bb buf = Inr (Inr (), fs2)"
    unfolding fs2_def by (rule fs_write_block_ok[OF D(1) N(7)]) (simp add: D(2) buf)
  have g2: "group_at fs2' i = Inr (g\<lparr>bg_free_blocks := f\<rparr>)"
    by (rule group_at_set[OF g]) (simp add: fs2'_def fs2_def set_group_def)
  have d: "group_desc_for (stack_buf fs2' 14) (g\<lparr>bg_free_blocks := f\<rparr>) = ?d"
    by (simp add: group_desc_for_def N(1) block_group_of_def fs2'_def fs2_def set_group_def stack_buf_def)
  have w2: "group_write fs2' i = Inr fs3" using group_write_ok[OF st2 N(5) g2] N(2) unfolding fs3_def d by simp
  have du: "length (gd_unused ?d) = 14" by (simp add: stack_buf_def)
  have at3: "block_at fs3' = block_at fs3" "store_ok n fs3'" "fb_block_size fs3' = 1024"
    using store_put_desc(1)[OF st2 N(5) du] st2(2) by (simp_all add: fs3'_def fs3_def block_at_def store_ok_def fun_eq_iff put_desc_def)
  have sb3: "superblock_ok (e2_superblock fs3')" "e2_superblock fs3 = e2_superblock fs"
    using D(3) by (simp_all add: fs3'_def fs3_def fs2'_def fs2_def put_desc_def set_group_def superblock_ok_def)
  have w3: "write_superblock fs3' = Inr fs4" unfolding fs4_def using write_superblock_ok[OF at3(2,3) sb3(1) N(6)] .
  have sbl: "length (superblock_bytes (e2_superblock fs3') @ drop 512 (block_at fs3' 1)) = fb_block_size fs3'"
    using at3(2,3) N(6) sb3(1) by simp
  have gm: "gdt_block i \<noteq> ?bb" using meta_apart(2)[OF ok i block_bitmap_in(1) i] by auto
  have "block_at fs4 c = (if c = ?bb then buf else if c = gdt_block i
      then patch (block_at fs c) (i mod 32 * 32) (group_desc_bytes ?d) else block_at fs c)" if c: "c < n" "c \<noteq> 1" for c
  proof -
    have "block_at fs4 c = block_at fs3 c" using block_at_put_block[OF at3(2) N(6) c(1) sbl] c(2) at3(1) by (simp add: fs4_def)
    moreover have "block_at fs2 c = (if c = ?bb then buf else block_at fs c)"
      using block_at_put_block[OF D(1) N(7) c(1), of buf] buf D(2) by (simp add: fs2_def)
    ultimately show ?thesis unfolding fs3_def store_put_desc(2)[OF st2 N(5) du c(1)] at2 using gm by (cases "c = gdt_block i"; cases "c = ?bb") auto
  qed
  moreover have "same_shape fs fs3" by (simp add: fs3_def fs2'_def fs2_def put_desc_def)
  then have "same_shape fs fs3'" unfolding fs3'_def by (rule same_shape_free_blocks)
  then have "same_shape fs fs4" by (simp add: fs4_def)
  moreover have "store_ok n fs4" using store_put_block[OF at3(2) N(6) sbl] by (simp add: fs4_def)
  ultimately have "committed n i buf f fs fs fs4" by (simp add: committed_def)
  with w1 w2 w3 sb3 show thesis
    by (intro that[of fs2 fs3 fs4])
      (simp_all add: fs4_def fs3'_def fs3_def fs2'_def fs2_def put_desc_def set_group_def)
qed

lemma clear_bits_released:
  assumes "\<And>j. bitmap_bit buf' j = (if j = k then False else bitmap_bit buf j)" "bitmap_bit buf k" "k < bpg"
  shows "set (clear_bits bpg buf') = insert k (set (clear_bits bpg buf))" "length (clear_bits bpg buf') = length (clear_bits bpg buf) + 1"
proof -
  show eq: "set (clear_bits bpg buf') = insert k (set (clear_bits bpg buf))" using assms by (auto split: if_splits)
  have "k \<notin> set (clear_bits bpg buf)" using assms(2) by simp
  then have "card (set (clear_bits bpg buf')) = card (set (clear_bits bpg buf)) + 1" unfolding eq by simp
  then show "length (clear_bits bpg buf') = length (clear_bits bpg buf) + 1" by (simp only: distinct_card distinct_clear_bits)
qed

definition in_groups :: "'a ext2_scheme \<Rightarrow> nat \<Rightarrow> bool" where
  "in_groups fs b \<longleftrightarrow> b \<noteq> 0 \<and> (b - 1) div blocks_per_group fs < e2_num_block_groups fs"

lemma free_list_bound: "ext2_ok n fs \<Longrightarrow> length (free_list fs) \<le> n"
  using ext2_okD(11)[of n fs] card_mono[of "{..<n}" "set (free_list fs)"] distinct_card[OF distinct_free_list, of fs] by auto

lemma release_ok:
  assumes ok: "ext2_ok n fs" and i: "i < e2_num_block_groups fs" and g: "group_at fs i = Inr g"
    and k: "k < blocks_per_group fs" "bit_used fs i k" "block_no fs i k < n" "block_no fs i k \<notin> set (meta_list fs)"
    and buf: "length buf = 1024" "\<And>j. bitmap_bit buf j = (if j = k then False else bit_used fs i j)"
  obtains fs2 fs3 fs4 where
    "fs_write_block fs (block_bitmap_of fs i) buf = Inr (Inr (), fs2)"
    "group_write (set_group fs2 i (g\<lparr>bg_free_blocks := bg_free_blocks g + 1\<rparr>)) i = Inr fs3"
    "write_superblock (fs3\<lparr>e2_superblock := (e2_superblock fs3)\<lparr>sb_free_blocks := sb_free_blocks (e2_superblock fs3) + 1\<rparr>\<rparr>) = Inr fs4"
    "realloc n fs fs4 (insert (block_no fs i k) (set (free_list fs))) {}"
proof -
  note D = ext2_okD[OF ok] and N = group_number[OF ok i g]
  let ?f = "bg_free_blocks g + 1" and ?v = "sb_free_blocks (e2_superblock fs) + 1" and ?bpg = "blocks_per_group fs"
  obtain fs2 fs3 fs4 where w: "fs_write_block fs (block_bitmap_of fs i) buf = Inr (Inr (), fs2)"
    "group_write (set_group fs2 i (g\<lparr>bg_free_blocks := ?f\<rparr>)) i = Inr fs3" "e2_superblock fs3 = e2_superblock fs"
    "write_superblock (fs3\<lparr>e2_superblock := (e2_superblock fs3)\<lparr>sb_free_blocks := ?v\<rparr>\<rparr>) = Inr fs4"
    and cm: "committed n i buf ?f fs fs fs4" "e2_block_groups fs4 = (e2_block_groups fs)[i := Some (g\<lparr>bg_free_blocks := ?f\<rparr>)]"
      "sb_free_blocks (e2_superblock fs4) = ?v"
    using release_writes[OF ok i g buf(1), of ?f ?v] by blast
  note C = committedD[OF ok i cm(1), simplified]
  note T = clear_bits_released[OF buf(2)[unfolded bit_used_def] k(2)[unfolded bit_used_def] k(1), folded free_in_def]
  have cnt: "unat (bg_free_blocks g) = length (free_in fs i)" using D(12)[OF i] N(1) by (simp add: block_group_of_def)
  have n: "n * 1024 < 2 ^ 32" using D(1,2) by (simp add: store_ok_def)
  have "length (free_in fs i) \<le> ?bpg" unfolding free_in_def clear_bits_def by (rule order_trans[OF length_filter_le]) simp
  then have "length (free_in fs i) \<le> 8192" using D(5) by simp
  then have f: "unat ?f = length (clear_bits ?bpg buf)" using T(2) cnt by (simp add: unat_succ)
  have "length (free_list fs) \<le> n" by (rule free_list_bound[OF ok])
  then have "unat ?v = unat (sb_free_blocks (e2_superblock fs)) + 1" using D(13) n by (intro unat_succ) simp
  then have sb: "unat (sb_free_blocks (e2_superblock fs4)) + length (free_in fs i) = unat (sb_free_blocks (e2_superblock fs)) + unat ?f"
    using cm(3) f T(2) by simp
  have grps: "e2_block_groups fs4 = (e2_block_groups fs)[i := Some (block_group_of i (desc_at fs4 i))]"
    using cm(2) C(4) N(1) by (simp add: block_group_of_def)
  have fresh: "block_no fs i j < n \<and> block_no fs i j \<notin> set (meta_list fs)" if "j < ?bpg" "\<not> bitmap_bit buf j" for j
  proof (cases "j = k")
    case False
    then have "block_no fs i j \<in> set (free_list fs)" using that buf(2)[of j] i by (auto simp: set_free_list)
    then show ?thesis by (rule D(11))
  qed (simp add: k)
  have "realloc n fs fs4 (set (free_list fs) - block_no fs i ` set (free_in fs i) \<union> block_no fs i ` set (clear_bits ?bpg buf)) {}"
    by (rule commit_realloc[OF ok i C(2,1,4) _ C(3) grps f sb]) (use C(5,6) fresh in auto)
  moreover have "block_no fs i ` set (free_in fs i) \<subseteq> set (free_list fs)" using i unfolding subset_iff in_free_list by blast
  ultimately have "realloc n fs fs4 (insert (block_no fs i k) (set (free_list fs))) {}"
    unfolding T(1) by (simp add: Un_absorb2)
  with w show thesis by (intro that[of fs2 fs3 fs4]) simp_all
qed

lemma ext2_free_block_ok:
  assumes ok: "ext2_ok n fs" and b: "b < n" "b \<notin> set (meta_list fs)"
  shows "\<exists>fs'. ext2_free_block fs b = Inr fs' \<and>
    realloc n fs fs' (if in_groups fs b then insert b (set (free_list fs)) else set (free_list fs)) {}"
proof (cases "in_groups fs b")
  case False
  have "ext2_free_block fs b = Inr fs"
    using False ext2_okD(4)[OF ok] by (auto simp: ext2_free_block_def in_groups_def get_block_group_def)
  with False realloc_refl[OF ok] show ?thesis by simp
next
  case True
  let ?bpg = "blocks_per_group fs" and ?i = "(b - 1) div blocks_per_group fs" and ?k = "(b - 1) mod blocks_per_group fs"
  note D = ext2_okD[OF ok]
  have i: "?i < e2_num_block_groups fs" and b0: "b \<noteq> 0" using True by (simp_all add: in_groups_def)
  have k: "?k < ?bpg" using D(4) by simp
  have bno: "b = block_no fs ?i ?k" using b0 by (simp add: block_no_def)
  from get_block_group_ok[OF ok i] obtain fs1 where
    g: "get_block_group fs ?i = Inr (Some ?i, fs1)" "loaded n fs fs1" "group_at fs1 ?i = Inr (block_group_of ?i (desc_at fs ?i))"
    by blast
  note L = loadedD[OF g(2)]
  have i1: "?i < e2_num_block_groups fs1" using i L(7) by simp
  have bb: "bg_block_bitmap_block (block_group_of ?i (desc_at fs ?i)) = gd_block_usage_bitmap (desc_at fs1 ?i)"
    by (simp add: block_group_of_def L(3))
  note N = group_number[OF L(1) i1 g(3)]
  have no: "block_no fs1 = block_no fs" and bpg: "blocks_per_group fs1 = ?bpg" and used: "bit_used fs1 = bit_used fs"
    using g(2) by (auto simp: loaded_def block_no_def bit_used_def fun_eq_iff)
  have n: "n * 1024 < 2 ^ 32" using D(1,2) by (simp add: store_ok_def)
  have b_k: "b = block_no fs ?i 0 + ?k" using b0 by (simp add: block_no_def)
  have le: "block_no fs ?i 0 \<le> b" by (subst b_k) (rule le_add1)
  have "sub32 b (block_no fs ?i 0) = b - block_no fs ?i 0" by (rule sub32_le[OF le]) (use b(1) n in linarith)
  also have "\<dots> = ?k" using b_k by linarith
  finally have bit: "sub32 b (first_block fs1 (block_group_of ?i (desc_at fs ?i))) = ?k" unfolding N(3) no .
  let ?buf = "block_at fs1 (block_bitmap_of fs1 ?i)"
  have len: "length ?buf = 1024" using ext2_okD(1,2)[OF L(1)] N(7) by simp
  have r: "fs_read_block fs1 (block_bitmap_of fs1 ?i) (stack_buf fs1 (fb_block_size fs1)) = Inr (Inr (), ?buf)"
    by (rule fs_read_block_ok[OF ext2_okD(1)[OF L(1)] N(7)]) (simp add: stack_buf_def)
  have get: "get_bitmap_bit ?buf ?k = Inr (bit_used fs ?i ?k)"
    using e2bits.get_val[of ?k ?buf] len k D(5) used by (simp add: bitmap_cap_def bit_used_def[symmetric])
  note unf = ext2_free_block_def[of fs b] b0 D(4) divR_pos[OF D(4)] g(1,3) bb r bit get
  show ?thesis
  proof (cases "bit_used fs ?i ?k")
    case False
    then have "b \<in> set (free_list fs)" using i k bno unfolding set_free_list by blast
    then have F: "insert b (set (free_list fs)) = set (free_list fs)" by blast
    have "ext2_free_block fs b = Inr fs1" using False by (simp add: unf Let_def del: One_nat_def)
    with True loaded_realloc[OF g(2)] F show ?thesis by simp
  next
    case used': True
    obtain buf where s: "set_bitmap_bit ?buf ?k False = Inr buf" "length buf = 1024"
      "\<And>j. bitmap_bit buf j = (if j = ?k then False else bit_used fs1 ?i j)"
      using set_bitmap_bit_ok[of ?k ?buf False] len k D(5) by (auto simp: bit_used_def)
    have pre: "?k < blocks_per_group fs1" "bit_used fs1 ?i ?k" "block_no fs1 ?i ?k < n" "block_no fs1 ?i ?k \<notin> set (meta_list fs1)"
      using k used' b bno by (simp_all add: bpg used no L(4))
    obtain fs2 fs3 fs4 where w: "fs_write_block fs1 (block_bitmap_of fs1 ?i) buf = Inr (Inr (), fs2)"
      "group_write (set_group fs2 ?i ((block_group_of ?i (desc_at fs ?i))\<lparr>bg_free_blocks :=
         bg_free_blocks (block_group_of ?i (desc_at fs ?i)) + 1\<rparr>)) ?i = Inr fs3"
      "write_superblock (fs3\<lparr>e2_superblock := (e2_superblock fs3)\<lparr>sb_free_blocks := sb_free_blocks (e2_superblock fs3) + 1\<rparr>\<rparr>) = Inr fs4"
      and re: "realloc n fs1 fs4 (insert (block_no fs1 ?i ?k) (set (free_list fs1))) {}"
      using release_ok[OF L(1) i1 g(3) pre s(2,3)] by blast
    have "ext2_free_block fs b = Inr fs4" using used' s(1) w by (simp add: unf Let_def del: One_nat_def)
    moreover have "realloc n fs fs4 (insert b (set (free_list fs))) {}"
      using realloc_trans[OF loaded_realloc[OF g(2)] re] no bno L(6) by simp
    ultimately show ?thesis using True by auto
  qed
qed

lemma realloc_in_groups: "realloc n fs fs' F' new \<Longrightarrow> in_groups fs' = in_groups fs"
  using same_shapeD(5,8)[OF reallocD(2), of n fs fs' F' new] by (simp add: in_groups_def fun_eq_iff)

lemma free_list_in_groups: "b \<in> set (free_list fs) \<Longrightarrow> in_groups fs b"
  by (auto simp: in_free_list in_groups_def block_no_def free_in_def)

text \<open>Blocks that may be released: they exist, belong to a group and hold no metadata.\<close>

definition releasable :: "nat \<Rightarrow> 'a ext2_scheme \<Rightarrow> nat \<Rightarrow> bool" where
  "releasable n fs b \<longleftrightarrow> b < n \<and> b \<notin> set (meta_list fs) \<and> in_groups fs b"

lemma realloc_releasable: "realloc n fs fs' F' new \<Longrightarrow> releasable n fs' = releasable n fs"
  using reallocD(3)[of n fs fs' F' new] realloc_in_groups[of n fs fs' F' new] by (simp add: releasable_def fun_eq_iff)

lemma free_list_releasable: "ext2_ok n fs \<Longrightarrow> b \<in> set (free_list fs) \<Longrightarrow> releasable n fs b"
  using ext2_okD(11)[of n fs b] free_list_in_groups[of b fs] by (simp add: releasable_def)

lemma ext2_free_blocks_ok:
  assumes "ext2_ok n fs" "\<forall>b \<in> set bs. releasable n fs b"
  shows "\<exists>fs'. ext2_free_blocks fs bs = Inr fs' \<and> realloc n fs fs' (set (free_list fs) \<union> set bs) {}"
  using assms
proof (induction bs arbitrary: fs)
  case Nil
  then show ?case using realloc_refl by force
next
  case (Cons b bs)
  then have "b < n" "b \<notin> set (meta_list fs)" "in_groups fs b" by (simp_all add: releasable_def)
  with ext2_free_block_ok[OF Cons.prems(1), of b] obtain fs1 where
    f: "ext2_free_block fs b = Inr fs1" "realloc n fs fs1 (insert b (set (free_list fs))) {}" by auto
  from Cons.IH[OF reallocD(1)[OF f(2)]] Cons.prems(2) realloc_releasable[OF f(2)] obtain fs2 where
    "ext2_free_blocks fs1 bs = Inr fs2" "realloc n fs1 fs2 (set (free_list fs1) \<union> set bs) {}" by auto
  with f realloc_trans[OF f(2)] reallocD(4)[OF f(2)] show ?case by auto
qed

section \<open>Allocation across groups\<close>

text \<open>The result of a successful allocation.\<close>

definition took :: "nat \<Rightarrow> bool \<Rightarrow> 'a ext2_scheme \<Rightarrow> 'a ext2_scheme \<Rightarrow> nat list \<Rightarrow> bool" where
  "took n z fs fs' bl \<longleftrightarrow> realloc n fs fs' (set (free_list fs) - set bl) (set bl) \<and> distinct bl \<and>
     set bl \<subseteq> set (free_list fs) \<and> (z \<longrightarrow> (\<forall>b \<in> set bl. block_at fs' b = replicate 1024 0))"

lemma tookD:
  assumes "took n z fs fs' bl"
  shows "realloc n fs fs' (set (free_list fs) - set bl) (set bl)" "distinct bl" "set bl \<subseteq> set (free_list fs)"
    "z \<Longrightarrow> b \<in> set bl \<Longrightarrow> block_at fs' b = replicate 1024 0" "set (free_list fs') = set (free_list fs) - set bl"
    "length (free_list fs') + length bl = length (free_list fs)" "ext2_ok n fs'"
proof -
  show r: "realloc n fs fs' (set (free_list fs) - set bl) (set bl)" "distinct bl" and sub: "set bl \<subseteq> set (free_list fs)"
    and "z \<Longrightarrow> b \<in> set bl \<Longrightarrow> block_at fs' b = replicate 1024 0"
    using assms by (auto simp: took_def)
  show eq: "set (free_list fs') = set (free_list fs) - set bl" and "ext2_ok n fs'" using reallocD[OF r(1)] by simp_all
  have "card (set (free_list fs')) + card (set bl) = card (set (free_list fs))"
    unfolding eq using sub by (metis List.finite_set card_Diff_subset card_mono le_add_diff_inverse2)
  with r(2) show "length (free_list fs') + length bl = length (free_list fs)"
    by (simp only: distinct_card distinct_free_list)
qed

lemma alloc_area_meta: "ext2_ok n fs \<Longrightarrow> b \<in> alloc_area fs \<Longrightarrow> b \<in> set (meta_list fs)"
  using in_meta[of _ fs] ext2_okD(7)[of n fs] by (auto simp: alloc_area_def)

lemma took_trans:
  assumes ok: "ext2_ok n fs" and a: "took n z fs fs1 bl1" and b: "took n z fs1 fs2 bl2"
  shows "took n z fs fs2 (bl1 @ bl2)"
proof -
  note A = tookD[OF a] and B = tookD[OF b]
  have "realloc n fs fs2 (set (free_list fs1) - set bl2) (set bl1 \<union> set bl2)" by (rule realloc_trans[OF A(1) B(1)])
  then have "realloc n fs fs2 (set (free_list fs) - set (bl1 @ bl2)) (set (bl1 @ bl2))" using A(5) by (simp add: Diff_eq Int_assoc)
  moreover have "distinct (bl1 @ bl2)" "set (bl1 @ bl2) \<subseteq> set (free_list fs)" using A B by auto
  moreover have "block_at fs2 c = replicate 1024 0" if z "c \<in> set (bl1 @ bl2)" for c
  proof (cases "c \<in> set bl2")
    case False
    with that have c: "c \<in> set bl1" by simp
    then have "c < n" "c \<notin> set (meta_list fs1)" using ext2_okD(11)[OF ok, of c] A(3) reallocD(3)[OF A(1)] by auto
    then have "block_at fs2 c = block_at fs1 c"
      using reallocD(5)[OF B(1), of c] alloc_area_meta[OF A(7)] False by blast
    with A(4)[OF that(1) c] show ?thesis by simp
  qed (use B(4)[OF that(1)] in simp)
  ultimately show ?thesis by (simp add: took_def)
qed

lemma allocate_in_group_took:
  assumes "ext2_ok n fs" "gi < e2_num_block_groups fs" "group_at fs gi = Inr g" "0 < num" "num \<le> length (free_in fs gi)"
  shows "\<exists>ret fs'. allocate_blocks_in_group fs gi num z = Inr (Inr ret, fs') \<and> took n z fs fs' ret \<and> length ret = num"
  using allocate_in_group_ok[OF assms, of z] by (auto simp: took_def)

lemma loaded_took: "loaded n fs fs1 \<Longrightarrow> took n z fs1 fs2 bl \<Longrightarrow> took n z fs fs2 bl"
  using realloc_trans[OF loaded_realloc, of n fs fs1] loadedD(6)[of n fs fs1] by (auto simp: took_def)

lemma max_free_in_zero:
  assumes "\<forall>i < e2_num_block_groups fs. length (free_in fs i) \<le> length (free_in fs m)" "length (free_in fs m) = 0"
  shows "free_list fs = []"
  using assms by (simp add: free_list_def)

lemma alloc_across_ok:
  assumes "ext2_ok n fs" "\<forall>b \<in> set ret. releasable n fs b"
  shows "if needed \<le> length (free_list fs)
    then \<exists>bl fs'. alloc_across z fs needed ret = Inr (Inr (ret @ bl), fs') \<and> took n z fs fs' bl \<and> length bl = needed
    else \<exists>fs'. alloc_across z fs needed ret = Inr (Inl ENOSPC, fs') \<and>
           realloc n fs fs' (set (free_list fs) \<union> set ret) (set (free_list fs))"
  using assms
proof (induction needed arbitrary: fs ret rule: less_induct)
  case (less needed)
  note ok = less.prems(1)
  show ?case
  proof (cases "needed = 0")
    case True
    then show ?thesis using realloc_refl[OF ok]
      by (subst (1 2) alloc_across.simps) (auto simp: took_def)
  next
    case False
    from most_spacious_ok[OF ok, of 0 _ None] obtain m fs1 where
      m: "most_spacious fs None 0 (e2_num_block_groups fs) = Inr (Some m, fs1)" "loaded n fs fs1" "m < e2_num_block_groups fs"
        "e2_block_groups fs1 ! m \<noteq> None" "\<forall>i < e2_num_block_groups fs. length (free_in fs i) \<le> length (free_in fs m)" by auto
    note L = loadedD[OF m(2)]
    have m1: "m < e2_num_block_groups fs1" using m(3) L(7) by simp
    let ?g = "block_group_of m (desc_at fs1 m)"
    have g: "group_at fs1 m = Inr ?g" by (rule group_at_loaded[OF L(1) m1 m(4)])
    have cnt: "unat (bg_free_blocks ?g) = length (free_in fs m)" using free_count[OF L(1) m1] L(5) by simp
    show ?thesis
    proof (cases "length (free_in fs m) = 0")
      case zero: True
      then have "free_list fs = []" by (rule max_free_in_zero[OF m(5)])
      moreover have "bg_free_blocks ?g = 0" using cnt zero by (simp add: unat_eq_zero)
      then have "alloc_across z fs needed ret = bindR (ext2_free_blocks fs1 ret) (\<lambda>fs2. Inr (Inl ENOSPC, fs2))"
        using False m(1) g by (subst alloc_across.simps) simp
      moreover have "\<forall>b \<in> set ret. releasable n fs1 b"
        using less.prems(2) realloc_releasable[OF loaded_realloc[OF m(2)]] by simp
      from ext2_free_blocks_ok[OF L(1) this] obtain fs2 where
        "ext2_free_blocks fs1 ret = Inr fs2" "realloc n fs1 fs2 (set (free_list fs1) \<union> set ret) {}" by blast
      ultimately show ?thesis using False realloc_trans[OF loaded_realloc[OF m(2)]] L(6) by fastforce
    next
      case pos: False
      let ?k = "min (length (free_in fs m)) needed"
      have "0 < ?k" "?k \<le> length (free_in fs1 m)" using pos False L(5) by auto
      from allocate_in_group_took[OF L(1) m1 g this, of z] obtain bl fs2 where
        a: "allocate_blocks_in_group fs1 m ?k z = Inr (Inr bl, fs2)" "took n z fs1 fs2 bl" "length bl = ?k" by blast
      have t: "took n z fs fs2 bl" by (rule loaded_took[OF m(2) a(2)])
      note T = tookD[OF t]
      have "bg_free_blocks ?g \<noteq> 0" using cnt pos by auto
      then have step: "alloc_across z fs needed ret = alloc_across z fs2 (needed - ?k) (ret @ bl)"
        using False m(1) g a cnt by (subst alloc_across.simps) simp
      have rel: "\<forall>b \<in> set (ret @ bl). releasable n fs2 b"
        using less.prems(2) free_list_releasable[OF ok] T(3) realloc_releasable[OF T(1)] by auto
      have "needed - ?k < needed" using \<open>0 < ?k\<close> False by simp
      note IH = less.IH[OF this T(7) rel]
      have le: "needed - ?k \<le> length (free_list fs2) \<longleftrightarrow> needed \<le> length (free_list fs)" using T(6) a(3) by linarith
      show ?thesis
      proof (cases "needed \<le> length (free_list fs)")
        case True
        with IH le obtain bl2 fs' where "alloc_across z fs2 (needed - ?k) (ret @ bl) = Inr (Inr ((ret @ bl) @ bl2), fs')"
          "took n z fs2 fs' bl2" "length bl2 = needed - ?k" by auto
        with True step a(3) took_trans[OF ok t] show ?thesis by (auto intro!: exI[of _ "bl @ bl2"])
      next
        case False
        with IH le obtain fs' where "alloc_across z fs2 (needed - ?k) (ret @ bl) = Inr (Inl ENOSPC, fs')"
          and r: "realloc n fs2 fs' (set (free_list fs2) \<union> set (ret @ bl)) (set (free_list fs2))" by auto
        moreover have "realloc n fs fs' (set (free_list fs) \<union> set ret) (set (free_list fs))"
          using realloc_trans[OF T(1) r] by (rule realloc_mono) (use T(3,5) in auto)
        ultimately show ?thesis using False step by simp
      qed
    qed
  qed
qed

lemma allocate_blocks_ok:
  assumes ok: "ext2_ok n fs" and num: "0 < num"
  shows "if num \<le> length (free_list fs)
    then \<exists>bl fs'. allocate_blocks fs num z = Inr (Inr bl, fs') \<and> took n z fs fs' bl \<and> length bl = num
    else \<exists>fs'. allocate_blocks fs num z = Inr (Inl ENOSPC, fs') \<and>
           realloc n fs fs' (set (free_list fs)) (set (free_list fs))"
proof -
  from find_target_ok[OF ok, of 0 _ num] obtain t fs1 where
    t: "find_target fs num 0 (e2_num_block_groups fs) = Inr (t, fs1)" "loaded n fs fs1"
      "case t of Some gi \<Rightarrow> gi < e2_num_block_groups fs \<and> num \<le> length (free_in fs gi) \<and> e2_block_groups fs1 ! gi \<noteq> None
       | None \<Rightarrow> \<forall>i. 0 \<le> i \<and> i < e2_num_block_groups fs \<longrightarrow> length (free_in fs i) < num" by auto
  note L = loadedD[OF t(2)]
  show ?thesis
  proof (cases t)
    case (Some gi)
    with t(3) have gi: "gi < e2_num_block_groups fs1" "num \<le> length (free_in fs1 gi)" "e2_block_groups fs1 ! gi \<noteq> None"
      using L(5,7) by auto
    from allocate_in_group_took[OF L(1) gi(1) group_at_loaded[OF L(1) gi(1,3)] num gi(2), of z] obtain bl fs' where
      "allocate_blocks_in_group fs1 gi num z = Inr (Inr bl, fs')" "took n z fs1 fs' bl" "length bl = num" by blast
    moreover have "num \<le> length (free_list fs)" using gi length_free_in_le[of gi fs] L(5,7) by simp
    ultimately show ?thesis using Some t(1) num loaded_took[OF t(2)] by (auto simp: allocate_blocks_def)
  next
    case None
    from alloc_across_ok[OF L(1), of "[]" num z] None t(1) num L(6) show ?thesis
      using loaded_took[OF t(2)] realloc_trans[OF loaded_realloc[OF t(2)]]
      by (auto simp: allocate_blocks_def split: if_splits)
  qed
qed

section \<open>Sequences of operations\<close>

datatype alloc_op = AllocOp nat bool | FreeOp nat

fun alloc_run :: "alloc_op list \<Rightarrow> 'a ext2_scheme \<Rightarrow> (nat list ret list \<times> 'a ext2_scheme) run" where
  "alloc_run [] fs = Inr ([], fs)"
| "alloc_run (AllocOp num z # ops) fs =
     bindR (allocate_blocks fs num z) (\<lambda>(r, fs1). bindR (alloc_run ops fs1) (\<lambda>(rs, fs2). Inr (r # rs, fs2)))"
| "alloc_run (FreeOp b # ops) fs = bindR (ext2_free_block fs b) (\<lambda>fs1. alloc_run ops fs1)"

text \<open>
  The abstract allocator has a set of free blocks. It chooses any distinct free blocks, and refuses
  exactly the requests for no block and for more blocks than there are.
\<close>

fun alloc_spec :: "(nat \<Rightarrow> bool) \<Rightarrow> alloc_op list \<Rightarrow> nat set \<Rightarrow> nat list ret list \<Rightarrow> nat set \<Rightarrow> bool" where
  "alloc_spec valid [] F rs F' \<longleftrightarrow> rs = [] \<and> F' = F"
| "alloc_spec valid (AllocOp num z # ops) F rs F' \<longleftrightarrow>
     (case rs of
        [] \<Rightarrow> False
      | Inr bl # rs' \<Rightarrow> 0 < num \<and> length bl = num \<and> distinct bl \<and> set bl \<subseteq> F \<and> alloc_spec valid ops (F - set bl) rs' F'
      | Inl e # rs' \<Rightarrow> (num = 0 \<and> e = EINVAL \<or> card F < num \<and> e = ENOSPC) \<and> alloc_spec valid ops F rs' F')"
| "alloc_spec valid (FreeOp b # ops) F rs F' \<longleftrightarrow> alloc_spec valid ops (if valid b then insert b F else F) rs F'"

definition harmless :: "nat \<Rightarrow> 'a ext2_scheme \<Rightarrow> alloc_op \<Rightarrow> bool" where
  "harmless n fs op = (case op of AllocOp _ _ \<Rightarrow> True | FreeOp b \<Rightarrow> b < n \<and> b \<notin> set (meta_list fs))"

lemma realloc_harmless: "realloc n fs fs' F' new \<Longrightarrow> harmless n fs' = harmless n fs"
  using reallocD(3)[of n fs fs' F' new] by (simp add: harmless_def fun_eq_iff split: alloc_op.split)

lemma card_free_list: "card (set (free_list fs)) = length (free_list fs)"
  by (rule distinct_card[OF distinct_free_list])

lemma allocate_blocks_zero: "allocate_blocks fs 0 z = Inr (Inl EINVAL, fs)"
  by (simp add: allocate_blocks_def)

lemma alloc_run_refines:
  assumes "ext2_ok n fs" "\<forall>op \<in> set ops. harmless n fs op"
  shows "\<exists>rs fs'. alloc_run ops fs = Inr (rs, fs') \<and> ext2_ok n fs' \<and>
           alloc_spec (in_groups fs) ops (set (free_list fs)) rs (set (free_list fs'))"
  using assms
proof (induction ops arbitrary: fs)
  case (Cons op ops)
  have IH: "\<exists>rs fs'. alloc_run ops fs1 = Inr (rs, fs') \<and> ext2_ok n fs' \<and>
      alloc_spec (in_groups fs) ops F1 rs (set (free_list fs'))" if "realloc n fs fs1 F1 new" for fs1 F1 new
    using Cons.IH[OF reallocD(1)[OF that]] Cons.prems(2) realloc_harmless[OF that] realloc_in_groups[OF that] reallocD(4)[OF that]
    by simp
  show ?case
  proof (cases op)
    case (FreeOp b)
    with Cons.prems have "b < n" "b \<notin> set (meta_list fs)" by (simp_all add: harmless_def)
    from ext2_free_block_ok[OF Cons.prems(1) this] IH FreeOp show ?thesis by fastforce
  next
    case (AllocOp num z)
    show ?thesis
    proof (cases "num = 0")
      case True
      from IH[OF realloc_refl[OF Cons.prems(1)]] AllocOp True show ?thesis by (fastforce simp: allocate_blocks_zero)
    next
      case pos: False
      show ?thesis
      proof (cases "num \<le> length (free_list fs)")
        case True
        with allocate_blocks_ok[OF Cons.prems(1), of num z] pos obtain bl fs1 where
          a: "allocate_blocks fs num z = Inr (Inr bl, fs1)" "took n z fs fs1 bl" "length bl = num" by auto
        from IH[OF tookD(1)[OF a(2)]] a AllocOp pos tookD(2,3)[OF a(2)] show ?thesis by fastforce
      next
        case False
        with allocate_blocks_ok[OF Cons.prems(1), of num z] pos obtain fs1 where
          a: "allocate_blocks fs num z = Inr (Inl ENOSPC, fs1)" "realloc n fs fs1 (set (free_list fs)) (set (free_list fs))" by auto
        from IH[OF a(2)] a AllocOp False show ?thesis by (fastforce simp: card_free_list)
      qed
    qed
  qed
qed simp

text \<open>
  C36: on a consistent file system every sequence of allocations and releases runs without a fault
  and refines the abstract allocator: an allocation returns the requested number of distinct blocks
  that were free and no longer are, a request for more than there is returns \<open>ENOSPC\<close> and leaves the
  set of free blocks as it was, a released block is free again, and the file system stays consistent.
\<close>

theorem ext2_allocator_refines:
  assumes "ext2_ok n fs" and "\<forall>op \<in> set ops. harmless n fs op"
  shows "\<exists>rs fs'. alloc_run ops fs = Inr (rs, fs') \<and> ext2_ok n fs' \<and>
           alloc_spec (in_groups fs) ops (set (free_list fs)) rs (set (free_list fs'))"
  using alloc_run_refines[OF assms] .

definition demo_desc :: group_desc where
  "demo_desc = \<lparr>gd_block_usage_bitmap = 3, gd_inode_usage_bitmap = 4, gd_inode_table = 5, gd_free_blocks = 10,
     gd_free_inodes = 0, gd_num_directories = 0, gd_unused = replicate 14 0\<rparr>"

definition demo_fs :: ext2 where
  "demo_fs = \<lparr>fb_file = \<lparr>bf_bytes = replicate 2048 0 @ group_desc_bytes demo_desc @ replicate 992 0 @
         0x1F # replicate 1023 0 @ replicate 12288 0, bf_read_error = \<lambda>_. None, bf_write_error = \<lambda>_. None\<rparr>,
     fb_block_size = 1024, fb_junk = \<lambda>_. 0, fb_inode_cache = lru_new,
     e2_superblock = (superblock_of (replicate 512 0))\<lparr>sb_blocks_per_group := 15, sb_free_blocks := 10, sb_inodes_per_group := 8,
       sb_inode_size := 128\<rparr>,
     e2_block_group_descriptor_table = 2, e2_blocks_per_inode_table = 1, e2_sectors_per_inode_table = 2,
     e2_sectors_per_block = 2, e2_num_block_groups = 1, e2_inodes_per_block = 8, e2_block_pointers_per_block = 256,
     e2_block_groups = [None]\<rparr>"

lemma demo_desc_at: "desc_at demo_fs 0 = demo_desc"
  by (simp add: desc_at_def demo_fs_def block_at_def chunk_def gdt_block_def group_desc_of_bytes demo_desc_def)

lemma demo_bitmap: "block_at demo_fs 3 = 0x1F # replicate 1023 0"
  by (simp add: demo_fs_def block_at_def chunk_def demo_desc_def)

lemma demo_ok: "ext2_ok 16 demo_fs" "meta_list demo_fs = [1, 2, 3, 4, 5]" "free_list demo_fs = [6..<16]"
proof -
  have bb: "block_bitmap_of demo_fs 0 = 3" "inode_bitmap_of demo_fs 0 = 4" "inode_table_of demo_fs 0 = 5"
    by (simp_all add: demo_desc_at) (simp_all add: demo_desc_def)
  have num: "e2_num_block_groups demo_fs = 1" "blocks_per_group demo_fs = 15" "e2_blocks_per_inode_table demo_fs = 1"
    by (simp_all add: demo_fs_def)
  show meta: "meta_list demo_fs = [1, 2, 3, 4, 5]"
    by (simp add: meta_list_def group_meta_def num bb upt_rec)
  have fi: "free_in demo_fs 0 = [5..<15]"
    by (simp add: free_in_def num bb demo_bitmap clear_bits_def bitmap_bit_def upt_rec bit_simps)
  show fl: "free_list demo_fs = [6..<16]"
    by (simp add: free_list_def num fi block_no_def upt_rec)
  have "store_ok 16 demo_fs" by (simp add: store_ok_def demo_fs_def demo_desc_def)
  moreover have "superblock_ok (e2_superblock demo_fs)" by (simp add: demo_fs_def superblock_ok_def superblock_of_def)
  moreover have "fb_block_size demo_fs = 1024" "length (e2_block_groups demo_fs) = 1" "e2_block_groups demo_fs ! 0 = None"
    "sb_free_blocks (e2_superblock demo_fs) = 10" by (simp_all add: demo_fs_def)
  ultimately show "ext2_ok 16 demo_fs"
    by (simp add: ext2_ok_def num meta fl fi demo_desc_at) (simp add: demo_desc_def)
qed

theorem ext2_allocator_refines_witness:
  "\<exists>bl fs'. alloc_run [AllocOp 3 True, FreeOp 7] demo_fs = Inr ([Inr bl], fs') \<and>
     length bl = 3 \<and> distinct bl \<and> set bl \<subseteq> set [6..<16] \<and> set (free_list fs') = insert 7 (set [6..<16] - set bl)"
proof -
  have h: "\<forall>op \<in> set [AllocOp 3 True, FreeOp 7]. harmless 16 demo_fs op" by (simp add: harmless_def demo_ok(2))
  have v: "in_groups demo_fs 7" by (simp add: in_groups_def demo_fs_def)
  obtain rs fs' where r: "alloc_run [AllocOp 3 True, FreeOp 7] demo_fs = Inr (rs, fs')"
    "alloc_spec (in_groups demo_fs) [AllocOp 3 True, FreeOp 7] (set (free_list demo_fs)) rs (set (free_list fs'))"
    using ext2_allocator_refines[OF demo_ok(1) h] by blast
  from r(2) have "\<exists>bl. rs = [Inr bl] \<and> length bl = 3 \<and> distinct bl \<and> set bl \<subseteq> set [6..<16] \<and>
      set (free_list fs') = insert 7 (set [6..<16] - set bl)"
    by (cases rs) (auto simp: demo_ok(3) v split: sum.splits)
  with r(1) show ?thesis by blast
qed

end
