(* ===== verification/Ext2FileSpec.thy ===== *)
theory Ext2FileSpec
  imports Ext2Inode Ext2AllocRun
begin

text \<open>
  What the operations on file contents promise. On a consistent file system with 1 KiB blocks an inode
  with its block pointers is an array of bytes: \<open>read\<close> returns a slice of it and \<open>write\<close> replaces a slice,
  and only blocks of the file and the inode table change.
\<close>

section \<open>Writing single blocks\<close>

lemma put_block_realloc:
  assumes ok: "ext2_ok n fs" and b: "b < n" "b \<notin> alloc_area fs" and len: "length bytes = 1024"
  shows "realloc n fs (put_block fs b bytes) (set (free_list fs)) {b}"
proof -
  note D = ext2_okD[OF ok]
  let ?fs = "put_block fs b bytes"
  have blk: "block_at ?fs c = (if c = b then bytes else block_at fs c)" if "c < n" for c
    using block_at_put_block[OF D(1) b(1) that, of bytes] len D(2) by simp
  have st: "store_ok n ?fs" using store_put_block[OF D(1) b(1)] len D(2) by simp
  have desc: "desc_at ?fs i = desc_at fs i" if "i < e2_num_block_groups fs" for i
  proof (rule desc_at_cong)
    have "gdt_block i < n" using in_meta(2)[OF that] D(10) by blast
    moreover have "gdt_block i \<noteq> b" using b(2) that by (auto simp: alloc_area_def)
    ultimately show "block_at ?fs (gdt_block i) = block_at fs (gdt_block i)" using blk by simp
  qed
  have bm: "block_at ?fs (block_bitmap_of fs i) = block_at fs (block_bitmap_of fs i)" if "i < e2_num_block_groups fs" for i
  proof -
    have "block_bitmap_of fs i < n" using in_meta(3)[OF that] D(10) by blast
    moreover have "block_bitmap_of fs i \<noteq> b" using b(2) that by (auto simp: alloc_area_def)
    ultimately show ?thesis using blk by simp
  qed
  have meta: "meta_list ?fs = meta_list fs" using desc by (intro meta_list_cong) (simp_all add: group_meta_def)
  have fi: "free_in ?fs i = free_in fs i" if "i < e2_num_block_groups fs" for i
    using bm[OF that] desc[OF that] by (simp add: free_in_def)
  have "free_list ?fs = free_list fs"
    unfolding free_list_def put_block_ext2 using fi by (intro arg_cong[of _ _ concat] map_cong) (auto simp: block_no_def)
  moreover from this have "ext2_ok n ?fs" using ok st meta fi desc unfolding ext2_ok_def by (simp del: One_nat_def cong: option.case_cong)
  ultimately show ?thesis using meta desc blk by (simp add: realloc_def)
qed

lemma realloc_stack_buf: "realloc n fs fs' F' new \<Longrightarrow> stack_buf fs' = stack_buf fs"
  using same_shapeD(2)[OF reallocD(2), of n fs fs' F' new] by (simp add: stack_buf_def fun_eq_iff)

lemma length_stack_buf [simp]: "length (stack_buf fs n) = n"
  by (simp add: stack_buf_def)

section \<open>The inode table\<close>

definition table_ok :: "'a ext2_scheme \<Rightarrow> bool" where
  "table_ok fs \<longleftrightarrow> e2_inodes_per_block fs = 8 \<and> sb_inode_size (e2_superblock fs) = 128 \<and> 0 < inodes_per_group fs \<and>
     inodes_per_group fs \<le> 8192 \<and> inodes_per_group fs \<le> 8 * e2_blocks_per_inode_table fs \<and>
     e2_block_pointers_per_block fs = 256"

lemma same_shape_table: "same_shape fs fs' \<Longrightarrow> table_ok fs' = table_ok fs"
  using same_shapeD[of fs fs'] by (simp add: table_ok_def)

definition valid_id :: "'a ext2_scheme \<Rightarrow> nat \<Rightarrow> bool" where
  "valid_id fs i \<longleftrightarrow> 0 < i \<and> i < 2 ^ 32 \<and> (i - 1) div inodes_per_group fs < e2_num_block_groups fs"

definition slot_block :: "'a ext2_scheme \<Rightarrow> nat \<Rightarrow> nat" where
  "slot_block fs i = inode_table_of fs ((i - 1) div inodes_per_group fs) + (i - 1) mod inodes_per_group fs div 8"

definition slot_off :: "'a ext2_scheme \<Rightarrow> nat \<Rightarrow> nat" where
  "slot_off fs i = (i - 1) mod inodes_per_group fs mod 8 * 128"

lemma slot_off_bound: "slot_off fs i + 128 \<le> 1024"
proof -
  have "(i - 1) mod inodes_per_group fs mod 8 < 8" by simp
  then have "(i - 1) mod inodes_per_group fs mod 8 * 128 \<le> 7 * 128" by (intro mult_le_mono1) linarith
  then show ?thesis by (simp add: slot_off_def)
qed

lemma slot_block_ok:
  assumes ok: "ext2_ok n fs" "table_ok fs" and v: "valid_id fs i"
  shows "slot_block fs i \<in> set (meta_list fs)" "slot_block fs i < n" "slot_block fs i \<notin> alloc_area fs"
proof -
  let ?g = "(i - 1) div inodes_per_group fs"
  have g: "?g < e2_num_block_groups fs" using v by (simp add: valid_id_def)
  have "(i - 1) mod inodes_per_group fs < inodes_per_group fs" using ok(2) by (simp add: table_ok_def)
  then have "(i - 1) mod inodes_per_group fs < 8 * e2_blocks_per_inode_table fs" using ok(2) by (simp add: table_ok_def)
  then have t: "(i - 1) mod inodes_per_group fs div 8 < e2_blocks_per_inode_table fs" by (simp add: less_mult_imp_div_less mult.commute)
  then show "slot_block fs i \<in> set (meta_list fs)" unfolding slot_block_def by (rule in_meta(5)[OF g])
  then show "slot_block fs i < n" using ext2_okD(10)[OF ok(1)] by blast
  have x: "slot_block fs i \<in> set (group_meta fs ?g)" using t by (simp add: group_meta_def slot_block_def)
  note M = meta_apart[OF ok(1) g x]
  have "slot_block fs i \<noteq> block_bitmap_of fs ?g"
    using M(3) t by (auto simp: group_meta_def slot_block_def)
  moreover have "slot_block fs i \<noteq> block_bitmap_of fs j" if "j < e2_num_block_groups fs" "j \<noteq> ?g" for j
    using M(4)[OF that(1)] that(2) block_bitmap_in(1)[of fs j] by metis
  ultimately show "slot_block fs i \<notin> alloc_area fs" using M(1,2) unfolding alloc_area_def by blast
qed

lemma loaded_slots: "loaded n fs fs' \<Longrightarrow> slot_block fs' i = slot_block fs i \<and> slot_off fs' i = slot_off fs i \<and> valid_id fs' i = valid_id fs i"
  using loadedD(3)[of n fs fs'] same_shapeD(5,9)[OF reallocD(2)[OF loaded_realloc], of n fs fs']
  by (simp add: slot_block_def slot_off_def valid_id_def)

lemma table_slot_ok:
  assumes ok: "ext2_ok n fs" "table_ok fs" and v: "valid_id fs (in_id ino)"
  shows "\<exists>fs'. table_slot fs ino = Inr ((slot_block fs (in_id ino), slot_off fs (in_id ino)), fs') \<and> loaded n fs fs'"
proof -
  let ?id = "in_id ino" and ?ipg = "inodes_per_group fs"
  let ?g = "(?id - 1) div ?ipg" and ?i = "(?id - 1) mod ?ipg"
  note D = ext2_okD[OF ok(1)]
  have T: "e2_inodes_per_block fs = 8" "sb_inode_size (e2_superblock fs) = 128" "0 < ?ipg" "?ipg \<le> 8192"
    using ok(2) by (simp_all add: table_ok_def)
  have s: "sub32 ?id 1 = ?id - 1" using v by (intro sub32_le) (simp_all add: valid_id_def)
  obtain fs' where fs': "get_block_group fs ?g = Inr (Some ?g, fs')" "loaded n fs fs'"
      "group_at fs' ?g = Inr (block_group_of ?g (desc_at fs ?g))"
    using get_block_group_ok[OF ok(1), of ?g] v by (auto simp: valid_id_def)
  note S = same_shapeD[OF reallocD(2)[OF loaded_realloc[OF fs'(2)]]]
  have i: "?i < 8192" using mod_less_divisor[OF T(3), of "?id - 1"] T(4) by linarith
  then have "?i * 128 < 8192 * 128" by (intro mult_strict_right_mono) simp_all
  then have "mul32 ?i 128 = ?i * 128" by (intro mul32_less) simp
  moreover have "?i * 128 div 1024 = ?i div 8" by simp
  ultimately have b: "in_block fs' ino = Inr (?i div 8)" "in_index fs' ino = Inr ?i"
    using T(2,3) s D(2) S(1,9,10) by (simp_all add: in_block_def in_index_def modR_def divR_def del: One_nat_def)
  have lt: "slot_block fs ?id < n" using slot_block_ok(2)[OF ok v] .
  have "n * 1024 < 2 ^ 32" using D(1,2) by (simp add: store_ok_def)
  then have "add32 (inode_table_of fs ?g) (?i div 8) = slot_block fs ?id"
    using lt unfolding slot_block_def by (intro add32_less) linarith
  then show ?thesis
    using fs' b T(1,3) s S(6) by (simp add: table_slot_def in_block_group_def divR_def modR_def slot_off_def block_group_of_def del: One_nat_def)
qed

text \<open>The inode after \<open>write_inode_entry\<close>: the raw inode has taken over the metadata.\<close>

definition synced :: "ext2_inode \<Rightarrow> ext2_inode" where
  "synced ino = ino\<lparr>in_raw := (in_raw ino)\<lparr>ri_size := of_nat (im_size (in_metadata ino)), ri_mode := ucast (im_mode (in_metadata ino)),
     ri_uid := of_nat (im_uid (in_metadata ino)), ri_gid := of_nat (im_gid (in_metadata ino))\<rparr>, in_dirty := False\<rparr>"

lemma synced_fields [simp]:
  "in_id (synced ino) = in_id ino" "in_metadata (synced ino) = in_metadata ino" "in_exists (synced ino) = in_exists ino"
  "in_block_pointers (synced ino) = in_block_pointers ino" "in_pointer_blocks (synced ino) = in_pointer_blocks ino"
  "raw_inode_ok (in_raw (synced ino)) = raw_inode_ok (in_raw ino)"
  "ri_s_pointer (in_raw (synced ino)) = ri_s_pointer (in_raw ino)" "ri_d_pointer (in_raw (synced ino)) = ri_d_pointer (in_raw ino)"
  "ri_t_pointer (in_raw (synced ino)) = ri_t_pointer (in_raw ino)"
  "ri_block_pointers (in_raw (synced ino)) = ri_block_pointers (in_raw ino)"
  by (simp_all add: synced_def raw_inode_ok_def)

lemma write_inode_entry_ok:
  assumes ok: "ext2_ok n fs" "table_ok fs" and v: "valid_id fs (in_id ino)" and r: "raw_inode_ok (in_raw ino)"
  shows "\<exists>fs'. write_inode_entry fs ino = Inr (fs', synced ino) \<and>
    realloc n fs fs' (set (free_list fs)) {slot_block fs (in_id ino)} \<and>
    block_at fs' (slot_block fs (in_id ino)) =
      patch (block_at fs (slot_block fs (in_id ino))) (slot_off fs (in_id ino)) (raw_inode_bytes (in_raw (synced ino)))"
proof -
  let ?b = "slot_block fs (in_id ino)" and ?off = "slot_off fs (in_id ino)" and ?raw = "in_raw (synced ino)"
  let ?ino = "ino\<lparr>in_raw := ?raw\<rparr>"
  obtain fs1 where fs1: "table_slot fs ?ino = Inr ((?b, ?off), fs1)" "loaded n fs fs1"
    using table_slot_ok[OF ok, of ?ino] v by auto
  note L = loadedD[OF fs1(2)] and D = ext2_okD[OF loadedD(1)[OF fs1(2)]]
  note S = slot_block_ok[OF ok v]
  have len: "length (raw_inode_bytes ?raw) = 128" using r by simp
  have rd: "fs_read_block fs1 ?b (stack_buf fs1 (fb_block_size fs1)) = Inr (Inr (), block_at fs ?b)"
    using fs_read_block_ok[OF D(1) S(2)] L(2) by simp
  have lb: "length (block_at fs ?b) = 1024" using length_block_at[OF D(1) S(2)] D(2) L(2) by simp
  let ?buf = "patch (block_at fs ?b) ?off (raw_inode_bytes ?raw)"
  have lp: "length ?buf = 1024" "memcpy_to (block_at fs ?b) ?off (raw_inode_bytes ?raw) = Inr ?buf"
    using slot_off_bound[of fs "in_id ino"] len lb by simp_all
  have wr: "fs_write_block fs1 ?b ?buf = Inr (Inr (), put_block fs1 ?b ?buf)"
    using fs_write_block_ok[OF D(1) S(2)] lp(1) D(2) by simp
  have area: "?b \<notin> alloc_area fs1" using S(3) realloc_area[OF loaded_realloc[OF fs1(2)]] by simp
  have "realloc n fs1 (put_block fs1 ?b ?buf) (set (free_list fs1)) {?b}"
    by (rule put_block_realloc[OF L(1) S(2) area lp(1)])
  from realloc_trans[OF loaded_realloc[OF fs1(2)] this] have "realloc n fs (put_block fs1 ?b ?buf) (set (free_list fs)) {?b}"
    using L(6) by simp
  moreover have "block_at (put_block fs1 ?b ?buf) ?b = ?buf" using block_at_put_block[OF D(1) S(2) S(2)] lp(1) D(2) by simp
  moreover have "write_inode_entry fs ino = Inr (put_block fs1 ?b ?buf, synced ino)"
    using fs1(1) rd lp(2) wr by (simp add: write_inode_entry_def Let_def synced_def)
  ultimately show ?thesis by blast
qed

section \<open>File contents\<close>

text \<open>The blocks of a file in order, and the file as bytes.\<close>

definition view :: "'a ext2_scheme \<Rightarrow> u32 list \<Rightarrow> nat \<Rightarrow> u8 list" where
  "view fs bps i = (if i < length bps then block_at fs (unat (bps ! i)) else replicate 1024 0)"

text \<open>The data blocks of a file: existing, pairwise distinct, no metadata.\<close>

definition data_ok :: "nat \<Rightarrow> 'a ext2_scheme \<Rightarrow> u32 list \<Rightarrow> bool" where
  "data_ok n fs bps \<longleftrightarrow> distinct bps \<and> (\<forall>p \<in> set bps. p \<noteq> 0 \<and> unat p < n \<and> unat p \<notin> set (meta_list fs))"

lemma data_okD:
  assumes "data_ok n fs bps" "i < length bps"
  shows "bps ! i \<noteq> 0" "unat (bps ! i) \<noteq> 0" "unat (bps ! i) < n" "unat (bps ! i) \<notin> set (meta_list fs)"
    "j < length bps \<Longrightarrow> (unat (bps ! i) = unat (bps ! j)) = (i = j)"
proof -
  have p: "bps ! i \<in> set bps" using assms(2) by simp
  with assms(1) show "bps ! i \<noteq> 0" "unat (bps ! i) < n" "unat (bps ! i) \<notin> set (meta_list fs)" by (auto simp: data_ok_def)
  then show "unat (bps ! i) \<noteq> 0" by (simp add: unat_eq_zero)
  show "j < length bps \<Longrightarrow> (unat (bps ! i) = unat (bps ! j)) = (i = j)"
    using assms by (simp add: data_ok_def word_unat_eq_iff[symmetric] nth_eq_iff_index_eq)
qed

lemma data_area: "ext2_ok n fs \<Longrightarrow> b \<notin> set (meta_list fs) \<Longrightarrow> b \<notin> alloc_area fs"
  using alloc_area_meta[of n fs b] by blast

lemma realloc_data_ok: "realloc n fs fs' F' new \<Longrightarrow> data_ok n fs' bps = data_ok n fs bps"
  using reallocD(3)[of n fs fs' F' new] by (simp add: data_ok_def)

lemma sized_view: "ext2_ok n fs \<Longrightarrow> data_ok n fs bps \<Longrightarrow> sized 1024 (view fs bps)"
  using length_block_at[OF ext2_okD(1), of n fs] ext2_okD(2)[of n fs] data_okD(3)[of n fs bps]
  by (auto simp: sized_def view_def)

text \<open>Blocks outside the file do not matter.\<close>

lemma view_realloc:
  assumes ok: "ext2_ok n fs" and d: "data_ok n fs bps" and r: "realloc n fs fs' F' new" and "new \<inter> unat ` set bps = {}"
  shows "view fs' bps = view fs bps"
proof
  fix i
  show "view fs' bps i = view fs bps i"
  proof (cases "i < length bps")
    case True
    note B = data_okD[OF d True]
    have "unat (bps ! i) \<notin> new" using assms(4) True by auto
    with reallocD(5)[OF r B(3)] data_area[OF ok B(4)] True show ?thesis by (simp add: view_def)
  qed (simp add: view_def)
qed

lemma view_put_block:
  assumes ok: "ext2_ok n fs" and d: "data_ok n fs bps" and i: "i < length bps" and len: "length bytes = 1024"
  shows "view (put_block fs (unat (bps ! i)) bytes) bps = (view fs bps)(i := bytes)"
proof
  fix j
  show "view (put_block fs (unat (bps ! i)) bytes) bps j = ((view fs bps)(i := bytes)) j"
    using block_at_put_block[OF ext2_okD(1)[OF ok] data_okD(3)[OF d i] data_okD(3)[OF d, of j], of bytes]
      data_okD(5)[OF d, of j i] i len ext2_okD(2)[OF ok]
    by (auto simp: view_def)
qed

section \<open>The copy loops\<close>

text \<open>
  Both loops start inside the first block and continue at block boundaries: with \<open>left\<close> of \<open>len\<close> bytes to
  go, the block index is that of the next byte.
\<close>

definition at_pos :: "nat \<Rightarrow> nat \<Rightarrow> nat \<Rightarrow> nat \<Rightarrow> bool" where
  "at_pos start len left bi \<longleftrightarrow> left \<le> len \<and> (0 < left \<longrightarrow> bi = (start + (len - left)) div 1024 \<and>
     (left = len \<or> (start + (len - left)) mod 1024 = 0 \<and> start div 1024 < bi))"

lemma at_pos_init: "at_pos start len len (start div 1024)"
  by (simp add: at_pos_def)

lemma next_boundary: "a + (1024 - a mod 1024) = (a div 1024 + 1) * (1024 :: nat)"
proof -
  have "a mod 1024 \<le> 1024" "a = a div 1024 * 1024 + a mod 1024" by simp_all
  then show ?thesis by (simp only: add_mult_distrib)
qed

lemma at_pos_step:
  assumes p: "at_pos start len left bi" "0 < left" and c: "c = min left (1024 - (start + (len - left)) mod 1024)"
  shows "at_pos start len (left - c) (bi + 1)" "0 < c" "c \<le> left"
proof -
  let ?pos = "start + (len - left)"
  have m: "?pos mod 1024 < 1024" by simp
  show "0 < c" "c \<le> left" using p(2) c m by linarith+
  show "at_pos start len (left - c) (bi + 1)"
  proof (cases "left - c = 0")
    case False
    then have ce: "c = 1024 - ?pos mod 1024" using c by linarith
    have left: "left \<le> len" "bi = ?pos div 1024" using p by (simp_all add: at_pos_def)
    have "start + (len - (left - c)) = ?pos + c" using left(1) False by linarith
    also have "\<dots> = (bi + 1) * 1024" unfolding ce left(2) by (rule next_boundary)
    finally have np: "start + (len - (left - c)) = (bi + 1) * 1024" .
    have "start div 1024 \<le> bi" unfolding left(2) by (rule div_le_mono) simp
    with left(1) show ?thesis unfolding at_pos_def np by simp
  qed (simp add: at_pos_def)
qed

lemma patch_patch:
  "off + length xs + length ys \<le> length buf \<Longrightarrow> patch (patch buf off xs) (off + length xs) ys = patch buf off (xs @ ys)"
  by (simp add: patch_def ac_simps)

lemma at_pos_block:
  assumes "at_pos start len left bi" "0 < left" "start + len \<le> 1024 * length bps"
  shows "bi < length bps" "bi = (start + (len - left)) div 1024"
proof -
  show bi: "bi = (start + (len - left)) div 1024" using assms by (simp add: at_pos_def)
  have "left \<le> len" using assms(1) by (simp add: at_pos_def)
  then have "start + (len - left) < length bps * 1024" using assms(2,3) by linarith
  then show "bi < length bps" unfolding bi by (rule less_mult_imp_div_less)
qed

lemma at_pos_cases:
  assumes "at_pos start len left bi" "0 < left"
  shows "bi = start div 1024 \<and> len - left = 0 \<or> bi \<noteq> start div 1024 \<and> (start + (len - left)) mod 1024 = 0"
proof -
  have "bi = (start + (len - left)) div 1024" "left = len \<or> (start + (len - left)) mod 1024 = 0 \<and> start div 1024 < bi"
    using assms unfolding at_pos_def by blast+
  then show ?thesis by (metis add.right_neutral diff_self_eq_0 less_irrefl)
qed

lemma read_loop_step:
  assumes ok: "ext2_ok n fs" and d: "data_ok n fs (in_block_pointers ino)" and p: "at_pos start len left bi" "0 < left"
    and le: "start + len \<le> 1024 * length (in_block_pointers ino)" "len \<le> length buffer" "length buf = 1024"
    and c: "c = min left (1024 - (start + (len - left)) mod 1024)"
  shows "read_loop fs ino start len left bi buf buffer =
    read_loop fs ino start len (left - c) (bi + 1) (view fs (in_block_pointers ino) bi)
      (patch buffer (len - left) (bytes_at 1024 (view fs (in_block_pointers ino)) (start + (len - left)) c))"
proof -
  let ?bps = "in_block_pointers ino" and ?pos = "start + (len - left)"
  let ?f = "view fs ?bps"
  note D = ext2_okD[OF ok]
  note bi = at_pos_block[OF p le(1)] note B = data_okD[OF d bi(1)]
  have ptr: "get_block_pointer ino bi = unat (?bps ! bi)" using bi(1) by (simp add: get_block_pointer_def)
  have rd: "fs_read_block fs (unat (?bps ! bi)) buf = Inr (Inr (), ?f bi)"
    using fs_read_block_ok[OF D(1) B(3)] le(3) D(2) bi(1) by (simp add: view_def)
  have sz: "length (?f bi) = 1024" by (rule sizedD[OF sized_view[OF ok d]])
  have nz: "left = 0 \<longleftrightarrow> False" "unat (?bps ! bi) = 0 \<longleftrightarrow> False" "(1024 :: nat) = 0 \<longleftrightarrow> False" using p(2) B(2) by simp_all
  have m: "?pos mod 1024 < 1024" by simp
  have bytes: "bytes_at 1024 ?f ?pos c = take c (drop (?pos mod 1024) (?f bi))"
    unfolding bi(2) by (rule bytes_at_in_block[OF sized_view[OF ok d]]) (use c in simp_all)
  have cp: "c \<le> 1024 - ?pos mod 1024" "c \<le> left" "left \<le> len" using c p by (simp_all add: at_pos_def)
  have cm: "?pos mod 1024 + c \<le> 1024" using cp(1) m by linarith
  have mf: "memcpy_from (?f bi) (?pos mod 1024) c = Inr (bytes_at 1024 ?f ?pos c)" using cm sz bytes by simp
  have mt: "memcpy_to buffer (len - left) (bytes_at 1024 ?f ?pos c) = Inr (patch buffer (len - left) (bytes_at 1024 ?f ?pos c))"
    using cp(2,3) le(2) by (intro memcpy_to_ok) simp
  from at_pos_cases[OF p] show ?thesis
  proof (elim disjE conjE)
    assume bs: "bi = start div 1024" "len - left = 0"
    have pos: "?pos = start" by (simp only: bs(2) add_0_right)
    show ?thesis using mf mt unfolding c pos bs(2)
      by (subst read_loop.simps) (simp only: D(2) ptr rd Let_def if_True if_False nz Eq_TrueI[OF bs(1)] bindR_simps split_conv add_0_right)
  next
    assume bs: "bi \<noteq> start div 1024" "?pos mod 1024 = 0"
    show ?thesis using mf mt unfolding c bs(2)
      by (subst read_loop.simps) (simp only: D(2) ptr rd Let_def if_True if_False nz Eq_FalseI[OF bs(1)] bindR_simps split_conv diff_zero)
  qed
qed

lemma read_loop_ok:
  assumes ok: "ext2_ok n fs" and d: "data_ok n fs (in_block_pointers ino)"
    and le: "start + len \<le> 1024 * length (in_block_pointers ino)"
  shows "at_pos start len left bi \<Longrightarrow> len \<le> length buffer \<Longrightarrow> length buf = 1024 \<Longrightarrow>
    read_loop fs ino start len left bi buf buffer =
      Inr (0, patch buffer (len - left) (bytes_at 1024 (view fs (in_block_pointers ino)) (start + (len - left)) left))"
proof (induction left arbitrary: bi buf buffer rule: less_induct)
  case (less left)
  show ?case
  proof (cases "left = 0")
    case True
    then show ?thesis using ext2_okD(2)[OF ok] by (subst read_loop.simps) (simp add: patch_def bytes_at_def)
  next
    case False
    let ?f = "view fs (in_block_pointers ino)" and ?pos = "start + (len - left)"
    define c where "c = min left (1024 - ?pos mod 1024)"
    have pos: "0 < left" using False by simp
    note S = at_pos_step[OF less.prems(1) pos c_def]
    have ll: "left \<le> len" using less.prems(1) by (simp add: at_pos_def)
    let ?b1 = "patch buffer (len - left) (bytes_at 1024 ?f ?pos c)"
    have l1: "length ?b1 = length buffer" using S(3) ll less.prems(2) by simp
    have eq: "len - (left - c) = len - left + c" using S(3) ll by simp
    have sz: "length (?f bi) = 1024" by (rule sizedD[OF sized_view[OF ok d]])
    have "read_loop fs ino start len left bi buf buffer = read_loop fs ino start len (left - c) (bi + 1) (?f bi) ?b1"
      by (rule read_loop_step[OF ok d less.prems(1) pos le less.prems(2,3) c_def])
    also have "\<dots> = Inr (0, patch ?b1 (len - (left - c)) (bytes_at 1024 ?f (start + (len - (left - c))) (left - c)))"
      by (rule less.IH[OF _ S(1) _ sz]) (use S(2) pos l1 less.prems(2) in simp_all)
    also have "\<dots> = Inr (0, patch ?b1 (len - left + c) (bytes_at 1024 ?f (?pos + c) (left - c)))"
      unfolding eq by (simp only: add.assoc)
    also have "patch ?b1 (len - left + c) (bytes_at 1024 ?f (?pos + c) (left - c)) =
        patch buffer (len - left) (bytes_at 1024 ?f ?pos (c + (left - c)))"
      unfolding bytes_at_add
      by (rule patch_patch[of _ "bytes_at 1024 ?f ?pos c", unfolded length_bytes_at]) (use S(3) ll less.prems(2) in simp)
    finally show ?thesis using S(3) by simp
  qed
qed

lemma write_loop_step:
  assumes ok: "ext2_ok n fs" and d: "data_ok n fs (in_block_pointers ino)" and p: "at_pos start (length data) left bi" "0 < left"
    and le: "start + length data \<le> 1024 * length (in_block_pointers ino)" "length buf = 1024"
    and c: "c = min left (1024 - (start + (length data - left)) mod 1024)"
  shows "\<exists>fs1 buf1. write_loop ino start data left bi buf fs = write_loop ino start data (left - c) (bi + 1) buf1 fs1 \<and>
    length buf1 = 1024 \<and> realloc n fs fs1 (set (free_list fs)) (unat ` set (in_block_pointers ino)) \<and>
    view fs1 (in_block_pointers ino) = put_bytes 1024 (view fs (in_block_pointers ino)) (start + (length data - left))
      (take c (drop (length data - left) data))"
proof -
  let ?bps = "in_block_pointers ino" and ?pos = "start + (length data - left)" and ?k = "length data - left"
  let ?f = "view fs ?bps" and ?bytes = "take c (drop (length data - left) data)"
  note D = ext2_okD[OF ok]
  note bi = at_pos_block[OF p le(1)] note B = data_okD[OF d bi(1)]
  have ptr: "get_block_pointer ino bi = unat (?bps ! bi)" using bi(1) by (simp add: get_block_pointer_def)
  have rd: "fs_read_block fs (unat (?bps ! bi)) buf = Inr (Inr (), ?f bi)"
    using fs_read_block_ok[OF D(1) B(3)] le(2) D(2) bi(1) by (simp add: view_def)
  have sz: "length (?f bi) = 1024" by (rule sizedD[OF sized_view[OF ok d]])
  have nz: "left = 0 \<longleftrightarrow> False" "unat (?bps ! bi) = 0 \<longleftrightarrow> False" "(1024 :: nat) = 0 \<longleftrightarrow> False" using p(2) B(2) by simp_all
  have m: "?pos mod 1024 < 1024" by simp
  have cp: "c \<le> 1024 - ?pos mod 1024" "c \<le> left" "left \<le> length data" using c p by (simp_all add: at_pos_def)
  have lb: "length ?bytes = c" using cp(2,3) by simp
  have cm: "?pos mod 1024 + c \<le> 1024" using cp(1) m by linarith
  let ?buf = "patch (?f bi) (?pos mod 1024) ?bytes"
  let ?fs = "put_block fs (unat (?bps ! bi)) ?buf"
  have lbuf: "length ?buf = 1024" using cm lb sz by simp
  have mf: "memcpy_from data ?k c = Inr ?bytes" using cp(2,3) by simp
  have mt: "memcpy_to (?f bi) (?pos mod 1024) ?bytes = Inr ?buf" using cm lb sz by (intro memcpy_to_ok) simp
  have wr: "fs_write_block fs (unat (?bps ! bi)) ?buf = Inr (Inr (), ?fs)" using fs_write_block_ok[OF D(1) B(3)] lbuf D(2) by simp
  have eq: "write_loop ino start data left bi buf fs = write_loop ino start data (left - c) (bi + 1) ?buf ?fs"
    using at_pos_cases[OF p]
  proof (elim disjE conjE)
    assume bs: "bi = start div 1024" "?k = 0"
    have pos: "?pos = start" by (simp only: bs(2) add_0_right)
    show ?thesis using mf mt wr unfolding c pos bs(2)
      by (subst write_loop.simps) (simp only: D(2) ptr rd Let_def if_True if_False nz Eq_TrueI[OF bs(1)] bindR_simps split_conv add_0_right)
  next
    assume bs: "bi \<noteq> start div 1024" "?pos mod 1024 = 0"
    show ?thesis using mf mt wr unfolding c bs(2)
      by (subst write_loop.simps) (simp only: D(2) ptr rd Let_def if_True if_False nz Eq_FalseI[OF bs(1)] bindR_simps split_conv diff_zero)
  qed
  have "realloc n fs ?fs (set (free_list fs)) {unat (?bps ! bi)}"
    by (rule put_block_realloc[OF ok B(3) data_area[OF ok B(4)] lbuf])
  then have re: "realloc n fs ?fs (set (free_list fs)) (unat ` set ?bps)" by (rule realloc_mono) (use bi(1) in auto)
  have "view ?fs ?bps = ?f(bi := ?buf)" by (rule view_put_block[OF ok d bi(1) lbuf])
  also have "\<dots> = put_bytes 1024 ?f ?pos ?bytes"
    using put_bytes_in_block[OF sized_view[OF ok d], of ?pos ?bytes] cm lb by (simp only: bi(2)[symmetric] zero_less_numeral simp_thms)
  finally show ?thesis using eq lbuf re by blast
qed

lemma write_loop_ok:
  assumes "ext2_ok n fs" and "data_ok n fs (in_block_pointers ino)"
    and le: "start + length data \<le> 1024 * length (in_block_pointers ino)" and "at_pos start (length data) left bi" "length buf = 1024"
  shows "\<exists>fs'. write_loop ino start data left bi buf fs = Inr (Inr (), fs') \<and>
    realloc n fs fs' (set (free_list fs)) (unat ` set (in_block_pointers ino)) \<and>
    view fs' (in_block_pointers ino) = put_bytes 1024 (view fs (in_block_pointers ino)) (start + (length data - left)) (drop (length data - left) data)"
  using assms(1,2,4,5)
proof (induction left arbitrary: bi buf fs rule: less_induct)
  case (less left)
  note ok = less.prems(1) and d = less.prems(2)
  show ?case
  proof (cases "left = 0")
    case True
    then have "write_loop ino start data left bi buf fs = Inr (Inr (), fs)" using ext2_okD(2)[OF ok] by (subst write_loop.simps) simp
    moreover have "realloc n fs fs (set (free_list fs)) (unat ` set (in_block_pointers ino))"
      by (rule realloc_mono[OF realloc_refl[OF ok]]) simp_all
    ultimately show ?thesis using True put_bytes_Nil[OF sized_view[OF ok d]] by auto
  next
    case False
    let ?bps = "in_block_pointers ino" and ?k = "length data - left" and ?pos = "start + (length data - left)"
    define c where "c = min left (1024 - ?pos mod 1024)"
    have pos: "0 < left" using False by simp
    note S = at_pos_step[OF less.prems(3) pos c_def]
    have ll: "left \<le> length data" using less.prems(3) by (simp add: at_pos_def)
    have eq: "length data - (left - c) = ?k + c" using S(3) ll by simp
    obtain fs1 buf1 where 1: "write_loop ino start data left bi buf fs = write_loop ino start data (left - c) (bi + 1) buf1 fs1"
        "length buf1 = 1024" "realloc n fs fs1 (set (free_list fs)) (unat ` set ?bps)"
        "view fs1 ?bps = put_bytes 1024 (view fs ?bps) ?pos (take c (drop ?k data))"
      using write_loop_step[OF ok d less.prems(3) pos le less.prems(4) c_def] by blast
    have d1: "data_ok n fs1 ?bps" using d realloc_data_ok[OF 1(3)] by simp
    have lt: "left - c < left" using S(2) pos by simp
    obtain fs2 where 2: "write_loop ino start data (left - c) (bi + 1) buf1 fs1 = Inr (Inr (), fs2)"
        "realloc n fs1 fs2 (set (free_list fs1)) (unat ` set ?bps)"
        "view fs2 ?bps = put_bytes 1024 (view fs1 ?bps) (start + (?k + c)) (drop (?k + c) data)"
      using less.IH[OF lt reallocD(1)[OF 1(3)] d1 S(1) 1(2)] unfolding eq by blast
    have "realloc n fs fs2 (set (free_list fs)) (unat ` set ?bps)"
      using realloc_trans[OF 1(3) 2(2)] reallocD(4)[OF 1(3)] by simp
    moreover have "view fs2 ?bps = put_bytes 1024 (view fs ?bps) ?pos (drop ?k data)"
    proof -
      have len: "length (take c (drop ?k data)) = c" using S(3) ll by simp
      have "view fs2 ?bps = put_bytes 1024 (put_bytes 1024 (view fs ?bps) ?pos (take c (drop ?k data))) (?pos + c) (drop (?k + c) data)"
        using 1(4) 2(3) by (simp only: add.assoc)
      also have "\<dots> = put_bytes 1024 (view fs ?bps) ?pos (take c (drop ?k data) @ drop (?k + c) data)"
        using put_bytes_append[of 1024 "view fs ?bps" ?pos "take c (drop ?k data)"] unfolding len .
      finally show ?thesis by (simp only: append_take_drop_id drop_drop[symmetric] add.commute[of ?k])
    qed
    ultimately show ?thesis using 1(1) 2(1) by auto
  qed
qed

text \<open>A file: not a device, not stored in the inode, with as many blocks as its size needs.\<close>

definition file_ok :: "nat \<Rightarrow> 'a ext2_scheme \<Rightarrow> ext2_inode \<Rightarrow> bool" where
  "file_ok n fs ino \<longleftrightarrow> \<not> is_device (in_metadata ino) \<and> \<not> is_symlink (in_metadata ino) \<and> in_exists ino \<and>
     valid_id fs (in_id ino) \<and> raw_inode_ok (in_raw ino) \<and> data_ok n fs (in_block_pointers ino) \<and>
     length (in_block_pointers ino) = (im_size (in_metadata ino) + 1023) div 1024"

definition file_bytes :: "'a ext2_scheme \<Rightarrow> ext2_inode \<Rightarrow> u8 list" where
  "file_bytes fs ino = bytes_at 1024 (view fs (in_block_pointers ino)) 0 (im_size (in_metadata ino))"

lemma length_file_bytes [simp]: "length (file_bytes fs ino) = im_size (in_metadata ino)"
  by (simp add: file_bytes_def)

lemma blocks_cover: "(k :: nat) \<le> 1024 * ((k + 1023) div 1024)"
proof -
  have "(k + 1023) mod 1024 \<le> 1023" "k + 1023 = 1024 * ((k + 1023) div 1024) + (k + 1023) mod 1024" by simp_all
  then show ?thesis by linarith
qed

lemma slice_bytes_at: "start + m \<le> n \<Longrightarrow> take m (drop start (bytes_at bs f 0 n)) = bytes_at bs f start m"
  by (rule nth_equalityI) simp_all

lemma ext2_read_ok:
  assumes ok: "ext2_ok n fs" and f: "file_ok n fs ino" and w: "start + len < 2 ^ 32"
    and b: "length (take len (drop start (file_bytes fs ino))) \<le> length buffer"
  shows "ext2_read fs ino start len buffer =
    Inr (Inr (length (take len (drop start (file_bytes fs ino)))), patch buffer 0 (take len (drop start (file_bytes fs ino))))"
proof -
  let ?size = "im_size (in_metadata ino)" and ?f = "view fs (in_block_pointers ino)"
  let ?len = "if start + len > ?size then ?size - start else len"
  have F: "\<not> is_device (in_metadata ino)" "\<not> is_inline ino" "in_exists ino" "data_ok n fs (in_block_pointers ino)"
      "length (in_block_pointers ino) = (?size + 1023) div 1024"
    using f by (simp_all add: file_ok_def is_inline_def)
  show ?thesis
  proof (cases "start \<ge> ?size \<or> len = 0")
    case True
    then show ?thesis using F(1) by (auto simp: ext2_read_def patch_def Let_def)
  next
    case False
    then have le: "start + ?len \<le> ?size" "min len (?size - start) = ?len" "?size \<noteq> 0" "\<not> ?size \<le> start" "len \<noteq> 0" by auto
    have cov: "start + ?len \<le> 1024 * length (in_block_pointers ino)" using le(1) blocks_cover[of ?size] F(5) by linarith
    have "take len (drop start (file_bytes fs ino)) = take ?len (drop start (file_bytes fs ino))" using le(2) by simp
    then have sl: "take len (drop start (file_bytes fs ino)) = bytes_at 1024 ?f start ?len"
      using slice_bytes_at[OF le(1), of 1024 ?f] by (simp add: file_bytes_def)
    have "read_loop fs ino start ?len ?len (start div 1024) (stack_buf fs 1024) buffer =
        Inr (0, patch buffer (?len - ?len) (bytes_at 1024 ?f (start + (?len - ?len)) ?len))"
      by (rule read_loop_ok[OF ok F(4) cov at_pos_init]) (use b sl in simp_all)
    then have rl: "read_loop fs ino start ?len ?len (start div 1024) (stack_buf fs 1024) buffer = Inr (0, patch buffer 0 (bytes_at 1024 ?f start ?len))"
      by (simp only: diff_self_eq_0 add_0_right)
    have ad: "add32 start len = start + len" by (rule add32_less[OF w])
    have dv: "divR start 1024 = Inr (start div 1024)" by (simp add: divR_def)
    show ?thesis unfolding sl length_bytes_at
      by (simp only: ext2_read_def Let_def F(1,2,3) le(3,4,5) if_False ad ext2_okD(2)[OF ok] dv bindR_simps rl split_conv simp_thms diff_zero)
  qed
qed

end
