(* ===== verification/Ext2PtrSpec.thy ===== *)
theory Ext2PtrSpec
  imports Ext2FileSpec
begin

text \<open>
  The tree of block pointers. Storing the pointers of a file changes only its pointer blocks and free
  blocks, whether or not it runs out of space; when it succeeds, loading the pointers gives them back.
  The lemmas cover files up to the doubly-indirect range.
\<close>

unbundle bit_operations_syntax

section \<open>Pointer blocks as lists of words\<close>

abbreviation entries :: "u8 list \<Rightarrow> u32 list" where
  "entries buf \<equiv> get32s buf 0 256"

lemma le32s_append [simp]: "le32s (xs @ ys) = le32s xs @ le32s ys" "le32s (w # ys) = le32 w @ le32s ys" "le32s [] = []"
  by (simp_all add: le32s_def)

lemma le32s_split: "i < length es \<Longrightarrow> le32s es = le32s (take i es) @ le32 (es ! i) @ le32s (drop (Suc i) es)"
  by (metis id_take_nth_drop le32s_append(1,2))

lemma read32_le32s:
  assumes "i < length es"
  shows "read32 (le32s es) i = Inr (es ! i)"
proof -
  have "take 4 (drop (4 * i) (le32s es)) = le32 (es ! i)" using assms by (subst le32s_split[OF assms]) simp
  then show ?thesis using assms by (simp add: read32_def)
qed

lemma put32_le32s:
  assumes "i < length es"
  shows "put32 (le32s es) i w = Inr (le32s (es[i := w]))"
proof -
  have "patch (le32s es) (4 * i) (le32 w) = le32s (take i es) @ le32 w @ le32s (drop (Suc i) es)"
    using assms by (subst le32s_split[OF assms]) (simp add: patch_def)
  also have "\<dots> = le32s (es[i := w])" using assms by (simp add: upd_conv_take_nth_drop)
  finally show ?thesis using assms by (simp add: put32_def)
qed

text \<open>The block that lists the pointers from an index on.\<close>

definition ptr_list :: "u32 list \<Rightarrow> nat \<Rightarrow> u32 list" where
  "ptr_list bps cur = map (\<lambda>i. bp_or_zero bps (cur + i)) [0..<256]"

lemma length_ptr_list [simp]: "length (ptr_list bps cur) = 256"
  by (simp add: ptr_list_def)

lemma pointer_image_ok:
  "fb_block_size fs = 1024 \<Longrightarrow> e2_block_pointers_per_block fs = 256 \<Longrightarrow> pointer_image fs bps cur = Inr (le32s (ptr_list bps cur))"
  by (simp add: pointer_image_def ptr_list_def patch_all)

section \<open>Owned blocks\<close>

text \<open>
  \<open>P\<close> is a set of blocks that are in use and hold no metadata. \<open>expands n fs fs' P P'\<close>: only blocks of \<open>P'\<close>
  were written, and the blocks that \<open>P'\<close> has more than \<open>P\<close> were free before.
\<close>

definition owned :: "nat \<Rightarrow> 'a ext2_scheme \<Rightarrow> nat set \<Rightarrow> bool" where
  "owned n fs P \<longleftrightarrow> (\<forall>p \<in> P. p \<noteq> 0 \<and> p < n \<and> p \<notin> set (meta_list fs) \<and> p \<notin> set (free_list fs))"

definition expands :: "nat \<Rightarrow> 'a ext2_scheme \<Rightarrow> 'a ext2_scheme \<Rightarrow> nat set \<Rightarrow> nat set \<Rightarrow> bool" where
  "expands n fs fs' P P' \<longleftrightarrow> P \<subseteq> P' \<and> P' - P \<subseteq> set (free_list fs) \<and> realloc n fs fs' (set (free_list fs) - (P' - P)) P'"

lemma expandsD:
  assumes "expands n fs fs' P P'"
  shows "P \<subseteq> P'" "P' - P \<subseteq> set (free_list fs)" "realloc n fs fs' (set (free_list fs) - (P' - P)) P'" "ext2_ok n fs'"
    "set (free_list fs') = set (free_list fs) - (P' - P)" "meta_list fs' = meta_list fs" "same_shape fs fs'"
  using assms reallocD[of n fs fs' "set (free_list fs) - (P' - P)" P'] by (simp_all add: expands_def)

lemma expands_refl: "ext2_ok n fs \<Longrightarrow> expands n fs fs P P"
  using realloc_mono[OF realloc_refl, of n fs P] by (simp add: expands_def)

lemma expands_trans:
  assumes "expands n fs fs1 P P1" "expands n fs1 fs2 P1 P2"
  shows "expands n fs fs2 P P2"
proof -
  note A = expandsD[OF assms(1)] and B = expandsD[OF assms(2)]
  have "realloc n fs fs2 (set (free_list fs1) - (P2 - P1)) (P1 \<union> P2)" by (rule realloc_trans[OF A(3) B(3)])
  moreover have "P1 \<union> P2 = P2" "set (free_list fs1) - (P2 - P1) = set (free_list fs) - (P2 - P)" using A B by auto
  ultimately show ?thesis using A B by (auto simp: expands_def)
qed

lemma expands_owned:
  assumes ok: "ext2_ok n fs" and "expands n fs fs' P P'" "owned n fs P"
  shows "owned n fs' P'"
proof -
  note A = expandsD[OF assms(2)]
  have "p \<noteq> 0 \<and> p < n \<and> p \<notin> set (meta_list fs)" if "p \<in> P' - P" for p
  proof -
    have f: "p \<in> set (free_list fs)" using A(2) that by blast
    then have "p \<noteq> 0" by (auto simp: in_free_list block_no_def)
    with f ext2_okD(11)[OF ok f] show ?thesis by simp
  qed
  with assms(3) A show ?thesis unfolding owned_def by (metis DiffE DiffI)
qed

lemma put_owned:
  assumes ok: "ext2_ok n fs" and P: "owned n fs P" "b \<in> P" and len: "length bytes = 1024"
  shows "fs_write_block fs b bytes = Inr (Inr (), put_block fs b bytes)" "expands n fs (put_block fs b bytes) P P"
    "c < n \<Longrightarrow> block_at (put_block fs b bytes) c = (if c = b then bytes else block_at fs c)"
proof -
  note D = ext2_okD[OF ok]
  have b: "b < n" "b \<notin> set (meta_list fs)" using P by (auto simp: owned_def)
  show "fs_write_block fs b bytes = Inr (Inr (), put_block fs b bytes)" using fs_write_block_ok[OF D(1) b(1)] len D(2) by simp
  have "realloc n fs (put_block fs b bytes) (set (free_list fs)) {b}" by (rule put_block_realloc[OF ok b(1) data_area[OF ok b(2)] len])
  then have "realloc n fs (put_block fs b bytes) (set (free_list fs)) P" by (rule realloc_mono) (use P(2) in auto)
  then show "expands n fs (put_block fs b bytes) P P" by (simp add: expands_def)
  show "c < n \<Longrightarrow> block_at (put_block fs b bytes) c = (if c = b then bytes else block_at fs c)"
    using block_at_put_block[OF D(1) b(1)] len D(2) by simp
qed

lemma allocate_block_ok:
  assumes ok: "ext2_ok n fs"
  shows "if free_list fs = [] then \<exists>fs'. allocate_block fs True = Inr (0, fs') \<and> realloc n fs fs' (set (free_list fs)) {}
    else \<exists>b fs'. allocate_block fs True = Inr (b, fs') \<and> b \<in> set (free_list fs) \<and> block_at fs' b = replicate 1024 0 \<and>
      realloc n fs fs' (set (free_list fs) - {b}) {b}"
proof (cases "free_list fs = []")
  case True
  then have "\<not> 1 \<le> length (free_list fs)" by simp
  with allocate_blocks_ok[OF ok, of 1 True] obtain fs' where
    "allocate_blocks fs 1 True = Inr (Inl ENOSPC, fs')" "realloc n fs fs' (set (free_list fs)) (set (free_list fs))" by auto
  with True show ?thesis by (simp add: allocate_block_def)
next
  case False
  then have "1 \<le> length (free_list fs)" by (cases "free_list fs") simp_all
  with allocate_blocks_ok[OF ok, of 1 True] obtain bl fs' where
    b: "allocate_blocks fs 1 True = Inr (Inr bl, fs')" "took n True fs fs' bl" "length bl = 1" by auto
  then obtain x where x: "bl = [x]" by (metis One_nat_def length_0_conv length_Suc_conv)
  with b tookD[OF b(2)] False show ?thesis by (auto simp: allocate_block_def)
qed

lemma unat_of_nat32: "b < 2 ^ 32 \<Longrightarrow> unat (of_nat b :: u32) = b"
  by (simp add: unsigned_of_nat take_bit_nat_eq_self)

lemma ensure_block_ok:
  assumes ok: "ext2_ok n fs" and P: "owned n fs P" and p: "p \<noteq> 0 \<longrightarrow> unat p \<in> P"
  shows "\<exists>q fs' P'. ensure_block fs p = Inr (q, fs') \<and> expands n fs fs' P P' \<and> (q \<noteq> 0 \<longrightarrow> unat q \<in> P') \<and>
    P' = (if q = 0 then P else insert (unat q) P) \<and> (\<forall>c \<in> P. block_at fs' c = block_at fs c) \<and> (p \<noteq> 0 \<longrightarrow> q = p \<and> P' = P \<and> fs' = fs) \<and>
    (p = 0 \<longrightarrow> q \<noteq> 0 \<longrightarrow> unat q \<notin> P \<and> unat q \<in> set (free_list fs) \<and> block_at fs' (unat q) = replicate 1024 0)"
proof (cases "p = 0")
  case False
  then show ?thesis using p expands_refl[OF ok, of P] by (auto simp: ensure_block_def insert_absorb)
next
  case True
  have keep: "\<forall>c \<in> P. block_at fs' c = block_at fs c" if "realloc n fs fs' F' new" "new \<inter> P = {}" for fs' F' new
    using reallocD(5)[OF that(1)] that(2) P data_area[OF ok] by (auto simp: owned_def)
  show ?thesis
  proof (cases "free_list fs = []")
    case True
    with allocate_block_ok[OF ok] obtain fs' where f: "allocate_block fs True = Inr (0, fs')" "realloc n fs fs' (set (free_list fs)) {}" by auto
    then have "expands n fs fs' P P" using realloc_mono[OF f(2), of P] by (simp add: expands_def)
    with \<open>p = 0\<close> f keep[OF f(2)] show ?thesis by (auto simp: ensure_block_def)
  next
    case False
    with allocate_block_ok[OF ok] obtain b fs' where b: "allocate_block fs True = Inr (b, fs')" "b \<in> set (free_list fs)"
      "block_at fs' b = replicate 1024 0" "realloc n fs fs' (set (free_list fs) - {b}) {b}" by auto
    have "n * 1024 < 2 ^ 32" using ext2_okD(1,2)[OF ok] by (simp add: store_ok_def)
    moreover have "b < n" "b \<noteq> 0" using ext2_okD(11)[OF ok b(2)] b(2) by (auto simp: in_free_list block_no_def)
    ultimately have u: "unat (of_nat b :: u32) = b" "(of_nat b :: u32) \<noteq> 0"
      using unat_of_nat32[of b] by (auto dest: arg_cong[of _ _ unat])
    have nP: "b \<notin> P" using P b(2) by (auto simp: owned_def)
    have "realloc n fs fs' (set (free_list fs) - {b}) (insert b P)" by (rule realloc_mono[OF b(4)]) auto
    moreover have "insert b P - P = {b}" using nP by auto
    ultimately have "expands n fs fs' P (insert b P)" using b(2) by (auto simp: expands_def)
    with \<open>p = 0\<close> b u nP keep[OF b(4)] show ?thesis by (auto simp: ensure_block_def)
  qed
qed

section \<open>Doubly-indirect blocks\<close>

text \<open>The entries of a pointer block that are in use are owned and pairwise distinct.\<close>

definition entries_ok :: "nat set \<Rightarrow> u32 list \<Rightarrow> bool" where
  "entries_ok P es \<longleftrightarrow> length es = 256 \<and> (\<forall>i < 256. es ! i \<noteq> 0 \<longrightarrow> unat (es ! i) \<in> P) \<and>
     (\<forall>i < 256. \<forall>j < 256. i \<noteq> j \<longrightarrow> es ! i \<noteq> 0 \<longrightarrow> es ! i \<noteq> es ! j)"

lemma entries_ok_ensure:
  assumes es: "entries_ok P es" and di: "di < 256" and q: "q \<noteq> 0" "es ! di \<noteq> 0 \<longrightarrow> q = es ! di" "es ! di = 0 \<longrightarrow> unat q \<notin> P"
  shows "entries_ok (insert (unat q) P) (es[di := q])"
proof -
  have d: "es ! j \<noteq> q" if "j < 256" "j \<noteq> di" for j
  proof (cases "es ! di = 0")
    case True
    then show ?thesis using es q that by (auto simp: entries_ok_def)
  next
    case False
    then show ?thesis using es q that di unfolding entries_ok_def by metis
  qed
  have len: "length es = 256" using es by (simp add: entries_ok_def)
  show ?thesis unfolding entries_ok_def
  proof (intro conjI allI impI)
    show "length (es[di := q]) = 256" using len by simp
    show "unat (es[di := q] ! i) \<in> insert (unat q) P" if "i < 256" "es[di := q] ! i \<noteq> 0" for i
      using es that di len by (cases "i = di") (auto simp: entries_ok_def)
    show "es[di := q] ! i \<noteq> es[di := q] ! j" if "i < 256" "j < 256" "i \<noteq> j" "es[di := q] ! i \<noteq> 0" for i j
    proof -
      have "es ! i \<noteq> es ! j" if "i \<noteq> di" using es that \<open>i < 256\<close> \<open>j < 256\<close> \<open>i \<noteq> j\<close> \<open>es[di := q] ! i \<noteq> 0\<close> by (simp add: entries_ok_def)
      then show ?thesis using that di len d[of i] d[of j] by (auto simp: nth_list_update)
    qed
  qed
qed

text \<open>
  What one call of the loop stores: \<open>m\<close> entries from \<open>di\<close> on name blocks with the pointers from \<open>cur\<close> on,
  the other entries are as they were.
\<close>

definition stored :: "'a ext2_scheme \<Rightarrow> u32 list \<Rightarrow> nat \<Rightarrow> nat \<Rightarrow> nat \<Rightarrow> u32 list \<Rightarrow> u32 list \<Rightarrow> bool" where
  "stored fs bps di m cur es es' \<longleftrightarrow>
     (\<forall>i < 256. i < di \<or> di + m \<le> i \<longrightarrow> es' ! i = es ! i) \<and>
     (\<forall>i. di \<le> i \<and> i < di + m \<longrightarrow> es' ! i \<noteq> 0 \<and> block_at fs (unat (es' ! i)) = le32s (ptr_list bps (cur + 256 * (i - di))))"

lemma stored_step:
  assumes "stored fs bps (di + 1) m (cur + 256) (es[di := q]) es'" "q \<noteq> 0" "block_at fs (unat q) = le32s (ptr_list bps cur)"
    and len: "di < 256" "length es = 256" "length es' = 256"
  shows "stored fs bps di (m + 1) cur es es'" "take (m + 1) (drop di es') = q # take m (drop (di + 1) es')"
proof -
  have q: "es' ! di = q" using assms(1) len by (auto simp: stored_def)
  then show "take (m + 1) (drop di es') = q # take m (drop (di + 1) es')"
    using len by (simp add: Cons_nth_drop_Suc[symmetric])
  have "es' ! i \<noteq> 0 \<and> block_at fs (unat (es' ! i)) = le32s (ptr_list bps (cur + 256 * (i - di)))" if "di \<le> i" "i < di + (m + 1)" for i
  proof (cases "i = di")
    case False
    then have "di + 1 \<le> i" "i < di + 1 + m" "cur + 256 + 256 * (i - (di + 1)) = cur + 256 * (i - di)" using that by auto
    with assms(1) show ?thesis unfolding stored_def by metis
  qed (use assms q in simp)
  moreover have "es' ! i = es ! i" if "i < 256" "i < di \<or> di + (m + 1) \<le> i" for i
    using assms(1) that by (auto simp: stored_def)
  ultimately show "stored fs bps di (m + 1) cur es es'" unfolding stored_def by blast
qed

lemma entries_rest:
  assumes "entries_ok P es" "di < 256" "es ! di \<noteq> 0"
  shows "unat (es ! di) \<notin> unat ` set (drop (di + 1) es)"
proof
  assume "unat (es ! di) \<in> unat ` set (drop (di + 1) es)"
  then obtain j where "j < length (drop (di + 1) es)" "drop (di + 1) es ! j = es ! di"
    by (metis imageE in_set_conv_nth word_unat_eq_iff)
  then have "es ! (di + 1 + j) = es ! di" "di + 1 + j < 256" using assms by (auto simp: entries_ok_def)
  then show False using assms unfolding entries_ok_def
    by (metis add.assoc add_eq_self_zero zero_neq_one add_is_0)
qed

text \<open>
  The outcome of the loop: blocks of \<open>P\<close> that are not entries still to be visited keep their contents;
  after success the entries are stored, after a failure the file system is only short of blocks.
\<close>

definition doubly_done :: "nat \<Rightarrow> u32 list \<Rightarrow> nat \<Rightarrow> nat \<Rightarrow> nat \<Rightarrow> u32 list \<Rightarrow> u32 list \<Rightarrow> nat set \<Rightarrow> 'a ext2_scheme \<Rightarrow>
    (u8 list \<times> nat) ret \<Rightarrow> u32 list \<Rightarrow> 'a ext2_scheme \<Rightarrow> bool" where
  "doubly_done n bps di left cur es pbs P fs r pbs' fs' \<longleftrightarrow>
     (\<exists>P'. expands n fs fs' P P' \<and> (\<forall>c \<in> P. c \<notin> unat ` set (drop di es) \<longrightarrow> block_at fs' c = block_at fs c) \<and>
      (case r of
         Inl e \<Rightarrow> e = ENOSPC
       | Inr (buf, cur') \<Rightarrow> \<exists>es' m. buf = le32s es' \<and> entries_ok P' es' \<and> m \<le> left \<and> cur' = cur + 256 * m \<and>
           (m < left \<longrightarrow> length bps \<le> cur') \<and> (0 < m \<longrightarrow> cur + 256 * (m - 1) < length bps) \<and>
           stored fs' bps di m cur es es' \<and> pbs' = pbs @ take m (drop di es') \<and> (\<forall>i < 256. unat (es' ! i) \<in> P \<longrightarrow> es' ! i = es ! i)))"

lemma doubly_done_refl:
  "ext2_ok n fs \<Longrightarrow> entries_ok P es \<Longrightarrow> left = 0 \<or> length bps \<le> cur \<Longrightarrow>
    doubly_done n bps di left cur es pbs P fs (Inr (le32s es, cur)) pbs fs"
  using expands_refl[of n fs P] unfolding doubly_done_def
  by (intro exI[of _ P]) (auto simp: stored_def intro!: exI[of _ es] exI[of _ "0 :: nat"])

lemma doubly_done_step:
  assumes es: "entries_ok P es" "di < 256" and x: "expands n fs fs2 P P1" "\<forall>c \<in> P. c \<noteq> unat q \<longrightarrow> block_at fs2 c = block_at fs c"
    and q: "q \<noteq> 0" "P1 = insert (unat q) P" "es ! di \<noteq> 0 \<longrightarrow> q = es ! di" "es ! di = 0 \<longrightarrow> unat q \<notin> P"
    and blk: "block_at fs2 (unat q) = le32s (ptr_list bps cur)" and cur: "cur < length bps"
    and I: "doubly_done n bps (di + 1) left (cur + 256) (es[di := q]) (pbs @ [q]) P1 fs2 r pbs' fs'"
  shows "doubly_done n bps di (Suc left) cur es pbs P fs r pbs' fs'"
proof -
  have len: "length es = 256" using es(1) by (simp add: entries_ok_def)
  obtain P' where P': "expands n fs2 fs' P1 P'" "\<forall>c \<in> P1. c \<notin> unat ` set (drop (di + 1) (es[di := q])) \<longrightarrow> block_at fs' c = block_at fs2 c"
      "case r of
         Inl e \<Rightarrow> e = ENOSPC
       | Inr (buf, cur') \<Rightarrow> \<exists>es' m. buf = le32s es' \<and> entries_ok P' es' \<and> m \<le> left \<and> cur' = cur + 256 + 256 * m \<and>
           (m < left \<longrightarrow> length bps \<le> cur') \<and> (0 < m \<longrightarrow> cur + 256 + 256 * (m - 1) < length bps) \<and>
           stored fs' bps (di + 1) m (cur + 256) (es[di := q]) es' \<and> pbs' = (pbs @ [q]) @ take m (drop (di + 1) es') \<and> (\<forall>i < 256. unat (es' ! i) \<in> P1 \<longrightarrow> es' ! i = es[di := q] ! i)"
    using I unfolding doubly_done_def by blast
  have es1: "entries_ok P1 (es[di := q])" unfolding q(2) by (rule entries_ok_ensure[OF es q(1,3,4)])
  have "unat q \<notin> unat ` set (drop (di + 1) (es[di := q]))" using entries_rest[OF es1 es(2)] q(1) len es(2) by simp
  then have qb: "block_at fs' (unat q) = le32s (ptr_list bps cur)" using P'(2) q(2) blk by auto
  have "block_at fs' c = block_at fs c" if c: "c \<in> P" "c \<notin> unat ` set (drop di es)" for c
  proof -
    have d: "drop di es = es ! di # drop (di + 1) es" using len es(2) by (simp add: Cons_nth_drop_Suc)
    have "c \<noteq> unat q" using c d q(3,4) by (cases "es ! di = 0") auto
    moreover have "c \<notin> unat ` set (drop (di + 1) (es[di := q]))" using c d by simp
    ultimately show ?thesis using x(2) P'(2) c(1) q(2) by auto
  qed
  moreover have "case r of
       Inl e \<Rightarrow> e = ENOSPC
     | Inr (buf, cur') \<Rightarrow> \<exists>es' m. buf = le32s es' \<and> entries_ok P' es' \<and> m \<le> Suc left \<and> cur' = cur + 256 * m \<and>
         (m < Suc left \<longrightarrow> length bps \<le> cur') \<and> (0 < m \<longrightarrow> cur + 256 * (m - 1) < length bps) \<and>
         stored fs' bps di m cur es es' \<and> pbs' = pbs @ take m (drop di es') \<and> (\<forall>i < 256. unat (es' ! i) \<in> P \<longrightarrow> es' ! i = es ! i)"
  proof (cases r)
    case (Inr bc)
    with P'(3) obtain buf cur' es' m where R: "bc = (buf, cur')" "buf = le32s es'" "entries_ok P' es'" "m \<le> left" "cur' = cur + 256 + 256 * m"
      "m < left \<longrightarrow> length bps \<le> cur'" "stored fs' bps (di + 1) m (cur + 256) (es[di := q]) es'"
      "pbs' = (pbs @ [q]) @ take m (drop (di + 1) es')" "\<forall>i < 256. unat (es' ! i) \<in> P1 \<longrightarrow> es' ! i = es[di := q] ! i"
      "0 < m \<longrightarrow> cur + 256 + 256 * (m - 1) < length bps" by auto
    have last: "cur + 256 * (m + 1 - 1) < length bps" using R(10) cur by (cases m) simp_all
    have l': "length es' = 256" using R(3) by (simp add: entries_ok_def)
    note S = stored_step[OF R(7) q(1) qb es(2) len l']
    have "es' ! i = es ! i" if "i < 256" "unat (es' ! i) \<in> P" for i
    proof (cases "i = di")
      case True
      have "es' ! di = es[di := q] ! di" using R(7) es(2) unfolding stored_def by auto
      then have "es' ! i = q" using True len es(2) by simp
      with True q(3,4) that show ?thesis by auto
    qed (use R(9) that q(2) in auto)
    then show ?thesis using Inr R(1-6,8) S last by (auto intro!: exI[of _ es'] exI[of _ "m + 1"])
  qed (use P'(3) in simp)
  ultimately show ?thesis unfolding doubly_done_def using expands_trans[OF x(1) P'(1)] by blast
qed

lemma store_doubly_ok:
  assumes "ext2_ok n fs" "e2_block_pointers_per_block fs = 256" "owned n fs P" "entries_ok P es" "di + left = 256"
  shows "\<exists>r pbs' fs'. store_doubly bps di left fs (le32s es) cur pbs = Inr (r, pbs', fs') \<and>
    doubly_done n bps di left cur es pbs P fs r pbs' fs'"
  using assms
proof (induction left arbitrary: di fs es cur pbs P)
  case 0
  then show ?case using doubly_done_refl[OF 0(1,4)] by simp
next
  case (Suc left)
  note ok = Suc.prems(1) and N = Suc.prems(2) and own = Suc.prems(3) and es = Suc.prems(4)
  have di: "di < 256" and len: "length es = 256" using Suc.prems(4,5) by (auto simp: entries_ok_def)
  show ?case
  proof (cases "cur \<ge> length bps")
    case True
    then show ?thesis using doubly_done_refl[OF ok es] by simp
  next
    case False
    have old: "es ! di \<noteq> 0 \<longrightarrow> unat (es ! di) \<in> P" using es di by (simp add: entries_ok_def)
    obtain q fs1 P1 where e: "ensure_block fs (es ! di) = Inr (q, fs1)" "expands n fs fs1 P P1"
        "P1 = (if q = 0 then P else insert (unat q) P)" "\<forall>c \<in> P. block_at fs1 c = block_at fs c"
        "es ! di \<noteq> 0 \<longrightarrow> q = es ! di" "es ! di = 0 \<longrightarrow> q \<noteq> 0 \<longrightarrow> unat q \<notin> P"
      using ensure_block_ok[OF ok own old] by blast
    have rd: "read32 (le32s es) di = Inr (es ! di)" using read32_le32s di len by simp
    show ?thesis
    proof (cases "q = 0")
      case True
      then have "store_doubly bps di (Suc left) fs (le32s es) cur pbs = Inr (Inl ENOSPC, pbs, fs1)" using False rd e(1) by simp
      with e True show ?thesis by (auto simp: doubly_done_def)
    next
      case q: False
      let ?es = "es[di := q]" and ?img = "le32s (ptr_list bps cur)"
      let ?fs = "put_block fs1 (unat q) ?img"
      have P1: "P1 = insert (unat q) P" "unat q \<in> P1" using e(3) q by simp_all
      note X = expandsD[OF e(2)]
      have S1: "fb_block_size fs1 = 1024" "e2_block_pointers_per_block fs1 = 256" using same_shapeD(1,7)[OF X(7)] N ext2_okD(2)[OF ok] by simp_all
      have own1: "owned n fs1 P1" by (rule expands_owned[OF ok e(2) own])
      note W = put_owned[OF X(4) own1 P1(2), of ?img]
      have es1: "entries_ok P1 ?es" unfolding P1(1) using entries_ok_ensure[OF es di q e(5)] e(6) q by blast
      have step: "store_doubly bps di (Suc left) fs (le32s es) cur pbs = store_doubly bps (di + 1) left ?fs (le32s ?es) (cur + 256) (pbs @ [q])"
        using False rd e(1) q put32_le32s[of di es q] di len pointer_image_ok[OF S1, of bps cur] W(1) N by simp
      have x2: "expands n fs1 ?fs P1 P1" using W(2) by simp
      have fs2: "block_at ?fs c = (if c = unat q then ?img else block_at fs1 c)" if "c \<in> P1" for c
        using W(3)[of c] own1 that by (simp add: owned_def)
      obtain r pbs' fs' where I: "store_doubly bps (di + 1) left ?fs (le32s ?es) (cur + 256) (pbs @ [q]) = Inr (r, pbs', fs')"
        "doubly_done n bps (di + 1) left (cur + 256) ?es (pbs @ [q]) P1 ?fs r pbs' fs'"
        using Suc.IH[OF expandsD(4)[OF x2] _ expands_owned[OF X(4) x2 own1] es1, of "di + 1" "cur + 256" "pbs @ [q]"] S1(2) Suc.prems(5) by auto
      have "doubly_done n bps di (Suc left) cur es pbs P fs r pbs' fs'"
        by (rule doubly_done_step[OF es di expands_trans[OF e(2) x2] _ q P1(1) e(5) _ _ _ I(2)])
          (use fs2 e(4,6) q P1 False in auto)
      with step I(1) show ?thesis by auto
    qed
  qed
qed

section \<open>The pointer tree of an inode\<close>

text \<open>
  \<open>P\<close> contains the pointer blocks of the inode: the singly-indirect block, the doubly-indirect block and
  its entries, all different.
\<close>

definition tree_ok :: "nat \<Rightarrow> 'a ext2_scheme \<Rightarrow> raw_inode \<Rightarrow> nat set \<Rightarrow> bool" where
  "tree_ok n fs r P \<longleftrightarrow> owned n fs P \<and> ri_t_pointer r = 0 \<and> (ri_s_pointer r \<noteq> 0 \<longrightarrow> unat (ri_s_pointer r) \<in> P) \<and>
     (ri_d_pointer r \<noteq> 0 \<longrightarrow> unat (ri_d_pointer r) \<in> P \<and> ri_d_pointer r \<noteq> ri_s_pointer r \<and>
        (\<exists>es. block_at fs (unat (ri_d_pointer r)) = le32s es \<and> entries_ok P es \<and> ri_d_pointer r \<notin> set es \<and>
          (ri_s_pointer r \<noteq> 0 \<longrightarrow> ri_s_pointer r \<notin> set es)))"

lemma entries_ok_mono: "entries_ok P es \<Longrightarrow> P \<subseteq> P' \<Longrightarrow> entries_ok P' es"
  by (auto simp: entries_ok_def)

lemma entries_ok_in: "entries_ok P es \<Longrightarrow> x \<in> set es \<Longrightarrow> x \<noteq> 0 \<Longrightarrow> unat x \<in> P"
  by (auto simp: entries_ok_def in_set_conv_nth)

lemma tree_ok_expands:
  assumes ok: "ext2_ok n fs" and t: "tree_ok n fs r P" and x: "expands n fs fs' P P'"
    and keep: "ri_d_pointer r \<noteq> 0 \<longrightarrow> block_at fs' (unat (ri_d_pointer r)) = block_at fs (unat (ri_d_pointer r))"
  shows "tree_ok n fs' r P'"
  using t expands_owned[OF ok x] expandsD(1)[OF x] keep unfolding tree_ok_def by (auto intro: entries_ok_mono)

lemma tree_ok_new_s:
  assumes t: "tree_ok n fs r P" and s: "s \<noteq> 0" "unat s \<notin> P"
  shows "owned n fs' (insert (unat s) P) \<Longrightarrow> \<forall>c \<in> P. block_at fs' c = block_at fs c \<Longrightarrow>
    tree_ok n fs' (r\<lparr>ri_s_pointer := s\<rparr>) (insert (unat s) P)"
proof (cases "ri_d_pointer r = 0")
  case False
  assume own: "owned n fs' (insert (unat s) P)" and keep: "\<forall>c \<in> P. block_at fs' c = block_at fs c"
  from t False obtain es where d: "unat (ri_d_pointer r) \<in> P" "block_at fs (unat (ri_d_pointer r)) = le32s es" "entries_ok P es"
    "ri_d_pointer r \<notin> set es" "ri_t_pointer r = 0" by (auto simp: tree_ok_def)
  have "s \<notin> set es" using entries_ok_in[OF d(3), of s] s by blast
  moreover have "ri_d_pointer r \<noteq> s" using d(1) s(2) by auto
  ultimately show ?thesis using own keep d entries_ok_mono[OF d(3), of "insert (unat s) P"]
    by (auto simp: tree_ok_def)
qed (use t s in \<open>simp add: tree_ok_def\<close>)

definition singly_held :: "'a ext2_scheme \<Rightarrow> raw_inode \<Rightarrow> u32 list \<Rightarrow> nat \<Rightarrow> bool" where
  "singly_held fs r bps nb \<longleftrightarrow> (nb > 12 \<longrightarrow> ri_s_pointer r \<noteq> 0 \<and> block_at fs (unat (ri_s_pointer r)) = le32s (ptr_list bps 12)) \<and>
     (nb \<le> 12 \<longrightarrow> ri_s_pointer r = 0)"

lemma write_singly_ok:
  assumes ok: "ext2_ok n fs" and N: "e2_block_pointers_per_block fs = 256" and tree: "tree_ok n fs (in_raw ino) P"
  shows "\<exists>r fs1 s pbs P1. write_singly fs ino nb =
      Inr (r, fs1, ino\<lparr>in_raw := (in_raw ino)\<lparr>ri_s_pointer := s\<rparr>, in_pointer_blocks := pbs\<rparr>) \<and> expands n fs fs1 P P1 \<and>
    tree_ok n fs1 ((in_raw ino)\<lparr>ri_s_pointer := s\<rparr>) P1 \<and>
    (case r of
       Inl e \<Rightarrow> e = ENOSPC
     | Inr buf \<Rightarrow> length buf = 1024 \<and> singly_held fs1 ((in_raw ino)\<lparr>ri_s_pointer := s\<rparr>) (in_block_pointers ino) nb \<and>
         pbs = in_pointer_blocks ino @ (if nb > 12 then [s] else []))"
proof (cases "nb > 12")
  case False
  have "tree_ok n fs ((in_raw ino)\<lparr>ri_s_pointer := 0\<rparr>) P" using tree by (auto simp: tree_ok_def)
  then show ?thesis
    using False expands_refl[OF ok, of P] ext2_okD(2)[OF ok]
    by (intro exI[of _ "Inr (stack_buf fs (fb_block_size fs))"] exI[of _ fs] exI[of _ 0] exI[of _ "in_pointer_blocks ino"] exI[of _ P])
      (simp add: write_singly_def singly_held_def)
next
  case True
  let ?r = "in_raw ino" and ?d = "ri_d_pointer (in_raw ino)" and ?img = "le32s (ptr_list (in_block_pointers ino) 12)"
  have own: "owned n fs P" and sP: "ri_s_pointer ?r \<noteq> 0 \<longrightarrow> unat (ri_s_pointer ?r) \<in> P" using tree by (simp_all add: tree_ok_def)
  obtain s fs1 P1 where e: "ensure_block fs (ri_s_pointer ?r) = Inr (s, fs1)" "expands n fs fs1 P P1"
      "P1 = (if s = 0 then P else insert (unat s) P)" "\<forall>c \<in> P. block_at fs1 c = block_at fs c"
      "ri_s_pointer ?r \<noteq> 0 \<longrightarrow> s = ri_s_pointer ?r" "ri_s_pointer ?r = 0 \<longrightarrow> s \<noteq> 0 \<longrightarrow> unat s \<notin> P"
    using ensure_block_ok[OF ok own sP] by blast
  have t1: "tree_ok n fs1 (?r\<lparr>ri_s_pointer := s\<rparr>) P1"
  proof (cases "ri_s_pointer ?r = 0 \<and> s \<noteq> 0")
    case True
    then have "P1 = insert (unat s) P" "unat s \<notin> P" using e(3,6) by simp_all
    with tree_ok_new_s[OF tree _ \<open>unat s \<notin> P\<close>, of fs1] True expands_owned[OF ok e(2) own] e(4) show ?thesis by simp
  next
    case False
    then have s: "s = ri_s_pointer ?r" using e(5) by auto
    have "tree_ok n fs1 ?r P1" by (rule tree_ok_expands[OF ok tree e(2)]) (use tree e(4) in \<open>auto simp: tree_ok_def\<close>)
    then show ?thesis unfolding s by (simp add: tree_ok_def)
  qed
  show ?thesis
  proof (cases "s = 0")
    case True
    with \<open>12 < nb\<close> e t1 show ?thesis
      by (intro exI[of _ "Inl ENOSPC"] exI[of _ fs1] exI[of _ 0] exI[of _ "in_pointer_blocks ino"] exI[of _ P1])
        (simp add: write_singly_def Let_def)
  next
    case False
    let ?fs = "put_block fs1 (unat s) ?img"
    note X = expandsD[OF e(2)]
    have s1: "unat s \<in> P1" using e(3) False by simp
    have own1: "owned n fs1 P1" by (rule expands_owned[OF ok e(2) own])
    have S1: "fb_block_size fs1 = 1024" "e2_block_pointers_per_block fs1 = 256"
      using same_shapeD(1,7)[OF X(7)] N ext2_okD(2)[OF ok] by simp_all
    note W = put_owned[OF X(4) own1 s1, of ?img]
    have blk: "block_at ?fs c = (if c = unat s then ?img else block_at fs1 c)" if "c \<in> P1" for c
      using W(3)[of c] own1 that by (simp add: owned_def)
    have "?d \<noteq> 0 \<longrightarrow> unat ?d \<in> P1 \<and> unat ?d \<noteq> unat s" using t1 by (simp add: tree_ok_def word_unat_eq_iff)
    then have "tree_ok n ?fs (?r\<lparr>ri_s_pointer := s\<rparr>) P1"
      by (intro tree_ok_expands[OF X(4) t1 W(2)]) (use blk[of "unat ?d"] in simp_all)
    moreover have "expands n fs ?fs P P1" using expands_trans[OF e(2) W(2)] by simp
    moreover have "write_singly fs ino nb = Inr (Inr ?img, ?fs, ino\<lparr>in_raw := ?r\<lparr>ri_s_pointer := s\<rparr>, in_pointer_blocks := in_pointer_blocks ino @ [s]\<rparr>)"
      using \<open>12 < nb\<close> e(1) False pointer_image_ok[OF S1] W(1) by (simp add: write_singly_def Let_def)
    ultimately show ?thesis using \<open>12 < nb\<close> blk[OF s1] False
      by (intro exI[of _ "Inr ?img"] exI[of _ ?fs] exI[of _ s] exI[of _ "in_pointer_blocks ino @ [s]"] exI[of _ P1])
        (simp add: singly_held_def)
  qed
qed

definition doubly_held :: "'a ext2_scheme \<Rightarrow> raw_inode \<Rightarrow> u32 list \<Rightarrow> nat \<Rightarrow> u32 list \<Rightarrow> bool" where
  "doubly_held fs r bps nb pbs \<longleftrightarrow>
     (if nb > 268 then ri_d_pointer r \<noteq> 0 \<and>
        (\<exists>es m. block_at fs (unat (ri_d_pointer r)) = le32s es \<and> length es = 256 \<and> m \<le> 256 \<and>
          (m < 256 \<longrightarrow> length bps \<le> 268 + 256 * m) \<and> (0 < m \<longrightarrow> 268 + 256 * (m - 1) < length bps) \<and>
          (\<forall>i < m. es ! i \<noteq> 0 \<and> block_at fs (unat (es ! i)) = le32s (ptr_list bps (268 + 256 * i))) \<and>
          pbs = ri_d_pointer r # take m es)
      else ri_d_pointer r = 0 \<and> pbs = [])"

lemma zero_block: "le32s (replicate k 0) = replicate (4 * k) 0"
  by (induction k) (simp_all add: le32_def numeral_eq_Suc)

lemma tree_ok_new_d:
  assumes ok: "ext2_ok n fs" and t: "tree_ok n fs r P" and d: "ri_d_pointer r = 0" "d \<noteq> 0" "unat d \<notin> P"
    and x: "expands n fs fs' P (insert (unat d) P)" and z: "block_at fs' (unat d) = replicate 1024 0"
  shows "tree_ok n fs' (r\<lparr>ri_d_pointer := d\<rparr>) (insert (unat d) P)"
proof -
  have "block_at fs' (unat d) = le32s (replicate 256 0)" using z zero_block[of 256] by simp
  moreover have "entries_ok (insert (unat d) P) (replicate 256 0)" by (simp add: entries_ok_def)
  moreover have "d \<noteq> ri_s_pointer r" using t d by (auto simp: tree_ok_def)
  ultimately show ?thesis using expands_owned[OF ok x] t d(2) unfolding tree_ok_def
    by (auto intro!: exI[of _ "replicate 256 0"])
qed

lemma ensure_doubly_ok:
  assumes ok: "ext2_ok n fs" and tree: "tree_ok n fs r P"
  shows "\<exists>d fs1 P1. ensure_block fs (ri_d_pointer r) = Inr (d, fs1) \<and> expands n fs fs1 P P1 \<and> (\<forall>c \<in> P. block_at fs1 c = block_at fs c) \<and>
    tree_ok n fs1 (r\<lparr>ri_d_pointer := d\<rparr>) P1"
proof -
  have own: "owned n fs P" "ri_d_pointer r \<noteq> 0 \<longrightarrow> unat (ri_d_pointer r) \<in> P" using tree by (simp_all add: tree_ok_def)
  obtain d fs1 P1 where e: "ensure_block fs (ri_d_pointer r) = Inr (d, fs1)" "expands n fs fs1 P P1"
      "P1 = (if d = 0 then P else insert (unat d) P)" "\<forall>c \<in> P. block_at fs1 c = block_at fs c"
      "ri_d_pointer r \<noteq> 0 \<longrightarrow> d = ri_d_pointer r" "ri_d_pointer r = 0 \<longrightarrow> d \<noteq> 0 \<longrightarrow> unat d \<notin> P"
      "ri_d_pointer r = 0 \<longrightarrow> d \<noteq> 0 \<longrightarrow> block_at fs1 (unat d) = replicate 1024 0"
    using ensure_block_ok[OF ok own] by blast
  have "tree_ok n fs1 (r\<lparr>ri_d_pointer := d\<rparr>) P1"
  proof (cases "ri_d_pointer r = 0 \<and> d \<noteq> 0")
    case True
    then show ?thesis using tree_ok_new_d[OF ok tree, of d fs1] e by simp
  next
    case False
    then have d: "d = ri_d_pointer r" using e(5) by auto
    have "tree_ok n fs1 r P1" by (rule tree_ok_expands[OF ok tree e(2)]) (use own e(4) in simp)
    then show ?thesis unfolding d by (simp add: tree_ok_def)
  qed
  with e show ?thesis by blast
qed

text \<open>Writing the entries back keeps the tree: new entries were free, so none is the block itself.\<close>

lemma doubly_written:
  assumes ok: "ext2_ok n fs1" and t: "tree_ok n fs1 r P1" and d: "ri_d_pointer r \<noteq> 0" "block_at fs1 (unat (ri_d_pointer r)) = le32s es"
    and x: "expands n fs1 fs2 P1 P2" and es': "entries_ok P2 es'" "\<forall>i < 256. unat (es' ! i) \<in> P1 \<longrightarrow> es' ! i = es ! i" "length es = 256"
    and st: "stored fs2 bps 0 m 268 es es'" "m \<le> 256"
  shows "tree_ok n (put_block fs2 (unat (ri_d_pointer r)) (le32s es')) r P2"
    "fs_write_block fs2 (unat (ri_d_pointer r)) (le32s es') = Inr (Inr (), put_block fs2 (unat (ri_d_pointer r)) (le32s es'))"
    "expands n fs2 (put_block fs2 (unat (ri_d_pointer r)) (le32s es')) P2 P2"
    "stored (put_block fs2 (unat (ri_d_pointer r)) (le32s es')) bps 0 m 268 es es'"
    "c \<in> P2 \<Longrightarrow> c \<noteq> unat (ri_d_pointer r) \<Longrightarrow> block_at (put_block fs2 (unat (ri_d_pointer r)) (le32s es')) c = block_at fs2 c"
    "block_at (put_block fs2 (unat (ri_d_pointer r)) (le32s es')) (unat (ri_d_pointer r)) = le32s es'"
proof -
  let ?d = "ri_d_pointer r" and ?s = "ri_s_pointer r"
  let ?fs = "put_block fs2 (unat ?d) (le32s es')"
  have len: "length es' = 256" using es'(1) by (simp add: entries_ok_def)
  have own: "owned n fs1 P1" and dP: "unat ?d \<in> P1" and ds: "?d \<noteq> ?s" and sP: "?s \<noteq> 0 \<longrightarrow> unat ?s \<in> P1" and t0: "ri_t_pointer r = 0"
    using t d(1) by (simp_all add: tree_ok_def)
  obtain es0 where "block_at fs1 (unat ?d) = le32s es0" "length es0 = 256" "?d \<notin> set es0" "?s \<noteq> 0 \<longrightarrow> ?s \<notin> set es0"
    using t d(1) by (auto simp: tree_ok_def entries_ok_def)
  moreover from this have "es0 = es" using d(2) get32s_le32s[of es0] get32s_le32s[of es] es'(3) by simp
  ultimately have old: "?d \<notin> set es" "?s \<noteq> 0 \<longrightarrow> ?s \<notin> set es" by simp_all
  have notin: "w \<notin> set es'" if "unat w \<in> P1" "w \<notin> set es" for w
    using es'(2,3) that len by (auto simp: in_set_conv_nth)
  have d': "?d \<notin> set es'" "?s \<noteq> 0 \<longrightarrow> ?s \<notin> set es'" using notin old dP sP by blast+
  have own2: "owned n fs2 P2" by (rule expands_owned[OF ok x own])
  have dP2: "unat ?d \<in> P2" "?s \<noteq> 0 \<longrightarrow> unat ?s \<in> P2" using dP sP expandsD(1)[OF x] by auto
  note W = put_owned[OF expandsD(4)[OF x] own2 dP2(1), of "le32s es'"]
  show "fs_write_block fs2 (unat ?d) (le32s es') = Inr (Inr (), ?fs)" and x2: "expands n fs2 ?fs P2 P2" using W(1,2) len by simp_all
  have blk: "block_at ?fs c = (if c = unat ?d then le32s es' else block_at fs2 c)" if "c \<in> P2" for c
    using W(3)[of c] own2 that len by (simp add: owned_def)
  then show "c \<in> P2 \<Longrightarrow> c \<noteq> unat ?d \<Longrightarrow> block_at ?fs c = block_at fs2 c" "block_at ?fs (unat ?d) = le32s es'" using dP2 by simp_all
  show "tree_ok n ?fs r P2"
    using expands_owned[OF expandsD(4)[OF x] x2 own2] t0 dP2 ds d' es'(1) blk[OF dP2(1)] by (auto simp: tree_ok_def)
  have "block_at ?fs (unat (es' ! i)) = block_at fs2 (unat (es' ! i))" if i: "i < m" for i
  proof -
    have "i < 256" using i st(2) by simp
    then have "es' ! i \<in> set es'" "unat (es' ! i) \<in> P2" using st(1) i len es'(1) by (auto simp: stored_def entries_ok_def)
    moreover from this have "es' ! i \<noteq> ?d" using d'(1) by auto
    ultimately show ?thesis using blk[of "unat (es' ! i)"] by (simp add: word_unat_eq_iff)
  qed
  with st(1) show "stored ?fs bps 0 m 268 es es'" by (simp add: stored_def)
qed

lemma write_doubly_ok:
  assumes ok: "ext2_ok n fs" and N: "e2_block_pointers_per_block fs = 256" and tree: "tree_ok n fs (in_raw ino) P" and buf: "length buf = 1024"
  shows "\<exists>r fs1 d pbs P1. write_doubly fs ino nb 268 buf =
      Inr (r, fs1, ino\<lparr>in_raw := (in_raw ino)\<lparr>ri_d_pointer := d\<rparr>, in_pointer_blocks := pbs\<rparr>) \<and> expands n fs fs1 P P1 \<and>
    tree_ok n fs1 ((in_raw ino)\<lparr>ri_d_pointer := d\<rparr>) P1 \<and>
    (ri_s_pointer (in_raw ino) \<noteq> 0 \<longrightarrow> block_at fs1 (unat (ri_s_pointer (in_raw ino))) = block_at fs (unat (ri_s_pointer (in_raw ino)))) \<and>
    (case r of
       Inl e \<Rightarrow> e = ENOSPC
     | Inr _ \<Rightarrow> \<exists>dp. pbs = in_pointer_blocks ino @ dp \<and> doubly_held fs1 ((in_raw ino)\<lparr>ri_d_pointer := d\<rparr>) (in_block_pointers ino) nb dp)"
proof (cases "nb > 268")
  case False
  have "tree_ok n fs ((in_raw ino)\<lparr>ri_d_pointer := 0\<rparr>) P" using tree by (auto simp: tree_ok_def)
  then show ?thesis
    using False expands_refl[OF ok, of P]
    by (intro exI[of _ "Inr ()"] exI[of _ fs] exI[of _ 0] exI[of _ "in_pointer_blocks ino"] exI[of _ P])
      (simp add: write_doubly_def doubly_held_def)
next
  case True
  let ?r = "in_raw ino" and ?s = "ri_s_pointer (in_raw ino)" and ?bps = "in_block_pointers ino"
  obtain d fs1 P1 where e: "ensure_block fs (ri_d_pointer ?r) = Inr (d, fs1)" "expands n fs fs1 P P1"
      "\<forall>c \<in> P. block_at fs1 c = block_at fs c" "tree_ok n fs1 (?r\<lparr>ri_d_pointer := d\<rparr>) P1"
    using ensure_doubly_ok[OF ok tree] by blast
  have sP: "?s \<noteq> 0 \<longrightarrow> unat ?s \<in> P" using tree by (simp add: tree_ok_def)
  show ?thesis
  proof (cases "d = 0")
    case True
    with \<open>268 < nb\<close> e sP show ?thesis
      by (intro exI[of _ "Inl ENOSPC"] exI[of _ fs1] exI[of _ 0] exI[of _ "in_pointer_blocks ino"] exI[of _ P1]) (simp add: write_doubly_def Let_def)
  next
    case False
    note X = expandsD[OF e(2)]
    have S1: "fb_block_size fs1 = 1024" "e2_block_pointers_per_block fs1 = 256"
      using same_shapeD(1,7)[OF X(7)] N ext2_okD(2)[OF ok] by simp_all
    obtain es where es: "block_at fs1 (unat d) = le32s es" "entries_ok P1 es" "d \<notin> set es" "?s \<noteq> 0 \<longrightarrow> ?s \<notin> set es" "d \<noteq> ?s" "unat d \<in> P1"
        "owned n fs1 P1" "?s \<noteq> 0 \<longrightarrow> unat ?s \<in> P1"
      using e(4) False by (auto simp: tree_ok_def)
    have rd: "fs_read_block fs1 (unat d) buf = Inr (Inr (), le32s es)"
      using fs_read_block_ok[OF ext2_okD(1)[OF X(4)], of "unat d" buf] es(1,6,7) buf S1(1) by (auto simp: owned_def)
    obtain r pbs fs2 where sd: "store_doubly ?bps 0 256 fs1 (le32s es) 268 (in_pointer_blocks ino @ [d]) = Inr (r, pbs, fs2)"
        "doubly_done n ?bps 0 256 268 es (in_pointer_blocks ino @ [d]) P1 fs1 r pbs fs2"
      using store_doubly_ok[OF X(4) S1(2) es(7,2), of 0 256 ?bps 268 "in_pointer_blocks ino @ [d]"] by auto
    from sd(2) obtain P2 where P2: "expands n fs1 fs2 P1 P2" "\<forall>c \<in> P1. c \<notin> unat ` set es \<longrightarrow> block_at fs2 c = block_at fs1 c"
        "case r of
           Inl e \<Rightarrow> e = ENOSPC
         | Inr (buf, cur') \<Rightarrow> \<exists>es' m. buf = le32s es' \<and> entries_ok P2 es' \<and> m \<le> 256 \<and> cur' = 268 + 256 * m \<and>
             (m < 256 \<longrightarrow> length ?bps \<le> cur') \<and> (0 < m \<longrightarrow> 268 + 256 * (m - 1) < length ?bps) \<and>
             stored fs2 ?bps 0 m 268 es es' \<and> pbs = (in_pointer_blocks ino @ [d]) @ take m es' \<and> (\<forall>i < 256. unat (es' ! i) \<in> P1 \<longrightarrow> es' ! i = es ! i)"
      unfolding doubly_done_def drop_0 by blast
    have keep: "block_at fs2 (unat w) = block_at fs1 (unat w)" if "unat w \<in> P1" "w \<notin> set es" for w
      using P2(2) that by (auto simp: word_unat_eq_iff[symmetric])
    have skeep: "?s \<noteq> 0 \<longrightarrow> block_at fs2 (unat ?s) = block_at fs (unat ?s)" using keep[of ?s] es(4,8) e(3) sP by simp
    have sz: "e2_block_pointers_per_block fs = 256" "stack_buf fs1 (fb_block_size fs1) = stack_buf fs1 1024" using N S1 by simp_all
    show ?thesis
    proof (cases r)
      case (Inl err)
      have "tree_ok n fs2 (?r\<lparr>ri_d_pointer := d\<rparr>) P2" by (rule tree_ok_expands[OF X(4) e(4) P2(1)]) (use keep[of d] es in simp)
      moreover have "write_doubly fs ino nb 268 buf = Inr (Inl err, fs2, ino\<lparr>in_raw := ?r\<lparr>ri_d_pointer := d\<rparr>, in_pointer_blocks := pbs\<rparr>)"
        using True e(1) False rd sd(1) Inl N by (simp add: write_doubly_def Let_def)
      ultimately show ?thesis using Inl P2(3) skeep expands_trans[OF e(2) P2(1)]
        by (intro exI[of _ "Inl err"] exI[of _ fs2] exI[of _ d] exI[of _ pbs] exI[of _ P2]) simp
    next
      case (Inr bc)
      then obtain cur' es' m where R: "bc = (le32s es', cur')" "entries_ok P2 es'" "m \<le> 256" "cur' = 268 + 256 * m"
        "m < 256 \<longrightarrow> length ?bps \<le> cur'" "0 < m \<longrightarrow> 268 + 256 * (m - 1) < length ?bps" "stored fs2 ?bps 0 m 268 es es'"
        "pbs = (in_pointer_blocks ino @ [d]) @ take m es'" "\<forall>i < 256. unat (es' ! i) \<in> P1 \<longrightarrow> es' ! i = es ! i" using P2(3) by auto
      have len: "length es = 256" "length es' = 256" using es(2) R(2) by (simp_all add: entries_ok_def)
      let ?fs = "put_block fs2 (unat d) (le32s es')"
      note W = doubly_written[OF X(4) e(4), simplified, OF False es(1) P2(1) R(2,9) len(1) R(7,3)]
      have "?s \<noteq> 0 \<longrightarrow> block_at ?fs (unat ?s) = block_at fs (unat ?s)"
        using W(5)[of "unat ?s"] es(5,8) skeep expandsD(1)[OF P2(1)] by (auto simp: word_unat_eq_iff[symmetric])
      moreover have "write_doubly fs ino nb 268 buf = Inr (Inr (), ?fs, ino\<lparr>in_raw := ?r\<lparr>ri_d_pointer := d\<rparr>, in_pointer_blocks := pbs\<rparr>)"
        using True e(1) False rd sd(1) Inr N R(1) W(2) by (simp add: write_doubly_def Let_def)
      moreover have "doubly_held ?fs (?r\<lparr>ri_d_pointer := d\<rparr>) ?bps nb (d # take m es')"
        using True False W(4,6) R(3,4,5,6) len(2) unfolding doubly_held_def stored_def
        by (auto intro!: exI[of _ es'] exI[of _ m])
      ultimately show ?thesis using W(1) R(8) expands_trans[OF e(2) expands_trans[OF P2(1) W(3)]]
        by (intro exI[of _ "Inr ()"] exI[of _ ?fs] exI[of _ d] exI[of _ pbs] exI[of _ P2]) simp
    qed
  qed
qed

section \<open>Storing the pointers of a file\<close>

text \<open>Twelve direct blocks, 256 through the singly-indirect block and \<open>256 * 256\<close> through the doubly-indirect one.\<close>

definition max_blocks :: nat where
  "max_blocks = 65804"

lemma blocks_for_ok:
  assumes "fb_block_size fs = 1024" "k + 1024 < 2 ^ 32"
  shows "blocks_for fs k = Inr ((k + 1023) div 1024)"
proof -
  have "add32 k 1024 = k + 1024" by (rule add32_less[OF assms(2)])
  moreover have "sub32 (k + 1024) 1 = k + 1023" using assms(2) by (subst sub32_le) simp_all
  ultimately show ?thesis using assms(1) by (simp add: blocks_for_def divR_def del: One_nat_def)
qed

definition tree_held :: "'a ext2_scheme \<Rightarrow> raw_inode \<Rightarrow> u32 list \<Rightarrow> nat \<Rightarrow> u32 list \<Rightarrow> bool" where
  "tree_held fs r bps nb pbs \<longleftrightarrow> ri_block_pointers r = map (bp_or_zero bps) [0..<12] \<and> singly_held fs r bps nb \<and> ri_t_pointer r = 0 \<and>
     (\<exists>dp. pbs = (if nb > 12 then [ri_s_pointer r] else []) @ dp \<and> doubly_held fs r bps nb dp)"

text \<open>Everything of a raw inode but the pointers and the block count.\<close>

definition same_raw :: "raw_inode \<Rightarrow> raw_inode \<Rightarrow> bool" where
  "same_raw r r' \<longleftrightarrow>
     r'\<lparr>ri_block_pointers := [], ri_s_pointer := 0, ri_d_pointer := 0, ri_t_pointer := 0, ri_logical_blocks := 0\<rparr> =
     r\<lparr>ri_block_pointers := [], ri_s_pointer := 0, ri_d_pointer := 0, ri_t_pointer := 0, ri_logical_blocks := 0\<rparr>"

lemma same_raw_refl [simp]: "same_raw r r"
  by (simp add: same_raw_def)

lemma same_raw_upd [simp]:
  "same_raw r (r'\<lparr>ri_block_pointers := b\<rparr>) = same_raw r r'" "same_raw r (r'\<lparr>ri_s_pointer := s\<rparr>) = same_raw r r'"
  "same_raw r (r'\<lparr>ri_d_pointer := d\<rparr>) = same_raw r r'" "same_raw r (r'\<lparr>ri_t_pointer := t\<rparr>) = same_raw r r'"
  "same_raw r (r'\<lparr>ri_logical_blocks := l\<rparr>) = same_raw r r'"
  by (simp_all add: same_raw_def)

lemma raw_inode_ok_upd [simp]:
  "raw_inode_ok (r\<lparr>ri_s_pointer := s\<rparr>) = raw_inode_ok r" "raw_inode_ok (r\<lparr>ri_d_pointer := s\<rparr>) = raw_inode_ok r"
  "raw_inode_ok (r\<lparr>ri_t_pointer := s\<rparr>) = raw_inode_ok r" "raw_inode_ok (r\<lparr>ri_logical_blocks := s\<rparr>) = raw_inode_ok r"
  by (simp_all add: raw_inode_ok_def)

lemma tree_ok_cong:
  "ri_s_pointer r' = ri_s_pointer r \<Longrightarrow> ri_d_pointer r' = ri_d_pointer r \<Longrightarrow> ri_t_pointer r' = ri_t_pointer r \<Longrightarrow>
    tree_ok n fs r' P = tree_ok n fs r P"
  by (simp add: tree_ok_def)

lemma calculate_ok: "e2_block_pointers_per_block fs = 256 \<Longrightarrow> \<exists>k. calculate_num_ptr_blocks fs nb = Inr k"
  by (auto simp: calculate_num_ptr_blocks_def Let_def divR_def mul32_def)

definition direct_set :: "ext2_inode \<Rightarrow> ext2_inode" where
  "direct_set ino = ino\<lparr>in_pointer_blocks := [],
     in_raw := (in_raw ino)\<lparr>ri_block_pointers := map (bp_or_zero (in_block_pointers ino)) [0..<12]\<rparr>\<rparr>"

lemma direct_set_fields [simp]:
  "in_block_pointers (direct_set ino) = in_block_pointers ino" "in_pointer_blocks (direct_set ino) = []"
  "in_raw (direct_set ino) = (in_raw ino)\<lparr>ri_block_pointers := map (bp_or_zero (in_block_pointers ino)) [0..<12]\<rparr>"
  by (simp_all add: direct_set_def)

lemma write_block_pointers_ok:
  assumes ok: "ext2_ok n fs" and N: "e2_block_pointers_per_block fs = 256" and tree: "tree_ok n fs (in_raw ino) P"
    and f: "\<not> is_device (in_metadata ino)" "\<not> is_inline ino" "im_size (in_metadata ino) + 1024 < 2 ^ 32"
    and nb: "nb = (im_size (in_metadata ino) + 1023) div 1024" "nb \<le> max_blocks"
    and raw: "raw_inode_ok (in_raw ino)"
  shows "\<exists>r fs' raw' pbs dirty P'. write_block_pointers fs ino =
      Inr (r, fs', ino\<lparr>in_raw := raw', in_pointer_blocks := pbs, in_dirty := dirty\<rparr>) \<and> expands n fs fs' P P' \<and> tree_ok n fs' raw' P' \<and>
    same_raw (in_raw ino) raw' \<and> raw_inode_ok raw' \<and>
    (case r of Inl e \<Rightarrow> e = ENOSPC | Inr _ \<Rightarrow> tree_held fs' raw' (in_block_pointers ino) nb pbs)"
proof -
  let ?ino = "direct_set ino" and ?bps = "in_block_pointers ino"
  let ?raw = "in_raw ?ino"
  have num: "num_blocks fs ino = Inr nb" using blocks_for_ok[OF ext2_okD(2)[OF ok] f(3)] f(2) nb(1) by (simp add: num_blocks_def)
  obtain k where calc: "calculate_num_ptr_blocks fs nb = Inr k" using calculate_ok[OF N] by blast
  have t0: "tree_ok n fs ?raw P" using tree tree_ok_cong[of ?raw "in_raw ino" n fs P] by (simp add: direct_set_def)
  have r0: "raw_inode_ok ?raw" "same_raw (in_raw ino) ?raw" using raw by (simp_all add: direct_set_def raw_inode_ok_def)
  obtain r1 fs1 s pbs1 P1 where 1: "write_singly fs ?ino nb = Inr (r1, fs1, ?ino\<lparr>in_raw := ?raw\<lparr>ri_s_pointer := s\<rparr>, in_pointer_blocks := pbs1\<rparr>)"
      "expands n fs fs1 P P1" "tree_ok n fs1 (?raw\<lparr>ri_s_pointer := s\<rparr>) P1"
      "case r1 of Inl e \<Rightarrow> e = ENOSPC | Inr buf \<Rightarrow> length buf = 1024 \<and> singly_held fs1 (?raw\<lparr>ri_s_pointer := s\<rparr>) ?bps nb \<and> pbs1 = (if nb > 12 then [s] else [])"
    using write_singly_ok[OF ok N t0, of nb] unfolding direct_set_fields append_Nil by blast
  let ?raw1 = "?raw\<lparr>ri_s_pointer := s\<rparr>"
  let ?ino1 = "?ino\<lparr>in_raw := ?raw1, in_pointer_blocks := pbs1\<rparr>"
  note X = expandsD[OF 1(2)]
  have N1: "e2_block_pointers_per_block fs1 = 256" using same_shapeD(7)[OF X(7)] N by simp
  have cst: "add32 12 256 = 268" "mul32 256 256 = 65536" "add32 268 65536 = 65804" "1024 div 512 = (2 :: nat)"
    by (simp_all add: add32_def mul32_def)
  have unf: "write_block_pointers fs ino = bindR (write_singly fs ?ino nb) (\<lambda>(r, fs1, ino2).
              case r of Inl e \<Rightarrow> Inr (Inl e, fs1, ino2) | Inr block_buf \<Rightarrow>
            bindR (write_doubly fs1 ino2 nb 268 block_buf) (\<lambda>(r, fs2, ino3).
              case r of Inl e \<Rightarrow> Inr (Inl e, fs2, ino3) | Inr _ \<Rightarrow>
            bindR (write_triply fs2 ino3 nb 65804) (\<lambda>(r, fs3, ino4).
              case r of Inl e \<Rightarrow> Inr (Inl e, fs3, ino4) | Inr _ \<Rightarrow>
              Inr (Inr (), fs3, ino4\<lparr>in_dirty := True, in_raw := (in_raw ino4)\<lparr>ri_logical_blocks :=
                of_nat ((length (in_block_pointers ino4) + length (in_pointer_blocks ino4)) * 2)\<rparr>\<rparr>))))"
    unfolding write_block_pointers_def Let_def num calc N ext2_okD(2)[OF ok] bindR_simps cst direct_set_def
    using f(1,2) by simp
  show ?thesis
  proof (cases r1)
    case (Inl e)
    then have "write_block_pointers fs ino = Inr (Inl e, fs1, ino\<lparr>in_raw := ?raw1, in_pointer_blocks := pbs1, in_dirty := in_dirty ino\<rparr>)"
      using unf 1(1) by (simp add: direct_set_def)
    with Inl 1 r0 show ?thesis
      by (intro exI[of _ "Inl e"] exI[of _ fs1] exI[of _ ?raw1] exI[of _ pbs1] exI[of _ "in_dirty ino"] exI[of _ P1]) simp
  next
    case (Inr buf)
    have f1: "in_pointer_blocks ?ino1 = pbs1" "in_raw ?ino1 = ?raw1" "in_block_pointers ?ino1 = ?bps" "ri_s_pointer ?raw1 = s" by simp_all
    have t1: "tree_ok n fs1 (in_raw ?ino1) P1" and lb: "length buf = 1024" using 1(3,4) Inr by simp_all
    obtain r2 fs2 d pbs2 P2 where 2: "write_doubly fs1 ?ino1 nb 268 buf = Inr (r2, fs2, ?ino1\<lparr>in_raw := ?raw1\<lparr>ri_d_pointer := d\<rparr>, in_pointer_blocks := pbs2\<rparr>)"
        "expands n fs1 fs2 P1 P2" "tree_ok n fs2 (?raw1\<lparr>ri_d_pointer := d\<rparr>) P2"
        "s \<noteq> 0 \<longrightarrow> block_at fs2 (unat s) = block_at fs1 (unat s)"
        "case r2 of Inl e \<Rightarrow> e = ENOSPC | Inr _ \<Rightarrow> \<exists>dp. pbs2 = pbs1 @ dp \<and> doubly_held fs2 (?raw1\<lparr>ri_d_pointer := d\<rparr>) ?bps nb dp"
      using write_doubly_ok[OF X(4) N1 t1 lb, of nb] unfolding f1 by blast
    let ?raw2 = "?raw1\<lparr>ri_d_pointer := d\<rparr>"
    let ?ino2 = "?ino1\<lparr>in_raw := ?raw2, in_pointer_blocks := pbs2\<rparr>"
    note E = expands_trans[OF 1(2) 2(2)]
    show ?thesis
    proof (cases r2)
      case (Inl e)
      then have "write_block_pointers fs ino = Inr (Inl e, fs2, ino\<lparr>in_raw := ?raw2, in_pointer_blocks := pbs2, in_dirty := in_dirty ino\<rparr>)"
        using unf 1(1) Inr 2(1) by (simp add: direct_set_def)
      with Inl 2 E r0 show ?thesis
        by (intro exI[of _ "Inl e"] exI[of _ fs2] exI[of _ ?raw2] exI[of _ pbs2] exI[of _ "in_dirty ino"] exI[of _ P2]) simp
    next
      case (Inr u)
      let ?raw3 = "?raw2\<lparr>ri_t_pointer := 0, ri_logical_blocks := of_nat ((length ?bps + length pbs2) * 2)\<rparr>"
      have "write_triply fs2 ?ino2 nb 65804 = Inr (Inr (), fs2, ?ino2\<lparr>in_raw := ?raw2\<lparr>ri_t_pointer := 0\<rparr>\<rparr>)"
        using nb(2) by (simp add: write_triply_def max_blocks_def)
      then have w: "write_block_pointers fs ino = Inr (Inr (), fs2, ino\<lparr>in_raw := ?raw3, in_pointer_blocks := pbs2, in_dirty := True\<rparr>)"
        using unf 1(1) \<open>r1 = Inr buf\<close> 2(1) Inr by (simp add: direct_set_def)
      have t3: "tree_ok n fs2 ?raw3 P2" using 2(3) by (simp add: tree_ok_def)
      have sh: "singly_held fs1 ?raw1 ?bps nb" "pbs1 = (if nb > 12 then [s] else [])" using 1(4) \<open>r1 = Inr buf\<close> by simp_all
      have "singly_held fs2 ?raw3 ?bps nb" using sh(1) 2(4) by (auto simp: singly_held_def)
      moreover have "\<exists>dp. pbs2 = pbs1 @ dp \<and> doubly_held fs2 ?raw3 ?bps nb dp" using 2(5) Inr by (auto simp: doubly_held_def)
      ultimately have "tree_held fs2 ?raw3 ?bps nb pbs2" using sh(2) by (cases "12 < nb") (auto simp: tree_held_def)
      with w E t3 r0 show ?thesis
        by (intro exI[of _ "Inr ()"] exI[of _ fs2] exI[of _ ?raw3] exI[of _ pbs2] exI[of _ True] exI[of _ P2]) simp
    qed
  qed
qed

end
