(* ===== verification/Ext2LoadSpec.thy ===== *)
theory Ext2LoadSpec
  imports Ext2PtrSpec
begin

text \<open>
  Loading an inode: the pointer blocks that \<open>write_block_pointers\<close> stores are read back in order, and the
  entry in the inode table gives the metadata back.
\<close>

section \<open>Reading pointer blocks\<close>

text \<open>The state of the readers when the first \<open>k\<close> of the pointers \<open>B\<close> have been read.\<close>

definition part :: "ext2_inode \<Rightarrow> u32 list \<Rightarrow> nat \<Rightarrow> u32 list \<Rightarrow> ext2_inode \<times> nat" where
  "part ino B k p = (ino\<lparr>in_block_pointers := take k B, in_pointer_blocks := p\<rparr>, k)"

lemma snd_part [simp]: "snd (part ino B k p) = k"
  by (simp add: part_def)

lemma pointer_order:
  "ino\<lparr>in_pointer_blocks := y, in_block_pointers := x\<rparr> = ino\<lparr>in_block_pointers := x, in_pointer_blocks := y\<rparr>"
  by simp

lemma singly_loop_ok:
  assumes "i + left = length ws" "\<forall>j < length ws. cur + j < length B \<longrightarrow> ws ! j = B ! (cur + j)"
  shows "singly_loop (length B) (le32s ws) i (part ino B (min (length B) (cur + i)) p) left =
    Inr (part ino B (min (length B) (cur + length ws)) p)"
  using assms(1)
proof (induction left arbitrary: i)
  case 0
  then show ?case by (simp add: part_def)
next
  case (Suc left)
  show ?case
  proof (cases "cur + i < length B")
    case True
    then have "read32 (le32s ws) i = Inr (B ! (cur + i))" using read32_le32s[of i ws] Suc.prems assms(2) by simp
    moreover have "min (length B) (cur + i) = cur + i" "min (length B) (cur + (i + 1)) = cur + i + 1" using True by simp_all
    moreover have "take (cur + i) B @ [B ! (cur + i)] = take (cur + i + 1) B" using True by (simp add: take_Suc_conv_app_nth)
    ultimately show ?thesis using Suc.IH[of "i + 1"] Suc.prems True by (simp add: part_def pointer_order)
  next
    case False
    then have "min (length B) (cur + i) = length B" "min (length B) (cur + length ws) = length B" using Suc.prems by simp_all
    then show ?thesis by (simp add: part_def)
  qed
qed

lemma ptr_list_nth: "j < 256 \<Longrightarrow> cur + j < length B \<Longrightarrow> ptr_list B cur ! j = B ! (cur + j)"
  by (simp add: ptr_list_def bp_or_zero_def)

lemma read_singly_ok:
  assumes ok: "ext2_ok n fs" and N: "e2_block_pointers_per_block fs = 256" and b: "b \<noteq> 0" "unat b < n"
    and blk: "block_at fs (unat b) = le32s (ptr_list B cur)" and cur: "cur < length B"
  shows "read_singly_indirect fs (length B) b (part ino B cur p) = Inr (part ino B (min (length B) (cur + 256)) (p @ [b]))"
proof -
  have rd: "fs_read_block fs (unat b) (stack_buf fs (fb_block_size fs)) = Inr (Inr (), le32s (ptr_list B cur))"
    using fs_read_block_ok[OF ext2_okD(1)[OF ok] b(2)] blk by simp
  have "singly_loop (length B) (le32s (ptr_list B cur)) 0 (part ino B (min (length B) (cur + 0)) (p @ [b])) 256 =
      Inr (part ino B (min (length B) (cur + length (ptr_list B cur))) (p @ [b]))"
    by (rule singly_loop_ok) (use cur ptr_list_nth in simp_all)
  then show ?thesis using rd b(1) cur N by (simp add: read_singly_indirect_def part_def)
qed

lemma doubly_loop_ok:
  assumes ok: "ext2_ok n fs" and N: "e2_block_pointers_per_block fs = 256"
    and es: "length es = 256" "\<forall>i < m. es ! i \<noteq> 0 \<and> unat (es ! i) < n \<and> block_at fs (unat (es ! i)) = le32s (ptr_list B (268 + 256 * i))"
    and m: "m \<le> 256" "m < 256 \<longrightarrow> length B \<le> 268 + 256 * m" "0 < m \<longrightarrow> 268 + 256 * (m - 1) < length B" "length B \<le> max_blocks"
  shows "i \<le> m \<Longrightarrow> doubly_loop fs (length B) (le32s es) i (part ino B (min (length B) (268 + 256 * i)) (p @ take i es)) (256 - i) =
    Inr (part ino B (length B) (p @ take m es))"
proof (induction "m - i" arbitrary: i)
  case 0
  then have i: "i = m" by simp
  show ?case
  proof (cases "m = 256")
    case True
    then show ?thesis using i m(4) by (simp add: max_blocks_def)
  next
    case False
    then have "min (length B) (268 + 256 * i) = length B" "256 - i = Suc (255 - i)" using i m(1,2) by auto
    then show ?thesis using i by simp
  qed
next
  case (Suc k)
  then have i: "i < m" "256 - i = Suc (256 - (i + 1))" using m(1) by auto
  have "256 * i \<le> 256 * (m - 1)" using i(1) by (intro mult_le_mono2) simp
  then have lt: "268 + 256 * i < length B" using m(3) i(1) by linarith
  have rd: "read32 (le32s es) i = Inr (es ! i)" using read32_le32s[of i es] es(1) i m(1) by simp
  have "read_singly_indirect fs (length B) (es ! i) (part ino B (268 + 256 * i) (p @ take i es)) =
      Inr (part ino B (min (length B) (268 + 256 * i + 256)) ((p @ take i es) @ [es ! i]))"
    using es(2) i(1) lt by (intro read_singly_ok[OF ok N]) simp_all
  moreover have "(p @ take i es) @ [es ! i] = p @ take (i + 1) es" using es(1) i(1) m(1) by (simp add: take_Suc_conv_app_nth)
  moreover have "268 + 256 * i + 256 = 268 + 256 * (i + 1)" "min (length B) (268 + 256 * i) = 268 + 256 * i" using lt by simp_all
  ultimately have "doubly_loop fs (length B) (le32s es) i (part ino B (min (length B) (268 + 256 * i)) (p @ take i es)) (256 - i) =
      doubly_loop fs (length B) (le32s es) (i + 1) (part ino B (min (length B) (268 + 256 * (i + 1))) (p @ take (i + 1) es)) (256 - (i + 1))"
    unfolding i(2) using rd lt by (simp only: doubly_loop.simps snd_part if_True bindR_simps)
  also have "\<dots> = Inr (part ino B (length B) (p @ take m es))" using Suc.hyps(1)[of "i + 1"] Suc.hyps(2) i(1) by simp
  finally show ?case .
qed

lemma read_doubly_ok:
  assumes ok: "ext2_ok n fs" and N: "e2_block_pointers_per_block fs = 256" and tree: "tree_ok n fs r P"
    and held: "doubly_held fs r B (length B) dp" and nb: "268 < length B" "length B \<le> max_blocks"
  shows "read_doubly_indirect fs (length B) (ri_d_pointer r) (part ino B 268 p) = Inr (part ino B (length B) (p @ dp))"
proof -
  let ?d = "ri_d_pointer r"
  obtain es m where h: "?d \<noteq> 0" "block_at fs (unat ?d) = le32s es" "length es = 256" "m \<le> 256" "m < 256 \<longrightarrow> length B \<le> 268 + 256 * m"
      "0 < m \<longrightarrow> 268 + 256 * (m - 1) < length B" "\<forall>i < m. es ! i \<noteq> 0 \<and> block_at fs (unat (es ! i)) = le32s (ptr_list B (268 + 256 * i))"
      "dp = ?d # take m es"
    using held nb(1) by (auto simp: doubly_held_def)
  obtain es0 where e0: "block_at fs (unat ?d) = le32s es0" "entries_ok P es0" "unat ?d \<in> P" "owned n fs P" using tree h(1) by (auto simp: tree_ok_def)
  have "es0 = es" using e0(1,2) h(2,3) get32s_le32s[of es0] get32s_le32s[of es] by (simp add: entries_ok_def)
  with e0 have e: "entries_ok P es" by simp
  have es: "\<forall>i < m. es ! i \<noteq> 0 \<and> unat (es ! i) < n \<and> block_at fs (unat (es ! i)) = le32s (ptr_list B (268 + 256 * i))"
    using h(4,7) e e0(4) by (auto simp: entries_ok_def owned_def)
  have rd: "fs_read_block fs (unat ?d) (stack_buf fs (fb_block_size fs)) = Inr (Inr (), le32s es)"
    using fs_read_block_ok[OF ext2_okD(1)[OF ok], of "unat ?d"] h(2) e0(3,4) by (auto simp: owned_def)
  have st: "part ino B 268 (p @ [?d]) = part ino B (min (length B) (268 + 256 * 0)) ((p @ [?d]) @ take 0 es)" using nb(1) by simp
  have "doubly_loop fs (length B) (le32s es) 0 (part ino B 268 (p @ [?d])) (256 - 0) = Inr (part ino B (length B) ((p @ [?d]) @ take m es))"
    unfolding st by (rule doubly_loop_ok[OF ok N h(3) es h(4,5,6) nb(2)]) simp
  then show ?thesis using rd h(1,8) nb(1) N by (simp add: read_doubly_indirect_def part_def)
qed

lemma read_block_pointers_ok:
  assumes ok: "ext2_ok n fs" and N: "e2_block_pointers_per_block fs = 256" and tree: "tree_ok n fs (in_raw ino) P"
    and held: "tree_held fs (in_raw ino) B (length B) pbs" and f: "\<not> is_inline ino" "num_blocks fs ino = Inr (length B)" "length B \<le> max_blocks"
  shows "read_block_pointers fs ino = Inr (ino\<lparr>in_block_pointers := B, in_pointer_blocks := pbs\<rparr>)"
proof -
  let ?r = "in_raw ino" and ?k = "min (length B) 268"
  let ?sp = "if length B > 12 then [ri_s_pointer ?r] else []"
  obtain dp where h: "ri_block_pointers ?r = map (bp_or_zero B) [0..<12]" "singly_held fs ?r B (length B)" "ri_t_pointer ?r = 0"
      "pbs = ?sp @ dp" "doubly_held fs ?r B (length B) dp" using held by (auto simp: tree_held_def)
  have "take (min 12 (length B)) (map (bp_or_zero B) [0..<12]) = take (min 12 (length B)) B"
    by (rule nth_equalityI) (simp_all add: bp_or_zero_def)
  then have st0: "(ino\<lparr>in_block_pointers := take (min 12 (length B)) (ri_block_pointers ?r), in_pointer_blocks := []\<rparr>, min 12 (length B)) =
      part ino B (min 12 (length B)) []" by (simp add: part_def h(1))
  have s1: "read_singly_indirect fs (length B) (ri_s_pointer ?r) (part ino B (min 12 (length B)) []) = Inr (part ino B ?k ?sp)"
  proof (cases "12 < length B")
    case True
    then have "ri_s_pointer ?r \<noteq> 0" "block_at fs (unat (ri_s_pointer ?r)) = le32s (ptr_list B 12)" using h(2) by (simp_all add: singly_held_def)
    moreover from this have "unat (ri_s_pointer ?r) < n" using tree by (auto simp: tree_ok_def owned_def)
    ultimately show ?thesis using read_singly_ok[OF ok N, of "ri_s_pointer ?r" B 12 ino "[]"] True by simp
  qed (use h(2) in \<open>simp add: singly_held_def read_singly_indirect_def\<close>)
  have s2: "read_doubly_indirect fs (length B) (ri_d_pointer ?r) (part ino B ?k ?sp) = Inr (part ino B (length B) pbs)"
  proof (cases "268 < length B")
    case True
    then have "?k = 268" by simp
    then show ?thesis using read_doubly_ok[OF ok N tree h(5) True f(3), of ino ?sp] h(4) by simp
  next
    case False
    then have "?k = length B" "pbs = ?sp" using h(4,5) by (auto simp: doubly_held_def)
    then show ?thesis by (simp add: read_doubly_indirect_def)
  qed
  have "read_triply_indirect fs (length B) (ri_t_pointer ?r) (part ino B (length B) pbs) = Inr (part ino B (length B) pbs)"
    by (simp add: read_triply_indirect_def)
  then show ?thesis using f(1,2) s1 s2 st0 by (simp add: read_block_pointers_def Let_def) (simp add: part_def)
qed

section \<open>Loading the inode\<close>

text \<open>Metadata that fits the fields of the raw inode.\<close>

definition meta_fits :: "inode_metadata \<Rightarrow> bool" where
  "meta_fits m \<longleftrightarrow> im_mode m < 2 ^ 16 \<and> im_uid m < 2 ^ 16 \<and> im_gid m < 2 ^ 16 \<and> im_size m < 2 ^ 32"

lemma ucast_mode: "(m :: u32) < 2 ^ 16 \<Longrightarrow> (ucast (ucast m :: u16) :: u32) = m"
  by (simp add: unsigned_ucast_eq take_bit_eq_mod mod_word_less)

lemma create_metadata_ok:
  assumes "meta_fits m" "in_raw ino' = in_raw (synced ino)" "in_metadata ino = m" "\<not> is_device m"
  shows "\<exists>m'. create_metadata fs ino' = ino'\<lparr>in_metadata := m'\<rparr> \<and> im_size m' = im_size m \<and> im_mode m' = im_mode m \<and>
    im_uid m' = im_uid m \<and> im_gid m' = im_gid m \<and> im_inode_id m' = in_id ino'"
proof -
  have r: "unat (ri_uid (in_raw ino')) = im_uid m" "unat (ri_gid (in_raw ino')) = im_gid m" "unat (ri_size (in_raw ino')) = im_size m"
      "ucast (ri_mode (in_raw ino')) = im_mode m"
    using assms(1,2,3) ucast_mode[of "im_mode m"] by (simp_all add: synced_def meta_fits_def unsigned_of_nat take_bit_nat_eq_self)
  let ?m = "(initial_metadata fs)\<lparr>im_uid := im_uid m, im_gid := im_gid m, im_mode := im_mode m, im_size := im_size m, im_inode_id := in_id ino'\<rparr>"
  have "\<not> is_device ?m" using assms(4) by (simp add: is_device_def)
  then have "create_metadata fs ino' = ino'\<lparr>in_metadata := ?m\<rparr>" by (simp add: create_metadata_def Let_def r)
  then show ?thesis by (intro exI[of _ ?m]) simp
qed

definition loads_as :: "'a ext2_scheme \<Rightarrow> ext2_inode \<Rightarrow> bool" where
  "loads_as fs ino \<longleftrightarrow> (\<exists>ino' fs'. inode_load fs (in_id ino) = Inr (ino', fs') \<and> in_id ino' = in_id ino \<and>
     in_block_pointers ino' = in_block_pointers ino \<and> in_pointer_blocks ino' = in_pointer_blocks ino \<and> in_raw ino' = in_raw ino \<and>
     in_exists ino' \<and> im_size (in_metadata ino') = im_size (in_metadata ino) \<and> im_mode (in_metadata ino') = im_mode (in_metadata ino) \<and>
     im_uid (in_metadata ino') = im_uid (in_metadata ino) \<and> im_gid (in_metadata ino') = im_gid (in_metadata ino) \<and> block_at fs' = block_at fs \<and>
     fb_block_size fs' = fb_block_size fs)"

lemma inode_load_ok:
  assumes ok: "ext2_ok n fs" "table_ok fs" and v: "valid_id fs (in_id ino)" and m: "meta_fits (in_metadata ino)"
    and f: "\<not> is_device (in_metadata ino)" "\<not> is_symlink (in_metadata ino)" "im_size (in_metadata ino) + 1024 < 2 ^ 32"
    and raw: "in_raw ino = in_raw (synced ino)" "raw_inode_ok (in_raw ino)"
    and slot: "take 128 (drop (slot_off fs (in_id ino)) (block_at fs (slot_block fs (in_id ino)))) = raw_inode_bytes (in_raw ino)"
    and tree: "tree_ok n fs (in_raw ino) P" "tree_held fs (in_raw ino) (in_block_pointers ino) (length (in_block_pointers ino)) (in_pointer_blocks ino)"
    and nb: "length (in_block_pointers ino) = (im_size (in_metadata ino) + 1023) div 1024" "length (in_block_pointers ino) \<le> max_blocks"
  shows "loads_as fs ino"
proof -
  let ?id = "in_id ino" and ?B = "in_block_pointers ino"
  let ?i0 = "\<lparr>in_id = ?id, in_metadata = initial_metadata fs, in_exists = True, in_block_pointers = [],
      in_pointer_blocks = [], in_raw = raw_inode_zero, in_dirty = False\<rparr>"
  obtain fs1 where fs1: "table_slot fs ?i0 = Inr ((slot_block fs ?id, slot_off fs ?id), fs1)" "loaded n fs fs1"
    using table_slot_ok[OF ok, of ?i0] v by auto
  note L = loadedD[OF fs1(2)] and D = ext2_okD[OF loadedD(1)[OF fs1(2)]]
  note S = slot_block_ok[OF ok v]
  have SS: "same_shape fs fs1" by (rule reallocD(2)[OF loaded_realloc[OF fs1(2)]])
  have "n * 1024 < 2 ^ 32" using D(1,2) by (simp add: store_ok_def)
  then have a0: "add32 (slot_block fs ?id) 0 = slot_block fs ?id" using S(2) by (simp add: add32_def)
  have rd: "fs_read_blocks fs1 (slot_block fs ?id) 1 (stack_buf fs1 (fb_block_size fs1)) = Inr (Inr (), block_at fs (slot_block fs ?id))"
    using fs_read_block_ok[OF D(1) S(2)] L(2) a0 by (simp add: fs_read_blocks_def fs_read_block_def)
  have lb: "length (block_at fs (slot_block fs ?id)) = 1024" using length_block_at[OF D(1) S(2)] D(2) L(2) by simp
  have mf: "memcpy_from (block_at fs (slot_block fs ?id)) (slot_off fs ?id) 128 = Inr (raw_inode_bytes (in_raw ino))"
    using slot_off_bound[of fs ?id] lb slot by simp
  let ?i1 = "?i0\<lparr>in_raw := in_raw ino\<rparr>"
  obtain m' where m': "create_metadata fs1 ?i1 = ?i1\<lparr>in_metadata := m'\<rparr>" "im_size m' = im_size (in_metadata ino)"
      "im_mode m' = im_mode (in_metadata ino)" "im_uid m' = im_uid (in_metadata ino)" "im_gid m' = im_gid (in_metadata ino)"
    using create_metadata_ok[OF m, of ?i1 ino fs1] raw(1) f(1) by auto
  let ?i2 = "?i1\<lparr>in_metadata := m'\<rparr>"
  have nd: "\<not> is_device m'" "\<not> is_inline ?i2" using f m'(3) by (simp_all add: is_device_def is_inline_def is_symlink_def)
  have num: "num_blocks fs1 ?i2 = Inr (length ?B)"
    using nd(2) blocks_for_ok[OF D(2), of "im_size m'"] f(3) nb(1) m'(2) by (simp add: num_blocks_def)
  have N: "e2_block_pointers_per_block fs1 = 256" using ok(2) same_shapeD(7)[OF SS] by (simp add: table_ok_def)
  have i2: "in_raw ?i2 = in_raw ino" by simp
  have t1: "tree_ok n fs1 (in_raw ?i2) P" using tree(1) unfolding i2 tree_ok_def owned_def L(2,4,6) .
  have t2: "tree_held fs1 (in_raw ?i2) ?B (length ?B) (in_pointer_blocks ino)"
    using tree(2) unfolding i2 tree_held_def singly_held_def doubly_held_def L(2) .
  have rb: "read_block_pointers fs1 ?i2 = Inr (?i2\<lparr>in_block_pointers := ?B, in_pointer_blocks := in_pointer_blocks ino\<rparr>)"
    by (rule read_block_pointers_ok[OF L(1) N t1 t2 nd(2) num nb(2)])
  have "inode_load fs ?id = Inr (?i2\<lparr>in_block_pointers := ?B, in_pointer_blocks := in_pointer_blocks ino\<rparr>, fs1)"
    using fs1(1) rd mf m'(1) nd(1) rb by (simp add: inode_load_def Let_def raw_inode_of_bytes[OF raw(2)])
  with m' L(2) D(2) ext2_okD(2)[OF ok(1)] show ?thesis unfolding loads_as_def
    by (intro exI[of _ "?i2\<lparr>in_block_pointers := ?B, in_pointer_blocks := in_pointer_blocks ino\<rparr>"] exI[of _ fs1]) simp
qed

end
