(* ===== verification/Ext2FileRun.thy ===== *)
theory Ext2FileRun
  imports Ext2LoadSpec
begin

text \<open>
  Whole operations on files: \<open>write_to_disk\<close>, growing, \<open>write\<close>, and sequences of them. A file that is
  only read, written and extended behaves as an array of bytes, and what \<open>write_to_disk\<close> stores is what
  loading the inode gives.
\<close>

section \<open>The invariant of an open file\<close>

text \<open>\<open>P\<close> contains the pointer blocks; the bytes of the last block behind the end of the file are zero.\<close>

definition file_inv :: "nat \<Rightarrow> 'a ext2_scheme \<Rightarrow> ext2_inode \<Rightarrow> nat set \<Rightarrow> bool" where
  "file_inv n fs ino P \<longleftrightarrow> ext2_ok n fs \<and> table_ok fs \<and> file_ok n fs ino \<and> tree_ok n fs (in_raw ino) P \<and> meta_fits (in_metadata ino) \<and>
     (\<forall>p \<in> set (in_block_pointers ino). unat p \<notin> P \<and> unat p \<notin> set (free_list fs)) \<and> length (in_block_pointers ino) \<le> max_blocks"

definition tail_zero :: "'a ext2_scheme \<Rightarrow> ext2_inode \<Rightarrow> bool" where
  "tail_zero fs ino \<longleftrightarrow> (\<forall>k \<ge> im_size (in_metadata ino). byte_at 1024 (view fs (in_block_pointers ino)) k = 0)"

lemma file_invD:
  assumes "file_inv n fs ino P"
  shows "ext2_ok n fs" "table_ok fs" "file_ok n fs ino" "tree_ok n fs (in_raw ino) P" "meta_fits (in_metadata ino)"
    "\<And>p. p \<in> set (in_block_pointers ino) \<Longrightarrow> unat p \<notin> P \<and> unat p \<notin> set (free_list fs)" "length (in_block_pointers ino) \<le> max_blocks"
    "e2_block_pointers_per_block fs = 256" "owned n fs P"
  using assms by (simp_all add: file_inv_def table_ok_def tree_ok_def)

lemma file_okD:
  assumes "file_ok n fs ino"
  shows "\<not> is_device (in_metadata ino)" "\<not> is_symlink (in_metadata ino)" "\<not> is_inline ino" "in_exists ino" "valid_id fs (in_id ino)"
    "raw_inode_ok (in_raw ino)" "data_ok n fs (in_block_pointers ino)"
    "length (in_block_pointers ino) = (im_size (in_metadata ino) + 1023) div 1024"
  using assms by (simp_all add: file_ok_def is_inline_def)

lemma size_bound:
  assumes "length (in_block_pointers ino) = (im_size (in_metadata ino) + 1023) div 1024" "length (in_block_pointers ino) \<le> max_blocks"
  shows "im_size (in_metadata ino) \<le> 67383296"
  using blocks_cover[of "im_size (in_metadata ino)"] assms by (simp add: max_blocks_def)

text \<open>What a change of the file system must keep so that an unchanged inode keeps its invariant.\<close>

lemma realloc_valid_id: "realloc n fs fs' F' new \<Longrightarrow> valid_id fs' i = valid_id fs i"
  using same_shapeD(5,9)[OF reallocD(2), of n fs fs' F' new] by (simp add: valid_id_def)

lemma realloc_slots:
  assumes ok: "ext2_ok n fs" and r: "realloc n fs fs' F' new" and v: "valid_id fs i"
  shows "slot_block fs' i = slot_block fs i" "slot_off fs' i = slot_off fs i"
  using reallocD_desc(3)[OF r, of "(i - 1) div inodes_per_group fs"] same_shapeD(9)[OF reallocD(2)[OF r]] v
  by (simp_all add: slot_block_def slot_off_def valid_id_def)

lemma tree_ok_realloc:
  assumes ok: "ext2_ok n fs" and t: "tree_ok n fs r P" and re: "realloc n fs fs' F' new" and new: "new \<inter> P = {}" and F: "F' \<subseteq> set (free_list fs)"
  shows "tree_ok n fs' r P"
proof -
  have own: "owned n fs P" using t by (simp add: tree_ok_def)
  have keep: "block_at fs' c = block_at fs c" if "c \<in> P" for c
    using reallocD(5)[OF re, of c] own that new data_area[OF ok, of c] by (auto simp: owned_def)
  have "owned n fs' P" using own F reallocD(3,4)[OF re] by (auto simp: owned_def)
  with t keep show ?thesis by (auto simp: tree_ok_def)
qed

lemma file_ok_realloc: "realloc n fs fs' F' new \<Longrightarrow> file_ok n fs' ino = file_ok n fs ino"
  using realloc_data_ok[of n fs fs' F' new] realloc_valid_id[of n fs fs' F' new] by (simp add: file_ok_def)

lemma file_inv_realloc:
  assumes inv: "file_inv n fs ino P" and re: "realloc n fs fs' F' new" and new: "new \<inter> P = {}" and F: "F' \<subseteq> set (free_list fs)"
  shows "file_inv n fs' ino P"
proof -
  note I = file_invD[OF inv]
  have "tree_ok n fs' (in_raw ino) P" by (rule tree_ok_realloc[OF I(1,4) re new F])
  then show ?thesis
    using I reallocD(1,4)[OF re] same_shape_table[OF reallocD(2)[OF re]] file_ok_realloc[OF re, of ino] F by (auto simp: file_inv_def)
qed

lemma contents_realloc:
  assumes inv: "file_inv n fs ino P" and re: "realloc n fs fs' F' new" and new: "new \<inter> unat ` set (in_block_pointers ino) = {}"
  shows "view fs' (in_block_pointers ino) = view fs (in_block_pointers ino)"
  by (rule view_realloc[OF file_invD(1)[OF inv] file_okD(7)[OF file_invD(3)[OF inv]] re new])

section \<open>Storing the inode\<close>

lemma write_entry_inv:
  assumes inv: "file_inv n fs ino P"
  shows "\<exists>fs'. write_inode_entry fs ino = Inr (fs', synced ino) \<and> file_inv n fs' (synced ino) P \<and>
    realloc n fs fs' (set (free_list fs)) {slot_block fs (in_id ino)} \<and>
    view fs' (in_block_pointers ino) = view fs (in_block_pointers ino) \<and>
    take 128 (drop (slot_off fs (in_id ino)) (block_at fs' (slot_block fs (in_id ino)))) = raw_inode_bytes (in_raw (synced ino))"
proof -
  note I = file_invD[OF inv] and F = file_okD[OF file_invD(3)[OF inv]]
  let ?b = "slot_block fs (in_id ino)" and ?off = "slot_off fs (in_id ino)"
  obtain fs' where w: "write_inode_entry fs ino = Inr (fs', synced ino)" "realloc n fs fs' (set (free_list fs)) {?b}"
      "block_at fs' ?b = patch (block_at fs ?b) ?off (raw_inode_bytes (in_raw (synced ino)))"
    using write_inode_entry_ok[OF I(1,2) F(5,6)] by blast
  note S = slot_block_ok[OF I(1,2) F(5)]
  have nP: "{?b} \<inter> P = {}" using I(9) S(1) by (auto simp: owned_def)
  have nB: "{?b} \<inter> unat ` set (in_block_pointers ino) = {}" using F(7) S(1) by (auto simp: data_ok_def)
  have "file_inv n fs' ino P" by (rule file_inv_realloc[OF inv w(2) nP]) simp
  then have "file_inv n fs' (synced ino) P" by (simp add: file_inv_def file_ok_def tree_ok_def)
  moreover have "take 128 (drop ?off (block_at fs' ?b)) = raw_inode_bytes (in_raw (synced ino))"
    using w(3) slot_off_bound[of fs "in_id ino"] length_block_at[OF ext2_okD(1)[OF I(1)] S(2)] ext2_okD(2)[OF I(1)] F(6)
    by (simp add: patch_def)
  ultimately show ?thesis using w(1,2) contents_realloc[OF inv w(2) nB] by blast
qed

lemma doubly_held_keep:
  assumes t: "tree_ok n fs r P" and h: "doubly_held fs r B nb dp" and keep: "\<forall>c \<in> P. block_at fs' c = block_at fs c"
    and r': "ri_d_pointer r' = ri_d_pointer r"
  shows "doubly_held fs' r' B nb dp"
proof (cases "nb > 268")
  case True
  let ?d = "ri_d_pointer r"
  obtain es m where h: "?d \<noteq> 0" "block_at fs (unat ?d) = le32s es" "length es = 256" "m \<le> 256" "m < 256 \<longrightarrow> length B \<le> 268 + 256 * m"
      "0 < m \<longrightarrow> 268 + 256 * (m - 1) < length B" "\<forall>i < m. es ! i \<noteq> 0 \<and> block_at fs (unat (es ! i)) = le32s (ptr_list B (268 + 256 * i))"
      "dp = ?d # take m es"
    using h True by (auto simp: doubly_held_def)
  obtain es0 where e0: "block_at fs (unat ?d) = le32s es0" "entries_ok P es0" "unat ?d \<in> P" using t h(1) by (auto simp: tree_ok_def)
  have "es0 = es" using e0(1,2) h(2,3) get32s_le32s[of es0] get32s_le32s[of es] by (simp add: entries_ok_def)
  then have "\<forall>i < m. unat (es ! i) \<in> P" using e0(2) h(4,7) by (auto simp: entries_ok_def)
  with h keep e0(3) True r' show ?thesis unfolding doubly_held_def by (auto intro!: exI[of _ es] exI[of _ m])
qed (use h r' in \<open>simp add: doubly_held_def\<close>)

lemma tree_held_keep:
  assumes t: "tree_ok n fs r P" and h: "tree_held fs r B nb pbs" and keep: "\<forall>c \<in> P. block_at fs' c = block_at fs c"
    and r': "ri_block_pointers r' = ri_block_pointers r" "ri_s_pointer r' = ri_s_pointer r" "ri_d_pointer r' = ri_d_pointer r" "ri_t_pointer r' = ri_t_pointer r"
  shows "tree_held fs' r' B nb pbs"
proof -
  have "singly_held fs' r' B nb" using h t keep r'(2) by (auto simp: tree_held_def singly_held_def tree_ok_def)
  moreover obtain dp where "pbs = (if nb > 12 then [ri_s_pointer r] else []) @ dp" "doubly_held fs r B nb dp" using h by (auto simp: tree_held_def)
  moreover from this(2) have "doubly_held fs' r' B nb dp" by (rule doubly_held_keep[OF t _ keep r'(3)])
  ultimately show ?thesis using h r' by (auto simp: tree_held_def)
qed

lemma pointers_stored_inv:
  assumes inv: "file_inv n fs ino P" and x: "expands n fs fs1 P P1" and t: "tree_ok n fs1 raw' P1" and raw: "raw_inode_ok raw'"
  shows "file_inv n fs1 (ino\<lparr>in_raw := raw', in_pointer_blocks := pbs, in_dirty := dirty\<rparr>) P1"
    "view fs1 (in_block_pointers ino) = view fs (in_block_pointers ino)"
proof -
  note I = file_invD[OF inv] and X = expandsD[OF x]
  have np: "unat p \<notin> P1 \<and> unat p \<notin> set (free_list fs1)" if "p \<in> set (in_block_pointers ino)" for p
    using I(6)[OF that] X(2,5) by auto
  have "file_ok n fs1 ino" using I(3) file_ok_realloc[OF X(3)] by simp
  then have "file_ok n fs1 (ino\<lparr>in_raw := raw', in_pointer_blocks := pbs, in_dirty := dirty\<rparr>)" using raw by (simp add: file_ok_def)
  then show "file_inv n fs1 (ino\<lparr>in_raw := raw', in_pointer_blocks := pbs, in_dirty := dirty\<rparr>) P1"
    using I np X(4) same_shape_table[OF X(7)] t by (simp add: file_inv_def)
  show "view fs1 (in_block_pointers ino) = view fs (in_block_pointers ino)"
    by (rule contents_realloc[OF inv X(3)]) (use np in auto)
qed

lemma free_le: "set (free_list fs') \<subseteq> set (free_list fs) \<Longrightarrow> length (free_list fs') \<le> length (free_list fs)"
  using card_mono[of "set (free_list fs)" "set (free_list fs')"] by (simp add: card_free_list)

definition same_file :: "ext2_inode \<Rightarrow> ext2_inode \<Rightarrow> bool" where
  "same_file ino ino' \<longleftrightarrow> in_id ino' = in_id ino \<and> in_metadata ino' = in_metadata ino \<and> in_block_pointers ino' = in_block_pointers ino"

lemma write_to_disk_inv:
  assumes inv: "file_inv n fs ino P"
  shows "\<exists>r fs' ino' P'. write_to_disk fs ino = Inr (r, fs', ino') \<and> file_inv n fs' ino' P' \<and> same_file ino ino' \<and> same_shape fs fs' \<and>
    view fs' (in_block_pointers ino) = view fs (in_block_pointers ino) \<and> length (free_list fs') \<le> length (free_list fs) \<and>
    (case r of Inl e \<Rightarrow> e = ENOSPC | Inr _ \<Rightarrow> loads_as fs' ino')"
proof -
  note I = file_invD[OF inv] and F = file_okD[OF file_invD(3)[OF inv]]
  have sz: "im_size (in_metadata ino) + 1024 < 2 ^ 32" using size_bound[OF F(8) I(7)] by simp
  let ?nb = "(im_size (in_metadata ino) + 1023) div 1024"
  have nb: "?nb \<le> max_blocks" using F(8) I(7) by simp
  obtain r fs1 raw' pbs dirty P1 where w: "write_block_pointers fs ino = Inr (r, fs1, ino\<lparr>in_raw := raw', in_pointer_blocks := pbs, in_dirty := dirty\<rparr>)"
      "expands n fs fs1 P P1" "tree_ok n fs1 raw' P1" "raw_inode_ok raw'"
      "case r of Inl e \<Rightarrow> e = ENOSPC | Inr _ \<Rightarrow> tree_held fs1 raw' (in_block_pointers ino) ?nb pbs"
    using write_block_pointers_ok[OF I(1,8,4) F(1,3) sz refl nb F(6)] by blast
  let ?i1 = "ino\<lparr>in_raw := raw', in_pointer_blocks := pbs, in_dirty := dirty\<rparr>"
  have S: "file_inv n fs1 ?i1 P1" "view fs1 (in_block_pointers ino) = view fs (in_block_pointers ino)"
    using pointers_stored_inv[OF inv w(2,3,4)] by blast+
  have fr: "length (free_list fs1) \<le> length (free_list fs)" using expandsD(5)[OF w(2)] by (intro free_le) auto
  show ?thesis
  proof (cases r)
    case (Inl e)
    then have "write_to_disk fs ino = Inr (Inl e, fs1, ?i1)" using w(1) by (simp add: write_to_disk_def)
    with Inl S w(5) fr expandsD(7)[OF w(2)] show ?thesis by (auto simp: same_file_def)
  next
    case (Inr u)
    obtain fs2 where e: "write_inode_entry fs1 ?i1 = Inr (fs2, synced ?i1)" "file_inv n fs2 (synced ?i1) P1"
        "realloc n fs1 fs2 (set (free_list fs1)) {slot_block fs1 (in_id ?i1)}" "view fs2 (in_block_pointers ?i1) = view fs1 (in_block_pointers ?i1)"
        "take 128 (drop (slot_off fs1 (in_id ?i1)) (block_at fs2 (slot_block fs1 (in_id ?i1)))) = raw_inode_bytes (in_raw (synced ?i1))"
      using write_entry_inv[OF S(1)] by blast
    note J = file_invD[OF e(2)] and G = file_okD[OF file_invD(3)[OF e(2)]] and K = file_invD[OF S(1)]
    have v: "valid_id fs1 (in_id ino)" using file_okD(5)[OF K(3)] by simp
    note SL = realloc_slots[OF K(1) e(3) v]
    have "slot_block fs1 (in_id ino) \<notin> P1" using slot_block_ok(1)[OF K(1,2) v] K(9) by (auto simp: owned_def)
    then have keep: "\<forall>c \<in> P1. block_at fs2 c = block_at fs1 c"
      using reallocD(5)[OF e(3)] K(9) data_area[OF K(1)] by (auto simp: owned_def)
    have "tree_held fs2 (in_raw (synced ?i1)) (in_block_pointers ino) (length (in_block_pointers ino)) pbs"
      by (rule tree_held_keep[OF w(3) _ keep]) (use w(5) Inr F(8) in simp_all)
    then have "loads_as fs2 (synced ?i1)"
      using e(5) SL sz F(1,2) nb v G J by (intro inode_load_ok[OF J(1,2)]) (simp_all add: synced_def)
    moreover have "write_to_disk fs ino = Inr (Inr (), fs2, synced ?i1)" using w(1) Inr e(1) by (simp add: write_to_disk_def)
    moreover have "length (free_list fs2) \<le> length (free_list fs)" using fr free_le[of fs2 fs1] reallocD(4)[OF e(3)] by simp
    moreover have "same_shape fs fs2" by (rule same_shape_trans[OF expandsD(7)[OF w(2)] reallocD(2)[OF e(3)]])
    ultimately show ?thesis using e(2,4) S(2) by (auto simp: same_file_def)
  qed
qed

section \<open>Growing\<close>

lemma of_nat_blocks:
  assumes ok: "ext2_ok n fs" and bl: "set bl \<subseteq> set (free_list fs)" "distinct bl"
  shows "map unat (map of_nat bl :: u32 list) = bl" "distinct (map of_nat bl :: u32 list)"
    "\<And>p. p \<in> set (map of_nat bl :: u32 list) \<Longrightarrow> p \<noteq> 0 \<and> unat p \<in> set bl"
proof -
  have n: "n * 1024 < 2 ^ 32" using ext2_okD(1,2)[OF ok] by (simp add: store_ok_def)
  have u: "unat (of_nat b :: u32) = b \<and> b \<noteq> 0" if "b \<in> set bl" for b
  proof -
    have f: "b \<in> set (free_list fs)" using bl(1) that by blast
    then have "b \<noteq> 0" by (auto simp: in_free_list block_no_def)
    moreover have "b < 2 ^ 32" using ext2_okD(11)[OF ok f] n by linarith
    ultimately show ?thesis using unat_of_nat32 by blast
  qed
  then show m: "map unat (map of_nat bl :: u32 list) = bl" by (simp add: map_idI)
  then show "distinct (map of_nat bl :: u32 list)" using bl(2) by (metis distinct_map)
  show "p \<noteq> 0 \<and> unat p \<in> set bl" if p: "p \<in> set (map of_nat bl :: u32 list)" for p
  proof -
    obtain b where "b \<in> set bl" "p = of_nat b" using p by auto
    with u[of b] show ?thesis by (metis unsigned_0)
  qed
qed

lemma grown_inv:
  assumes inv: "file_inv n fs ino P" and tk: "took n True fs fs1 bl" and len: "len < 2 ^ 32"
    and nb: "length (in_block_pointers ino) + length bl = (len + 1023) div 1024" "(len + 1023) div 1024 \<le> max_blocks"
  shows "file_inv n fs1 (set_size (ino\<lparr>in_block_pointers := in_block_pointers ino @ map of_nat bl\<rparr>) len) P"
    "view fs1 (in_block_pointers ino @ map of_nat bl) = view fs (in_block_pointers ino)"
proof -
  note I = file_invD[OF inv] and F = file_okD[OF file_invD(3)[OF inv]] and T = tookD[OF tk]
  note B = of_nat_blocks[OF I(1) T(3,2)]
  let ?bps = "in_block_pointers ino" and ?new = "map of_nat bl :: u32 list"
  let ?ino = "set_size (ino\<lparr>in_block_pointers := ?bps @ ?new\<rparr>) len"
  have nP: "set bl \<inter> P = {}" using T(3) I(9) by (auto simp: owned_def)
  have nB: "set bl \<inter> unat ` set ?bps = {}" using T(3) I(6) by auto
  have new: "unat p < n \<and> unat p \<notin> set (meta_list fs)" if "p \<in> set ?new" for p
    using B(3)[OF that] T(3) ext2_okD(11)[OF I(1)] by blast
  have "set ?bps \<inter> set ?new = {}" using B(3) nB by blast
  then have d: "data_ok n fs (?bps @ ?new)" using F(7) B(2,3) new unfolding data_ok_def by auto
  have inv1: "file_inv n fs1 ino P" by (rule file_inv_realloc[OF inv T(1) nP]) auto
  note J = file_invD[OF inv1]
  have out: "unat p \<notin> P \<and> unat p \<notin> set (free_list fs1)" if "p \<in> set (?bps @ ?new)" for p
  proof (cases "p \<in> set ?new")
    case True
    then have "unat p \<in> set bl" using B(3) by blast
    then show ?thesis using nP T(5) by auto
  next
    case False
    then show ?thesis using J(6)[of p] that by auto
  qed
  have "file_ok n fs1 ?ino"
    using J(3) d realloc_data_ok[OF T(1), of "?bps @ ?new"] nb(1) by (simp add: file_ok_def set_size_def is_device_def is_symlink_def)
  then show "file_inv n fs1 ?ino P"
    using J out nb len by (simp add: file_inv_def set_size_def meta_fits_def)
  have v: "view fs1 ?bps = view fs ?bps" by (rule contents_realloc[OF inv T(1) nB])
  show "view fs1 (?bps @ ?new) = view fs ?bps"
  proof
    fix i
    show "view fs1 (?bps @ ?new) i = view fs ?bps i"
    proof (cases "i < length ?bps")
      case True
      then show ?thesis using fun_cong[OF v, of i] by (simp add: view_def nth_append)
    next
      case False
      have "block_at fs1 (unat (?new ! (i - length ?bps))) = replicate 1024 0" if "i - length ?bps < length bl"
        using T(4)[of "unat (?new ! (i - length ?bps))"] B(3)[of "?new ! (i - length ?bps)"] that by simp
      with False show ?thesis by (auto simp: view_def nth_append)
    qed
  qed
qed

text \<open>The number of blocks that growing to a size needs.\<close>

definition growth :: "ext2_inode \<Rightarrow> nat \<Rightarrow> nat" where
  "growth ino len = (len + 1023) div 1024 - length (in_block_pointers ino)"

lemma growth_0: "length (in_block_pointers ino) = (im_size (in_metadata ino) + 1023) div 1024 \<Longrightarrow> len \<le> im_size (in_metadata ino) \<Longrightarrow> growth ino len = 0"
  using div_le_mono[of "len + 1023" "im_size (in_metadata ino) + 1023" 1024] by (simp add: growth_def)

lemma set_size_fields [simp]:
  "in_id (set_size ino k) = in_id ino" "in_metadata (set_size ino k) = (in_metadata ino)\<lparr>im_size := k\<rparr>"
  "in_block_pointers (set_size ino k) = in_block_pointers ino" "in_raw (set_size ino k) = in_raw ino" "in_exists (set_size ino k) = in_exists ino"
  by (simp_all add: set_size_def)

lemma truncate_grow_inv:
  assumes inv: "file_inv n fs ino P" and g: "0 < growth ino len" and len: "(len + 1023) div 1024 \<le> max_blocks"
  shows "\<exists>r fs' ino' P'. truncate_grow fs ino len (growth ino len) = Inr (r, fs', ino') \<and> file_inv n fs' ino' P' \<and> in_id ino' = in_id ino \<and> same_shape fs fs' \<and>
    view fs' (in_block_pointers ino') = view fs (in_block_pointers ino) \<and>
    (case r of
       Inl e \<Rightarrow> e = ENOSPC \<and> length (free_list fs) < growth ino len \<and> set (free_list fs') = set (free_list fs) \<and> ino' = ino
     | Inr _ \<Rightarrow> length (free_list fs') + growth ino len \<le> length (free_list fs) \<and> in_metadata ino' = (in_metadata ino)\<lparr>im_size := len\<rparr>)"
proof -
  note I = file_invD[OF inv]
  have "len < 2 ^ 32" using len blocks_cover[of len] by (simp add: max_blocks_def)
  show ?thesis
  proof (cases "growth ino len \<le> length (free_list fs)")
    case False
    then obtain fs1 where a: "allocate_blocks fs (growth ino len) True = Inr (Inl ENOSPC, fs1)"
        "realloc n fs fs1 (set (free_list fs)) (set (free_list fs))"
      using allocate_blocks_ok[OF I(1) g, of True] by auto
    have "set (free_list fs) \<inter> P = {}" "set (free_list fs) \<inter> unat ` set (in_block_pointers ino) = {}" using I(6,9) by (auto simp: owned_def)
    then have "file_inv n fs1 ino P" "view fs1 (in_block_pointers ino) = view fs (in_block_pointers ino)"
      using file_inv_realloc[OF inv a(2)] contents_realloc[OF inv a(2)] by simp_all
    then show ?thesis using a(1) False reallocD(2,4)[OF a(2)] by (auto simp: truncate_grow_def)
  next
    case True
    then obtain bl fs1 where a: "allocate_blocks fs (growth ino len) True = Inr (Inr bl, fs1)" "took n True fs fs1 bl" "length bl = growth ino len"
      using allocate_blocks_ok[OF I(1) g, of True] by auto
    have nb: "length (in_block_pointers ino) + length bl = (len + 1023) div 1024" using a(3) g by (simp add: growth_def)
    let ?ino = "set_size (ino\<lparr>in_block_pointers := in_block_pointers ino @ map of_nat bl\<rparr>) len"
    note G = grown_inv[OF inv a(2) \<open>len < 2 ^ 32\<close> nb len]
    obtain r fs2 ino2 P2 where w: "write_to_disk fs1 ?ino = Inr (r, fs2, ino2)" "file_inv n fs2 ino2 P2" "same_file ?ino ino2" "same_shape fs1 fs2"
        "view fs2 (in_block_pointers ?ino) = view fs1 (in_block_pointers ?ino)" "length (free_list fs2) \<le> length (free_list fs1)"
      using write_to_disk_inv[OF G(1)] by blast
    then have fr: "length (free_list fs2) + growth ino len \<le> length (free_list fs)" using tookD(6)[OF a(2)] a(3) by simp
    have "truncate_grow fs ino len (growth ino len) = Inr (Inr (), fs2, ino2)" using a(1,3) w(1) by (simp add: truncate_grow_def)
    moreover have "same_shape fs fs2" by (rule same_shape_trans[OF reallocD(2)[OF tookD(1)[OF a(2)]] w(4)])
    ultimately show ?thesis using w G(2) fr by (auto simp: same_file_def)
  qed
qed

lemma truncate_up:
  assumes inv: "file_inv n fs ino P" and len: "im_size (in_metadata ino) \<le> len" "(len + 1023) div 1024 \<le> max_blocks"
  shows "\<exists>r fs' ino' P'. ext2_truncate fs ino (int len) = Inr (r, fs', ino') \<and> file_inv n fs' ino' P' \<and> in_id ino' = in_id ino \<and> same_shape fs fs' \<and>
    view fs' (in_block_pointers ino') = view fs (in_block_pointers ino) \<and>
    (case r of
       Inl e \<Rightarrow> e = ENOSPC \<and> length (free_list fs) < growth ino len \<and> set (free_list fs') = set (free_list fs) \<and> ino' = ino
     | Inr _ \<Rightarrow> length (free_list fs') + growth ino len \<le> length (free_list fs) \<and> in_metadata ino' = (in_metadata ino)\<lparr>im_size := len\<rparr>)"
proof (cases "len = im_size (in_metadata ino)")
  case True
  then have "ext2_truncate fs ino (int len) = Inr (Inr (), fs, ino)" by (simp add: ext2_truncate_def)
  with inv True growth_0[OF file_okD(8)[OF file_invD(3)[OF inv]], of len] show ?thesis by auto
next
  case False
  note I = file_invD[OF inv] and F = file_okD[OF file_invD(3)[OF inv]]
  have small: "len + 1024 < 2 ^ 32" "im_size (in_metadata ino) + 1024 < 2 ^ 32"
    using blocks_cover[of len] len(2) size_bound[OF F(8) I(7)] by (simp_all add: max_blocks_def)
  have bf: "blocks_for fs len = Inr ((len + 1023) div 1024)" "num_blocks fs ino = Inr (length (in_block_pointers ino))"
    using blocks_for_ok[OF ext2_okD(2)[OF I(1)]] small F(3,8) by (simp_all add: num_blocks_def)
  have mono: "length (in_block_pointers ino) \<le> (len + 1023) div 1024" unfolding F(8) using len(1) by (intro div_le_mono) simp
  show ?thesis
  proof (cases "0 < growth ino len")
    case True
    then have "ext2_truncate fs ino (int len) = truncate_grow fs ino len (growth ino len)"
      using False bf by (simp add: ext2_truncate_def growth_def)
    then show ?thesis using truncate_grow_inv[OF inv True len(2)] by simp
  next
    case no: False
    then have nb: "length (in_block_pointers ino) = (len + 1023) div 1024" using mono by (simp add: growth_def)
    have inv': "file_inv n fs (set_size ino len) P"
      using inv nb small(1) by (simp add: file_inv_def file_ok_def is_device_def is_symlink_def meta_fits_def)
    obtain fs' where w: "write_inode_entry fs (set_size ino len) = Inr (fs', synced (set_size ino len))" "file_inv n fs' (synced (set_size ino len)) P"
        "view fs' (in_block_pointers (set_size ino len)) = view fs (in_block_pointers (set_size ino len))"
        "realloc n fs fs' (set (free_list fs)) {slot_block fs (in_id (set_size ino len))}"
      using write_entry_inv[OF inv'] by blast
    have "length (free_list fs') \<le> length (free_list fs)" using reallocD(4)[OF w(4)] by (intro free_le) simp
    have "ext2_truncate fs ino (int len) = Inr (Inr (), fs', synced (set_size ino len))"
      using False bf nb w(1) by (simp add: ext2_truncate_def)
    moreover have "growth ino len = 0" using no by simp
    ultimately show ?thesis using w \<open>length (free_list fs') \<le> length (free_list fs)\<close> reallocD(2)[OF w(4)] by auto
  qed
qed

section \<open>Writing\<close>

text \<open>An array of bytes, extended with zeros as far as the new bytes reach.\<close>

definition put_slice :: "u8 list \<Rightarrow> nat \<Rightarrow> u8 list \<Rightarrow> u8 list" where
  "put_slice bytes start data = patch (bytes @ replicate (start + length data - length bytes) 0) start data"

lemma bytes_extended:
  assumes "tail_zero fs ino" "im_size (in_metadata ino) \<le> k"
  shows "bytes_at 1024 (view fs (in_block_pointers ino)) 0 k = file_bytes fs ino @ replicate (k - im_size (in_metadata ino)) 0"
  using assms by (intro nth_equalityI) (auto simp: file_bytes_def tail_zero_def nth_append)

lemma bytes_put:
  "start + length data \<le> k \<Longrightarrow> bytes_at 1024 (put_bytes 1024 f start data) 0 k = patch (bytes_at 1024 f 0 k) start data"
  by (intro nth_equalityI) (auto simp: nth_patch byte_at_put_bytes)

text \<open>The second half of \<open>write\<close>: the file is large enough, the bytes are stored and the entry is written.\<close>

lemma write_inside:
  assumes inv: "file_inv n fs ino P" and tz: "tail_zero fs ino" and d: "start + length data \<le> im_size (in_metadata ino)" "0 < length data"
  shows "\<exists>fs1 fs2 ino2. write_loop ino start data (length data) (start div 1024) (stack_buf fs 1024) fs = Inr (Inr (), fs1) \<and>
    write_inode_entry fs1 (ino\<lparr>in_raw := (in_raw ino)\<lparr>ri_mtime := 0\<rparr>, in_dirty := True\<rparr>) = Inr (fs2, ino2) \<and>
    file_inv n fs2 ino2 P \<and> tail_zero fs2 ino2 \<and> in_id ino2 = in_id ino \<and> file_bytes fs2 ino2 = patch (file_bytes fs ino) start data \<and>
    length (free_list fs2) \<le> length (free_list fs)"
proof -
  note I = file_invD[OF inv] and F = file_okD[OF file_invD(3)[OF inv]]
  let ?bps = "in_block_pointers ino" and ?size = "im_size (in_metadata ino)"
  have cov: "start + length data \<le> 1024 * length ?bps" using d(1) blocks_cover[of ?size] F(8) by linarith
  have sb: "length (stack_buf fs 1024) = 1024" by simp
  obtain fs1 where w: "write_loop ino start data (length data) (start div 1024) (stack_buf fs 1024) fs = Inr (Inr (), fs1)"
      "realloc n fs fs1 (set (free_list fs)) (unat ` set ?bps)" "view fs1 ?bps = put_bytes 1024 (view fs ?bps) start data"
    using write_loop_ok[OF I(1) F(7) cov at_pos_init sb] unfolding diff_self_eq_0 add_0_right drop_0 by blast
  have inv1: "file_inv n fs1 ino P" by (rule file_inv_realloc[OF inv w(2)]) (use I(6) in auto)
  let ?i = "ino\<lparr>in_raw := (in_raw ino)\<lparr>ri_mtime := 0\<rparr>, in_dirty := True\<rparr>"
  have "file_inv n fs1 ?i P" using inv1 by (simp add: file_inv_def file_ok_def raw_inode_ok_def tree_ok_def)
  then obtain fs2 where e: "write_inode_entry fs1 ?i = Inr (fs2, synced ?i)" "file_inv n fs2 (synced ?i) P" "view fs2 ?bps = view fs1 ?bps"
      "realloc n fs1 fs2 (set (free_list fs1)) {slot_block fs1 (in_id ?i)}"
    using write_entry_inv[of n fs1 ?i P] by auto
  have "length (free_list fs2) \<le> length (free_list fs)" using reallocD(4)[OF e(4)] reallocD(4)[OF w(2)] by (intro free_le) simp
  have v: "view fs2 ?bps = put_bytes 1024 (view fs ?bps) start data" using e(3) w(3) by simp
  then have t2: "tail_zero fs2 (synced ?i)" using tz d(1) by (simp add: tail_zero_def byte_at_put_bytes)
  have "file_bytes fs2 (synced ?i) = patch (file_bytes fs ino) start data"
    using v bytes_put[OF d(1), of "view fs ?bps"] by (simp add: file_bytes_def)
  with t2 \<open>length (free_list fs2) \<le> length (free_list fs)\<close> show ?thesis using w(1) e(1,2) by auto
qed

lemma blocks_bound: "k \<le> 1024 * m \<Longrightarrow> (k + 1023) div 1024 \<le> (m :: nat)"
  by linarith

lemma ext2_write_ok:
  assumes inv: "file_inv n fs ino P" and tz: "tail_zero fs ino" and d: "0 < length data" "start + length data \<le> 1024 * max_blocks"
  shows "\<exists>r fs' ino' P'. ext2_write fs ino start data = Inr (r, fs', ino') \<and> file_inv n fs' ino' P' \<and> tail_zero fs' ino' \<and> in_id ino' = in_id ino \<and>
    (case r of
       Inl e \<Rightarrow> e = ENOSPC \<and> length (free_list fs) < growth ino (start + length data) \<and> set (free_list fs') = set (free_list fs) \<and> ino' = ino \<and>
         file_bytes fs' ino' = file_bytes fs ino
     | Inr k \<Rightarrow> k = length data \<and> length (free_list fs') + growth ino (start + length data) \<le> length (free_list fs) \<and>
         file_bytes fs' ino' = put_slice (file_bytes fs ino) start data)"
proof -
  note I = file_invD[OF inv] and F = file_okD[OF file_invD(3)[OF inv]]
  let ?last = "start + length data" and ?m = "in_metadata ino"
  have lim: "?last < 2 ^ 31" using d(2) by (simp add: max_blocks_def)
  then have l32: "add32 start (length data) = ?last" by (intro add32_less) simp
  have sg: "signed32 ?last = int ?last" using lim by (simp add: signed32_def)
  let ?tr = "if ?last > im_size ?m then ext2_truncate fs ino (int ?last) else Inr (Inr (), fs, ino)"
  have "\<exists>r fs1 ino1 P1. ?tr = Inr (r, fs1, ino1) \<and> file_inv n fs1 ino1 P1 \<and> in_id ino1 = in_id ino \<and> same_shape fs fs1 \<and>
      view fs1 (in_block_pointers ino1) = view fs (in_block_pointers ino) \<and>
      (case r of Inl e \<Rightarrow> e = ENOSPC \<and> length (free_list fs) < growth ino ?last \<and> set (free_list fs1) = set (free_list fs) \<and> ino1 = ino
       | Inr _ \<Rightarrow> length (free_list fs1) + growth ino ?last \<le> length (free_list fs) \<and> in_metadata ino1 = ?m\<lparr>im_size := max (im_size ?m) ?last\<rparr>)"
  proof (cases "?last > im_size ?m")
    case True
    then have mx: "max (im_size ?m) ?last = ?last" by simp
    show ?thesis using truncate_up[OF inv _ blocks_bound[OF d(2)]] True unfolding mx by simp
  next
    case False
    then show ?thesis using inv growth_0[OF F(8), of ?last] by (intro exI[of _ "Inr ()"] exI[of _ fs] exI[of _ ino] exI[of _ P]) (simp add: max_def)
  qed
  then obtain r fs1 ino1 P1 where t: "?tr = Inr (r, fs1, ino1)" "file_inv n fs1 ino1 P1" "in_id ino1 = in_id ino"
      "view fs1 (in_block_pointers ino1) = view fs (in_block_pointers ino)"
      "case r of Inl e \<Rightarrow> e = ENOSPC \<and> length (free_list fs) < growth ino ?last \<and> set (free_list fs1) = set (free_list fs) \<and> ino1 = ino
       | Inr _ \<Rightarrow> length (free_list fs1) + growth ino ?last \<le> length (free_list fs) \<and> in_metadata ino1 = ?m\<lparr>im_size := max (im_size ?m) ?last\<rparr>" by blast
  have unf: "ext2_write fs ino start data = bindR ?tr (\<lambda>(r, fs1, ino1).
      case r of Inl e \<Rightarrow> Inr (Inl e, fs1, ino1) | Inr _ \<Rightarrow>
        bindR (divR start (fb_block_size fs1)) (\<lambda>first_block.
        bindR (write_loop ino1 start data (length data) first_block (stack_buf fs1 (fb_block_size fs1)) fs1) (\<lambda>(r, fs2).
          case r of Inl e \<Rightarrow> Inr (Inl e, fs2, ino1) | Inr _ \<Rightarrow>
            bindR (write_inode_entry fs2 (ino1\<lparr>in_raw := (in_raw ino1)\<lparr>ri_mtime := 0\<rparr>, in_dirty := True\<rparr>))
              (\<lambda>(fs3, ino2). Inr (Inr (length data), fs3, ino2)))))"
    unfolding ext2_write_def Let_def l32 sg using F(1,2,4) d(1) by simp
  show ?thesis
  proof (cases r)
    case (Inl e)
    with t have "tail_zero fs1 ino1" "file_bytes fs1 ino1 = file_bytes fs ino" using tz by (simp_all add: tail_zero_def file_bytes_def)
    with unf t Inl show ?thesis by (intro exI[of _ "Inl e"] exI[of _ fs1] exI[of _ ino1] exI[of _ P1]) simp
  next
    case (Inr u)
    let ?size = "max (im_size ?m) ?last"
    have m1: "im_size (in_metadata ino1) = ?size" using t(5) Inr by simp
    have tz1: "tail_zero fs1 ino1" using tz t(4) m1 by (simp add: tail_zero_def)
    have fb: "file_bytes fs1 ino1 = file_bytes fs ino @ replicate (?size - im_size ?m) 0"
      using bytes_extended[OF tz, of ?size] t(4) m1 by (simp add: file_bytes_def)
    obtain fs2 fs3 ino2 where w: "write_loop ino1 start data (length data) (start div 1024) (stack_buf fs1 1024) fs1 = Inr (Inr (), fs2)"
        "write_inode_entry fs2 (ino1\<lparr>in_raw := (in_raw ino1)\<lparr>ri_mtime := 0\<rparr>, in_dirty := True\<rparr>) = Inr (fs3, ino2)"
        "file_inv n fs3 ino2 P1" "tail_zero fs3 ino2" "in_id ino2 = in_id ino1" "file_bytes fs3 ino2 = patch (file_bytes fs1 ino1) start data"
        "length (free_list fs3) \<le> length (free_list fs1)"
      using write_inside[OF t(2) tz1, of start data] m1 d(1) by auto
    have "?size - im_size ?m = ?last - im_size ?m" by simp
    then have "file_bytes fs3 ino2 = put_slice (file_bytes fs ino) start data" using w(6) fb by (simp add: put_slice_def)
    moreover have "ext2_write fs ino start data = Inr (Inr (length data), fs3, ino2)"
      using unf t(1) Inr w(1,2) ext2_okD(2)[OF file_invD(1)[OF t(2)]] by (simp add: divR_def)
    moreover have "length (free_list fs3) + growth ino ?last \<le> length (free_list fs)" using w(7) t(5) Inr by simp
    ultimately show ?thesis using w(3-5) t(3) by (intro exI[of _ "Inr (length data)"] exI[of _ fs3] exI[of _ ino2] exI[of _ P1]) simp
  qed
qed

section \<open>Sequences of operations\<close>

datatype file_op = ReadOp nat nat | WriteOp nat "u8 list"

fun file_step :: "file_op \<Rightarrow> 'a ext2_scheme \<Rightarrow> ext2_inode \<Rightarrow> ((nat ret \<times> u8 list) \<times> 'a ext2_scheme \<times> ext2_inode) run" where
  "file_step (ReadOp start len) fs ino =
     bindR (ext2_read fs ino start len (stack_buf fs len)) (\<lambda>(r, buf).
       Inr ((r, case r of Inl _ \<Rightarrow> [] | Inr k \<Rightarrow> take k buf), fs, ino))"
| "file_step (WriteOp start data) fs ino = bindR (ext2_write fs ino start data) (\<lambda>(r, fs1, ino1). Inr ((r, []), fs1, ino1))"

fun file_run :: "file_op list \<Rightarrow> 'a ext2_scheme \<Rightarrow> ext2_inode \<Rightarrow> ((nat ret \<times> u8 list) list \<times> 'a ext2_scheme \<times> ext2_inode) run" where
  "file_run [] fs ino = Inr ([], fs, ino)"
| "file_run (op # ops) fs ino =
     bindR (file_step op fs ino) (\<lambda>(r, fs1, ino1). bindR (file_run ops fs1 ino1) (\<lambda>(rs, fs2, ino2). Inr (r # rs, fs2, ino2)))"

text \<open>
  The same operations on an array of bytes and a set of free blocks. A write fails exactly if the blocks
  that its new size needs are not there, and then nothing changes; pointer blocks may use up further blocks.
\<close>

definition blocks_needed :: "u8 list \<Rightarrow> nat \<Rightarrow> nat" where
  "blocks_needed bytes len = (len + 1023) div 1024 - (length bytes + 1023) div 1024"

fun file_spec_step :: "file_op \<Rightarrow> u8 list \<times> nat set \<Rightarrow> nat ret \<times> u8 list \<Rightarrow> u8 list \<times> nat set \<Rightarrow> bool" where
  "file_spec_step (ReadOp start len) (bytes, free) (r, out) s' \<longleftrightarrow>
     out = take len (drop start bytes) \<and> r = Inr (length out) \<and> s' = (bytes, free)"
| "file_spec_step (WriteOp start data) (bytes, free) (r, out) (bytes', free') \<longleftrightarrow> out = [] \<and>
     (let needed = if data = [] then 0 else blocks_needed bytes (start + length data) in
      if needed \<le> card free
      then r = Inr (length data) \<and> card free' + needed \<le> card free \<and> bytes' = (if data = [] then bytes else put_slice bytes start data)
      else r = Inl ENOSPC \<and> free' = free \<and> bytes' = bytes)"

fun file_spec :: "file_op list \<Rightarrow> u8 list \<times> nat set \<Rightarrow> (nat ret \<times> u8 list) list \<Rightarrow> u8 list \<times> nat set \<Rightarrow> bool" where
  "file_spec [] s rs s' \<longleftrightarrow> rs = [] \<and> s' = s"
| "file_spec (op # ops) s rs s' \<longleftrightarrow> (\<exists>r rs' s1. rs = r # rs' \<and> file_spec_step op s r s1 \<and> file_spec ops s1 rs' s')"

text \<open>What the abstract file is: the contents and the free blocks.\<close>

definition abs_file :: "'a ext2_scheme \<Rightarrow> ext2_inode \<Rightarrow> u8 list \<times> nat set" where
  "abs_file fs ino = (file_bytes fs ino, set (free_list fs))"

fun op_ok :: "file_op \<Rightarrow> bool" where
  "op_ok (ReadOp start len) \<longleftrightarrow> start + len < 2 ^ 32"
| "op_ok (WriteOp start data) \<longleftrightarrow> start + length data \<le> 1024 * max_blocks"

lemma take_patch_0: "take (length xs) (patch buf 0 xs) = xs"
  by (simp add: patch_def)

lemma file_step_ok:
  assumes inv: "file_inv n fs ino P" "tail_zero fs ino" and op: "op_ok op"
  shows "\<exists>r fs' ino' P'. file_step op fs ino = Inr (r, fs', ino') \<and> file_inv n fs' ino' P' \<and> tail_zero fs' ino' \<and>
    file_spec_step op (abs_file fs ino) r (abs_file fs' ino')"
proof (cases op)
  case (ReadOp start len)
  note I = file_invD[OF inv(1)]
  let ?out = "take len (drop start (file_bytes fs ino))"
  have "ext2_read fs ino start len (stack_buf fs len) = Inr (Inr (length ?out), patch (stack_buf fs len) 0 ?out)"
    using op ReadOp by (intro ext2_read_ok[OF I(1,3)]) simp_all
  moreover have "take (length ?out) (patch (stack_buf fs len) 0 ?out) = ?out" by (rule take_patch_0)
  ultimately have "file_step op fs ino = Inr ((Inr (length ?out), ?out), fs, ino)" using ReadOp by (simp del: length_take length_drop)
  then show ?thesis using inv ReadOp
    by (intro exI[of _ "(Inr (length ?out), ?out)"] exI[of _ fs] exI[of _ ino] exI[of _ P]) (simp add: abs_file_def del: length_take length_drop)
next
  case (WriteOp start data)
  note I = file_invD[OF inv(1)] and F = file_okD[OF file_invD(3)[OF inv(1)]]
  show ?thesis
  proof (cases "data = []")
    case True
    then show ?thesis using inv WriteOp F(1) by (auto simp: ext2_write_def Let_def abs_file_def)
  next
    case False
    then obtain r fs' ino' P' where w: "ext2_write fs ino start data = Inr (r, fs', ino')" "file_inv n fs' ino' P'" "tail_zero fs' ino'"
        "case r of
           Inl e \<Rightarrow> e = ENOSPC \<and> length (free_list fs) < growth ino (start + length data) \<and> set (free_list fs') = set (free_list fs) \<and> ino' = ino \<and>
             file_bytes fs' ino' = file_bytes fs ino
         | Inr k \<Rightarrow> k = length data \<and> length (free_list fs') + growth ino (start + length data) \<le> length (free_list fs) \<and>
             file_bytes fs' ino' = put_slice (file_bytes fs ino) start data"
      using ext2_write_ok[OF inv, of data start] op WriteOp by auto
    have "growth ino (start + length data) = blocks_needed (file_bytes fs ino) (start + length data)" using F(8) by (simp add: growth_def blocks_needed_def)
    then have "file_spec_step op (abs_file fs ino) (r, []) (abs_file fs' ino')"
      using w(4) WriteOp False by (cases r) (auto simp: abs_file_def Let_def card_free_list)
    with w(1,2,3) WriteOp show ?thesis by auto
  qed
qed

lemma file_run_ok:
  assumes "file_inv n fs ino P" "tail_zero fs ino" "\<forall>op \<in> set ops. op_ok op"
  shows "\<exists>rs fs' ino' P'. file_run ops fs ino = Inr (rs, fs', ino') \<and> file_inv n fs' ino' P' \<and> tail_zero fs' ino' \<and>
    file_spec ops (abs_file fs ino) rs (abs_file fs' ino')"
  using assms
proof (induction ops arbitrary: fs ino P)
  case (Cons op ops)
  obtain r fs1 ino1 P1 where s: "file_step op fs ino = Inr (r, fs1, ino1)" "file_inv n fs1 ino1 P1" "tail_zero fs1 ino1"
      "file_spec_step op (abs_file fs ino) r (abs_file fs1 ino1)"
    using file_step_ok[OF Cons.prems(1,2), of op] Cons.prems(3) by auto
  obtain rs fs2 ino2 P2 where t: "file_run ops fs1 ino1 = Inr (rs, fs2, ino2)" "file_inv n fs2 ino2 P2" "tail_zero fs2 ino2"
      "file_spec ops (abs_file fs1 ino1) rs (abs_file fs2 ino2)"
    using Cons.IH[OF s(2,3)] Cons.prems(3) by auto
  have "file_spec (op # ops) (abs_file fs ino) (r # rs) (abs_file fs2 ino2)" using s(4) t(4) by (simp only: file_spec.simps) blast
  then show ?case using s(1) t by (intro exI[of _ "r # rs"] exI[of _ fs2] exI[of _ ino2] exI[of _ P2]) simp
qed auto

text \<open>
  C34: take a consistent file system and a file (no device, no symbolic link) without holes, all of whose blocks are allocated
  and whose last block is zero behind the end of the file (files that these operations make are so). Every sequence of reads
  and writes of it, with writes that overlap, that start behind the end or that extend the file into the
  singly- and doubly-indirect range, behaves as on an array of bytes: reads return the slice that is there,
  a write replaces its slice and fills a gap with zeros, and a write fails, with ENOSPC, exactly if the data
  blocks it needs are not free; the contents, and which blocks are free, are then as before. The bitmaps,
  counters and pointer blocks stay consistent throughout.
\<close>

theorem ext2_file_refines:
  assumes "file_inv n fs ino P" and "tail_zero fs ino" and "\<forall>op \<in> set ops. op_ok op"
  shows "\<exists>rs fs' ino' P'. file_run ops fs ino = Inr (rs, fs', ino') \<and> file_inv n fs' ino' P' \<and> tail_zero fs' ino' \<and>
    file_spec ops (abs_file fs ino) rs (abs_file fs' ino')"
  by (rule file_run_ok[OF assms])

definition demo_file :: ext2_inode where
  "demo_file = \<lparr>in_id = 1, in_metadata = \<lparr>im_uid = 0, im_gid = 0, im_mode = 0x81A4, im_size = 0, im_inode_id = 1,
     im_dev_major = 0, im_dev_minor = 0\<rparr>, in_exists = True, in_block_pointers = [], in_pointer_blocks = [],
     in_raw = raw_inode_zero, in_dirty = False\<rparr>"

lemma demo_file_ok: "file_inv 16 demo_fs demo_file {}" "tail_zero demo_fs demo_file" "file_bytes demo_fs demo_file = []"
proof -
  have "table_ok demo_fs" "valid_id demo_fs 1" by (simp_all add: table_ok_def valid_id_def demo_fs_def)
  moreover have "tree_ok 16 demo_fs raw_inode_zero {}" by (simp add: tree_ok_def owned_def raw_inode_zero_def)
  ultimately show "file_inv 16 demo_fs demo_file {}"
    using demo_ok(1) by (simp add: file_inv_def file_ok_def demo_file_def is_device_def is_symlink_def data_ok_def meta_fits_def
      raw_inode_ok_def raw_inode_zero_def max_blocks_def)
  show "tail_zero demo_fs demo_file" by (simp add: tail_zero_def demo_file_def byte_at_def view_def)
  show "file_bytes demo_fs demo_file = []" by (simp add: file_bytes_def demo_file_def bytes_at_def)
qed

theorem ext2_file_refines_witness:
  "\<exists>fs' ino'. file_run [WriteOp 2 [7, 8], ReadOp 0 10] demo_fs demo_file = Inr ([(Inr 2, []), (Inr 4, [0, 0, 7, 8])], fs', ino')"
proof -
  have ab: "abs_file demo_fs demo_file = ([], set (free_list demo_fs))" using demo_file_ok(3) by (simp add: abs_file_def)
  have ten: "card (set (free_list demo_fs)) = 10" using demo_ok(3) by (simp add: card_free_list)
  have "\<forall>op \<in> set [WriteOp 2 [7, 8], ReadOp 0 10]. op_ok op" by (simp add: max_blocks_def)
  from ext2_file_refines[OF demo_file_ok(1,2) this] obtain rs fs' ino' where
    r: "file_run [WriteOp 2 [7, 8], ReadOp 0 10] demo_fs demo_file = Inr (rs, fs', ino')"
      "file_spec [WriteOp 2 [7, 8], ReadOp 0 10] ([], set (free_list demo_fs)) rs (abs_file fs' ino')"
    unfolding ab by blast
  have ps: "put_slice [] 2 [7, 8] = [0, 0, 7, 8]" "blocks_needed [] 4 = 1"
    by (simp add: put_slice_def patch_def numeral_eq_Suc) (simp add: blocks_needed_def)
  have "rs = [(Inr 2, []), (Inr 4, [0, 0, 7, 8])]" if "file_spec [WriteOp 2 [7, 8], ReadOp 0 10] ([], set (free_list demo_fs)) rs s'" for s'
    using that ps ten by (cases s') (auto simp: Let_def)
  with r show ?thesis by blast
qed

text \<open>A file with at most twelve blocks needs no pointer blocks.\<close>

lemma write_to_disk_direct:
  assumes inv: "file_inv n fs ino P" and nb: "length (in_block_pointers ino) \<le> 12" and w: "write_to_disk fs ino = Inr (r, fs', ino')"
  shows "r = Inr ()"
proof -
  note I = file_invD[OF inv] and F = file_okD[OF file_invD(3)[OF inv]]
  have "im_size (in_metadata ino) + 1024 < 2 ^ 32" using size_bound[OF F(8) I(7)] by simp
  then have "num_blocks fs ino = Inr (length (in_block_pointers ino))"
    using F(3,8) blocks_for_ok[OF ext2_okD(2)[OF I(1)]] by (simp add: num_blocks_def)
  then have "\<exists>fs1 ino1. write_block_pointers fs ino = Inr (Inr (), fs1, ino1)"
    using F(1,3) nb I(8) by (simp add: write_block_pointers_def calculate_num_ptr_blocks_def write_singly_def write_doubly_def write_triply_def Let_def
      add32_less mul32_less)
  with w show ?thesis by (auto simp: write_to_disk_def bindR_eq_Inr_iff)
qed

text \<open>
  C35: storing an inode and loading it gives the file back. \<open>write_to_disk\<close> either reports ENOSPC, which happens
  only for a file of more than twelve blocks, or leaves an entry in the inode table and a tree of pointer blocks from
  which \<open>Ext2Inode(filesystem, id)\<close> builds an inode with the same block pointers, pointer blocks, size, mode and
  owner, and the same contents.
\<close>

theorem ext2_inode_roundtrip:
  assumes "file_inv n fs ino P"
  shows "\<exists>r fs' ino'. write_to_disk fs ino = Inr (r, fs', ino') \<and>
    (r = Inl ENOSPC \<and> 12 < length (in_block_pointers ino) \<or>
     r = Inr () \<and> (\<exists>ino2 fs2. inode_load fs' (in_id ino) = Inr (ino2, fs2) \<and>
       in_block_pointers ino2 = in_block_pointers ino \<and> in_pointer_blocks ino2 = in_pointer_blocks ino' \<and>
       im_size (in_metadata ino2) = im_size (in_metadata ino) \<and> im_mode (in_metadata ino2) = im_mode (in_metadata ino) \<and>
       im_uid (in_metadata ino2) = im_uid (in_metadata ino) \<and> im_gid (in_metadata ino2) = im_gid (in_metadata ino) \<and>
       file_bytes fs2 ino2 = file_bytes fs ino))"
proof -
  obtain r fs' ino' where w: "write_to_disk fs ino = Inr (r, fs', ino')" "same_file ino ino'"
      "view fs' (in_block_pointers ino) = view fs (in_block_pointers ino)" "case r of Inl e \<Rightarrow> e = ENOSPC | Inr _ \<Rightarrow> loads_as fs' ino'"
    using write_to_disk_inv[OF assms] by blast
  show ?thesis
  proof (cases r)
    case (Inr u)
    then obtain ino2 fs2 where l: "inode_load fs' (in_id ino) = Inr (ino2, fs2)" "in_block_pointers ino2 = in_block_pointers ino"
        "in_pointer_blocks ino2 = in_pointer_blocks ino'" "im_size (in_metadata ino2) = im_size (in_metadata ino)"
        "im_mode (in_metadata ino2) = im_mode (in_metadata ino)" "im_uid (in_metadata ino2) = im_uid (in_metadata ino)"
        "im_gid (in_metadata ino2) = im_gid (in_metadata ino)" "block_at fs2 = block_at fs'"
      using w(2,4) by (auto simp: loads_as_def same_file_def)
    have "view fs2 (in_block_pointers ino) = view fs (in_block_pointers ino)" unfolding w(3)[symmetric] by (simp add: view_def fun_eq_iff l(8))
    then have "file_bytes fs2 ino2 = file_bytes fs ino" using l(2,4) by (simp add: file_bytes_def)
    with w(1) Inr l show ?thesis by auto
  next
    case (Inl e)
    then have "12 < length (in_block_pointers ino)" using write_to_disk_direct[OF assms _ w(1)] by (cases "12 < length (in_block_pointers ino)") auto
    with w(1,4) Inl show ?thesis by auto
  qed
qed

theorem ext2_inode_roundtrip_witness:
  "\<exists>fs' ino' ino2 fs2. write_to_disk demo_fs demo_file = Inr (Inr (), fs', ino') \<and> inode_load fs' 1 = Inr (ino2, fs2) \<and>
     im_mode (in_metadata ino2) = 0x81A4 \<and> in_block_pointers ino2 = []"
proof -
  have "in_id demo_file = 1" "im_mode (in_metadata demo_file) = 0x81A4" "in_block_pointers demo_file = []" by (simp_all add: demo_file_def)
  then show ?thesis using ext2_inode_roundtrip[OF demo_file_ok(1)] by auto
qed

end
