(* ===== verification/Ext2DirRun.thy ===== *)
theory Ext2DirRun
  imports Ext2Dir Ext2FileRun
begin

text \<open>
  What the directory operations promise: walking through a directory and searching it end on every inode,
  and a directory that was stored is the list of entries that was stored.
\<close>

section \<open>Arbitrary directories\<close>

text \<open>
  C39: \<open>iterate_entries\<close> and \<open>find_id\<close> end on every inode that \<open>Ext2Inode(filesystem, id)\<close> has loaded, whatever
  the inode table, the pointer blocks and the directory blocks hold, and also if the blocks have changed
  since: a size near 4 GiB, entries of any length and failing reads included.
\<close>

theorem directory_walk_ends:
  assumes "inode_load fs ino_id = Inr (ino, fs1)" and "fb_block_size fs1 \<le> 2 ^ 31" and "fb_block_size fs2 = fb_block_size fs1"
  shows "(\<exists>r. iterate_entries callback fs2 ino s = Some r) \<and> (\<exists>r. find_id fs2 ino find_name = Some r)"
proof (rule walk_ends)
  show "from_disk fs2 ino" using inode_load_from_disk[OF assms(1)] assms(3) by (simp add: from_disk_def blocks_for_def)
  show "fb_block_size fs2 \<le> 2 ^ 31" using assms(2,3) by simp
qed

definition demo_zero :: ext2_inode where
  "demo_zero = \<lparr>in_id = 1, in_metadata = \<lparr>im_uid = 0, im_gid = 0, im_mode = 0, im_size = 0, im_inode_id = 1,
     im_dev_major = 0, im_dev_minor = 0\<rparr>, in_exists = True, in_block_pointers = [], in_pointer_blocks = [],
     in_raw = raw_inode_zero, in_dirty = False\<rparr>"

lemma demo_load: "loads_as demo_fs demo_zero"
proof -
  have t: "table_ok demo_fs" "valid_id demo_fs 1" by (simp_all add: table_ok_def valid_id_def demo_fs_def)
  have s: "slot_block demo_fs 1 = 5" "slot_off demo_fs 1 = 0"
    by (simp_all add: slot_block_def slot_off_def demo_desc_at) (simp add: demo_desc_def)
  have z: "raw_inode_bytes raw_inode_zero = replicate 128 0"
  proof (rule replicate_eqI)
    show "length (raw_inode_bytes raw_inode_zero) = 128" by (simp add: raw_inode_ok_def raw_inode_zero_def)
  qed (auto simp: raw_inode_bytes_def raw_inode_zero_def le16_def le32_def le32s_def)
  have m: "map (bp_or_zero []) [0..<12] = replicate 12 0" by (intro replicate_eqI) (auto simp: bp_or_zero_def)
  have b: "block_at demo_fs 5 = replicate 1024 0" by (simp add: demo_fs_def block_at_def chunk_def demo_desc_def)
  show ?thesis
    by (rule inode_load_ok[OF demo_ok(1) t(1), where P = "{}"])
      (use z m s t b in \<open>simp_all add: demo_zero_def meta_fits_def is_device_def is_symlink_def raw_inode_ok_def tree_ok_def owned_def tree_held_def
        singly_held_def doubly_held_def raw_inode_zero_def synced_def max_blocks_def\<close>)
qed

theorem directory_walk_ends_witness:
  "\<exists>ino fs1. inode_load demo_fs 1 = Inr (ino, fs1) \<and> (\<exists>r. iterate_entries collect fs1 ino [] = Some r) \<and>
     (\<exists>r. find_id fs1 ino string_new = Some r)"
proof -
  obtain ino fs1 where l: "inode_load demo_fs 1 = Inr (ino, fs1)" "fb_block_size fs1 = fb_block_size demo_fs"
    using demo_load by (auto simp: loads_as_def demo_zero_def)
  have "fb_block_size fs1 \<le> 2 ^ 31" using l(2) by (simp add: demo_fs_def)
  from directory_walk_ends[OF l(1) this refl, of collect "[]" string_new] l(1) show ?thesis by blast
qed

section \<open>The image of a directory block\<close>

text \<open>Entries as the source builds them: a name of at most 255 bytes without a zero, padded with zeros.\<close>

definition dirent_name :: "directory_entry \<Rightarrow> u8 list" where
  "dirent_name e = take (de_name_length e) (de_name e)"

definition dirent_ok :: "directory_entry \<Rightarrow> bool" where
  "dirent_ok e \<longleftrightarrow> 0 < de_id e \<and> de_id e < 2 ^ 32 \<and> de_name_length e \<le> 255 \<and> 0 \<notin> set (dirent_name e) \<and>
     de_name e = dirent_name e @ replicate (256 - de_name_length e) 0"

abbreviation ent_size :: "directory_entry \<Rightarrow> nat" where
  "ent_size e \<equiv> entry_size (de_name_length e)"

definition dirent_header :: "directory_entry \<Rightarrow> ext2_directory" where
  "dirent_header e = \<lparr>ed_inode = of_nat (de_id e), ed_size = of_nat (ent_size e),
     ed_name_length = of_nat (de_name_length e), ed_type = de_type e\<rparr>"

definition dirent_image :: "directory_entry \<Rightarrow> u8 list" where
  "dirent_image e = ext2_directory_bytes (dirent_header e) @ dirent_name e @ replicate (ent_size e - 8 - de_name_length e) 0"

definition entries_image :: "directory_entry list \<Rightarrow> u8 list" where
  "entries_image es = concat (map dirent_image es)"

definition dir_bytes :: "directory_entry list \<Rightarrow> nat" where
  "dir_bytes es = sum_list (map ent_size es)"

lemma entry_size_bounds: "8 + k \<le> entry_size k" "entry_size k \<le> 11 + k" "8 \<le> entry_size k"
proof -
  have "0 < (8 + k) mod 4 \<Longrightarrow> 4 - (8 + k) mod 4 \<le> 3" by linarith
  then show "8 + k \<le> entry_size k" "entry_size k \<le> 11 + k" "8 \<le> entry_size k" by (simp_all add: entry_size_def Let_def)
qed

lemma dirent_okD:
  assumes "dirent_ok e"
  shows "length (dirent_name e) = de_name_length e" "length (de_name e) = 256" "0 < de_id e" "de_id e < 2 ^ 32" "de_name_length e \<le> 255"
    "0 \<notin> set (dirent_name e)" "take (de_name_length e + 1) (de_name e) = dirent_name e @ [0]"
    "de_name e = dirent_name e @ replicate (256 - de_name_length e) 0" "unat (of_nat (de_name_length e) :: u8) = de_name_length e"
proof -
  have e: "de_name_length e \<le> 255" "de_name e = dirent_name e @ replicate (256 - de_name_length e) 0" using assms by (simp_all add: dirent_ok_def)
  show l: "length (dirent_name e) = de_name_length e"
  proof (rule ccontr)
    assume "length (dirent_name e) \<noteq> de_name_length e"
    then have "length (de_name e) < de_name_length e" by (simp add: dirent_name_def)
    then have "dirent_name e = de_name e" by (simp add: dirent_name_def)
    with e show False by simp
  qed
  show "length (de_name e) = 256" using arg_cong[OF e(2), of length] l e(1) by simp
  have "replicate (256 - de_name_length e) (0 :: u8) = 0 # replicate (255 - de_name_length e) 0" using e(1) by (simp flip: replicate_Suc add: Suc_diff_le)
  then show "take (de_name_length e + 1) (de_name e) = dirent_name e @ [0]" by (subst e(2)) (simp add: l)
  show "unat (of_nat (de_name_length e) :: u8) = de_name_length e" using e(1) by (simp add: unat_of_nat)
qed (use assms in \<open>simp_all add: dirent_ok_def\<close>)

lemma length_dirent_image [simp]: "dirent_ok e \<Longrightarrow> length (dirent_image e) = ent_size e"
  using entry_size_bounds[of "de_name_length e"] by (simp add: dirent_image_def dirent_okD(1))

lemma length_entries_image: "\<forall>e \<in> set es. dirent_ok e \<Longrightarrow> length (entries_image es) = dir_bytes es"
  by (induction es) (simp_all add: entries_image_def dir_bytes_def)

text \<open>Reading an entry back from its image.\<close>

lemma dir_fields:
  assumes e: "dirent_ok e" and b: "buf = xs @ dirent_image e @ ys" "i = length xs"
  shows "dir_size buf i = Inr (ent_size e)" "dir_inode buf i = Inr (de_id e)" "dir_name_length buf i = Inr (de_name_length e)"
    "byte_of buf (i + 7) = Inr (de_type e)" "memcpy_from buf (i + 8) (de_name_length e) = Inr (dirent_name e)"
proof -
  note E = dirent_okD[OF e] and S = entry_size_bounds[of "de_name_length e"]
  have im: "dirent_image e = le32 (of_nat (de_id e)) @ le16 (of_nat (ent_size e)) @ [of_nat (de_name_length e), de_type e] @ dirent_name e @
      replicate (ent_size e - 8 - de_name_length e) 0"
    by (simp add: dirent_image_def ext2_directory_bytes_def dirent_header_def)
  have "unat (of_nat (ent_size e) :: u16) = ent_size e" using S(2) E(5) by (simp add: unat_of_nat)
  then show "dir_size buf i = Inr (ent_size e)" by (simp add: dir_size_def b im)
  have "unat (of_nat (de_id e) :: u32) = de_id e" using E(4) by (simp add: unat_of_nat)
  then show "dir_inode buf i = Inr (de_id e)" by (simp add: dir_inode_def b im)
  show "dir_name_length buf i = Inr (de_name_length e)" by (simp add: dir_name_length_def byte_of_def b im nth_append E(9))
  show "byte_of buf (i + 7) = Inr (de_type e)" by (simp add: byte_of_def b im nth_append)
  show "memcpy_from buf (i + 8) (de_name_length e) = Inr (dirent_name e)" by (simp add: b im E(1))
qed

lemma entry_at_image:
  assumes e: "dirent_ok e" and b: "buf = xs @ dirent_image e @ ys" "i = length xs"
  shows "entry_at buf i = Inr e"
proof -
  note E = dirent_okD[OF e] and D = dir_fields[OF e b]
  have "patch (replicate 256 0) 0 (dirent_name e) = de_name e" by (subst E(8)) (simp add: patch_def E(1))
  moreover have "de_name e ! de_name_length e = 0" using E(5) by (subst E(8)) (simp add: nth_append E(1))
  then have "(de_name e)[de_name_length e := 0] = de_name e" by (metis list_update_id)
  ultimately show ?thesis using D E(1,2,5) by (simp add: entry_at_def Let_def)
qed

section \<open>Packing\<close>

text \<open>How the loop distributes the entries over blocks; \<open>acc\<close> are the entries of the current block.\<close>

fun split_blocks :: "directory_entry list \<Rightarrow> directory_entry list \<Rightarrow> directory_entry list list" where
  "split_blocks acc [] = [acc]"
| "split_blocks acc (e # es) =
     (if ent_size e + dir_bytes acc \<ge> 1024 then acc # split_blocks [e] es else split_blocks (acc @ [e]) es)"

lemma concat_split_blocks [simp]: "concat (split_blocks acc es) = acc @ es"
  by (induction acc es rule: split_blocks.induct) auto

lemma split_blocks_members: "b \<in> set (split_blocks acc es) \<Longrightarrow> e \<in> set b \<Longrightarrow> e \<in> set (acc @ es)"
  using concat_split_blocks[of acc es] by (metis UN_I set_concat)

lemma split_blocks_not_Nil [simp]: "split_blocks acc es \<noteq> []"
  by (induction acc es rule: split_blocks.induct) auto

text \<open>A block that is not the last one of the directory.\<close>

definition dir_block :: "directory_entry list \<Rightarrow> u8 list" where
  "dir_block es = entries_image es @ replicate (1024 - dir_bytes es) 0"

lemma length_dir_block: "\<forall>e \<in> set es. dirent_ok e \<Longrightarrow> dir_bytes es \<le> 1024 \<Longrightarrow> length (dir_block es) = 1024"
  by (simp add: dir_block_def length_entries_image)

lemma patch_zeros: "length xs \<le> k \<Longrightarrow> patch (ys @ replicate k 0) (length ys) xs = ys @ xs @ replicate (k - length xs) 0"
  by (simp add: patch_def)

lemma dir_block_snoc:
  assumes ok: "\<forall>e \<in> set (es @ [e]). dirent_ok e" and fit: "ent_size e + dir_bytes es < 1024"
  shows "patch (patch (dir_block es) (dir_bytes es) (ext2_directory_bytes (dirent_header e))) (dir_bytes es + 8) (dirent_name e @ [0])
    = dir_block (es @ [e])"
proof -
  note E = dirent_okD[of e] and S = entry_size_bounds[of "de_name_length e"]
  have e: "dirent_ok e" and l: "length (entries_image es) = dir_bytes es" using ok length_entries_image[of es] by simp_all
  let ?h = "ext2_directory_bytes (dirent_header e)"
  have p1: "patch (dir_block es) (dir_bytes es) ?h = (entries_image es @ ?h) @ replicate (1024 - dir_bytes es - 8) 0"
    using patch_zeros[of ?h "1024 - dir_bytes es" "entries_image es"] l fit S by (simp add: dir_block_def)
  have "patch ((entries_image es @ ?h) @ replicate (1024 - dir_bytes es - 8) 0) (dir_bytes es + 8) (dirent_name e @ [0]) =
      (entries_image es @ ?h) @ (dirent_name e @ [0]) @ replicate (1024 - dir_bytes es - 8 - (de_name_length e + 1)) 0"
    using patch_zeros[of "dirent_name e @ [0]" "1024 - dir_bytes es - 8" "entries_image es @ ?h"] l fit S E(1)[OF e] by simp
  also have "\<dots> = entries_image es @ ?h @ dirent_name e @ replicate (1024 - dir_bytes es - 8 - de_name_length e) 0"
    using fit S by (simp add: Suc_diff_Suc flip: replicate_Suc)
  also have "replicate (1024 - dir_bytes es - 8 - de_name_length e) (0 :: u8) =
      replicate (ent_size e - 8 - de_name_length e) 0 @ replicate (1024 - dir_bytes (es @ [e])) 0"
    using fit S by (simp add: dir_bytes_def flip: replicate_add)
  finally show ?thesis unfolding p1 by (simp add: dir_block_def entries_image_def dirent_image_def)
qed

lemma put_data_block:
  assumes ok: "ext2_ok n fs" and d: "data_ok n fs (in_block_pointers ino)" and k: "k < length (in_block_pointers ino)" and len: "length buf = 1024"
  shows "\<exists>fs'. fs_write_block fs (get_block_pointer ino k) buf = Inr (Inr (), fs') \<and>
    realloc n fs fs' (set (free_list fs)) (unat ` set (in_block_pointers ino)) \<and>
    view fs' (in_block_pointers ino) = (view fs (in_block_pointers ino))(k := buf)"
proof -
  let ?bps = "in_block_pointers ino" and ?b = "get_block_pointer ino k"
  have b: "?b = unat (?bps ! k)" "?b < n" "?b \<notin> set (meta_list fs)" using data_okD[OF d k] k by (simp_all add: get_block_pointer_def)
  have w: "fs_write_block fs ?b buf = Inr (Inr (), put_block fs ?b buf)"
    using fs_write_block_ok[OF ext2_okD(1)[OF ok] b(2)] ext2_okD(2)[OF ok] len by simp
  have r: "realloc n fs (put_block fs ?b buf) (set (free_list fs)) {?b}" by (rule put_block_realloc[OF ok b(2) data_area[OF ok b(3)] len])
  have sub: "{?b} \<subseteq> unat ` set ?bps" using b(1) k by simp
  have "realloc n fs (put_block fs ?b buf) (set (free_list fs)) (unat ` set ?bps)" by (rule realloc_mono[OF r sub refl])
  with w view_put_block[OF ok d k len] b(1) show ?thesis by metis
qed

text \<open>The packing loop writes the full blocks and leaves the last one in the buffer.\<close>

definition stored_blocks :: "nat \<Rightarrow> directory_entry list list \<Rightarrow> (nat \<Rightarrow> u8 list) \<Rightarrow> nat \<Rightarrow> u8 list" where
  "stored_blocks k bs f i = (if k \<le> i \<and> i < k + length bs then dir_block (bs ! (i - k)) else f i)"

lemma stored_blocks_Nil [simp]: "stored_blocks k [] f = f"
  by (auto simp: stored_blocks_def fun_eq_iff)

lemma stored_blocks_Cons: "stored_blocks (k + 1) bs (f(k := dir_block b)) = stored_blocks k (b # bs) f"
  by (auto simp: stored_blocks_def nth_Cons' fun_eq_iff)

lemma pack_entries_ok:
  assumes "ext2_ok n fs" "data_ok n fs (in_block_pointers ino)" "\<forall>e \<in> set (acc @ es). dirent_ok e" "dir_bytes acc < 1024"
    "k + length (split_blocks acc es) \<le> length (in_block_pointers ino)"
  shows "\<exists>fs'. pack_entries ino es (fs, k, dir_bytes acc, dir_block acc) =
      Inr (fs', k + (length (split_blocks acc es) - 1), dir_bytes (last (split_blocks acc es)), dir_block (last (split_blocks acc es))) \<and>
    realloc n fs fs' (set (free_list fs)) (unat ` set (in_block_pointers ino)) \<and>
    view fs' (in_block_pointers ino) = stored_blocks k (butlast (split_blocks acc es)) (view fs (in_block_pointers ino)) \<and> dir_bytes (last (split_blocks acc es)) < 1024"
  using assms
proof (induction acc es arbitrary: fs k rule: split_blocks.induct)
  case (1 acc)
  have "realloc n fs fs (set (free_list fs)) (unat ` set (in_block_pointers ino))" by (rule realloc_mono[OF realloc_refl[OF "1.prems"(1)]]) simp_all
  with 1 show ?case by auto
next
  case (2 acc e es)
  note D = ext2_okD[OF "2.prems"(1)]
  let ?bps = "in_block_pointers ino"
  have e: "dirent_ok e" and acc: "\<forall>e \<in> set acc. dirent_ok e" using "2.prems"(3) by simp_all
  note E = dirent_okD[OF e] and S = entry_size_bounds[of "de_name_length e"]
  have sz: "entry_size (unat (of_nat (de_name_length e) :: u8)) = ent_size e" using E(9) by simp
  have la: "length (dir_block as) = 1024" if "\<forall>e \<in> set as. dirent_ok e" "dir_bytes as < 1024" for as using length_dir_block that by simp
  have nm: "memcpy_from (de_name e) 0 (Suc (de_name_length e)) = Inr (dirent_name e @ [0])" using E(2,5,7) by simp
  have store: "bindR (memcpy_to (dir_block as) (dir_bytes as) (ext2_directory_bytes (dirent_header e))) (\<lambda>buf2.
      bindR (Inr (dirent_name e @ [0])) (\<lambda>nm. bindR (memcpy_to buf2 (dir_bytes as + 8) nm) f)) = f (dir_block (as @ [e]))"
    if "\<forall>e \<in> set as. dirent_ok e" "ent_size e + dir_bytes as < 1024" for as f
    using dir_block_snoc[of as e] that e la[of as] S E(1) by simp
  have snoc: "dir_bytes as + ent_size e = dir_bytes (as @ [e])" for as by (simp add: dir_bytes_def)
  show ?case
  proof (cases "ent_size e + dir_bytes acc \<ge> 1024")
    case False
    have "pack_entries ino (e # es) (fs, k, dir_bytes acc, dir_block acc) = pack_entries ino es (fs, k, dir_bytes (acc @ [e]), dir_block (acc @ [e]))"
      using False store[OF acc] D(2) by (simp add: Let_def sz nm snoc flip: dirent_header_def)
    moreover have "dir_bytes (acc @ [e]) < 1024" using False by (simp add: dir_bytes_def)
    ultimately show ?thesis using "2.IH"(2)[OF False, of fs k] "2.prems" False by simp
  next
    case True
    have k: "k < length ?bps" using "2.prems"(5) True by simp
    obtain fs1 where w: "fs_write_block fs (get_block_pointer ino k) (dir_block acc) = Inr (Inr (), fs1)"
        "realloc n fs fs1 (set (free_list fs)) (unat ` set ?bps)" "view fs1 ?bps = (view fs ?bps)(k := dir_block acc)"
      using put_data_block[OF "2.prems"(1,2) k la[OF acc "2.prems"(4)]] by blast
    have z: "replicate 1024 0 = dir_block []" "dir_bytes [] = 0" "dir_bytes [e] = ent_size e" by (simp_all add: dir_block_def entries_image_def dir_bytes_def)
    have small: "ent_size e < 1024" using S(2) E(5) by simp
    have bs1: "fb_block_size fs1 = 1024" using ext2_okD(2)[OF reallocD(1)[OF w(2)]] .
    have "pack_entries ino (e # es) (fs, k, dir_bytes acc, dir_block acc) = pack_entries ino es (fs1, k + 1, dir_bytes [e], dir_block [e])"
      using True store[of "[]"] small D(2) w(1) bs1 by (simp add: Let_def sz nm z flush_def flip: dirent_header_def)
    moreover obtain fs2 where "pack_entries ino es (fs1, k + 1, dir_bytes [e], dir_block [e]) =
        Inr (fs2, k + 1 + (length (split_blocks [e] es) - 1), dir_bytes (last (split_blocks [e] es)), dir_block (last (split_blocks [e] es)))"
        "realloc n fs1 fs2 (set (free_list fs1)) (unat ` set ?bps)"
        "view fs2 ?bps = stored_blocks (k + 1) (butlast (split_blocks [e] es)) (view fs1 ?bps)" "dir_bytes (last (split_blocks [e] es)) < 1024"
      using "2.IH"(1)[OF True, of fs1 "k + 1"] "2.prems" True z(3) small reallocD(1)[OF w(2)] realloc_data_ok[OF w(2), of ?bps] by auto
    moreover have "realloc n fs fs2 (set (free_list fs)) (unat ` set ?bps)"
      using realloc_trans[OF w(2) calculation(3)] reallocD(4)[OF w(2)] by simp
    ultimately show ?thesis using True stored_blocks_Cons[of k "butlast (split_blocks [e] es)" "view fs ?bps" acc] w(3) by simp
  qed
qed

text \<open>The last block: the entry without an inode covers the rest.\<close>

definition end_entry :: "nat \<Rightarrow> ext2_directory" where
  "end_entry cur = \<lparr>ed_inode = 0, ed_size = of_nat (1024 - cur), ed_name_length = 0, ed_type = 0\<rparr>"

definition last_block :: "directory_entry list \<Rightarrow> u8 list" where
  "last_block es = entries_image es @ ext2_directory_bytes (end_entry (dir_bytes es)) @ replicate (1016 - dir_bytes es) 0"

lemma finish_entries_ok:
  assumes ok: "ext2_ok n fs" and d: "data_ok n fs (in_block_pointers ino)" and es: "\<forall>e \<in> set es. dirent_ok e" "dir_bytes es \<le> 1016"
    and k: "k < length (in_block_pointers ino)"
  shows "\<exists>fs'. finish_entries ino (fs, k, dir_bytes es, dir_block es) = Inr fs' \<and>
    realloc n fs fs' (set (free_list fs)) (unat ` set (in_block_pointers ino)) \<and>
    view fs' (in_block_pointers ino) = (view fs (in_block_pointers ino))(k := last_block es)"
proof -
  note D = ext2_okD[OF ok]
  have l: "length (entries_image es) = dir_bytes es" "length (dir_block es) = 1024" using length_entries_image[OF es(1)] length_dir_block[OF es(1)] es(2) by simp_all
  have sub: "sub32 1024 (dir_bytes es) = 1024 - dir_bytes es" using es(2) by (intro sub32_le) simp_all
  have p: "patch (dir_block es) (dir_bytes es) (ext2_directory_bytes (end_entry (dir_bytes es))) = last_block es"
    using patch_zeros[of "ext2_directory_bytes (end_entry (dir_bytes es))" "1024 - dir_bytes es" "entries_image es"] l(1) es(2)
    by (simp add: dir_block_def last_block_def)
  have "length (last_block es) = 1024" using l(1) es(2) by (simp add: last_block_def)
  from put_data_block[OF ok d k this] show ?thesis
    using p es(2) l(2) D(2) sub by (auto simp: finish_entries_def simp flip: end_entry_def simp del: of_nat_diff)
qed

section \<open>Reading a block back\<close>

text \<open>A callback applied to a list of entries, until it asks to stop.\<close>

fun run_callback :: "('s \<Rightarrow> directory_entry \<Rightarrow> (bool \<times> 's) run) \<Rightarrow> 's \<Rightarrow> directory_entry list \<Rightarrow> (bool \<times> 's) run" where
  "run_callback callback s [] = Inr (False, s)"
| "run_callback callback s (e # es) =
     bindR (callback s e) (\<lambda>(stop, s'). if stop then Inr (True, s') else run_callback callback s' es)"

lemma run_callback_append:
  "run_callback callback s (es @ fs) = bindR (run_callback callback s es) (\<lambda>(stop, s'). if stop then Inr (True, s') else run_callback callback s' fs)"
  by (induction es arbitrary: s) (auto simp: bindR_assoc split_def intro!: bindR_cong)

lemma run_collect: "run_callback collect s es = Inr (False, s @ es)"
  by (induction es arbitrary: s) (simp_all add: collect_def)

lemma dir_loop_image:
  assumes "\<forall>e \<in> set es. dirent_ok e" "buf = xs @ entries_image es @ ys" "i = length xs" "i + dir_bytes es \<le> 1016" "start + 1024 \<le> file_size" "file_size < 2 ^ 32"
  shows "dir_loop callback 1024 start file_size buf i s = bindR (run_callback callback s es) (\<lambda>(stop, s').
    if stop then Inr (True, s') else dir_loop callback 1024 start file_size buf (i + dir_bytes es) s')"
  using assms
proof (induction es arbitrary: xs i s)
  case (Cons e es)
  have e: "dirent_ok e" and b: "buf = xs @ dirent_image e @ (entries_image es @ ys)" using Cons.prems by (simp_all add: entries_image_def)
  note F = dir_fields[OF e b Cons.prems(3)] and A = entry_at_image[OF e b Cons.prems(3)] and E = dirent_okD[OF e]
  have le: "i + ent_size e + dir_bytes es \<le> 1016" and sum: "i + dir_bytes (e # es) = i + ent_size e + dir_bytes es"
    using Cons.prems(4) by (simp_all add: dir_bytes_def)
  have "add32 start i < file_size" using Cons.prems(4-6) by (subst add32_less) simp_all
  then have "dir_loop callback 1024 start file_size buf i s = bindR (callback s e) (\<lambda>(stop, s').
      if stop then Inr (True, s') else dir_loop callback 1024 start file_size buf (i + ent_size e) s')"
    using F A E(3) entry_size_bounds(3)[of "de_name_length e"] le by (subst dir_loop.simps) simp
  also have "\<dots> = bindR (callback s e) (\<lambda>(stop, s'). if stop then Inr (True, s') else bindR (run_callback callback s' es) (\<lambda>(stop, s').
      if stop then Inr (True, s') else dir_loop callback 1024 start file_size buf (i + ent_size e + dir_bytes es) s'))"
    using Cons.IH[of "xs @ dirent_image e" "i + ent_size e"] Cons.prems e b le by (auto intro!: bindR_cong)
  finally show ?case unfolding sum by (auto simp: bindR_assoc split_def intro!: bindR_cong)
qed (simp add: dir_bytes_def)

lemma end_entry_fields:
  assumes "cur \<le> 1016" "buf = xs @ ext2_directory_bytes (end_entry cur) @ ys" "length xs = cur"
  shows "dir_size buf cur = Inr (1024 - cur)" "dir_inode buf cur = Inr 0"
  using assms by (auto simp: dir_size_def dir_inode_def ext2_directory_bytes_def end_entry_def unat_of_nat simp del: of_nat_diff)

lemma zero_fields:
  assumes "cur \<le> 1016" "buf = xs @ replicate (1024 - cur) 0" "length xs = cur"
  shows "dir_size buf cur = Inr 0"
proof -
  have "take 2 (drop (cur + 4) buf) = [0, 0]" using assms by (simp add: numeral_2_eq_2 min_def)
  then show ?thesis using assms by (simp add: dir_size_def get16_def)
qed

text \<open>A stored block: \<open>fin\<close> tells whether it is the last one.\<close>

definition stored_block :: "bool \<Rightarrow> directory_entry list \<Rightarrow> u8 list" where
  "stored_block fin es = (if fin then last_block es else dir_block es)"

lemma stored_block_prefix: "\<exists>ys. stored_block fin es = [] @ entries_image es @ ys"
  by (simp add: stored_block_def last_block_def dir_block_def)

lemma dir_loop_block:
  assumes es: "\<forall>e \<in> set es. dirent_ok e" "dir_bytes es \<le> 1016" and st: "start + 1024 \<le> file_size" "file_size < 2 ^ 32"
  shows "dir_loop callback 1024 start file_size (stored_block fin es) 0 s = run_callback callback s es"
proof -
  note l = length_entries_image[OF es(1)]
  let ?buf = "stored_block fin es" and ?cur = "dir_bytes es"
  obtain ys where "?buf = [] @ entries_image es @ ys" using stored_block_prefix by blast
  note L = dir_loop_image[OF es(1) this, of 0 start file_size callback s]
  have "add32 start ?cur < file_size" using es(2) st by (subst add32_less) simp_all
  then have "dir_loop callback 1024 start file_size ?buf ?cur s' = Inr (False, s')" for s'
  proof (cases fin)
    case True
    note E = end_entry_fields[OF es(2), of ?buf "entries_image es"]
    have "dir_loop callback 1024 start file_size ?buf ?cur s' = dir_loop callback 1024 start file_size ?buf 1024 s'"
      using \<open>add32 start ?cur < file_size\<close> E es(2) l True by (subst dir_loop.simps) (simp add: stored_block_def last_block_def)
    then show ?thesis by (simp add: dir_loop.simps)
  next
    case False
    then show ?thesis using \<open>add32 start ?cur < file_size\<close> zero_fields[OF es(2), of ?buf "entries_image es"] es(2) l
      by (subst dir_loop.simps) (simp add: stored_block_def dir_block_def)
  qed
  then show ?thesis using L es(2) st by (cases "run_callback callback s es") auto
qed

section \<open>Searching a block\<close>

definition dir_lookup :: "directory_entry list \<Rightarrow> u8 list \<Rightarrow> nat" where
  "dir_lookup es nm = (case find (\<lambda>e. dirent_name e = nm) es of None \<Rightarrow> 0 | Some e \<Rightarrow> de_id e)"

lemma dir_lookup_simps [simp]:
  "dir_lookup [] nm = 0"
  "dir_lookup (e # es) nm = (if dirent_name e = nm then de_id e else dir_lookup es nm)"
  by (simp_all add: dir_lookup_def)

lemma dir_lookup_append:
  "\<forall>e \<in> set es. dirent_ok e \<Longrightarrow> dir_lookup (es @ fs) nm = (if dir_lookup es nm \<noteq> 0 then dir_lookup es nm else dir_lookup fs nm)"
  by (induction es) (auto dest: dirent_okD(3))

lemma find_in_image:
  assumes "str_ok fname nm" "\<forall>e \<in> set es. dirent_ok e" "buf = xs @ entries_image es @ ys" "i = length xs" "i + dir_bytes es \<le> 1016" "length nb = 257"
  shows "\<exists>nb'. length nb' = 257 \<and> find_in_block fname 1024 buf i nb =
    (if dir_lookup es nm \<noteq> 0 then Inr (dir_lookup es nm) else find_in_block fname 1024 buf (i + dir_bytes es) nb')"
  using assms
proof (induction es arbitrary: xs i nb)
  case (Cons e es)
  have e: "dirent_ok e" and b: "buf = xs @ dirent_image e @ (entries_image es @ ys)" using Cons.prems by (simp_all add: entries_image_def)
  note F = dir_fields[OF e b Cons.prems(4)] and E = dirent_okD[OF e]
  have le: "i + ent_size e + dir_bytes es \<le> 1016" using Cons.prems(5) by (simp add: dir_bytes_def)
  let ?nb = "(patch nb 0 (dirent_name e))[de_name_length e := 0]"
  have h: "holds ?nb (dirent_name e)" using holds_written[of "[]" nb "dirent_name e"] E(1,5,6) Cons.prems(6) by simp
  have l: "length ?nb = 257" using E(1,5) Cons.prems(6) by simp
  have step: "find_in_block fname 1024 buf i nb =
      (if dirent_name e = nm then Inr (de_id e) else find_in_block fname 1024 buf (i + ent_size e) ?nb)"
    using F E(1,3,5) entry_size_bounds(3)[of "de_name_length e"] le Cons.prems(6) string_eq_cstr_ok[OF Cons.prems(1) h]
    by (subst find_in_block.simps) (simp add: Let_def)
  show ?case
  proof (cases "dirent_name e = nm")
    case True
    then show ?thesis using step E(3) Cons.prems(6) by auto
  next
    case False
    have ih: "buf = (xs @ dirent_image e) @ entries_image es @ ys" "i + ent_size e = length (xs @ dirent_image e)" using b e Cons.prems(4) by simp_all
    have "\<forall>e \<in> set es. dirent_ok e" using Cons.prems(2) by simp
    from Cons.IH[OF Cons.prems(1) this ih le l] obtain nb' where "length nb' = 257" "find_in_block fname 1024 buf (i + ent_size e) ?nb =
        (if dir_lookup es nm \<noteq> 0 then Inr (dir_lookup es nm) else find_in_block fname 1024 buf (i + ent_size e + dir_bytes es) nb')" by blast
    moreover have eq: "i + ent_size e + dir_bytes es = i + dir_bytes (e # es)" by (simp add: dir_bytes_def)
    ultimately show ?thesis using step False unfolding eq by (intro exI[of _ nb']) simp
  qed
qed (auto simp: dir_bytes_def)

lemma find_in_stored_block:
  assumes nm: "str_ok fname nm" and es: "\<forall>e \<in> set es. dirent_ok e" "dir_bytes es \<le> 1016" and nb: "length nb = 257"
  shows "find_in_block fname 1024 (stored_block fin es) 0 nb = Inr (dir_lookup es nm)"
proof -
  note l = length_entries_image[OF es(1)]
  let ?buf = "stored_block fin es" and ?cur = "dir_bytes es"
  obtain ys where ys: "?buf = [] @ entries_image es @ ys" using stored_block_prefix by blast
  obtain nb' where f: "find_in_block fname 1024 ?buf 0 nb =
      (if dir_lookup es nm \<noteq> 0 then Inr (dir_lookup es nm) else find_in_block fname 1024 ?buf ?cur nb')"
    using find_in_image[OF nm es(1) ys, of 0 nb] es(2) nb unfolding add_0 by auto
  have "find_in_block fname 1024 ?buf ?cur nb' = Inr 0"
  proof (cases fin)
    case True
    then have "find_in_block fname 1024 ?buf ?cur nb' = find_in_block fname 1024 ?buf 1024 nb'"
      using end_entry_fields[OF es(2), of ?buf "entries_image es"] es(2) l by (subst find_in_block.simps) (simp add: stored_block_def last_block_def)
    then show ?thesis by (simp add: find_in_block.simps)
  next
    case False
    then show ?thesis using zero_fields[OF es(2), of ?buf "entries_image es"] es(2) l
      by (subst find_in_block.simps) (simp add: stored_block_def dir_block_def)
  qed
  with f show ?thesis by auto
qed

section \<open>Whole directories\<close>

text \<open>\<open>holds_dir\<close>: the data blocks of the inode are the images of the lists \<open>bs\<close> of entries.\<close>

definition holds_dir :: "nat \<Rightarrow> 'a ext2_scheme \<Rightarrow> ext2_inode \<Rightarrow> directory_entry list list \<Rightarrow> bool" where
  "holds_dir n fs ino bs \<longleftrightarrow> ext2_ok n fs \<and> file_ok n fs ino \<and> im_size (in_metadata ino) = 1024 * length bs \<and> length bs \<le> max_blocks \<and>
     (\<forall>b \<in> set bs. dir_bytes b \<le> 1016 \<and> (\<forall>e \<in> set b. dirent_ok e)) \<and>
     (\<forall>i < length bs. view fs (in_block_pointers ino) i = stored_block (i = length bs - 1) (bs ! i))"

lemma read_dir_block:
  assumes h: "holds_dir n fs ino bs" and i: "i \<le> length bs" and buf: "length buf = 1024"
  shows "mul32 i (fb_block_size fs) = i * 1024" "fb_block_size fs = 1024"
    "ext2_read fs ino (i * 1024) 1024 buf = Inr (if i < length bs then (Inr 1024, stored_block (i = length bs - 1) (bs ! i)) else (Inr 0, buf))"
proof -
  have ok: "ext2_ok n fs" "file_ok n fs ino" "im_size (in_metadata ino) = 1024 * length bs" "length bs \<le> max_blocks" using h by (simp_all add: holds_dir_def)
  show bs: "fb_block_size fs = 1024" by (rule ext2_okD(2)[OF ok(1)])
  have small: "i * 1024 + 1024 < 2 ^ 32" using i ok(4) by (simp add: max_blocks_def)
  then show "mul32 i (fb_block_size fs) = i * 1024" unfolding bs by (intro mul32_less) simp
  let ?out = "take 1024 (drop (i * 1024) (file_bytes fs ino))"
  have out: "?out = (if i < length bs then stored_block (i = length bs - 1) (bs ! i) else [])"
  proof (cases "i < length bs")
    case True
    then have "?out = bytes_at 1024 (view fs (in_block_pointers ino)) (i * 1024) 1024"
      using ok(3) unfolding file_bytes_def by (intro slice_bytes_at) simp
    also have "\<dots> = view fs (in_block_pointers ino) i"
      using sized_view[OF ok(1) file_okD(7)[OF ok(2)]] by (intro nth_equalityI) (simp_all add: sized_def byte_at_def)
    finally show ?thesis using True h by (simp add: holds_dir_def)
  qed (use i ok(3) in simp)
  have len: "length ?out = (if i < length bs then 1024 else 0)" using ok(3) i by auto
  have "ext2_read fs ino (i * 1024) 1024 buf = Inr (Inr (length ?out), patch buf 0 ?out)"
    using buf len by (intro ext2_read_ok[OF ok(1,2) small]) simp
  then show "ext2_read fs ino (i * 1024) 1024 buf = Inr (if i < length bs then (Inr 1024, stored_block (i = length bs - 1) (bs ! i)) else (Inr 0, buf))"
    using len out buf by (auto simp: patch_all patch_def)
qed

lemma holds_dirD:
  assumes h: "holds_dir n fs ino bs" and i: "i < length bs"
  shows "dir_bytes (bs ! i) \<le> 1016" "\<forall>e \<in> set (bs ! i). dirent_ok e" "i * 1024 + 1024 \<le> im_size (in_metadata ino)"
    "im_size (in_metadata ino) < 2 ^ 32" "add32 i 1 = i + 1" "length (stored_block fin (bs ! i)) = 1024"
proof -
  have m: "bs ! i \<in> set bs" using i by simp
  have sz: "im_size (in_metadata ino) = 1024 * length bs" "length bs \<le> max_blocks" using h by (simp_all add: holds_dir_def)
  show b: "dir_bytes (bs ! i) \<le> 1016" and e: "\<forall>e \<in> set (bs ! i). dirent_ok e" using h m unfolding holds_dir_def by blast+
  show "i * 1024 + 1024 \<le> im_size (in_metadata ino)" "im_size (in_metadata ino) < 2 ^ 32" "add32 i 1 = i + 1"
    using i sz by (simp_all add: max_blocks_def add32_less)
  show "length (stored_block fin (bs ! i)) = 1024"
    using length_entries_image[OF e] length_dir_block[OF e] b by (simp add: stored_block_def last_block_def)
qed

lemma iterate_dir:
  assumes h: "holds_dir n fs ino bs"
  shows "i \<le> length bs \<Longrightarrow> length buf = 1024 \<Longrightarrow> iterate_blocks callback fs ino i buf s = Some (bindR (run_callback callback s (concat (drop i bs))) (\<lambda>(stop, s'). Inr s'))"
proof (induction "length bs - i" arbitrary: i buf s)
  case 0
  then show ?case using read_dir_block[OF h, of i buf] by (subst iterate_blocks.simps) simp
next
  case (Suc d)
  then have i: "i < length bs" by simp
  let ?buf = "stored_block (i = length bs - 1) (bs ! i)"
  note H = holds_dirD[OF h i] and L = dir_loop_block[OF holds_dirD(2,1,3,4)[OF h i], of callback _ s]
  have step: "iterate_blocks callback fs ino i buf s = (case run_callback callback s (bs ! i) of Inl e \<Rightarrow> Some (Inl e)
      | Inr (stop, s') \<Rightarrow> if stop then Some (Inr s') else iterate_blocks callback fs ino (i + 1) ?buf s')"
    using read_dir_block[OF h, of i buf] i Suc.prems(2) L H(5) by (subst iterate_blocks.simps) (simp split: sum.split)
  have "iterate_blocks callback fs ino (i + 1) ?buf s' = Some (bindR (run_callback callback s' (concat (drop (i + 1) bs))) (\<lambda>(stop, s'). Inr s'))" for s'
    using Suc.hyps(1)[of "i + 1" ?buf s'] Suc.hyps(2) i H(6) by simp
  then show ?case unfolding step using i
    by (cases "run_callback callback s (bs ! i)") (auto simp: run_callback_append simp flip: Cons_nth_drop_Suc)
qed

lemma find_dir:
  assumes h: "holds_dir n fs ino bs" and nm: "str_ok fname nm"
  shows "i \<le> length bs \<Longrightarrow> length buf = 1024 \<Longrightarrow> find_blocks fs ino fname i buf = Some (Inr (dir_lookup (concat (drop i bs)) nm))"
proof (induction "length bs - i" arbitrary: i buf)
  case 0
  then show ?case using read_dir_block[OF h, of i buf] by (subst find_blocks.simps) simp
next
  case (Suc d)
  then have i: "i < length bs" by simp
  let ?buf = "stored_block (i = length bs - 1) (bs ! i)"
  note H = holds_dirD[OF h i]
  have "find_blocks fs ino fname i buf = (if dir_lookup (bs ! i) nm \<noteq> 0 then Some (Inr (dir_lookup (bs ! i) nm)) else find_blocks fs ino fname (i + 1) ?buf)"
    using read_dir_block[OF h, of i buf] i Suc.prems(2) find_in_stored_block[OF nm H(2,1), of "stack_buf fs 257"] H(5) by (subst find_blocks.simps) simp
  moreover have "find_blocks fs ino fname (i + 1) ?buf = Some (Inr (dir_lookup (concat (drop (i + 1) bs)) nm))"
    using Suc.hyps(1)[of "i + 1" ?buf] Suc.hyps(2) i H(6) by simp
  ultimately show ?case using i dir_lookup_append[OF H(2)] by (simp flip: Cons_nth_drop_Suc)
qed

lemma stored_dir:
  assumes h: "holds_dir n fs ino (split_blocks [] es)" and d: "is_directory (in_metadata ino)"
  shows "iterate_entries collect fs ino [] = Some (Inr es)" "str_ok name nm \<Longrightarrow> find_id fs ino name = Some (Inr (dir_lookup es nm))"
proof -
  have bs: "fb_block_size fs = 1024" using h ext2_okD(2) by (auto simp: holds_dir_def)
  show "iterate_entries collect fs ino [] = Some (Inr es)"
    using iterate_dir[OF h, of 0 "stack_buf fs 1024" collect "[]"] bs by (simp add: iterate_entries_def run_collect)
  show "find_id fs ino name = Some (Inr (dir_lookup es nm))" if "str_ok name nm"
    using find_dir[OF h that, of 0 "stack_buf fs 1024"] bs d by (simp add: find_id_def)
qed

section \<open>Storing a directory\<close>

definition dir_blocks :: "directory_entry list \<Rightarrow> nat" where
  "dir_blocks es = dir_bytes es div 1024 + 1"

text \<open>
  The entries fit into the blocks that \<open>write_directory_entries\<close> allocates: that number does not count the
  bytes that are left free at the end of a block; and each block has room for one more header.
\<close>

definition packs :: "directory_entry list \<Rightarrow> bool" where
  "packs es \<longleftrightarrow> length (split_blocks [] es) = dir_blocks es \<and> (\<forall>b \<in> set (split_blocks [] es). dir_bytes b \<le> 1016)"

lemma foldl_dir_bytes: "t + dir_bytes es < 2 ^ 32 \<Longrightarrow> foldl (\<lambda>t e. add32 t (ent_size e)) t es = t + dir_bytes es"
  by (induction es arbitrary: t) (simp_all add: dir_bytes_def add32_less)

lemma dir_bytes_bound: "(n :: nat) < 1024 + 1024 * q \<Longrightarrow> q + 1 \<le> 65804 \<Longrightarrow> n + 2048 < 2 ^ 32"
  by simp

lemma round_up:
  assumes "(n :: nat) mod 1024 \<noteq> 0"
  shows "(n + 1023) div 1024 = n div 1024 + 1"
proof -
  obtain q r where n: "n = r + q * 1024" "r = n mod 1024" using div_mult_mod_eq[of n 1024] by (metis add.commute)
  have r: "0 < r" "r < 1024" using assms n(2) by simp_all
  have "n div 1024 = q" unfolding n(1) using r(2) by simp
  moreover have "n + 1023 = (r - 1) + (q + 1) * 1024" using n(1) r(1) by simp
  then have "(n + 1023) div 1024 = q + 1" using r(2) by simp
  ultimately show ?thesis by simp
qed

lemma directory_size_ok:
  assumes bs: "fb_block_size fs = 1024" and nb: "dir_blocks es \<le> max_blocks"
  shows "directory_size fs es = Inr (1024 * dir_blocks es)"
proof -
  let ?n = "dir_bytes es"
  have small: "?n + 2048 < 2 ^ 32" by (rule dir_bytes_bound[OF dividend_less_times_div]) (use nb in \<open>simp_all add: dir_blocks_def max_blocks_def\<close>)
  have "(?n + 1 + 1023) div 1024 = dir_blocks es" unfolding dir_blocks_def by (simp add: add.assoc)
  moreover have "?n mod 1024 \<noteq> 0 \<Longrightarrow> (?n + 1023) div 1024 = dir_blocks es" unfolding dir_blocks_def by (rule round_up)
  moreover have "mul32 (dir_blocks es) 1024 = 1024 * dir_blocks es" using nb by (subst mul32_less) (simp_all add: max_blocks_def)
  ultimately show ?thesis
    using small bs foldl_dir_bytes[of 0 es] blocks_for_ok[OF bs, of "?n + 1"] blocks_for_ok[OF bs, of ?n]
    by (simp add: directory_size_def modR_def Let_def add32_less del: One_nat_def)
qed

text \<open>The second half of \<open>write_directory_entries\<close>, when the file has the new size.\<close>

lemma store_entries_ok:
  assumes inv: "file_inv n fs ino P" and es: "\<forall>e \<in> set es. dirent_ok e" "packs es" and sz: "im_size (in_metadata ino) = 1024 * dir_blocks es"
  shows "\<exists>st fs'. pack_entries ino es (fs, 0, 0, replicate 1024 0) = Inr st \<and> finish_entries ino st = Inr fs' \<and> file_inv n fs' ino P \<and> same_shape fs fs' \<and>
    holds_dir n fs' ino (split_blocks [] es)"
proof -
  note I = file_invD[OF inv] and F = file_okD[OF file_invD(3)[OF inv]]
  let ?bps = "in_block_pointers ino" and ?bs = "split_blocks [] es" and ?new = "unat ` set (in_block_pointers ino)"
  have nb: "length ?bs = dir_blocks es" "\<And>b. b \<in> set ?bs \<Longrightarrow> dir_bytes b \<le> 1016" using es(2) by (auto simp: packs_def)
  have len: "length ?bps = length ?bs" using F(8) sz nb(1) by simp
  have z: "replicate 1024 0 = dir_block []" "dir_bytes [] = 0" by (simp_all add: dir_block_def entries_image_def dir_bytes_def)
  obtain fs1 where p: "pack_entries ino es (fs, 0, 0, replicate 1024 0) = Inr (fs1, length ?bs - 1, dir_bytes (last ?bs), dir_block (last ?bs))"
      "realloc n fs fs1 (set (free_list fs)) ?new" "view fs1 ?bps = stored_blocks 0 (butlast ?bs) (view fs ?bps)"
    using pack_entries_ok[OF I(1) F(7), of "[]" es 0] es(1) len unfolding z by auto
  have out: "?new \<inter> P = {}" using I(6) by auto
  have inv1: "file_inv n fs1 ino P" by (rule file_inv_realloc[OF inv p(2) out]) simp
  note I1 = file_invD[OF inv1] and F1 = file_okD[OF file_invD(3)[OF inv1]]
  have mem: "\<And>b e. b \<in> set ?bs \<Longrightarrow> e \<in> set b \<Longrightarrow> dirent_ok e" using split_blocks_members[of _ "[]" es] es(1) by simp
  have lst: "last ?bs \<in> set ?bs" "0 < length ?bs" by simp_all
  obtain fs2 where f: "finish_entries ino (fs1, length ?bs - 1, dir_bytes (last ?bs), dir_block (last ?bs)) = Inr fs2"
      "realloc n fs1 fs2 (set (free_list fs1)) ?new" "view fs2 ?bps = (view fs1 ?bps)(length ?bs - 1 := last_block (last ?bs))"
    using finish_entries_ok[OF I1(1) F1(7), of "last ?bs" "length ?bs - 1"] mem[OF lst(1)] nb(2)[OF lst(1)] lst(2) len by auto
  have inv2: "file_inv n fs2 ino P" by (rule file_inv_realloc[OF inv1 f(2) out]) simp
  have "view fs2 ?bps i = stored_block (i = length ?bs - 1) (?bs ! i)" if "i < length ?bs" for i
    using that unfolding f(3) p(3) by (auto simp: stored_blocks_def stored_block_def nth_butlast last_conv_nth)
  then have "holds_dir n fs2 ino ?bs"
    using file_invD(1,3,7)[OF inv2] sz nb mem len unfolding holds_dir_def by simp
  with p(1) f(1) inv2 same_shape_trans[OF reallocD(2)[OF p(2)] reallocD(2)[OF f(2)]] show ?thesis by blast
qed

lemma write_directory_ok:
  assumes inv: "file_inv n fs ino P" and es: "\<forall>e \<in> set es. dirent_ok e" "packs es"
    and sz: "im_size (in_metadata ino) \<le> 1024 * dir_blocks es" "dir_blocks es \<le> max_blocks"
  shows "\<exists>r fs' ino' P'. write_directory_entries fs ino es = Inr (r, fs', ino') \<and> file_inv n fs' ino' P' \<and> same_shape fs fs' \<and>
    (if growth ino (1024 * dir_blocks es) \<le> length (free_list fs)
     then r = Inr () \<and> holds_dir n fs' ino' (split_blocks [] es) \<and> in_metadata ino' = (in_metadata ino)\<lparr>im_size := 1024 * dir_blocks es\<rparr>
     else r = Inl ENOSPC \<and> in_metadata ino' = in_metadata ino \<and> file_bytes fs' ino' = file_bytes fs ino)"
proof -
  let ?len = "1024 * dir_blocks es"
  have ds: "directory_size fs es = Inr ?len" by (rule directory_size_ok[OF ext2_okD(2)[OF file_invD(1)[OF inv]] sz(2)])
  have sg: "signed32 ?len = int ?len" using sz(2) by (simp add: signed32_def max_blocks_def)
  obtain r fs1 ino1 P1 where t: "ext2_truncate fs ino (int ?len) = Inr (r, fs1, ino1)" "file_inv n fs1 ino1 P1" "same_shape fs fs1"
      "view fs1 (in_block_pointers ino1) = view fs (in_block_pointers ino)"
      "case r of
         Inl e \<Rightarrow> e = ENOSPC \<and> length (free_list fs) < growth ino ?len \<and> set (free_list fs1) = set (free_list fs) \<and> ino1 = ino
       | Inr _ \<Rightarrow> length (free_list fs1) + growth ino ?len \<le> length (free_list fs) \<and> in_metadata ino1 = (in_metadata ino)\<lparr>im_size := ?len\<rparr>"
    using truncate_up[OF inv sz(1) blocks_bound] sz(2) by auto
  show ?thesis
  proof (cases r)
    case (Inl e)
    then have "write_directory_entries fs ino es = Inr (Inl e, fs1, ino1)" using ds sg t(1) by (simp add: write_directory_entries_def)
    with t Inl show ?thesis by (intro exI[of _ r] exI[of _ fs1] exI[of _ ino1] exI[of _ P1]) (simp add: file_bytes_def)
  next
    case (Inr u)
    have "im_size (in_metadata ino1) = ?len" using t(5) Inr by simp
    from store_entries_ok[OF t(2) es this] obtain st fs2 where s: "pack_entries ino1 es (fs1, 0, 0, replicate 1024 0) = Inr st"
        "finish_entries ino1 st = Inr fs2" "file_inv n fs2 ino1 P1" "holds_dir n fs2 ino1 (split_blocks [] es)" "same_shape fs1 fs2" by blast
    have "write_directory_entries fs ino es = Inr (Inr (), fs2, ino1)"
      using ds sg t(1) Inr s(1,2) ext2_okD(2)[OF file_invD(1)[OF t(2)]] by (simp add: write_directory_entries_def)
    with s(3,4) t(5) Inr same_shape_trans[OF t(3) s(5)] show ?thesis by auto
  qed
qed

text \<open>
  C37: a directory that was stored is read back. \<open>write_directory_entries\<close> either reports ENOSPC, exactly if the
  blocks it needs are not free, and leaves the old contents; or \<open>iterate_entries\<close> then gives exactly the
  entries that were stored, in their order, and \<open>find_id\<close> gives for every name the inode of the first entry with
  that name and zero if there is none. This is for entries with a name of at most 255 bytes, when the directory
  does not shrink, and when the entries fit: packed block by block, they must take exactly the number of blocks that the function
  computes from the sum of their sizes (a sum that leaves out the bytes lost at the ends of blocks), and
  each block must have room for one more header. All entries that fit into one block are such a case.
\<close>

theorem directory_roundtrip:
  assumes "file_inv n fs ino P" and "is_directory (in_metadata ino)" and "\<forall>e \<in> set es. dirent_ok e" and "packs es"
    and "im_size (in_metadata ino) \<le> 1024 * dir_blocks es" and "dir_blocks es \<le> max_blocks"
  shows "\<exists>r fs' ino' P'. write_directory_entries fs ino es = Inr (r, fs', ino') \<and> file_inv n fs' ino' P' \<and>
    (if growth ino (1024 * dir_blocks es) \<le> length (free_list fs)
     then r = Inr () \<and> iterate_entries collect fs' ino' [] = Some (Inr es) \<and>
       (\<forall>name nm. str_ok name nm \<longrightarrow> find_id fs' ino' name = Some (Inr (dir_lookup es nm)))
     else r = Inl ENOSPC \<and> file_bytes fs' ino' = file_bytes fs ino)"
proof -
  obtain r fs' ino' P' where w: "write_directory_entries fs ino es = Inr (r, fs', ino')" "file_inv n fs' ino' P'"
      "if growth ino (1024 * dir_blocks es) \<le> length (free_list fs)
       then r = Inr () \<and> holds_dir n fs' ino' (split_blocks [] es) \<and> in_metadata ino' = (in_metadata ino)\<lparr>im_size := 1024 * dir_blocks es\<rparr>
       else r = Inl ENOSPC \<and> in_metadata ino' = in_metadata ino \<and> file_bytes fs' ino' = file_bytes fs ino"
    using write_directory_ok[OF assms(1,3-6)] by blast
  have "iterate_entries collect fs' ino' [] = Some (Inr es) \<and> (\<forall>name nm. str_ok name nm \<longrightarrow> find_id fs' ino' name = Some (Inr (dir_lookup es nm)))"
    if "holds_dir n fs' ino' (split_blocks [] es)" "in_metadata ino' = (in_metadata ino)\<lparr>im_size := 1024 * dir_blocks es\<rparr>"
    using stored_dir[OF that(1)] that(2) assms(2) by (simp add: is_directory_def)
  then show ?thesis using w by (intro exI[of _ r] exI[of _ fs'] exI[of _ ino'] exI[of _ P']) simp
qed

definition demo_entry :: "nat \<Rightarrow> u8 list \<Rightarrow> directory_entry" where
  "demo_entry ino_id nm = \<lparr>de_id = ino_id, de_type = 2, de_name_length = length nm, de_name = nm @ replicate (256 - length nm) 0\<rparr>"

definition demo_dir :: ext2_inode where
  "demo_dir = demo_file\<lparr>in_metadata := (in_metadata demo_file)\<lparr>im_mode := 0x41ED\<rparr>\<rparr>"

lemma demo_dir_ok: "file_inv 16 demo_fs demo_dir {}" "is_directory (in_metadata demo_dir)" "im_size (in_metadata demo_dir) = 0" "in_block_pointers demo_dir = []"
  using demo_file_ok(1) unfolding file_inv_def file_ok_def
  by (simp_all add: demo_dir_def demo_file_def is_directory_def is_device_def is_symlink_def meta_fits_def)

lemma demo_entry_ok: "0 < i \<Longrightarrow> i < 2 ^ 32 \<Longrightarrow> length nm \<le> 255 \<Longrightarrow> 0 \<notin> set nm \<Longrightarrow> dirent_ok (demo_entry i nm)"
  by (simp add: dirent_ok_def dirent_name_def demo_entry_def)

theorem directory_roundtrip_witness:
  "\<exists>fs' ino'. write_directory_entries demo_fs demo_dir [demo_entry 1 [46], demo_entry 2 [46, 46]] = Inr (Inr (), fs', ino') \<and>
     iterate_entries collect fs' ino' [] = Some (Inr [demo_entry 1 [46], demo_entry 2 [46, 46]]) \<and>
     find_id fs' ino' \<lparr>ks_size = 3, ks_length = 2, ks_cstring = Some [46, 46, 0]\<rparr> = Some (Inr 2)"
proof -
  let ?es = "[demo_entry 1 [46], demo_entry 2 [46, 46]]" and ?s = "\<lparr>ks_size = 3, ks_length = 2, ks_cstring = Some [46, 46, 0]\<rparr>"
  have ok: "\<forall>e \<in> set ?es. dirent_ok e" using demo_entry_ok[of 1 "[46]"] demo_entry_ok[of 2 "[46, 46]"] by simp
  have sz: "dir_bytes ?es = 24" "packs ?es" "dir_blocks ?es = 1"
    by (simp_all add: dir_bytes_def packs_def dir_blocks_def demo_entry_def entry_size_def)
  have g: "growth demo_dir (1024 * dir_blocks ?es) \<le> length (free_list demo_fs)" unfolding sz(3) by (simp add: growth_def demo_dir_ok(4) demo_ok(3))
  have s: "str_ok ?s [46, 46]" using holdsI[of "[46, 46]" "[]"] by (simp add: str_ok_def)
  have lk: "dir_lookup ?es [46, 46] = 2" by (simp add: demo_entry_def dirent_name_def)
  from directory_roundtrip[OF demo_dir_ok(1,2) ok sz(2)] obtain r fs' ino' where
    w: "write_directory_entries demo_fs demo_dir ?es = Inr (r, fs', ino')" "r = Inr ()" "iterate_entries collect fs' ino' [] = Some (Inr ?es)"
    "\<forall>name nm. str_ok name nm \<longrightarrow> find_id fs' ino' name = Some (Inr (dir_lookup ?es nm))"
    using sz(3) demo_dir_ok(3) g by (auto simp: max_blocks_def)
  from w(4) s have "find_id fs' ino' ?s = Some (Inr (dir_lookup ?es [46, 46]))" by blast
  with w(1-3) show ?thesis unfolding lk by (intro exI[of _ fs'] exI[of _ ino']) simp
qed

text \<open>
  The condition \<open>packs\<close> is not always met: seven entries with names of 248 bytes need three blocks, because only
  three of them go into a block, but two blocks are allocated. The loop then writes the last entry to block 0.
\<close>

lemma long_names_overflow:
  assumes "de_name_length e = 248"
  shows "dir_blocks [e, e, e, e, e, e, e] = 2" "split_blocks [] [e, e, e, e, e, e, e] = [[e, e, e], [e, e, e], [e]]"
  using assms by (simp_all add: dir_blocks_def dir_bytes_def entry_size_def)

end
