(* ===== verification/Ext2TreeRun.thy ===== *)
theory Ext2TreeRun
  imports Ext2Tree Ext2DirRun
begin

text \<open>
  What \<open>add_entry\<close> promises: a directory is a list of named entries, and linking an inode into it appends one,
  refuses a name that is there, and raises the link count of the child.
\<close>

section \<open>The store of objects\<close>

text \<open>What is stated of a file system depends on the fields of \<open>ext2\<close> only, not on those that extend it.\<close>

definition same_core :: "'a ext2_scheme \<Rightarrow> 'b ext2_scheme \<Rightarrow> bool" where
  "same_core fs fs' \<longleftrightarrow> ext2.truncate fs' = ext2.truncate fs"

lemma same_coreD:
  assumes "same_core fs fs'"
  shows "fb_file fs' = fb_file fs" "fb_block_size fs' = fb_block_size fs" "fb_junk fs' = fb_junk fs" "e2_superblock fs' = e2_superblock fs"
    "e2_num_block_groups fs' = e2_num_block_groups fs" "e2_blocks_per_inode_table fs' = e2_blocks_per_inode_table fs"
    "e2_inodes_per_block fs' = e2_inodes_per_block fs" "e2_block_pointers_per_block fs' = e2_block_pointers_per_block fs"
    "e2_block_groups fs' = e2_block_groups fs"
  using assms by (simp_all add: same_core_def ext2.truncate_def)

lemma same_core_blocks:
  assumes "same_core fs fs'"
  shows "block_at fs' = block_at fs" "desc_at fs' = desc_at fs" "meta_list fs' = meta_list fs" "free_in fs' = free_in fs" "free_list fs' = free_list fs"
    "view fs' = view fs" "store_ok n fs' = store_ok n fs" "valid_id fs' = valid_id fs" "table_ok fs' = table_ok fs"
proof -
  note C = same_coreD[OF assms]
  show b: "block_at fs' = block_at fs" by (simp add: C block_at_def fun_eq_iff)
  show d: "desc_at fs' = desc_at fs" by (simp add: desc_at_def b fun_eq_iff)
  have "group_meta fs' = group_meta fs" by (simp add: group_meta_def d C fun_eq_iff)
  then show "meta_list fs' = meta_list fs" by (simp add: meta_list_def C)
  show f: "free_in fs' = free_in fs" by (simp add: free_in_def b d C fun_eq_iff)
  have "block_no fs' = block_no fs" by (simp add: block_no_def C fun_eq_iff)
  then show "free_list fs' = free_list fs" by (simp add: free_list_def f C)
qed (simp_all add: same_coreD[OF assms] view_def block_at_def valid_id_def table_ok_def store_ok_def fun_eq_iff)

lemma same_core_inv:
  assumes "same_core fs fs'"
  shows "ext2_ok n fs' = ext2_ok n fs" "file_ok n fs' = file_ok n fs" "file_inv n fs' = file_inv n fs"
    "holds_dir n fs' = holds_dir n fs" "file_bytes fs' = file_bytes fs"
proof -
  note C = same_coreD[OF assms] and B = same_core_blocks[OF assms]
  show ok: "ext2_ok n fs' = ext2_ok n fs" unfolding ext2_ok_def B C by simp
  show f: "file_ok n fs' = file_ok n fs" by (simp add: fun_eq_iff file_ok_def data_ok_def B)
  show "file_inv n fs' = file_inv n fs" by (simp add: fun_eq_iff file_inv_def tree_ok_def owned_def B ok f)
  show "holds_dir n fs' = holds_dir n fs" by (simp add: fun_eq_iff holds_dir_def B ok f)
  show "file_bytes fs' = file_bytes fs" by (simp add: fun_eq_iff file_bytes_def B)
qed

text \<open>Storing an object is such a change.\<close>

lemma same_core_set_obj: "same_core fs (set_obj fs h x)"
  by (simp add: same_core_def set_obj_def ext2.truncate_def)

lemmas set_obj_core [simp] = same_core_inv[OF same_core_set_obj] same_core_blocks(5)[OF same_core_set_obj]

lemma ob_inodes_set_obj [simp]: "ob_inodes (set_obj fs h x) = (ob_inodes fs)(h := Some x)"
  by (simp add: set_obj_def)

lemma same_shape_objects: "same_shape fs fs' \<Longrightarrow> ob_inodes fs' = ob_inodes fs"
  using same_shapeD(12)[of fs fs'] by (cases fs; cases fs') simp

lemma realloc_objects: "realloc n fs fs' F' new \<Longrightarrow> ob_inodes fs' = ob_inodes fs"
  by (rule same_shape_objects[OF reallocD(2)])

section \<open>Entries\<close>

definition dirent_of :: "nat \<Rightarrow> u8 \<Rightarrow> u8 list \<Rightarrow> directory_entry" where
  "dirent_of ino_id ftype nm = \<lparr>de_id = ino_id, de_type = ftype, de_name_length = length nm, de_name = nm @ replicate (256 - length nm) 0\<rparr>"

lemma dirent_new_ok:
  assumes s: "str_ok name nm" and len: "length nm \<le> 255" and i: "0 < i" "i < 2 ^ 32"
  shows "dirent_new i t name = Inr (dirent_of i t nm)" "dirent_ok (dirent_of i t nm)" "dirent_name (dirent_of i t nm) = nm"
proof -
  have n0: "0 \<notin> set nm" and kl: "ks_length name = length nm" using s by (auto simp: str_ok_def holds_def)
  have p: "patch (replicate 256 0) 0 nm = nm @ replicate (256 - length nm) 0" using len by (simp add: patch_def)
  have "(nm @ replicate (256 - length nm) 0) ! length nm = 0" using len by (simp add: nth_append)
  then have "(nm @ replicate (256 - length nm) 0)[length nm := 0] = nm @ replicate (256 - length nm) 0" by (metis list_update_id)
  then show "dirent_new i t name = Inr (dirent_of i t nm)"
    using source_bytes_ok[OF s] kl len p by (simp add: dirent_new_def dirent_of_def)
  show "dirent_name (dirent_of i t nm) = nm" by (simp add: dirent_name_def dirent_of_def)
  then show "dirent_ok (dirent_of i t nm)" using n0 len i unfolding dirent_ok_def by (simp add: dirent_of_def)
qed

lemma string_eq_entry: "str_ok name nm \<Longrightarrow> dirent_ok e \<Longrightarrow> string_eq_cstr name (de_name e) = Inr (dirent_name e = nm)"
proof -
  assume s: "str_ok name nm" and e: "dirent_ok e"
  have "replicate (256 - de_name_length e) (0 :: u8) = 0 # replicate (255 - de_name_length e) 0"
    using dirent_okD(5)[OF e] by (simp flip: replicate_Suc add: Suc_diff_le)
  then have "holds (de_name e) (dirent_name e)" using holdsI[OF dirent_okD(6)[OF e]] dirent_okD(8)[OF e] by metis
  then show ?thesis by (rule string_eq_cstr_ok[OF s])
qed

text \<open>The search of \<open>add_entry\<close> for the name.\<close>

abbreviation add_callback :: "kstring \<Rightarrow> directory_entry list \<times> bool \<Rightarrow> directory_entry \<Rightarrow> (bool \<times> directory_entry list \<times> bool) run" where
  "add_callback name \<equiv> (\<lambda>(entries, exist) dirent. bindR (string_eq_cstr name (de_name dirent)) (\<lambda>eq.
     if eq then Inr (True, entries @ [dirent], True) else Inr (False, entries @ [dirent], exist)))"

lemma run_add_callback:
  assumes s: "str_ok name nm"
  shows "\<forall>e \<in> set es. dirent_ok e \<Longrightarrow> \<exists>stop ents. run_callback (add_callback name) (acc, False) es =
    Inr (stop, ents, nm \<in> dirent_name ` set es) \<and> (nm \<notin> dirent_name ` set es \<longrightarrow> ents = acc @ es)"
proof (induction es arbitrary: acc)
  case (Cons e es)
  then show ?case using string_eq_entry[OF s, of e] Cons.IH[of "acc @ [e]"] by auto
qed auto

section \<open>Linking an inode into a directory\<close>

lemma increase_hardlink_ok:
  assumes ok: "ext2_ok n fs" "table_ok fs" and ch: "ob_inodes fs c = Some ch" "valid_id fs (in_id ch)" "raw_inode_ok (in_raw ch)"
  shows "\<exists>fs1 ch'. increase_hardlink_count fs c = Inr (set_obj fs1 c ch') \<and> realloc n fs fs1 (set (free_list fs)) {slot_block fs (in_id ch)} \<and>
    ri_hard_links (in_raw ch') = ri_hard_links (in_raw ch) + 1"
proof -
  let ?ch = "ch\<lparr>in_raw := (in_raw ch)\<lparr>ri_hard_links := ri_hard_links (in_raw ch) + 1\<rparr>\<rparr>"
  have "valid_id fs (in_id ?ch)" "raw_inode_ok (in_raw ?ch)" using ch by (simp_all add: raw_inode_ok_def)
  then obtain fs1 where "write_inode_entry fs ?ch = Inr (fs1, synced ?ch)" "realloc n fs fs1 (set (free_list fs)) {slot_block fs (in_id ?ch)}"
    using write_inode_entry_ok[OF ok, of ?ch] by blast
  then show ?thesis using ch(1)
    by (intro exI[of _ fs1] exI[of _ "synced ?ch"]) (simp add: increase_hardlink_count_def obj_at_def synced_def)
qed

text \<open>The last steps of \<open>add_entry\<close>: the entries are stored and the inode is written if it is dirty.\<close>

definition store_and_sync :: "'a ext2_objects_scheme \<Rightarrow> nat \<Rightarrow> ext2_inode \<Rightarrow> directory_entry list \<Rightarrow> (unit ret \<times> 'a ext2_objects_scheme) prun" where
  "store_and_sync fs h self ents = bindP (Some (write_directory_entries fs self ents)) (\<lambda>(res, fs2, self2).
     case res of
       Inl err \<Rightarrow> Some (Inr (Inl err, set_obj fs2 h self2))
     | Inr _ \<Rightarrow>
         if in_dirty self2 then bindP (Some (write_to_disk fs2 self2)) (\<lambda>(r, fs3, self3). Some (Inr (r, set_obj fs3 h self3)))
         else Some (Inr (Inr (), set_obj fs2 h self2)))"

lemma holds_dir_view:
  assumes "holds_dir n fs ino bs" "ext2_ok n fs'" "file_ok n fs' ino'" "same_file ino ino'" "view fs' (in_block_pointers ino) = view fs (in_block_pointers ino)"
  shows "holds_dir n fs' ino' bs"
  using assms by (simp add: holds_dir_def same_file_def)

lemma store_and_sync_ok:
  assumes inv: "file_inv n fs self P" and es: "\<forall>e \<in> set es. dirent_ok e" "packs es"
    and sz: "im_size (in_metadata self) \<le> 1024 * dir_blocks es" "dir_blocks es \<le> max_blocks"
  shows "\<exists>r fs' self' P'. store_and_sync fs h self es = Some (Inr (r, set_obj fs' h self')) \<and> file_inv n fs' self' P' \<and> same_shape fs fs' \<and>
    (if growth self (1024 * dir_blocks es) \<le> length (free_list fs)
     then (r = Inr () \<or> r = Inl ENOSPC \<and> 12 < dir_blocks es) \<and> holds_dir n fs' self' (split_blocks [] es) \<and>
       im_mode (in_metadata self') = im_mode (in_metadata self)
     else r = Inl ENOSPC \<and> file_bytes fs' self' = file_bytes fs self)"
proof -
  obtain r fs2 self2 P2 where w: "write_directory_entries fs self es = Inr (r, fs2, self2)" "file_inv n fs2 self2 P2" "same_shape fs fs2"
      "if growth self (1024 * dir_blocks es) \<le> length (free_list fs)
       then r = Inr () \<and> holds_dir n fs2 self2 (split_blocks [] es) \<and> in_metadata self2 = (in_metadata self)\<lparr>im_size := 1024 * dir_blocks es\<rparr>
       else r = Inl ENOSPC \<and> in_metadata self2 = in_metadata self \<and> file_bytes fs2 self2 = file_bytes fs self"
    using write_directory_ok[OF inv es sz] by blast
  show ?thesis
  proof (cases "r = Inr () \<and> in_dirty self2")
    case False
    then have "store_and_sync fs h self es = Some (Inr (r, set_obj fs2 h self2))" using w(1) by (cases r) (auto simp: store_and_sync_def)
    with w show ?thesis by (intro exI[of _ r] exI[of _ fs2] exI[of _ self2] exI[of _ P2]) (auto split: if_splits)
  next
    case True
    then have g: "growth self (1024 * dir_blocks es) \<le> length (free_list fs)" "holds_dir n fs2 self2 (split_blocks [] es)"
      "in_metadata self2 = (in_metadata self)\<lparr>im_size := 1024 * dir_blocks es\<rparr>" using w(4) by (auto split: if_splits)
    obtain r3 fs3 self3 P3 where d: "write_to_disk fs2 self2 = Inr (r3, fs3, self3)" "file_inv n fs3 self3 P3" "same_file self2 self3" "same_shape fs2 fs3"
        "view fs3 (in_block_pointers self2) = view fs2 (in_block_pointers self2)" "case r3 of Inl e \<Rightarrow> e = ENOSPC | Inr _ \<Rightarrow> loads_as fs3 self3"
      using write_to_disk_inv[OF w(2)] by blast
    have hd: "holds_dir n fs3 self3 (split_blocks [] es)" by (rule holds_dir_view[OF g(2) file_invD(1,3)[OF d(2)] d(3,5)])
    have "length (in_block_pointers self2) = dir_blocks es" using file_okD(8)[OF file_invD(3)[OF w(2)]] g(3) by simp
    then have "r3 = Inr () \<or> r3 = Inl ENOSPC \<and> 12 < dir_blocks es"
      using write_to_disk_direct[OF w(2) _ d(1)] d(6) by (cases "12 < dir_blocks es"; cases r3) auto
    moreover have "store_and_sync fs h self es = Some (Inr (r3, set_obj fs3 h self3))" using w(1) True d(1) by (simp add: store_and_sync_def)
    ultimately show ?thesis using d(2) same_shape_trans[OF w(3) d(4)] hd g(1,3) d(3)
      by (intro exI[of _ r3] exI[of _ fs3] exI[of _ self3] exI[of _ P3]) (simp add: same_file_def)
  qed
qed

text \<open>Another inode entry was written: the directory is as before.\<close>

lemma other_entry_written:
  assumes inv: "file_inv n fs self P" and re: "realloc n fs fs1 (set (free_list fs)) {slot_block fs i}" and v: "valid_id fs i"
  shows "file_inv n fs1 self P" "file_bytes fs1 self = file_bytes fs self" "length (free_list fs1) = length (free_list fs)"
proof -
  note I = file_invD[OF inv] and F = file_okD[OF file_invD(3)[OF inv]] and S = slot_block_ok(1)[OF file_invD(1,2)[OF inv] v]
  show "file_inv n fs1 self P" by (rule file_inv_realloc[OF inv re]) (use I(9) S in \<open>auto simp: owned_def\<close>)
  have "view fs1 (in_block_pointers self) = view fs (in_block_pointers self)"
    by (rule contents_realloc[OF inv re]) (use F(7) S in \<open>auto simp: data_ok_def\<close>)
  then show "file_bytes fs1 self = file_bytes fs self" by (simp add: file_bytes_def)
  show "length (free_list fs1) = length (free_list fs)" using reallocD(4)[OF re] by (metis card_free_list)
qed

lemma dir_lookup_new: "nm \<notin> dirent_name ` set es \<Longrightarrow> dirent_name e = nm \<Longrightarrow> dir_lookup (es @ [e]) nm = de_id e"
  by (induction es) auto

text \<open>
  C38: \<open>add_entry\<close> links another inode into a directory, under a name of 1 to 255 bytes (the code also lets 256
  pass). If the name is there, it reports EEXIST and changes nothing. Otherwise the link count of the child goes
  up by one, also when the call then fails. If the data blocks for the longer directory are free, the
  directory then lists its old entries in their order and the new one at the end, with the number and the file
  type of the child, and \<open>find_id\<close> finds the child under the name. With at most twelve blocks the call then
  succeeds; with more it can still report ENOSPC, when the block for the pointers is missing, although the entry is in the directory.
  If the data blocks are not free, it reports ENOSPC and the directory is as before. The directory must not
  shrink and the new list of entries must fit into the blocks computed for it, as for \<open>write_directory_entries\<close>.
\<close>

theorem add_entry_links:
  assumes "ob_inodes fs h = Some self" and "ob_inodes fs c = Some ch" and "h \<noteq> c"
    and "file_inv n fs self P" and "is_directory (in_metadata self)" and "holds_dir n fs self bs"
    and "valid_id fs (in_id ch)" and "raw_inode_ok (in_raw ch)"
    and "str_ok name nm" and "nm \<noteq> []" and "length nm \<le> 255"
    and "es = concat bs @ [dirent_of (in_id ch) (file_type (in_metadata ch)) nm]"
    and "packs es" and "length bs \<le> dir_blocks es" and "dir_blocks es \<le> max_blocks"
  shows "\<exists>r fs' self' P'. add_entry fs h name c = Some (Inr (r, fs')) \<and> ob_inodes fs' h = Some self' \<and> file_inv n fs' self' P' \<and>
    (if nm \<in> dirent_name ` set (concat bs) then r = Inl EEXIST \<and> fs' = fs
     else (\<exists>ch'. ob_inodes fs' c = Some ch' \<and> ri_hard_links (in_raw ch') = ri_hard_links (in_raw ch) + 1) \<and>
       (if growth self (1024 * dir_blocks es) \<le> length (free_list fs)
        then (r = Inr () \<or> r = Inl ENOSPC \<and> 12 < dir_blocks es) \<and> iterate_entries collect fs' self' [] = Some (Inr es) \<and>
          find_id fs' self' name = Some (Inr (in_id ch))
        else r = Inl ENOSPC \<and> file_bytes fs' self' = file_bytes fs self))"
proof -
  let ?e = "dirent_of (in_id ch) (file_type (in_metadata ch)) nm" and ?exist = "nm \<in> dirent_name ` set (concat bs)"
  note I = file_invD[OF assms(4)]
  have old: "\<forall>e \<in> set (concat bs). dirent_ok e" and size: "im_size (in_metadata self) = 1024 * length bs"
    using assms(6) by (auto simp: holds_dir_def)
  have len: "ks_length name = length nm" "0 < length nm" "\<not> 256 < ks_length name" using assms(9-11) by (simp_all add: str_ok_def)
  obtain stop ents where run: "run_callback (add_callback name) ([], False) (concat bs) = Inr (stop, ents, ?exist)" "\<not> ?exist \<Longrightarrow> ents = concat bs"
    using run_add_callback[OF assms(9) old, of "[]"] by auto
  have it: "iterate_entries (add_callback name) fs self ([], False) = Some (Inr (ents, ?exist))"
    using iterate_dir[OF assms(6), of 0 "stack_buf fs 1024" "add_callback name" "([], False)"] run(1) ext2_okD(2)[OF I(1)]
    by (simp add: iterate_entries_def)
  show ?thesis
  proof (cases ?exist)
    case True
    then have "add_entry fs h name c = Some (Inr (Inl EEXIST, fs))" using assms(1,5) len it by (simp add: add_entry_def obj_at_def)
    with True assms(1,4) show ?thesis by auto
  next
    case False
    have id: "0 < in_id ch" "in_id ch < 2 ^ 32" using assms(7) by (simp_all add: valid_id_def)
    note N = dirent_new_ok[OF assms(9,11) id]
    obtain fs1 ch' where inc: "increase_hardlink_count fs c = Inr (set_obj fs1 c ch')" "realloc n fs fs1 (set (free_list fs)) {slot_block fs (in_id ch)}"
        "ri_hard_links (in_raw ch') = ri_hard_links (in_raw ch) + 1"
      using increase_hardlink_ok[OF I(1,2) assms(2,7,8)] by blast
    let ?fs1 = "set_obj fs1 c ch'"
    note O = other_entry_written[OF assms(4) inc(2) assms(7)]
    have self1: "ob_inodes ?fs1 h = Some self" using realloc_objects[OF inc(2)] assms(1,3) by simp
    have "add_entry fs h name c = store_and_sync ?fs1 h self es"
      using assms(1,2,5,12) len it False run(2) N(1) inc(1) self1 by (simp add: add_entry_def obj_at_def store_and_sync_def)
    moreover have "\<forall>e \<in> set es. dirent_ok e" using old N(2) assms(12) by auto
    then obtain r fs2 self2 P2 where st: "store_and_sync ?fs1 h self es = Some (Inr (r, set_obj fs2 h self2))" "file_inv n fs2 self2 P2" "same_shape ?fs1 fs2"
        "if growth self (1024 * dir_blocks es) \<le> length (free_list ?fs1)
         then (r = Inr () \<or> r = Inl ENOSPC \<and> 12 < dir_blocks es) \<and> holds_dir n fs2 self2 (split_blocks [] es) \<and>
           im_mode (in_metadata self2) = im_mode (in_metadata self)
         else r = Inl ENOSPC \<and> file_bytes fs2 self2 = file_bytes ?fs1 self"
      using store_and_sync_ok[of n ?fs1 self P es h] O(1) assms(13-15) size by auto
    have ch2: "ob_inodes (set_obj fs2 h self2) c = Some ch'" using same_shape_objects[OF st(3)] assms(3) by simp
    have "iterate_entries collect (set_obj fs2 h self2) self2 [] = Some (Inr es) \<and> find_id (set_obj fs2 h self2) self2 name = Some (Inr (in_id ch))"
      if "holds_dir n fs2 self2 (split_blocks [] es)" "im_mode (in_metadata self2) = im_mode (in_metadata self)"
      using stored_dir(1)[of n "set_obj fs2 h self2" self2 es] stored_dir(2)[of n "set_obj fs2 h self2" self2 es name nm] that assms(5,9,12) dir_lookup_new[OF False N(3)]
      by (simp add: is_directory_def dirent_of_def)
    then show ?thesis using calculation st(1,2,4) ch2 inc(3) O(2,3) False
      by (intro exI[of _ r] exI[of _ "set_obj fs2 h self2"] exI[of _ self2] exI[of _ P2]) (auto split: if_splits)
  qed
qed

definition demo_objects :: ext2_objects where
  "demo_objects = ext2.extend demo_fs (ext2_objects.fields (\<lambda>_. None) 0)"

definition demo_child :: ext2_inode where
  "demo_child = demo_file\<lparr>in_id := 3\<rparr>"

lemma demo_objects_core: "same_core demo_fs demo_objects"
  by (simp add: same_core_def demo_objects_def ext2.truncate_def ext2.extend_def)

lemma demo_directory:
  "\<exists>fs self P. file_inv 16 fs self P \<and> holds_dir 16 (fs :: ext2_objects) self [[demo_entry 1 [46], demo_entry 2 [46, 46]]] \<and>
     is_directory (in_metadata self) \<and> valid_id fs 3"
proof -
  let ?es = "[demo_entry 1 [46], demo_entry 2 [46, 46]]"
  have ok: "\<forall>e \<in> set ?es. dirent_ok e" using demo_entry_ok[of 1 "[46]"] demo_entry_ok[of 2 "[46, 46]"] by simp
  have sz: "packs ?es" "dir_blocks ?es = 1" "split_blocks [] ?es = [?es]"
    by (simp_all add: dir_bytes_def packs_def dir_blocks_def demo_entry_def entry_size_def)
  have inv: "file_inv 16 demo_objects demo_dir {}" using demo_dir_ok(1) same_core_inv(3)[OF demo_objects_core] by simp
  have g: "growth demo_dir (1024 * dir_blocks ?es) \<le> length (free_list demo_objects)"
    unfolding sz(2) same_core_blocks(5)[OF demo_objects_core] by (simp add: growth_def demo_dir_ok(4) demo_ok(3))
  from write_directory_ok[OF inv ok sz(1)] obtain fs self P where
    w: "file_inv 16 fs self P" "same_shape demo_objects fs" "holds_dir 16 fs self (split_blocks [] ?es)"
      "in_metadata self = (in_metadata demo_dir)\<lparr>im_size := 1024 * dir_blocks ?es\<rparr>"
    using sz(2) demo_dir_ok(3) g by (auto simp: max_blocks_def)
  have "valid_id demo_objects 3" unfolding same_core_blocks(8)[OF demo_objects_core] by (simp add: valid_id_def demo_fs_def)
  then have "valid_id fs 3" using same_shapeD(5,9)[OF w(2)] by (simp add: valid_id_def)
  moreover have "is_directory (in_metadata self)" using w(4) demo_dir_ok(2) by (simp add: is_directory_def)
  ultimately show ?thesis using w(1,3) unfolding sz(3) by blast
qed

theorem add_entry_links_witness:
  "\<exists>(fs :: ext2_objects) fs' self'. add_entry fs 0 \<lparr>ks_size = 2, ks_length = 1, ks_cstring = Some [97, 0]\<rparr> 1 = Some (Inr (Inr (), fs')) \<and>
     iterate_entries collect fs' self' [] = Some (Inr [demo_entry 1 [46], demo_entry 2 [46, 46], dirent_of 3 1 [97]]) \<and>
     find_id fs' self' \<lparr>ks_size = 2, ks_length = 1, ks_cstring = Some [97, 0]\<rparr> = Some (Inr 3)"
proof -
  let ?bs = "[[demo_entry 1 [46], demo_entry 2 [46, 46]]]" and ?nm = "\<lparr>ks_size = 2, ks_length = 1, ks_cstring = Some [97, 0 :: u8]\<rparr>"
  let ?es = "[demo_entry 1 [46], demo_entry 2 [46, 46], dirent_of 3 1 [97]]"
  obtain fs0 :: ext2_objects and self P where d: "file_inv 16 fs0 self P" "holds_dir 16 fs0 self ?bs" "is_directory (in_metadata self)" "valid_id fs0 3"
    using demo_directory by blast
  let ?fs = "set_obj (set_obj fs0 0 self) 1 demo_child"
  have inv: "file_inv 16 ?fs self P" "holds_dir 16 ?fs self ?bs" "valid_id ?fs (in_id demo_child)"
    using d by (simp_all add: demo_child_def same_core_blocks(8)[OF same_core_set_obj])
  have ob: "ob_inodes ?fs 0 = Some self" "ob_inodes ?fs 1 = Some demo_child" "(0 :: nat) \<noteq> 1" "raw_inode_ok (in_raw demo_child)"
    by (simp_all add: demo_child_def demo_file_def raw_inode_ok_def raw_inode_zero_def)
  have s: "str_ok ?nm [97]" using holdsI[of "[97]" "[]"] by (simp add: str_ok_def)
  have es: "?es = concat ?bs @ [dirent_of (in_id demo_child) (file_type (in_metadata demo_child)) [97]]"
    by (simp add: demo_child_def demo_file_def file_type_def is_simple_file_def)
  have sz: "packs ?es" "dir_blocks ?es = 1" by (simp_all add: dir_bytes_def packs_def dir_blocks_def demo_entry_def dirent_of_def entry_size_def)
  have "length (in_block_pointers self) = 1" using file_okD(8)[OF file_invD(3)[OF d(1)]] d(2) by (simp add: holds_dir_def)
  then have g: "growth self (1024 * dir_blocks ?es) = 0" unfolding sz(2) by (simp add: growth_def)
  have nm: "[97] \<notin> dirent_name ` set (concat ?bs)" by (simp add: demo_entry_def dirent_name_def)
  have id: "in_id demo_child = 3" by (simp add: demo_child_def)
  obtain r fs' self' where a: "add_entry ?fs 0 ?nm 1 = Some (Inr (r, fs'))" "r = Inr () \<or> r = Inl ENOSPC \<and> 12 < dir_blocks ?es"
      "iterate_entries collect fs' self' [] = Some (Inr ?es)" "find_id fs' self' ?nm = Some (Inr (in_id demo_child))"
    using add_entry_links[OF ob(1-3) inv(1) d(3) inv(2,3) ob(4) s _ _ es sz(1)] nm g sz(2) by (auto simp: max_blocks_def)
  with sz(2) id show ?thesis by (intro exI[of _ ?fs] exI[of _ fs'] exI[of _ self']) simp
qed

end
