(* ===== verification/Spec2Isabelle.thy ===== *)
theory Spec2Isabelle
  imports PipeThreads Queue LRUCache VMFault DiskFile Ext2TreeRun KString
begin

text \<open>
  A verification development for the kernel of nusaOS (\<open>src/kernel\<close>). The kernel is C++; every
  component below is a shallow embedding of its source, in one theory per component, with the
  properties that make it correct and the exact behaviour where the code does not do what it means to.

  \<^bold>\<open>Conventions.\<close> A class is a record, an operation a function that takes and returns the state. A
  failed \<open>ASSERT\<close>, an access outside an allocation, a use of a dead object, a null dereference, a
  division by zero and signed overflow are values of type \<open>fault\<close> (theory Prelude); \<open>'a run\<close> is a
  computation that may fault, \<open>'a ret\<close> one that may return an error code, \<open>'a prun\<close> one that may
  also not return. Counts and addresses are natural numbers; where 32-bit wrap-around matters it is
  written out (\<open>add32\<close>, \<open>sub32\<close>), and bit fields, registers and bytes are words. An operation
  is one step, also where the code holds its lock only for a part of it (\<open>VMSpace::unmap_region\<close> gives
  up the lock before it frees the region); where operations interleave (Pipe, VMSpace) the
  interleaving is a sequence of such steps or a step relation. PipeThreads is finer: it has the lock in its state and a
  step for each part of an operation.

  \<^bold>\<open>Containers\<close> (\<open>kernel/kstd\<close>). CircularQueue, Queue, Vector, AvlMap, LRUCache and Bitmap model
  \<open>circular_queue.hpp\<close>, \<open>queue.hpp\<close>, \<open>vector.hpp\<close>, \<open>map.hpp\<close>, \<open>LRUCache.h\<close> and \<open>Bitmap.h\<close> down to the
  storage cells and object lifetimes. The contracts are the locales of FifoSpec, SequenceSpec,
  MapSpec; each is interpreted on the model, and clients use only the contract. The theorems show
  that each container refines lists, bounded lists or finite maps for every sequence of operations.

  \<^bold>\<open>Pipes.\<close> Pipe models \<open>filesystem/Pipe.cpp\<close> over CircularQueue and Blocker: bytes come out in the
  order they went in, for every interleaving of readers and writers. PipeThreads splits the operations at the
  points where threads can overtake each other, keeps this result, and shows that closing the last
  writing end can leave a reader parked.

  \<^bold>\<open>Physical memory.\<close> BuddyBlocks, BuddyZone, PageSource, PhysicalPage, PhysicalRegion and
  PhysicalMemory model the buddy allocator, the page array with its overlapping views, physical
  regions and the page interface of \<open>MemoryManager\<close>: allocated blocks are disjoint, freed blocks
  merge, a page has one owner, and the last reference to a page that is not reserved gives it back. The runs of
  requests to a zone are of blocks of a power of two of pages that are returned whole; other sizes (\<open>alloc_pages\<close>) and
  the page by page release of a larger block are defined but not part of those runs. The contract that memory
  objects use (\<open>mm_avail\<close>) is for a manager with one region; releasing a page is shown for any list of regions.

  \<^bold>\<open>Virtual memory.\<close> PageTables models the two-level i386 tables and shows that they implement a
  partial map. VMObject models memory objects and copy on write, VMSpace the layout of an address
  space with its invariant, VMFault page faults and \<open>fork\<close> across the three.

  \<^bold>\<open>Time.\<close> KTime models \<open>time/Time.cpp\<close> and the clock of \<open>time/TimeManager.cpp\<close>.

  \<^bold>\<open>Strings.\<close> KString models the byte and string functions of \<open>kstd/cstring.cpp\<close> and the class of
  \<open>kstd/string.cpp\<close> over storage with bounds: programs of string operations compute the texts that the
  same operations on lists give and stay inside their storage.

  \<^bold>\<open>Disks.\<close> ByteBlocks has the vocabulary of block devices; PataDrive models the command registers
  and transfers of \<open>arch/i386/device/PATADevice.cpp\<close> over a drive that is a parameter. DiskCache and
  DiskFile model the block cache of \<open>device/DiskDevice.cpp\<close> and the byte accesses of \<open>PATADevice\<close> and
  \<open>PartitionDevice\<close> over it. The cache is invisible as long as a write finds the queue of dirty regions empty or its
  own region in it (the search of the queue can otherwise run into dead cells, theory Queue); then reads of any
  range, and writes inside one region, act on an array of bytes.

  \<^bold>\<open>The ext2 file system\<close> (\<open>filesystem/ext2\<close>). FileFs has the block accesses and the inode cache of
  \<open>FileBasedFilesystem\<close>; Ext2Layout the on-disk structures with the offsets of their fields; Ext2Alloc the allocation of
  blocks from the bitmaps of the block groups; FileMeta users, file types and permissions; Ext2Inode the contents of
  files, resizing, block pointers with three levels of indirection and the inode table; Ext2Dir the
  directories; Ext2Tree the operations on several inodes (creating, linking, removing), with inode objects
  in a store because two paths may reach the same one. Ext2AllocSpec and Ext2AllocRun show that the allocator
  implements a set of free blocks and keeps bitmaps, descriptors and counters consistent; Ext2FileSpec, Ext2PtrSpec,
  Ext2LoadSpec and Ext2FileRun that a file without holes is an array of bytes and that an inode is loaded as it was stored;
  Ext2DirRun that a directory whose entries fit into the blocks the code computes for them is the list of its
  entries, and that walking through arbitrary bytes ends; Ext2TreeRun that linking an inode appends an entry. The
  specifications are for the block size of 1 KiB, and for files up to the doubly-indirect range (\<open>max_blocks\<close>,
  64 MiB): a larger file needs a block of pointers to doubly-indirect blocks, which the definitions have and the
  invariants leave out. Operations that shrink a file are defined but not covered by the theorems on whole runs,
  because the code leaves released pointer blocks in the doubly-indirect block.

  \<^bold>\<open>Loops.\<close> Loops with a bound are structural recursion or have a measure. Loops without one
  (\<open>q_contains_loop\<close>, the rebalancing walk of the map, the walk through a directory) are partial functions whose
  result is shown to exist; no fuel is used.

  \<^bold>\<open>Not modelled.\<close> Start-up code, assembly, context switching, interrupt and port I/O, the aarch64 port and the
  other device drivers are hardware access without a functional contract in the source. Processes, the scheduler,
  signals, system calls, the virtual file system with its path names, the synthetic file systems, terminals
  and the network stack act on many objects with reference counts at once; they would need a model of object
  lifetimes across the whole kernel. The libraries, services and programs of user space are separate programs.
  Heap exhaustion inside containers is outside the model because the code does not test for it.
\<close>

end
